(* ===== verification/Cere_Prelude.thy ===== *)
theory Cere_Prelude
  imports Main
begin

text \<open>
  Shared vocabulary of the development. Python exceptions are values of \<open>py_error\<close>, a
  fallible method returns \<open>'a res\<close> (\<open>Inl\<close> the exception, \<open>Inr\<close> the returned value) and
  \<open>res_bind\<close> sequences fallible calls the way an uncaught exception does. The exception's
  message is diagnostic text and is left out; its class is kept. A Python \<open>dict\<close> whose
  iteration order matters is an association list in that order (Python 2 promises no order, so
  every theorem about it holds for every order), any other dict is a map.
\<close>

section \<open>Errors and results\<close>

datatype py_error =
    ValueError
  | KeyError
  | TypeError
  | IndexError
  | AttributeError
  | AssertionError
  | RuntimeError
  | OSError int
  | NotFoundError
  | TooManyRowsError
  | OtherError string

type_synonym 'a res = "py_error + 'a"

definition CerebrumError :: py_error where "CerebrumError = OtherError ''CerebrumError''"

definition res_bind :: "'e + 'a \<Rightarrow> ('a \<Rightarrow> 'e + 'b) \<Rightarrow> 'e + 'b" where
  "res_bind m f = (case m of Inl e \<Rightarrow> Inl e | Inr x \<Rightarrow> f x)"

definition is_ok :: "'e + 'a \<Rightarrow> bool" where
  "is_ok r = (case r of Inl _ \<Rightarrow> False | Inr _ \<Rightarrow> True)"

named_theorems res_simps

lemma res_bind_Inl [simp, res_simps]: "res_bind (Inl e) f = Inl e"
  by (simp add: res_bind_def)

lemma res_bind_Inr [simp, res_simps]: "res_bind (Inr x) f = f x"
  by (simp add: res_bind_def)

lemma res_bind_eq_Inr [res_simps]:
  "res_bind m f = Inr y \<longleftrightarrow> (\<exists>x. m = Inr x \<and> f x = Inr y)"
  by (cases m) auto

lemma res_bind_eq_Inl [res_simps]:
  "res_bind m f = Inl e \<longleftrightarrow> m = Inl e \<or> (\<exists>x. m = Inr x \<and> f x = Inl e)"
  by (cases m) auto

lemma res_bind_cong [fundef_cong]:
  "m = n \<Longrightarrow> (\<And>x. n = Inr x \<Longrightarrow> f x = g x) \<Longrightarrow> res_bind m f = res_bind n g"
  by (cases n) auto

lemma res_bind_assoc: "res_bind (res_bind m f) g = res_bind m (\<lambda>x. res_bind (f x) g)"
  by (cases m) auto

lemma is_ok_simps [simp]: "is_ok (Inr x)" "\<not> is_ok (Inl e)"
  by (simp_all add: is_ok_def)

lemma is_ok_iff: "is_ok r \<longleftrightarrow> (\<exists>x. r = Inr x)"
  by (cases r) auto

text \<open>A query that must have exactly one row.\<close>

definition query_1 :: "'a list \<Rightarrow> 'a res" where
  "query_1 rows = (case rows of [] \<Rightarrow> Inl NotFoundError | [r] \<Rightarrow> Inr r | _ \<Rightarrow> Inl TooManyRowsError)"

lemma query_1_single: "length rows \<le> 1 \<Longrightarrow> query_1 rows = (if rows = [] then Inl NotFoundError else Inr (hd rows))"
  by (cases rows; cases "tl rows") (auto simp: query_1_def)

lemma filter_key_single: "distinct (map f xs) \<Longrightarrow> x \<in> set xs \<Longrightarrow> filter (\<lambda>y. f y = f x) xs = [x]"
proof (induction xs)
  case (Cons a xs)
  show ?case
  proof (cases "a = x")
    case True
    then have "filter (\<lambda>y. f y = f x) xs = []" using Cons.prems(1) by (simp add: filter_empty_conv) (metis image_eqI)
    then show ?thesis using True by simp
  next
    case False
    then have "x \<in> set xs" "f a \<noteq> f x" using Cons.prems by auto
    then show ?thesis using Cons by simp
  qed
qed simp

section \<open>JSON values\<close>

datatype json =
    JNull
  | JBool bool
  | JInt int
  | JStr string
  | JList "json list"
  | JObj "(string \<times> json) list"

section \<open>Lists and dictionaries as Python has them\<close>

text \<open>\<open>list.remove\<close>: the first occurrence goes, and a missing element raises.\<close>

definition py_remove :: "'a \<Rightarrow> 'a list \<Rightarrow> 'a list res" where
  "py_remove x xs = (if x \<in> set xs then Inr (remove1 x xs) else Inl ValueError)"

text \<open>\<open>d[k]\<close> on an association list.\<close>

definition dict_get :: "('k \<times> 'v) list \<Rightarrow> 'k \<Rightarrow> 'v res" where
  "dict_get d k = (case map_of d k of None \<Rightarrow> Inl KeyError | Some v \<Rightarrow> Inr v)"

text \<open>\<open>d[k] = v\<close>: an existing key keeps its place, a new one goes last.\<close>

fun dict_set :: "'k \<Rightarrow> 'v \<Rightarrow> ('k \<times> 'v) list \<Rightarrow> ('k \<times> 'v) list" where
  "dict_set k v [] = [(k, v)]"
| "dict_set k v ((k', v') # d) = (if k' = k then (k, v) # d else (k', v') # dict_set k v d)"

text \<open>\<open>del d[k]\<close> where the key is present.\<close>

definition dict_del :: "'k \<Rightarrow> ('k \<times> 'v) list \<Rightarrow> ('k \<times> 'v) list" where
  "dict_del k d = filter (\<lambda>p. fst p \<noteq> k) d"

abbreviation keys :: "('k \<times> 'v) list \<Rightarrow> 'k list" where
  "keys d \<equiv> map fst d"

lemma py_remove_eq_Inr [res_simps]:
  "py_remove x xs = Inr ys \<longleftrightarrow> x \<in> set xs \<and> ys = remove1 x xs"
  by (auto simp: py_remove_def)

lemma py_remove_mem [simp]: "x \<in> set xs \<Longrightarrow> py_remove x xs = Inr (remove1 x xs)"
  by (simp add: py_remove_def)

lemma py_remove_notin [simp]: "x \<notin> set xs \<Longrightarrow> py_remove x xs = Inl ValueError"
  by (simp add: py_remove_def)

lemma dict_get_eq_Inr [res_simps]: "dict_get d k = Inr v \<longleftrightarrow> map_of d k = Some v"
  by (simp add: dict_get_def split: option.splits)

lemma dict_get_eq_Inl [res_simps]: "dict_get d k = Inl e \<longleftrightarrow> map_of d k = None \<and> e = KeyError"
  by (auto simp: dict_get_def split: option.splits)

lemma dict_get_Some [simp]: "map_of d k = Some v \<Longrightarrow> dict_get d k = Inr v"
  by (simp add: dict_get_def)

lemma dict_get_None [simp]: "map_of d k = None \<Longrightarrow> dict_get d k = Inl KeyError"
  by (simp add: dict_get_def)

lemma map_of_dict_set [simp]: "map_of (dict_set k v d) = (map_of d)(k \<mapsto> v)"
  by (induction d rule: dict_set.induct) (auto simp: fun_eq_iff)

lemma set_keys_dict_set [simp]: "set (keys (dict_set k v d)) = insert k (set (keys d))"
  by (induction d rule: dict_set.induct) auto

lemma keys_dict_set_mem: "k \<in> set (keys d) \<Longrightarrow> keys (dict_set k v d) = keys d"
  by (induction d rule: dict_set.induct) auto

lemma distinct_dict_set [simp]: "distinct (keys d) \<Longrightarrow> distinct (keys (dict_set k v d))"
proof (induction d rule: dict_set.induct)
  case (2 k v k' v' d)
  then show ?case using set_keys_dict_set [of k v d] by auto
qed simp

lemma dict_set_nonempty [simp]: "dict_set k v d \<noteq> []"
  by (cases "(k, v, d)" rule: dict_set.cases) auto

lemma dict_set_new: "k \<notin> set (keys d) \<Longrightarrow> dict_set k v d = d @ [(k, v)]"
  by (induction d rule: dict_set.induct) auto

lemma set_dict_set: "set (dict_set k v d) \<subseteq> insert (k, v) (set d)"
  by (induction d rule: dict_set.induct) auto

lemma snd_dict_set: "snd ` set (dict_set k v d) \<subseteq> insert v (snd ` set d)"
  by (induction d rule: dict_set.induct) auto

lemma map_of_dict_del [simp]: "map_of (dict_del k d) = (map_of d)(k := None)"
  by (induction d) (auto simp: dict_del_def fun_eq_iff)

lemma distinct_dict_del [simp]: "distinct (keys d) \<Longrightarrow> distinct (keys (dict_del k d))"
  by (auto simp: dict_del_def distinct_map intro: inj_on_subset)

lemma set_keys_dict_del [simp]: "set (keys (dict_del k d)) = set (keys d) - {k}"
  by (auto simp: dict_del_def)

lemma map_of_Some_keys: "map_of d k = Some v \<Longrightarrow> k \<in> set (keys d)"
  by (metis map_of_eq_None_iff option.distinct(1) set_map)

lemma keys_map_of_Some: "k \<in> set (keys d) \<Longrightarrow> \<exists>v. map_of d k = Some v"
  by (metis map_of_eq_None_iff not_None_eq set_map)

section \<open>Counting in lists\<close>

lemma count_list_remove1: "count_list (remove1 x xs) y = (if x = y then count_list xs y - 1 else count_list xs y)"
proof (induction xs)
  case (Cons a xs)
  then show ?case by (auto simp: count_list_0_iff)
qed simp

lemma count_list_le1_distinct: "(\<forall>x \<in> set xs. count_list xs x \<le> 1) \<Longrightarrow> distinct xs"
  by (induction xs) (force simp: count_list_0_iff split: if_splits)+

lemma count_list_distinct: "distinct xs \<Longrightarrow> count_list xs x \<le> 1"
  by (induction xs) (auto simp: count_list_0_iff)

section \<open>Searching a list\<close>

lemma find_Some_mem: "find P xs = Some x \<Longrightarrow> x \<in> set xs \<and> P x"
  by (induction xs) (auto split: if_splits)

lemma find_append: "find P (xs @ ys) = (case find P xs of None \<Rightarrow> find P ys | Some x \<Rightarrow> Some x)"
  by (induction xs) auto

lemma find_None_all: "find P xs = None \<Longrightarrow> x \<in> set xs \<Longrightarrow> \<not> P x"
  by (induction xs) (auto split: if_splits)

text \<open>In a sorted list the first element above a bound is the least one above it.\<close>

lemma find_sorted_least:
  fixes xs :: "'a::linorder list"
  shows "sorted xs \<Longrightarrow> find (\<lambda>n. v < n) xs = Some x \<Longrightarrow> y \<in> set xs \<Longrightarrow> v < y \<Longrightarrow> x \<le> y"
  by (induction xs) (auto split: if_splits)

section \<open>Transition systems\<close>

text \<open>The states a step relation reaches, and the principle every invariant proof uses.\<close>

inductive reachable :: "('s \<Rightarrow> bool) \<Rightarrow> ('s \<Rightarrow> 's \<Rightarrow> bool) \<Rightarrow> 's \<Rightarrow> bool" for start step where
  reachable_start: "start s \<Longrightarrow> reachable start step s"
| reachable_step: "reachable start step s \<Longrightarrow> step s t \<Longrightarrow> reachable start step t"

locale invariant_system =
  fixes start :: "'s \<Rightarrow> bool" and step :: "'s \<Rightarrow> 's \<Rightarrow> bool" and inv :: "'s \<Rightarrow> bool"
  assumes inv_start: "start s \<Longrightarrow> inv s"
    and inv_step: "inv s \<Longrightarrow> step s t \<Longrightarrow> inv t"
begin

lemma reachable_inv: "reachable start step s \<Longrightarrow> inv s"
  by (induction rule: reachable.induct) (auto intro: inv_start inv_step)

lemma steps_inv: "step\<^sup>*\<^sup>* s t \<Longrightarrow> inv s \<Longrightarrow> inv t"
  by (induction rule: rtranclp_induct) (auto intro: inv_step)

end

lemma reachable_mono:
  "reachable start step s \<Longrightarrow> (\<And>t. start t \<Longrightarrow> start' t) \<Longrightarrow> reachable start' step s"
  by (induction rule: reachable.induct) (auto intro: reachable.intros)

lemma reachable_steps: "step\<^sup>*\<^sup>* s t \<Longrightarrow> reachable start step s \<Longrightarrow> reachable start step t"
  by (induction rule: rtranclp_induct) (auto intro: reachable_step)

end
