(* ===== verification/Times.thy ===== *)
theory Times
  imports Cere_Prelude
begin

text \<open>
  The crontab-like clock of the job runner: \<^verbatim>\<open>Cerebrum/modules/job_runner/times.py\<close>
  with \<^verbatim>\<open>to_seconds\<close> of \<^verbatim>\<open>Cerebrum/utils/date.py\<close>. Timestamps are whole seconds
  since the epoch. The local time zone is an argument \<open>tz\<close> of every definition that calls
  \<^verbatim>\<open>time.localtime\<close>: the offset from UTC that is in force at a timestamp.
\<close>

section \<open>Seconds and local time\<close>

abbreviation (input) seconds_per_week :: int where "seconds_per_week \<equiv> 604800"
abbreviation (input) seconds_per_day :: int where "seconds_per_day \<equiv> 86400"
abbreviation (input) seconds_per_hour :: int where "seconds_per_hour \<equiv> 3600"
abbreviation (input) seconds_per_min :: int where "seconds_per_min \<equiv> 60"

definition to_seconds :: "int \<Rightarrow> int \<Rightarrow> int \<Rightarrow> int \<Rightarrow> int \<Rightarrow> int" where
  "to_seconds weeks days hours minutes seconds =
     weeks * seconds_per_week + days * seconds_per_day + hours * seconds_per_hour
       + minutes * seconds_per_min + seconds"

text \<open>
  The fields \<^verbatim>\<open>[3:7]\<close> of \<^verbatim>\<open>time.localtime\<close>: hour, minute, second and weekday with
  Monday as 0. Day 0 of the epoch is a Thursday.
\<close>

definition localtime :: "(int \<Rightarrow> int) \<Rightarrow> int \<Rightarrow> int \<times> int \<times> int \<times> int" where
  "localtime tz t =
     (let l = t + tz t
      in (l mod 86400 div 3600, l mod 3600 div 60, l mod 60, (l div 86400 + 3) mod 7))"

section \<open>Time specifications\<close>

record time_spec =
  t_min :: "int list option"
  t_hour :: "int list option"
  t_wday :: "int list option"
  t_max_freq :: int

definition mk_time ::
  "int list option \<Rightarrow> int list option \<Rightarrow> int list option \<Rightarrow> int option \<Rightarrow> time_spec" where
  "mk_time mn hr wd mf =
     \<lparr>t_min = map_option sort mn, t_hour = map_option sort hr, t_wday = map_option sort wd,
      t_max_freq = (case mf of None \<Rightarrow> 0 | Some f \<Rightarrow> f)\<rparr>"

definition not_in :: "int \<Rightarrow> int list option \<Rightarrow> bool" where
  "not_in v f = (case f of None \<Rightarrow> False | Some xs \<Rightarrow> v \<notin> set xs)"

text \<open>
  \<^verbatim>\<open>_next_list_value\<close>: the first entry above the value, else the least entry and the wrap
  flag. \<^verbatim>\<open>min\<close> of an empty list raises.
\<close>

definition next_list_value :: "int \<Rightarrow> int list \<Rightarrow> (int \<times> bool) res" where
  "next_list_value v xs =
     (case find (\<lambda>n. v < n) xs of
        Some n \<Rightarrow> Inr (n, False)
      | None \<Rightarrow> if xs = [] then Inl ValueError else Inr (Min (set xs), True))"

definition delta_to_leave :: "(int \<Rightarrow> int) \<Rightarrow> time_spec \<Rightarrow> int \<Rightarrow> int option" where
  "delta_to_leave tz ts t =
     (case localtime tz t of (hour, mn, sec, wday) \<Rightarrow>
        if t_wday ts \<noteq> None \<and> \<not> not_in wday (t_wday ts)
        then Some (to_seconds 0 1 0 0 0 - to_seconds 0 0 hour mn sec)
        else if t_hour ts \<noteq> None \<and> \<not> not_in hour (t_hour ts)
        then Some (to_seconds 0 0 0 (60 - mn) 0)
        else if t_min ts \<noteq> None \<and> \<not> not_in mn (t_min ts)
        then Some (to_seconds 0 0 0 0 (60 - sec))
        else None)"

section \<open>The search for the next matching time\<close>

text \<open>
  The loop variables of \<^verbatim>\<open>Time.next_time\<close>, and what one pass of its body does: start over
  (\<^verbatim>\<open>continue\<close>) with new variables or return.
\<close>

record nt_vars =
  nt_hour :: int
  nt_min :: int
  nt_wday :: int
  nt_add_week :: int

datatype nt_step = Continue nt_vars | Return int

definition wday_stage :: "time_spec \<Rightarrow> nt_vars \<Rightarrow> nt_vars res" where
  "wday_stage ts v =
     (case t_wday ts of
        None \<Rightarrow> Inr v
      | Some ds \<Rightarrow>
          if nt_wday v \<in> set ds then Inr v
          else res_bind (next_list_value (nt_wday v) ds) (\<lambda>(t, wrap).
            Inr (v\<lparr>nt_hour := 0, nt_min := 0, nt_wday := t,
                   nt_add_week := (if wrap then 1 else nt_add_week v)\<rparr>)))"

text \<open>The flag of the next two stages says that the value wrapped, so the loop starts over.\<close>

definition hour_stage :: "time_spec \<Rightarrow> nt_vars \<Rightarrow> (nt_vars \<times> bool) res" where
  "hour_stage ts v =
     (case t_hour ts of
        None \<Rightarrow> Inr (v, False)
      | Some hs \<Rightarrow>
          if nt_hour v \<in> set hs then Inr (v, False)
          else res_bind (next_list_value (nt_hour v) hs) (\<lambda>(t, wrap).
            Inr (if wrap then (v\<lparr>nt_min := 0, nt_hour := t, nt_wday := nt_wday v + 1\<rparr>, True)
                 else (v\<lparr>nt_min := 0, nt_hour := t\<rparr>, False))))"

definition min_stage :: "time_spec \<Rightarrow> nt_vars \<Rightarrow> (nt_vars \<times> bool) res" where
  "min_stage ts v =
     (case t_min ts of
        None \<Rightarrow> Inr (v, False)
      | Some ms \<Rightarrow>
          if nt_min v \<in> set ms then Inr (v, False)
          else res_bind (next_list_value (nt_min v) ms) (\<lambda>(t, wrap).
            Inr (if wrap then (v\<lparr>nt_min := t, nt_hour := nt_hour v + 1\<rparr>, True)
                 else (v\<lparr>nt_min := t\<rparr>, False))))"

definition bump :: "time_spec \<Rightarrow> nt_vars \<Rightarrow> nt_vars" where
  "bump ts v =
     (if t_min ts \<noteq> None then v\<lparr>nt_min := nt_min v + 1\<rparr>
      else if t_hour ts \<noteq> None then v\<lparr>nt_hour := nt_hour v + 1\<rparr>
      else if t_wday ts \<noteq> None then v\<lparr>nt_wday := nt_wday v + 1\<rparr>
      else v)"

definition week_start_delta :: "(int \<Rightarrow> int) \<Rightarrow> int \<Rightarrow> int" where
  "week_start_delta tz prev =
     (case localtime tz prev of (hour, mn, sec, wday) \<Rightarrow> to_seconds 0 wday hour mn sec)"

definition candidate :: "nt_vars \<Rightarrow> int" where
  "candidate v = to_seconds (nt_add_week v) (nt_wday v) (nt_hour v) (nt_min v) 0"

definition next_time_body :: "(int \<Rightarrow> int) \<Rightarrow> time_spec \<Rightarrow> int \<Rightarrow> nt_vars \<Rightarrow> nt_step res" where
  "next_time_body tz ts prev v =
     res_bind (wday_stage ts v) (\<lambda>v1.
     res_bind (hour_stage ts v1) (\<lambda>(v2, wrapped).
       if wrapped then Inr (Continue v2)
       else res_bind (min_stage ts v2) (\<lambda>(v3, wrapped).
         if wrapped then Inr (Continue v3)
         else let ret = candidate v3 - week_start_delta tz prev
              in Inr (if ret \<le> 0 then Continue (bump ts v3) else Return ret))))"

fun next_time_loop :: "nat \<Rightarrow> (int \<Rightarrow> int) \<Rightarrow> time_spec \<Rightarrow> int \<Rightarrow> nt_vars \<Rightarrow> int res" where
  "next_time_loop 0 tz ts prev v = Inl ValueError"
| "next_time_loop (Suc n) tz ts prev v =
     res_bind (next_time_body tz ts prev v) (\<lambda>s.
       case s of Continue v' \<Rightarrow> next_time_loop n tz ts prev v' | Return r \<Rightarrow> Inr r)"

definition start_vars :: "(int \<Rightarrow> int) \<Rightarrow> time_spec \<Rightarrow> int \<Rightarrow> nt_vars" where
  "start_vars tz ts prev =
     (case localtime tz (prev + t_max_freq ts) of (hour, mn, sec, wday) \<Rightarrow>
        \<lparr>nt_hour = hour, nt_min = mn, nt_wday = wday, nt_add_week = 0\<rparr>)"

definition next_time :: "(int \<Rightarrow> int) \<Rightarrow> time_spec \<Rightarrow> int \<Rightarrow> int res" where
  "next_time tz ts prev = next_time_loop 10 tz ts prev (start_vars tz ts prev)"

section \<open>When a job runs\<close>

text \<open>\<^verbatim>\<open>When\<close> takes a frequency or a list of times, never both.\<close>

datatype when_spec = Freq int | At "time_spec list"

definition mk_when :: "int option \<Rightarrow> time_spec list option \<Rightarrow> when_spec res" where
  "mk_when fr tm =
     (case (fr, tm) of
        (Some f, None) \<Rightarrow> Inr (Freq f)
      | (None, Some ts) \<Rightarrow> Inr (At ts)
      | _ \<Rightarrow> Inl AssertionError)"

fun next_times :: "(int \<Rightarrow> int) \<Rightarrow> time_spec list \<Rightarrow> int \<Rightarrow> int \<Rightarrow> int list res" where
  "next_times tz [] last_t cur_t = Inr []"
| "next_times tz (ts # rest) last_t cur_t =
     res_bind (next_time tz ts last_t) (\<lambda>d.
     res_bind (next_times tz rest last_t cur_t) (\<lambda>ds. Inr ((d + last_t - cur_t) # ds)))"

definition when_next_delta :: "(int \<Rightarrow> int) \<Rightarrow> when_spec \<Rightarrow> int \<Rightarrow> int \<Rightarrow> int res" where
  "when_next_delta tz w last_t cur_t =
     (case w of
        Freq f \<Rightarrow> Inr (last_t + f - cur_t)
      | At tss \<Rightarrow> res_bind (next_times tz tss last_t cur_t) (\<lambda>ds.
          if ds = [] then Inl ValueError else Inr (Min (set ds))))"


section \<open>Correctness of the search\<close>

text \<open>
  A specification with minutes and hours (and weekdays or none) is well formed when its lists
  are sorted, non-empty and in the range of the field.
\<close>

definition field_ok :: "int \<Rightarrow> int list \<Rightarrow> bool" where
  "field_ok n xs \<longleftrightarrow> xs \<noteq> [] \<and> sorted xs \<and> (\<forall>x \<in> set xs. 0 \<le> x \<and> x < n)"

definition spec_ok :: "time_spec \<Rightarrow> bool" where
  "spec_ok ts \<longleftrightarrow>
     (\<exists>ms. t_min ts = Some ms \<and> field_ok 60 ms) \<and>
     (\<exists>hs. t_hour ts = Some hs \<and> field_ok 24 hs) \<and>
     (case t_wday ts of None \<Rightarrow> True | Some ds \<Rightarrow> field_ok 7 ds) \<and> t_max_freq ts = 0"

text \<open>The broken-down times a specification names: on the minute, with every set field listed.\<close>

definition time_matches :: "time_spec \<Rightarrow> int \<times> int \<times> int \<times> int \<Rightarrow> bool" where
  "time_matches ts lt =
     (case lt of (hour, mn, sec, wday) \<Rightarrow>
        sec = 0 \<and> \<not> not_in mn (t_min ts) \<and> \<not> not_in hour (t_hour ts) \<and> \<not> not_in wday (t_wday ts))"

lemma next_list_value_cases:
  assumes "field_ok n xs"
  obtains (up) t where "next_list_value v xs = Inr (t, False)" "t \<in> set xs" "v < t"
      "\<And>y. y \<in> set xs \<Longrightarrow> v < y \<Longrightarrow> t \<le> y"
    | (wrap) t where "next_list_value v xs = Inr (t, True)" "t \<in> set xs"
      "\<And>y. y \<in> set xs \<Longrightarrow> y \<le> v" "\<And>y. y \<in> set xs \<Longrightarrow> t \<le> y"
proof (cases "find (\<lambda>n. v < n) xs")
  case None
  then have "\<And>y. y \<in> set xs \<Longrightarrow> y \<le> v" by (meson find_None_all not_le)
  moreover have "xs \<noteq> []" using assms by (simp add: field_ok_def)
  ultimately show ?thesis using None that(2) [of "Min (set xs)"]
    by (simp add: next_list_value_def)
next
  case (Some t)
  have "sorted xs" using assms by (simp add: field_ok_def)
  with Some show ?thesis using that(1) [of t] find_Some_mem [OF Some] find_sorted_least [of xs v t]
    by (simp add: next_list_value_def)
qed

text \<open>
  The search walks through (day, hour, minute) triples in lexicographic order, days counted from
  the Monday of the previous run's week. \<open>noskip\<close> says that no matching triple later than the
  previous run lies before the current one.
\<close>

definition lexlt :: "int \<Rightarrow> int \<Rightarrow> int \<Rightarrow> int \<Rightarrow> int \<Rightarrow> int \<Rightarrow> bool" where
  "lexlt d' h' m' d h m \<longleftrightarrow> d' < d \<or> d' = d \<and> (h' < h \<or> h' = h \<and> m' < m)"

definition hits :: "time_spec \<Rightarrow> int \<Rightarrow> int \<Rightarrow> int \<Rightarrow> bool" where
  "hits ts d h m \<longleftrightarrow> 0 \<le> d \<and> \<not> not_in (d mod 7) (t_wday ts) \<and> \<not> not_in h (t_hour ts)
     \<and> \<not> not_in m (t_min ts)"

definition noskip :: "time_spec \<Rightarrow> int \<Rightarrow> int \<Rightarrow> int \<Rightarrow> int \<Rightarrow> bool" where
  "noskip ts W d h m \<longleftrightarrow>
     (\<forall>d' h' m'. hits ts d' h' m' \<longrightarrow> W < d' * 86400 + h' * 3600 + m' * 60 \<longrightarrow>
        \<not> lexlt d' h' m' d h m)"

lemma noskip_step:
  assumes "noskip ts W d h m"
    and "\<And>d' h' m'. hits ts d' h' m' \<Longrightarrow> W < d' * 86400 + h' * 3600 + m' * 60 \<Longrightarrow>
           lexlt d' h' m' d2 h2 m2 \<Longrightarrow> \<not> lexlt d' h' m' d h m \<Longrightarrow> False"
  shows "noskip ts W d2 h2 m2"
  using assms unfolding noskip_def by blast

lemma noskip_min_up:
  assumes "noskip ts W d h m" "t_min ts = Some ms" "m \<notin> set ms" "\<And>y. y \<in> set ms \<Longrightarrow> m < y \<Longrightarrow> t \<le> y"
  shows "noskip ts W d h t"
  using assms(1) by (rule noskip_step)
    (use assms(2-4) in \<open>force simp: lexlt_def hits_def not_in_def\<close>)

lemma noskip_min_wrap:
  assumes "noskip ts W d h m" "t_min ts = Some ms" "m \<notin> set ms" "\<And>y. y \<in> set ms \<Longrightarrow> y \<le> m"
    "\<And>y. y \<in> set ms \<Longrightarrow> t \<le> y"
  shows "noskip ts W d (h + 1) t"
  using assms(1) by (rule noskip_step)
    (use assms(2-5) in \<open>force simp: lexlt_def hits_def not_in_def\<close>)

lemma noskip_hour_up:
  assumes "noskip ts W d h m" "t_hour ts = Some hs" "h \<notin> set hs" "\<And>y. y \<in> set hs \<Longrightarrow> h < y \<Longrightarrow> t \<le> y"
    "t_min ts = Some ms" "\<And>y. y \<in> set ms \<Longrightarrow> 0 \<le> y"
  shows "noskip ts W d t 0"
  using assms(1) by (rule noskip_step)
    (use assms(2-6) in \<open>force simp: lexlt_def hits_def not_in_def\<close>)

lemma noskip_hour_wrap:
  assumes "noskip ts W d h m" "t_hour ts = Some hs" "h \<notin> set hs" "\<And>y. y \<in> set hs \<Longrightarrow> y \<le> h"
    "\<And>y. y \<in> set hs \<Longrightarrow> t \<le> y" "t_min ts = Some ms" "\<And>y. y \<in> set ms \<Longrightarrow> 0 \<le> y"
  shows "noskip ts W (d + 1) t 0"
  using assms(1) by (rule noskip_step)
    (use assms(2-7) in \<open>force simp: lexlt_def hits_def not_in_def\<close>)

lemma noskip_day:
  assumes "noskip ts W d h m" "\<And>d'. d \<le> d' \<Longrightarrow> d' < d2 \<Longrightarrow> 0 \<le> d' \<Longrightarrow> not_in (d' mod 7) (t_wday ts)"
    "t_hour ts = Some hs" "\<And>y. y \<in> set hs \<Longrightarrow> 0 \<le> y" "t_min ts = Some ms" "\<And>y. y \<in> set ms \<Longrightarrow> 0 \<le> y"
  shows "noskip ts W d2 0 0"
  using assms(1)
proof (rule noskip_step)
  fix d' h' m'
  assume *: "hits ts d' h' m'" "lexlt d' h' m' d2 0 0" "\<not> lexlt d' h' m' d h m"
  then have "0 \<le> h'" "0 \<le> m'" using assms(3-6) by (auto simp: hits_def not_in_def)
  with * have "d' < d2" "d \<le> d'" "0 \<le> d'" by (auto simp: lexlt_def hits_def)
  with * assms(2) show False by (auto simp: hits_def)
qed

lemma noskip_bump:
  assumes "noskip ts W d h m" "d * 86400 + h * 3600 + m * 60 \<le> W"
  shows "noskip ts W d h (m + 1)"
  using assms(1) by (rule noskip_step) (use assms(2) in \<open>auto simp: lexlt_def\<close>)

lemma noskip_start:
  assumes "0 \<le> s" "0 \<le> h" "0 \<le> m" "\<And>h'. \<not> not_in h' (t_hour ts) \<Longrightarrow> h' < 24"
    "\<And>m'. \<not> not_in m' (t_min ts) \<Longrightarrow> m' < 60"
  shows "noskip ts (d * 86400 + h * 3600 + m * 60 + s) d h m"
  using assms(1-3) unfolding noskip_def lexlt_def hits_def by (force dest: assms(4,5))

text \<open>
  What holds at the top of the loop, for a previous run on day \<open>w\<close> at \<open>h:m:s\<close>: the variables
  are at most one step out of range, the search has not fallen behind the previous run and has
  skipped nothing.
\<close>

abbreviation (input) day_of :: "nt_vars \<Rightarrow> int" where
  "day_of v \<equiv> 7 * nt_add_week v + nt_wday v"

definition nt_inv :: "time_spec \<Rightarrow> int \<Rightarrow> int \<Rightarrow> int \<Rightarrow> int \<Rightarrow> nt_vars \<Rightarrow> bool" where
  "nt_inv ts w h m s v \<longleftrightarrow>
     nt_add_week v = 0 \<and> 0 \<le> nt_min v \<and> nt_min v \<le> 60 \<and> 0 \<le> nt_hour v \<and> nt_hour v \<le> 24 \<and>
     0 \<le> nt_wday v \<and> nt_wday v \<le> 7 \<and>
     (nt_wday v = 7 \<longrightarrow> \<not> not_in (nt_hour v) (t_hour ts) \<and> nt_min v = 0) \<and>
     \<not> lexlt (nt_wday v) (nt_hour v) (nt_min v) w h m \<and>
     (nt_hour v = 24 \<longrightarrow> \<not> not_in (nt_wday v) (t_wday ts)) \<and>
     noskip ts (w * 86400 + h * 3600 + m * 60 + s) (nt_wday v) (nt_hour v) (nt_min v)"

text \<open>What holds of the variables a pass returns with.\<close>

definition nt_hit :: "time_spec \<Rightarrow> int \<Rightarrow> nt_vars \<Rightarrow> bool" where
  "nt_hit ts W v \<longleftrightarrow> hits ts (day_of v) (nt_hour v) (nt_min v) \<and> W < candidate v \<and>
     noskip ts W (day_of v) (nt_hour v) (nt_min v)"

text \<open>How many more passes a state can need.\<close>

definition nt_rank :: "time_spec \<Rightarrow> int \<Rightarrow> nt_vars \<Rightarrow> nat" where
  "nt_rank ts W v =
     (if candidate v \<le> W then 3
      else if \<not> not_in (nt_hour v) (t_hour ts) \<and> (\<forall>y \<in> set (the (t_min ts)). y < nt_min v) then 2
      else if not_in (nt_hour v) (t_hour ts) then 1 else 0)"

lemma candidate_day: "candidate v = day_of v * 86400 + nt_hour v * 3600 + nt_min v * 60"
  by (simp add: candidate_def to_seconds_def)

lemma wday_stage_inv:
  assumes ok: "spec_ok ts" and inv: "nt_inv ts w h m s v" and w: "w < 7"
  obtains (same) "wday_stage ts v = Inr v" "\<not> not_in (nt_wday v) (t_wday ts)"
    | (fresh) v1 where "wday_stage ts v = Inr v1" "nt_hour v1 = 0" "nt_min v1 = 0" "w < day_of v1"
      "\<not> not_in (day_of v1 mod 7) (t_wday ts)" "noskip ts (w * 86400 + h * 3600 + m * 60 + s) (day_of v1) 0 0"
proof (cases "not_in (nt_wday v) (t_wday ts)")
  case False
  then show ?thesis using same by (auto simp: wday_stage_def not_in_def split: option.splits)
next
  case True
  then obtain ds where ds: "t_wday ts = Some ds" "nt_wday v \<notin> set ds"
    by (auto simp: not_in_def split: option.splits)
  from ok obtain ms hs where mh: "t_min ts = Some ms" "field_ok 60 ms" "t_hour ts = Some hs" "field_ok 24 hs"
    by (auto simp: spec_ok_def)
  from ok ds have fd: "field_ok 7 ds" by (simp add: spec_ok_def)
  have day: "noskip ts (w * 86400 + h * 3600 + m * 60 + s) d2 0 0"
    if "\<And>d'. nt_wday v \<le> d' \<Longrightarrow> d' < d2 \<Longrightarrow> 0 \<le> d' \<Longrightarrow> not_in (d' mod 7) (t_wday ts)" for d2
    by (rule noskip_day [where hs = hs and ms = ms and d = "nt_wday v"])
      (use inv that mh in \<open>auto simp: nt_inv_def field_ok_def\<close>)
  have wv: "w \<le> nt_wday v" using inv by (auto simp: nt_inv_def lexlt_def)
  have bnd: "\<And>y. y \<in> set ds \<Longrightarrow> 0 \<le> y \<and> y < 7" "0 \<le> nt_wday v" "nt_add_week v = 0"
    using fd inv by (auto simp: field_ok_def nt_inv_def)
  from fd show ?thesis
  proof (cases rule: next_list_value_cases [where v = "nt_wday v"])
    case (up t)
    have "noskip ts (w * 86400 + h * 3600 + m * 60 + s) t 0 0"
    proof (rule day)
      fix d' assume "nt_wday v \<le> d'" "d' < t" "0 \<le> d'"
      moreover from this bnd up have "d' mod 7 = d'" "nt_wday v \<noteq> d' \<longrightarrow> d' \<notin> set ds" by force+
      ultimately show "not_in (d' mod 7) (t_wday ts)" using ds by (auto simp: not_in_def)
    qed
    with up ds bnd wv show ?thesis
      by (intro fresh [of "v\<lparr>nt_hour := 0, nt_min := 0, nt_wday := t\<rparr>"])
        (auto simp: wday_stage_def not_in_def)
  next
    case (wrap t)
    have "noskip ts (w * 86400 + h * 3600 + m * 60 + s) (7 + t) 0 0"
    proof (rule day)
      fix d' assume d': "nt_wday v \<le> d'" "d' < 7 + t" "0 \<le> d'"
      have "d' mod 7 \<notin> set ds"
      proof (cases "d' < 7")
        case True
        then have "d' mod 7 = d'" using d' by simp
        then show ?thesis using wrap(3) [of d'] d' ds by force
      next
        case False
        then have "d' mod 7 = d' - 7" using d' bnd(1) [OF wrap(2)] by presburger
        then show ?thesis using wrap(4) [of "d' - 7"] d' by force
      qed
      then show "not_in (d' mod 7) (t_wday ts)" using ds by (simp add: not_in_def)
    qed
    moreover have "t mod 7 = t" "w < 7 + t" using bnd(1) [OF wrap(2)] w by simp_all
    ultimately show ?thesis using wrap(1,2) ds bnd(3)
      by (intro fresh [of "v\<lparr>nt_hour := 0, nt_min := 0, nt_wday := t, nt_add_week := 1\<rparr>"])
        (auto simp: wday_stage_def not_in_def)
  qed
qed

text \<open>From minute 0 on, the first listed minute is found without a wrap.\<close>

lemma min_stage_zero:
  assumes ms: "t_min ts = Some ms" "field_ok 60 ms" and v: "nt_min v = 0" "noskip ts W (day_of v) (nt_hour v) 0"
  shows "\<exists>v3. min_stage ts v = Inr (v3, False) \<and> nt_min v3 \<in> set ms \<and> nt_hour v3 = nt_hour v \<and>
    day_of v3 = day_of v \<and> noskip ts W (day_of v3) (nt_hour v3) (nt_min v3)"
proof (cases "0 \<in> set ms")
  case True
  then show ?thesis using ms v by (simp add: min_stage_def)
next
  case False
  from ms(2) show ?thesis
  proof (cases rule: next_list_value_cases [where v = 0])
    case (up t)
    then have "noskip ts W (day_of v) (nt_hour v) t"
      using noskip_min_up [OF v(2) ms(1) False] by auto
    with up False v ms show ?thesis by (simp add: min_stage_def)
  next
    case (wrap t)
    with False ms(2) show ?thesis by (auto simp: field_ok_def) (metis antisym)
  qed
qed

text \<open>From a fresh day, midnight on, the first listed hour and minute are found in one pass.\<close>

lemma body_fresh:
  assumes ok: "spec_ok ts" and wst: "wday_stage ts v = Inr v1" "nt_hour v1 = 0" "nt_min v1 = 0"
    and day: "0 \<le> w" "w < day_of v1" "\<not> not_in (day_of v1 mod 7) (t_wday ts)" "noskip ts W (day_of v1) 0 0"
    and W: "W = week_start_delta tz prev" "W < (w + 1) * 86400"
  shows "\<exists>v3. next_time_body tz ts prev v = Inr (Return (candidate v3 - W)) \<and> nt_hit ts W v3"
proof -
  from ok obtain ms hs where mh: "t_min ts = Some ms" "field_ok 60 ms" "t_hour ts = Some hs" "field_ok 24 hs"
    by (auto simp: spec_ok_def)
  have msb: "\<And>y. y \<in> set ms \<Longrightarrow> 0 \<le> y" and hsb: "\<And>y. y \<in> set hs \<Longrightarrow> 0 \<le> y"
    using mh by (auto simp: field_ok_def)
  have "\<exists>v2. hour_stage ts v1 = Inr (v2, False) \<and> nt_hour v2 \<in> set hs \<and> nt_min v2 = 0 \<and>
      day_of v2 = day_of v1 \<and> noskip ts W (day_of v1) (nt_hour v2) 0"
  proof (cases "0 \<in> set hs")
    case True
    then show ?thesis using mh wst day by (simp add: hour_stage_def)
  next
    case False
    from mh(4) show ?thesis
    proof (cases rule: next_list_value_cases [where v = 0])
      case (up t)
      then have "noskip ts W (day_of v1) t 0"
        using noskip_hour_up [OF day(4) mh(3) False] mh(1) msb by auto
      with up False wst mh show ?thesis by (simp add: hour_stage_def)
    next
      case (wrap t)
      with False hsb show ?thesis by (metis antisym)
    qed
  qed
  then obtain v2 where v2: "hour_stage ts v1 = Inr (v2, False)" "nt_hour v2 \<in> set hs" "nt_min v2 = 0"
    "day_of v2 = day_of v1" "noskip ts W (day_of v2) (nt_hour v2) 0" by metis
  obtain v3 where v3: "min_stage ts v2 = Inr (v3, False)" "nt_min v3 \<in> set ms" "nt_hour v3 = nt_hour v2"
    "day_of v3 = day_of v2" "noskip ts W (day_of v3) (nt_hour v3) (nt_min v3)"
    using min_stage_zero [OF mh(1,2) v2(3,5)] by metis
  have "0 \<le> nt_min v3" "0 \<le> nt_hour v3" using v2 v3 msb hsb by auto
  then have "W < candidate v3" using v3(4) v2(4) day(2) W(2) by (simp add: candidate_day)
  moreover have "hits ts (day_of v3) (nt_hour v3) (nt_min v3)"
    using v2 v3 mh day by (simp add: hits_def not_in_def)
  ultimately show ?thesis using wst v2(1) v3(1,5) W(1)
    by (intro exI [of _ v3]) (simp add: next_time_body_def nt_hit_def)
qed

text \<open>
  A pass that starts on a listed weekday returns, or goes round with the invariant kept and
  fewer passes left to go.
\<close>

lemma body_same_hour:
  assumes ok: "spec_ok ts" and inv: "nt_inv ts w h m s v"
    and wok: "wday_stage ts v = Inr v" "\<not> not_in (nt_wday v) (t_wday ts)"
    and t0: "w < 7" "0 \<le> h" "h < 24" "0 \<le> m" "m < 60" "0 \<le> s" "s < 60"
    and W: "W = w * 86400 + h * 3600 + m * 60 + s" "W = week_start_delta tz prev"
    and hour: "not_in (nt_hour v) (t_hour ts)"
  shows "(\<exists>v3. next_time_body tz ts prev v = Inr (Return (candidate v3 - W)) \<and> nt_hit ts W v3) \<or>
    (\<exists>v'. next_time_body tz ts prev v = Inr (Continue v') \<and> nt_inv ts w h m s v' \<and> nt_rank ts W v' < nt_rank ts W v)"
proof -
  from ok obtain ms hs where mh: "t_min ts = Some ms" "field_ok 60 ms" "t_hour ts = Some hs" "field_ok 24 hs"
    by (auto simp: spec_ok_def)
  have msb: "\<And>y. y \<in> set ms \<Longrightarrow> 0 \<le> y \<and> y < 60" and hsb: "\<And>y. y \<in> set hs \<Longrightarrow> 0 \<le> y \<and> y < 24"
    and ne: "ms \<noteq> []" using mh by (auto simp: field_ok_def)
  have ns: "noskip ts W (nt_wday v) (nt_hour v) (nt_min v)" and aw: "nt_add_week v = 0"
    and vb: "0 \<le> nt_min v" "0 \<le> nt_hour v" "0 \<le> nt_wday v" "nt_wday v \<le> 6"
    and behind: "\<not> lexlt (nt_wday v) (nt_hour v) (nt_min v) w h m"
    using inv hour W(1) by (auto simp: nt_inv_def)
  have hn: "nt_hour v \<notin> set hs" using hour mh by (simp add: not_in_def)
  from mh(4) show ?thesis
  proof (cases rule: next_list_value_cases [where v = "nt_hour v"])
    case (up t)
    let ?v2 = "v\<lparr>nt_min := 0, nt_hour := t\<rparr>"
    have "noskip ts W (nt_wday v) t 0"
      using noskip_hour_up [OF ns mh(3) hn up(4) mh(1)] msb by auto
    then obtain v3 where v3: "min_stage ts ?v2 = Inr (v3, False)" "nt_min v3 \<in> set ms" "nt_hour v3 = t"
      "day_of v3 = nt_wday v" "noskip ts W (day_of v3) (nt_hour v3) (nt_min v3)"
      using min_stage_zero [OF mh(1,2), of ?v2 W] aw by auto
    have "W < candidate v3"
      using behind up(3) msb [OF v3(2)] v3(3,4) t0 W(1) hsb [OF up(2)] by (auto simp: candidate_day lexlt_def)
    moreover have "hits ts (day_of v3) (nt_hour v3) (nt_min v3)"
      using v3 mh up(2) vb wok(2) by (simp add: hits_def not_in_def)
    ultimately have "next_time_body tz ts prev v = Inr (Return (candidate v3 - W)) \<and> nt_hit ts W v3"
      using wok(1) up(1) hn mh v3 W(2) by (simp add: next_time_body_def hour_stage_def nt_hit_def)
    then show ?thesis by blast
  next
    case (wrap t)
    let ?v' = "v\<lparr>nt_min := 0, nt_hour := t, nt_wday := nt_wday v + 1\<rparr>"
    have "noskip ts W (nt_wday v + 1) t 0"
      using noskip_hour_wrap [OF ns mh(3) hn wrap(3,4) mh(1)] msb by auto
    then have inv': "nt_inv ts w h m s ?v'"
      using behind wrap(2) hsb [OF wrap(2)] vb aw mh W(1) by (auto simp: nt_inv_def lexlt_def not_in_def)
    have "W < candidate ?v'" using behind hsb [OF wrap(2)] t0 W(1) aw by (auto simp: candidate_day lexlt_def)
    moreover have "\<exists>y \<in> set ms. \<not> y < 0" using ne msb by (metis list.set_intros(1) neq_Nil_conv not_less)
    ultimately have "nt_rank ts W ?v' = 0" using mh wrap(2) by (auto simp: nt_rank_def not_in_def)
    moreover have "0 < nt_rank ts W v" using hour by (simp add: nt_rank_def)
    moreover have "next_time_body tz ts prev v = Inr (Continue ?v')"
      using wok(1) wrap(1) hn mh by (simp add: next_time_body_def hour_stage_def)
    ultimately show ?thesis using inv' by auto
  qed
qed

lemma body_same_min:
  assumes ok: "spec_ok ts" and inv: "nt_inv ts w h m s v"
    and wok: "wday_stage ts v = Inr v" "\<not> not_in (nt_wday v) (t_wday ts)"
    and t0: "w < 7" "0 \<le> h" "h < 24" "0 \<le> m" "m < 60" "0 \<le> s" "s < 60"
    and W: "W = w * 86400 + h * 3600 + m * 60 + s" "W = week_start_delta tz prev"
    and hour: "\<not> not_in (nt_hour v) (t_hour ts)"
  shows "(\<exists>v3. next_time_body tz ts prev v = Inr (Return (candidate v3 - W)) \<and> nt_hit ts W v3) \<or>
    (\<exists>v'. next_time_body tz ts prev v = Inr (Continue v') \<and> nt_inv ts w h m s v' \<and> nt_rank ts W v' < nt_rank ts W v)"
proof -
  from ok obtain ms hs where mh: "t_min ts = Some ms" "field_ok 60 ms" "t_hour ts = Some hs" "field_ok 24 hs"
    by (auto simp: spec_ok_def)
  have msb: "\<And>y. y \<in> set ms \<Longrightarrow> 0 \<le> y \<and> y < 60" and hsb: "0 \<le> nt_hour v \<and> nt_hour v < 24"
    using mh hour by (auto simp: field_ok_def not_in_def)
  have ns: "noskip ts W (nt_wday v) (nt_hour v) (nt_min v)" and aw: "nt_add_week v = 0"
    and vb: "0 \<le> nt_min v" "0 \<le> nt_wday v" "nt_wday v \<le> 7"
    and seven: "nt_wday v = 7 \<Longrightarrow> nt_min v = 0"
    and behind: "\<not> lexlt (nt_wday v) (nt_hour v) (nt_min v) w h m"
    using inv W(1) by (auto simp: nt_inv_def)
  have hst: "hour_stage ts v = Inr (v, False)" using hour mh by (simp add: hour_stage_def not_in_def)
  have wday7: "\<not> not_in (nt_wday v mod 7) (t_wday ts)"
    using wok(2) ok vb by (cases "nt_wday v = 7") (auto simp: spec_ok_def field_ok_def not_in_def split: option.splits)
  show ?thesis
  proof (cases "nt_min v \<in> set ms")
    case True
    then have body: "next_time_body tz ts prev v =
        Inr (if candidate v \<le> W then Continue (bump ts v) else Return (candidate v - W))"
      using wok(1) hst mh W(2) by (simp add: next_time_body_def min_stage_def)
    show ?thesis
    proof (cases "candidate v \<le> W")
      case le: True
      let ?v' = "v\<lparr>nt_min := nt_min v + 1\<rparr>"
      have cand: "nt_wday v * 86400 + nt_hour v * 3600 + nt_min v * 60 \<le> W" using le aw by (simp add: candidate_day)
      with behind t0 W(1) hsb msb [OF True] have here: "nt_wday v = w" "nt_hour v = h" "nt_min v = m"
        by (auto simp: lexlt_def)
      have "nt_inv ts w h m s ?v'"
        using noskip_bump [OF ns cand] here t0 aw vb wok(2) W(1)
        by (simp add: nt_inv_def lexlt_def)
      moreover have "nt_rank ts W ?v' < nt_rank ts W v"
        using le here t0 W(1) aw by (auto simp: nt_rank_def candidate_day)
      ultimately show ?thesis using body le mh by (auto simp: bump_def)
    next
      case gt: False
      have "nt_hit ts W v" using gt True mh vb ns aw hour wday7 by (simp add: nt_hit_def hits_def not_in_def)
      with body gt show ?thesis by auto
    qed
  next
    case False
    from mh(2) show ?thesis
    proof (cases rule: next_list_value_cases [where v = "nt_min v"])
      case (up t)
      let ?v3 = "v\<lparr>nt_min := t\<rparr>"
      have "noskip ts W (nt_wday v) (nt_hour v) t" using noskip_min_up [OF ns mh(1) False up(4)] .
      moreover have "W < candidate ?v3"
        using behind up(3) t0 W(1) hsb msb [OF up(2)] aw by (auto simp: candidate_day lexlt_def)
      ultimately have "nt_hit ts W ?v3" using up(2) mh vb aw hour wday7 by (simp add: nt_hit_def hits_def not_in_def)
      moreover from \<open>W < candidate ?v3\<close> have "next_time_body tz ts prev v = Inr (Return (candidate ?v3 - W))"
        using wok(1) hst up(1) False mh W(2) by (simp add: next_time_body_def min_stage_def)
      ultimately show ?thesis by blast
    next
      case (wrap t)
      let ?v' = "v\<lparr>nt_min := t, nt_hour := nt_hour v + 1\<rparr>"
      have "nt_wday v \<noteq> 7" using seven wrap(3) msb wrap(2) False by force
      moreover have "noskip ts W (nt_wday v) (nt_hour v + 1) t"
        using noskip_min_wrap [OF ns mh(1) False wrap(3,4)] .
      ultimately have "nt_inv ts w h m s ?v'"
        using behind msb [OF wrap(2)] hsb vb aw wok(2) W(1) by (auto simp: nt_inv_def lexlt_def)
      moreover have "W < candidate ?v'"
        using behind hsb msb [OF wrap(2)] t0 W(1) aw by (auto simp: candidate_day lexlt_def)
      then have "nt_rank ts W ?v' \<le> 1" using mh wrap(2) by (auto simp: nt_rank_def)
      moreover have "\<forall>y \<in> set ms. y < nt_min v" using wrap(3) False by (metis order_le_less)
      then have "2 \<le> nt_rank ts W v" using hour mh by (auto simp: nt_rank_def)
      moreover have "next_time_body tz ts prev v = Inr (Continue ?v')"
        using wok(1) hst wrap(1) False mh by (simp add: next_time_body_def min_stage_def)
      ultimately show ?thesis by auto
    qed
  qed
qed

lemma body_step:
  assumes ok: "spec_ok ts" and inv: "nt_inv ts w h m s v"
    and t0: "0 \<le> w" "w < 7" "0 \<le> h" "h < 24" "0 \<le> m" "m < 60" "0 \<le> s" "s < 60"
    and W: "W = w * 86400 + h * 3600 + m * 60 + s" "W = week_start_delta tz prev"
  shows "(\<exists>v3. next_time_body tz ts prev v = Inr (Return (candidate v3 - W)) \<and> nt_hit ts W v3) \<or>
    (\<exists>v'. next_time_body tz ts prev v = Inr (Continue v') \<and> nt_inv ts w h m s v' \<and> nt_rank ts W v' < nt_rank ts W v)"
  using ok inv t0(2)
proof (cases rule: wday_stage_inv)
  case same
  then show ?thesis
    using body_same_hour [OF ok inv _ _ t0(2-8) W] body_same_min [OF ok inv _ _ t0(2-8) W] by blast
next
  case (fresh v1)
  have "W < (w + 1) * 86400" using t0 W(1) by simp
  with fresh show ?thesis using body_fresh [OF ok fresh(1-3) t0(1) fresh(4,5) _ W(2)] W(1) by blast
qed

lemma loop_hits:
  assumes ok: "spec_ok ts"
    and t0: "0 \<le> w" "w < 7" "0 \<le> h" "h < 24" "0 \<le> m" "m < 60" "0 \<le> s" "s < 60"
    and W: "W = w * 86400 + h * 3600 + m * 60 + s" "W = week_start_delta tz prev"
  shows "nt_inv ts w h m s v \<Longrightarrow> nt_rank ts W v < n \<Longrightarrow>
    \<exists>v3. next_time_loop n tz ts prev v = Inr (candidate v3 - W) \<and> nt_hit ts W v3"
proof (induction n arbitrary: v)
  case (Suc n)
  from body_step [OF ok Suc.prems(1) t0 W] show ?case
  proof
    assume "\<exists>v'. next_time_body tz ts prev v = Inr (Continue v') \<and> nt_inv ts w h m s v' \<and> nt_rank ts W v' < nt_rank ts W v"
    then obtain v' where v': "next_time_body tz ts prev v = Inr (Continue v')" "nt_inv ts w h m s v'"
      "nt_rank ts W v' < nt_rank ts W v" by blast
    with Suc.prems(2) Suc.IH [OF v'(2)] show ?thesis by auto
  qed auto
qed simp

subsection \<open>From the week's seconds back to local time\<close>

lemma mod_div_bounds: "(l::int) mod 86400 div 3600 < 24" "(l::int) mod 3600 div 60 < 60"
  "0 \<le> (l::int) mod 86400 div 3600" "0 \<le> (l::int) mod 3600 div 60"
  using pos_mod_bound [of 86400 l] pos_mod_sign [of 86400 l] pos_mod_bound [of 3600 l] pos_mod_sign [of 3600 l]
  by (simp_all del: pos_mod_bound pos_mod_sign add: pos_imp_zdiv_nonneg_iff)

lemma localtime_bounds:
  assumes "localtime tz t = (hour, mn, sec, wday)"
  shows "0 \<le> wday" "wday < 7" "0 \<le> hour" "hour < 24" "0 \<le> mn" "mn < 60" "0 \<le> sec" "sec < 60"
proof -
  define l where "l = t + tz t"
  have e: "hour = l mod 86400 div 3600" "mn = l mod 3600 div 60" "sec = l mod 60" "wday = (l div 86400 + 3) mod 7"
    using assms by (simp_all add: localtime_def Let_def l_def)
  show "0 \<le> wday" "wday < 7" "0 \<le> hour" "hour < 24" "0 \<le> mn" "mn < 60" "0 \<le> sec" "sec < 60"
    by (simp_all add: e mod_div_bounds)
qed

text \<open>The seconds since the week began are the seconds since a fixed Monday, modulo a week.\<close>

lemma seconds_split:
  fixes D :: int
  shows "A = 3600 * H + B \<Longrightarrow> B = 60 * M + S \<Longrightarrow> T = 86400 * D + A \<Longrightarrow>
    0 * 604800 + D * 86400 + H * 3600 + M * 60 + S = T"
  by simp

lemma week_start_delta_mod: "week_start_delta tz t = (t + tz t + 259200) mod 604800"
proof -
  define l where "l = t + tz t"
  have "l mod 3600 = l mod 86400 mod 3600" by (rule mod_mod_cancel [symmetric]) simp
  then have 1: "l mod 86400 = 3600 * (l mod 86400 div 3600) + l mod 3600"
    by (simp only: mult_div_mod_eq)
  have "l mod 60 = l mod 3600 mod 60" by (rule mod_mod_cancel [symmetric]) simp
  then have 2: "l mod 3600 = 60 * (l mod 3600 div 60) + l mod 60"
    by (simp only: mult_div_mod_eq)
  have "(l + 86400 * 3) mod (86400 * 7) = 86400 * ((l + 86400 * 3) div 86400 mod 7) + (l + 86400 * 3) mod 86400"
    by (rule zmod_zmult2_eq) simp
  also have "\<dots> = 86400 * ((l div 86400 + 3) mod 7) + l mod 86400"
    using div_mult_self2 [of 86400 l 3] mod_mult_self2 [of l 86400 3] by (simp only: add.commute)
  finally have 3: "(l + 259200) mod 604800 = 86400 * ((l div 86400 + 3) mod 7) + l mod 86400" by simp
  show ?thesis
    unfolding week_start_delta_def localtime_def Let_def prod.case to_seconds_def l_def [symmetric]
    by (rule seconds_split [OF 1 2 3])
qed

lemma localtime_week:
  assumes "t + tz t + 259200 = x + 604800 * k"
  shows "localtime tz t = (x mod 86400 div 3600, x mod 3600 div 60, x mod 60, x div 86400 mod 7)"
proof -
  have l: "t + tz t = x + 86400 * (7 * k - 3)" using assms by simp
  have "(x + 86400 * (7 * k - 3)) mod 86400 = x mod 86400" by (rule mod_mult_self2)
  moreover have "(x + 86400 * (7 * k - 3)) mod 3600 = x mod 3600"
    using mod_mult_self2 [of x 3600 "24 * (7 * k - 3)"] by (simp only: mult.assoc [symmetric]) simp
  moreover have "(x + 86400 * (7 * k - 3)) mod 60 = x mod 60"
    using mod_mult_self2 [of x 60 "1440 * (7 * k - 3)"] by (simp only: mult.assoc [symmetric]) simp
  moreover have "((x + 86400 * (7 * k - 3)) div 86400 + 3) mod 7 = x div 86400 mod 7"
    using div_mult_self2 [of 86400 x "7 * k - 3"] mod_mult_self1 [of "x div 86400" k 7]
    by (simp add: add.commute mult.commute)
  ultimately show ?thesis by (simp only: localtime_def Let_def l)
qed

lemma hits_iff_matches:
  assumes "t + tz t + 259200 = x + 604800 * k" "0 \<le> x"
  shows "time_matches ts (localtime tz t) \<longleftrightarrow>
    x mod 60 = 0 \<and> hits ts (x div 86400) (x mod 86400 div 3600) (x mod 3600 div 60)"
  using assms by (auto simp: localtime_week time_matches_def hits_def pos_imp_zdiv_nonneg_iff)

text \<open>A triple in range is recovered from its seconds.\<close>

lemma triple_of_seconds:
  assumes b: "0 \<le> h" "h < 24" "0 \<le> m" "m < (60::int)" and x: "x = d * 86400 + h * 3600 + m * 60"
  shows "x div 86400 = d" "x mod 86400 div 3600 = h" "x mod 3600 div 60 = m" "x mod 60 = 0"
proof -
  show "x div 86400 = d" by (rule int_div_pos_eq [where r = "h * 3600 + m * 60"]) (use b x in auto)
  have "x mod 86400 = h * 3600 + m * 60" by (rule int_mod_pos_eq [where q = d]) (use b x in auto)
  moreover have "(h * 3600 + m * 60) div 3600 = h"
    by (rule int_div_pos_eq [where r = "m * 60"]) (use b in auto)
  ultimately show "x mod 86400 div 3600 = h" by (simp only:)
  have "x mod 3600 = m * 60" by (rule int_mod_pos_eq [where q = "d * 24 + h"]) (use b x in auto)
  then show "x mod 3600 div 60 = m" by simp
  show "x mod 60 = 0" by (rule int_mod_pos_eq [where q = "d * 1440 + h * 60 + m"]) (use x in auto)
qed

lemma seconds_of_triple:
  "(y::int) = y div 86400 * 86400 + y mod 86400 div 3600 * 3600 + y mod 3600 div 60 * 60 + y mod 60"
proof -
  have "y mod 86400 mod 3600 = y mod 3600" "y mod 3600 mod 60 = y mod 60" by (simp_all add: mod_mod_cancel)
  then show ?thesis using div_mult_mod_eq [of y 86400] div_mult_mod_eq [of "y mod 86400" 3600]
      div_mult_mod_eq [of "y mod 3600" 60] by (simp only: add.assoc)
qed

subsection \<open>The search finds the earliest matching time\<close>

lemma start_inv:
  assumes "spec_ok ts" "localtime tz prev = (h, m, s, w)"
  shows "nt_inv ts w h m s (start_vars tz ts prev)"
proof -
  note b = localtime_bounds [OF assms(2)]
  have f: "\<And>h'. \<not> not_in h' (t_hour ts) \<Longrightarrow> h' < 24" "\<And>m'. \<not> not_in m' (t_min ts) \<Longrightarrow> m' < 60"
    using assms(1) by (auto simp: spec_ok_def field_ok_def not_in_def)
  have "start_vars tz ts prev = \<lparr>nt_hour = h, nt_min = m, nt_wday = w, nt_add_week = 0\<rparr>"
    using assms by (simp add: start_vars_def spec_ok_def)
  with b show ?thesis using noskip_start [OF b(7,3,5) f] by (auto simp: nt_inv_def lexlt_def)
qed

lemma next_time_hits:
  assumes "spec_ok ts"
  shows "\<exists>v. next_time tz ts prev = Inr (candidate v - week_start_delta tz prev) \<and>
    nt_hit ts (week_start_delta tz prev) v"
proof -
  obtain h m s w where lt: "localtime tz prev = (h, m, s, w)" by (metis prod_cases4)
  note b = localtime_bounds [OF lt]
  have W: "week_start_delta tz prev = w * 86400 + h * 3600 + m * 60 + s"
    by (simp add: week_start_delta_def lt to_seconds_def)
  have "nt_rank ts (week_start_delta tz prev) (start_vars tz ts prev) < 10" by (simp add: nt_rank_def)
  then show ?thesis
    using loop_hits [OF assms b W refl start_inv [OF assms lt]] by (simp only: next_time_def)
qed

lemma hit_fields:
  assumes "spec_ok ts" "hits ts d h m"
  shows "0 \<le> h" "h < 24" "0 \<le> m" "m < 60"
  using assms by (auto simp: spec_ok_def hits_def not_in_def field_ok_def)

text \<open>
  C1: for a specification with minutes and hours (weekdays or not, no \<open>max_freq\<close>) in a zone of
  constant offset, \<open>next_time\<close> never raises; the delay it returns is positive, leads to a
  matching local time, and no shorter positive delay does.
\<close>

theorem next_time_earliest:
  assumes ok: "spec_ok ts"
  shows "\<exists>r. next_time (\<lambda>_. c) ts prev = Inr r \<and> 0 < r \<and>
    time_matches ts (localtime (\<lambda>_. c) (prev + r)) \<and>
    (\<forall>r'. 0 < r' \<longrightarrow> r' < r \<longrightarrow> \<not> time_matches ts (localtime (\<lambda>_. c) (prev + r')))"
proof -
  define W where "W = week_start_delta (\<lambda>_. c) prev"
  define k where "k = (prev + c + 259200) div 604800"
  have W: "0 \<le> W" and t: "prev + r + c + 259200 = (W + r) + 604800 * k" for r
    using mult_div_mod_eq [of 604800 "prev + c + 259200"] pos_mod_sign [of 604800 "prev + c + 259200"]
    by (simp_all only: W_def k_def week_start_delta_mod)
  obtain v where v: "next_time (\<lambda>_. c) ts prev = Inr (candidate v - W)" and hit: "nt_hit ts W v"
    using next_time_hits [OF ok, of "\<lambda>_. c" prev] by (auto simp: W_def)
  define x where "x = candidate v"
  have h: "hits ts (day_of v) (nt_hour v) (nt_min v)" "W < x" "noskip ts W (day_of v) (nt_hour v) (nt_min v)"
    using hit by (simp_all add: nt_hit_def x_def)
  note bv = hit_fields [OF ok h(1)]
  have xe: "x = day_of v * 86400 + nt_hour v * 3600 + nt_min v * 60" by (simp add: x_def candidate_day)
  have "time_matches ts (localtime (\<lambda>_. c) (prev + (x - W)))"
    using hits_iff_matches [of "prev + (x - W)" "\<lambda>_. c" x k ts] t [of "x - W"] h(1,2) W
      triple_of_seconds [OF bv xe] by simp
  moreover have "\<not> time_matches ts (localtime (\<lambda>_. c) (prev + r'))" if r': "0 < r'" "r' < x - W" for r'
  proof
    assume m: "time_matches ts (localtime (\<lambda>_. c) (prev + r'))"
    define y where "y = W + r'"
    define d h' m' where "d = y div 86400" and "h' = y mod 86400 div 3600" and "m' = y mod 3600 div 60"
    have y: "y mod 60 = 0" "hits ts d h' m'"
      using m hits_iff_matches [of "prev + r'" "\<lambda>_. c" y k ts] t [of r'] r' W
      by (simp_all add: y_def d_def h'_def m'_def)
    note by' = hit_fields [OF ok y(2)]
    have ye: "y = d * 86400 + h' * 3600 + m' * 60"
      using seconds_of_triple [of y] y(1) by (simp add: d_def h'_def m'_def)
    have "lexlt d h' m' (day_of v) (nt_hour v) (nt_min v)"
      using r' by' bv xe ye by (auto simp: y_def lexlt_def)
    moreover have "W < d * 86400 + h' * 3600 + m' * 60" using ye r' by (simp add: y_def)
    ultimately show False using h(3) y(2) by (auto simp: noskip_def)
  qed
  ultimately show ?thesis using v h(2) by (auto simp: x_def)
qed

text \<open>At Thursday 1970-01-01 00:00 UTC the next weekday run at 01:10 is 70 minutes away.\<close>

theorem next_time_earliest_witness:
  "spec_ok (mk_time (Some [10]) (Some [1]) (Some [0, 1, 2, 3, 4]) None) \<and>
   next_time (\<lambda>_. 0) (mk_time (Some [10]) (Some [1]) (Some [0, 1, 2, 3, 4]) None) 0 = Inr 4200 \<and>
   time_matches (mk_time (Some [10]) (Some [1]) (Some [0, 1, 2, 3, 4]) None) (localtime (\<lambda>_. 0) (0 + 4200))"
proof -
  let ?ts = "mk_time (Some [10]) (Some [1]) (Some [0, 1, 2, 3, 4]) None"
  have ok: "spec_ok ?ts" by (simp add: spec_ok_def mk_time_def field_ok_def)
  have v: "next_time (\<lambda>_. 0) ?ts 0 = Inr 4200" by code_simp
  from next_time_earliest [OF ok, of 0 0] v have "time_matches ?ts (localtime (\<lambda>_. 0) (0 + 4200))" by auto
  with ok v show ?thesis by simp
qed

text \<open>
  A specification with weekdays and minutes but no hours lets the minute wrap carry the hour
  to 24, past the weekday check: asked on a Monday at 23:15 for the next minute 10 of a Monday,
  \<open>next_time\<close> answers with a time on Tuesday.
\<close>

theorem next_time_leaves_weekday:
  "next_time (\<lambda>_. 0) (mk_time (Some [10]) None (Some [0]) None) 429300 = Inr 3300 \<and>
   localtime (\<lambda>_. 0) 429300 = (23, 15, 0, 0) \<and>
   localtime (\<lambda>_. 0) (429300 + 3300) = (0, 10, 0, 1) \<and>
   \<not> time_matches (mk_time (Some [10]) None (Some [0]) None) (localtime (\<lambda>_. 0) (429300 + 3300))"
  by code_simp

text \<open>
  With \<open>max_freq\<close> set, the search starts from the weekday of \<open>prev + max_freq\<close> but measures
  from the week of \<open>prev\<close>. When the sum crosses Sunday midnight it runs out of its ten passes
  and raises, here for a job that ran on a Sunday at 23:30.
\<close>

theorem next_time_max_freq_raises:
  "localtime (\<lambda>_. 0) 343800 = (23, 30, 0, 6) \<and>
   next_time (\<lambda>_. 0) (mk_time (Some [40]) None None (Some 3600)) 343800 = Inl ValueError \<and>
   next_time (\<lambda>_. 0) (mk_time (Some [40]) (Some [3]) None (Some 3600)) 343800 = Inl ValueError"
  by code_simp

end
