(* ===== verification/Job_Actions.thy ===== *)
theory Job_Actions
  imports Times Py_Strings
begin

text \<open>
  Job definitions: \<^verbatim>\<open>Cerebrum/modules/job_runner/job_actions.py\<close>. \<open>action\<close> is the record of
  class \<^verbatim>\<open>Action\<close>, \<open>call\<close> that of \<^verbatim>\<open>CallableAction\<close> and its two subclasses; lock files live
  in a map from file names to contents; \<open>validate\<close>, \<open>check_cycles\<close> and \<open>find_cycle\<close> are the
  checks of class \<^verbatim>\<open>Jobs\<close>. A job configuration is an association list from job names to
  actions, in the order Python iterates over it. What the operating system answers (which
  processes live, what \<^verbatim>\<open>waitpid\<close> and \<^verbatim>\<open>getsize\<close> report) is an argument.
\<close>

section \<open>Actions\<close>

record call =
  cl_id :: "string option"
  cl_cmd :: string
  cl_params :: "string list"
  cl_stdout_ok :: bool
  cl_wait :: bool

definition mk_System :: "string \<Rightarrow> string list \<Rightarrow> bool \<Rightarrow> call" where
  "mk_System cmd params stdout_ok =
     \<lparr>cl_id = None, cl_cmd = cmd, cl_params = params, cl_stdout_ok = stdout_ok, cl_wait = True\<rparr>"

definition mk_AssertRunning :: "string \<Rightarrow> string list \<Rightarrow> bool \<Rightarrow> call" where
  "mk_AssertRunning cmd params stdout_ok = (mk_System cmd params stdout_ok)\<lparr>cl_wait := False\<rparr>"

record health_check =
  check_ok :: bool
  check_overdue :: "int option"

record action =
  a_pre :: "string list"
  a_post :: "string list"
  a_call :: "call option"
  a_max_freq :: "int option"
  a_max_duration :: "int option"
  a_when :: "when_spec option"
  a_notwhen :: "time_spec option"
  a_multi_ok :: bool
  a_nonconcurrent :: "string list"
  a_health :: "health_check option"

text \<open>The defaults of \<^verbatim>\<open>Action.__init__\<close>.\<close>

definition default_action :: action where
  "default_action =
     \<lparr>a_pre = [], a_post = [], a_call = None, a_max_freq = None, a_max_duration = Some (4 * 60 * 60),
      a_when = None, a_notwhen = None, a_multi_ok = False, a_nonconcurrent = [], a_health = None\<rparr>"

text \<open>\<^verbatim>\<open>CallableAction.copy_runtime_params\<close> and \<^verbatim>\<open>Action.copy_runtime_params\<close>.\<close>

definition call_copy_runtime_params :: "call \<Rightarrow> call \<Rightarrow> call" where
  "call_copy_runtime_params c other = c\<lparr>cl_id := cl_id other\<rparr>"

definition copy_runtime_params :: "action \<Rightarrow> action \<Rightarrow> action" where
  "copy_runtime_params a other =
     (case (a_call a, a_call other) of
        (Some c, Some oc) \<Rightarrow> a\<lparr>a_call := Some (call_copy_runtime_params c oc)\<rparr>
      | _ \<Rightarrow> a)"

text \<open>
  \<^verbatim>\<open>Action.next_delta\<close>. \<^verbatim>\<open>delta_to_leave\<close> returns \<^verbatim>\<open>None\<close> outside the period, and in
  Python 2 \<^verbatim>\<open>None > 0\<close> is false.
\<close>

definition next_delta :: "(int \<Rightarrow> int) \<Rightarrow> action \<Rightarrow> int \<Rightarrow> int \<Rightarrow> int option res" where
  "next_delta tz a last_run current_time =
     (case a_when a of
        None \<Rightarrow> Inr None
      | Some w \<Rightarrow>
          (case (case a_notwhen a of None \<Rightarrow> None | Some ts \<Rightarrow> delta_to_leave tz ts current_time) of
             Some leave_at \<Rightarrow>
               if leave_at > 0 then Inr (Some leave_at)
               else res_bind (when_next_delta tz w last_run current_time) (\<lambda>n. Inr (Some n))
           | None \<Rightarrow> res_bind (when_next_delta tz w last_run current_time) (\<lambda>n. Inr (Some n))))"

section \<open>Lock files\<close>

type_synonym files = "string \<rightharpoonup> string"

definition lock_filename :: "string \<Rightarrow> string \<Rightarrow> string" where
  "lock_filename lock_dir name = lock_dir @ ''/'' @ ''job-runner-'' @ name @ ''.lock''"

datatype lock_result = Acquired files | LockExists int

text \<open>
  \<^verbatim>\<open>LockFile.acquire\<close>: contents that are no number, and a number whose process does not answer
  signal 0, are stale and ignored.
\<close>

definition lock_acquire :: "(int \<Rightarrow> bool) \<Rightarrow> int \<Rightarrow> string \<Rightarrow> bool \<Rightarrow> files \<Rightarrow> lock_result" where
  "lock_acquire alive my_pid f create fs =
     (let holder = (case fs f of None \<Rightarrow> None | Some txt \<Rightarrow> py_int txt)
      in case holder of
           Some pid \<Rightarrow>
             if alive pid then LockExists pid
             else Acquired (if create then fs(f \<mapsto> show_int my_pid) else fs)
         | None \<Rightarrow> Acquired (if create then fs(f \<mapsto> show_int my_pid) else fs))"

definition lock_release :: "string \<Rightarrow> files \<Rightarrow> files res" where
  "lock_release f fs = (case fs f of None \<Rightarrow> Inl (OSError 2) | Some _ \<Rightarrow> Inr (fs(f := None)))"

text \<open>
  \<^verbatim>\<open>System.setup\<close> and \<^verbatim>\<open>AssertRunning.setup\<close> differ in what they log: both say whether the
  lock is free, without creating it.
\<close>

definition call_setup :: "(int \<Rightarrow> bool) \<Rightarrow> int \<Rightarrow> string \<Rightarrow> files \<Rightarrow> bool" where
  "call_setup alive my_pid f fs =
     (case lock_acquire alive my_pid f False fs of LockExists _ \<Rightarrow> False | Acquired _ \<Rightarrow> True)"

section \<open>Waiting for a child\<close>

text \<open>
  What \<^verbatim>\<open>System.cond_wait\<close> sees of the operating system: the pair \<^verbatim>\<open>waitpid\<close> returns, whether
  the run directory and the two output files exist, and the sizes of the files.
\<close>

record wait_obs =
  ob_pid :: int
  ob_status :: int
  ob_files_exist :: bool
  ob_stdout_size :: int
  ob_stderr_size :: int

datatype wait_result =
    NotCompleted
  | Completed
  | Failed string "string option"

definition WIFEXITED :: "int \<Rightarrow> bool" where "WIFEXITED st \<longleftrightarrow> st mod 128 = 0"
definition WEXITSTATUS :: "int \<Rightarrow> int" where "WEXITSTATUS st = st div 256 mod 256"
definition WIFSIGNALED :: "int \<Rightarrow> bool" where "WIFSIGNALED st \<longleftrightarrow> st mod 128 \<noteq> 0 \<and> st mod 128 \<noteq> 127"
definition WTERMSIG :: "int \<Rightarrow> int" where "WTERMSIG st = st mod 128"

definition cond_wait :: "call \<Rightarrow> string \<Rightarrow> int \<Rightarrow> wait_obs \<Rightarrow> wait_result" where
  "cond_wait c newdir child_pid ob =
     (if ob_pid ob = child_pid then
        (if \<not> ob_files_exist ob
         then Failed (''exit_status='' @ show_int (ob_status ob) @ '' (full disk?)'') None
         else if ob_status ob \<noteq> 0 \<or> (ob_stdout_size ob > 0 \<and> \<not> cl_stdout_ok c) \<or> ob_stderr_size ob > 0
         then Failed
           (if WIFEXITED (ob_status ob) then ''exit_code='' @ show_int (WEXITSTATUS (ob_status ob))
            else if WIFSIGNALED (ob_status ob) then ''exit_signal='' @ show_int (WTERMSIG (ob_status ob))
            else ''exit_status='' @ show_int (ob_status ob)) (Some newdir)
         else Completed)
      else NotCompleted)"

section \<open>Checking a job configuration\<close>

type_synonym job_config = "(string \<times> action) list"

definition validate :: "job_config \<Rightarrow> unit res" where
  "validate all_jobs =
     (if \<exists>p \<in> set all_jobs. \<exists>n \<in> set (a_pre (snd p) @ a_post (snd p)). n \<notin> set (keys all_jobs)
      then Inl ValueError else Inr ())"

datatype node_mark = UNMARKED | INPROGRESS | DONE

type_synonym marks = "string \<Rightarrow> node_mark"

definition set_mark :: "marks \<Rightarrow> string \<Rightarrow> node_mark \<Rightarrow> marks" where
  "set_mark mk n x = mk(n := x)"

lemma set_mark_apply: "set_mark mk n x m = (if m = n then x else mk m)"
  by (simp add: set_mark_def)

definition pre_of :: "job_config \<Rightarrow> string \<Rightarrow> string list" where
  "pre_of jobs n = (case map_of jobs n of None \<Rightarrow> [] | Some a \<Rightarrow> a_pre a)"

text \<open>
  \<^verbatim>\<open>Jobs.find_cycle\<close>, a depth-first search over the \<^verbatim>\<open>pre\<close> lists. The marks of the nodes are
  threaded through; \<open>find_cycle_in\<close> is its loop over the successors.
\<close>

function find_cycle :: "job_config \<Rightarrow> marks \<Rightarrow> string \<Rightarrow> string list option \<times> marks"
  and find_cycle_in :: "job_config \<Rightarrow> marks \<Rightarrow> string list \<Rightarrow> string list option \<times> marks" where
  "find_cycle g mk node =
     (case mk node of
        DONE \<Rightarrow> (None, mk)
      | INPROGRESS \<Rightarrow> (Some [node], mk)
      | UNMARKED \<Rightarrow>
          (case find_cycle_in g (set_mark mk node INPROGRESS) (pre_of g node) of
             (Some tmp, mk') \<Rightarrow> (Some (tmp @ [node]), mk')
           | (None, mk') \<Rightarrow> (None, set_mark mk' node DONE)))"
| "find_cycle_in g mk [] = (None, mk)"
| "find_cycle_in g mk (s # ss) =
     (case find_cycle g mk s of
        (Some tmp, mk') \<Rightarrow> (Some tmp, mk')
      | (None, mk') \<Rightarrow> find_cycle_in g mk' ss)"
  by pat_completeness auto

text \<open>Marks never go back to \<open>UNMARKED\<close>, so the number of unmarked nodes bounds the recursion.\<close>

definition unmarked :: "job_config \<Rightarrow> marks \<Rightarrow> string set" where
  "unmarked g mk = {n \<in> set (keys g). mk n = UNMARKED}"

lemma finite_unmarked [simp]: "finite (unmarked g mk)"
  by (simp add: unmarked_def)

lemma unmarked_upd [simp]: "x \<noteq> UNMARKED \<Longrightarrow> unmarked g (set_mark mk n x) = unmarked g mk - {n}"
  by (auto simp: unmarked_def set_mark_apply)

lemma find_cycle_unmarked:
  "find_cycle_find_cycle_in_dom (Inl (g, mk, n)) \<Longrightarrow> unmarked g (snd (find_cycle g mk n)) \<subseteq> unmarked g mk"
  "find_cycle_find_cycle_in_dom (Inr (g, mk, ns)) \<Longrightarrow> unmarked g (snd (find_cycle_in g mk ns)) \<subseteq> unmarked g mk"
proof (induction g mk n and g mk ns rule: find_cycle_find_cycle_in.pinduct)
  case (1 g mk node)
  obtain r mk' where r: "find_cycle_in g (set_mark mk node INPROGRESS) (pre_of g node) = (r, mk')" by fastforce
  show ?case
  proof (cases "mk node = UNMARKED")
    case True
    have "unmarked g (snd (find_cycle_in g (set_mark mk node INPROGRESS) (pre_of g node)))
        \<subseteq> unmarked g (set_mark mk node INPROGRESS)" by (rule "1.IH" [OF True])
    then have "unmarked g mk' \<subseteq> unmarked g mk" using r by auto
    then have "unmarked g mk' \<subseteq> unmarked g mk" "unmarked g (set_mark mk' node DONE) \<subseteq> unmarked g mk" by auto
    then show ?thesis
      unfolding find_cycle.psimps [OF "1.hyps"(1)] r True by (cases r) simp_all
  next
    case False
    then show ?thesis using "1.hyps" by (cases "mk node") (simp_all add: find_cycle.psimps)
  qed
next
  case (2 g mk)
  then show ?case by (simp add: find_cycle_in.psimps)
next
  case (3 g mk s ss)
  then show ?case
    by (cases "find_cycle g mk s") (auto simp: find_cycle_in.psimps split: option.splits)
qed


lemma pre_of_notin: "n \<notin> set (keys g) \<Longrightarrow> pre_of g n = []"
  by (metis pre_of_def map_of_eq_None_iff option.simps(4) set_map)

termination find_cycle
proof (relation "measures [\<lambda>x. case x of Inl (g, mk, n) \<Rightarrow> card (unmarked g mk) | Inr (g, mk, ns) \<Rightarrow> card (unmarked g mk),
    \<lambda>x. case x of Inl (g, mk, n) \<Rightarrow> 1 | Inr (g, mk, ns) \<Rightarrow> 2 * length ns]", goal_cases)
  case 1
  show ?case by simp
next
  case (2 g mk node)
  show ?case
  proof (cases "node \<in> set (keys g)")
    case True
    with 2 have "node \<in> unmarked g mk" by (simp add: unmarked_def)
    then have "card (unmarked g mk - {node}) < card (unmarked g mk)" by (intro psubset_card_mono) auto
    then show ?thesis by simp
  next
    case False
    then have "unmarked g mk - {node} = unmarked g mk" by (auto simp: unmarked_def)
    with False show ?thesis by (simp add: pre_of_notin)
  qed
next
  case (3 g mk s ss)
  show ?case by simp
next
  case (4 g mk s ss x y)
  then have "unmarked g y \<subseteq> unmarked g mk" using find_cycle_unmarked(1) [OF 4(3)] by (metis snd_conv)
  then have "card (unmarked g y) \<le> card (unmarked g mk)" by (intro card_mono) auto
  then show ?case by auto
qed

text \<open>
  \<^verbatim>\<open>Jobs.check_cycles\<close>: the graph is built first (an undefined name raises \<^verbatim>\<open>KeyError\<close>), then
  every node is searched, marks kept between the searches.
\<close>

fun scan_nodes :: "job_config \<Rightarrow> marks \<Rightarrow> string list \<Rightarrow> unit res" where
  "scan_nodes g mk [] = Inr ()"
| "scan_nodes g mk (n # ns) =
     (case find_cycle g mk n of (Some _, mk') \<Rightarrow> Inl ValueError | (None, mk') \<Rightarrow> scan_nodes g mk' ns)"

definition check_cycles :: "job_config \<Rightarrow> unit res" where
  "check_cycles joblist =
     (if \<exists>p \<in> set joblist. \<exists>n \<in> set (a_pre (snd p) @ a_post (snd p)). n \<notin> set (keys joblist)
      then Inl KeyError else scan_nodes joblist (\<lambda>_. UNMARKED) (keys joblist))"

text \<open>\<^verbatim>\<open>Jobs.get_jobs\<close> over the actions found among the attributes.\<close>

definition get_jobs :: "job_config \<Rightarrow> job_config res" where
  "get_jobs attrs = res_bind (validate attrs) (\<lambda>_. res_bind (check_cycles attrs) (\<lambda>_. Inr attrs))"

section \<open>Correctness of the cycle check\<close>

text \<open>The edges of the search: from a job to the jobs in its \<^verbatim>\<open>pre\<close> list.\<close>

definition pre_edges :: "job_config \<Rightarrow> (string \<times> string) set" where
  "pre_edges g = {(n, m). m \<in> set (pre_of g n)}"

lemma pre_edges_iff: "(n, m) \<in> pre_edges g \<longleftrightarrow> m \<in> set (pre_of g n)"
  by (simp add: pre_edges_def)

declare find_cycle.simps [simp del]

lemma find_cycle_None:
  "find_cycle g mk n = (None, mk') \<longleftrightarrow> mk n = DONE \<and> mk' = mk \<or>
     mk n = UNMARKED \<and> (\<exists>m. find_cycle_in g (set_mark mk n INPROGRESS) (pre_of g n) = (None, m) \<and> mk' = set_mark m n DONE)"
  by (auto simp: find_cycle.simps [of g mk n] split: node_mark.splits prod.splits option.splits)

lemma find_cycle_Some:
  "find_cycle g mk n = (Some p, mk') \<longleftrightarrow> mk n = INPROGRESS \<and> p = [n] \<and> mk' = mk \<or>
     mk n = UNMARKED \<and> (\<exists>q. find_cycle_in g (set_mark mk n INPROGRESS) (pre_of g n) = (Some q, mk') \<and> p = q @ [n])"
  by (auto simp: find_cycle.simps [of g mk n] split: node_mark.splits prod.splits option.splits)

lemma find_cycle_in_Cons_None:
  "find_cycle_in g mk (s # ss) = (None, mk') \<longleftrightarrow>
     (\<exists>m. find_cycle g mk s = (None, m) \<and> find_cycle_in g m ss = (None, mk'))"
  by (auto split: prod.splits option.splits)

lemma find_cycle_in_Cons_Some:
  "find_cycle_in g mk (s # ss) = (Some p, mk') \<longleftrightarrow>
     find_cycle g mk s = (Some p, mk') \<or>
     (\<exists>m. find_cycle g mk s = (None, m) \<and> find_cycle_in g m ss = (Some p, mk'))"
  by (auto split: prod.splits option.splits)

text \<open>A search that finds nothing leaves the nodes in progress as they were and its node done.\<close>

definition frame :: "marks \<Rightarrow> marks \<Rightarrow> bool" where
  "frame mk mk' \<longleftrightarrow> (\<forall>x. mk' x = INPROGRESS \<longleftrightarrow> mk x = INPROGRESS) \<and> (\<forall>x. mk x = DONE \<longrightarrow> mk' x = DONE)"

lemma frame_refl: "frame mk mk" by (simp add: frame_def)

lemma frame_trans: "frame a b \<Longrightarrow> frame b c \<Longrightarrow> frame a c" by (simp add: frame_def)

lemma frame_close:
  "mk n = UNMARKED \<Longrightarrow> frame (set_mark mk n INPROGRESS) m \<Longrightarrow> frame mk (set_mark m n DONE)"
  by (auto simp: frame_def set_mark_apply)

lemma find_cycle_frame:
  "find_cycle g mk n = (None, mk') \<Longrightarrow> mk' n = DONE \<and> frame mk mk'"
  "find_cycle_in g mk ns = (None, mk') \<Longrightarrow> (\<forall>n \<in> set ns. mk' n = DONE) \<and> frame mk mk'"
proof (induction g mk n and g mk ns arbitrary: mk' and mk' rule: find_cycle_find_cycle_in.induct)
  case (1 g mk node)
  from "1.prems" show ?case unfolding find_cycle_None
    using "1.IH" frame_close frame_refl by (metis set_mark_apply)
next
  case (2 g mk)
  then show ?case by (simp add: frame_refl)
next
  case (3 g mk s ss)
  from "3.prems" obtain m where m: "find_cycle g mk s = (None, m)" "find_cycle_in g m ss = (None, mk')"
    by (auto simp only: find_cycle_in_Cons_None)
  from "3.IH"(1) [OF m(1)] "3.IH"(2) [OF m(1) [symmetric] refl m(2)]
  show ?case by (auto simp: frame_def)
qed

text \<open>Soundness: with every node in progress on a path to the current one, a find is a cycle.\<close>

lemma find_cycle_sound:
  "find_cycle g mk n = (Some p, mk') \<Longrightarrow> (\<And>x. mk x = INPROGRESS \<Longrightarrow> (x, n) \<in> (pre_edges g)\<^sup>+) \<Longrightarrow>
     \<exists>x. (x, x) \<in> (pre_edges g)\<^sup>+"
  "find_cycle_in g mk ns = (Some p, mk') \<Longrightarrow>
     (\<And>x n. mk x = INPROGRESS \<Longrightarrow> n \<in> set ns \<Longrightarrow> (x, n) \<in> (pre_edges g)\<^sup>+) \<Longrightarrow>
     \<exists>x. (x, x) \<in> (pre_edges g)\<^sup>+"
proof (induction g mk n and g mk ns arbitrary: p mk' and p mk' rule: find_cycle_find_cycle_in.induct)
  case (1 g mk node)
  from "1.prems"(1) show ?case unfolding find_cycle_Some
  proof
    assume "mk node = INPROGRESS \<and> p = [node] \<and> mk' = mk"
    then show ?thesis using "1.prems"(2) by blast
  next
    assume "mk node = UNMARKED \<and> (\<exists>q. find_cycle_in g (set_mark mk node INPROGRESS) (pre_of g node) = (Some q, mk') \<and> p = q @ [node])"
    then obtain q where q: "mk node = UNMARKED"
      "find_cycle_in g (set_mark mk node INPROGRESS) (pre_of g node) = (Some q, mk')" by blast
    have "(x, n) \<in> (pre_edges g)\<^sup>+" if "set_mark mk node INPROGRESS x = INPROGRESS" "n \<in> set (pre_of g node)" for x n
    proof -
      have e: "(node, n) \<in> pre_edges g" using that(2) by (simp add: pre_edges_iff)
      show ?thesis
      proof (cases "x = node")
        case True
        with e show ?thesis by auto
      next
        case False
        with that(1) have "(x, node) \<in> (pre_edges g)\<^sup>+" by (intro "1.prems"(2)) (simp add: set_mark_apply)
        with e show ?thesis by (rule trancl_into_trancl [rotated])
      qed
    qed
    with "1.IH" [OF q(1) q(2)] show ?thesis by blast
  qed
next
  case (3 g mk s ss)
  from "3.prems"(1) consider "find_cycle g mk s = (Some p, mk')"
    | m where "find_cycle g mk s = (None, m)" "find_cycle_in g m ss = (Some p, mk')"
    unfolding find_cycle_in_Cons_Some by blast
  then show ?case
  proof cases
    case 1
    then show ?thesis using "3.IH"(1) "3.prems"(2) by (meson list.set_intros(1))
  next
    case (2 m)
    then have "frame mk m" using find_cycle_frame(1) by blast
    then show ?thesis using "3.IH"(2) [OF 2(1) [symmetric] refl 2(2)] "3.prems"(2) by (auto simp: frame_def)
  qed
qed simp

text \<open>Completeness: the done nodes are closed under edges and none of them is on a cycle.\<close>

definition done_ok :: "job_config \<Rightarrow> marks \<Rightarrow> bool" where
  "done_ok g mk \<longleftrightarrow>
     (\<forall>x. mk x = DONE \<longrightarrow> (\<forall>y \<in> set (pre_of g x). mk y = DONE) \<and> (x, x) \<notin> (pre_edges g)\<^sup>+)"

lemma done_reach: "(x, y) \<in> (pre_edges g)\<^sup>+ \<Longrightarrow> done_ok g mk \<Longrightarrow> mk x = DONE \<Longrightarrow> mk y = DONE"
  by (induction rule: trancl_induct) (auto simp: done_ok_def pre_edges_iff)

lemma done_ok_open: "mk n = UNMARKED \<Longrightarrow> done_ok g mk \<Longrightarrow> done_ok g (set_mark mk n INPROGRESS)"
  by (auto simp: done_ok_def set_mark_apply)

lemma done_ok_close:
  assumes "done_ok g m" "m n = INPROGRESS" "\<forall>y \<in> set (pre_of g n). m y = DONE"
  shows "done_ok g (set_mark m n DONE)"
proof -
  have "(n, n) \<notin> (pre_edges g)\<^sup>+"
  proof
    assume "(n, n) \<in> (pre_edges g)\<^sup>+"
    then obtain y where y: "(n, y) \<in> pre_edges g" "(y, n) \<in> (pre_edges g)\<^sup>*" by (meson tranclD)
    then have "m y = DONE" using assms(3) by (simp add: pre_edges_iff)
    with y(2) assms(1) have "m n = DONE" by (metis done_reach rtranclD)
    with assms(2) show False by simp
  qed
  with assms show ?thesis by (auto simp: done_ok_def set_mark_apply)
qed

lemma find_cycle_complete:
  "find_cycle g mk n = (None, mk') \<Longrightarrow> done_ok g mk \<Longrightarrow> done_ok g mk'"
  "find_cycle_in g mk ns = (None, mk') \<Longrightarrow> done_ok g mk \<Longrightarrow> done_ok g mk'"
proof (induction g mk n and g mk ns arbitrary: mk' and mk' rule: find_cycle_find_cycle_in.induct)
  case (1 g mk node)
  from "1.prems"(1) consider "mk' = mk" | m where "mk node = UNMARKED"
    "find_cycle_in g (set_mark mk node INPROGRESS) (pre_of g node) = (None, m)" "mk' = set_mark m node DONE"
    by (auto simp: find_cycle_None)
  then show ?case
  proof cases
    case 1
    then show ?thesis using "1.prems" by simp
  next
    case (2 m)
    have "done_ok g m" using "1.IH" [OF 2(1,2)] done_ok_open [OF 2(1) "1.prems"(2)] by simp
    moreover have "m node = INPROGRESS" "\<forall>y \<in> set (pre_of g node). m y = DONE"
      using find_cycle_frame(2) [OF 2(2)] by (auto simp: frame_def set_mark_apply)
    ultimately show ?thesis using 2(3) done_ok_close by simp
  qed
next
  case (3 g mk s ss)
  from "3.prems"(1) obtain m where m: "find_cycle g mk s = (None, m)" "find_cycle_in g m ss = (None, mk')"
    by (auto simp only: find_cycle_in_Cons_None)
  show ?case using "3.IH"(2) [OF m(1) [symmetric] refl m(2)] "3.IH"(1) [OF m(1) "3.prems"(2)] by simp
qed simp

lemma scan_nodes_ok:
  "scan_nodes g mk ns = Inr () \<Longrightarrow> done_ok g mk \<Longrightarrow>
     \<exists>mk'. done_ok g mk' \<and> (\<forall>n \<in> set ns. mk' n = DONE) \<and> (\<forall>x. mk x = DONE \<longrightarrow> mk' x = DONE)"
proof (induction ns arbitrary: mk)
  case (Cons n ns)
  then obtain m where m: "find_cycle g mk n = (None, m)" "scan_nodes g m ns = Inr ()"
    by (auto split: prod.splits option.splits)
  from Cons.IH [OF m(2) find_cycle_complete(1) [OF m(1) Cons.prems(2)]] find_cycle_frame(1) [OF m(1)]
  show ?case by (auto simp: frame_def)
qed auto

lemma scan_nodes_fail:
  "scan_nodes g mk ns = Inl e \<Longrightarrow> (\<And>x. mk x \<noteq> INPROGRESS) \<Longrightarrow> e = ValueError \<and> (\<exists>x. (x, x) \<in> (pre_edges g)\<^sup>+)"
proof (induction ns arbitrary: mk)
  case (Cons n ns)
  show ?case
  proof (cases "find_cycle g mk n")
    case (Pair r m)
    show ?thesis
    proof (cases r)
      case None
      with Pair Cons show ?thesis using find_cycle_frame(1) [of g mk n m] by (auto simp: frame_def)
    next
      case (Some q)
      with Pair Cons.prems show ?thesis using find_cycle_sound(1) [of g mk n q m] by auto
    qed
  qed
qed simp

definition names_defined :: "job_config \<Rightarrow> bool" where
  "names_defined g \<longleftrightarrow>
     (\<forall>p \<in> set g. \<forall>n \<in> set (a_pre (snd p) @ a_post (snd p)). n \<in> set (keys g))"

lemma check_cycles_iff:
  assumes "names_defined g"
  shows "check_cycles g = (if acyclic (pre_edges g) then Inr () else Inl ValueError)"
proof -
  have c: "check_cycles g = scan_nodes g (\<lambda>_. UNMARKED) (keys g)"
    using assms by (auto simp: check_cycles_def names_defined_def)
  show ?thesis
  proof (cases "scan_nodes g (\<lambda>_. UNMARKED) (keys g)")
    case (Inl e)
    then show ?thesis using scan_nodes_fail [OF Inl] c by (auto simp: acyclic_def)
  next
    case (Inr u)
    then obtain mk where mk: "done_ok g mk" "\<And>n. n \<in> set (keys g) \<Longrightarrow> mk n = DONE"
      using scan_nodes_ok [of g "\<lambda>_. UNMARKED" "keys g"] by (auto simp: done_ok_def)
    have "(x, x) \<notin> (pre_edges g)\<^sup>+" for x
    proof (cases "x \<in> set (keys g)")
      case True
      with mk show ?thesis by (auto simp: done_ok_def)
    next
      case False
      then show ?thesis using pre_of_notin [OF False] by (auto simp: pre_edges_iff dest: tranclD)
    qed
    with Inr c show ?thesis by (auto simp: acyclic_def)
  qed
qed

lemma validate_iff: "validate g = (if names_defined g then Inr () else Inl ValueError)"
  by (auto simp: validate_def names_defined_def)

text \<open>The marking depth-first search decides whether the \<^verbatim>\<open>pre\<close> lists form a cycle.\<close>

lemma get_jobs_eq: "get_jobs g = (if names_defined g \<and> acyclic (pre_edges g) then Inr g else Inl ValueError)"
  by (simp add: get_jobs_def validate_iff check_cycles_iff)

definition post_edges :: "job_config \<Rightarrow> (string \<times> string) set" where
  "post_edges g = {(n, m). \<exists>a. map_of g n = Some a \<and> m \<in> set (a_post a)}"



text \<open>
  A cycle through \<^verbatim>\<open>post\<close> lists is accepted, although the documentation of \<open>get_jobs\<close> says
  that cyclic dependencies in the pre- and post-definitions are refused.
\<close>

theorem get_jobs_accepts_post_cycle:
  "get_jobs [(''a'', default_action\<lparr>a_post := [''b'']\<rparr>), (''b'', default_action\<lparr>a_post := [''a'']\<rparr>)] =
     Inr [(''a'', default_action\<lparr>a_post := [''b'']\<rparr>), (''b'', default_action\<lparr>a_post := [''a'']\<rparr>)]"
  by code_simp

section \<open>Lock files keep their holder\<close>

lemma lock_acquire_free:
  "lock_acquire alive p f create fs = Acquired fs' \<Longrightarrow> fs' = (if create then fs(f \<mapsto> show_int p) else fs)"
  by (auto simp: lock_acquire_def Let_def split: option.splits if_splits)

text \<open>
  After a process has acquired a lock file, every later attempt is refused with its process
  id for as long as it lives, and the file is left alone.
\<close>

theorem lock_acquire_excludes:
  assumes "lock_acquire alive p f True fs = Acquired fs'" "alive' p"
  shows "lock_acquire alive' q f create fs' = LockExists p \<and> \<not> call_setup alive' q f fs'"
  using lock_acquire_free [OF assms(1)] assms(2)
  by (simp add: lock_acquire_def call_setup_def py_int_show_int)

theorem lock_acquire_excludes_witness:
  "lock_acquire (\<lambda>_. False) 42 ''l'' True [''l'' \<mapsto> ''17''] = Acquired [''l'' \<mapsto> ''42''] \<and>
   lock_acquire (\<lambda>p. p = 42) 7 ''l'' True [''l'' \<mapsto> ''42''] = LockExists 42"
proof -
  have a: "lock_acquire (\<lambda>_. False) 42 ''l'' True [''l'' \<mapsto> ''17''] = Acquired [''l'' \<mapsto> ''42'']"
  proof -
    have "py_int ''17'' = Some 17" "show_int 42 = ''42''" by code_simp+
    then show ?thesis by (simp add: lock_acquire_def)
  qed
  from lock_acquire_excludes [OF a, of "\<lambda>p. p = 42" 7 True] a show ?thesis by simp
qed

end
