(* ===== verification/Job_Queue.thy ===== *)
theory Job_Queue
  imports Job_Actions
begin

text \<open>
  The job queue of the scheduler: \<^verbatim>\<open>Cerebrum/modules/job_runner/queue.py\<close>. The record
  \<open>jobqueue\<close> holds the attributes of class \<^verbatim>\<open>JobQueue\<close>, the module's global
  \<^verbatim>\<open>current_time\<close> and the rows of the table \<^verbatim>\<open>job_ran\<close>. An operation reads the clock once,
  as its argument \<open>now\<close>. Python's recursion limit is the argument \<open>lim\<close> of the one method whose
  recursion nothing else bounds.
\<close>

section \<open>State\<close>

record jobqueue =
  jq_known :: job_config
  jq_run :: "string list"
  jq_running :: "(string \<times> int) list"
  jq_last_run :: "string \<rightharpoonup> int"
  jq_started_at :: "string \<rightharpoonup> int"
  jq_last_duration :: "string \<rightharpoonup> int"
  jq_forced :: "string list"
  jq_last_status :: "string \<rightharpoonup> string"
  jq_last_success :: "string \<rightharpoonup> int"
  jq_last_failure :: "string \<rightharpoonup> int"
  jq_debug_time :: int
  jq_current_time :: int
  jq_job_ran :: "string \<rightharpoonup> int"

abbreviation running_names :: "jobqueue \<Rightarrow> string list" where
  "running_names q \<equiv> map fst (jq_running q)"

text \<open>\<^verbatim>\<open>DbQueueHandler\<close>: select first, then insert or update; the key is the job's name.\<close>

definition update_last_run :: "string \<Rightarrow> int \<Rightarrow> jobqueue \<Rightarrow> jobqueue" where
  "update_last_run job timestamp q =
     (case jq_job_ran q job of
        None \<Rightarrow> q\<lparr>jq_job_ran := (jq_job_ran q)(job \<mapsto> timestamp)\<rparr>
      | Some _ \<Rightarrow> q\<lparr>jq_job_ran := (\<lambda>k. if k = job then Some timestamp else jq_job_ran q k)\<rparr>)"

section \<open>Loading the configuration\<close>

text \<open>\<^verbatim>\<open>_add_known_job\<close>; \<^verbatim>\<open>set_id\<close> comes before the copy of the runtime parameters.\<close>

definition set_call_id :: "string \<Rightarrow> action \<Rightarrow> action" where
  "set_call_id name a = a\<lparr>a_call := map_option (\<lambda>c. c\<lparr>cl_id := Some name\<rparr>) (a_call a)\<rparr>"

definition has_times :: "action \<Rightarrow> bool" where
  "has_times a = (case a_when a of Some (At ts) \<Rightarrow> ts \<noteq> [] | _ \<Rightarrow> False)"

definition add_known_job :: "int \<Rightarrow> string \<Rightarrow> action \<Rightarrow> jobqueue \<Rightarrow> jobqueue" where
  "add_known_job now name a q =
     (let a1 = set_call_id name a;
          a2 = (case map_of (jq_known q) name of None \<Rightarrow> a1 | Some old \<Rightarrow> copy_runtime_params a1 old)
      in q\<lparr>jq_known := dict_set name a2 (jq_known q),
           jq_last_run := (jq_last_run q)(name \<mapsto> (if has_times a2 then now else 0)),
           jq_last_duration := (jq_last_duration q)(name \<mapsto> 0)\<rparr>)"

fun add_known_jobs :: "int \<Rightarrow> job_config \<Rightarrow> jobqueue \<Rightarrow> jobqueue" where
  "add_known_jobs now [] q = q"
| "add_known_jobs now ((n, a) # js) q = add_known_jobs now js (add_known_job now n a q)"

text \<open>\<^verbatim>\<open>reload_scheduled_jobs\<close>: \<open>config\<close> is what the reloaded module's \<^verbatim>\<open>get_jobs\<close> returns.\<close>

definition reload_scheduled_jobs :: "int \<Rightarrow> job_config \<Rightarrow> jobqueue \<Rightarrow> jobqueue" where
  "reload_scheduled_jobs now config q =
     (let old_names = keys (jq_known q);
          q1 = add_known_jobs now config q;
          q2 = q1\<lparr>jq_known := fold dict_del (filter (\<lambda>n. n \<notin> set (keys config)) old_names) (jq_known q1)\<rparr>
      in q2\<lparr>jq_last_run := jq_last_run q2 ++ jq_job_ran q2\<rparr>)"

definition init_jobqueue :: "int \<Rightarrow> int \<Rightarrow> job_config \<Rightarrow> (string \<rightharpoonup> int) \<Rightarrow> jobqueue" where
  "init_jobqueue now debug_time config job_ran =
     reload_scheduled_jobs now config
       \<lparr>jq_known = [], jq_run = [], jq_running = [], jq_last_run = Map.empty, jq_started_at = Map.empty,
        jq_last_duration = Map.empty, jq_forced = [], jq_last_status = Map.empty,
        jq_last_success = Map.empty, jq_last_failure = Map.empty, jq_debug_time = debug_time,
        jq_current_time = now, jq_job_ran = job_ran\<rparr>"

section \<open>Prerequisites and conflicts\<close>

text \<open>A loop that returns true at the first element the test accepts.\<close>

fun any_res :: "('a \<Rightarrow> bool res) \<Rightarrow> 'a list \<Rightarrow> bool res" where
  "any_res f [] = Inr False"
| "any_res f (x # xs) = res_bind (f x) (\<lambda>b. if b then Inr True else any_res f xs)"

definition is_post_of :: "jobqueue \<Rightarrow> string \<Rightarrow> string \<Rightarrow> bool res" where
  "is_post_of q job_name tmp_name =
     res_bind (dict_get (jq_known q) tmp_name) (\<lambda>a. Inr (job_name \<in> set (a_post a)))"

fun has_queued_prerequisite :: "nat \<Rightarrow> jobqueue \<Rightarrow> string \<Rightarrow> nat \<Rightarrow> bool res" where
  "has_queued_prerequisite 0 q job_name depth = Inl RuntimeError"
| "has_queued_prerequisite (Suc lim) q job_name depth =
     (if depth > 0 \<and> job_name \<in> set (jq_run q) then Inr True
      else if job_name \<in> set (running_names q) then Inr True
      else res_bind (dict_get (jq_known q) job_name) (\<lambda>job.
        res_bind (any_res (\<lambda>n. has_queued_prerequisite lim q n (depth + 1)) (a_pre job)) (\<lambda>b.
          if b then Inr True
          else if depth > 0
          then any_res (\<lambda>n. has_queued_prerequisite lim q n (depth + 1)) (a_post job)
          else res_bind (any_res (is_post_of q job_name) (jq_run q)) (\<lambda>b.
            if b then Inr True
            else any_res (is_post_of q job_name) (running_names q)))))"

definition has_conflicting_jobs_running :: "jobqueue \<Rightarrow> string \<Rightarrow> bool res" where
  "has_conflicting_jobs_running q job_name =
     res_bind (dict_get (jq_known q) job_name) (\<lambda>this_job.
       Inr (\<exists>n \<in> set (running_names q). n \<in> set (a_nonconcurrent this_job)))"

section \<open>Running jobs\<close>

record running_job =
  rj_name :: string
  rj_pid :: int
  rj_call :: "call option"
  rj_started :: int

fun running_jobs_of :: "jobqueue \<Rightarrow> (string \<times> int) list \<Rightarrow> running_job list res" where
  "running_jobs_of q [] = Inr []"
| "running_jobs_of q ((n, pid) # xs) =
     (case jq_started_at q n of
        None \<Rightarrow> Inl KeyError
      | Some t \<Rightarrow> res_bind (running_jobs_of q xs) (\<lambda>rs.
          Inr (\<lparr>rj_name = n, rj_pid = pid,
                rj_call = (case map_of (jq_known q) n of None \<Rightarrow> None | Some a \<Rightarrow> a_call a),
                rj_started = t\<rparr> # rs)))"

definition get_running_jobs :: "jobqueue \<Rightarrow> running_job list res" where
  "get_running_jobs q = running_jobs_of q (jq_running q)"

text \<open>\<^verbatim>\<open>kill_running_jobs\<close>: the processes that are sent the signal, in order.\<close>

definition kill_running_jobs :: "jobqueue \<Rightarrow> int list" where
  "kill_running_jobs q = map snd (jq_running q)"

definition job_started :: "int \<Rightarrow> string \<Rightarrow> int \<Rightarrow> bool \<Rightarrow> jobqueue \<Rightarrow> jobqueue res" where
  "job_started now name pid force q =
     (let q1 = q\<lparr>jq_running := jq_running q @ [(name, pid)],
                 jq_started_at := (jq_started_at q)(name \<mapsto> now)\<rparr>
      in if force
         then res_bind (py_remove name (jq_forced q1)) (\<lambda>xs. Inr (q1\<lparr>jq_forced := xs\<rparr>))
         else res_bind (py_remove name (jq_run q1)) (\<lambda>xs. Inr (q1\<lparr>jq_run := xs\<rparr>)))"

definition remove_running :: "string \<Rightarrow> int option \<Rightarrow> jobqueue \<Rightarrow> jobqueue res" where
  "remove_running name pid q =
     (case pid of
        None \<Rightarrow> Inr q
      | Some p \<Rightarrow> res_bind (py_remove (name, p) (jq_running q)) (\<lambda>xs. Inr (q\<lparr>jq_running := xs\<rparr>)))"

definition record_result :: "int \<Rightarrow> string \<Rightarrow> bool \<Rightarrow> string option \<Rightarrow> jobqueue \<Rightarrow> jobqueue" where
  "record_result now name ok msg q =
     (let q1 = q\<lparr>jq_last_status := (jq_last_status q)(name \<mapsto>
            (case msg of None \<Rightarrow> ''ok'' | Some m \<Rightarrow> if m = [] then ''ok'' else m))\<rparr>
      in if ok then q1\<lparr>jq_last_success := (jq_last_success q1)(name \<mapsto> now)\<rparr>
         else q1\<lparr>jq_last_failure := (jq_last_failure q1)(name \<mapsto> now)\<rparr>)"

definition close_entry :: "int \<Rightarrow> string \<Rightarrow> bool \<Rightarrow> jobqueue \<Rightarrow> jobqueue res" where
  "close_entry now name force q =
     (case jq_started_at q name of
        Some t \<Rightarrow> Inr (q\<lparr>jq_last_duration := (jq_last_duration q)(name \<mapsto> now - t)\<rparr>)
      | None \<Rightarrow>
          if force
          then res_bind (py_remove name (jq_forced q)) (\<lambda>xs. Inr (q\<lparr>jq_forced := xs\<rparr>))
          else res_bind (py_remove name (jq_run q)) (\<lambda>xs. Inr (q\<lparr>jq_run := xs\<rparr>)))"

definition job_done ::
  "int \<Rightarrow> string \<Rightarrow> int option \<Rightarrow> bool \<Rightarrow> string option \<Rightarrow> bool \<Rightarrow> jobqueue \<Rightarrow> jobqueue res" where
  "job_done now name pid ok msg force q =
     res_bind (remove_running name pid q) (\<lambda>q1.
     res_bind (close_entry now name force (record_result now name ok msg q1)) (\<lambda>q2.
       case map_of (jq_known q2) name of
         None \<Rightarrow> Inr q2
       | Some a \<Rightarrow>
           if pid = None \<or> (case a_call a of None \<Rightarrow> False | Some c \<Rightarrow> cl_wait c)
           then Inr (update_last_run name now (q2\<lparr>jq_last_run := (jq_last_run q2)(name \<mapsto> now)\<rparr>))
           else Inr q2))"

section \<open>Filling the queue\<close>

text \<open>The \<^verbatim>\<open>max_freq\<close> guard of \<^verbatim>\<open>insert_job\<close>.\<close>

definition ran_recently :: "jobqueue \<Rightarrow> string \<Rightarrow> action \<Rightarrow> bool res" where
  "ran_recently q name job =
     (case a_max_freq job of
        None \<Rightarrow> Inr False
      | Some f \<Rightarrow>
          if f = 0 then Inr False
          else case jq_last_run q name of
                 None \<Rightarrow> Inl KeyError
               | Some t \<Rightarrow> Inr (jq_current_time q - t < f))"

text \<open>
  \<^verbatim>\<open>insert_job\<close> with its two loops \<open>insert_jobs\<close> over \<^verbatim>\<open>pre\<close> and \<^verbatim>\<open>post\<close>; the queue and the
  set \<^verbatim>\<open>_already_checked\<close>, which Python mutates, are threaded through.
\<close>

function insert_job :: "jobqueue \<Rightarrow> string list \<Rightarrow> string \<Rightarrow> string set \<Rightarrow> (string list \<times> string set) res"
  and insert_jobs :: "jobqueue \<Rightarrow> string list \<Rightarrow> string list \<Rightarrow> string set \<Rightarrow> (string list \<times> string set) res" where
  "insert_job q queue name checked =
     (if name \<in> checked then Inr (queue, checked)
      else res_bind (dict_get (jq_known q) name) (\<lambda>job.
        if name \<in> set queue \<and> \<not> a_multi_ok job then Inr (queue, insert name checked)
        else res_bind (ran_recently q name job) (\<lambda>recent.
          if recent then Inr (queue, insert name checked)
          else if name \<in> set (running_names q) then Inr (queue, insert name checked)
          else res_bind (insert_jobs q queue (a_pre job) (insert name checked)) (\<lambda>r.
            insert_jobs q (fst r @ [name]) (a_post job) (snd r)))))"
| "insert_jobs q queue [] checked = Inr (queue, checked)"
| "insert_jobs q queue (n # ns) checked =
     res_bind (insert_job q queue n checked) (\<lambda>r. insert_jobs q (fst r) ns (snd r))"
  by pat_completeness auto

text \<open>The set of checked names grows, so the known jobs left to check bound the recursion.\<close>

definition left_to_check :: "jobqueue \<Rightarrow> string set \<Rightarrow> string set" where
  "left_to_check q checked = set (keys (jq_known q)) - checked"

lemma finite_left_to_check [simp]: "finite (left_to_check q c)"
  by (simp add: left_to_check_def)

lemma insert_job_pcases:
  assumes "insert_job_insert_jobs_dom (Inl (q, queue, n, c))" "insert_job q queue n c = Inr r"
  obtains "n \<in> c" "r = (queue, c)"
  | "n \<notin> c" "r = (queue, insert n c)"
  | job r1 where "n \<notin> c" "dict_get (jq_known q) n = Inr job" "\<not> (n \<in> set queue \<and> \<not> a_multi_ok job)"
      "ran_recently q n job = Inr False" "n \<notin> set (running_names q)"
      "insert_jobs q queue (a_pre job) (insert n c) = Inr r1"
      "insert_jobs q (fst r1 @ [n]) (a_post job) (snd r1) = Inr r"
  using assms(2) unfolding insert_job.psimps [OF assms(1)]
  by (fastforce simp only: res_bind_eq_Inr sum.inject split: if_splits)

lemma insert_job_checked:
  "insert_job_insert_jobs_dom (Inl (q, queue, n, c)) \<Longrightarrow>
     insert_job q queue n c = Inr r \<Longrightarrow> insert n c \<subseteq> snd r"
  "insert_job_insert_jobs_dom (Inr (q, queue, ns, c)) \<Longrightarrow>
     insert_jobs q queue ns c = Inr r \<Longrightarrow> c \<subseteq> snd r"
proof (induction q queue n c and q queue ns c arbitrary: r and r rule: insert_job_insert_jobs.pinduct)
  case (1 q queue n c)
  show ?case
  proof (rule insert_job_pcases [OF "1.hyps" "1.prems"], goal_cases)
    case (3 job r1)
    then show ?case
      using "1.IH"(1) [OF 3(1-4) _ 3(5,6)] "1.IH"(2) [OF 3(1-4) _ 3(5-7)] by auto
  qed auto
next
  case (2 q queue c)
  then show ?case by (auto simp: insert_jobs.psimps)
next
  case (3 q queue n ns c)
  from "3.prems" obtain r1 where r1: "insert_job q queue n c = Inr r1" "insert_jobs q (fst r1) ns (snd r1) = Inr r"
    unfolding insert_jobs.psimps(2) [OF "3.hyps"(1)] by (auto simp only: res_bind_eq_Inr)
  show ?case using "3.IH"(1) [OF r1(1)] "3.IH"(2) [OF r1] by auto
qed

lemma dict_get_known: "dict_get (jq_known q) n = Inr job \<Longrightarrow> n \<in> set (keys (jq_known q))"
  by (auto simp only: dict_get_eq_Inr dest: map_of_Some_keys)

lemma left_to_check_less:
  "n \<in> set (keys (jq_known q)) \<Longrightarrow> n \<notin> c \<Longrightarrow> insert n c \<subseteq> c' \<Longrightarrow> card (left_to_check q c') < card (left_to_check q c)"
  by (rule psubset_card_mono) (auto simp: left_to_check_def)

lemma left_to_check_le: "c \<subseteq> c' \<Longrightarrow> card (left_to_check q c') \<le> card (left_to_check q c)"
  by (rule card_mono) (auto simp: left_to_check_def)

termination insert_job
proof (relation "measures [\<lambda>x. case x of Inl (q, u, n, c) \<Rightarrow> card (left_to_check q c) | Inr (q, u, ns, c) \<Rightarrow> card (left_to_check q c),
    \<lambda>x. case x of Inl (q, u, n, c) \<Rightarrow> 0 | Inr (q, u, ns, c) \<Rightarrow> Suc (length ns)]", goal_cases)
  case 1
  show ?case by simp
next
  case (2 q queue name checked job recent)
  then show ?case
    using left_to_check_less [OF dict_get_known, of q name job checked "insert name checked"] by auto
next
  case (3 q queue name checked job recent r)
  have "insert name checked \<subseteq> snd r"
    using insert_job_checked(2) 3 by blast
  then have "card (left_to_check q (snd r)) < card (left_to_check q checked)"
    using 3 by (intro left_to_check_less [OF dict_get_known])
  then show ?case by simp
next
  case (4 q queue n ns checked)
  show ?case by simp
next
  case (5 q queue n ns checked r)
  then show ?case using left_to_check_le [of checked "snd r" q] insert_job_checked(1) by fastforce
qed

declare insert_job.simps [simp del]

section \<open>Choosing what to run next\<close>

text \<open>
  The loop of \<^verbatim>\<open>get_next_job_time\<close>. A job whose time has come is inserted; when that adds nothing
  its delta does not count. \<open>append\<close> keeps the jobs already queued.
\<close>

fun fill_queue :: "(int \<Rightarrow> int) \<Rightarrow> jobqueue \<Rightarrow> bool \<Rightarrow> string list \<Rightarrow> int \<Rightarrow> job_config \<Rightarrow> (string list \<times> int) res" where
  "fill_queue tz q app queue min_delta [] = Inr (queue, min_delta)"
| "fill_queue tz q app queue min_delta ((name, a) # jobs) =
     (case jq_last_run q name of
        None \<Rightarrow> Inl KeyError
      | Some last_run \<Rightarrow>
          res_bind (next_delta tz a last_run (jq_current_time q)) (\<lambda>d.
            case d of
              None \<Rightarrow> fill_queue tz q app queue min_delta jobs
            | Some delta \<Rightarrow>
                if app \<and> name \<in> set (jq_run q) then fill_queue tz q app queue min_delta jobs
                else if delta \<le> 0 then
                  res_bind (insert_job q queue name {}) (\<lambda>r.
                    if length (fst r) = length queue then fill_queue tz q app (fst r) min_delta jobs
                    else fill_queue tz q app (fst r) (min delta min_delta) jobs)
                else fill_queue tz q app queue (min delta min_delta) jobs))"

definition get_next_job_time :: "(int \<Rightarrow> int) \<Rightarrow> int \<Rightarrow> bool \<Rightarrow> jobqueue \<Rightarrow> (int \<times> jobqueue) res" where
  "get_next_job_time tz now app q =
     (let q1 = q\<lparr>jq_current_time :=
           (if jq_debug_time q \<noteq> 0 then jq_current_time q + jq_debug_time q else now)\<rparr>
      in res_bind (fill_queue tz q1 app (if app then jq_run q1 else []) 999999 (jq_known q1)) (\<lambda>(queue, min_delta).
           Inr (min_delta, q1\<lparr>jq_run := queue\<rparr>)))"

section \<open>Queries\<close>

definition is_running :: "jobqueue \<Rightarrow> string \<Rightarrow> bool" where
  "is_running q name \<longleftrightarrow> name \<in> set (running_names q)"

definition is_queued :: "jobqueue \<Rightarrow> string \<Rightarrow> bool \<Rightarrow> bool" where
  "is_queued q name include_forced \<longleftrightarrow>
     include_forced \<and> name \<in> set (jq_forced q) \<or> name \<in> set (jq_run q)"

definition get_or_0 :: "(string \<rightharpoonup> int) \<Rightarrow> string \<Rightarrow> int" where
  "get_or_0 m k = (case m k of None \<Rightarrow> 0 | Some v \<Rightarrow> v)"

definition last_started_at :: "jobqueue \<Rightarrow> string \<Rightarrow> int" where
  "last_started_at q name = get_or_0 (jq_started_at q) name"

definition last_done_at :: "jobqueue \<Rightarrow> string \<Rightarrow> int" where
  "last_done_at q name = get_or_0 (jq_last_run q) name"

definition last_success_at :: "jobqueue \<Rightarrow> string \<Rightarrow> int" where
  "last_success_at q name = get_or_0 (jq_last_success q) name"

definition last_failure_at :: "jobqueue \<Rightarrow> string \<Rightarrow> int" where
  "last_failure_at q name = get_or_0 (jq_last_failure q) name"

definition last_status :: "jobqueue \<Rightarrow> string \<Rightarrow> string" where
  "last_status q name =
     (case jq_last_status q name of None \<Rightarrow> ''unknown'' | Some m \<Rightarrow> if m = [] then ''unknown'' else m)"

section \<open>What an insertion does\<close>

lemma insert_job_cases:
  assumes "insert_job q queue n c = Inr r"
  obtains "n \<in> c" "r = (queue, c)"
  | "n \<notin> c" "r = (queue, insert n c)"
  | job r1 where "n \<notin> c" "dict_get (jq_known q) n = Inr job" "\<not> (n \<in> set queue \<and> \<not> a_multi_ok job)"
      "ran_recently q n job = Inr False" "n \<notin> set (running_names q)"
      "insert_jobs q queue (a_pre job) (insert n c) = Inr r1"
      "insert_jobs q (fst r1 @ [n]) (a_post job) (snd r1) = Inr r"
  using assms unfolding insert_job.simps [of q queue n c]
  by (fastforce simp only: res_bind_eq_Inr sum.inject split: if_splits)

lemma insert_jobs_Cons:
  "insert_jobs q queue (n # ns) c = Inr r \<longleftrightarrow>
     (\<exists>r1. insert_job q queue n c = Inr r1 \<and> insert_jobs q (fst r1) ns (snd r1) = Inr r)"
  by (simp add: res_bind_eq_Inr)

declare insert_jobs.simps(2) [simp del]

text \<open>The jobs a queue may receive: known, not running and not run within their \<^verbatim>\<open>max_freq\<close>.\<close>

definition insertable :: "jobqueue \<Rightarrow> string \<Rightarrow> bool" where
  "insertable q n \<longleftrightarrow>
     n \<notin> set (running_names q) \<and>
     (case map_of (jq_known q) n of None \<Rightarrow> False | Some job \<Rightarrow> ran_recently q n job = Inr False)"

definition multi_ok :: "jobqueue \<Rightarrow> string \<Rightarrow> bool" where
  "multi_ok q n \<longleftrightarrow> (case map_of (jq_known q) n of None \<Rightarrow> False | Some job \<Rightarrow> a_multi_ok job)"

definition fresh :: "jobqueue \<Rightarrow> string list \<Rightarrow> string \<Rightarrow> bool" where
  "fresh q queue n \<longleftrightarrow> insertable q n \<and> (n \<in> set queue \<longrightarrow> multi_ok q n)"

lemma fresh_append: "fresh q (queue @ xs) n \<Longrightarrow> fresh q queue n"
  by (auto simp: fresh_def)

lemma insert_job_appends:
  "insert_job q queue n c = Inr r \<Longrightarrow>
     \<exists>new. fst r = queue @ new \<and> distinct new \<and> insert n c \<subseteq> snd r \<and> set new \<subseteq> snd r - c \<and> (\<forall>x \<in> set new. fresh q queue x)"
  "insert_jobs q queue ns c = Inr r \<Longrightarrow>
     \<exists>new. fst r = queue @ new \<and> distinct new \<and> set ns \<union> c \<subseteq> snd r \<and> set new \<subseteq> snd r - c \<and> (\<forall>x \<in> set new. fresh q queue x)"
proof (induction q queue n c and q queue ns c arbitrary: r and r rule: insert_job_insert_jobs.induct)
  case (1 q queue n c)
  show ?case
  proof (rule insert_job_cases [OF "1.prems"], goal_cases)
    case (3 job r1)
    obtain n1 where n1: "fst r1 = queue @ n1" "distinct n1" "set (a_pre job) \<union> insert n c \<subseteq> snd r1"
        "set n1 \<subseteq> snd r1 - insert n c" "\<forall>x \<in> set n1. fresh q queue x"
      using "1.IH"(1) [OF 3(1-4) _ 3(5,6)] by auto
    obtain n2 where n2: "fst r = (fst r1 @ [n]) @ n2" "distinct n2" "set (a_post job) \<union> snd r1 \<subseteq> snd r"
        "set n2 \<subseteq> snd r - snd r1" "\<forall>x \<in> set n2. fresh q (fst r1 @ [n]) x"
      using "1.IH"(2) [OF 3(1-4) _ 3(5-7)] by auto
    have "fresh q queue n" using 3 by (auto simp: fresh_def insertable_def multi_ok_def dict_get_eq_Inr)
    moreover have "\<forall>x \<in> set n2. fresh q queue x" using n2(5) n1(1) by (auto intro: fresh_append)
    ultimately show ?case using n1 n2(1-4) 3(1) by (intro exI [of _ "n1 @ n # n2"]) auto
  qed auto
next
  case (2 q queue c)
  then show ?case by auto
next
  case (3 q queue n ns c)
  from "3.prems" obtain r1 where r1: "insert_job q queue n c = Inr r1" "insert_jobs q (fst r1) ns (snd r1) = Inr r"
    by (auto simp only: insert_jobs_Cons)
  obtain n1 where n1: "fst r1 = queue @ n1" "distinct n1" "insert n c \<subseteq> snd r1"
      "set n1 \<subseteq> snd r1 - c" "\<forall>x \<in> set n1. fresh q queue x" using "3.IH"(1) [OF r1(1)] by auto
  obtain n2 where n2: "fst r = fst r1 @ n2" "distinct n2" "set ns \<union> snd r1 \<subseteq> snd r"
      "set n2 \<subseteq> snd r - snd r1" "\<forall>x \<in> set n2. fresh q (fst r1) x" using "3.IH"(2) [OF r1] by auto
  have "\<forall>x \<in> set n2. fresh q queue x" using n2(5) n1(1) by (auto intro: fresh_append)
  then show ?case using n1 n2(1-4) by (intro exI [of _ "n1 @ n2"]) auto
qed

section \<open>Order of the inserted jobs\<close>

text \<open>The dependencies of a configuration: from a job to its pre-jobs and its post-jobs.\<close>

definition post_of :: "job_config \<Rightarrow> string \<Rightarrow> string list" where
  "post_of jobs n = (case map_of jobs n of None \<Rightarrow> [] | Some a \<Rightarrow> a_post a)"

definition dep_edges :: "job_config \<Rightarrow> (string \<times> string) set" where
  "dep_edges g = {(n, m). m \<in> set (pre_of g n) \<union> set (post_of g n)}"

text \<open>In \<open>new\<close> a job stands after those of its pre-jobs that \<open>new\<close> has.\<close>

definition pre_first :: "job_config \<Rightarrow> string list \<Rightarrow> bool" where
  "pre_first g new \<longleftrightarrow>
     (\<forall>us x vs. new = us @ x # vs \<longrightarrow> set (pre_of g x) \<inter> set (x # vs) = {})"

lemma pre_first_append:
  assumes "pre_first g a" "pre_first g b" "\<And>x. x \<in> set a \<Longrightarrow> set (pre_of g x) \<inter> set b = {}"
  shows "pre_first g (a @ b)"
  unfolding pre_first_def
proof (intro allI impI)
  fix us x vs
  assume "a @ b = us @ x # vs"
  then consider ws where "a = us @ x # ws" "vs = ws @ b" | ws where "b = ws @ x # vs" "us = a @ ws"
    by (auto simp: append_eq_append_conv2 append_eq_Cons_conv Cons_eq_append_conv)
  then show "set (pre_of g x) \<inter> set (x # vs) = {}"
  proof cases
    case 1
    then show ?thesis using assms(1,3) by (fastforce simp: pre_first_def)
  next
    case 2
    then show ?thesis using assms(2) unfolding pre_first_def by blast
  qed
qed

lemma pre_first_single: "x \<notin> set (pre_of g x) \<Longrightarrow> pre_first g [x]"
  by (auto simp: pre_first_def Cons_eq_append_conv)

lemma pre_first_Nil [simp]: "pre_first g []"
  by (simp add: pre_first_def)

text \<open>What an insertion from \<open>roots\<close> into a queue promises when the dependencies have no cycle.\<close>

definition ordered_insertion ::
  "job_config \<Rightarrow> string set \<Rightarrow> string list \<Rightarrow> string set \<Rightarrow> string list \<times> string set \<Rightarrow> string list \<Rightarrow> bool" where
  "ordered_insertion g roots queue c r new \<longleftrightarrow>
     fst r = queue @ new \<and> set new \<subseteq> snd r - c \<and> roots \<union> c \<subseteq> snd r \<and>
     snd r - c \<subseteq> (dep_edges g)\<^sup>* `` roots \<and> (\<forall>x \<in> set new. set (pre_of g x) \<subseteq> snd r) \<and> pre_first g new"

lemma pre_of_known: "map_of g n = Some job \<Longrightarrow> pre_of g n = a_pre job"
  by (simp add: pre_of_def)

lemma post_of_known: "map_of g n = Some job \<Longrightarrow> post_of g n = a_post job"
  by (simp add: post_of_def)

lemma ordered_insertion_seq:
  assumes "ordered_insertion g A queue c r1 n1" "ordered_insertion g B (fst r1) (snd r1) r n2"
  shows "ordered_insertion g (A \<union> B) queue c r (n1 @ n2)"
proof -
  have "pre_first g (n1 @ n2)"
    using assms unfolding ordered_insertion_def by (intro pre_first_append) blast+
  moreover have "snd r - c \<subseteq> (dep_edges g)\<^sup>* `` (A \<union> B)"
    using assms unfolding ordered_insertion_def by blast
  moreover have "\<forall>x \<in> set (n1 @ n2). set (pre_of g x) \<subseteq> snd r"
    using assms unfolding ordered_insertion_def set_append by blast
  ultimately show ?thesis
    using assms unfolding ordered_insertion_def by (intro conjI) auto
qed

lemma ordered_insertion_job:
  assumes ac: "acyclic (dep_edges g)" and n: "n \<notin> c" and
    pre: "ordered_insertion g (set (pre_of g n)) queue (insert n c) r1 n1" and
    post: "ordered_insertion g (set (post_of g n)) (fst r1 @ [n]) (snd r1) r n2"
  shows "ordered_insertion g {n} queue c r (n1 @ n # n2)"
proof -
  let ?E = "dep_edges g"
  have step: "\<And>x y. y \<in> set (pre_of g x) \<union> set (post_of g x) \<Longrightarrow> (x, y) \<in> ?E" by (simp add: dep_edges_def)
  have below: "x \<in> set n1 \<Longrightarrow> (n, x) \<in> ?E\<^sup>+" for x
    using pre step unfolding ordered_insertion_def by (blast intro: rtrancl_into_trancl2)
  have self: "n \<notin> set (pre_of g n)" using ac step unfolding acyclic_def by blast
  have up: "x \<in> set n1 \<Longrightarrow> n \<notin> set (pre_of g x)" for x
    using below [of x] ac step unfolding acyclic_def by (meson UnI1 trancl.trancl_into_trancl)
  have "pre_first g (n1 @ [n])"
    using pre up unfolding ordered_insertion_def by (intro pre_first_append pre_first_single self) auto
  moreover have "set (pre_of g x) \<inter> set n2 = {}" if "x \<in> set (n1 @ [n])" for x
    using that pre post unfolding ordered_insertion_def set_append set_simps by blast
  moreover have "pre_first g n2" using post by (simp add: ordered_insertion_def)
  ultimately have first: "pre_first g ((n1 @ [n]) @ n2)"
    using pre_first_append [of g "n1 @ [n]" n2] by blast
  have "?E\<^sup>* `` (set (pre_of g n) \<union> set (post_of g n)) \<subseteq> ?E\<^sup>* `` {n}"
  proof (rule subsetI, elim ImageE)
    fix y z
    assume "(y, z) \<in> ?E\<^sup>*" "y \<in> set (pre_of g n) \<union> set (post_of g n)"
    then have "(n, z) \<in> ?E\<^sup>*" using converse_rtrancl_into_rtrancl [OF step] by simp
    then show "z \<in> ?E\<^sup>* `` {n}" by simp
  qed
  then have "snd r1 - insert n c \<subseteq> ?E\<^sup>* `` {n}" "snd r - snd r1 \<subseteq> ?E\<^sup>* `` {n}"
    using pre post unfolding ordered_insertion_def by (meson Image_mono order_refl subset_trans sup_ge1 sup_ge2)+
  moreover have "n \<in> ?E\<^sup>* `` {n}" by simp
  moreover have "snd r - c \<subseteq> (snd r - snd r1) \<union> (snd r1 - insert n c) \<union> {n}" by (rule subsetI, simp)
  ultimately have "snd r - c \<subseteq> ?E\<^sup>* `` {n}" by (meson Un_least empty_subsetI insert_subset order_trans)
  moreover have "\<forall>x \<in> set (n1 @ n # n2). set (pre_of g x) \<subseteq> snd r"
    using pre post unfolding ordered_insertion_def set_append set_simps by blast
  ultimately show ?thesis using pre post n first unfolding ordered_insertion_def by (intro conjI) auto
qed

lemma insert_job_ordered:
  "insert_job q queue n c = Inr r \<Longrightarrow> acyclic (dep_edges (jq_known q)) \<Longrightarrow>
     \<exists>new. ordered_insertion (jq_known q) {n} queue c r new"
  "insert_jobs q queue ns c = Inr r \<Longrightarrow> acyclic (dep_edges (jq_known q)) \<Longrightarrow>
     \<exists>new. ordered_insertion (jq_known q) (set ns) queue c r new"
proof (induction q queue n c and q queue ns c arbitrary: r and r rule: insert_job_insert_jobs.induct)
  case (1 q queue n c)
  show ?case
  proof (rule insert_job_cases [OF "1.prems"(1)], goal_cases)
    case 1
    then show ?case by (intro exI [of _ "[]"]) (auto simp: ordered_insertion_def)
  next
    case 2
    then show ?case by (intro exI [of _ "[]"]) (auto simp: ordered_insertion_def)
  next
    case (3 job r1)
    note lists = pre_of_known [OF 3(2) [unfolded dict_get_eq_Inr]] post_of_known [OF 3(2) [unfolded dict_get_eq_Inr]]
    obtain n1 where "ordered_insertion (jq_known q) (set (a_pre job)) queue (insert n c) r1 n1"
      using "1.IH"(1) [OF 3(1-4) _ 3(5,6) "1.prems"(2)] by auto
    moreover obtain n2 where "ordered_insertion (jq_known q) (set (a_post job)) (fst r1 @ [n]) (snd r1) r n2"
      using "1.IH"(2) [OF 3(1-4) _ 3(5-7) "1.prems"(2)] by auto
    ultimately show ?case using ordered_insertion_job [OF "1.prems"(2) 3(1)] by (metis lists)
  qed
next
  case (2 q queue c)
  then show ?case by (intro exI [of _ "[]"]) (auto simp: ordered_insertion_def)
next
  case (3 q queue n ns c)
  from "3.prems" obtain r1 where r1: "insert_job q queue n c = Inr r1" "insert_jobs q (fst r1) ns (snd r1) = Inr r"
    by (auto simp only: insert_jobs_Cons)
  obtain n1 n2 where "ordered_insertion (jq_known q) {n} queue c r1 n1"
      "ordered_insertion (jq_known q) (set ns) (fst r1) (snd r1) r n2"
    using "3.IH"(1) [OF r1(1)] "3.IH"(2) [OF r1] "3.prems" by blast
  then show ?case using ordered_insertion_seq by fastforce
qed

section \<open>Insertion never raises on a checked configuration\<close>

lemma ran_recently_total:
  "n \<in> dom (jq_last_run q) \<Longrightarrow> \<exists>b. ran_recently q n job = Inr b"
  by (auto simp: ran_recently_def split: option.splits)

lemma names_defined_lists:
  "names_defined g \<Longrightarrow> map_of g n = Some a \<Longrightarrow> set (a_pre a) \<union> set (a_post a) \<subseteq> set (keys g)"
  by (fastforce simp: names_defined_def dest: map_of_SomeD)

lemma insert_job_total:
  "names_defined (jq_known q) \<Longrightarrow> set (keys (jq_known q)) \<subseteq> dom (jq_last_run q) \<Longrightarrow>
     n \<in> set (keys (jq_known q)) \<Longrightarrow> \<exists>r. insert_job q queue n c = Inr r"
  "names_defined (jq_known q) \<Longrightarrow> set (keys (jq_known q)) \<subseteq> dom (jq_last_run q) \<Longrightarrow>
     set ns \<subseteq> set (keys (jq_known q)) \<Longrightarrow> \<exists>r. insert_jobs q queue ns c = Inr r"
proof (induction q queue n c and q queue ns c rule: insert_job_insert_jobs.induct)
  case (1 q queue n c)
  obtain job where job: "map_of (jq_known q) n = Some job" using keys_map_of_Some [OF "1.prems"(3)] by blast
  obtain b where b: "ran_recently q n job = Inr b" using ran_recently_total 1(5,4) "1.prems" by blast
  show ?case
  proof (cases "n \<in> c \<or> n \<in> set queue \<and> \<not> a_multi_ok job \<or> b \<or> n \<in> set (running_names q)")
    case True
    then show ?thesis using job b by (auto simp: insert_job.simps [of q queue n c])
  next
    case False
    note IH = "1.IH" [of job b] and g = names_defined_lists [OF "1.prems"(1) job]
    obtain r1 where r1: "insert_jobs q queue (a_pre job) (insert n c) = Inr r1"
      using IH(1) False job b g "1.prems" by auto
    moreover obtain r2 where "insert_jobs q (fst r1 @ [n]) (a_post job) (snd r1) = Inr r2"
      using IH(2) [OF _ _ _ _ _ _ r1] False job b g "1.prems" by auto
    ultimately show ?thesis using False job b by (simp add: insert_job.simps [of q queue n c])
  qed
next
  case (2 q queue c)
  then show ?case by simp
next
  case (3 q queue n ns c)
  then obtain r1 where r1: "insert_job q queue n c = Inr r1" by auto
  with "3.IH"(2) [OF r1] "3.prems" show ?case by (simp add: insert_jobs_Cons)
qed

section \<open>Filling the queue\<close>

text \<open>No job is queued twice, unless its definition allows that.\<close>

definition queued_once :: "jobqueue \<Rightarrow> string list \<Rightarrow> bool" where
  "queued_once q queue \<longleftrightarrow> (\<forall>x. \<not> multi_ok q x \<longrightarrow> count_list queue x \<le> 1)"

lemma queued_once_Nil [simp]: "queued_once q []"
  by (simp add: queued_once_def)

lemma queued_once_remove1: "queued_once q queue \<Longrightarrow> queued_once q (remove1 x queue)"
  by (auto simp: queued_once_def count_list_remove1 intro: le_SucI diff_le_self le_trans)

lemma queued_once_append:
  assumes "queued_once q queue" "distinct new" "\<forall>x \<in> set new. fresh q queue x"
  shows "queued_once q (queue @ new)"
  unfolding queued_once_def
proof (intro allI impI)
  fix x
  assume x: "\<not> multi_ok q x"
  show "count_list (queue @ new) x \<le> 1"
  proof (cases "x \<in> set new")
    case True
    then have "count_list queue x = 0" using assms(3) x by (auto simp: fresh_def count_list_0_iff)
    then show ?thesis using count_list_distinct [OF assms(2)] by simp
  next
    case False
    then show ?thesis using assms(1) x by (simp add: queued_once_def)
  qed
qed

text \<open>What one pass over the known jobs adds to a queue.\<close>

definition filled :: "jobqueue \<Rightarrow> string list \<Rightarrow> string list \<Rightarrow> bool" where
  "filled q queue queue' \<longleftrightarrow>
     (\<exists>new. queue' = queue @ new \<and> (\<forall>x \<in> set new. insertable q x)) \<and> (queued_once q queue \<longrightarrow> queued_once q queue')"

lemma filled_refl: "filled q queue queue"
  by (simp add: filled_def)

lemma filled_trans: "filled q a b \<Longrightarrow> filled q b c \<Longrightarrow> filled q a c"
  by (fastforce simp: filled_def)

lemma filled_mono: "filled q a b \<Longrightarrow> set a \<subseteq> set b"
  by (auto simp: filled_def)

lemma insert_job_filled: "insert_job q queue n c = Inr r \<Longrightarrow> filled q queue (fst r)"
  using insert_job_appends(1) [of q queue n c r] queued_once_append
  by (fastforce simp: filled_def fresh_def)

lemma insert_job_inserts:
  assumes "insert_job q queue n {} = Inr r" "insertable q n"
  shows "n \<in> set (fst r)"
proof (cases "n \<in> set queue")
  case True
  then show ?thesis using filled_mono [OF insert_job_filled [OF assms(1)]] by blast
next
  case False
  obtain job where job: "map_of (jq_known q) n = Some job" "ran_recently q n job = Inr False" "n \<notin> set (running_names q)"
    using assms(2) by (auto simp: insertable_def split: option.splits)
  then obtain r1 where "insert_jobs q (fst r1 @ [n]) (a_post job) (snd r1) = Inr r"
    using assms(1) False by (auto simp: insert_job.simps [of q queue n] res_bind_eq_Inr)
  then show ?thesis using insert_job_appends(2) by fastforce
qed

text \<open>A job is due when its next time has come.\<close>

definition due :: "(int \<Rightarrow> int) \<Rightarrow> jobqueue \<Rightarrow> string \<Rightarrow> action \<Rightarrow> bool" where
  "due tz q n a \<longleftrightarrow>
     (case jq_last_run q n of
        None \<Rightarrow> False
      | Some t \<Rightarrow> (case next_delta tz a t (jq_current_time q) of Inr (Some d) \<Rightarrow> d \<le> 0 | _ \<Rightarrow> False))"

lemma fill_queue_Cons:
  assumes "fill_queue tz q app queue d ((n, a) # jobs) = Inr r"
  obtains queue1 d1 where "fill_queue tz q app queue1 d1 jobs = Inr r" "filled q queue queue1" "d1 \<le> d"
    "due tz q n a \<Longrightarrow> insertable q n \<Longrightarrow> n \<in> set queue1 \<or> app \<and> n \<in> set (jq_run q)"
proof -
  from assms obtain t dl where t: "jq_last_run q n = Some t" "next_delta tz a t (jq_current_time q) = Inr dl"
    by (auto simp: res_bind_eq_Inr split: option.splits)
  show ?thesis
  proof (cases "\<exists>del. dl = Some del \<and> del \<le> 0 \<and> \<not> (app \<and> n \<in> set (jq_run q))")
    case True
    then obtain r1 where r1: "insert_job q queue n {} = Inr r1"
      using assms t by (auto simp: res_bind_eq_Inr)
    then have "\<exists>d1 \<le> d. fill_queue tz q app (fst r1) d1 jobs = Inr r"
      using assms t True by (auto simp: res_bind_eq_Inr split: if_splits) (metis min.cobounded2 order_refl)+
    then show ?thesis using that [of "fst r1"] insert_job_filled [OF r1] insert_job_inserts [OF r1] by blast
  next
    case False
    then have "\<exists>d1 \<le> d. fill_queue tz q app queue d1 jobs = Inr r"
      using assms t by (auto split: if_splits option.splits) (metis min.cobounded2 order_refl)+
    moreover have "due tz q n a \<Longrightarrow> app \<and> n \<in> set (jq_run q)"
      using False t by (auto simp: due_def split: option.splits)
    ultimately show ?thesis using that [of queue] filled_refl by blast
  qed
qed

declare fill_queue.simps(2) [simp del]

lemma fill_queue_filled:
  "fill_queue tz q app queue d jobs = Inr (queue', d') \<Longrightarrow> filled q queue queue' \<and> d' \<le> d"
proof (induction jobs arbitrary: queue d)
  case (Cons p jobs)
  obtain n a where p: "p = (n, a)" by fastforce
  show ?case
    by (rule fill_queue_Cons [OF Cons.prems [unfolded p]]) (metis Cons.IH filled_trans order_trans)
qed (simp add: filled_refl)

lemma fill_queue_due:
  "fill_queue tz q app queue d jobs = Inr (queue', d') \<Longrightarrow> (n, a) \<in> set jobs \<Longrightarrow> due tz q n a \<Longrightarrow>
     insertable q n \<Longrightarrow> n \<in> set queue' \<or> app \<and> n \<in> set (jq_run q)"
proof (induction jobs arbitrary: queue d)
  case (Cons p jobs)
  obtain n' a' where p: "p = (n', a')" by fastforce
  show ?case
  proof (rule fill_queue_Cons [OF Cons.prems(1) [unfolded p]])
    fix queue1 d1
    assume *: "fill_queue tz q app queue1 d1 jobs = Inr (queue', d')"
      "due tz q n' a' \<Longrightarrow> insertable q n' \<Longrightarrow> n' \<in> set queue1 \<or> app \<and> n' \<in> set (jq_run q)"
    show ?case
    proof (cases "(n, a) \<in> set jobs")
      case True
      then show ?thesis using Cons.IH [OF *(1)] Cons.prems by blast
    next
      case False
      then have "n \<in> set queue1 \<or> app \<and> n \<in> set (jq_run q)" using *(2) Cons.prems p by auto
      then show ?thesis using fill_queue_filled [OF *(1)] filled_mono by blast
    qed
  qed
qed simp

lemma fill_queue_total:
  assumes "names_defined (jq_known q)" "set (keys (jq_known q)) \<subseteq> dom (jq_last_run q)"
  shows "set jobs \<subseteq> set (jq_known q) \<Longrightarrow>
    \<forall>(n, a) \<in> set jobs. is_ok (next_delta tz a (the (jq_last_run q n)) (jq_current_time q)) \<Longrightarrow>
    \<exists>r. fill_queue tz q app queue d jobs = Inr r"
proof (induction jobs arbitrary: queue d)
  case (Cons p jobs)
  obtain n a where p: "p = (n, a)" by fastforce
  have n: "n \<in> set (keys (jq_known q))" using Cons.prems(1) p by force
  then obtain t where t: "jq_last_run q n = Some t" using assms(2) by blast
  obtain dl where dl: "next_delta tz a t (jq_current_time q) = Inr dl" using Cons.prems(2) p t by (auto simp: is_ok_iff)
  obtain r1 where r1: "insert_job q queue n {} = Inr r1" using insert_job_total(1) [OF assms n] by blast
  have IH: "\<And>queue d. \<exists>r. fill_queue tz q app queue d jobs = Inr r" using Cons by simp
  show ?case using p t dl r1 IH by (auto simp: fill_queue.simps split: option.splits)
qed simp

section \<open>Reloading\<close>

text \<open>Two actions that differ at most in the identity of their call.\<close>

definition same_def :: "action \<Rightarrow> action \<Rightarrow> bool" where
  "same_def a b \<longleftrightarrow> map_option (\<lambda>c. c\<lparr>cl_id := None\<rparr>) (a_call a) = map_option (\<lambda>c. c\<lparr>cl_id := None\<rparr>) (a_call b) \<and>
     a\<lparr>a_call := None\<rparr> = b\<lparr>a_call := None\<rparr>"

lemma same_def_fields:
  assumes "same_def a b"
  shows "a_pre a = a_pre b" "a_post a = a_post b" "a_multi_ok a = a_multi_ok b" "a_nonconcurrent a = a_nonconcurrent b"
    "a_max_freq a = a_max_freq b" "a_max_duration a = a_max_duration b" "a_when a = a_when b" "a_notwhen a = a_notwhen b"
  using assms by (cases a; cases b; simp add: same_def_def)+

lemma same_def_trans: "same_def a b \<Longrightarrow> same_def b c \<Longrightarrow> same_def a c"
  by (simp add: same_def_def)

lemma same_def_set_id: "same_def a (set_call_id n a)"
  by (cases "a_call a") (auto simp: same_def_def set_call_id_def)

lemma same_def_copy: "same_def a (copy_runtime_params a old)"
  by (auto simp: same_def_def copy_runtime_params_def call_copy_runtime_params_def split: option.splits)

lemma add_known_job_known:
  "\<exists>b. same_def a b \<and> jq_known (add_known_job now n a q) = dict_set n b (jq_known q)"
  using same_def_set_id same_def_copy same_def_trans
  by (auto simp: add_known_job_def Let_def split: option.splits) blast+

lemma add_known_job_last_run:
  "dom (jq_last_run (add_known_job now n a q)) = insert n (dom (jq_last_run q))"
  by (simp add: add_known_job_def Let_def)

lemma add_known_jobs_last_run:
  "dom (jq_last_run (add_known_jobs now js q)) = set (keys js) \<union> dom (jq_last_run q)"
  by (induction now js q rule: add_known_jobs.induct) (auto simp: add_known_job_last_run)

lemma add_known_job_frame:
  "jq_run (add_known_job now n a q) = jq_run q" "jq_running (add_known_job now n a q) = jq_running q"
  "jq_forced (add_known_job now n a q) = jq_forced q" "jq_started_at (add_known_job now n a q) = jq_started_at q"
  "jq_debug_time (add_known_job now n a q) = jq_debug_time q" "jq_job_ran (add_known_job now n a q) = jq_job_ran q"
  by (simp_all add: add_known_job_def Let_def)

lemma add_known_jobs_frame:
  "jq_run (add_known_jobs now js q) = jq_run q" "jq_running (add_known_jobs now js q) = jq_running q"
  "jq_forced (add_known_jobs now js q) = jq_forced q" "jq_started_at (add_known_jobs now js q) = jq_started_at q"
  "jq_debug_time (add_known_jobs now js q) = jq_debug_time q" "jq_job_ran (add_known_jobs now js q) = jq_job_ran q"
  by (induction now js q rule: add_known_jobs.induct) (simp_all add: add_known_job_frame)

lemma add_known_jobs_known:
  "distinct (keys js) \<Longrightarrow>
     (case map_of js n of
        None \<Rightarrow> map_of (jq_known (add_known_jobs now js q)) n = map_of (jq_known q) n
      | Some a \<Rightarrow> \<exists>b. same_def a b \<and> map_of (jq_known (add_known_jobs now js q)) n = Some b)"
proof (induction now js q rule: add_known_jobs.induct)
  case (2 now m a js q)
  obtain b where b: "same_def a b" "jq_known (add_known_job now m a q) = dict_set m b (jq_known q)"
    using add_known_job_known by blast
  have "n = m \<Longrightarrow> map_of js n = None" using "2.prems" by (simp add: map_of_eq_None_iff)
  then show ?case using 2 b by (cases "n = m"; cases "map_of js n") simp_all
qed simp

lemma map_of_fold_dict_del: "map_of (fold dict_del ns d) n = (if n \<in> set ns then None else map_of d n)"
  by (induction ns arbitrary: d) auto

lemma keys_iff_map_of: "n \<in> set (keys d) \<longleftrightarrow> map_of d n \<noteq> None"
  by (metis map_of_eq_None_iff set_map)

text \<open>After a reload the known jobs are those of the configuration.\<close>

lemma reload_known:
  assumes "distinct (keys config)"
  shows "rel_option same_def (map_of config n) (map_of (jq_known (reload_scheduled_jobs now config q)) n)"
proof (cases "map_of config n")
  case None
  then show ?thesis using add_known_jobs_known [OF assms, where n = n and now = now and q = q]
    by (simp add: reload_scheduled_jobs_def Let_def map_of_fold_dict_del keys_iff_map_of del: set_map)
next
  case (Some a)
  then show ?thesis using add_known_jobs_known [OF assms, where n = n and now = now and q = q]
    by (auto simp: reload_scheduled_jobs_def Let_def map_of_fold_dict_del keys_iff_map_of simp del: set_map)
qed

lemma reload_frame:
  "jq_run (reload_scheduled_jobs now config q) = jq_run q" "jq_running (reload_scheduled_jobs now config q) = jq_running q"
  "jq_forced (reload_scheduled_jobs now config q) = jq_forced q" "jq_started_at (reload_scheduled_jobs now config q) = jq_started_at q"
  "jq_debug_time (reload_scheduled_jobs now config q) = jq_debug_time q" "jq_job_ran (reload_scheduled_jobs now config q) = jq_job_ran q"
  by (simp_all add: reload_scheduled_jobs_def Let_def add_known_jobs_frame)

lemma reload_lists:
  assumes "distinct (keys config)"
  shows "set (keys (jq_known (reload_scheduled_jobs now config q))) = set (keys config)"
    "pre_of (jq_known (reload_scheduled_jobs now config q)) = pre_of config"
    "post_of (jq_known (reload_scheduled_jobs now config q)) = post_of config"
proof -
  note rel = reload_known [OF assms, where now = now and q = q]
  show "set (keys (jq_known (reload_scheduled_jobs now config q))) = set (keys config)"
    using rel by (simp only: set_eq_iff keys_iff_map_of) (metis option.rel_distinct not_None_eq)
  show "pre_of (jq_known (reload_scheduled_jobs now config q)) = pre_of config"
  proof
    fix n show "pre_of (jq_known (reload_scheduled_jobs now config q)) n = pre_of config n"
      using rel [of n] same_def_fields by (cases "map_of config n") (auto simp: pre_of_def option_rel_Some1 rel [of n])
  qed
  show "post_of (jq_known (reload_scheduled_jobs now config q)) = post_of config"
  proof
    fix n show "post_of (jq_known (reload_scheduled_jobs now config q)) n = post_of config n"
      using rel [of n] same_def_fields by (cases "map_of config n") (auto simp: post_of_def option_rel_Some1)
  qed
qed

lemma reload_dep_edges:
  "distinct (keys config) \<Longrightarrow> dep_edges (jq_known (reload_scheduled_jobs now config q)) = dep_edges config"
  by (simp add: dep_edges_def reload_lists)

lemma reload_last_run:
  "set (keys config) \<subseteq> dom (jq_last_run (reload_scheduled_jobs now config q))"
  by (auto simp: reload_scheduled_jobs_def Let_def add_known_jobs_last_run)

lemma reload_known_last_run:
  "distinct (keys config) \<Longrightarrow> set (keys (jq_known (reload_scheduled_jobs now config q))) \<subseteq> dom (jq_last_run (reload_scheduled_jobs now config q))"
  using reload_last_run by (simp only: reload_lists(1))

lemma names_defined_iff:
  "distinct (keys g) \<Longrightarrow> names_defined g \<longleftrightarrow> (\<forall>n m. (n, m) \<in> dep_edges g \<longrightarrow> m \<in> set (keys g))"
  by (fastforce simp: names_defined_def dep_edges_def pre_of_def post_of_def simp del: set_map
      dest: map_of_SomeD split: option.splits)

text \<open>Jobs whose next time is known to be computed: a frequency, or times with minutes and hours and no \<^verbatim>\<open>max_freq\<close>.\<close>

definition schedule_ok :: "action \<Rightarrow> bool" where
  "schedule_ok a \<longleftrightarrow> (case a_when a of Some (At tss) \<Rightarrow> tss \<noteq> [] \<and> list_all spec_ok tss | _ \<Rightarrow> True)"

lemma next_times_ok: "list_all spec_ok tss \<Longrightarrow> \<exists>ds. next_times tz tss last_t cur_t = Inr ds \<and> length ds = length tss"
proof (induction tss)
  case (Cons ts tss)
  then show ?case using next_time_hits [of ts tz last_t] by auto
qed simp

lemma next_delta_ok: "schedule_ok a \<Longrightarrow> is_ok (next_delta tz a last_t cur_t)"
proof (cases "a_when a")
  case (Some w)
  assume "schedule_ok a"
  then have "\<exists>d. when_next_delta tz w last_t cur_t = Inr d"
    using next_times_ok [of _ tz last_t cur_t] Some by (fastforce simp: when_next_delta_def schedule_ok_def split: when_spec.splits)
  then show ?thesis using Some by (auto simp: next_delta_def is_ok_iff split: option.splits)
qed (simp add: next_delta_def is_ok_iff)

text \<open>
  C3: refilling the queue. For a checked configuration in which every job has a frequency, times with minutes and hours
  and no \<^verbatim>\<open>max_freq\<close>, or no schedule, and a runner that is not in debug mode, \<open>get_next_job_time\<close> returns; it keeps the queued jobs when asked to append and adds only known
  jobs that are neither running nor inside their \<^verbatim>\<open>max_freq\<close> period; every due job that may be
  queued is queued; and a job without \<^verbatim>\<open>multi_ok\<close> is never queued twice.
\<close>

theorem get_next_job_time_fills:
  assumes "names_defined (jq_known q)" "set (keys (jq_known q)) \<subseteq> dom (jq_last_run q)" "jq_debug_time q = 0"
    "\<forall>(n, a) \<in> set (jq_known q). schedule_ok a" "queued_once q (jq_run q)"
  shows "\<exists>delta q' new. get_next_job_time tz now app q = Inr (delta, q') \<and> delta \<le> 999999 \<and>
    q' = q\<lparr>jq_current_time := now, jq_run := (if app then jq_run q else []) @ new\<rparr> \<and>
    (\<forall>x \<in> set new. insertable q' x) \<and> queued_once q' (jq_run q') \<and>
    (\<forall>(n, a) \<in> set (jq_known q). due tz q' n a \<and> insertable q' n \<longrightarrow> n \<in> set (jq_run q'))"
proof -
  define q1 where "q1 = q\<lparr>jq_current_time := now\<rparr>"
  define old where "old = (if app then jq_run q else [])"
  have "\<forall>(n, a) \<in> set (jq_known q1). is_ok (next_delta tz a (the (jq_last_run q1 n)) (jq_current_time q1))"
    using assms(4) by (auto simp: q1_def intro: next_delta_ok)
  then obtain queue d where f: "fill_queue tz q1 app old 999999 (jq_known q1) = Inr (queue, d)"
    using fill_queue_total [of q1 "jq_known q1" tz app old 999999] assms(1,2) by (auto simp: q1_def)
  then have fl: "filled q1 old queue" "d \<le> 999999" using fill_queue_filled by blast+
  obtain new where new: "queue = old @ new" "\<forall>x \<in> set new. insertable q1 x" using fl(1) by (auto simp: filled_def)
  let ?q' = "q\<lparr>jq_current_time := now, jq_run := old @ new\<rparr>"
  have same: "insertable ?q' = insertable q1" "due tz ?q' = due tz q1" "multi_ok ?q' = multi_ok q" "multi_ok q1 = multi_ok q"
    by (auto simp: fun_eq_iff insertable_def ran_recently_def due_def multi_ok_def q1_def split: option.splits)
  have "queued_once q1 old" using assms(5) same by (simp add: old_def queued_once_def)
  then have once: "queued_once ?q' (old @ new)" using fl(1) new(1) same by (simp add: filled_def queued_once_def)
  have "\<forall>(n, a) \<in> set (jq_known q). due tz ?q' n a \<and> insertable ?q' n \<longrightarrow> n \<in> set (old @ new)"
    using fill_queue_due [OF f] new(1) unfolding same by (fastforce simp: q1_def old_def)
  moreover have "get_next_job_time tz now app q = Inr (d, ?q')"
    using f new(1) assms(3) by (auto simp: get_next_job_time_def q1_def old_def)
  ultimately show ?thesis using fl(2) new once same(1)
    by (intro exI [of _ d] exI [of _ ?q'] exI [of _ new]) (simp add: old_def)
qed

definition example_queue :: jobqueue where
  "example_queue = init_jobqueue 100 0
     [(''dump'', default_action\<lparr>a_when := Some (Freq 10), a_pre := [''import'']\<rparr>),
      (''import'', default_action\<lparr>a_max_freq := Some 50\<rparr>)] Map.empty"

theorem get_next_job_time_fills_witness:
  "\<exists>delta q' new. get_next_job_time (\<lambda>_. 0) 100 False example_queue = Inr (delta, q') \<and> delta \<le> 999999 \<and>
    q' = example_queue\<lparr>jq_current_time := 100, jq_run := (if False then jq_run example_queue else []) @ new\<rparr> \<and>
    (\<forall>x \<in> set new. insertable q' x) \<and> queued_once q' (jq_run q') \<and>
    (\<forall>(n, a) \<in> set (jq_known example_queue). due (\<lambda>_. 0) q' n a \<and> insertable q' n \<longrightarrow> n \<in> set (jq_run q'))"
proof (rule get_next_job_time_fills)
  show "names_defined (jq_known example_queue)" by code_simp
  show "set (keys (jq_known example_queue)) \<subseteq> dom (jq_last_run example_queue)"
    unfolding example_queue_def init_jobqueue_def by (rule reload_known_last_run) simp
  show "jq_debug_time example_queue = 0" by code_simp
  show "\<forall>(n, a) \<in> set (jq_known example_queue). schedule_ok a"
    by (simp add: example_queue_def init_jobqueue_def reload_scheduled_jobs_def add_known_job_def Let_def set_call_id_def schedule_ok_def default_action_def)
  show "queued_once example_queue (jq_run example_queue)"
    by (simp add: example_queue_def init_jobqueue_def reload_frame)
qed

lemma example_queue_acyclic: "acyclic (dep_edges (jq_known example_queue))"
proof -
  have "dep_edges (jq_known example_queue) = {(''dump'', ''import'')}"
    by (auto simp: example_queue_def init_jobqueue_def reload_dep_edges)
      (auto simp: dep_edges_def default_action_def pre_of_def post_of_def split: if_splits option.splits)
  then show ?thesis by (auto simp: acyclic_def dest: tranclD2 tranclD)
qed

text \<open>
  C26: when the pre- and post-lists together have no cycle, inserting a job puts every pre-job it
  inserts before the job that needs it.
\<close>

theorem insert_job_pre_first:
  assumes "acyclic (dep_edges (jq_known q))" "insert_job q queue name {} = Inr (queue', checked)"
  shows "\<exists>new. queue' = queue @ new \<and> pre_first (jq_known q) new"
  using insert_job_ordered(1) [OF assms(2,1)] by (auto simp: ordered_insertion_def)

theorem insert_job_pre_first_witness:
  "\<exists>new. [''import'', ''dump''] = [] @ new \<and> pre_first (jq_known example_queue) new"
proof (rule insert_job_pre_first)
  show "acyclic (dep_edges (jq_known example_queue))" by (rule example_queue_acyclic)
  show "insert_job example_queue [] ''dump'' {} = Inr ([''import'', ''dump''], {''dump'', ''import''})"
    by code_simp
qed

text \<open>
  A configuration that \<open>get_jobs\<close> accepts, in which a post-job has its own trigger as pre-job.
  Inserting \<^verbatim>\<open>main\<close> queues \<^verbatim>\<open>report\<close> ahead of its pre-job \<^verbatim>\<open>main\<close>.
\<close>

definition post_loop_config :: job_config where
  "post_loop_config =
     [(''main'', default_action\<lparr>a_pre := [''load'']\<rparr>),
      (''load'', default_action\<lparr>a_post := [''report'']\<rparr>),
      (''report'', default_action\<lparr>a_pre := [''main'']\<rparr>)]"

theorem post_loop_breaks_order:
  "get_jobs post_loop_config = Inr post_loop_config \<and>
   insert_job (init_jobqueue 100 0 post_loop_config Map.empty) [] ''main'' {} =
     Inr ([''load'', ''report'', ''main''], {''main'', ''load'', ''report''})"
  by code_simp

section \<open>What starting and finishing a job do to the queues\<close>

lemma job_started_eq:
  "job_started now n pid force q = Inr q' \<longleftrightarrow>
     n \<in> set (if force then jq_forced q else jq_run q) \<and>
     q' = q\<lparr>jq_running := jq_running q @ [(n, pid)], jq_started_at := (jq_started_at q)(n \<mapsto> now),
            jq_forced := (if force then remove1 n (jq_forced q) else jq_forced q),
            jq_run := (if force then jq_run q else remove1 n (jq_run q))\<rparr>"
  by (auto simp: job_started_def res_bind_eq_Inr py_remove_eq_Inr)

lemma remove_running_eq:
  "remove_running n pid q = Inr q' \<longleftrightarrow>
     (case pid of None \<Rightarrow> q' = q
      | Some p \<Rightarrow> (n, p) \<in> set (jq_running q) \<and> q' = q\<lparr>jq_running := remove1 (n, p) (jq_running q)\<rparr>)"
  by (auto simp: remove_running_def res_bind_eq_Inr py_remove_eq_Inr split: option.splits)

text \<open>The part of the state that the guards of the scheduler read.\<close>

definition queues_after ::
  "string \<Rightarrow> jobqueue \<Rightarrow> (string \<times> int) list \<Rightarrow> jobqueue \<Rightarrow> bool" where
  "queues_after n q running q' \<longleftrightarrow>
     jq_known q' = jq_known q \<and> jq_running q' = running \<and> jq_started_at q' = jq_started_at q \<and>
     jq_run q' \<in> {jq_run q, remove1 n (jq_run q)} \<and> jq_forced q' \<in> {jq_forced q, remove1 n (jq_forced q)} \<and>
     dom (jq_last_run q) \<subseteq> dom (jq_last_run q') \<and> jq_debug_time q' = jq_debug_time q"

lemma queues_after_refl: "queues_after n q (jq_running q) q"
  by (simp add: queues_after_def)

lemma record_result_queues: "queues_after n q (jq_running q) (record_result now n ok msg q)"
  by (simp add: queues_after_def record_result_def Let_def)

lemma close_entry_queues: "close_entry now n f q = Inr q' \<Longrightarrow> queues_after n q (jq_running q) q'"
  by (auto simp: queues_after_def close_entry_def res_bind_eq_Inr py_remove_eq_Inr split: option.splits if_splits)

lemma update_last_run_queues:
  "queues_after n q (jq_running q) (update_last_run m t (q\<lparr>jq_last_run := (jq_last_run q)(k \<mapsto> v)\<rparr>))"
  by (auto simp: queues_after_def update_last_run_def split: option.splits)

lemma job_done_cases:
  assumes "job_done now n pid ok msg force q = Inr q'"
  obtains q1 q2 where "remove_running n pid q = Inr q1"
    "close_entry now n force (record_result now n ok msg q1) = Inr q2"
    "q' = q2 \<or> q' = update_last_run n now (q2\<lparr>jq_last_run := (jq_last_run q2)(n \<mapsto> now)\<rparr>)"
proof -
  from assms obtain q1 q2 where q: "remove_running n pid q = Inr q1"
    "close_entry now n force (record_result now n ok msg q1) = Inr q2"
    and last_step: "(case map_of (jq_known q2) n of None \<Rightarrow> Inr q2
         | Some a \<Rightarrow> if pid = None \<or> (case a_call a of None \<Rightarrow> False | Some c \<Rightarrow> cl_wait c)
             then Inr (update_last_run n now (q2\<lparr>jq_last_run := (jq_last_run q2)(n \<mapsto> now)\<rparr>)) else Inr q2) = (Inr q' :: jobqueue res)"
    unfolding job_done_def res_bind_eq_Inr by blast
  have "q' = q2 \<or> q' = update_last_run n now (q2\<lparr>jq_last_run := (jq_last_run q2)(n \<mapsto> now)\<rparr>)"
    using last_step by (cases "map_of (jq_known q2) n") (simp_all split: if_split_asm)
  with q show ?thesis by (rule that)
qed

lemma job_done_queues:
  assumes "job_done now n pid ok msg force q = Inr q'"
  shows "queues_after n q (case pid of None \<Rightarrow> jq_running q | Some p \<Rightarrow> remove1 (n, p) (jq_running q)) q'"
proof -
  obtain q1 q2 where q1: "remove_running n pid q = Inr q1"
    and q2: "close_entry now n force (record_result now n ok msg q1) = Inr q2"
    and q': "q' = q2 \<or> q' = update_last_run n now (q2\<lparr>jq_last_run := (jq_last_run q2)(n \<mapsto> now)\<rparr>)"
    using assms by (rule job_done_cases)
  have "queues_after n q2 (jq_running q2) q'"
    using q' update_last_run_queues queues_after_refl by blast
  moreover note close_entry_queues [OF q2] record_result_queues [of n q1 now ok msg]
  moreover have "queues_after n q (case pid of None \<Rightarrow> jq_running q | Some p \<Rightarrow> remove1 (n, p) (jq_running q)) q1"
    "jq_run q1 = jq_run q" "jq_forced q1 = jq_forced q"
    using q1 by (auto simp: remove_running_eq queues_after_def split: option.splits)
  moreover have "jq_run (record_result now n ok msg q1) = jq_run q1" "jq_forced (record_result now n ok msg q1) = jq_forced q1"
    "jq_run q' = jq_run q2" "jq_forced q' = jq_forced q2"
    using q' by (auto simp: record_result_def update_last_run_def Let_def split: option.splits)
  ultimately show ?thesis unfolding queues_after_def by (elim conjE) (intro conjI, simp_all)
qed

section \<open>When a queued job has to wait\<close>

definition active :: "jobqueue \<Rightarrow> string \<Rightarrow> bool" where
  "active q m \<longleftrightarrow> m \<in> set (jq_run q) \<or> m \<in> set (running_names q)"

definition reaches_active :: "jobqueue \<Rightarrow> string \<Rightarrow> bool" where
  "reaches_active q n \<longleftrightarrow> (\<exists>m. (n, m) \<in> (dep_edges (jq_known q))\<^sup>* \<and> active q m)"

definition blocked :: "jobqueue \<Rightarrow> string \<Rightarrow> bool" where
  "blocked q n \<longleftrightarrow>
     n \<in> set (running_names q) \<or>
     (\<exists>p \<in> set (pre_of (jq_known q) n). reaches_active q p) \<or>
     (\<exists>m. active q m \<and> n \<in> set (post_of (jq_known q) m))"

lemma any_res_Inr: "(\<And>x. x \<in> set xs \<Longrightarrow> f x = Inr (P x)) \<Longrightarrow> any_res f xs = Inr (\<exists>x \<in> set xs. P x)"
  by (induction xs) auto

lemma is_post_of_known:
  "m \<in> set (keys (jq_known q)) \<Longrightarrow> is_post_of q n m = Inr (n \<in> set (post_of (jq_known q) m))"
  by (drule keys_map_of_Some) (auto simp: is_post_of_def post_of_def)

lemma reaches_active_refl: "active q n \<Longrightarrow> reaches_active q n"
  by (auto simp: reaches_active_def)

lemma reaches_active_step:
  assumes "\<not> active q n"
  shows "reaches_active q n \<longleftrightarrow>
    (\<exists>c \<in> set (pre_of (jq_known q) n). reaches_active q c) \<or> (\<exists>c \<in> set (post_of (jq_known q) n). reaches_active q c)"
    (is "?L = ?R")
proof
  assume ?L
  then obtain m where "(n, m) \<in> (dep_edges (jq_known q))\<^sup>*" "active q m" by (auto simp: reaches_active_def)
  moreover obtain c where "(n, c) \<in> dep_edges (jq_known q)" "(c, m) \<in> (dep_edges (jq_known q))\<^sup>*"
    using calculation assms by (blast elim: converse_rtranclE)
  ultimately show ?R by (auto simp: dep_edges_def reaches_active_def)
next
  assume ?R
  then obtain c m where "(n, c) \<in> dep_edges (jq_known q)" "(c, m) \<in> (dep_edges (jq_known q))\<^sup>*" "active q m"
    by (auto simp: dep_edges_def reaches_active_def)
  then show ?L unfolding reaches_active_def by (meson converse_rtrancl_into_rtrancl)
qed

lemma finite_below:
  assumes "names_defined (jq_known q)" "distinct (keys (jq_known q))"
  shows "(dep_edges (jq_known q))\<^sup>+ `` {n} \<subseteq> set (keys (jq_known q))"
  using assms by (auto simp: names_defined_iff simp del: set_map elim: tranclE)

lemma below_less:
  assumes "acyclic E" "(n, c) \<in> E" "finite (E\<^sup>+ `` {n})"
  shows "card (E\<^sup>+ `` {c}) < card (E\<^sup>+ `` {n})"
proof (rule psubset_card_mono [OF assms(3)])
  have "E\<^sup>+ `` {c} \<subseteq> E\<^sup>+ `` {n}" using assms(2) by (auto intro: trancl_into_trancl2)
  moreover have "c \<in> E\<^sup>+ `` {n}" "c \<notin> E\<^sup>+ `` {c}" using assms(1,2) by (auto simp: acyclic_def)
  ultimately show "E\<^sup>+ `` {c} \<subset> E\<^sup>+ `` {n}" by blast
qed

lemma has_queued_prerequisite_deep:
  assumes "acyclic (dep_edges (jq_known q))" "names_defined (jq_known q)" "distinct (keys (jq_known q))"
  shows "card ((dep_edges (jq_known q))\<^sup>+ `` {n}) < lim \<Longrightarrow> n \<in> set (keys (jq_known q)) \<Longrightarrow>
    has_queued_prerequisite lim q n (Suc d) = Inr (reaches_active q n)"
proof (induction lim arbitrary: n d)
  case (Suc lim)
  let ?E = "dep_edges (jq_known q)"
  obtain job where job: "map_of (jq_known q) n = Some job" using keys_map_of_Some [OF Suc.prems(2)] by blast
  have fin: "finite (?E\<^sup>+ `` {n})" using finite_below [OF assms(2,3)] finite_subset by blast
  have IH: "has_queued_prerequisite lim q c (Suc (Suc d)) = Inr (reaches_active q c)"
    if "(n, c) \<in> ?E" for c
  proof (rule Suc.IH)
    show "card (?E\<^sup>+ `` {c}) < lim" using below_less [OF assms(1) that fin] Suc.prems(1) by linarith
    show "c \<in> set (keys (jq_known q))" using assms(2,3) that names_defined_iff by blast
  qed
  have lists: "c \<in> set (a_pre job) \<union> set (a_post job) \<Longrightarrow> (n, c) \<in> ?E" for c
    using job by (auto simp: dep_edges_def pre_of_def post_of_def)
  have "any_res (\<lambda>c. has_queued_prerequisite lim q c (Suc (Suc d))) (a_pre job) = Inr (\<exists>c \<in> set (a_pre job). reaches_active q c)"
    "any_res (\<lambda>c. has_queued_prerequisite lim q c (Suc (Suc d))) (a_post job) = Inr (\<exists>c \<in> set (a_post job). reaches_active q c)"
    using IH lists by (auto intro!: any_res_Inr)
  then show ?case using job reaches_active_step [of q n] reaches_active_refl [of q n]
    by (cases "active q n") (auto simp: active_def pre_of_known post_of_known simp del: set_map)
qed simp

lemma has_queued_prerequisite_blocked:
  assumes "acyclic (dep_edges (jq_known q))" "names_defined (jq_known q)" "distinct (keys (jq_known q))"
    "set (jq_run q) \<union> set (running_names q) \<subseteq> set (keys (jq_known q))" "n \<in> set (keys (jq_known q))"
    "length (jq_known q) + 1 < lim"
  shows "has_queued_prerequisite lim q n 0 = Inr (blocked q n)"
proof -
  let ?E = "dep_edges (jq_known q)"
  obtain l where lim: "lim = Suc l" using assms(6) by (cases lim) auto
  obtain job where job: "map_of (jq_known q) n = Some job" using keys_map_of_Some [OF assms(5)] by blast
  have deep: "has_queued_prerequisite l q p (Suc 0) = Inr (reaches_active q p)" if "p \<in> set (a_pre job)" for p
  proof (rule has_queued_prerequisite_deep [OF assms(1-3)])
    have "card (?E\<^sup>+ `` {p}) \<le> card (set (keys (jq_known q)))"
      by (rule card_mono [OF _ finite_below [OF assms(2,3)]]) simp
    also have "\<dots> \<le> length (jq_known q)" by (metis card_length length_map)
    finally show "card (?E\<^sup>+ `` {p}) < l" using assms(6) lim by linarith
    show "p \<in> set (keys (jq_known q))" using names_defined_lists [OF assms(2) job] that by blast
  qed
  have pre: "any_res (\<lambda>p. has_queued_prerequisite l q p (Suc 0)) (a_pre job) =
      Inr (\<exists>p \<in> set (a_pre job). reaches_active q p)" using deep by (rule any_res_Inr)
  have post: "any_res (is_post_of q n) xs = Inr (\<exists>m \<in> set xs. n \<in> set (post_of (jq_known q) m))"
    if "set xs \<subseteq> set (keys (jq_known q))" for xs
    using is_post_of_known that by (intro any_res_Inr) blast
  show ?thesis
    using job pre post [of "jq_run q"] post [of "running_names q"] assms(4)
    by (auto simp: lim blocked_def active_def pre_of_known simp del: set_map)
qed

text \<open>
  C27: for a configuration without cyclic dependencies and a recursion limit above the number of
  jobs, \<open>has_queued_prerequisite\<close> returns, and says exactly whether the job runs already, a
  pre-job leads through pre- and post-lists to a job that is queued or running, or a queued or
  running job has it as post-job.
\<close>

theorem has_queued_prerequisite_decides:
  assumes "acyclic (dep_edges (jq_known q))" "names_defined (jq_known q)" "distinct (keys (jq_known q))"
    "set (jq_run q) \<union> set (running_names q) \<subseteq> set (keys (jq_known q))" "n \<in> set (keys (jq_known q))"
    "length (jq_known q) + 1 < lim"
  shows "has_queued_prerequisite lim q n 0 = Inr (blocked q n)"
  using assms by (rule has_queued_prerequisite_blocked)

theorem has_queued_prerequisite_decides_witness:
  "has_queued_prerequisite 10 (example_queue\<lparr>jq_run := [''import'', ''dump'']\<rparr>) ''dump'' 0 =
     Inr (blocked (example_queue\<lparr>jq_run := [''import'', ''dump'']\<rparr>) ''dump'')"
proof (rule has_queued_prerequisite_decides)
  let ?q = "example_queue\<lparr>jq_run := [''import'', ''dump'']\<rparr>"
  show "acyclic (dep_edges (jq_known ?q))" by (simp add: example_queue_acyclic)
  show "names_defined (jq_known ?q)" by code_simp
  show "distinct (keys (jq_known ?q))" by code_simp
  show "set (jq_run ?q) \<union> set (running_names ?q) \<subseteq> set (keys (jq_known ?q))" by code_simp
  show "''dump'' \<in> set (keys (jq_known ?q))" by code_simp
  show "length (jq_known ?q) + 1 < 10" by code_simp
qed

text \<open>
  C29: without post-jobs the queue cannot block itself: when nothing runs and jobs are queued,
  \<open>has_queued_prerequisite\<close> lets one of them go.
\<close>

theorem pre_only_progress:
  assumes "acyclic (dep_edges (jq_known q))" "names_defined (jq_known q)" "distinct (keys (jq_known q))"
    "set (jq_run q) \<subseteq> set (keys (jq_known q))" "length (jq_known q) + 1 < lim"
    "\<forall>n. post_of (jq_known q) n = []" "jq_running q = []" "jq_run q \<noteq> []"
  shows "\<exists>n \<in> set (jq_run q). has_queued_prerequisite lim q n 0 = Inr False"
proof -
  let ?E = "dep_edges (jq_known q)"
  have "?E \<subseteq> set (keys (jq_known q)) \<times> set (keys (jq_known q))"
    using assms(2,3) names_defined_iff assms(6) pre_of_notin by (fastforce simp: dep_edges_def)
  then have "finite ?E" by (rule finite_subset) simp
  then have "wf ((?E\<inverse>)\<^sup>+)" using assms(1) by (intro wf_trancl finite_acyclic_wf_converse)
  then obtain n where n: "n \<in> set (jq_run q)" "\<And>m. (n, m) \<in> ?E\<^sup>+ \<Longrightarrow> m \<notin> set (jq_run q)"
    using wfE_min [of "(?E\<inverse>)\<^sup>+" "hd (jq_run q)" "set (jq_run q)"] assms(8) by (auto simp: trancl_converse)
  have "\<not> reaches_active q p" if "p \<in> set (pre_of (jq_known q) n)" for p
  proof -
    have "(n, p) \<in> ?E" using that by (simp add: dep_edges_def)
    then show ?thesis using n(2) assms(7) by (auto simp: reaches_active_def active_def dest: rtrancl_into_trancl2)
  qed
  then have "\<not> blocked q n" using assms(6,7) by (auto simp: blocked_def)
  moreover have "has_queued_prerequisite lim q n 0 = Inr (blocked q n)"
    using assms n(1) by (intro has_queued_prerequisite_blocked) auto
  ultimately show ?thesis using n(1) by auto
qed

theorem pre_only_progress_witness:
  "\<exists>n \<in> set [''import'', ''dump'']. has_queued_prerequisite 10 (example_queue\<lparr>jq_run := [''import'', ''dump'']\<rparr>) n 0 = Inr False"
proof -
  let ?q = "example_queue\<lparr>jq_run := [''import'', ''dump'']\<rparr>"
  have "\<exists>n \<in> set (jq_run ?q). has_queued_prerequisite 10 ?q n 0 = Inr False"
  proof (rule pre_only_progress)
    show "acyclic (dep_edges (jq_known ?q))" by (simp add: example_queue_acyclic)
    show "names_defined (jq_known ?q)" by code_simp
    show "distinct (keys (jq_known ?q))" by code_simp
    show "set (jq_run ?q) \<subseteq> set (keys (jq_known ?q))" by code_simp
    show "length (jq_known ?q) + 1 < 10" by code_simp
    show "\<forall>n. post_of (jq_known ?q) n = []"
      by (simp add: example_queue_def init_jobqueue_def reload_lists) (simp add: post_of_def default_action_def)
    show "jq_running ?q = []" by code_simp
  qed simp
  then show ?thesis by simp
qed

text \<open>
  With post-jobs it can. \<^verbatim>\<open>publish\<close> is a post-job of \<^verbatim>\<open>dump\<close> and of its pre-job
  \<^verbatim>\<open>import\<close>. The configuration has no cycle and \<open>get_jobs\<close> accepts it. Once \<^verbatim>\<open>import\<close> has run,
  \<^verbatim>\<open>publish\<close> and \<^verbatim>\<open>dump\<close> are left in the queue, nothing runs, and each has to wait for the other.
\<close>

definition shared_post_config :: job_config where
  "shared_post_config =
     [(''dump'', default_action\<lparr>a_pre := [''import''], a_post := [''publish'']\<rparr>),
      (''import'', default_action\<lparr>a_post := [''publish'']\<rparr>),
      (''publish'', default_action)]"

definition shared_post_queue :: "string list \<Rightarrow> jobqueue" where
  "shared_post_queue run = (init_jobqueue 100 0 shared_post_config Map.empty)\<lparr>jq_run := run\<rparr>"

theorem shared_post_deadlock:
  "get_jobs shared_post_config = Inr shared_post_config \<and>
   map_sum id fst (insert_job (shared_post_queue []) [] ''dump'' {}) = Inr [''import'', ''publish'', ''dump''] \<and>
   has_queued_prerequisite 10 (shared_post_queue [''import'', ''publish'', ''dump'']) ''import'' 0 = Inr False \<and>
   map_sum id jq_run (job_done 110 ''import'' None True None False (shared_post_queue [''import'', ''publish'', ''dump''])) =
     Inr [''publish'', ''dump''] \<and>
   has_queued_prerequisite 10 (shared_post_queue [''publish'', ''dump'']) ''publish'' 0 = Inr True \<and>
   has_queued_prerequisite 10 (shared_post_queue [''publish'', ''dump'']) ''dump'' 0 = Inr True"
  by code_simp

end
