(* ===== verification/Job_Runner.thy ===== *)
theory Job_Runner
  imports Job_Queue
begin

text \<open>
  The scheduler loop: class \<^verbatim>\<open>JobRunner\<close> of \<^verbatim>\<open>Cerebrum/modules/job_runner/__init__.py\<close>. The
  operating system is the argument \<open>os\<close>, a record of the calls the class makes, over a type of
  worlds \<open>'w\<close> it says nothing about: each call reads the world and may change it. \<open>runner\<close> holds
  the attributes of the class; an exception that leaves a method stops the loop, so it carries no
  state. The signals that end \<^verbatim>\<open>signal.pause\<close>, and the timer thread, are part of the world.
\<close>

section \<open>The operating system and the state\<close>

text \<open>
  \<open>os_waitpid\<close> is \<^verbatim>\<open>waitpid\<close> with what \<open>cond_wait\<close> observes of the output files, \<open>os_tidy\<close> the
  clean-up of \<open>cond_wait\<close> (on success the files are removed, else the run directory is renamed to the
  name it gives);
  the left value of both is the number of the \<^verbatim>\<open>OSError\<close>. \<open>os_kill\<close> says whether the signal was sent.
\<close>

record 'w os =
  os_time :: "'w \<Rightarrow> int \<times> 'w"
  os_alive :: "'w \<Rightarrow> int \<Rightarrow> bool"
  os_files :: "'w \<Rightarrow> files"
  os_fork :: "call \<Rightarrow> 'w \<Rightarrow> int \<times> 'w"
  os_waitpid :: "call \<Rightarrow> int \<Rightarrow> 'w \<Rightarrow> (int + wait_obs) \<times> 'w"
  os_tidy :: "call \<Rightarrow> bool \<Rightarrow> 'w \<Rightarrow> (int + string) \<times> 'w"
  os_kill :: "int \<Rightarrow> int \<Rightarrow> 'w \<Rightarrow> bool \<times> 'w"
  os_sleep :: "int \<Rightarrow> 'w \<Rightarrow> 'w"
  os_pause :: "'w \<Rightarrow> 'w"

record cereconf =
  cf_max_parallel :: int
  cf_pause_warn :: int
  cf_log_dir :: string
  cf_recursion_limit :: nat

record 'w runner =
  rn_queue :: jobqueue
  rn_world :: 'w
  rn_should_quit :: bool
  rn_should_kill :: bool
  rn_paused_at :: int
  rn_killed_at :: int
  rn_last_pause_warn :: int
  rn_sleep_to :: "int option"
  rn_timer_wait :: bool

definition max_sleep :: int where "max_sleep = 60"
definition noia_sleep_seconds :: int where "noia_sleep_seconds = 70"

definition init_runner :: "jobqueue \<Rightarrow> 'w \<Rightarrow> 'w runner" where
  "init_runner q w =
     \<lparr>rn_queue = q, rn_world = w, rn_should_quit = False, rn_should_kill = False, rn_paused_at = 0,
      rn_killed_at = 0, rn_last_pause_warn = 0, rn_sleep_to = None, rn_timer_wait = False\<rparr>"

text \<open>The calls the methods make, as steps on the runner.\<close>

definition clock :: "'w os \<Rightarrow> 'w runner \<Rightarrow> int \<times> 'w runner" where
  "clock os rn = (case os_time os (rn_world rn) of (t, w) \<Rightarrow> (t, rn\<lparr>rn_world := w\<rparr>))"

definition sleep :: "'w os \<Rightarrow> int \<Rightarrow> 'w runner \<Rightarrow> 'w runner" where
  "sleep os n rn = rn\<lparr>rn_world := os_sleep os n (rn_world rn)\<rparr>"

definition kill :: "'w os \<Rightarrow> int \<Rightarrow> int \<Rightarrow> 'w runner \<Rightarrow> bool \<times> 'w runner" where
  "kill os pid sig rn = (case os_kill os pid sig (rn_world rn) of (b, w) \<Rightarrow> (b, rn\<lparr>rn_world := w\<rparr>))"

definition with_queue :: "'w runner \<Rightarrow> jobqueue res \<Rightarrow> 'w runner res" where
  "with_queue rn m = res_bind m (\<lambda>q. Inr (rn\<lparr>rn_queue := q\<rparr>))"

section \<open>Completed jobs\<close>

text \<open>
  \<^verbatim>\<open>job['call'].cond_wait(job['pid'])\<close>: a left value is an \<^verbatim>\<open>OSError\<close>. The world is tidied when
  the child is gone and its output files exist.
\<close>

definition run_cond_wait :: "'w os \<Rightarrow> call \<Rightarrow> int \<Rightarrow> 'w \<Rightarrow> (int + wait_result) \<times> 'w" where
  "run_cond_wait os c pid w =
     (case os_waitpid os c pid w of
        (Inl e, w1) \<Rightarrow> (Inl e, w1)
      | (Inr ob, w1) \<Rightarrow>
          if ob_pid ob = pid \<and> ob_files_exist ob
          then (case os_tidy os c (cond_wait c [] pid ob = Completed) w1 of
                  (Inl e, w2) \<Rightarrow> (Inl e, w2)
                | (Inr newdir, w2) \<Rightarrow> (Inr (cond_wait c newdir pid ob), w2))
          else (Inr (cond_wait c [] pid ob), w1))"

text \<open>The status of a finished job: whether it counts as a success, and the message kept.\<close>

definition exit_verdict :: "wait_result \<Rightarrow> bool \<times> string option" where
  "exit_verdict r =
     (case r of
        Failed msg rundir \<Rightarrow>
          (startswith msg ''exit_code=0'',
           Some (msg @ '', check '' @ (case rundir of None \<Rightarrow> ''None'' | Some d \<Rightarrow> d)))
      | _ \<Rightarrow> (True, None))"

text \<open>A job that still runs is sent \<^verbatim>\<open>SIGTERM\<close> (15) when it has run longer than \<^verbatim>\<open>max_duration\<close>.\<close>

definition check_duration :: "'w os \<Rightarrow> running_job \<Rightarrow> 'w runner \<Rightarrow> ('w runner \<times> bool) res" where
  "check_duration os job rn =
     res_bind (dict_get (jq_known (rn_queue rn)) (rj_name job)) (\<lambda>job_def.
       case a_max_duration job_def of
         None \<Rightarrow> Inr (rn, False)
       | Some limit \<Rightarrow>
           (case clock os rn of (now, rn1) \<Rightarrow>
              if now - rj_started job > limit
              then (case kill os (rj_pid job) 15 (sleep os 1 rn1) of (sent, rn2) \<Rightarrow> Inr (rn2, sent))
              else Inr (rn1, False)))"

text \<open>One turn of the loop of \<^verbatim>\<open>handle_completed_jobs\<close>; the flag is \<^verbatim>\<open>did_wait\<close>.\<close>

definition handle_job :: "'w os \<Rightarrow> running_job \<Rightarrow> 'w runner \<Rightarrow> ('w runner \<times> bool) res" where
  "handle_job os job rn =
     (case rj_call job of
        None \<Rightarrow> Inl AttributeError
      | Some c \<Rightarrow>
          (case run_cond_wait os c (rj_pid job) (rn_world rn) of
             (Inl e, w) \<Rightarrow> Inr (sleep os 1 (rn\<lparr>rn_world := w\<rparr>), False)
           | (Inr NotCompleted, w) \<Rightarrow> check_duration os job (rn\<lparr>rn_world := w\<rparr>)
           | (Inr r, w) \<Rightarrow>
               (case clock os (rn\<lparr>rn_world := w\<rparr>) of (now, rn1) \<Rightarrow>
                  (case exit_verdict r of (job_ok, error) \<Rightarrow>
                     res_bind (with_queue rn1 (job_done now (rj_name job) (Some (rj_pid job)) job_ok error False (rn_queue rn1)))
                       (\<lambda>rn2. Inr (rn2, True))))))"

fun handle_jobs :: "'w os \<Rightarrow> running_job list \<Rightarrow> 'w runner \<Rightarrow> bool \<Rightarrow> ('w runner \<times> bool) res" where
  "handle_jobs os [] rn did_wait = Inr (rn, did_wait)"
| "handle_jobs os (job # jobs) rn did_wait =
     res_bind (handle_job os job rn) (\<lambda>r. handle_jobs os jobs (fst r) (did_wait \<or> snd r))"

definition handle_completed_jobs :: "'w os \<Rightarrow> 'w runner \<Rightarrow> ('w runner \<times> bool) res" where
  "handle_completed_jobs os rn =
     res_bind (get_running_jobs (rn_queue rn)) (\<lambda>jobs. handle_jobs os jobs rn False)"

section \<open>Starting jobs\<close>

text \<open>The local variables of \<^verbatim>\<open>process_queue\<close>.\<close>

record pq_vars =
  pq_delta :: "int option"
  pq_nowait :: bool
  pq_num_running :: int

definition waits :: "call option \<Rightarrow> bool" where
  "waits c = (case c of None \<Rightarrow> False | Some c \<Rightarrow> cl_wait c)"

text \<open>The guards of an unforced job: pause is handled by the caller; true means go on.\<close>

definition may_start :: "cereconf \<Rightarrow> jobqueue \<Rightarrow> string \<Rightarrow> action \<Rightarrow> int \<Rightarrow> bool res" where
  "may_start cf q name job num_running =
     (if waits (a_call job) \<and> num_running \<ge> cf_max_parallel cf then Inr False
      else res_bind (has_queued_prerequisite (cf_recursion_limit cf) q name 0) (\<lambda>b.
        if b then Inr False
        else res_bind (has_conflicting_jobs_running q name) (\<lambda>b. Inr (\<not> b))))"

text \<open>The \<^verbatim>\<open>call\<close> part: set up, execute and note the start.\<close>

definition start_call ::
  "cereconf \<Rightarrow> 'w os \<Rightarrow> bool \<Rightarrow> string \<Rightarrow> call \<Rightarrow> 'w runner \<Rightarrow> pq_vars \<Rightarrow> ('w runner \<times> pq_vars) res" where
  "start_call cf os force name c rn v =
     (case cl_id c of
        None \<Rightarrow> Inl AttributeError
      | Some i \<Rightarrow>
          if call_setup (os_alive os (rn_world rn)) 0 (lock_filename (cf_log_dir cf) i) (os_files os (rn_world rn))
          then (case os_fork os c (rn_world rn) of (child_pid, w) \<Rightarrow>
                  (case clock os (rn\<lparr>rn_world := w\<rparr>) of (now, rn1) \<Rightarrow>
                     res_bind (with_queue rn1 (job_started now name child_pid force (rn_queue rn1))) (\<lambda>rn2.
                       Inr (rn2, if cl_wait c then v\<lparr>pq_num_running := pq_num_running v + 1\<rparr> else v))))
          else Inr (rn, v))"

text \<open>The rest of the loop body, for a job that passed the guards.\<close>

definition launch ::
  "cereconf \<Rightarrow> 'w os \<Rightarrow> bool \<Rightarrow> string \<Rightarrow> action \<Rightarrow> 'w runner \<Rightarrow> pq_vars \<Rightarrow> ('w runner \<times> pq_vars) res" where
  "launch cf os force name job rn v =
     (case a_call job of
        None \<Rightarrow> Inr (rn, v)
      | Some c \<Rightarrow> res_bind (get_running_jobs (rn_queue rn)) (\<lambda>_. start_call cf os force name c rn v))"

definition finish_nowait ::
  "'w os \<Rightarrow> bool \<Rightarrow> string \<Rightarrow> action \<Rightarrow> 'w runner \<times> pq_vars \<Rightarrow> ('w runner \<times> pq_vars) res" where
  "finish_nowait os force name job r =
     (if waits (a_call job) then Inr r
      else (case clock os (fst r) of (now, rn1) \<Rightarrow>
              res_bind (with_queue rn1 (job_done now name None True None force (rn_queue rn1)))
                (\<lambda>rn2. Inr (rn2, (snd r)\<lparr>pq_nowait := True\<rparr>))))"

text \<open>
  One turn of the loop of \<^verbatim>\<open>process_queue\<close>; the flag says that the loop breaks off. The second test
  of the number of parallel jobs in the source repeats the first with the same values.
\<close>

definition process_job ::
  "cereconf \<Rightarrow> 'w os \<Rightarrow> bool \<Rightarrow> string \<Rightarrow> 'w runner \<Rightarrow> pq_vars \<Rightarrow> ('w runner \<times> pq_vars \<times> bool) res" where
  "process_job cf os force name rn v =
     res_bind (dict_get (jq_known (rn_queue rn)) name) (\<lambda>job.
       if \<not> force \<and> rn_paused_at rn > 0 then Inr (rn, v\<lparr>pq_delta := Some max_sleep\<rparr>, True)
       else res_bind (if force then Inr True else may_start cf (rn_queue rn) name job (pq_num_running v)) (\<lambda>ok.
         if \<not> ok then Inr (rn, v, False)
         else res_bind (launch cf os force name job rn v) (\<lambda>r.
           res_bind (finish_nowait os force name job r) (\<lambda>r. Inr (fst r, snd r, False)))))"

text \<open>The loop over a copy of the queue, as the main loop calls it.\<close>

fun process_list ::
  "cereconf \<Rightarrow> 'w os \<Rightarrow> string list \<Rightarrow> 'w runner \<Rightarrow> pq_vars \<Rightarrow> ('w runner \<times> pq_vars) res" where
  "process_list cf os [] rn v = Inr (rn, v)"
| "process_list cf os (name # names) rn v =
     res_bind (process_job cf os False name rn v) (\<lambda>(rn1, v1, stop).
       if stop then Inr (rn1, v1) else process_list cf os names rn1 v1)"

definition pause_warning :: "cereconf \<Rightarrow> 'w os \<Rightarrow> 'w runner \<Rightarrow> 'w runner" where
  "pause_warning cf os rn =
     (if rn_paused_at rn > 0
      then (let rn1 = (if rn_paused_at rn > rn_last_pause_warn rn
                       then rn\<lparr>rn_last_pause_warn := rn_paused_at rn\<rparr> else rn)
            in case clock os rn1 of (now, rn2) \<Rightarrow>
                 if now > rn_last_pause_warn rn2 + cf_pause_warn cf
                 then (case clock os rn2 of (_, rn3) \<Rightarrow>
                         case clock os rn3 of (now2, rn4) \<Rightarrow> rn4\<lparr>rn_last_pause_warn := now2\<rparr>)
                 else rn2)
      else rn)"

definition start_pq :: "int \<Rightarrow> pq_vars" where
  "start_pq num_running = \<lparr>pq_delta = None, pq_nowait = False, pq_num_running = num_running\<rparr>"

definition process_queue :: "cereconf \<Rightarrow> 'w os \<Rightarrow> string list \<Rightarrow> int \<Rightarrow> 'w runner \<Rightarrow> ('w runner \<times> pq_vars) res" where
  "process_queue cf os queue num_running rn =
     process_list cf os queue (pause_warning cf os rn) (start_pq num_running)"

section \<open>The forced queue\<close>

lemma clock_queue: "clock os rn = (t, rn') \<Longrightarrow> rn_queue rn' = rn_queue rn \<and> rn_paused_at rn' = rn_paused_at rn"
  by (auto simp: clock_def split: prod.splits)

lemma with_queue_eq: "with_queue rn m = Inr rn' \<longleftrightarrow> (\<exists>q. m = Inr q \<and> rn' = rn\<lparr>rn_queue := q\<rparr>)"
  by (auto simp: with_queue_def res_bind_eq_Inr)

text \<open>What one turn does to the queue: nothing, a start, a finished job, or both.\<close>

lemma start_call_cases:
  assumes "start_call cf os force n c rn v = Inr r"
  obtains "r = (rn, v)"
  | now pid q' where "job_started now n pid force (rn_queue rn) = Inr q'" "rn_queue (fst r) = q'"
      "rn_paused_at (fst r) = rn_paused_at rn"
      "snd r = (if cl_wait c then v\<lparr>pq_num_running := pq_num_running v + 1\<rparr> else v)"
proof -
  obtain pid w where f: "os_fork os c (rn_world rn) = (pid, w)" by fastforce
  obtain now rn1 where t: "clock os (rn\<lparr>rn_world := w\<rparr>) = (now, rn1)" by fastforce
  show ?thesis
    using assms that f t clock_queue [OF t]
    by (auto simp: start_call_def res_bind_eq_Inr with_queue_eq split: if_splits option.splits)
qed

lemma finish_nowait_cases:
  assumes "finish_nowait os force n job r = Inr r'"
  obtains "waits (a_call job)" "r' = r"
  | now q' where "\<not> waits (a_call job)" "job_done now n None True None force (rn_queue (fst r)) = Inr q'"
      "rn_queue (fst r') = q'" "rn_paused_at (fst r') = rn_paused_at (fst r)"
      "snd r' = (snd r)\<lparr>pq_nowait := True\<rparr>"
proof -
  obtain now rn1 where t: "clock os (fst r) = (now, rn1)" by fastforce
  show ?thesis
    using assms that t clock_queue [OF t]
    by (auto simp: finish_nowait_def res_bind_eq_Inr with_queue_eq split: if_splits)
qed

lemma process_job_cases:
  assumes "process_job cf os force n rn v = Inr (rn', v', stop)"
  obtains job where "map_of (jq_known (rn_queue rn)) n = Some job" "\<not> force" "rn_paused_at rn > 0"
      "rn' = rn" "v' = v\<lparr>pq_delta := Some max_sleep\<rparr>" "stop"
  | job where "map_of (jq_known (rn_queue rn)) n = Some job" "\<not> force"
      "may_start cf (rn_queue rn) n job (pq_num_running v) = Inr False" "rn' = rn" "v' = v" "\<not> stop"
  | job r where "map_of (jq_known (rn_queue rn)) n = Some job" "force \<or> rn_paused_at rn \<le> 0"
      "force \<or> may_start cf (rn_queue rn) n job (pq_num_running v) = Inr True"
      "launch cf os force n job rn v = Inr r" "finish_nowait os force n job r = Inr (rn', v')" "\<not> stop"
  using assms unfolding process_job_def
  by (auto simp: res_bind_eq_Inr dict_get_eq_Inr split: if_splits)

lemma launch_cases:
  assumes "launch cf os force n job rn v = Inr r"
  obtains "r = (rn, v)"
  | c now pid q' where "a_call job = Some c" "job_started now n pid force (rn_queue rn) = Inr q'" "rn_queue (fst r) = q'"
      "rn_paused_at (fst r) = rn_paused_at rn"
      "snd r = (if cl_wait c then v\<lparr>pq_num_running := pq_num_running v + 1\<rparr> else v)"
  using assms unfolding launch_def
  by (auto simp only: res_bind_eq_Inr sum.inject split: option.splits elim!: start_call_cases)

lemma launch_shrinks:
  assumes "launch cf os f n job rn v = Inr r"
  shows "length (jq_forced (rn_queue (fst r))) \<le> length (jq_forced (rn_queue rn))"
  using assms by (rule launch_cases) (auto simp: job_started_eq length_remove1)

lemma finish_nowait_shrinks:
  assumes "finish_nowait os f n job r = Inr r'"
  shows "length (jq_forced (rn_queue (fst r'))) \<le> length (jq_forced (rn_queue (fst r)))"
  using assms by (rule finish_nowait_cases) (auto simp: queues_after_def length_remove1 dest!: job_done_queues)

lemma process_job_shrinks:
  assumes "process_job cf os f n rn v = Inr (rn', v', stop)"
  shows "length (jq_forced (rn_queue rn')) \<le> length (jq_forced (rn_queue rn))"
  using assms by (rule process_job_cases) (auto dest!: launch_shrinks finish_nowait_shrinks)

text \<open>
  The main loop passes the forced queue itself, and \<open>process_job\<close> removes entries from it while
  Python's iterator keeps its index.
\<close>

function process_forced ::
  "cereconf \<Rightarrow> 'w os \<Rightarrow> nat \<Rightarrow> 'w runner \<Rightarrow> pq_vars \<Rightarrow> ('w runner \<times> pq_vars) res" where
  "process_forced cf os i rn v =
     (if i < length (jq_forced (rn_queue rn))
      then res_bind (process_job cf os True (jq_forced (rn_queue rn) ! i) rn v) (\<lambda>r.
        if snd (snd r) then Inr (fst r, fst (snd r))
        else process_forced cf os (Suc i) (fst r) (fst (snd r)))
      else Inr (rn, v))"
  by pat_completeness auto

termination process_forced
proof (relation "measure (\<lambda>(cf, os, i, rn, v). length (jq_forced (rn_queue rn)) - i)", goal_cases)
  case (2 cf os i rn v r)
  have "length (jq_forced (rn_queue (fst r))) \<le> length (jq_forced (rn_queue rn))"
    using 2(2) by (intro process_job_shrinks [where v' = "fst (snd r)" and stop = "snd (snd r)"]) simp
  then show ?case using 2(1) by simp
qed simp

declare process_forced.simps [simp del]

section \<open>The main loop\<close>

definition signal_sleep :: "'w os \<Rightarrow> int \<Rightarrow> 'w runner \<Rightarrow> 'w runner" where
  "signal_sleep os seconds rn =
     (if rn_timer_wait rn then rn
      else (case clock os (rn\<lparr>rn_timer_wait := True\<rparr>) of (now, rn1) \<Rightarrow> rn1\<lparr>rn_sleep_to := Some (now + seconds)\<rparr>))"

text \<open>\<^verbatim>\<open>quit\<close>; the signal it sends ends the pause of the main loop.\<close>

definition quit :: "'w runner \<Rightarrow> 'w runner" where
  "quit rn = rn\<lparr>rn_should_kill := True, rn_should_quit := True\<rparr>"

text \<open>The refill: \<^verbatim>\<open>delta\<close> is assigned when the run queue is empty only.\<close>

definition refill :: "(int \<Rightarrow> int) \<Rightarrow> 'w os \<Rightarrow> int option \<Rightarrow> 'w runner \<Rightarrow> (int option \<times> 'w runner) res" where
  "refill tz os delta rn =
     (case (if jq_debug_time (rn_queue rn) \<noteq> 0 then (0, rn) else clock os rn) of (now, rn1) \<Rightarrow>
        let app = (jq_run (rn_queue rn1) \<noteq> [])
        in res_bind (get_next_job_time tz now app (rn_queue rn1)) (\<lambda>r.
             Inr (if app then delta else Some (fst r), rn1\<lparr>rn_queue := snd r\<rparr>)))"

fun count_running :: "jobqueue \<Rightarrow> running_job list \<Rightarrow> int res" where
  "count_running q [] = Inr 0"
| "count_running q (job # jobs) =
     res_bind (dict_get (jq_known q) (rj_name job)) (\<lambda>job_ref.
       res_bind (count_running q jobs) (\<lambda>n. Inr (if waits (a_call job_ref) then n + 1 else n)))"

definition num_running :: "jobqueue \<Rightarrow> int res" where
  "num_running q = res_bind (get_running_jobs q) (count_running q)"

text \<open>
  One pass of \<^verbatim>\<open>run_job_loop\<close>. The argument and the first result are the variable \<^verbatim>\<open>delta\<close>, which
  has no value before its first assignment.
\<close>

definition pause_runner :: "'w os \<Rightarrow> int \<Rightarrow> 'w runner \<Rightarrow> 'w runner res" where
  "pause_runner os delta rn =
     res_bind (if delta > 0 then Inr (signal_sleep os (min max_sleep delta) rn)
               else res_bind (get_running_jobs (rn_queue rn)) (\<lambda>_. Inr (signal_sleep os noia_sleep_seconds rn)))
       (\<lambda>rn1. Inr (rn1\<lparr>rn_world := os_pause os (rn_world rn1), rn_timer_wait := False\<rparr>))"

text \<open>The end of a pass: log \<^verbatim>\<open>delta\<close>, reap again, and pause unless there is more to do.\<close>

definition end_pass :: "'w os \<Rightarrow> int option \<Rightarrow> 'w runner \<Rightarrow> pq_vars \<Rightarrow> (int option \<times> 'w runner) res" where
  "end_pass os delta rn v =
     (case delta of
        None \<Rightarrow> Inl (OtherError ''UnboundLocalError'')
      | Some d \<Rightarrow>
          let delta2 = (case pq_delta v of None \<Rightarrow> d | Some t \<Rightarrow> t)
          in res_bind (handle_completed_jobs os rn) (\<lambda>(rn1, did_wait).
               if did_wait \<or> pq_nowait v then Inr (Some delta2, rn1)
               else res_bind (pause_runner os delta2 rn1) (\<lambda>rn2. Inr (Some delta2, rn2))))"

definition run_pass ::
  "cereconf \<Rightarrow> (int \<Rightarrow> int) \<Rightarrow> 'w os \<Rightarrow> int option \<Rightarrow> 'w runner \<Rightarrow> (int option \<times> 'w runner) res" where
  "run_pass cf tz os delta rn =
     res_bind (handle_completed_jobs os rn) (\<lambda>(rn1, _).
     res_bind (process_forced cf os 0 (pause_warning cf os rn1) (start_pq (- 1))) (\<lambda>(rn2, _).
     res_bind (refill tz os delta rn2) (\<lambda>(delta1, rn3).
     res_bind (num_running (rn_queue rn3)) (\<lambda>n.
     res_bind (process_queue cf os (jq_run (rn_queue rn3)) n rn3) (\<lambda>(rn4, v).
       end_pass os delta1 rn4 v)))))"

text \<open>\<^verbatim>\<open>run_job_loop\<close>, at most \<open>fuel\<close> passes; \<open>None\<close> means that it is still running.\<close>

fun kill_all :: "'w os \<Rightarrow> int \<Rightarrow> int list \<Rightarrow> 'w runner \<Rightarrow> 'w runner" where
  "kill_all os sig [] rn = rn"
| "kill_all os sig (pid # pids) rn = kill_all os sig pids (snd (kill os pid sig rn))"

definition shut_down :: "'w os \<Rightarrow> 'w runner \<Rightarrow> 'w runner res" where
  "shut_down os rn =
     (if rn_should_kill rn
      then res_bind (handle_completed_jobs os (sleep os 5 (kill_all os 15 (kill_running_jobs (rn_queue rn)) rn))) (\<lambda>(rn1, _).
           res_bind (handle_completed_jobs os (sleep os 3 (kill_all os 9 (kill_running_jobs (rn_queue rn1)) rn1))) (\<lambda>(rn2, _).
             Inr rn2))
      else Inr rn)"

fun run_job_loop ::
  "nat \<Rightarrow> cereconf \<Rightarrow> (int \<Rightarrow> int) \<Rightarrow> 'w os \<Rightarrow> int option \<Rightarrow> 'w runner \<Rightarrow> 'w runner res option" where
  "run_job_loop 0 cf tz os delta rn = None"
| "run_job_loop (Suc fuel) cf tz os delta rn =
     (if rn_should_quit rn then Some (shut_down os rn)
      else (case run_pass cf tz os delta rn of
              Inl e \<Rightarrow> Some (Inl e)
            | Inr (delta', rn') \<Rightarrow> run_job_loop fuel cf tz os delta' rn'))"

section \<open>Safety of the running jobs\<close>

definition known_waits :: "jobqueue \<Rightarrow> string \<Rightarrow> bool" where
  "known_waits q n \<longleftrightarrow> (case map_of (jq_known q) n of None \<Rightarrow> False | Some a \<Rightarrow> waits (a_call a))"

text \<open>The number of running jobs that count against \<^verbatim>\<open>JOB_RUNNER_MAX_PARALELL_JOBS\<close>.\<close>

definition parallel :: "jobqueue \<Rightarrow> int" where
  "parallel q = int (length (filter (known_waits q) (running_names q)))"

definition nonconcurrent_of :: "jobqueue \<Rightarrow> string \<Rightarrow> string set" where
  "nonconcurrent_of q n = (case map_of (jq_known q) n of None \<Rightarrow> {} | Some a \<Rightarrow> set (a_nonconcurrent a))"

text \<open>
  No job runs twice, and none was started while a job it excludes was running; the list of running jobs has them in the order
  of their start.
\<close>

definition exclusive :: "jobqueue \<Rightarrow> bool" where
  "exclusive q \<longleftrightarrow> distinct (running_names q) \<and> sorted_wrt (\<lambda>earlier later. earlier \<notin> nonconcurrent_of q later) (running_names q)"

definition symmetric_config :: "jobqueue \<Rightarrow> bool" where
  "symmetric_config q \<longleftrightarrow> (\<forall>n m. m \<in> nonconcurrent_of q n \<longrightarrow> n \<in> nonconcurrent_of q m)"

definition safe :: "int \<Rightarrow> jobqueue \<Rightarrow> bool" where
  "safe limit q \<longleftrightarrow> exclusive q \<and> parallel q \<le> limit"

text \<open>Where exclusions are declared on both jobs, no two running jobs exclude each other.\<close>

lemma sorted_wrt_pairs:
  "sorted_wrt R xs \<Longrightarrow> (\<And>x y. R x y \<Longrightarrow> S x y \<and> S y x) \<Longrightarrow> x \<in> set xs \<Longrightarrow> y \<in> set xs \<Longrightarrow> x \<noteq> y \<Longrightarrow> S x y"
  by (induction xs) auto

lemma exclusive_symmetric:
  assumes "exclusive q" "symmetric_config q" "n \<in> set (running_names q)" "m \<in> set (running_names q)" "n \<noteq> m"
  shows "m \<notin> nonconcurrent_of q n"
  by (rule sorted_wrt_pairs [where R = "\<lambda>x y. x \<notin> nonconcurrent_of q y" and S = "\<lambda>x y. y \<notin> nonconcurrent_of q x"])
    (use assms in \<open>auto simp: exclusive_def symmetric_config_def simp del: set_map\<close>)

text \<open>The facts the guards establish about a job that may start.\<close>

lemma not_queued_prerequisite_running:
  "has_queued_prerequisite lim q n d = Inr False \<Longrightarrow> n \<notin> set (running_names q)"
  by (cases lim) (auto simp del: set_map split: if_splits)

lemma may_start_True:
  assumes "may_start cf q n job num = Inr True" "map_of (jq_known q) n = Some job"
  shows "waits (a_call job) \<Longrightarrow> num < cf_max_parallel cf" "n \<notin> set (running_names q)"
    "set (running_names q) \<inter> nonconcurrent_of q n = {}"
    "has_queued_prerequisite (cf_recursion_limit cf) q n 0 = Inr False"
proof -
  have pre: "has_queued_prerequisite (cf_recursion_limit cf) q n 0 = Inr False" "has_conflicting_jobs_running q n = Inr False"
      "\<not> (waits (a_call job) \<and> num \<ge> cf_max_parallel cf)"
    using assms(1) by (auto simp: may_start_def res_bind_eq_Inr split: if_splits)
  then show "waits (a_call job) \<Longrightarrow> num < cf_max_parallel cf" "n \<notin> set (running_names q)"
    "has_queued_prerequisite (cf_recursion_limit cf) q n 0 = Inr False"
    using not_queued_prerequisite_running by auto
  show "set (running_names q) \<inter> nonconcurrent_of q n = {}"
    using pre(2) assms(2) by (auto simp: has_conflicting_jobs_running_def nonconcurrent_of_def simp del: set_map)
qed

text \<open>Adding a job that passed the guards, and removing a running job.\<close>

lemma exclusive_start:
  assumes "exclusive q" "n \<notin> set (running_names q)"
    "set (running_names q) \<inter> nonconcurrent_of q n = {}"
    "jq_known q' = jq_known q" "jq_running q' = jq_running q @ [(n, pid)]"
  shows "exclusive q'"
proof -
  have nc: "nonconcurrent_of q' = nonconcurrent_of q" using assms(4) by (simp add: fun_eq_iff nonconcurrent_of_def)
  have names: "running_names q' = running_names q @ [n]" using assms(5) by simp
  show ?thesis
    using assms(1-3) unfolding exclusive_def nc names by (auto simp: sorted_wrt_append simp del: set_map)
qed

lemma parallel_start:
  assumes "jq_known q' = jq_known q" "jq_running q' = jq_running q @ [(n, pid)]"
  shows "parallel q' = parallel q + (if known_waits q n then 1 else 0)"
proof -
  have "known_waits q' = known_waits q" using assms(1) by (simp add: fun_eq_iff known_waits_def)
  then show ?thesis using assms(2) by (simp add: parallel_def)
qed

lemma safe_cong:
  "jq_known q' = jq_known q \<Longrightarrow> jq_running q' = jq_running q \<Longrightarrow>
     parallel q' = parallel q \<and> exclusive q' = exclusive q"
  by (simp add: parallel_def exclusive_def nonconcurrent_of_def known_waits_def cong: filter_cong)

lemma running_names_remove1:
  "distinct (map fst xs) \<Longrightarrow> distinct (map fst (remove1 x xs))"
  by (induction xs) (auto dest: notin_set_remove1 simp: image_iff)

lemma sorted_wrt_remove1: "sorted_wrt R (map f xs) \<Longrightarrow> sorted_wrt R (map f (remove1 x xs))"
  by (induction xs) (auto dest: notin_set_remove1)

lemma filter_names_remove1: "length (filter P (map fst (remove1 x xs))) \<le> length (filter P (map fst xs))"
  by (induction xs) auto

lemma safe_remove:
  assumes "safe limit q" "jq_known q' = jq_known q" "jq_running q' = remove1 x (jq_running q)"
  shows "safe limit q'"
proof -
  have same: "nonconcurrent_of q' = nonconcurrent_of q" "known_waits q' = known_waits q"
    using assms(2) by (simp_all add: fun_eq_iff nonconcurrent_of_def known_waits_def)
  have "sorted_wrt R (running_names q) \<Longrightarrow> sorted_wrt R (running_names q')" for R using sorted_wrt_remove1 assms(3) by simp
  moreover have "parallel q' \<le> parallel q"
    unfolding parallel_def same assms(3) using filter_names_remove1 [of "known_waits q" x "jq_running q"] by simp
  moreover have "distinct (running_names q')"
    using assms(1,3) running_names_remove1 [of "jq_running q" x] by (simp add: safe_def exclusive_def)
  ultimately show ?thesis
    using assms(1) unfolding safe_def exclusive_def same by (meson order_trans)
qed

section \<open>The steps of the scheduler\<close>

text \<open>
  The state changes of the main loop between two reloads, without forced jobs: reaping, refilling,
  a round over the queue, and what other threads and the world do meanwhile (a pause is set or
  lifted, a job is queued with its dependencies, the loop is told to quit, the world moves on).
\<close>

inductive runner_step :: "cereconf \<Rightarrow> (int \<Rightarrow> int) \<Rightarrow> 'w os \<Rightarrow> 'w runner \<Rightarrow> 'w runner \<Rightarrow> bool" for cf tz os where
  step_reap: "handle_completed_jobs os rn = Inr (rn', did_wait) \<Longrightarrow> runner_step cf tz os rn rn'"
| step_refill: "refill tz os delta rn = Inr (delta', rn') \<Longrightarrow> runner_step cf tz os rn rn'"
| step_start: "num_running (rn_queue rn) = Inr n \<Longrightarrow>
    process_queue cf os (jq_run (rn_queue rn)) n rn = Inr (rn', v) \<Longrightarrow> runner_step cf tz os rn rn'"
| step_pause: "runner_step cf tz os rn (rn\<lparr>rn_paused_at := t, rn_last_pause_warn := t'\<rparr>)"
| step_enqueue: "insert_job (rn_queue rn) (jq_run (rn_queue rn)) name {} = Inr (queue, checked) \<Longrightarrow>
    runner_step cf tz os rn (rn\<lparr>rn_queue := (rn_queue rn)\<lparr>jq_run := queue\<rparr>\<rparr>)"
| step_quit: "runner_step cf tz os rn (quit rn)"
| step_world: "runner_step cf tz os rn (rn\<lparr>rn_world := w, rn_sleep_to := s, rn_timer_wait := b\<rparr>)"

inductive_cases runner_stepE: "runner_step cf tz os rn rn'"

lemma refill_running:
  "refill tz os d rn = Inr (d', rn') \<Longrightarrow>
     jq_known (rn_queue rn') = jq_known (rn_queue rn) \<and> jq_running (rn_queue rn') = jq_running (rn_queue rn)"
  by (auto simp: refill_def get_next_job_time_def Let_def res_bind_eq_Inr split: prod.splits if_splits
      dest: clock_queue)

lemma check_duration_queue:
  assumes "check_duration os job rn = Inr (rn', b)"
  shows "rn_queue rn' = rn_queue rn"
proof -
  obtain now rn1 where t: "clock os rn = (now, rn1)" by fastforce
  obtain sent w where "os_kill os (rj_pid job) 15 (os_sleep os 1 (rn_world rn1)) = (sent, w)" by fastforce
  then show ?thesis using assms t clock_queue [OF t]
    by (auto simp: check_duration_def res_bind_eq_Inr sleep_def kill_def split: option.splits if_splits)
qed

lemma handle_job_queue:
  assumes "handle_job os job rn = Inr (rn', b)"
  obtains "rn_queue rn' = rn_queue rn"
  | now ok msg q' where "job_done now (rj_name job) (Some (rj_pid job)) ok msg False (rn_queue rn) = Inr q'" "rn_queue rn' = q'"
proof -
  obtain c where c: "rj_call job = Some c" using assms by (auto simp: handle_job_def split: option.splits)
  obtain r w where r: "run_cond_wait os c (rj_pid job) (rn_world rn) = (r, w)" by fastforce
  obtain now rn1 where t: "clock os (rn\<lparr>rn_world := w\<rparr>) = (now, rn1)" by fastforce
  show ?thesis
    using assms that c r t clock_queue [OF t] check_duration_queue [of os job "rn\<lparr>rn_world := w\<rparr>" rn' b]
    by (auto simp: handle_job_def sleep_def res_bind_eq_Inr with_queue_eq
        split: sum.splits wait_result.splits prod.splits)
qed

lemma handle_job_safe:
  assumes "handle_job os job rn = Inr (rn', b)" "safe limit (rn_queue rn)"
  shows "safe limit (rn_queue rn')"
  using assms(1)
proof (rule handle_job_queue)
  fix now ok msg q'
  assume q': "job_done now (rj_name job) (Some (rj_pid job)) ok msg False (rn_queue rn) = Inr q'" "rn_queue rn' = q'"
  show ?thesis
    using job_done_queues [OF q'(1)] q'(2) by (intro safe_remove [OF assms(2)]) (simp_all add: queues_after_def)
qed (use assms(2) in simp)

lemma handle_jobs_safe:
  "handle_jobs os jobs rn b = Inr (rn', b') \<Longrightarrow> safe limit (rn_queue rn) \<Longrightarrow> safe limit (rn_queue rn')"
proof (induction os jobs rn b rule: handle_jobs.induct)
  case (2 os job jobs rn b)
  obtain r where "handle_job os job rn = Inr r" "handle_jobs os jobs (fst r) (b \<or> snd r) = Inr (rn', b')"
    using "2.prems"(1) by (auto simp: res_bind_eq_Inr)
  then show ?case using "2.IH" "2.prems"(2) handle_job_safe [of os job rn "fst r" "snd r"] by simp
qed simp

lemma handle_completed_jobs_safe:
  "handle_completed_jobs os rn = Inr (rn', b) \<Longrightarrow> safe limit (rn_queue rn) \<Longrightarrow> safe limit (rn_queue rn')"
  by (auto simp: handle_completed_jobs_def res_bind_eq_Inr intro: handle_jobs_safe)

text \<open>What a round over the queue keeps: the counter is exact, and the running jobs stay safe.\<close>

definition round_ok :: "cereconf \<Rightarrow> jobqueue \<Rightarrow> pq_vars \<Rightarrow> bool" where
  "round_ok cf q v \<longleftrightarrow> exclusive q \<and> parallel q = pq_num_running v \<and> parallel q \<le> cf_max_parallel cf"

lemma launch_round_ok:
  assumes "launch cf os False n job rn v = Inr r" "round_ok cf (rn_queue rn) v"
    "map_of (jq_known (rn_queue rn)) n = Some job"
    "may_start cf (rn_queue rn) n job (pq_num_running v) = Inr True"
  shows "round_ok cf (rn_queue (fst r)) (snd r)"
  using assms(1)
proof (rule launch_cases)
  fix c now pid q'
  assume c: "a_call job = Some c" "job_started now n pid False (rn_queue rn) = Inr q'" "rn_queue (fst r) = q'"
    "snd r = (if cl_wait c then v\<lparr>pq_num_running := pq_num_running v + 1\<rparr> else v)"
  have q': "jq_known q' = jq_known (rn_queue rn)" "jq_running q' = jq_running (rn_queue rn) @ [(n, pid)]"
    using c(2) by (auto simp: job_started_eq)
  note guards = may_start_True [OF assms(4,3)]
  have ok: "exclusive (rn_queue rn)" using assms(2) by (simp add: round_ok_def)
  have "exclusive q'" by (rule exclusive_start [OF ok guards(2,3) q'])
  moreover have "known_waits (rn_queue rn) n = cl_wait c" using assms(3) c(1) by (simp add: known_waits_def waits_def)
  moreover have "cl_wait c \<Longrightarrow> pq_num_running v < cf_max_parallel cf" using guards(1) c(1) by (simp add: waits_def)
  ultimately show ?thesis
    using parallel_start [OF q'] assms(2) c(3,4) unfolding round_ok_def by (cases "cl_wait c") simp_all
qed (use assms(2) in simp)

lemma finish_nowait_round_ok:
  assumes "finish_nowait os f n job r = Inr r'" "round_ok cf (rn_queue (fst r)) (snd r)"
  shows "round_ok cf (rn_queue (fst r')) (snd r')"
  using assms(1)
proof (rule finish_nowait_cases)
  fix now q'
  assume "job_done now n None True None f (rn_queue (fst r)) = Inr q'" "rn_queue (fst r') = q'"
    "snd r' = (snd r)\<lparr>pq_nowait := True\<rparr>"
  then show ?thesis using assms(2) job_done_queues safe_cong [of q' "rn_queue (fst r)"]
    by (fastforce simp: round_ok_def queues_after_def)
qed (use assms(2) in simp)

lemma process_job_round_ok:
  assumes "process_job cf os False n rn v = Inr (rn', v', stop)" "round_ok cf (rn_queue rn) v"
  shows "round_ok cf (rn_queue rn') v'"
  using assms(1)
proof (rule process_job_cases)
  fix job r
  assume *: "map_of (jq_known (rn_queue rn)) n = Some job" "False \<or> may_start cf (rn_queue rn) n job (pq_num_running v) = Inr True"
    "launch cf os False n job rn v = Inr r" "finish_nowait os False n job r = Inr (rn', v')"
  then have "round_ok cf (rn_queue (fst r)) (snd r)" by (intro launch_round_ok [OF *(3) assms(2) *(1)]) simp
  from finish_nowait_round_ok [OF *(4) this] show ?thesis by simp
qed (use assms(2) in \<open>simp_all add: round_ok_def\<close>)

lemma process_list_round_ok:
  "process_list cf os names rn v = Inr (rn', v') \<Longrightarrow> round_ok cf (rn_queue rn) v \<Longrightarrow> round_ok cf (rn_queue rn') v'"
proof (induction cf os names rn v rule: process_list.induct)
  case (2 cf os n ns rn v)
  obtain rn1 v1 stop where r: "process_job cf os False n rn v = Inr (rn1, v1, stop)"
    "(if stop then Inr (rn1, v1) else process_list cf os ns rn1 v1) = Inr (rn', v')"
    using "2.prems"(1) by (auto simp: res_bind_eq_Inr)
  then show ?case using process_job_round_ok [OF r(1) "2.prems"(2)] "2.IH" [OF r(1)] by (auto split: if_splits)
qed simp

lemma pause_warning_queue: "rn_queue (pause_warning cf os rn) = rn_queue rn \<and> rn_paused_at (pause_warning cf os rn) = rn_paused_at rn"
  by (auto simp: pause_warning_def clock_def Let_def split: prod.splits)

lemma running_jobs_of_names: "running_jobs_of q xs = Inr rs \<Longrightarrow> map rj_name rs = map fst xs"
  by (induction q xs arbitrary: rs rule: running_jobs_of.induct) (auto simp: res_bind_eq_Inr split: option.splits)

lemma count_running_parallel:
  "count_running q js = Inr n \<Longrightarrow> n = int (length (filter (known_waits q) (map rj_name js)))"
proof (induction js arbitrary: n)
  case (Cons j js)
  then obtain a m where "map_of (jq_known q) (rj_name j) = Some a" "count_running q js = Inr m"
    "n = (if waits (a_call a) then m + 1 else m)" by (auto simp: res_bind_eq_Inr dict_get_eq_Inr)
  then show ?case using Cons.IH by (simp add: known_waits_def)
qed simp

lemma num_running_parallel: "num_running q = Inr n \<Longrightarrow> n = parallel q"
  by (auto simp: num_running_def get_running_jobs_def res_bind_eq_Inr parallel_def
      dest!: running_jobs_of_names count_running_parallel)

lemma process_queue_safe:
  assumes "process_queue cf os names n rn = Inr (rn', v)" "n = parallel (rn_queue rn)" "safe (cf_max_parallel cf) (rn_queue rn)"
  shows "safe (cf_max_parallel cf) (rn_queue rn')"
proof -
  have "round_ok cf (rn_queue (pause_warning cf os rn)) (start_pq n)"
    using assms(2,3) by (simp add: pause_warning_queue round_ok_def safe_def start_pq_def)
  then show ?thesis using process_list_round_ok assms(1)
    by (fastforce simp: process_queue_def round_ok_def safe_def)
qed

lemma runner_step_safe:
  assumes "runner_step cf tz os rn rn'" "safe (cf_max_parallel cf) (rn_queue rn)"
  shows "safe (cf_max_parallel cf) (rn_queue rn')"
  using assms(1)
proof (cases rule: runner_step.cases)
  case (step_reap did_wait)
  then show ?thesis using assms(2) handle_completed_jobs_safe by blast
next
  case (step_refill delta delta')
  then show ?thesis using refill_running safe_cong assms(2) unfolding safe_def by metis
next
  case (step_start n v)
  then show ?thesis using process_queue_safe num_running_parallel assms(2) by blast
next
  case (step_enqueue name queue checked)
  then show ?thesis using safe_cong [of "(rn_queue rn)\<lparr>jq_run := queue\<rparr>" "rn_queue rn"] assms(2) by (simp add: safe_def)
qed (use assms(2) in \<open>simp_all add: quit_def\<close>)

interpretation scheduler: invariant_system
  "\<lambda>rn. safe (cf_max_parallel cf) (rn_queue rn)" "runner_step cf tz os" "\<lambda>rn. safe (cf_max_parallel cf) (rn_queue rn)"
  for cf tz os
  by unfold_locales (auto intro: runner_step_safe)

text \<open>A pass of the main loop with an empty forced queue is a sequence of such steps.\<close>

lemma process_forced_Nil:
  "jq_forced (rn_queue rn) = [] \<Longrightarrow> process_forced cf os 0 rn v = Inr (rn, v)"
  by (simp add: process_forced.simps [of cf os 0 rn v])

lemma clock_eq: "clock os rn = (fst (os_time os (rn_world rn)), rn\<lparr>rn_world := snd (os_time os (rn_world rn))\<rparr>)"
  by (simp add: clock_def split_beta)

lemma pause_warning_eq: "\<exists>w t. pause_warning cf os rn = rn\<lparr>rn_world := w, rn_last_pause_warn := t\<rparr>"
  by (cases rn) (auto simp: pause_warning_def clock_eq Let_def)

lemma signal_sleep_eq: "\<exists>w s b. signal_sleep os n rn = rn\<lparr>rn_world := w, rn_sleep_to := s, rn_timer_wait := b\<rparr>"
  by (cases rn) (auto simp: signal_sleep_def clock_eq)

lemma pause_runner_eq:
  assumes "pause_runner os d rn = Inr rn'"
  shows "\<exists>w s b. rn' = rn\<lparr>rn_world := w, rn_sleep_to := s, rn_timer_wait := b\<rparr>"
proof -
  obtain n where "rn' = (signal_sleep os n rn)\<lparr>rn_world := os_pause os (rn_world (signal_sleep os n rn)), rn_timer_wait := False\<rparr>"
    using assms by (auto simp: pause_runner_def res_bind_eq_Inr split: if_splits)
  then show ?thesis using signal_sleep_eq [of os n rn] by (cases rn) auto
qed

lemma end_pass_cases:
  assumes "end_pass os d rn v = Inr (d', rn')"
  obtains rn1 b where "handle_completed_jobs os rn = Inr (rn1, b)" "rn' = rn1 \<or> (\<exists>d2. pause_runner os d2 rn1 = Inr rn')"
  using assms that by (cases d) (auto simp: end_pass_def Let_def res_bind_eq_Inr split: if_splits)

lemma run_pass_steps:
  assumes "run_pass cf tz os d rn = Inr (d', rn')"
    "\<And>rn1 b. handle_completed_jobs os rn = Inr (rn1, b) \<Longrightarrow> jq_forced (rn_queue rn1) = []"
  shows "(runner_step cf tz os)\<^sup>*\<^sup>* rn rn'"
proof -
  obtain rn1 b1 where r1: "handle_completed_jobs os rn = Inr (rn1, b1)"
    using assms(1) by (auto simp: run_pass_def res_bind_eq_Inr)
  obtain w t where pw: "pause_warning cf os rn1 = rn1\<lparr>rn_world := w, rn_last_pause_warn := t\<rparr>"
    using pause_warning_eq [of cf os rn1] by (elim exE) (rule that)
  define rn2 where "rn2 = pause_warning cf os rn1"
  have f: "process_forced cf os 0 (pause_warning cf os rn1) (start_pq (- 1)) = Inr (rn2, start_pq (- 1))"
    using assms(2) [OF r1] by (simp add: process_forced_Nil pause_warning_queue rn2_def)
  obtain d1 rn3 n rn4 v where r: "refill tz os d rn2 = Inr (d1, rn3)" "num_running (rn_queue rn3) = Inr n"
      "process_queue cf os (jq_run (rn_queue rn3)) n rn3 = Inr (rn4, v)" and e: "end_pass os d1 rn4 v = Inr (d', rn')"
    using assms(1) r1 f by (auto simp: run_pass_def res_bind_eq_Inr)
  obtain rn5 b5 where r5: "handle_completed_jobs os rn4 = Inr (rn5, b5)" "rn' = rn5 \<or> (\<exists>d2. pause_runner os d2 rn5 = Inr rn')"
    by (rule end_pass_cases [OF e])
  have s1: "runner_step cf tz os rn rn1" by (rule step_reap [OF r1])
  have s2: "runner_step cf tz os rn1 (rn1\<lparr>rn_world := w, rn_sleep_to := rn_sleep_to rn1, rn_timer_wait := rn_timer_wait rn1\<rparr>)"
    by (rule step_world)
  have s3: "runner_step cf tz os (rn1\<lparr>rn_world := w, rn_sleep_to := rn_sleep_to rn1, rn_timer_wait := rn_timer_wait rn1\<rparr>) rn2"
    unfolding rn2_def pw
    using step_pause [of cf tz os "rn1\<lparr>rn_world := w, rn_sleep_to := rn_sleep_to rn1, rn_timer_wait := rn_timer_wait rn1\<rparr>" t "rn_paused_at rn1"]
    by (cases rn1) simp
  have s4: "runner_step cf tz os rn2 rn3" "runner_step cf tz os rn3 rn4" "runner_step cf tz os rn4 rn5"
    using step_refill [OF r(1)] step_start [OF r(2,3)] step_reap [OF r5(1)] by blast+
  have "(runner_step cf tz os)\<^sup>*\<^sup>* rn rn5"
    using s1 s2 s3 s4 by (meson converse_rtranclp_into_rtranclp rtranclp.rtrancl_refl)
  moreover have "rn' = rn5 \<or> runner_step cf tz os rn5 rn'"
    using r5(2) pause_runner_eq step_world by metis
  ultimately show ?thesis by (auto intro: rtranclp.rtrancl_into_rtrancl)
qed

text \<open>
  C4: between reloads, and as long as no job is forced, the scheduler never runs a job twice at the
  same time, no running job was started while one its own setup excludes was running, and there are never more waiting jobs
  running than \<^verbatim>\<open>JOB_RUNNER_MAX_PARALELL_JOBS\<close>, whatever the operating system answers. When exclusions are declared on
  both jobs, no two jobs that exclude each other run at the same time.
\<close>

theorem scheduler_safe:
  assumes "reachable (\<lambda>rn. jq_running (rn_queue rn) = [] \<and> 0 \<le> cf_max_parallel cf) (runner_step cf tz os) rn"
  shows "distinct (running_names (rn_queue rn)) \<and>
    sorted_wrt (\<lambda>earlier later. earlier \<notin> nonconcurrent_of (rn_queue rn) later) (running_names (rn_queue rn)) \<and>
    parallel (rn_queue rn) \<le> cf_max_parallel cf \<and>
    (symmetric_config (rn_queue rn) \<longrightarrow>
      (\<forall>n \<in> set (running_names (rn_queue rn)). \<forall>m \<in> set (running_names (rn_queue rn)). n \<noteq> m \<longrightarrow> m \<notin> nonconcurrent_of (rn_queue rn) n))"
proof -
  have "reachable (\<lambda>rn. safe (cf_max_parallel cf) (rn_queue rn)) (runner_step cf tz os) rn"
    by (rule reachable_mono [OF assms]) (simp add: safe_def exclusive_def parallel_def)
  then have "safe (cf_max_parallel cf) (rn_queue rn)" by (rule scheduler.reachable_inv)
  then show ?thesis using exclusive_symmetric [of "rn_queue rn"] unfolding safe_def exclusive_def by blast
qed

text \<open>An operating system that answers every call the same way.\<close>

definition plain_os :: "unit os" where
  "plain_os =
     \<lparr>os_time = (\<lambda>w. (200, w)), os_alive = (\<lambda>w p. False), os_files = (\<lambda>w. Map.empty),
      os_fork = (\<lambda>c w. (7, w)),
      os_waitpid = (\<lambda>c p w. (Inr \<lparr>ob_pid = 0, ob_status = 0, ob_files_exist = True, ob_stdout_size = 0, ob_stderr_size = 0\<rparr>, w)),
      os_tidy = (\<lambda>c b w. (Inr [], w)), os_kill = (\<lambda>p s w. (True, w)), os_sleep = (\<lambda>n w. w), os_pause = (\<lambda>w. w)\<rparr>"

definition plain_conf :: cereconf where
  "plain_conf = \<lparr>cf_max_parallel = 3, cf_pause_warn = 3600, cf_log_dir = ''/log'', cf_recursion_limit = 1000\<rparr>"

definition job_of :: "string \<Rightarrow> action" where
  "job_of cmd = default_action\<lparr>a_call := Some (mk_System cmd [] False)\<rparr>"

definition plain_runner :: "unit runner" where
  "plain_runner = (init_runner (init_jobqueue 100 0 [(''import'', job_of ''/bin/import'')] Map.empty) ())
     \<lparr>rn_queue := (init_jobqueue 100 0 [(''import'', job_of ''/bin/import'')] Map.empty)\<lparr>jq_run := [''import'']\<rparr>\<rparr>"

theorem scheduler_safe_witness:
  "\<exists>rn. process_queue plain_conf plain_os [''import''] 0 plain_runner = Inr (rn, start_pq 1) \<and>
     running_names (rn_queue rn) = [''import''] \<and>
     distinct (running_names (rn_queue rn)) \<and> parallel (rn_queue rn) \<le> cf_max_parallel plain_conf"
proof -
  obtain rn where rn: "process_queue plain_conf plain_os [''import''] 0 plain_runner = Inr (rn, start_pq 1)"
      "running_names (rn_queue rn) = [''import'']"
  proof -
    have "map_sum id (\<lambda>r. (running_names (rn_queue (fst r)), snd r)) (process_queue plain_conf plain_os [''import''] 0 plain_runner) =
        Inr ([''import''], start_pq 1)" by code_simp
    then show ?thesis using that by (cases "process_queue plain_conf plain_os [''import''] 0 plain_runner") auto
  qed
  have q: "jq_run (rn_queue plain_runner) = [''import'']" "num_running (rn_queue plain_runner) = Inr 0" by code_simp+
  have "runner_step plain_conf (\<lambda>_. 0) plain_os plain_runner rn"
    using rn(1) q by (intro step_start [where n = 0]) simp_all
  moreover have "jq_running (rn_queue plain_runner) = [] \<and> 0 \<le> cf_max_parallel plain_conf"
    by (simp add: plain_conf_def) (simp add: plain_runner_def init_jobqueue_def reload_frame)
  ultimately have "reachable (\<lambda>rn. jq_running (rn_queue rn) = [] \<and> 0 \<le> cf_max_parallel plain_conf)
      (runner_step plain_conf (\<lambda>_. 0) plain_os) rn"
    by (intro reachable_step [OF reachable_start])
  from scheduler_safe [OF this] rn show ?thesis by (intro exI [of _ rn]) simp
qed

text \<open>
  C28: the scheduler starts a queued job only when nothing it has to wait for is queued or running:
  a start in an unforced round means that the job was not blocked at that moment.
\<close>

theorem started_not_blocked:
  assumes "process_job cf os False n rn v = Inr (rn', v', stop)" "jq_running (rn_queue rn') \<noteq> jq_running (rn_queue rn)"
    "acyclic (dep_edges (jq_known (rn_queue rn)))" "names_defined (jq_known (rn_queue rn))"
    "distinct (keys (jq_known (rn_queue rn)))"
    "set (jq_run (rn_queue rn)) \<union> set (running_names (rn_queue rn)) \<subseteq> set (keys (jq_known (rn_queue rn)))"
    "length (jq_known (rn_queue rn)) + 1 < cf_recursion_limit cf"
  shows "\<not> blocked (rn_queue rn) n \<and> rn_paused_at rn \<le> 0"
  using assms(1)
proof (rule process_job_cases)
  fix job r
  assume *: "map_of (jq_known (rn_queue rn)) n = Some job" "False \<or> rn_paused_at rn \<le> 0"
    "False \<or> may_start cf (rn_queue rn) n job (pq_num_running v) = Inr True"
  have "has_queued_prerequisite (cf_recursion_limit cf) (rn_queue rn) n 0 = Inr False"
    using may_start_True(4) [OF _ *(1)] *(3) by blast
  moreover have "n \<in> set (keys (jq_known (rn_queue rn)))" using *(1) by (rule map_of_Some_keys)
  ultimately show ?thesis using has_queued_prerequisite_blocked [OF assms(3-6) _ assms(7)] *(2) by simp
qed (use assms(2) in simp_all)

theorem started_not_blocked_witness:
  "\<not> blocked (rn_queue plain_runner) ''import'' \<and> rn_paused_at plain_runner \<le> 0"
proof -
  have "map_sum id (\<lambda>r. running_names (rn_queue (fst r))) (process_job plain_conf plain_os False ''import'' plain_runner (start_pq 0)) =
      Inr [''import'']" by code_simp
  then obtain r where r: "process_job plain_conf plain_os False ''import'' plain_runner (start_pq 0) = Inr r"
      "running_names (rn_queue (fst r)) = [''import'']"
    by (cases "process_job plain_conf plain_os False ''import'' plain_runner (start_pq 0)") auto
  show ?thesis
  proof (rule started_not_blocked)
    show "process_job plain_conf plain_os False ''import'' plain_runner (start_pq 0) = Inr (fst r, fst (snd r), snd (snd r))"
      using r(1) by simp
    have "jq_running (rn_queue plain_runner) = []" by code_simp
    then show "jq_running (rn_queue (fst r)) \<noteq> jq_running (rn_queue plain_runner)" using r(2) by auto
    have "dep_edges (jq_known (rn_queue plain_runner)) = {}"
      by (simp add: plain_runner_def init_jobqueue_def reload_dep_edges)
        (auto simp: dep_edges_def pre_of_def post_of_def job_of_def default_action_def split: if_splits option.splits)
    then show "acyclic (dep_edges (jq_known (rn_queue plain_runner)))" by (simp add: acyclic_def)
    show "names_defined (jq_known (rn_queue plain_runner))" by code_simp
    show "distinct (keys (jq_known (rn_queue plain_runner)))" by code_simp
    show "set (jq_run (rn_queue plain_runner)) \<union> set (running_names (rn_queue plain_runner)) \<subseteq> set (keys (jq_known (rn_queue plain_runner)))"
      by code_simp
    show "length (jq_known (rn_queue plain_runner)) + 1 < cf_recursion_limit plain_conf" by code_simp
  qed
qed

text \<open>
  While the runner is paused a round over the queue starts and finishes nothing, and asks for a
  sleep of \<^verbatim>\<open>max_sleep\<close> when jobs are waiting.
\<close>

theorem paused_starts_nothing:
  assumes "rn_paused_at rn > 0" "queue = [] \<or> hd queue \<in> set (keys (jq_known (rn_queue rn)))"
  shows "\<exists>rn' v. process_queue cf os queue n rn = Inr (rn', v) \<and> rn_queue rn' = rn_queue rn \<and>
    pq_delta v = (if queue = [] then None else Some 60) \<and> \<not> pq_nowait v"
proof (cases queue)
  case Nil
  then show ?thesis by (simp add: process_queue_def pause_warning_queue start_pq_def)
next
  case (Cons name names)
  then obtain a where "map_of (jq_known (rn_queue rn)) name = Some a" using assms(2) keys_map_of_Some by fastforce
  then show ?thesis using Cons assms(1)
    by (simp add: process_queue_def process_job_def pause_warning_queue start_pq_def max_sleep_def)
qed

theorem paused_starts_nothing_witness:
  "\<exists>rn' v. process_queue plain_conf plain_os [''import''] 0 (plain_runner\<lparr>rn_paused_at := 150\<rparr>) = Inr (rn', v) \<and>
    rn_queue rn' = rn_queue (plain_runner\<lparr>rn_paused_at := 150\<rparr>) \<and>
    pq_delta v = (if [''import''] = [] then None else Some 60) \<and> \<not> pq_nowait v"
proof (rule paused_starts_nothing)
  show "rn_paused_at (plain_runner\<lparr>rn_paused_at := 150\<rparr>) > 0" by simp
  show "[''import''] = [] \<or> hd [''import''] \<in> set (keys (jq_known (rn_queue (plain_runner\<lparr>rn_paused_at := 150\<rparr>))))"
    by code_simp
qed

section \<open>What counts as a success\<close>

lemma exit_code_zero:
  assumes "0 \<le> k"
  shows "startswith (''exit_code='' @ show_int k) ''exit_code=0'' \<longleftrightarrow> k = 0"
proof -
  obtain c cs where c: "show_int k = c # cs" "hd (show_int k) = c"
    using show_nat_digits [of "nat k"] assms by (cases "show_int k") (auto simp: show_int_def)
  have "c = CHR ''0'' \<longleftrightarrow> k = 0" using show_nat_hd_zero [of "nat k"] c assms by (simp add: show_int_def)
  then show ?thesis using c(1) by (simp add: startswith_def)
qed

text \<open>
  A finished child counts as a success exactly when its output files exist and it exited normally
  with code 0. Output on the error stream alone does not make it a failure.
\<close>

theorem job_ok_iff_exit_0:
  assumes "ob_pid ob = pid" "0 \<le> ob_status ob"
  shows "fst (exit_verdict (cond_wait c dir pid ob)) \<longleftrightarrow>
    ob_files_exist ob \<and> WIFEXITED (ob_status ob) \<and> WEXITSTATUS (ob_status ob) = 0"
proof -
  have "0 \<le> WEXITSTATUS (ob_status ob)" by (simp add: WEXITSTATUS_def)
  then have code: "startswith (''exit_code='' @ show_int (WEXITSTATUS (ob_status ob))) ''exit_code=0'' \<longleftrightarrow> WEXITSTATUS (ob_status ob) = 0"
    by (rule exit_code_zero)
  have "\<not> startswith (''exit_status='' @ x) ''exit_code=0''" "\<not> startswith (''exit_signal='' @ x) ''exit_code=0''" for x
    by (simp_all add: startswith_def)
  moreover have "WIFEXITED 0" "WEXITSTATUS 0 = 0" by (simp_all add: WIFEXITED_def WEXITSTATUS_def)
  ultimately show ?thesis using assms(1) code by (auto simp: cond_wait_def exit_verdict_def)
qed

theorem job_ok_iff_exit_0_witness:
  "fst (exit_verdict (cond_wait (mk_System ''/bin/x'' [] False) ''/log/x.1/'' 7
      \<lparr>ob_pid = 7, ob_status = 256, ob_files_exist = True, ob_stdout_size = 0, ob_stderr_size = 9\<rparr>)) \<longleftrightarrow>
    True \<and> WIFEXITED 256 \<and> WEXITSTATUS 256 = 0"
  using job_ok_iff_exit_0 [of "\<lparr>ob_pid = 7, ob_status = 256, ob_files_exist = True, ob_stdout_size = 0, ob_stderr_size = 9\<rparr>" 7]
  by simp

section \<open>Defects\<close>

text \<open>A job without a call stops the loop over the running jobs, unless one before it does.\<close>

lemma handle_jobs_no_call: "\<exists>job \<in> set jobs. rj_call job = None \<Longrightarrow> \<exists>e. handle_jobs os jobs rn did_wait = Inl e"
proof (induction jobs arbitrary: rn did_wait)
  case (Cons job jobs)
  show ?case
  proof (cases "handle_job os job rn")
    case (Inr r)
    then have "rj_call job \<noteq> None" by (cases "rj_call job") (simp_all add: handle_job_def)
    then show ?thesis using Inr Cons.IH [of "fst r" "did_wait \<or> snd r"] Cons.prems by auto
  qed simp
qed simp

lemma running_job_unknown:
  "running_jobs_of q xs = Inr rs \<Longrightarrow> n \<in> set (map fst xs) \<Longrightarrow> map_of (jq_known q) n = None \<Longrightarrow> \<exists>job \<in> set rs. rj_name job = n \<and> rj_call job = None"
  by (induction q xs arbitrary: rs rule: running_jobs_of.induct) (auto simp: res_bind_eq_Inr simp del: set_map split: option.splits)

text \<open>
  C40: a reload that drops a job which is running stops the scheduler, wherever the job stands among the running ones, paused or not and
  whatever the operating system answers: the next pass of the main loop, which handles completed jobs first, raises there. If the dropped job is the first
  one, the exception is \<^verbatim>\<open>AttributeError\<close> from the call it no longer has, although \<open>job_done\<close> provides for unknown jobs.
\<close>

theorem reload_drops_running_job:
  assumes "distinct (keys config)" "n \<notin> set (keys config)" "n \<in> set (running_names (rn_queue rn))"
    "\<forall>x \<in> set (running_names (rn_queue rn)). jq_started_at (rn_queue rn) x \<noteq> None"
    "rn' = rn\<lparr>rn_queue := reload_scheduled_jobs now config (rn_queue rn)\<rparr>"
  shows "\<exists>e. handle_completed_jobs os rn' = Inl e \<and> run_pass cf tz os delta rn' = Inl e \<and> (hd (running_names (rn_queue rn)) = n \<longrightarrow> e = AttributeError)"
proof -
  let ?q = "reload_scheduled_jobs now config (rn_queue rn)"
  have gone: "map_of (jq_known ?q) n = None"
    using reload_known [OF assms(1), where n = n and now = now and q = "rn_queue rn"] assms(2) by (simp add: keys_iff_map_of del: set_map)
  have "\<exists>rs. running_jobs_of ?q xs = Inr rs" if "\<forall>x \<in> set (map fst xs). jq_started_at ?q x \<noteq> None" for xs
    using that by (induction ?q xs rule: running_jobs_of.induct) auto
  then obtain rs where rs: "get_running_jobs ?q = Inr rs" using assms(4) by (auto simp: get_running_jobs_def reload_frame)
  then have "\<exists>job \<in> set rs. rj_call job = None"
    using running_job_unknown [OF _ _ gone, of "jq_running ?q" rs] assms(3) by (auto simp: get_running_jobs_def reload_frame simp del: set_map)
  then obtain e where e: "handle_jobs os rs rn' False = Inl e" using handle_jobs_no_call by blast
  have "e = AttributeError" if head: "hd (running_names (rn_queue rn)) = n"
  proof -
    obtain pid rest where "jq_running (rn_queue rn) = (n, pid) # rest"
      using assms(3) head by (cases "jq_running (rn_queue rn)") (auto simp: split_paired_all)
    then obtain job jobs where "rs = job # jobs" "rj_call job = None"
      using rs gone by (auto simp: get_running_jobs_def reload_frame res_bind_eq_Inr split: option.splits)
    then show ?thesis using e by (simp add: handle_job_def)
  qed
  then show ?thesis using e rs assms(5) by (simp add: run_pass_def handle_completed_jobs_def)
qed

text \<open>Of two running jobs the second is dropped.\<close>

theorem reload_drops_running_job_witness:
  "\<exists>rn e. running_names (rn_queue rn) = [''import'', ''dump''] \<and>
     run_pass plain_conf (\<lambda>_. 0) plain_os (Some 5) (rn\<lparr>rn_queue := reload_scheduled_jobs 300 [(''import'', job_of ''/bin/import'')] (rn_queue rn)\<rparr>) = Inl e"
proof -
  define rn where "rn = plain_runner\<lparr>rn_queue := (rn_queue plain_runner)
    \<lparr>jq_running := [(''import'', 6), (''dump'', 7)], jq_started_at := [''import'' \<mapsto> 140, ''dump'' \<mapsto> 150]\<rparr>\<rparr>"
  have names: "running_names (rn_queue rn) = [''import'', ''dump'']" and started: "jq_started_at (rn_queue rn) = [''import'' \<mapsto> 140, ''dump'' \<mapsto> 150]"
    by (simp_all add: rn_def)
  have "\<exists>e. run_pass plain_conf (\<lambda>_. 0) plain_os (Some 5) (rn\<lparr>rn_queue := reload_scheduled_jobs 300 [(''import'', job_of ''/bin/import'')] (rn_queue rn)\<rparr>) = Inl e"
    using reload_drops_running_job [of "[(''import'', job_of ''/bin/import'')]" "''dump''" rn _ 300 plain_os plain_conf "\<lambda>_. 0" "Some 5", unfolded names started] by auto
  then show ?thesis using names by (intro exI [of _ rn]) simp
qed

text \<open>A reload that drops the first job of the run queue makes the next round over it raise \<^verbatim>\<open>KeyError\<close>.\<close>

lemma reload_drops_queued_job:
  assumes "distinct (keys config)" "m \<notin> set (keys config)"
  shows "process_queue cf os (m # ms) k (rn\<lparr>rn_queue := reload_scheduled_jobs now config (rn_queue rn)\<rparr>) = Inl KeyError"
proof -
  have "map_of (jq_known (reload_scheduled_jobs now config (rn_queue rn))) m = None"
    using reload_known [OF assms(1), where n = m and now = now and q = "rn_queue rn"] assms(2) by (simp add: keys_iff_map_of del: set_map)
  then show ?thesis by (simp add: process_queue_def process_job_def pause_warning_queue)
qed

text \<open>
  The forced queue is walked while entries are removed from it, so of two forced jobs one pass
  processes only the first.
\<close>

definition forced_runner :: "unit runner" where
  "forced_runner = init_runner ((init_jobqueue 100 0 [(''a'', default_action), (''b'', default_action)] Map.empty)
     \<lparr>jq_forced := [''a'', ''b'']\<rparr>) ()"

theorem forced_queue_skips:
  "map_sum id (\<lambda>r. jq_forced (rn_queue (fst r))) (process_forced plain_conf plain_os 0 forced_runner (start_pq (- 1))) = Inr [''b'']"
  by code_simp

text \<open>
  When jobs are queued before the first pass (a client may have asked for one), \<^verbatim>\<open>delta\<close> has no
  value when the pass logs it, and the main loop stops with an exception.
\<close>

theorem first_pass_unbound_delta:
  "run_pass plain_conf (\<lambda>_. 0) plain_os None plain_runner = Inl (OtherError ''UnboundLocalError'')"
proof -
  have "map_sum id (\<lambda>_. ()) (run_pass plain_conf (\<lambda>_. 0) plain_os None plain_runner) = Inl (OtherError ''UnboundLocalError'')"
    by code_simp
  then show ?thesis by (cases "run_pass plain_conf (\<lambda>_. 0) plain_os None plain_runner") auto
qed

end
