(* ===== verification/Job_Ipc.thy ===== *)
theory Job_Ipc
  imports Job_Runner "HOL-Library.List_Lexorder" "HOL-Library.Char_ord"
begin

text \<open>
  The command channel of the scheduler, \<^verbatim>\<open>Cerebrum/modules/job_runner/socket_ipc.py\<close>, and the
  health report, \<^verbatim>\<open>Cerebrum/modules/job_runner/health.py\<close>. The socket is what the kernel answers:
  the number of bytes each \<^verbatim>\<open>send\<close> takes and the chunks each \<^verbatim>\<open>recv\<close> delivers. Messages are values
  of the type \<open>json\<close>; a message that is no JSON text is \<open>None\<close>. Text that is only meant for the
  eye (formatted times, thread lists) is left out of the replies.
\<close>

section \<open>Framing\<close>

definition eof :: char where "eof = CHR 0x00"
definition buffer_size :: nat where "buffer_size = 1024 * 2"
definition max_size :: nat where "max_size = 1024 * 128"

text \<open>
  The loop of \<^verbatim>\<open>send\<close>: \<open>acc i\<close> is how many bytes the \<open>i\<close>-th call may take. The result is the bytes
  that went out.
\<close>

function send_loop :: "(nat \<Rightarrow> nat) \<Rightarrow> nat \<Rightarrow> string \<Rightarrow> nat \<Rightarrow> string res" where
  "send_loop acc i data totalsent =
     (if totalsent < length data
      then (let chunk = take (min (length data) (totalsent + buffer_size) - totalsent) (drop totalsent data);
                sent = min (acc i) (length chunk)
            in if sent = 0 then Inl RuntimeError
               else res_bind (send_loop acc (Suc i) data (totalsent + sent)) (\<lambda>rest. Inr (take sent chunk @ rest)))
      else Inr [])"
  by pat_completeness auto

termination send_loop
  by (relation "measure (\<lambda>(acc, i, data, t). length data - t)") auto

declare send_loop.simps [simp del]

definition send :: "(nat \<Rightarrow> nat) \<Rightarrow> string \<Rightarrow> string res" where
  "send acc payload =
     (if eof \<in> set payload then Inl ValueError
      else (let data = payload @ [eof]
            in if length data > max_size then Inl ValueError else send_loop acc 0 data 0))"

definition rstrip_eof :: "string \<Rightarrow> string" where
  "rstrip_eof s = rev (dropWhile (\<lambda>c. c = eof) (rev s))"

text \<open>The loop of \<^verbatim>\<open>recv\<close> over the chunks the kernel delivers; no more chunks is a closed connection.\<close>

fun recv_loop :: "string list \<Rightarrow> nat \<Rightarrow> string res" where
  "recv_loop chunks bytes_recd =
     (if bytes_recd < max_size
      then (case chunks of
              [] \<Rightarrow> Inl RuntimeError
            | chunk # rest \<Rightarrow>
                if chunk = [] then Inl RuntimeError
                else if last chunk = eof then Inr (rstrip_eof chunk)
                else res_bind (recv_loop rest (bytes_recd + length chunk)) (\<lambda>s. Inr (rstrip_eof chunk @ s)))
      else Inr [])"

declare recv_loop.simps [simp del]

definition recv :: "string list \<Rightarrow> string res" where
  "recv chunks = recv_loop chunks 0"

section \<open>Commands\<close>

definition truthy :: "json \<Rightarrow> bool" where
  "truthy v = (case v of JNull \<Rightarrow> False | JBool b \<Rightarrow> b | JInt i \<Rightarrow> i \<noteq> 0 | JStr s \<Rightarrow> s \<noteq> [] | JList xs \<Rightarrow> xs \<noteq> [] | JObj kvs \<Rightarrow> kvs \<noteq> [])"

text \<open>What iterating over a value gives; a number cannot be iterated over.\<close>

definition iter_json :: "json \<Rightarrow> json list res" where
  "iter_json v =
     (case v of
        JList xs \<Rightarrow> Inr xs
      | JStr s \<Rightarrow> Inr (map (\<lambda>c. JStr [c]) s)
      | JObj kvs \<Rightarrow> Inr (map (\<lambda>p. JStr (fst p)) kvs)
      | _ \<Rightarrow> Inl TypeError)"

text \<open>The registered commands with their number of arguments.\<close>

definition commands :: "(string \<times> nat) list" where
  "commands =
     [(''RELOAD'', 0), (''QUIT'', 0), (''KILL'', 0), (''PAUSE'', 0), (''RESUME'', 0), (''RUNJOB'', 2),
      (''SHOWJOB'', 1), (''STATUS'', 0), (''PING'', 0), (''REPORT'', 0)]"

definition commands_get :: "json \<Rightarrow> (string \<times> nat) res" where
  "commands_get name =
     (case name of
        JStr s \<Rightarrow> (case map_of commands s of None \<Rightarrow> Inl ValueError | Some k \<Rightarrow> Inr (s, k))
      | JList _ \<Rightarrow> Inl TypeError
      | JObj _ \<Rightarrow> Inl TypeError
      | _ \<Rightarrow> Inl ValueError)"

definition commands_check :: "json \<Rightarrow> json \<Rightarrow> unit res" where
  "commands_check name arguments =
     res_bind (commands_get name) (\<lambda>c.
       res_bind (iter_json arguments) (\<lambda>xs. if snd c = length xs then Inr () else Inl ValueError))"

definition or_empty :: "json \<Rightarrow> json" where
  "or_empty v = (if truthy v then v else JList [])"

definition commands_parse :: "json \<Rightarrow> (string \<times> json list) res" where
  "commands_parse data =
     res_bind (iter_json data) (\<lambda>xs.
       case xs of
         [name, arguments] \<Rightarrow>
           res_bind (commands_check name (or_empty arguments)) (\<lambda>_.
           res_bind (commands_get name) (\<lambda>c.
           res_bind (iter_json (or_empty arguments)) (\<lambda>args. Inr (fst c, args))))
       | _ \<Rightarrow> Inl ValueError)"

definition commands_build :: "string \<Rightarrow> json list \<Rightarrow> json res" where
  "commands_build name arguments =
     res_bind (commands_check (JStr name) (JList arguments)) (\<lambda>_. Inr (JList [JStr name, JList arguments]))"

section \<open>Health\<close>

definition mk_HealthCheck :: "bool \<Rightarrow> int option \<Rightarrow> health_check" where
  "mk_HealthCheck ok overdue =
     \<lparr>check_ok = ok, check_overdue = (case overdue of None \<Rightarrow> None | Some n \<Rightarrow> if n = 0 then None else Some n)\<rparr>"

definition enabled :: "health_check \<Rightarrow> bool" where
  "enabled h \<longleftrightarrow> check_ok h \<or> (case check_overdue h of None \<Rightarrow> False | Some n \<Rightarrow> n \<noteq> 0)"

definition check_status :: "string \<Rightarrow> bool" where
  "check_status msg \<longleftrightarrow> msg = ''ok'' \<or> msg = ''unknown'' \<or> startswith msg ''exit_code=0''"

record job_report =
  jr_is_overdue :: int
  jr_last_done_at :: int
  jr_last_success_at :: int
  jr_prev_msg :: string
  jr_prev_ok :: int

record discovery =
  dc_job_name :: string
  dc_check_ok :: bool
  dc_check_overdue :: int

definition overdue_by :: "int \<Rightarrow> jobqueue \<Rightarrow> string \<Rightarrow> int \<Rightarrow> int" where
  "overdue_by now q n limit =
     (let last_success = (if last_success_at q n = 0 \<and> last_status q n = ''unknown''
                          then last_done_at q n else last_success_at q n);
          overdue = now - last_success - limit
      in if overdue > 0 then overdue else 0)"

definition report_job :: "int \<Rightarrow> jobqueue \<Rightarrow> string \<Rightarrow> action \<Rightarrow> discovery list \<times> job_report" where
  "report_job now q n a =
     (let rep = \<lparr>jr_is_overdue = 0, jr_last_done_at = last_done_at q n, jr_last_success_at = last_success_at q n,
                 jr_prev_msg = last_status q n, jr_prev_ok = (if check_status (last_status q n) then 1 else 0)\<rparr>
      in case a_health a of
           None \<Rightarrow> ([], rep)
         | Some h \<Rightarrow>
             if \<not> enabled h then ([], rep)
             else ([\<lparr>dc_job_name = n, dc_check_ok = check_ok h,
                     dc_check_overdue = (case check_overdue h of None \<Rightarrow> 0 | Some k \<Rightarrow> k)\<rparr>],
                   case check_overdue h of
                     None \<Rightarrow> rep
                   | Some k \<Rightarrow> if k = 0 then rep else rep\<lparr>jr_is_overdue := overdue_by now q n k\<rparr>))"

record health_report =
  hr_discovery :: "discovery list"
  hr_jobs :: "(string \<times> job_report) list"
  hr_curr_time :: int
  hr_paused_at :: int

text \<open>\<^verbatim>\<open>get_health_report\<close>; the jobs come sorted by name.\<close>

definition get_health_report :: "int \<Rightarrow> 'w runner \<Rightarrow> health_report" where
  "get_health_report now rn =
     (let q = rn_queue rn; rs = map (\<lambda>(n, a). (n, report_job now q n a)) (sort_key fst (jq_known q))
      in \<lparr>hr_discovery = concat (map (\<lambda>(n, r). fst r) rs), hr_jobs = map (\<lambda>(n, r). (n, snd r)) rs,
          hr_curr_time = now, hr_paused_at = rn_paused_at rn\<rparr>)"

section \<open>Handling a command\<close>

datatype reply =
    Text string
  | JobStatus bool bool int int string
  | RunnerStatus "running_job list" "string list" "(string \<times> int \<times> int) list" "int option" int
  | Report health_report

text \<open>\<^verbatim>\<open>wake_runner_signal\<close>: \<^verbatim>\<open>SIGUSR1\<close> to the own process.\<close>

definition wake_runner_signal :: "'w os \<Rightarrow> int \<Rightarrow> 'w runner \<Rightarrow> 'w runner" where
  "wake_runner_signal os my_pid rn = snd (kill os my_pid 10 rn)"

text \<open>\<open>config\<close> is what the reloaded job module defines.\<close>

definition cmd_reload :: "'w os \<Rightarrow> int \<Rightarrow> job_config \<Rightarrow> 'w runner \<Rightarrow> ('w runner \<times> reply list) res" where
  "cmd_reload os my_pid config rn =
     res_bind (get_jobs config) (\<lambda>jobs.
       case clock os rn of (now, rn1) \<Rightarrow>
         Inr (wake_runner_signal os my_pid (rn1\<lparr>rn_queue := reload_scheduled_jobs now jobs (rn_queue rn1)\<rparr>), [Text ''OK'']))"

definition cmd_quit :: "'w os \<Rightarrow> int \<Rightarrow> 'w runner \<Rightarrow> 'w runner \<times> reply list" where
  "cmd_quit os my_pid rn =
     (wake_runner_signal os my_pid (quit rn), [Text ''QUIT is now only entry in ready-to-run queue''])"

definition cmd_kill :: "'w os \<Rightarrow> int \<Rightarrow> 'w runner \<Rightarrow> 'w runner \<times> reply list" where
  "cmd_kill os my_pid rn =
     (case clock os rn of (now, rn1) \<Rightarrow>
        (wake_runner_signal os my_pid (quit (rn1\<lparr>rn_paused_at := now\<rparr>)), [Text ''Initiating shutdown'']))"

definition cmd_pause :: "'w os \<Rightarrow> 'w runner \<Rightarrow> 'w runner \<times> reply list" where
  "cmd_pause os rn = (case clock os rn of (now, rn1) \<Rightarrow> (rn1\<lparr>rn_paused_at := now\<rparr>, [Text ''OK'']))"

definition cmd_resume :: "'w os \<Rightarrow> int \<Rightarrow> 'w runner \<Rightarrow> 'w runner \<times> reply list" where
  "cmd_resume os my_pid rn = (wake_runner_signal os my_pid (rn\<lparr>rn_paused_at := 0\<rparr>), [Text ''OK''])"

text \<open>The name of a job as a dictionary key: a list or an object cannot be one.\<close>

definition job_key :: "json \<Rightarrow> string option res" where
  "job_key v = (case v of JStr s \<Rightarrow> Inr (Some s) | JList _ \<Rightarrow> Inl TypeError | JObj _ \<Rightarrow> Inl TypeError | _ \<Rightarrow> Inr None)"

definition cmd_runjob :: "'w os \<Rightarrow> int \<Rightarrow> json \<Rightarrow> json \<Rightarrow> 'w runner \<Rightarrow> ('w runner \<times> reply list) res" where
  "cmd_runjob os my_pid jobname with_deps rn =
     res_bind (job_key jobname) (\<lambda>key.
       case key of
         None \<Rightarrow> Inr (rn, [Text ''Unknown job''])
       | Some n \<Rightarrow>
           if n \<notin> set (keys (jq_known (rn_queue rn))) then Inr (rn, [Text (''Unknown job '' @ n)])
           else if truthy with_deps
           then res_bind (insert_job (rn_queue rn) (jq_run (rn_queue rn)) n {}) (\<lambda>r.
             Inr (wake_runner_signal os my_pid (rn\<lparr>rn_queue := (rn_queue rn)\<lparr>jq_run := fst r\<rparr>\<rparr>),
                  [Text (''Added '' @ n @ '' to queue with dependencies'')]))
           else Inr (wake_runner_signal os my_pid (rn\<lparr>rn_queue := (rn_queue rn)\<lparr>jq_forced := jq_forced (rn_queue rn) @ [n]\<rparr>\<rparr>),
                     [Text (''Added '' @ n @ '' to head of queue'')]))"

definition cmd_showjob :: "json \<Rightarrow> 'w runner \<Rightarrow> ('w runner \<times> reply list) res" where
  "cmd_showjob jobname rn =
     res_bind (job_key jobname) (\<lambda>key.
       case key of
         None \<Rightarrow> Inr (rn, [Text ''Unknown job''])
       | Some n \<Rightarrow>
           (let q = rn_queue rn
            in if n \<notin> set (keys (jq_known q)) then Inr (rn, [Text (''Unknown job '' @ n)])
               else Inr (rn, [JobStatus (is_running q n) (is_queued q n True) (last_started_at q n) (last_done_at q n) (last_status q n)])))"

fun job_times :: "jobqueue \<Rightarrow> string list \<Rightarrow> (string \<times> int \<times> int) list res" where
  "job_times q [] = Inr []"
| "job_times q (n # ns) =
     (case (jq_last_run q n, jq_last_duration q n) of
        (Some r, Some d) \<Rightarrow> res_bind (job_times q ns) (\<lambda>ts. Inr ((n, r, d) # ts))
      | _ \<Rightarrow> Inl KeyError)"

definition cmd_status :: "'w runner \<Rightarrow> ('w runner \<times> reply list) res" where
  "cmd_status rn =
     (let q = rn_queue rn
      in res_bind (get_running_jobs q) (\<lambda>rs.
         res_bind (job_times q (sort (keys (jq_known q)))) (\<lambda>ts.
           Inr (rn, [RunnerStatus rs (jq_run q) ts (rn_sleep_to rn) (rn_paused_at rn)]))))"

definition run_command ::
  "'w os \<Rightarrow> int \<Rightarrow> job_config \<Rightarrow> string \<Rightarrow> json list \<Rightarrow> 'w runner \<Rightarrow> ('w runner \<times> reply list) res" where
  "run_command os my_pid config name args rn =
     (if name = ''RELOAD'' then cmd_reload os my_pid config rn
      else if name = ''QUIT'' then Inr (cmd_quit os my_pid rn)
      else if name = ''KILL'' then Inr (cmd_kill os my_pid rn)
      else if name = ''PAUSE'' then Inr (cmd_pause os rn)
      else if name = ''RESUME'' then Inr (cmd_resume os my_pid rn)
      else if name = ''RUNJOB'' then (case args of [j, d] \<Rightarrow> cmd_runjob os my_pid j d rn | _ \<Rightarrow> Inl TypeError)
      else if name = ''SHOWJOB'' then (case args of [j] \<Rightarrow> cmd_showjob j rn | _ \<Rightarrow> Inl TypeError)
      else if name = ''STATUS'' then cmd_status rn
      else if name = ''PING'' then Inr (rn, [Text ''PONG''])
      else (case clock os rn of (now, rn1) \<Rightarrow> Inr (rn1, [Report (get_health_report now rn1)])))"

text \<open>
  \<^verbatim>\<open>SocketProtocol.handle\<close> on a received message: the runner and the replies, and whether an
  exception leaves the method, as it does when \<^verbatim>\<open>command\<close> was never assigned. A command that raises
  is answered with an error text; for a checked configuration none of them changes the state first.
\<close>

definition handle :: "'w os \<Rightarrow> int \<Rightarrow> job_config \<Rightarrow> json option \<Rightarrow> 'w runner \<Rightarrow> 'w runner \<times> reply list \<times> py_error option" where
  "handle os my_pid config msg rn =
     (case (case msg of None \<Rightarrow> Inl ValueError | Some data \<Rightarrow> commands_parse data) of
        Inl e \<Rightarrow> (rn, [Text ''Unknown command''], Some (OtherError ''UnboundLocalError''))
      | Inr (name, args) \<Rightarrow>
          (case run_command os my_pid config name args rn of
             Inl e \<Rightarrow> (rn, [Text ''Error''], None)
           | Inr (rn', replies) \<Rightarrow> (rn', replies, None)))"

text \<open>\<^verbatim>\<open>start_listener\<close> over the messages that arrive: an exception that leaves \<open>handle\<close> ends it.\<close>

fun start_listener ::
  "'w os \<Rightarrow> int \<Rightarrow> job_config \<Rightarrow> json option list \<Rightarrow> 'w runner \<Rightarrow> 'w runner \<times> reply list list \<times> py_error option" where
  "start_listener os my_pid config [] rn = (rn, [], None)"
| "start_listener os my_pid config (m # ms) rn =
     (case handle os my_pid config m rn of
        (rn', rs, Some e) \<Rightarrow> (rn', [rs], Some e)
      | (rn', rs, None) \<Rightarrow>
          (case start_listener os my_pid config ms rn' of (rn'', rss, e) \<Rightarrow> (rn'', rs # rss, e)))"

section \<open>Messages arrive as they were sent\<close>

lemma send_loop_all:
  "send_loop acc i data t = Inr wire \<Longrightarrow> t \<le> length data \<Longrightarrow> wire = drop t data"
proof (induction acc i data t arbitrary: wire rule: send_loop.induct)
  case (1 acc i data t)
  show ?case
  proof (cases "t < length data")
    case True
    define chunk where "chunk = take (min (length data) (t + buffer_size) - t) (drop t data)"
    define sent where "sent = min (acc i) (length chunk)"
    have s: "send_loop acc i data t = (if sent = 0 then Inl RuntimeError
        else res_bind (send_loop acc (Suc i) data (t + sent)) (\<lambda>rest. Inr (take sent chunk @ rest)))"
      using True unfolding send_loop.simps [of acc i data t] Let_def chunk_def [symmetric] sent_def [symmetric] by simp
    have ne: "sent \<noteq> 0" using s "1.prems"(1) by (cases "sent = 0") auto
    then have "res_bind (send_loop acc (Suc i) data (t + sent)) (\<lambda>rest. Inr (take sent chunk @ rest)) = Inr wire"
      using s "1.prems"(1) by simp
    then obtain rest where rest: "send_loop acc (Suc i) data (t + sent) = Inr rest" "wire = take sent chunk @ rest"
      by (auto simp only: res_bind_eq_Inr sum.inject)
    have le: "sent \<le> length data - t" "take sent chunk = take sent (drop t data)"
      by (simp_all add: sent_def chunk_def)
    have "rest = drop (t + sent) data"
      using "1.IH" [OF True chunk_def sent_def ne rest(1)] le(1) True by simp
    then show ?thesis using rest(2) le(2) by (metis append_take_drop_id drop_drop add.commute)
  next
    case False
    then have "send_loop acc i data t = Inr []" by (subst send_loop.simps) simp
    then show ?thesis using "1.prems" False by simp
  qed
qed

lemma rstrip_eof_id: "eof \<notin> set s \<Longrightarrow> rstrip_eof s = s"
  by (cases "rev s") (auto simp: rstrip_eof_def dropWhile_eq_self_iff)

lemma rstrip_eof_snoc: "eof \<notin> set s \<Longrightarrow> rstrip_eof (s @ [eof]) = s"
  using rstrip_eof_id [of s] by (simp add: rstrip_eof_def)

lemma recv_loop_message:
  "concat chunks = payload @ [eof] \<Longrightarrow> eof \<notin> set payload \<Longrightarrow> [] \<notin> set chunks \<Longrightarrow>
     n + length payload < max_size \<Longrightarrow> recv_loop chunks n = Inr payload"
proof (induction chunks arbitrary: payload n)
  case (Cons chunk chunks)
  have n: "n < max_size" using Cons.prems(4) by simp
  show ?case
  proof (cases chunks rule: rev_cases)
    case Nil
    then have "chunk = payload @ [eof]" using Cons.prems(1) by simp
    then show ?thesis using n rstrip_eof_snoc [OF Cons.prems(2)] by (simp add: recv_loop.simps [of _ n])
  next
    case (snoc cs c)
    then obtain rest where rest: "concat chunks = rest @ [eof]" "payload = chunk @ rest"
      using Cons.prems(1,3) by (cases c rule: rev_cases) auto
    have ne: "chunk \<noteq> []" and ch: "eof \<notin> set chunk" using Cons.prems(2,3) rest(2) by auto
    have "last chunk \<noteq> eof" using last_in_set [OF ne] ch by metis
    moreover note ne rstrip_eof_id [OF ch]
    moreover have "recv_loop chunks (n + length chunk) = Inr rest"
      using Cons.prems rest by (intro Cons.IH) auto
    ultimately show ?thesis using n rest(2) by (simp add: recv_loop.simps [of "chunk # chunks" n])
  qed
qed simp

text \<open>
  C32: whatever \<open>send\<close> put on the wire, a receiver gets the payload back, no matter how few bytes each
  call of the sender takes and how the kernel cuts the stream into chunks.
\<close>

theorem ipc_roundtrip:
  assumes "send acc payload = Inr wire" "concat chunks = wire" "[] \<notin> set chunks"
  shows "recv chunks = Inr payload"
proof -
  have p: "eof \<notin> set payload" "length payload + 1 \<le> max_size" "send_loop acc 0 (payload @ [eof]) 0 = Inr wire"
    using assms(1) by (auto simp: send_def Let_def split: if_splits)
  then have "wire = payload @ [eof]" using send_loop_all [OF p(3)] by simp
  then have "concat chunks = payload @ [eof]" using assms(2) by (rule trans [rotated])
  moreover have "0 + length payload < max_size" using p(2) by linarith
  ultimately show ?thesis unfolding recv_def by (rule recv_loop_message [OF _ p(1) assms(3)])
qed

theorem ipc_roundtrip_witness: "recv [''PI'', ''NG'' @ [eof]] = Inr ''PING''"
proof (rule ipc_roundtrip)
  show "send (\<lambda>i. 3) ''PING'' = Inr (''PING'' @ [eof])"
    by (simp add: send_def eof_def max_size_def buffer_size_def send_loop.simps)
qed simp_all

text \<open>A command a client builds is the command the server parses, with the same arguments.\<close>

theorem parse_build:
  assumes "commands_build name args = Inr msg"
  shows "commands_parse msg = Inr (name, args)"
  using assms
  by (cases "args = []")
    (auto simp: commands_build_def commands_parse_def commands_check_def commands_get_def iter_json_def or_empty_def truthy_def
      res_bind_eq_Inr split: option.splits if_splits)

theorem parse_build_witness: "commands_parse (JList [JStr ''SHOWJOB'', JList [JStr ''dump'']]) = Inr (''SHOWJOB'', [JStr ''dump''])"
  by (rule parse_build) code_simp

text \<open>
  A message that is no valid command is answered, but the handler then reads \<^verbatim>\<open>command\<close>, which was
  never assigned, in its error handler too: the exception leaves \<open>handle\<close> and ends the listener, and
  no later message is answered.
\<close>

theorem bad_command_stops_listener:
  assumes "\<nexists>c. commands_parse data = Inr c"
  shows "start_listener os my_pid config (Some data # ms) rn =
    (rn, [[Text ''Unknown command'']], Some (OtherError ''UnboundLocalError''))"
  using assms by (cases "commands_parse data") (auto simp: handle_def)

theorem bad_command_stops_listener_witness:
  "start_listener plain_os 1 [] [Some (JList [JStr ''STOP'', JList []]), Some (JList [JStr ''PING'', JList []])] plain_runner =
    (plain_runner, [[Text ''Unknown command'']], Some (OtherError ''UnboundLocalError''))"
proof (rule bad_command_stops_listener)
  have "commands_parse (JList [JStr ''STOP'', JList []]) = Inl ValueError" by code_simp
  then show "\<nexists>c. commands_parse (JList [JStr ''STOP'', JList []]) = Inr c" by simp
qed

section \<open>The report agrees with the scheduler\<close>

lemma startswith_append_sep:
  assumes "c \<notin> set p"
  shows "startswith (m @ c # s) p \<longleftrightarrow> startswith m p"
proof (cases "length p \<le> length m")
  case True
  then show ?thesis by (simp add: startswith_def)
next
  case False
  then have "c \<in> set (take (length p) (m @ c # s))" by (auto simp: take_Cons')
  then have "\<not> startswith (m @ c # s) p" using assms unfolding startswith_def by metis
  moreover have "\<not> startswith m p" using False by (auto simp: startswith_def dest: arg_cong [of _ _ length])
  ultimately show ?thesis by simp
qed

lemma job_done_last_status:
  assumes "job_done now n pid ok msg f q = Inr q'"
  shows "jq_last_status q' n = Some (case msg of None \<Rightarrow> ''ok'' | Some m \<Rightarrow> if m = [] then ''ok'' else m)"
proof -
  obtain q1 q2 where q: "close_entry now n f (record_result now n ok msg q1) = Inr q2"
    "q' = q2 \<or> q' = update_last_run n now (q2\<lparr>jq_last_run := (jq_last_run q2)(n \<mapsto> now)\<rparr>)"
    using assms by (rule job_done_cases)
  have "jq_last_status q2 = jq_last_status (record_result now n ok msg q1)"
    using q(1) by (auto simp: close_entry_def res_bind_eq_Inr split: option.splits if_splits)
  moreover have "jq_last_status q' = jq_last_status q2"
    using q(2) by (auto simp: update_last_run_def split: option.splits)
  ultimately show ?thesis by (simp add: record_result_def Let_def)
qed

text \<open>
  After a child has been reaped, the health report calls its run a success exactly when the
  scheduler recorded a success for it.
\<close>

theorem report_matches_verdict:
  assumes "exit_verdict r = (ok, msg)" "job_done now n pid ok msg f q = Inr q'"
  shows "jr_prev_ok (snd (report_job now' q' n a)) = (if ok then 1 else 0)"
proof -
  have st: "last_status q' n = (case msg of None \<Rightarrow> ''ok'' | Some m \<Rightarrow> if m = [] then ''ok'' else m)"
    using job_done_last_status [OF assms(2)] by (auto simp: last_status_def split: option.splits)
  have "check_status (last_status q' n) = ok"
  proof (cases r)
    case (Failed m d)
    let ?s = "m @ '', check '' @ (case d of None \<Rightarrow> ''None'' | Some d \<Rightarrow> d)"
    have "startswith ?s ''exit_code=0'' \<longleftrightarrow> startswith m ''exit_code=0''" by (simp add: startswith_append_sep)
    moreover have "?s \<noteq> ''ok''" "?s \<noteq> ''unknown''" "?s \<noteq> []"
      by (auto simp: append_eq_Cons_conv)
    moreover have "msg = Some ?s" "ok = startswith m ''exit_code=0''"
      using assms(1) unfolding Failed exit_verdict_def by simp_all
    ultimately show ?thesis using st unfolding check_status_def by simp
  qed (use st assms(1) in \<open>auto simp: exit_verdict_def check_status_def\<close>)
  then show ?thesis by (auto simp: report_job_def Let_def split: option.splits)
qed

theorem report_matches_verdict_witness:
  "\<exists>q'. job_done 200 ''import'' (Some 7) False (Some ''exit_code=1, check /log/import.1/'') False
       ((rn_queue plain_runner)\<lparr>jq_running := [(''import'', 7)], jq_started_at := [''import'' \<mapsto> 150]\<rparr>) = Inr q' \<and>
     jr_prev_ok (snd (report_job 300 q' ''import'' default_action)) = (if False then 1 else 0)"
proof -
  let ?q = "(rn_queue plain_runner)\<lparr>jq_running := [(''import'', 7)], jq_started_at := [''import'' \<mapsto> 150]\<rparr>"
  have "is_ok (job_done 200 ''import'' (Some 7) False (Some ''exit_code=1, check /log/import.1/'') False ?q)" by code_simp
  then obtain q' where q': "job_done 200 ''import'' (Some 7) False (Some ''exit_code=1, check /log/import.1/'') False ?q = Inr q'"
    by (auto simp: is_ok_iff)
  moreover have "exit_verdict (Failed ''exit_code=1'' (Some ''/log/import.1/'')) = (False, Some ''exit_code=1, check /log/import.1/'')"
    by code_simp
  ultimately show ?thesis using report_matches_verdict by blast
qed

section \<open>What a command may change\<close>

lemma wake_frame:
  "rn_queue (wake_runner_signal os p rn) = rn_queue rn" "rn_should_quit (wake_runner_signal os p rn) = rn_should_quit rn"
  "rn_paused_at (wake_runner_signal os p rn) = rn_paused_at rn"
  by (simp_all add: wake_runner_signal_def kill_def split_beta)

lemma clock_frame:
  "rn_queue (snd (clock os rn)) = rn_queue rn" "rn_should_quit (snd (clock os rn)) = rn_should_quit rn"
  "rn_paused_at (snd (clock os rn)) = rn_paused_at rn"
  by (simp_all add: clock_eq)

text \<open>The command named \<open>name\<close> may have led from \<open>rn\<close> to \<open>rn'\<close>.\<close>

definition permitted :: "string \<Rightarrow> 'w runner \<Rightarrow> 'w runner \<Rightarrow> bool" where
  "permitted name rn rn' \<longleftrightarrow>
     jq_running (rn_queue rn') = jq_running (rn_queue rn) \<and>
     (jq_known (rn_queue rn') = jq_known (rn_queue rn) \<or> name = ''RELOAD'') \<and>
     (jq_run (rn_queue rn') = jq_run (rn_queue rn) \<or> name = ''RUNJOB'') \<and>
     (jq_forced (rn_queue rn') = jq_forced (rn_queue rn) \<or> name = ''RUNJOB'') \<and>
     rn_should_quit rn' = (rn_should_quit rn \<or> name = ''QUIT'' \<or> name = ''KILL'') \<and>
     (rn_paused_at rn' = rn_paused_at rn \<or> name = ''KILL'' \<or> name = ''PAUSE'' \<or> name = ''RESUME'')"

lemma cmd_reload_permitted: "cmd_reload os p config rn = Inr r \<Longrightarrow> permitted ''RELOAD'' rn (fst r)"
  by (auto simp: cmd_reload_def permitted_def res_bind_eq_Inr clock_eq wake_frame reload_frame)

lemma cmd_runjob_permitted: "cmd_runjob os p j d rn = Inr r \<Longrightarrow> permitted ''RUNJOB'' rn (fst r)"
  by (auto simp: cmd_runjob_def permitted_def res_bind_eq_Inr wake_frame split: option.splits if_splits)

lemma cmd_query_permitted:
  "cmd_showjob j rn = Inr r \<Longrightarrow> fst r = rn" "cmd_status rn = Inr r \<Longrightarrow> fst r = rn"
  by (auto simp: cmd_showjob_def cmd_status_def res_bind_eq_Inr Let_def split: option.splits if_splits)

lemma cmd_control_permitted:
  "permitted ''QUIT'' rn (fst (cmd_quit os p rn))" "permitted ''KILL'' rn (fst (cmd_kill os p rn))"
  "permitted ''PAUSE'' rn (fst (cmd_pause os rn))" "permitted ''RESUME'' rn (fst (cmd_resume os p rn))"
  by (simp_all add: cmd_quit_def cmd_kill_def cmd_pause_def cmd_resume_def permitted_def wake_frame clock_eq quit_def)

lemma permitted_refl: "name \<notin> {''QUIT'', ''KILL''} \<Longrightarrow> permitted name rn rn"
  by (simp add: permitted_def)

text \<open>
  No command starts, ends or forgets a running job. The known jobs change by \<^verbatim>\<open>RELOAD\<close> only, the
  queues by \<^verbatim>\<open>RUNJOB\<close> only, the end of the main loop is asked for by \<^verbatim>\<open>QUIT\<close> and \<^verbatim>\<open>KILL\<close> only and
  the pause is touched by \<^verbatim>\<open>KILL\<close>, \<^verbatim>\<open>PAUSE\<close> and \<^verbatim>\<open>RESUME\<close> only; a message that fails changes nothing.
\<close>

theorem handle_permitted:
  assumes "commands_parse data = Inr (name, args)"
  shows "permitted name rn (fst (handle os my_pid config (Some data) rn)) \<or>
    handle os my_pid config (Some data) rn = (rn, [Text ''Error''], None)"
proof (cases "run_command os my_pid config name args rn")
  case (Inl e)
  then show ?thesis using assms by (simp add: handle_def)
next
  case (Inr r)
  then have "permitted name rn (fst r)"
    unfolding run_command_def
    by (auto simp: clock_eq permitted_refl split: if_splits list.splits
        dest!: cmd_reload_permitted cmd_runjob_permitted cmd_query_permitted
        intro: cmd_control_permitted) (simp_all add: permitted_def)
  then show ?thesis using Inr assms by (cases r) (auto simp: handle_def)
qed

theorem handle_permitted_witness:
  "permitted ''PAUSE'' plain_runner (fst (handle plain_os 1 [] (Some (JList [JStr ''PAUSE'', JList []])) plain_runner)) \<or>
   handle plain_os 1 [] (Some (JList [JStr ''PAUSE'', JList []])) plain_runner = (plain_runner, [Text ''Error''], None)"
  by (rule handle_permitted [where args = "[]"]) code_simp

end
