(* ===== verification/Task_Queue.thy ===== *)
theory Task_Queue
  imports Cere_Prelude "HOL-Library.List_Lexorder" "HOL-Library.Char_ord" "HOL-Library.Product_Lexorder"
begin

text \<open>
  The task queue: \<^verbatim>\<open>Cerebrum/modules/tasks/task_models.py\<close> and \<^verbatim>\<open>task_queue.py\<close> over the table
  of \<^verbatim>\<open>design/mod_task_queue.sql\<close>, whose primary key is (queue, sub, key). The table is a list of
  rows; its order stands for the order the database happens to keep, which no statement relies on.
  Times are whole seconds, \<open>now\<close> is the database's \<^verbatim>\<open>now()\<close>. A column value that was not given
  (\<^verbatim>\<open>NotSet\<close>) is \<open>None\<close>; where SQL \<^verbatim>\<open>NULL\<close> can be given, the value is an option again.
\<close>

section \<open>Tasks and payloads\<close>

record payload =
  pl_format :: string
  pl_version :: int
  pl_data :: "(string \<times> json) list"

definition default_version :: int where "default_version = 1"

record task =
  t_queue :: string
  t_sub :: string
  t_key :: string
  t_nbf :: "int option"
  t_iat :: "int option"
  t_attempts :: "int option"
  t_reason :: "string option"
  t_payload :: "payload option"

definition mk_task ::
  "string \<Rightarrow> string \<Rightarrow> string option \<Rightarrow> int option \<Rightarrow> int option \<Rightarrow> int option \<Rightarrow> string option \<Rightarrow> payload option \<Rightarrow> task" where
  "mk_task queue key sub nbf iat attempts reason pl =
     \<lparr>t_queue = queue, t_sub = (case sub of None \<Rightarrow> [] | Some s \<Rightarrow> s), t_key = key, t_nbf = nbf, t_iat = iat,
      t_attempts = attempts, t_reason = reason, t_payload = pl\<rparr>"

text \<open>
  The dictionary forms: \<^verbatim>\<open>to_dict\<close> leaves out what is not set; \<^verbatim>\<open>from_dict\<close> reads the same keys.
\<close>

datatype field = FStr string | FInt int | FPayload payload

definition to_dict :: "task \<Rightarrow> (string \<times> field) list" where
  "to_dict t =
     [(''queue'', FStr (t_queue t)), (''sub'', FStr (t_sub t)), (''key'', FStr (t_key t))]
     @ (case t_attempts t of None \<Rightarrow> [] | Some n \<Rightarrow> [(''attempts'', FInt n)])
     @ (case t_nbf t of None \<Rightarrow> [] | Some n \<Rightarrow> [(''nbf'', FInt n)])
     @ (case t_iat t of None \<Rightarrow> [] | Some n \<Rightarrow> [(''iat'', FInt n)])
     @ (case t_reason t of None \<Rightarrow> [] | Some s \<Rightarrow> [(''reason'', FStr s)])
     @ (case t_payload t of None \<Rightarrow> [] | Some p \<Rightarrow> [(''payload'', FPayload p)])"

definition get_str :: "(string \<times> field) list \<Rightarrow> string \<Rightarrow> string option" where
  "get_str d k = (case map_of d k of Some (FStr s) \<Rightarrow> Some s | _ \<Rightarrow> None)"

definition get_int :: "(string \<times> field) list \<Rightarrow> string \<Rightarrow> int option" where
  "get_int d k = (case map_of d k of Some (FInt i) \<Rightarrow> Some i | _ \<Rightarrow> None)"

definition get_payload :: "(string \<times> field) list \<Rightarrow> payload option" where
  "get_payload d = (case map_of d ''payload'' of Some (FPayload p) \<Rightarrow> Some p | _ \<Rightarrow> None)"

definition from_dict :: "(string \<times> field) list \<Rightarrow> task res" where
  "from_dict d =
     (case (get_str d ''queue'', get_str d ''sub'', get_str d ''key'') of
        (Some q, Some s, Some k) \<Rightarrow>
          Inr (mk_task q k (Some s) (get_int d ''nbf'') (get_int d ''iat'') (get_int d ''attempts'')
                 (get_str d ''reason'') (get_payload d))
      | _ \<Rightarrow> Inl KeyError)"

definition copy_task :: "task \<Rightarrow> task res" where
  "copy_task t = from_dict (to_dict t)"

definition task_key :: "task \<Rightarrow> string \<times> string \<times> string" where
  "task_key t = (t_queue t, t_sub t, t_key t)"

text \<open>\<^verbatim>\<open>merge_tasks\<close>; a missing \<^verbatim>\<open>nbf\<close> is smaller than every time in Python 2.\<close>

definition merge_tasks :: "int \<Rightarrow> task \<Rightarrow> task option \<Rightarrow> task res" where
  "merge_tasks now new_task old_task =
     (case old_task of
        None \<Rightarrow> Inr new_task
      | Some old \<Rightarrow>
          if task_key old \<noteq> task_key new_task then Inl ValueError
          else (let nbf = (case t_nbf new_task of None \<Rightarrow> now | Some n \<Rightarrow> n)
                in if (case t_nbf old of None \<Rightarrow> True | Some o_nbf \<Rightarrow> o_nbf < nbf)
                   then res_bind (copy_task new_task) (\<lambda>t. Inr (t\<lparr>t_nbf := t_nbf old, t_reason := t_reason old\<rparr>))
                   else Inr new_task))"

section \<open>Rows and conditions\<close>

record task_row =
  r_queue :: string
  r_sub :: string
  r_key :: string
  r_iat :: int
  r_nbf :: int
  r_attempts :: int
  r_reason :: "string option"
  r_payload :: "payload option"

definition row_key :: "task_row \<Rightarrow> string \<times> string \<times> string" where
  "row_key r = (r_queue r, r_sub r, r_key r)"

definition row_order :: "task_row \<Rightarrow> int \<times> string \<times> string \<times> int" where
  "row_order r = (r_nbf r, r_queue r, r_sub r, r_iat r)"

definition db_row_to_task :: "task_row \<Rightarrow> task" where
  "db_row_to_task r =
     mk_task (r_queue r) (r_key r) (Some (r_sub r)) (Some (r_nbf r)) (Some (r_iat r)) (Some (r_attempts r))
       (r_reason r) (r_payload r)"

record selects =
  s_queues :: "string list option"
  s_subs :: "string list option"
  s_keys :: "string list option"
  s_iat_before :: "int option"
  s_iat_after :: "int option"
  s_nbf_before :: "int option"
  s_nbf_after :: "int option"
  s_min_attempts :: "int option"
  s_max_attempts :: "int option"

definition no_selects :: selects where
  "no_selects = \<lparr>s_queues = None, s_subs = None, s_keys = None, s_iat_before = None, s_iat_after = None,
     s_nbf_before = None, s_nbf_after = None, s_min_attempts = None, s_max_attempts = None\<rparr>"

text \<open>
  \<^verbatim>\<open>_select\<close>: the checks that raise, then the conjunction of the clauses. A list of alternatives must
  not be empty (\<^verbatim>\<open>argument_to_sql\<close> asserts it). Of a list with more than eight alternatives \<^verbatim>\<open>argument_to_sql\<close> puts the strings into
  the statement as they are, without quotation marks; the database takes them for columns it does not have and refuses the
  statement when it is executed.
\<close>

definition unquoted :: "string list option \<Rightarrow> bool" where
  "unquoted xs = (case xs of None \<Rightarrow> False | Some ys \<Rightarrow> length ys > 8)"

definition one_of :: "string list option \<Rightarrow> string \<Rightarrow> bool" where
  "one_of xs v = (case xs of None \<Rightarrow> True | Some ys \<Rightarrow> v \<in> set ys)"

definition above :: "int option \<Rightarrow> int \<Rightarrow> bool" where
  "above lo v = (case lo of None \<Rightarrow> True | Some b \<Rightarrow> b < v)"

definition below :: "int option \<Rightarrow> int \<Rightarrow> bool" where
  "below hi v = (case hi of None \<Rightarrow> True | Some b \<Rightarrow> v < b)"

definition at_least :: "int option \<Rightarrow> int \<Rightarrow> bool" where
  "at_least lo v = (case lo of None \<Rightarrow> True | Some b \<Rightarrow> b \<le> v)"

definition crossed :: "int option \<Rightarrow> int option \<Rightarrow> bool" where
  "crossed before_v after_v = (case (before_v, after_v) of (Some b, Some a) \<Rightarrow> b < a | _ \<Rightarrow> False)"

definition matches :: "selects \<Rightarrow> task_row \<Rightarrow> bool" where
  "matches s r \<longleftrightarrow>
     one_of (s_queues s) (r_queue r) \<and> one_of (s_subs s) (r_sub r) \<and> one_of (s_keys s) (r_key r) \<and>
     above (s_iat_after s) (r_iat r) \<and> below (s_iat_before s) (r_iat r) \<and>
     above (s_nbf_after s) (r_nbf r) \<and> below (s_nbf_before s) (r_nbf r) \<and>
     at_least (s_min_attempts s) (r_attempts r) \<and> below (s_max_attempts s) (r_attempts r)"

definition select :: "selects \<Rightarrow> (task_row \<Rightarrow> bool) res" where
  "select s =
     (if s_queues s = Some [] \<or> s_subs s = Some [] \<or> s_keys s = Some [] then Inl AssertionError
      else if crossed (s_iat_before s) (s_iat_after s) then Inl ValueError
      else if crossed (s_nbf_before s) (s_nbf_after s) then Inl ValueError
      else if crossed (s_max_attempts s) (s_min_attempts s) then Inl ValueError
      else if unquoted (s_queues s) \<or> unquoted (s_subs s) \<or> unquoted (s_keys s) then Inl (OtherError ''ProgrammingError'')
      else Inr (matches s))"

section \<open>Queries\<close>

definition sql_search :: "task_row list \<Rightarrow> nat option \<Rightarrow> selects \<Rightarrow> task_row list res" where
  "sql_search tbl limit s =
     res_bind (select s) (\<lambda>p.
       let rows = sort_key row_order (filter p tbl)
       in Inr (case limit of None \<Rightarrow> rows | Some n \<Rightarrow> take n rows))"

definition sql_delete :: "task_row list \<Rightarrow> nat option \<Rightarrow> selects \<Rightarrow> (task_row list \<times> task_row list) res" where
  "sql_delete tbl limit s =
     res_bind (sql_search tbl limit s) (\<lambda>rows.
       Inr (filter (\<lambda>r. row_key r \<in> set (map row_key rows)) tbl,
            filter (\<lambda>r. row_key r \<notin> set (map row_key rows)) tbl))"

definition key_selects :: "string \<Rightarrow> string \<Rightarrow> string \<Rightarrow> selects" where
  "key_selects queue sub key = no_selects\<lparr>s_queues := Some [queue], s_subs := Some [sub], s_keys := Some [key]\<rparr>"

definition single :: "'a list \<Rightarrow> 'a res" where
  "single rows = (case rows of [] \<Rightarrow> Inl NotFoundError | [r] \<Rightarrow> Inr r | _ \<Rightarrow> Inl TooManyRowsError)"

definition sql_pop :: "task_row list \<Rightarrow> string \<Rightarrow> string \<Rightarrow> string \<Rightarrow> (task_row \<times> task_row list) res" where
  "sql_pop tbl queue sub key =
     res_bind (sql_delete tbl None (key_selects queue sub key)) (\<lambda>(rows, tbl').
       res_bind (single rows) (\<lambda>r. Inr (r, tbl')))"

definition sql_pop_next ::
  "task_row list \<Rightarrow> string list option \<Rightarrow> string list option \<Rightarrow> int option \<Rightarrow> int option \<Rightarrow> (task_row \<times> task_row list) res" where
  "sql_pop_next tbl queues subs nbf max_attempts =
     res_bind (sql_delete tbl (Some 1)
         (no_selects\<lparr>s_queues := queues, s_subs := subs, s_nbf_before := nbf, s_max_attempts := max_attempts\<rparr>)) (\<lambda>(rows, tbl').
       res_bind (single rows) (\<lambda>r. Inr (r, tbl')))"

definition sql_get :: "task_row list \<Rightarrow> string \<Rightarrow> string \<Rightarrow> string \<Rightarrow> task_row res" where
  "sql_get tbl queue sub key =
     res_bind (sql_search tbl None (key_selects queue sub key)) single"

section \<open>Insert and update\<close>

text \<open>The columns given to \<^verbatim>\<open>sql_push\<close>; \<open>None\<close> is \<^verbatim>\<open>NotSet\<close>.\<close>

record columns =
  c_iat :: "int option"
  c_nbf :: "int option"
  c_attempts :: "int option"
  c_reason :: "string option option"
  c_payload :: "payload option option"

definition or_default :: "'a \<Rightarrow> 'a option \<Rightarrow> 'a" where
  "or_default d x = (case x of None \<Rightarrow> d | Some v \<Rightarrow> v)"

text \<open>\<^verbatim>\<open>_sql_insert\<close>: what is empty or not given gets the column's default. The key must be new.\<close>

definition sql_insert :: "int \<Rightarrow> string \<Rightarrow> string \<Rightarrow> string \<Rightarrow> columns \<Rightarrow> task_row list \<Rightarrow> (task_row \<times> task_row list) res" where
  "sql_insert now queue sub key c tbl =
     (let r = \<lparr>r_queue = queue, r_sub = sub, r_key = key, r_iat = or_default now (c_iat c), r_nbf = or_default now (c_nbf c),
               r_attempts = or_default 0 (c_attempts c),
               r_reason = (case c_reason c of Some (Some s) \<Rightarrow> if s = [] then None else Some s | _ \<Rightarrow> None),
               r_payload = or_default None (c_payload c)\<rparr>
      in if row_key r \<in> set (map row_key tbl) then Inl (OtherError ''IntegrityError'')
         else Inr (r, tbl @ [r]))"

text \<open>\<^verbatim>\<open>_needs_update\<close>: the given columns that differ from the row.\<close>

definition changed :: "'a \<Rightarrow> 'a option \<Rightarrow> 'a option" where
  "changed old new = (case new of None \<Rightarrow> None | Some v \<Rightarrow> if v = old then None else Some v)"

definition needs_update :: "task_row \<Rightarrow> columns \<Rightarrow> columns" where
  "needs_update old c =
     \<lparr>c_iat = changed (r_iat old) (c_iat c), c_nbf = changed (r_nbf old) (c_nbf c),
      c_attempts = changed (r_attempts old) (c_attempts c), c_reason = changed (r_reason old) (c_reason c),
      c_payload = changed (r_payload old) (c_payload c)\<rparr>"

definition nothing_to_update :: "columns \<Rightarrow> bool" where
  "nothing_to_update c \<longleftrightarrow>
     c_iat c = None \<and> c_nbf c = None \<and> c_attempts c = None \<and> c_reason c = None \<and> c_payload c = None"

definition set_columns :: "columns \<Rightarrow> task_row \<Rightarrow> task_row" where
  "set_columns c r =
     r\<lparr>r_iat := or_default (r_iat r) (c_iat c), r_nbf := or_default (r_nbf r) (c_nbf c),
       r_attempts := or_default (r_attempts r) (c_attempts c), r_reason := or_default (r_reason r) (c_reason c),
       r_payload := or_default (r_payload r) (c_payload c)\<rparr>"

definition sql_update :: "string \<Rightarrow> string \<Rightarrow> string \<Rightarrow> columns \<Rightarrow> task_row list \<Rightarrow> (task_row \<times> task_row list) res" where
  "sql_update queue sub key c tbl =
     res_bind (single (map (set_columns c) (filter (\<lambda>r. row_key r = (queue, sub, key)) tbl))) (\<lambda>r.
       Inr (r, map (\<lambda>r. if row_key r = (queue, sub, key) then set_columns c r else r) tbl))"

definition sql_push :: "int \<Rightarrow> string \<Rightarrow> string \<Rightarrow> string \<Rightarrow> columns \<Rightarrow> task_row list \<Rightarrow> (task_row option \<times> task_row list) res" where
  "sql_push now queue sub key c tbl =
     (case sql_get tbl queue sub key of
        Inl NotFoundError \<Rightarrow> res_bind (sql_insert now queue sub key c tbl) (\<lambda>(r, tbl'). Inr (Some r, tbl'))
      | Inl e \<Rightarrow> Inl e
      | Inr prev \<Rightarrow>
          (let to_update = needs_update prev c
           in if nothing_to_update to_update then Inr (None, tbl)
              else res_bind (sql_update queue sub key to_update tbl) (\<lambda>(r, tbl'). Inr (Some r, tbl'))))"

section \<open>Counting\<close>

definition group_counts :: "('a::linorder) list \<Rightarrow> ('a \<times> nat) list" where
  "group_counts xs = map (\<lambda>k. (k, count_list xs k)) (remdups (sort xs))"

definition sql_get_queue_counts :: "task_row list \<Rightarrow> selects \<Rightarrow> (string \<times> nat) list res" where
  "sql_get_queue_counts tbl s = res_bind (select s) (\<lambda>p. Inr (group_counts (map r_queue (filter p tbl))))"

definition sql_get_subqueue_counts :: "task_row list \<Rightarrow> selects \<Rightarrow> ((string \<times> string) \<times> nat) list res" where
  "sql_get_subqueue_counts tbl s =
     res_bind (select s) (\<lambda>p. Inr (group_counts (map (\<lambda>r. (r_queue r, r_sub r)) (filter p tbl))))"

section \<open>Class TaskQueue\<close>

definition find_task :: "task_row list \<Rightarrow> string \<Rightarrow> string \<Rightarrow> string \<Rightarrow> task res" where
  "find_task tbl queue sub key = res_bind (sql_get tbl queue sub key) (\<lambda>r. Inr (db_row_to_task r))"

definition get_task :: "task_row list \<Rightarrow> string \<Rightarrow> string \<Rightarrow> string \<Rightarrow> task option res" where
  "get_task tbl queue sub key =
     (case find_task tbl queue sub key of
        Inl NotFoundError \<Rightarrow> Inr None
      | Inl e \<Rightarrow> Inl e
      | Inr t \<Rightarrow> Inr (Some t))"

definition pop_task :: "task_row list \<Rightarrow> string \<Rightarrow> string \<Rightarrow> string \<Rightarrow> (task \<times> task_row list) res" where
  "pop_task tbl queue sub key =
     res_bind (sql_pop tbl queue sub key) (\<lambda>(r, tbl'). Inr (db_row_to_task r, tbl'))"

definition pop_next_task ::
  "task_row list \<Rightarrow> string list option \<Rightarrow> string list option \<Rightarrow> int option \<Rightarrow> int option \<Rightarrow> (task \<times> task_row list) res" where
  "pop_next_task tbl queues subs nbf max_attempts =
     res_bind (sql_pop_next tbl queues subs nbf max_attempts) (\<lambda>(r, tbl'). Inr (db_row_to_task r, tbl'))"

definition search_tasks :: "task_row list \<Rightarrow> nat option \<Rightarrow> selects \<Rightarrow> task list res" where
  "search_tasks tbl limit s = res_bind (sql_search tbl limit s) (\<lambda>rows. Inr (map db_row_to_task rows))"

text \<open>\<^verbatim>\<open>push_task\<close> passes \<^verbatim>\<open>to_dict\<close> on, so a field that is \<^verbatim>\<open>None\<close> is not given.\<close>

definition task_columns :: "task \<Rightarrow> columns" where
  "task_columns t =
     \<lparr>c_iat = t_iat t, c_nbf = t_nbf t, c_attempts = t_attempts t, c_reason = map_option Some (t_reason t),
      c_payload = map_option Some (t_payload t)\<rparr>"

definition push_task :: "int \<Rightarrow> task \<Rightarrow> task_row list \<Rightarrow> (task option \<times> task_row list) res" where
  "push_task now t tbl =
     res_bind (sql_push now (t_queue t) (t_sub t) (t_key t) (task_columns t) tbl) (\<lambda>(r, tbl').
       Inr (map_option db_row_to_task r, tbl'))"

section \<open>The table as a map\<close>

text \<open>What a store with a primary key promises, and what its clients need.\<close>

locale keyed_store =
  fixes wf :: "'s \<Rightarrow> bool" and view :: "'s \<Rightarrow> 'k \<Rightarrow> 'v option"
    and put :: "'k \<Rightarrow> 'v \<Rightarrow> 's \<Rightarrow> 's" and remove :: "'k \<Rightarrow> 's \<Rightarrow> 's"
    and key_of :: "'v \<Rightarrow> 'k"
  assumes wf_put: "wf s \<Longrightarrow> key_of v = k \<Longrightarrow> wf (put k v s)"
    and wf_remove: "wf s \<Longrightarrow> wf (remove k s)"
    and view_put: "wf s \<Longrightarrow> key_of v = k \<Longrightarrow> view (put k v s) = (view s)(k \<mapsto> v)"
    and view_remove: "wf s \<Longrightarrow> view (remove k s) = (view s)(k := None)"
begin

text \<open>Moving an entry to another key: nothing else changes and nothing is lost.\<close>

lemma move_view:
  assumes "wf s" "key_of v = k'"
  shows "view (put k' v (remove k s)) = (view s)(k := None, k' \<mapsto> v)"
  using assms by (simp add: view_put view_remove wf_remove)

lemma move_keeps:
  assumes "wf s" "key_of v = k'" "k'' \<noteq> k" "k'' \<noteq> k'"
  shows "view (put k' v (remove k s)) k'' = view s k''"
  using assms by (simp add: move_view)

lemma put_put:
  assumes "wf s" "key_of v = k" "key_of v' = k"
  shows "view (put k v' (put k v s)) = (view s)(k \<mapsto> v')"
  using assms by (simp add: view_put wf_put)

lemma remove_put:
  assumes "wf s" "key_of v = k" "view s k = None"
  shows "view (remove k (put k v s)) = view s"
  using assms by (simp add: view_put view_remove wf_put fun_upd_idem)

end

definition wf_table :: "task_row list \<Rightarrow> bool" where
  "wf_table tbl \<longleftrightarrow> distinct (map row_key tbl)"

definition table_view :: "task_row list \<Rightarrow> string \<times> string \<times> string \<Rightarrow> task_row option" where
  "table_view tbl = map_of (map (\<lambda>r. (row_key r, r)) tbl)"

definition row_put :: "string \<times> string \<times> string \<Rightarrow> task_row \<Rightarrow> task_row list \<Rightarrow> task_row list" where
  "row_put k r tbl =
     (if k \<in> set (map row_key tbl) then map (\<lambda>x. if row_key x = k then r else x) tbl else tbl @ [r])"

definition row_remove :: "string \<times> string \<times> string \<Rightarrow> task_row list \<Rightarrow> task_row list" where
  "row_remove k tbl = filter (\<lambda>x. row_key x \<noteq> k) tbl"

lemma table_view_Some: "wf_table tbl \<Longrightarrow> table_view tbl k = Some r \<longleftrightarrow> r \<in> set tbl \<and> row_key r = k"
  by (auto simp: table_view_def wf_table_def map_of_eq_Some_iff comp_def)

lemma table_view_None: "table_view tbl k = None \<longleftrightarrow> k \<notin> set (map row_key tbl)"
  by (auto simp: table_view_def map_of_eq_None_iff image_image)

lemma table_view_Nil: "table_view [] = Map.empty"
  by (simp add: table_view_def)

lemma table_view_Cons: "table_view (r # tbl) = (table_view tbl)(row_key r \<mapsto> r)"
  by (simp add: table_view_def)

lemma table_view_snoc: "row_key r \<notin> set (map row_key tbl) \<Longrightarrow> table_view (tbl @ [r]) = (table_view tbl)(row_key r \<mapsto> r)"
  by (induction tbl) (auto simp: table_view_Nil table_view_Cons fun_upd_twist)

lemma table_view_map:
  "k \<in> set (map row_key tbl) \<Longrightarrow> row_key r = k \<Longrightarrow> wf_table tbl \<Longrightarrow>
     table_view (map (\<lambda>x. if row_key x = k then r else x) tbl) = (table_view tbl)(k \<mapsto> r)"
proof (induction tbl)
  case (Cons x tbl)
  show ?case
  proof (cases "row_key x = k")
    case True
    then have "\<forall>y \<in> set tbl. row_key y \<noteq> k" using Cons.prems(3) by (auto simp: wf_table_def image_iff)
    then have "map (\<lambda>x. if row_key x = k then r else x) tbl = tbl" by (intro map_idI) simp
    then show ?thesis using True Cons.prems(2) by (simp add: table_view_Cons fun_eq_iff)
  next
    case False
    then have "table_view (map (\<lambda>x. if row_key x = k then r else x) tbl) = (table_view tbl)(k \<mapsto> r)"
      using Cons.prems by (intro Cons.IH) (auto simp: wf_table_def)
    then show ?thesis using False by (auto simp: table_view_Cons)
  qed
qed simp

interpretation tasks: keyed_store wf_table table_view row_put row_remove row_key
proof
  fix s :: "task_row list" and v k
  assume wf: "wf_table s" and k: "row_key v = k"
  have "map row_key (map (\<lambda>x. if row_key x = k then v else x) s) = map row_key s" using k by simp
  then show "wf_table (row_put k v s)" using wf k unfolding wf_table_def row_put_def
    by (auto simp del: map_map)
  show "table_view (row_put k v s) = (table_view s)(k \<mapsto> v)"
    using table_view_map [OF _ k wf] table_view_snoc [of v s] k by (auto simp: row_put_def)
next
  fix s :: "task_row list" and k
  assume wf: "wf_table s"
  show "wf_table (row_remove k s)" using wf by (auto simp: wf_table_def row_remove_def distinct_map intro: inj_on_subset)
  show "table_view (row_remove k s) = (table_view s)(k := None)"
    by (induction s) (auto simp: row_remove_def table_view_Nil table_view_Cons fun_upd_twist)
qed

section \<open>The operations refine the map\<close>

lemma filter_key:
  "wf_table tbl \<Longrightarrow> filter (\<lambda>r. row_key r = k) tbl = (case table_view tbl k of None \<Rightarrow> [] | Some r \<Rightarrow> [r])"
proof (induction tbl)
  case (Cons x tbl)
  then have wf: "wf_table tbl" "row_key x \<notin> set (map row_key tbl)" by (auto simp: wf_table_def)
  show ?case
  proof (cases "row_key x = k")
    case True
    then have "table_view tbl k = None" using wf(2) by (simp add: table_view_None)
    then show ?thesis using Cons.IH wf(1) True by (simp add: table_view_Cons)
  next
    case False
    then show ?thesis using Cons.IH wf(1) by (simp add: table_view_Cons)
  qed
qed (simp add: table_view_Nil)

lemma matches_key: "matches (key_selects q s k) r \<longleftrightarrow> row_key r = (q, s, k)"
  by (auto simp: matches_def key_selects_def no_selects_def one_of_def above_def below_def at_least_def row_key_def)

lemma select_key: "select (key_selects q s k) = Inr (\<lambda>r. row_key r = (q, s, k))"
  by (auto simp: select_def key_selects_def no_selects_def crossed_def unquoted_def matches_key [unfolded key_selects_def no_selects_def, symmetric]
      simp flip: matches_key)

lemma sort_key_short: "length xs \<le> 1 \<Longrightarrow> sort_key f xs = xs"
  by (cases xs) auto

lemma search_key:
  "wf_table tbl \<Longrightarrow> sql_search tbl None (key_selects q s k) = Inr (case table_view tbl (q, s, k) of None \<Rightarrow> [] | Some r \<Rightarrow> [r])"
  by (simp add: sql_search_def select_key filter_key sort_key_short split: option.splits)

lemma sql_get_view:
  "wf_table tbl \<Longrightarrow> sql_get tbl q s k = (case table_view tbl (q, s, k) of None \<Rightarrow> Inl NotFoundError | Some r \<Rightarrow> Inr r)"
  by (simp add: sql_get_def search_key single_def split: option.splits)

lemma sql_pop_view:
  assumes "wf_table tbl"
  shows "sql_pop tbl q s k =
    (case table_view tbl (q, s, k) of None \<Rightarrow> Inl NotFoundError | Some r \<Rightarrow> Inr (r, row_remove (q, s, k) tbl))"
proof (cases "table_view tbl (q, s, k)")
  case None
  then show ?thesis using assms by (simp add: sql_pop_def sql_delete_def search_key single_def)
next
  case (Some r)
  then have "row_key r = (q, s, k)" using assms by (simp add: table_view_Some)
  then show ?thesis using Some assms filter_key [OF assms, of "(q, s, k)"]
    by (simp add: sql_pop_def sql_delete_def search_key single_def row_remove_def)
qed

text \<open>The row a push leaves under its key.\<close>

definition fresh_row :: "int \<Rightarrow> task \<Rightarrow> task_row" where
  "fresh_row now t =
     \<lparr>r_queue = t_queue t, r_sub = t_sub t, r_key = t_key t, r_iat = or_default now (t_iat t), r_nbf = or_default now (t_nbf t),
      r_attempts = or_default 0 (t_attempts t),
      r_reason = (case t_reason t of None \<Rightarrow> None | Some s \<Rightarrow> if s = [] then None else Some s), r_payload = t_payload t\<rparr>"

definition upsert :: "int \<Rightarrow> task \<Rightarrow> task_row option \<Rightarrow> task_row" where
  "upsert now t old = (case old of None \<Rightarrow> fresh_row now t | Some r \<Rightarrow> set_columns (task_columns t) r)"

lemma row_key_set_columns [simp]: "row_key (set_columns c r) = row_key r"
  by (simp add: row_key_def set_columns_def)

lemma row_key_upsert:
  assumes "wf_table tbl"
  shows "row_key (upsert now t (table_view tbl (task_key t))) = task_key t"
proof (cases "table_view tbl (task_key t)")
  case None
  then show ?thesis by (simp add: upsert_def fresh_row_def row_key_def task_key_def)
next
  case (Some r)
  then have "row_key r = task_key t" using assms table_view_Some by blast
  then show ?thesis using Some by (simp add: upsert_def)
qed

lemma or_default_changed: "or_default x (changed x c) = or_default x c"
  by (simp add: changed_def or_default_def split: option.splits)

lemma set_columns_needs_update: "set_columns (needs_update r c) r = set_columns c r"
  by (simp add: set_columns_def needs_update_def or_default_changed)

lemma set_columns_nothing: "nothing_to_update (needs_update r c) \<Longrightarrow> set_columns c r = r"
  using set_columns_needs_update [of r c] by (simp add: nothing_to_update_def set_columns_def or_default_def)

lemma set_columns_same:
  assumes "set_columns c r = r"
  shows "nothing_to_update (needs_update r c)"
proof -
  have "or_default (r_iat r) (c_iat c) = r_iat r" using arg_cong [OF assms, of r_iat] by (simp add: set_columns_def)
  moreover have "or_default (r_nbf r) (c_nbf c) = r_nbf r" using arg_cong [OF assms, of r_nbf] by (simp add: set_columns_def)
  moreover have "or_default (r_attempts r) (c_attempts c) = r_attempts r" using arg_cong [OF assms, of r_attempts] by (simp add: set_columns_def)
  moreover have "or_default (r_reason r) (c_reason c) = r_reason r" using arg_cong [OF assms, of r_reason] by (simp add: set_columns_def)
  moreover have "or_default (r_payload r) (c_payload c) = r_payload r" using arg_cong [OF assms, of r_payload] by (simp add: set_columns_def)
  ultimately show ?thesis by (auto simp: nothing_to_update_def needs_update_def changed_def or_default_def split: option.splits)
qed

lemma row_put_same: "wf_table tbl \<Longrightarrow> table_view tbl k = Some r \<Longrightarrow> row_put k r tbl = tbl"
  by (auto simp: row_put_def table_view_Some wf_table_def distinct_map inj_on_def intro!: map_idI)

lemma push_task_view:
  assumes "wf_table tbl"
  shows "\<exists>ret. push_task now t tbl = Inr (ret, row_put (task_key t) (upsert now t (table_view tbl (task_key t))) tbl) \<and>
    (ret = None \<longleftrightarrow> table_view tbl (task_key t) = Some (upsert now t (table_view tbl (task_key t))))"
proof (cases "table_view tbl (task_key t)")
  case None
  then have new: "task_key t \<notin> set (map row_key tbl)" by (simp add: table_view_None)
  have "row_key (fresh_row now t) = task_key t" by (simp add: fresh_row_def row_key_def task_key_def)
  moreover have "sql_insert now (t_queue t) (t_sub t) (t_key t) (task_columns t) tbl = Inr (fresh_row now t, tbl @ [fresh_row now t])"
    using new calculation
    by (auto simp: sql_insert_def Let_def fresh_row_def task_columns_def or_default_def row_key_def task_key_def
        split: option.splits)
  ultimately show ?thesis using None new assms
    by (simp add: push_task_def sql_push_def sql_get_view task_key_def upsert_def row_put_def)
next
  case (Some r)
  have get: "sql_get tbl (t_queue t) (t_sub t) (t_key t) = Inr r" using Some assms by (simp add: sql_get_view task_key_def)
  show ?thesis
  proof (cases "nothing_to_update (needs_update r (task_columns t))")
    case True
    then show ?thesis using get Some row_put_same [OF assms Some]
      by (simp add: push_task_def sql_push_def Let_def upsert_def set_columns_nothing)
  next
    case False
    have upd: "sql_update (t_queue t) (t_sub t) (t_key t) (needs_update r (task_columns t)) tbl =
        Inr (upsert now t (Some r), row_put (task_key t) (upsert now t (Some r)) tbl)"
    proof -
      have "map (\<lambda>x. if row_key x = task_key t then set_columns (needs_update r (task_columns t)) x else x) tbl =
          map (\<lambda>x. if row_key x = task_key t then upsert now t (Some r) else x) tbl"
        using Some assms by (intro map_cong refl) (auto simp: upsert_def set_columns_needs_update table_view_Some wf_table_def distinct_map inj_on_def)
      moreover have "task_key t \<in> set (map row_key tbl)" using Some table_view_None [of tbl "task_key t"] by simp
      ultimately show ?thesis using filter_key [OF assms, of "task_key t"] Some
        by (simp add: sql_update_def task_key_def single_def row_put_def upsert_def set_columns_needs_update)
    qed
    have "set_columns (task_columns t) r \<noteq> r" using False set_columns_same by blast
    then show ?thesis using get False upd Some by (simp add: push_task_def sql_push_def Let_def upsert_def)
  qed
qed


definition example_task :: task where
  "example_task = mk_task ''hr'' ''42'' None (Some 100) None (Some 3) (Some ''event'') None"

definition example_table :: "task_row list" where
  "example_table = [fresh_row 50 example_task, fresh_row 60 (example_task\<lparr>t_key := ''43'', t_nbf := Some 90\<rparr>)]"

lemma wf_example_table: "wf_table example_table"
  by code_simp


text \<open>
  Popping a task gives the entry stored under its key and removes that entry only; without such an
  entry it raises \<^verbatim>\<open>NotFoundError\<close>.
\<close>

theorem pop_task_refines:
  assumes "wf_table tbl"
  shows "case table_view tbl (queue, sub, key) of
      None \<Rightarrow> pop_task tbl queue sub key = Inl NotFoundError
    | Some r \<Rightarrow> \<exists>tbl'. pop_task tbl queue sub key = Inr (db_row_to_task r, tbl') \<and> wf_table tbl' \<and>
        table_view tbl' = (table_view tbl)((queue, sub, key) := None)"
  using tasks.wf_remove [OF assms, of "(queue, sub, key)"] tasks.view_remove [OF assms, of "(queue, sub, key)"]
  by (simp add: pop_task_def sql_pop_view [OF assms] split: option.splits)

theorem pop_task_refines_witness:
  "case table_view example_table (''hr'', [], ''42'') of
      None \<Rightarrow> pop_task example_table ''hr'' [] ''42'' = Inl NotFoundError
    | Some r \<Rightarrow> \<exists>tbl'. pop_task example_table ''hr'' [] ''42'' = Inr (db_row_to_task r, tbl') \<and> wf_table tbl' \<and>
        table_view tbl' = (table_view example_table)((''hr'', [], ''42'') := None)"
  by (rule pop_task_refines [OF wf_example_table])

definition due_selects :: "string list option \<Rightarrow> string list option \<Rightarrow> int option \<Rightarrow> int option \<Rightarrow> selects" where
  "due_selects queues subs nbf max_attempts =
     no_selects\<lparr>s_queues := queues, s_subs := subs, s_nbf_before := nbf, s_max_attempts := max_attempts\<rparr>"

lemma sort_key_take1:
  assumes "xs \<noteq> []"
  shows "\<exists>x. take 1 (sort_key f xs) = [x] \<and> x \<in> set xs \<and> (\<forall>y \<in> set xs. f x \<le> f y)"
proof -
  obtain x ys where s: "sort_key f xs = x # ys" using assms by (metis length_0_conv length_sort neq_Nil_conv)
  have "sorted (map f (x # ys))" using sorted_sort_key [of f xs] s by simp
  moreover have "set (x # ys) = set xs" using set_sort [of f xs] s by simp
  ultimately show ?thesis using s by (intro exI [of _ x]) auto
qed

text \<open>
  C30: given one to eight queues and sub-queues, or any, \<^verbatim>\<open>pop_next_task\<close> takes an entry that meets the conditions and comes first in the order
  (not-before time, queue, sub-queue, issue time) among all that do, and removes that entry only; it raises
  \<^verbatim>\<open>NotFoundError\<close> exactly when no entry meets the conditions.
\<close>

theorem pop_next_task_first:
  assumes "wf_table tbl" "queues \<noteq> Some []" "subs \<noteq> Some []" "\<not> unquoted queues" "\<not> unquoted subs"
  shows "if \<exists>r \<in> set tbl. matches (due_selects queues subs nbf max_attempts) r
    then \<exists>r tbl'. pop_next_task tbl queues subs nbf max_attempts = Inr (db_row_to_task r, tbl') \<and>
      r \<in> set tbl \<and> matches (due_selects queues subs nbf max_attempts) r \<and>
      (\<forall>x \<in> set tbl. matches (due_selects queues subs nbf max_attempts) x \<longrightarrow> row_order r \<le> row_order x) \<and>
      wf_table tbl' \<and> table_view tbl' = (table_view tbl)(row_key r := None)
    else pop_next_task tbl queues subs nbf max_attempts = Inl NotFoundError"
proof -
  let ?s = "due_selects queues subs nbf max_attempts"
  let ?m = "filter (matches ?s) tbl"
  have sel: "sql_search tbl (Some 1) ?s = Inr (take 1 (sort_key row_order ?m))"
    using assms(2-5) by (simp add: sql_search_def select_def due_selects_def no_selects_def crossed_def unquoted_def split: option.splits)
  show ?thesis
  proof (cases "?m = []")
    case True
    then have "\<not> (\<exists>r \<in> set tbl. matches ?s r)" by (simp add: filter_empty_conv)
    then show ?thesis using sel True
      by (simp add: pop_next_task_def sql_pop_next_def sql_delete_def single_def due_selects_def)
  next
    case False
    obtain r where r: "take 1 (sort_key row_order ?m) = [r]" "r \<in> set ?m" "\<forall>y \<in> set ?m. row_order r \<le> row_order y"
      using sort_key_take1 [OF False] by blast
    have "table_view tbl (row_key r) = Some r" using assms(1) r(2) by (simp add: table_view_Some)
    then have "filter (\<lambda>x. row_key x = row_key r) tbl = [r]" using filter_key [OF assms(1)] by simp
    then have pop: "pop_next_task tbl queues subs nbf max_attempts = Inr (db_row_to_task r, row_remove (row_key r) tbl)"
      using sel unfolding r(1)
      by (simp add: pop_next_task_def sql_pop_next_def sql_delete_def single_def due_selects_def row_remove_def)
    show ?thesis using pop r(2,3) tasks.wf_remove [OF assms(1)] tasks.view_remove [OF assms(1)] by auto
  qed
qed

theorem pop_next_task_first_witness:
  "\<exists>r tbl'. pop_next_task example_table (Some [''hr'']) None (Some 200) (Some 20) = Inr (db_row_to_task r, tbl') \<and>
      r \<in> set example_table \<and> matches (due_selects (Some [''hr'']) None (Some 200) (Some 20)) r \<and>
      (\<forall>x \<in> set example_table. matches (due_selects (Some [''hr'']) None (Some 200) (Some 20)) x \<longrightarrow> row_order r \<le> row_order x) \<and>
      wf_table tbl' \<and> table_view tbl' = (table_view example_table)(row_key r := None)"
proof -
  have "\<exists>r \<in> set example_table. matches (due_selects (Some [''hr'']) None (Some 200) (Some 20)) r" by code_simp
  then show ?thesis using pop_next_task_first [OF wf_example_table, of "Some [''hr'']" None "Some 200" "Some 20"] by (simp add: unquoted_def)
qed

text \<open>The dictionary form of a task carries all of it.\<close>

theorem from_to_dict: "from_dict (to_dict t) = Inr t"
  by (cases t) (auto simp: from_dict_def to_dict_def get_str_def get_int_def get_payload_def mk_task_def split: option.splits)

end
