(* ===== verification/Task_Processor.thy ===== *)
theory Task_Processor
  imports Task_Queue Py_Strings
begin

text \<open>
  Retrying tasks: \<^verbatim>\<open>Cerebrum/utils/backoff.py\<close>, and \<^verbatim>\<open>queue_handler.py\<close> and \<^verbatim>\<open>queue_processor.py\<close>
  of \<^verbatim>\<open>Cerebrum/modules/tasks\<close>. The work a queue does on a task is the argument \<open>callback\<close>: it reads and
  changes the database and returns the tasks that follow, or raises. A database is the task table with
  the rest of the data, \<open>'d\<close>, which nothing here looks at.
\<close>

section \<open>Backoff\<close>

text \<open>Values are numbers, and time spans in seconds.\<close>

datatype transform =
    Linear
  | Exponential int
  | Factor int
  | Truncate int

fun apply_transform :: "transform \<Rightarrow> int \<Rightarrow> int" where
  "apply_transform Linear step = max 1 step"
| "apply_transform (Exponential base) step = base ^ nat (max 0 (step - 1))"
| "apply_transform (Factor factor) val = factor * val"
| "apply_transform (Truncate maxval) val = min maxval val"

definition backoff :: "transform list \<Rightarrow> int \<Rightarrow> int" where
  "backoff transforms step = foldl (\<lambda>val callback. apply_transform callback val) step transforms"

text \<open>A sixteenth of an hour, doubled with every attempt, up to twelve hours.\<close>

definition default_retry_delay :: "int \<Rightarrow> int" where
  "default_retry_delay = backoff [Exponential 2, Factor (3600 div 16), Truncate (12 * 3600)]"

section \<open>Queue handlers\<close>

record 'd database =
  db_tasks :: "task_row list"
  db_rest :: 'd

type_synonym 'd callback = "'d database \<Rightarrow> task \<Rightarrow> (string + 'd database \<times> task list)"

record queue_handler =
  qh_queue :: string
  qh_retry_sub :: "string option"
  qh_max_attempts :: int
  qh_get_retry_delay :: "int \<Rightarrow> int"

definition default_handler :: "string \<Rightarrow> queue_handler" where
  "default_handler queue =
     \<lparr>qh_queue = queue, qh_retry_sub = None, qh_max_attempts = 20, qh_get_retry_delay = default_retry_delay\<rparr>"

text \<open>\<^verbatim>\<open>a or b\<close> on an optional string.\<close>

definition or_str :: "string option \<Rightarrow> string \<Rightarrow> string" where
  "or_str a b = (case a of None \<Rightarrow> b | Some s \<Rightarrow> if s = [] then b else s)"

definition get_retry_task :: "queue_handler \<Rightarrow> (int \<Rightarrow> string) \<Rightarrow> int \<Rightarrow> task \<Rightarrow> string \<Rightarrow> task res" where
  "get_retry_task h fmt now t error =
     res_bind (copy_task t) (\<lambda>retry.
       case t_attempts t of
         None \<Rightarrow> Inl TypeError
       | Some n \<Rightarrow>
           Inr (retry\<lparr>t_queue := qh_queue h, t_sub := or_str (qh_retry_sub h) (t_sub t), t_attempts := Some (n + 1),
                      t_nbf := Some (now + qh_get_retry_delay h (n + 1)),
                      t_reason := Some (''retry: failed_at='' @ fmt now @ '' error='' @ error)\<rparr>))"

fun push_tasks :: "int \<Rightarrow> task list \<Rightarrow> task_row list \<Rightarrow> task_row list res" where
  "push_tasks now [] tbl = Inr tbl"
| "push_tasks now (t # ts) tbl = res_bind (push_task now t tbl) (\<lambda>(_, tbl'). push_tasks now ts tbl')"

text \<open>\<^verbatim>\<open>handle_task\<close>: an exception of the callback or of a push is the left value.\<close>

definition handle_task :: "'d callback \<Rightarrow> int \<Rightarrow> 'd database \<Rightarrow> task \<Rightarrow> (string + 'd database)" where
  "handle_task callback now db t =
     (case callback db t of
        Inl e \<Rightarrow> Inl e
      | Inr (db1, next_tasks) \<Rightarrow>
          (case push_tasks now next_tasks (db_tasks db1) of
             Inl _ \<Rightarrow> Inl ''push failed''
           | Inr tbl \<Rightarrow> Inr (db1\<lparr>db_tasks := tbl\<rparr>)))"

definition get_queue_counts :: "queue_handler \<Rightarrow> int option \<Rightarrow> 'd database \<Rightarrow> ((string \<times> string) \<times> nat) list res" where
  "get_queue_counts h min_attempts db =
     sql_get_subqueue_counts (db_tasks db) (no_selects\<lparr>s_queues := Some [qh_queue h], s_min_attempts := min_attempts\<rparr>)"

definition get_abandoned_counts :: "queue_handler \<Rightarrow> 'd database \<Rightarrow> ((string \<times> string) \<times> nat) list res" where
  "get_abandoned_counts h db =
     res_bind (get_queue_counts h (Some (qh_max_attempts h)) db) (\<lambda>cs. Inr (filter (\<lambda>(_, n). n > 1) cs))"

section \<open>The processor\<close>

definition select_tasks :: "queue_handler \<Rightarrow> int \<Rightarrow> nat option \<Rightarrow> 'd database \<Rightarrow> task list res" where
  "select_tasks h nbf_before limit db =
     search_tasks (db_tasks db) limit
       (no_selects\<lparr>s_queues := Some [qh_queue h], s_nbf_before := Some nbf_before, s_max_attempts := Some (qh_max_attempts h)\<rparr>)"

text \<open>\<^verbatim>\<open>db_context\<close>: the new state is kept when the block ends normally and this is no dry run.\<close>

definition db_context :: "bool \<Rightarrow> 'd database \<Rightarrow> 'd database \<Rightarrow> 'd database" where
  "db_context dryrun before after = (if dryrun then before else after)"

text \<open>
  \<^verbatim>\<open>process_task\<close>; the result says whether the task was still there. The three transactions follow
  each other, and an exception of the handler rolls its transaction back.
\<close>

definition process_task ::
  "bool \<Rightarrow> queue_handler \<Rightarrow> 'd callback \<Rightarrow> (int \<Rightarrow> string) \<Rightarrow> int \<Rightarrow> task \<Rightarrow> 'd database \<Rightarrow> ('d database \<times> bool) res" where
  "process_task dryrun h callback fmt now t db =
     (case pop_task (db_tasks db) (t_queue t) (t_sub t) (t_key t) of
        Inl NotFoundError \<Rightarrow> Inr (db, False)
      | Inl e \<Rightarrow> Inl e
      | Inr (_, tbl1) \<Rightarrow>
          (let db1 = db_context dryrun db (db\<lparr>db_tasks := tbl1\<rparr>)
           in case handle_task callback now db1 t of
                Inr db2 \<Rightarrow> Inr (db_context dryrun db1 db2, True)
              | Inl e \<Rightarrow>
                  res_bind (get_retry_task h fmt now t e) (\<lambda>retry.
                    res_bind (push_task now retry (db_tasks db1)) (\<lambda>(_, tbl2).
                      Inr (db_context dryrun db1 (db1\<lparr>db_tasks := tbl2\<rparr>), True)))))"

text \<open>The loop of the import scripts over the selected tasks.\<close>

fun process_tasks ::
  "bool \<Rightarrow> queue_handler \<Rightarrow> 'd callback \<Rightarrow> (int \<Rightarrow> string) \<Rightarrow> int \<Rightarrow> task list \<Rightarrow> 'd database \<Rightarrow> 'd database res" where
  "process_tasks dryrun h callback fmt now [] db = Inr db"
| "process_tasks dryrun h callback fmt now (t # ts) db =
     res_bind (process_task dryrun h callback fmt now t db) (\<lambda>(db', _). process_tasks dryrun h callback fmt now ts db')"

section \<open>Delays\<close>

text \<open>Steps that never shrink: the bases and factors are positive.\<close>

fun growing :: "transform \<Rightarrow> bool" where
  "growing Linear = True"
| "growing (Exponential b) = (1 \<le> b)"
| "growing (Factor f) = (0 \<le> f)"
| "growing (Truncate m) = True"

lemma transform_mono: "growing tr \<Longrightarrow> x \<le> y \<Longrightarrow> apply_transform tr x \<le> apply_transform tr y"
  by (cases tr) (auto intro: power_increasing mult_left_mono nat_mono)

text \<open>A backoff made of growing steps never asks for a shorter wait at a later step.\<close>

theorem backoff_mono:
  assumes "\<forall>tr \<in> set trs. growing tr" "m \<le> n"
  shows "backoff trs m \<le> backoff trs n"
  using assms
proof (induction trs arbitrary: m n)
  case (Cons tr trs)
  have "apply_transform tr m \<le> apply_transform tr n" using Cons.prems by (simp add: transform_mono)
  then show ?case using Cons.IH [of "apply_transform tr m" "apply_transform tr n"] Cons.prems by (simp add: backoff_def)
qed (simp add: backoff_def)

theorem backoff_mono_witness: "backoff [Exponential 3, Factor 40, Truncate 5] 2 \<le> backoff [Exponential 3, Factor 40, Truncate 5] 7"
  by (rule backoff_mono) simp_all

text \<open>
  The default delay after the n-th failed attempt is 225 seconds doubled n - 1 times, but at most
  twelve hours, which it reaches with the ninth attempt.
\<close>

theorem default_retry_delay_value:
  "default_retry_delay n = min 43200 (225 * 2 ^ nat (max 0 (n - 1))) \<and>
   (default_retry_delay n = 43200 \<longleftrightarrow> 9 \<le> n)"
proof -
  have v: "default_retry_delay n = min 43200 (225 * 2 ^ nat (max 0 (n - 1)))"
    by (simp add: default_retry_delay_def backoff_def)
  have "43200 \<le> 225 * (2::int) ^ nat (max 0 (n - 1)) \<longleftrightarrow> 9 \<le> n"
  proof
    assume "9 \<le> n"
    then have "(2::int) ^ 8 \<le> 2 ^ nat (max 0 (n - 1))" by (intro power_increasing) auto
    then show "43200 \<le> 225 * (2::int) ^ nat (max 0 (n - 1))" by simp
  next
    assume a: "43200 \<le> 225 * (2::int) ^ nat (max 0 (n - 1))"
    show "9 \<le> n"
    proof (rule ccontr)
      assume "\<not> 9 \<le> n"
      then have "(2::int) ^ nat (max 0 (n - 1)) \<le> 2 ^ 7" by (intro power_increasing) auto
      with a show False by simp
    qed
  qed
  then show ?thesis using v by (cases "9 \<le> n") (auto simp: min_def)
qed

section \<open>No task is lost\<close>

text \<open>The key under which a failed task is queued again.\<close>

definition retry_key :: "queue_handler \<Rightarrow> task \<Rightarrow> string \<times> string \<times> string" where
  "retry_key h t = (qh_queue h, or_str (qh_retry_sub h) (t_sub t), t_key t)"

lemma copy_task_id: "copy_task t = Inr t"
  by (cases t) (auto simp: copy_task_def from_dict_def to_dict_def get_str_def get_int_def get_payload_def mk_task_def split: option.splits)

lemma pop_task_view:
  "wf_table tbl \<Longrightarrow> table_view tbl (q, s, k) = Some r \<Longrightarrow> pop_task tbl q s k = Inr (db_row_to_task r, row_remove (q, s, k) tbl)"
  by (simp add: pop_task_def sql_pop_view)

lemma get_retry_task_eq:
  "t_attempts t = Some n \<Longrightarrow> get_retry_task h fmt now t e =
     Inr (t\<lparr>t_queue := qh_queue h, t_sub := or_str (qh_retry_sub h) (t_sub t), t_attempts := Some (n + 1),
            t_nbf := Some (now + qh_get_retry_delay h (n + 1)),
            t_reason := Some (''retry: failed_at='' @ fmt now @ '' error='' @ e)\<rparr>)"
  by (simp add: get_retry_task_def copy_task_id)

lemma upsert_fields:
  "t_attempts t = Some n \<Longrightarrow> r_attempts (upsert now t old) = n"
  "t_nbf t = Some m \<Longrightarrow> r_nbf (upsert now t old) = m"
  "t_payload t = Some p \<Longrightarrow> r_payload (upsert now t old) = Some p"
  by (simp_all add: upsert_def fresh_row_def set_columns_def task_columns_def or_default_def split: option.splits)


definition failing :: "unit callback" where
  "failing db t = Inl ''boom''"

definition example_db :: "unit database" where
  "example_db = \<lparr>db_tasks = example_table, db_rest = ()\<rparr>"


text \<open>A dry run changes nothing in the database, whatever the handler does.\<close>

theorem dryrun_keeps_database:
  assumes "process_task True h callback fmt now t db = Inr (db', found)"
  shows "db' = db"
  using assms
  by (auto simp: process_task_def db_context_def Let_def res_bind_eq_Inr
      split: sum.splits py_error.splits prod.splits)

theorem dryrun_keeps_database_witness:
  "\<exists>db' found. process_task True (default_handler ''hr'') failing (\<lambda>_. []) 200 (db_row_to_task (hd example_table)) example_db = Inr (db', found) \<and>
     db' = example_db"
proof -
  have "is_ok (process_task True (default_handler ''hr'') failing (\<lambda>_. []) 200 (db_row_to_task (hd example_table)) example_db)" by code_simp
  then obtain db' found where r: "process_task True (default_handler ''hr'') failing (\<lambda>_. []) 200 (db_row_to_task (hd example_table)) example_db = Inr (db', found)"
    by (auto simp: is_ok_iff)
  from r dryrun_keeps_database [OF r] show ?thesis by blast
qed

section \<open>Selection and abandonment\<close>

text \<open>
  The processor selects exactly the tasks of its queue that are due and have not used up their
  attempts, in the order of their not-before times, without a limit; a limit keeps the first of them.
\<close>

theorem select_tasks_exact:
  "\<exists>rows. select_tasks h cutoff limit db = Inr (map db_row_to_task (case limit of None \<Rightarrow> rows | Some n \<Rightarrow> take n rows)) \<and>
     set rows = {r \<in> set (db_tasks db). r_queue r = qh_queue h \<and> r_nbf r < cutoff \<and> r_attempts r < qh_max_attempts h} \<and>
     sorted (map r_nbf rows)"
proof -
  let ?s = "no_selects\<lparr>s_queues := Some [qh_queue h], s_nbf_before := Some cutoff, s_max_attempts := Some (qh_max_attempts h)\<rparr>"
  let ?rows = "sort_key row_order (filter (matches ?s) (db_tasks db))"
  have "select ?s = Inr (matches ?s)" by (simp add: select_def no_selects_def crossed_def unquoted_def)
  then have "select_tasks h cutoff limit db = Inr (map db_row_to_task (case limit of None \<Rightarrow> ?rows | Some n \<Rightarrow> take n ?rows))"
    by (simp add: select_tasks_def search_tasks_def sql_search_def Let_def)
  moreover have "set ?rows = {r \<in> set (db_tasks db). r_queue r = qh_queue h \<and> r_nbf r < cutoff \<and> r_attempts r < qh_max_attempts h}"
    by (auto simp: matches_def no_selects_def one_of_def above_def below_def at_least_def)
  moreover have "sorted (map r_nbf ?rows)"
  proof -
    have "sorted (map row_order ?rows)" by (rule sorted_sort_key)
    then have "sorted_wrt (\<lambda>x y. row_order x \<le> row_order y) ?rows" by (simp add: sorted_wrt_map)
    then have "sorted_wrt (\<lambda>x y. r_nbf x \<le> r_nbf y) ?rows"
      by (rule sorted_wrt_mono_rel [rotated]) (auto simp: row_order_def less_eq_prod_def)
    then show ?thesis by (simp add: sorted_wrt_map)
  qed
  ultimately show ?thesis by blast
qed

text \<open>
  Pushing a merged task never delays what is queued already: the entry ends with the earlier of the
  two not-before times. A new task without such a time leaves the old one as it is.
\<close>

theorem merge_never_delays:
  assumes "wf_table tbl" "table_view tbl (task_key t) = Some r"
    "get_task tbl (t_queue t) (t_sub t) (t_key t) = Inr old" "merge_tasks now t old = Inr merged"
  shows "\<exists>ret tbl' row. push_task now' merged tbl = Inr (ret, tbl') \<and> table_view tbl' (task_key t) = Some row \<and>
    r_nbf row = (case t_nbf t of None \<Rightarrow> r_nbf r | Some n \<Rightarrow> min (r_nbf r) n)"
proof -
  have old: "old = Some (db_row_to_task r)"
    using assms(1,2,3) by (simp add: get_task_def find_task_def sql_get_view task_key_def)
  have nbf: "t_nbf (db_row_to_task r) = Some (r_nbf r)" by (simp add: db_row_to_task_def mk_task_def)
  have m: "task_key merged = task_key t"
      "t_nbf merged = (case t_nbf t of None \<Rightarrow> if r_nbf r < now then Some (r_nbf r) else None | Some n \<Rightarrow> Some (min (r_nbf r) n))"
    using assms(4) nbf unfolding old merge_tasks_def
    by (auto simp: Let_def copy_task_id task_key_def split: if_splits option.splits)
  let ?row = "upsert now' merged (Some r)"
  obtain ret where "push_task now' merged tbl = Inr (ret, row_put (task_key t) ?row tbl)"
    using push_task_view [OF assms(1), of now' merged] assms(2) m(1) by auto
  moreover have "table_view (row_put (task_key t) ?row tbl) (task_key t) = Some ?row"
    using tasks.view_put [OF assms(1), of ?row "task_key t"] row_key_upsert [OF assms(1), of now' merged] assms(2) m(1) by simp
  moreover have "r_nbf ?row = (case t_nbf t of None \<Rightarrow> r_nbf r | Some n \<Rightarrow> min (r_nbf r) n)"
    using m(2) by (auto simp: upsert_def set_columns_def task_columns_def or_default_def split: option.splits if_splits)
  ultimately show ?thesis by blast
qed

theorem merge_never_delays_witness:
  "\<exists>ret tbl' row. push_task 120 (example_task\<lparr>t_nbf := Some 100, t_reason := Some ''event''\<rparr>) example_table = Inr (ret, tbl') \<and>
     table_view tbl' (task_key (example_task\<lparr>t_nbf := Some 130\<rparr>)) = Some row \<and>
     r_nbf row = (case t_nbf (example_task\<lparr>t_nbf := Some 130\<rparr>) of None \<Rightarrow> r_nbf (hd example_table) | Some n \<Rightarrow> min (r_nbf (hd example_table)) n)"
proof (rule merge_never_delays [where now = 120 and old = "Some (db_row_to_task (hd example_table))"])
  show "wf_table example_table" by (rule wf_example_table)
  show "table_view example_table (task_key (example_task\<lparr>t_nbf := Some 130\<rparr>)) = Some (hd example_table)" by code_simp
  show "get_task example_table (t_queue (example_task\<lparr>t_nbf := Some 130\<rparr>)) (t_sub (example_task\<lparr>t_nbf := Some 130\<rparr>))
      (t_key (example_task\<lparr>t_nbf := Some 130\<rparr>)) = Inr (Some (db_row_to_task (hd example_table)))" by code_simp
  show "merge_tasks 120 (example_task\<lparr>t_nbf := Some 130\<rparr>) (Some (db_row_to_task (hd example_table))) =
      Inr (example_task\<lparr>t_nbf := Some 100, t_reason := Some ''event''\<rparr>)" by code_simp
qed

text \<open>
  A single abandoned task is not reported. The table holds one task that has used up its attempts,
  and the count of abandoned tasks is empty.
\<close>

theorem single_abandoned_not_counted:
  "get_queue_counts (default_handler ''hr'') (Some 20) \<lparr>db_tasks = [fresh_row 50 (example_task\<lparr>t_attempts := Some 20\<rparr>)], db_rest = ()\<rparr> =
     Inr [((''hr'', []), 1)] \<and>
   get_abandoned_counts (default_handler ''hr'') \<lparr>db_tasks = [fresh_row 50 (example_task\<lparr>t_attempts := Some 20\<rparr>)], db_rest = ()\<rparr> = Inr []"
  by code_simp

end
