(* ===== verification/Fodselsnr.thy ===== *)
theory Fodselsnr
  imports Py_Strings
begin

text \<open>
  Norwegian national identity numbers: \<^verbatim>\<open>Cerebrum/modules/no/fodselsnr.py\<close>. The clock is the
  argument \<open>yy\<close>, the two digits of the current year. \<^verbatim>\<open>InvalidFnrError\<close> is kept apart from the
  \<^verbatim>\<open>ValueError\<close> that \<^verbatim>\<open>int\<close> raises for a character that is no digit.
\<close>

section \<open>Check digits\<close>

abbreviation invalid_fnr :: py_error where
  "invalid_fnr \<equiv> OtherError ''InvalidFnrError''"

definition vekt1 :: "int list" where "vekt1 = [3, 7, 6, 1, 8, 9, 4, 5, 2, 1, 0]"
definition vekt2 :: "int list" where "vekt2 = [5, 4, 3, 2, 7, 6, 5, 4, 3, 2, 1]"

text \<open>The weighted sum of the eleven digits without the one at \<open>idx\<close>; \<open>x\<close> is the running position.\<close>

fun weighted_sum :: "nat \<Rightarrow> nat \<Rightarrow> int list \<Rightarrow> string \<Rightarrow> int res" where
  "weighted_sum idx x [] nr = Inr 0"
| "weighted_sum idx x (v # vs) [] = (if x = idx then weighted_sum idx (Suc x) vs [] else Inl IndexError)"
| "weighted_sum idx x (v # vs) (c # cs) =
     (if x = idx then weighted_sum idx (Suc x) vs cs
      else if is_digit c then res_bind (weighted_sum idx (Suc x) vs cs) (\<lambda>s. Inr (int (digit_val c) * v + s))
      else Inl ValueError)"

definition set_control :: "nat \<Rightarrow> int list \<Rightarrow> string \<Rightarrow> string res" where
  "set_control idx vekt nr =
     res_bind (weighted_sum idx 0 vekt nr) (\<lambda>s.
       let kontroll = (11 - s mod 11) mod 11
       in if kontroll < 0 \<or> kontroll \<ge> 10 then Inl invalid_fnr
          else if idx < length nr then Inr (nr[idx := digit_char (nat kontroll)]) else Inl IndexError)"

definition beregn_sjekksum :: "string \<Rightarrow> string res" where
  "beregn_sjekksum fnr = res_bind (set_control 9 vekt1 fnr) (set_control 10 vekt2)"

section \<open>Dates\<close>

definition leap_year :: "int \<Rightarrow> bool" where
  "leap_year y \<longleftrightarrow> y mod 4 = 0 \<and> y mod 100 \<noteq> 0 \<or> y mod 400 = 0"

definition mdays :: "int \<Rightarrow> int \<Rightarrow> int" where
  "mdays y m =
     (if m = 2 then (if leap_year y then 29 else 28)
      else if m = 4 \<or> m = 6 \<or> m = 9 \<or> m = 11 then 30 else 31)"

definition is_legal_date :: "int \<Rightarrow> int \<Rightarrow> int \<Rightarrow> bool" where
  "is_legal_date y m d = (if d < 1 then False else if m < 1 \<or> m > 12 then False else \<not> d > mdays y m)"

section \<open>Validation\<close>

definition canonical :: "string \<Rightarrow> string" where
  "canonical nr =
     (let s = filter (\<lambda>c. \<not> is_space c \<and> c \<noteq> CHR ''-'') nr
      in if length s = 10 then CHR ''0'' # s else s)"

definition slice :: "nat \<Rightarrow> nat \<Rightarrow> string \<Rightarrow> int" where
  "slice i j s = int (nat_of_digits (take (j - i) (drop i s)))"

text \<open>The century: by the clock for numbers with a month above 50, else by the individual number.\<close>

definition full_year :: "int \<Rightarrow> bool \<Rightarrow> int \<Rightarrow> int \<Rightarrow> int" where
  "full_year yy so_number year pnr =
     (if so_number then (if yy + 1 \<le> year \<and> year \<le> 99 then year + 1900 else year + 2000)
      else if 0 \<le> pnr \<and> pnr \<le> 499 then year + 1900
      else if 500 \<le> pnr \<and> pnr \<le> 999 \<and> year \<le> 39 then year + 2000
      else if 900 \<le> pnr \<and> pnr \<le> 999 \<and> year \<ge> 40 then year + 1900
      else if 500 \<le> pnr \<and> pnr \<le> 749 then year + 1800
      else year)"

definition birth_date :: "int \<Rightarrow> string \<Rightarrow> int \<times> int \<times> int" where
  "birth_date yy nr =
     (let day = slice 0 2 nr; month = slice 2 4 nr; year = slice 4 6 nr; pnr = slice 6 9 nr;
          day1 = (if day > 40 then day - 40 else day);
          so_number = (month > 50);
          month1 = (if so_number then month - 50 else month)
      in (full_year yy so_number year pnr, month1, day1))"

definition is_00x00 :: "string \<Rightarrow> bool" where
  "is_00x00 nr \<longleftrightarrow>
     length nr \<ge> 5 \<and> (case drop (length nr - 5) nr of
       [a, b, x, c, d] \<Rightarrow> a = CHR ''0'' \<and> b = CHR ''0'' \<and> is_digit x \<and> c = CHR ''0'' \<and> d = CHR ''0''
     | _ \<Rightarrow> False)"

text \<open>\<^verbatim>\<open>personnr_ok\<close> with both of its results: the number and the date.\<close>

definition personnr_parse :: "int \<Rightarrow> bool \<Rightarrow> string \<Rightarrow> (string \<times> int \<times> int \<times> int) res" where
  "personnr_parse yy accept_00x00 input =
     (let nr = canonical input
      in if length nr \<noteq> 11 then Inl invalid_fnr
         else res_bind (beregn_sjekksum nr) (\<lambda>sjekk.
           if nr \<noteq> sjekk then Inl invalid_fnr
           else if \<not> accept_00x00 \<and> is_00x00 nr then Inl invalid_fnr
           else case birth_date yy nr of (y, m, d) \<Rightarrow>
             if \<not> is_legal_date y m d then Inl invalid_fnr else Inr (nr, y, m, d)))"

definition personnr_ok :: "int \<Rightarrow> bool \<Rightarrow> string \<Rightarrow> string res" where
  "personnr_ok yy accept_00x00 nr = res_bind (personnr_parse yy accept_00x00 nr) (\<lambda>r. Inr (fst r))"

definition fodt_dato :: "int \<Rightarrow> string \<Rightarrow> (int \<times> int \<times> int) res" where
  "fodt_dato yy nr = res_bind (personnr_parse yy True nr) (\<lambda>r. Inr (snd r))"

definition er_mann :: "int \<Rightarrow> string \<Rightarrow> bool res" where
  "er_mann yy nr = res_bind (personnr_ok yy True nr) (\<lambda>s. Inr (digit_val (s ! 8) mod 2 = 1))"

definition er_kvinne :: "int \<Rightarrow> string \<Rightarrow> bool res" where
  "er_kvinne yy nr = res_bind (er_mann yy nr) (\<lambda>b. Inr (\<not> b))"

definition del_fnr :: "int \<Rightarrow> string \<Rightarrow> (int \<times> int) res" where
  "del_fnr yy nr = res_bind (personnr_ok yy True nr) (\<lambda>s. Inr (slice 0 6 s, slice 6 11 s))"

definition del_fnr_4 :: "int \<Rightarrow> string \<Rightarrow> (int \<times> int \<times> int \<times> int) res" where
  "del_fnr_4 yy nr =
     res_bind (personnr_ok yy True nr) (\<lambda>s. Inr (slice 0 2 s, slice 2 4 s, slice 4 6 s, slice 6 11 s))"

section \<open>The check digits make the weighted sums divisible by eleven\<close>

text \<open>The weighted sum over all positions.\<close>

definition control_sum :: "int list \<Rightarrow> string \<Rightarrow> int" where
  "control_sum vekt nr = sum_list (map2 (\<lambda>v c. int (digit_val c) * v) vekt nr)"

definition digits11 :: "string \<Rightarrow> bool" where
  "digits11 nr \<longleftrightarrow> length nr = 11 \<and> list_all is_digit nr"

lemma length_vekt: "length vekt1 = 11" "length vekt2 = 11"
  by (simp_all add: vekt1_def vekt2_def)

lemma weighted_sum_eq:
  "length vs = length nr \<Longrightarrow> (\<forall>i < length nr. x + i \<noteq> idx \<longrightarrow> is_digit (nr ! i)) \<Longrightarrow>
     weighted_sum idx x vs nr = Inr (control_sum vs nr - (if x \<le> idx \<and> idx < x + length nr
       then int (digit_val (nr ! (idx - x))) * vs ! (idx - x) else 0))"
proof (induction idx x vs nr rule: weighted_sum.induct)
  case (3 idx x v vs c cs)
  have d: "\<forall>i < length cs. Suc x + i \<noteq> idx \<longrightarrow> is_digit (cs ! i)"
    using "3.prems"(2) by (metis Suc_less_eq add_Suc add_Suc_right length_Cons nth_Cons_Suc)
  show ?case
  proof (cases "x = idx")
    case True
    then show ?thesis using 3 d by (simp add: control_sum_def)
  next
    case False
    then have "is_digit c" using "3.prems"(2) by force
    moreover have "idx - Suc x = idx - x - 1" by simp
    ultimately show ?thesis using False 3 d
      by (cases "idx - x") (auto simp: control_sum_def nth_Cons')
  qed
qed (auto simp: control_sum_def)

lemma weighted_sum_digits:
  "weighted_sum idx x vs nr = Inr s \<Longrightarrow> length vs = length nr \<Longrightarrow> i < length nr \<Longrightarrow> x + i \<noteq> idx \<Longrightarrow> is_digit (nr ! i)"
proof (induction idx x vs nr arbitrary: s i rule: weighted_sum.induct)
  case (3 idx x v vs c cs)
  show ?case
  proof (cases i)
    case 0
    then show ?thesis using "3.prems" by (auto split: if_splits)
  next
    case (Suc j)
    then have j: "j < length cs" "Suc x + j \<noteq> idx" "length vs = length cs" using "3.prems" by auto
    show ?thesis
    proof (cases "x = idx")
      case True
      then show ?thesis using "3.IH"(1) [OF True, of s j] "3.prems"(1) j Suc by simp
    next
      case False
      then obtain s' where "is_digit c" "weighted_sum idx (Suc x) vs cs = Inr s'"
        using "3.prems"(1) by (auto simp: res_bind_eq_Inr split: if_splits)
      then show ?thesis using "3.IH"(2) [OF False, of s' j] j Suc by simp
    qed
  qed
qed auto

lemma control_sum_update:
  "length vs = length nr \<Longrightarrow> i < length nr \<Longrightarrow>
     control_sum vs (nr[i := c]) = control_sum vs nr + (int (digit_val c) - int (digit_val (nr ! i))) * vs ! i"
proof (induction vs nr arbitrary: i rule: list_induct2')
  case (4 v vs a nr)
  then show ?case by (cases i) (simp_all add: control_sum_def algebra_simps)
qed auto

lemma control_digit:
  fixes s d :: int
  assumes "0 \<le> d" "d < 10"
  shows "(11 - s mod 11) mod 11 = d \<longleftrightarrow> (s + d) mod 11 = 0"
proof -
  define m where "m = s mod 11"
  have m: "0 \<le> m" "m < 11" by (simp_all add: m_def)
  have "(s + d) mod 11 = (m + d) mod 11" by (simp add: m_def mod_add_left_eq)
  also have "\<dots> = (if m + d < 11 then m + d else m + d - 11)"
    using m assms mod_pos_pos_trivial [of "m + d - 11" 11] by (auto simp: minus_mod_self2)
  finally have l: "(s + d) mod 11 = (if m + d < 11 then m + d else m + d - 11)" .
  have "(11 - m) mod 11 = (if m = 0 then 0 else 11 - m)" 
  proof (cases "m = 0")
    case False
    then have "(11 - m) mod 11 = 11 - m" using m by (intro mod_pos_pos_trivial) simp_all
    then show ?thesis using False by simp
  qed simp
  then show ?thesis using l m assms unfolding m_def [symmetric] by auto
qed

lemma set_control_iff:
  assumes "length nr = 11" "length vs = 11" "idx < 11" "vs ! idx = 1" "\<forall>i < 11. i \<noteq> idx \<longrightarrow> is_digit (nr ! i)"
  shows "set_control idx vs nr = Inr r \<longleftrightarrow> (\<exists>d < 10. r = nr[idx := digit_char d] \<and> control_sum vs r mod 11 = 0)"
proof -
  define s where "s = control_sum vs nr - int (digit_val (nr ! idx))"
  define k where "k = (11 - s mod 11) mod 11"
  have ws: "weighted_sum idx 0 vs nr = Inr s"
    using assms by (subst weighted_sum_eq) (auto simp: s_def)
  have k: "0 \<le> k" by (simp add: k_def)
  have set: "set_control idx vs nr = (if k \<ge> 10 then Inl invalid_fnr else Inr (nr[idx := digit_char (nat k)]))"
    using ws assms(1,3) k by (simp add: set_control_def Let_def k_def)
  have sum: "control_sum vs (nr[idx := digit_char d]) = s + int d" if "d < 10" for d
    using that assms by (simp add: control_sum_update s_def)
  have ex: "\<exists>d < 10. nr[idx := digit_char (nat k)] = nr[idx := digit_char d] \<and> control_sum vs (nr[idx := digit_char (nat k)]) mod 11 = 0" if "k < 10"
    using that k sum [of "nat k"] control_digit [of k s] by (intro exI [of _ "nat k"]) (auto simp: k_def)
  have uniq: "k < 10 \<and> nr[idx := digit_char d] = nr[idx := digit_char (nat k)]"
    if "d < 10" "control_sum vs (nr[idx := digit_char d]) mod 11 = 0" for d
  proof -
    have "k = int d" using that sum control_digit [of "int d" s] by (simp add: k_def)
    then show ?thesis using that by simp
  qed
  show ?thesis
  proof
    assume "set_control idx vs nr = Inr r"
    then have "k < 10" "r = nr[idx := digit_char (nat k)]" using set by (auto split: if_splits)
    then show "\<exists>d < 10. r = nr[idx := digit_char d] \<and> control_sum vs r mod 11 = 0" using ex [OF \<open>k < 10\<close>] by metis
  next
    assume "\<exists>d < 10. r = nr[idx := digit_char d] \<and> control_sum vs r mod 11 = 0"
    then obtain d where d: "d < 10" "r = nr[idx := digit_char d]" "control_sum vs r mod 11 = 0"
      by (elim exE conjE) (rule that)
    have "k < 10" "nr[idx := digit_char d] = nr[idx := digit_char (nat k)]"
      using uniq [OF d(1)] d(3) unfolding d(2) by blast+
    then show "set_control idx vs nr = Inr r" unfolding set d(2) by simp
  qed
qed

lemma set_control_digits:
  assumes "set_control idx vs nr = Inr r" "length nr = 11" "length vs = 11" "i < 11" "i \<noteq> idx"
  shows "is_digit (nr ! i)"
  using assms weighted_sum_digits [of idx 0 vs nr] by (auto simp: set_control_def res_bind_eq_Inr)

text \<open>The two sums that a correct number satisfies.\<close>

definition sums_ok :: "string \<Rightarrow> bool" where
  "sums_ok nr \<longleftrightarrow> control_sum vekt1 nr mod 11 = 0 \<and> control_sum vekt2 nr mod 11 = 0"

lemma beregn_sjekksum_iff:
  assumes "length nr = 11"
  shows "beregn_sjekksum nr = Inr r \<longleftrightarrow>
    (\<forall>i < 11. i \<noteq> 9 \<longrightarrow> is_digit (nr ! i)) \<and> (\<exists>d < 10. \<exists>e < 10. r = nr[9 := digit_char d, 10 := digit_char e] \<and> sums_ok r)"
    (is "?L \<longleftrightarrow> ?D \<and> ?R")
proof -
  have v: "vekt1 ! 9 = 1" "vekt2 ! 10 = 1" "vekt1 ! 10 = 0" by (simp_all add: vekt1_def vekt2_def)
  have step1: "set_control 9 vekt1 nr = Inr r1 \<longleftrightarrow> (\<exists>d < 10. r1 = nr[9 := digit_char d] \<and> control_sum vekt1 r1 mod 11 = 0)" if ?D for r1
    using that v assms by (intro set_control_iff) (auto simp: length_vekt)
  have step2: "set_control 10 vekt2 r1 = Inr r \<longleftrightarrow> (\<exists>e < 10. r = r1[10 := digit_char e] \<and> control_sum vekt2 r mod 11 = 0)"
    if ?D "r1 = nr[9 := digit_char d]" "d < 10" for r1 d
    using that v assms by (intro set_control_iff) (auto simp: length_vekt nth_list_update)
  have same: "control_sum vekt1 (nr[9 := c, 10 := c']) = control_sum vekt1 (nr[9 := c])" for c c'
    using v assms by (subst control_sum_update) (simp_all add: length_vekt)
  show ?thesis
  proof
    assume L: ?L
    then obtain r1 where r1: "set_control 9 vekt1 nr = Inr r1" "set_control 10 vekt2 r1 = Inr r"
      by (auto simp: beregn_sjekksum_def res_bind_eq_Inr)
    have D: ?D using set_control_digits [OF r1(1) assms] by (simp add: length_vekt)
    then show "?D \<and> ?R" using r1 step1 step2 same by (fastforce simp: sums_ok_def)
  next
    assume R: "?D \<and> ?R"
    then obtain d e where de: "d < 10" "e < 10" "r = nr[9 := digit_char d, 10 := digit_char e]" "sums_ok r" by blast
    have "set_control 9 vekt1 nr = Inr (nr[9 := digit_char d])" using step1 R de same by (auto simp: sums_ok_def)
    moreover have "set_control 10 vekt2 (nr[9 := digit_char d]) = Inr r" using step2 R de by (auto simp: sums_ok_def)
    ultimately show ?L by (simp add: beregn_sjekksum_def)
  qed
qed

lemma list_update_digit: "i < length nr \<Longrightarrow> nr = nr[i := digit_char d] \<Longrightarrow> d < 10 \<Longrightarrow> is_digit (nr ! i)"
  by (metis is_digit_digit_char nth_list_update_eq)

lemma beregn_fixpoint:
  assumes "length nr = 11"
  shows "beregn_sjekksum nr = Inr nr \<longleftrightarrow> list_all is_digit nr \<and> sums_ok nr"
proof
  assume "beregn_sjekksum nr = Inr nr"
  then obtain d e where de: "\<forall>i < 11. i \<noteq> 9 \<longrightarrow> is_digit (nr ! i)" "d < 10" "nr = nr[9 := digit_char d, 10 := digit_char e]" "sums_ok nr"
    using beregn_sjekksum_iff [OF assms] by blast
  have "nr ! 9 = nr[9 := digit_char d, 10 := digit_char e] ! 9" using de(3) by simp
  then have "is_digit (nr ! 9)" using de(2) assms by simp
  then have "\<forall>i < length nr. is_digit (nr ! i)" using de(1) assms by metis
  then show "list_all is_digit nr \<and> sums_ok nr" using de(4) by (simp add: list_all_length)
next
  assume *: "list_all is_digit nr \<and> sums_ok nr"
  then have dig: "\<forall>i < 11. is_digit (nr ! i)" using assms by (simp add: list_all_length)
  have "nr = nr[9 := digit_char (digit_val (nr ! 9)), 10 := digit_char (digit_val (nr ! 10))]"
    using dig assms by simp
  moreover have "digit_val (nr ! 9) < 10" "digit_val (nr ! 10) < 10" using dig digit_val_less by simp_all
  ultimately show "beregn_sjekksum nr = Inr nr" using beregn_sjekksum_iff [OF assms, of nr] dig * by metis
qed

section \<open>Properties\<close>

text \<open>What a valid number is, in terms of the number alone.\<close>

definition valid_fnr :: "int \<Rightarrow> string \<Rightarrow> bool" where
  "valid_fnr yy nr \<longleftrightarrow> digits11 nr \<and> sums_ok nr \<and> \<not> is_00x00 nr \<and> (case birth_date yy nr of (y, m, d) \<Rightarrow> is_legal_date y m d)"

text \<open>What the code accepts: the check digits of the form DDMMYY00X00 are not passed over.\<close>

definition accepted_fnr :: "int \<Rightarrow> bool \<Rightarrow> string \<Rightarrow> bool" where
  "accepted_fnr yy accept_00x00 nr \<longleftrightarrow>
     digits11 nr \<and> sums_ok nr \<and> (accept_00x00 \<or> \<not> is_00x00 nr) \<and> (case birth_date yy nr of (y, m, d) \<Rightarrow> is_legal_date y m d)"

lemma personnr_parse_iff:
  "personnr_parse yy acc input = Inr (nr, date) \<longleftrightarrow>
     nr = canonical input \<and> date = birth_date yy nr \<and> accepted_fnr yy acc nr"
proof (cases "length (canonical input) = 11")
  case True
  obtain y m d where b: "birth_date yy (canonical input) = (y, m, d)" by (cases "birth_date yy (canonical input)")
  show ?thesis
    using True b beregn_fixpoint [OF True]
    by (auto simp: personnr_parse_def Let_def accepted_fnr_def digits11_def res_bind_eq_Inr split: if_splits)
next
  case False
  then show ?thesis by (auto simp: personnr_parse_def Let_def accepted_fnr_def digits11_def)
qed

lemma personnr_ok_valid: "personnr_ok yy acc input = Inr nr \<longleftrightarrow> nr = canonical input \<and> accepted_fnr yy acc nr"
  by (auto simp: personnr_ok_def res_bind_eq_Inr personnr_parse_iff)

text \<open>
  C33: \<open>personnr_ok\<close> that does not accept the form DDMMYY00X00 accepts exactly the inputs whose canonical form (blanks and dashes
  removed, a lost leading zero restored) has eleven digits, satisfies both weighted sums modulo eleven, is not of that form and
  has a legal birth date; it returns that form. The same holds of \<open>personnr_ok\<close> that accepts it, and of the date \<open>fodt_dato\<close> returns, for inputs of any
  other form.
\<close>

theorem personnr_ok_iff:
  "(personnr_ok yy False input = Inr nr \<longleftrightarrow> nr = canonical input \<and> valid_fnr yy nr) \<and>
   (\<not> is_00x00 (canonical input) \<longrightarrow>
     (personnr_ok yy True input = Inr nr \<longleftrightarrow> nr = canonical input \<and> valid_fnr yy nr) \<and>
     (fodt_dato yy input = Inr date \<longleftrightarrow> date = birth_date yy (canonical input) \<and> valid_fnr yy (canonical input)))"
  by (auto simp: personnr_ok_valid fodt_dato_def res_bind_eq_Inr personnr_parse_iff accepted_fnr_def valid_fnr_def)

theorem personnr_ok_iff_witness:
  "\<not> is_00x00 (canonical ''1 0180 - 00136'') \<and> personnr_ok 24 True ''1 0180 - 00136'' = Inr ''01018000136'' \<and> valid_fnr 24 ''01018000136''"
proof -
  have "\<not> is_00x00 (canonical ''1 0180 - 00136'')" "personnr_ok 24 True ''1 0180 - 00136'' = Inr ''01018000136''" by code_simp+
  then show ?thesis using personnr_ok_iff [of 24 "''1 0180 - 00136''" "''01018000136''"] by blast
qed

lemma digit_no_sep: "is_digit c \<Longrightarrow> \<not> is_space c \<and> c \<noteq> CHR ''-''"
  by (auto simp: is_digit_def is_space_def)

lemma canonical_digits:
  assumes "digits11 nr"
  shows "canonical nr = nr"
proof -
  have "filter (\<lambda>c. \<not> is_space c \<and> c \<noteq> CHR ''-'') nr = nr"
    using assms digit_no_sep by (auto simp: digits11_def list_all_iff filter_id_conv)
  then show ?thesis using assms by (simp add: canonical_def Let_def digits11_def)
qed

text \<open>Validation is idempotent: an accepted number is accepted again, unchanged.\<close>

theorem personnr_ok_idem:
  assumes "personnr_ok yy acc input = Inr nr"
  shows "personnr_ok yy acc nr = Inr nr"
  using assms canonical_digits by (auto simp: personnr_ok_valid accepted_fnr_def)

theorem personnr_ok_idem_witness: "personnr_ok 24 True ''01018000136'' = Inr ''01018000136''"
  by (rule personnr_ok_idem [of _ _ "''1 0180 - 00136''"]) code_simp

text \<open>Weights of the second sum: no small multiple, and no difference of neighbours, vanishes modulo eleven.\<close>

lemma small_multiples:
  "list_all (\<lambda>w. list_all (\<lambda>x. x = 0 \<or> x * w mod 11 \<noteq> 0) [-9..9]) vekt2"
  "list_all (\<lambda>w. list_all (\<lambda>x. x = 0 \<or> x * w mod 11 \<noteq> 0) [-9..9]) (map2 (-) vekt2 (tl vekt2))"
  by code_simp+

lemma list_all_nth: "list_all P xs \<Longrightarrow> i < length xs \<Longrightarrow> P (xs ! i)"
  by (simp add: list_all_length)

lemma list_all_upto:
  fixes x :: int
  assumes "list_all (\<lambda>x. x = 0 \<or> Q x) [a..b]" "a \<le> x" "x \<le> b" "x \<noteq> 0"
  shows "Q x"
proof -
  have "x \<in> set [a..b]" using assms(2,3) by simp
  then have "x = 0 \<or> Q x" using assms(1) unfolding list_all_iff by (rule bspec [rotated])
  then show ?thesis using assms(4) by simp
qed

lemma vekt2_multiple:
  fixes x :: int
  assumes "i < 11" "-9 \<le> x" "x \<le> 9" "x \<noteq> 0"
  shows "x * vekt2 ! i mod 11 \<noteq> 0"
proof -
  have "list_all (\<lambda>x. x = 0 \<or> x * vekt2 ! i mod 11 \<noteq> 0) [-9..9]"
    using assms(1) length_vekt(2) by (intro list_all_nth [OF small_multiples(1)]) simp
  then show ?thesis using assms(2-4) by (rule list_all_upto)
qed

lemma vekt2_neighbours:
  fixes x :: int
  assumes "i < 10" "-9 \<le> x" "x \<le> 9" "x \<noteq> 0"
  shows "x * (vekt2 ! i - vekt2 ! Suc i) mod 11 \<noteq> 0"
proof -
  have "map2 (-) vekt2 (tl vekt2) ! i = vekt2 ! i - vekt2 ! Suc i" using assms(1) by (simp add: length_vekt nth_tl)
  moreover have "i < length (map2 (-) vekt2 (tl vekt2))" using assms(1) by (simp add: length_vekt)
  ultimately have "list_all (\<lambda>x. x = 0 \<or> x * (vekt2 ! i - vekt2 ! Suc i) mod 11 \<noteq> 0) [-9..9]"
    using list_all_nth [OF small_multiples(2), of i] by (simp only:)
  then show ?thesis using assms(2-4) by (rule list_all_upto)
qed

lemma digit_diff:
  assumes "is_digit c" "is_digit d" "c \<noteq> d"
  shows "-9 \<le> int (digit_val c) - int (digit_val d)" "int (digit_val c) - int (digit_val d) \<le> 9"
    "int (digit_val c) - int (digit_val d) \<noteq> 0"
proof -
  show "-9 \<le> int (digit_val c) - int (digit_val d)" "int (digit_val c) - int (digit_val d) \<le> 9"
    using digit_val_less [OF assms(1)] digit_val_less [OF assms(2)] by linarith+
  have "digit_val c \<noteq> digit_val d" using assms digit_char_digit_val by metis
  then show "int (digit_val c) - int (digit_val d) \<noteq> 0" by simp
qed

lemma digits11_update: "digits11 nr \<Longrightarrow> is_digit c \<Longrightarrow> digits11 (nr[i := c])"
  using set_update_subset_insert [of nr i c] by (auto simp: digits11_def list_all_iff)

lemma mod_add_zero: "(a::int) mod 11 = 0 \<Longrightarrow> (a + b) mod 11 = 0 \<Longrightarrow> b mod 11 = 0"
  by (metis add.left_neutral mod_add_left_eq)

text \<open>Changing a single digit of a valid number to another digit always gives a number that is refused.\<close>

theorem single_digit_error_detected:
  assumes "personnr_ok yy acc nr = Inr nr" "i < 11" "is_digit c" "c \<noteq> nr ! i"
  shows "\<not> is_ok (personnr_ok yy' acc' (nr[i := c]))"
proof
  assume "is_ok (personnr_ok yy' acc' (nr[i := c]))"
  then have "sums_ok (canonical (nr[i := c]))" by (auto simp: is_ok_iff personnr_ok_valid accepted_fnr_def)
  moreover have nr: "digits11 nr" "sums_ok nr" using assms(1) by (auto simp: personnr_ok_valid accepted_fnr_def)
  moreover have "digits11 (nr[i := c])" using nr(1) assms(3) by (rule digits11_update)
  ultimately have "control_sum vekt2 nr mod 11 = 0"
      "(control_sum vekt2 nr + (int (digit_val c) - int (digit_val (nr ! i))) * vekt2 ! i) mod 11 = 0"
    using assms(2) by (simp_all add: canonical_digits sums_ok_def digits11_def control_sum_update length_vekt)
  then have "(int (digit_val c) - int (digit_val (nr ! i))) * vekt2 ! i mod 11 = 0" by (rule mod_add_zero)
  moreover have "is_digit (nr ! i)" using nr(1) assms(2) by (simp add: digits11_def list_all_length)
  ultimately show False using vekt2_multiple [OF assms(2) digit_diff [OF assms(3) _ assms(4)]] by simp
qed

theorem single_digit_error_detected_witness: "\<not> is_ok (personnr_ok 24 True (''01018000136''[4 := CHR ''7'']))"
proof (rule single_digit_error_detected)
  show "personnr_ok 24 True ''01018000136'' = Inr ''01018000136''" by code_simp
qed (simp_all add: is_digit_def)

text \<open>Exchanging two different neighbouring digits of a valid number always gives a number that is refused.\<close>

theorem transposition_detected:
  assumes "personnr_ok yy acc nr = Inr nr" "i < 10" "nr ! i \<noteq> nr ! Suc i"
  shows "\<not> is_ok (personnr_ok yy' acc' (nr[i := nr ! Suc i, Suc i := nr ! i]))"
proof
  let ?s = "nr[i := nr ! Suc i, Suc i := nr ! i]"
  let ?x = "int (digit_val (nr ! Suc i)) - int (digit_val (nr ! i))"
  assume "is_ok (personnr_ok yy' acc' ?s)"
  then have "sums_ok (canonical ?s)" by (auto simp: is_ok_iff personnr_ok_valid accepted_fnr_def)
  moreover have nr: "digits11 nr" "sums_ok nr" using assms(1) by (auto simp: personnr_ok_valid accepted_fnr_def)
  have dig: "is_digit (nr ! i)" "is_digit (nr ! Suc i)" using nr(1) assms(2) by (simp_all add: digits11_def list_all_length)
  have "digits11 ?s" using nr(1) dig by (intro digits11_update)
  moreover have "control_sum vekt2 ?s = control_sum vekt2 nr + ?x * (vekt2 ! i - vekt2 ! Suc i)"
    using nr(1) assms(2) by (simp add: control_sum_update digits11_def length_vekt algebra_simps)
  ultimately have "control_sum vekt2 nr mod 11 = 0" "(control_sum vekt2 nr + ?x * (vekt2 ! i - vekt2 ! Suc i)) mod 11 = 0"
    using nr(2) by (simp_all add: canonical_digits sums_ok_def)
  then have "?x * (vekt2 ! i - vekt2 ! Suc i) mod 11 = 0" by (rule mod_add_zero)
  then show False using vekt2_neighbours [OF assms(2) digit_diff [OF dig(2,1) assms(3) [symmetric]]] by simp
qed

theorem transposition_detected_witness:
  "\<not> is_ok (personnr_ok 24 True (''01018000136''[3 := ''01018000136'' ! Suc 3, Suc 3 := ''01018000136'' ! 3]))"
proof (rule transposition_detected)
  show "personnr_ok 24 True ''01018000136'' = Inr ''01018000136''" by code_simp
qed simp_all

text \<open>
  For the individual numbers 750 to 899 with a year from 40 on no century is found; the number is
  accepted all the same and the birth date comes out in the first century.
\<close>

theorem year_without_century: "fodt_dato 24 ''01024580039'' = Inr (45, 2, 1)"
  by code_simp

text \<open>
  Numbers of the form DDMMYY00X00 are accepted by \<^verbatim>\<open>accept_00x00\<close> only when their checksum is right:
  the flag does not suspend the checksum, as its documentation says, but only the exclusion of the form.
\<close>

theorem accept_00x00_checks_sum:
  "personnr_ok 24 True ''03016300100'' = Inr ''03016300100'' \<and>
   personnr_ok 24 False ''03016300100'' = Inl invalid_fnr \<and>
   personnr_ok 24 True ''04016300100'' = Inl invalid_fnr"
  by code_simp

end
