(* ===== verification/Tree_Model.thy ===== *)
theory Tree_Model
  imports Cere_Prelude "HOL-Library.Multiset"
begin

text \<open>
  The organisation tree of \<^verbatim>\<open>src/Cerebrum/modules/ou_import/tree_model.py\<close>. Nodes are objects that point at
  each other, so the model keeps them in a store from addresses to nodes. The property \<^verbatim>\<open>Node.path\<close> calls
  itself on the parent; its fuel is the interpreter's recursion limit and running out of it is Python's
  \<^verbatim>\<open>RuntimeError\<close>. Python 2 fixes no order on \<^verbatim>\<open>index.values()\<close>: the order is a parameter.

  The development shows that assigning a parent keeps the store a forest (parent and child pointers agree
  and no node is its own ancestor), raises exactly for the assignments that would close a cycle, and that
  \<^verbatim>\<open>build_trees\<close> returns exactly when the parent ids are free of cycles, with every node linked to the node
  its parent id names and every other node a root.
\<close>

section \<open>Nodes\<close>

type_synonym addr = nat

record ('i, 'd) node =
  n_id :: 'i
  n_parent_id :: "'i option"
  n_data :: 'd
  n_parent :: "addr option"
  n_children :: "addr set"

type_synonym ('i, 'd) store = "addr \<Rightarrow> ('i, 'd) node"

definition new_node :: "'i \<Rightarrow> 'i option \<Rightarrow> 'd \<Rightarrow> ('i, 'd) node" where
  "new_node i p d = \<lparr>n_id = i, n_parent_id = p, n_data = d, n_parent = None, n_children = {}\<rparr>"

text \<open>The property \<^verbatim>\<open>path\<close>: the parent, its parent, and so on up to a root.\<close>

fun path :: "nat \<Rightarrow> ('i, 'd) store \<Rightarrow> addr \<Rightarrow> addr list res" where
  "path 0 h a = Inl RuntimeError"
| "path (Suc n) h a =
     (case n_parent (h a) of
        None \<Rightarrow> Inr []
      | Some p \<Rightarrow> res_bind (path n h p) (\<lambda>ps. Inr (p # ps)))"

text \<open>The checks of the setter of \<^verbatim>\<open>parent\<close>, made before anything is changed.\<close>

definition check_parent :: "nat \<Rightarrow> ('i, 'd) store \<Rightarrow> addr \<Rightarrow> addr option \<Rightarrow> unit res" where
  "check_parent limit h self new_parent =
     (case new_parent of
        None \<Rightarrow> Inr ()
      | Some p \<Rightarrow>
          if p = self then Inl AttributeError
          else res_bind (path limit h p) (\<lambda>ps. if self \<in> set ps then Inl AttributeError else Inr ()))"

definition remove_child :: "addr option \<Rightarrow> addr \<Rightarrow> ('i, 'd) store \<Rightarrow> ('i, 'd) store res" where
  "remove_child old self h =
     (case old of
        None \<Rightarrow> Inr h
      | Some q \<Rightarrow>
          if self \<in> n_children (h q) then Inr (h(q := (h q)\<lparr>n_children := n_children (h q) - {self}\<rparr>))
          else Inl KeyError)"

definition add_child :: "addr option \<Rightarrow> addr \<Rightarrow> ('i, 'd) store \<Rightarrow> ('i, 'd) store" where
  "add_child new_parent self h =
     (case new_parent of
        None \<Rightarrow> h
      | Some p \<Rightarrow> h(p := (h p)\<lparr>n_children := insert self (n_children (h p))\<rparr>))"

definition set_pointer :: "addr \<Rightarrow> addr option \<Rightarrow> ('i, 'd) store \<Rightarrow> ('i, 'd) store" where
  "set_pointer self new_parent h = h(self := (h self)\<lparr>n_parent := new_parent\<rparr>)"

definition set_parent :: "nat \<Rightarrow> ('i, 'd) store \<Rightarrow> addr \<Rightarrow> addr option \<Rightarrow> ('i, 'd) store res" where
  "set_parent limit h self new_parent =
     res_bind (check_parent limit h self new_parent) (\<lambda>_.
     res_bind (remove_child (n_parent (h self)) self h) (\<lambda>h1.
       Inr (set_pointer self new_parent (add_child new_parent self h1))))"

definition del_parent :: "nat \<Rightarrow> ('i, 'd) store \<Rightarrow> addr \<Rightarrow> ('i, 'd) store res" where
  "del_parent limit h self = set_parent limit h self None"

definition children :: "('i, 'd) store \<Rightarrow> addr \<Rightarrow> addr set" where
  "children h a = n_children (h a)"

section \<open>Function build\_trees\<close>

fun index_nodes :: "('i, 'd) store \<Rightarrow> addr list \<Rightarrow> ('i \<times> addr) list \<Rightarrow> ('i \<times> addr) list" where
  "index_nodes h [] index = index"
| "index_nodes h (a # as) index = index_nodes h as (dict_set (n_id (h a)) a index)"

definition orphan :: "addr \<Rightarrow> ('i, 'd) store \<Rightarrow> ('i, 'd) store" where
  "orphan a h = h(a := (h a)\<lparr>n_parent_id := None\<rparr>)"

text \<open>
  The second loop. An exception other than \<^verbatim>\<open>KeyError\<close> leaves it, with the store as it is then; a
  \<^verbatim>\<open>KeyError\<close> is taken for a missing parent wherever it comes from.
\<close>

fun link_nodes :: "nat \<Rightarrow> ('i \<times> addr) list \<Rightarrow> addr list \<Rightarrow> ('i, 'd) store \<Rightarrow> addr list \<Rightarrow> ('i, 'd) store \<times> addr list res" where
  "link_nodes limit index [] h roots = (h, Inr roots)"
| "link_nodes limit index (a # as) h roots =
     (case n_parent_id (h a) of
        None \<Rightarrow> link_nodes limit index as h (roots @ [a])
      | Some i \<Rightarrow>
          (case res_bind (dict_get index i) (\<lambda>p. set_parent limit h a (Some p)) of
             Inr h' \<Rightarrow> link_nodes limit index as h' roots
           | Inl e \<Rightarrow>
               if e = KeyError then link_nodes limit index as (orphan a h) (roots @ [a])
               else (h, Inl e)))"

definition build_trees :: "nat \<Rightarrow> (addr list \<Rightarrow> addr list) \<Rightarrow> ('i, 'd) store \<Rightarrow> addr list \<Rightarrow> ('i, 'd) store \<times> addr list res" where
  "build_trees limit order h nodes =
     (let index = index_nodes h nodes [] in link_nodes limit index (order (map snd index)) h [])"

section \<open>Forests\<close>

text \<open>The ancestor edges of a store, and what a well-formed store is.\<close>

definition up :: "('i, 'd) store \<Rightarrow> (addr \<times> addr) set" where
  "up h = {(a, p). n_parent (h a) = Some p}"

definition linked :: "('i, 'd) store \<Rightarrow> bool" where
  "linked h \<longleftrightarrow> (\<forall>a p. a \<in> n_children (h p) \<longleftrightarrow> (a, p) \<in> up h)"

definition forest :: "nat \<Rightarrow> ('i, 'd) store \<Rightarrow> bool" where
  "forest limit h \<longleftrightarrow> linked h \<and> acyclic (up h) \<and> finite (Domain (up h)) \<and> card (Domain (up h)) + 1 < limit"

lemma up_iff [simp]: "(a, p) \<in> up h \<longleftrightarrow> n_parent (h a) = Some p"
  by (simp add: up_def)

lemma ancestors_step: "n_parent (h a) = Some p \<Longrightarrow> (up h)\<^sup>+ `` {a} = insert p ((up h)\<^sup>+ `` {p})"
  by (auto dest: tranclD intro: trancl_into_trancl2 elim: converse_rtranclE simp: rtrancl_eq_or_trancl)

lemma ancestors_root: "n_parent (h a) = None \<Longrightarrow> (up h)\<^sup>+ `` {a} = {}"
  by (auto dest: tranclD)

lemma path_ancestors: "path n h a = Inr ps \<Longrightarrow> set ps = (up h)\<^sup>+ `` {a}"
  by (induction n h a arbitrary: ps rule: path.induct)
    (auto simp: res_bind_eq_Inr ancestors_root ancestors_step split: option.splits)

lemma path_returns:
  assumes "acyclic (up h)" "finite ((up h)\<^sup>+ `` {a})" "card ((up h)\<^sup>+ `` {a}) < n"
  shows "\<exists>ps. path n h a = Inr ps"
  using assms(2,3)
proof (induction n arbitrary: a)
  case (Suc n)
  show ?case
  proof (cases "n_parent (h a)")
    case (Some p)
    have "p \<notin> (up h)\<^sup>+ `` {p}" using assms(1) by (auto simp: acyclic_def)
    then have "finite ((up h)\<^sup>+ `` {p})" "card ((up h)\<^sup>+ `` {p}) < n"
      using Suc.prems by (auto simp: ancestors_step [of h a p, OF Some])
    then show ?thesis using Suc.IH [of p] Some by auto
  qed simp
qed simp

lemma ancestors_finite:
  assumes "finite (Domain (up h))"
  shows "finite ((up h)\<^sup>+ `` {a})" "card ((up h)\<^sup>+ `` {a}) \<le> card (Domain (up h))"
proof -
  have "(up h)\<^sup>+ `` {a} \<subseteq> (\<lambda>b. the (n_parent (h b))) ` Domain (up h)"
  proof
    fix p assume "p \<in> (up h)\<^sup>+ `` {a}"
    then obtain b where "(b, p) \<in> up h" by (auto elim: tranclE)
    then show "p \<in> (\<lambda>b. the (n_parent (h b))) ` Domain (up h)" by force
  qed
  then show "finite ((up h)\<^sup>+ `` {a})" "card ((up h)\<^sup>+ `` {a}) \<le> card (Domain (up h))"
    using assms by (auto intro: finite_subset surj_card_le)
qed

lemma forest_path: "forest limit h \<Longrightarrow> \<exists>ps. path limit h a = Inr ps \<and> set ps = (up h)\<^sup>+ `` {a}"
  using path_returns [of h a limit] ancestors_finite [of h a] path_ancestors [of limit h a]
  by (fastforce simp: forest_def)

text \<open>What an assignment has to respect, and what it does.\<close>

definition may_parent :: "('i, 'd) store \<Rightarrow> addr \<Rightarrow> addr option \<Rightarrow> bool" where
  "may_parent h self new_parent \<longleftrightarrow> (\<forall>p. new_parent = Some p \<longrightarrow> (p, self) \<notin> (up h)\<^sup>*)"

lemma check_parent_iff:
  assumes "forest limit h"
  shows "check_parent limit h self np = (if may_parent h self np then Inr () else Inl AttributeError)"
proof (cases np)
  case (Some p)
  obtain ps where "path limit h p = Inr ps" "set ps = (up h)\<^sup>+ `` {p}" using forest_path [OF assms] by blast
  then show ?thesis using Some by (auto simp: check_parent_def may_parent_def rtrancl_eq_or_trancl)
qed (simp add: check_parent_def may_parent_def)

lemma linked_iff: "linked h \<Longrightarrow> a \<in> n_children (h p) \<longleftrightarrow> n_parent (h a) = Some p"
  by (simp add: linked_def)

lemma remove_child_ok:
  assumes "linked h"
  shows "\<exists>h1. remove_child (n_parent (h self)) self h = Inr h1 \<and> (\<forall>q. n_children (h1 q) = n_children (h q) - {self}) \<and>
    n_parent \<circ> h1 = n_parent \<circ> h \<and> n_id \<circ> h1 = n_id \<circ> h \<and> n_parent_id \<circ> h1 = n_parent_id \<circ> h"
proof (cases "n_parent (h self)")
  case None
  then show ?thesis using assms by (intro exI [of _ h]) (auto simp: remove_child_def linked_def)
next
  case (Some q)
  then have "n_children (h x) - {self} = n_children (h x)" if "x \<noteq> q" for x using assms that by (auto simp: linked_iff)
  then show ?thesis using Some assms
    by (intro exI [of _ "h(q := (h q)\<lparr>n_children := n_children (h q) - {self}\<rparr>)"]) (auto simp: remove_child_def linked_iff)
qed

lemma set_parent_ok:
  assumes "forest limit h" "may_parent h self np"
  shows "\<exists>h'. set_parent limit h self np = Inr h' \<and> linked h' \<and>
    n_parent \<circ> h' = (n_parent \<circ> h)(self := np) \<and> n_id \<circ> h' = n_id \<circ> h \<and> n_parent_id \<circ> h' = n_parent_id \<circ> h"
proof -
  have l: "linked h" using assms(1) by (simp add: forest_def)
  from remove_child_ok [OF this] obtain h1 where h1: "remove_child (n_parent (h self)) self h = Inr h1"
    "\<And>q. n_children (h1 q) = n_children (h q) - {self}" "n_parent \<circ> h1 = n_parent \<circ> h" "n_id \<circ> h1 = n_id \<circ> h"
    "n_parent_id \<circ> h1 = n_parent_id \<circ> h" by blast
  let ?h' = "set_pointer self np (add_child np self h1)"
  have "linked ?h'" "n_parent \<circ> ?h' = (n_parent \<circ> h)(self := np)" "n_id \<circ> ?h' = n_id \<circ> h" "n_parent_id \<circ> ?h' = n_parent_id \<circ> h"
    using h1(2-5) l by (cases np; auto simp: linked_def set_pointer_def add_child_def fun_eq_iff)+
  moreover have "set_parent limit h self np = Inr ?h'"
    using check_parent_iff [OF assms(1), of self np] assms(2) h1(1) by (simp add: set_parent_def)
  ultimately show ?thesis by blast
qed

lemma up_update:
  assumes "n_parent \<circ> h' = (n_parent \<circ> h)(self := np)"
  shows "up h' = {e \<in> up h. fst e \<noteq> self} \<union> (case np of None \<Rightarrow> {} | Some p \<Rightarrow> {(self, p)})"
proof -
  have "n_parent (h' a) = (if a = self then np else n_parent (h a))" for a using assms by (metis comp_apply fun_upd_apply)
  then show ?thesis by (auto split: option.splits if_splits)
qed

lemma acyclic_update:
  assumes "acyclic (up h)" "may_parent h self np" "n_parent \<circ> h' = (n_parent \<circ> h)(self := np)"
  shows "acyclic (up h')"
proof -
  let ?r = "{e \<in> up h. fst e \<noteq> self}"
  have "acyclic ?r" using assms(1) by (rule acyclic_subset) auto
  moreover have "(p, self) \<notin> ?r\<^sup>*" if "np = Some p" for p
    using assms(2) that rtrancl_mono [of ?r "up h"] by (auto simp: may_parent_def)
  ultimately show ?thesis by (auto simp: up_update [OF assms(3)] acyclic_insert split: option.splits)
qed

section \<open>Properties\<close>

text \<open>
  C35: on a forest the setter of \<^verbatim>\<open>parent\<close> raises \<^verbatim>\<open>AttributeError\<close> exactly when the new parent is the node
  itself or one of its descendants; otherwise it changes this one parent, and the store is a forest again
  with parent and child pointers in agreement.
\<close>

theorem set_parent_forest:
  assumes "forest limit h" "card (insert self (Domain (up h))) + 1 < limit"
  shows "if may_parent h self np
    then \<exists>h'. set_parent limit h self np = Inr h' \<and> forest limit h' \<and> n_parent \<circ> h' = (n_parent \<circ> h)(self := np)
    else set_parent limit h self np = Inl AttributeError"
proof (cases "may_parent h self np")
  case True
  from set_parent_ok [OF assms(1) True] obtain h' where h': "set_parent limit h self np = Inr h'" "linked h'"
    "n_parent \<circ> h' = (n_parent \<circ> h)(self := np)" by blast
  have fin: "finite (Domain (up h))" using assms(1) by (simp add: forest_def)
  have "Domain (up h') \<subseteq> insert self (Domain (up h))" by (auto simp: up_update [OF h'(3)] split: option.splits)
  then have "finite (Domain (up h'))" "card (Domain (up h')) \<le> card (insert self (Domain (up h)))"
    using fin by (auto intro: finite_subset card_mono)
  then have "forest limit h'"
    using acyclic_update [OF _ True h'(3)] assms h'(2) by (simp add: forest_def)
  then show ?thesis using True h' by auto
next
  case False
  then show ?thesis using check_parent_iff [OF assms(1), of self np] by (simp add: set_parent_def)
qed

definition two_nodes :: "(nat, unit) store" where
  "two_nodes a = (new_node a None ())\<lparr>n_parent := (if a = 1 then Some 0 else None), n_children := (if a = 0 then {1} else {})\<rparr>"

lemma two_nodes_up: "up two_nodes = {(1, 0)}"
  by (auto simp: two_nodes_def new_node_def split: if_splits)

lemma two_nodes_forest: "forest 100 two_nodes"
  by (auto simp: forest_def two_nodes_up linked_def acyclic_def trancl_insert)
    (auto simp: two_nodes_def new_node_def split: if_splits)

theorem set_parent_forest_witness: "set_parent 100 two_nodes 0 (Some 1) = Inl AttributeError"
proof -
  have "\<not> may_parent two_nodes 0 (Some 1)" by (auto simp: may_parent_def two_nodes_up)
  then show ?thesis using set_parent_forest [OF two_nodes_forest, of 0 "Some 1"] by (simp add: two_nodes_up)
qed

text \<open>The edges the parent ids ask for, on a set of nodes, and the stores of the second loop.\<close>

definition target :: "('i \<times> addr) list \<Rightarrow> ('i, 'd) store \<Rightarrow> addr \<Rightarrow> addr option" where
  "target index h a = (case n_parent_id (h a) of None \<Rightarrow> None | Some i \<Rightarrow> map_of index i)"

definition edges :: "(addr \<Rightarrow> addr option) \<Rightarrow> addr set \<Rightarrow> (addr \<times> addr) set" where
  "edges tgt D = {(a, p). a \<in> D \<and> tgt a = Some p}"

definition built :: "(addr \<Rightarrow> addr option) \<Rightarrow> addr set \<Rightarrow> ('i, 'd) store \<Rightarrow> bool" where
  "built tgt D h \<longleftrightarrow> linked h \<and> n_parent \<circ> h = (\<lambda>a. if a \<in> D then tgt a else None)"

lemma built_parent: "built tgt D h \<Longrightarrow> n_parent (h a) = (if a \<in> D then tgt a else None)"
  by (metis built_def comp_apply)

lemma built_up: "built tgt D h \<Longrightarrow> up h = edges tgt D"
  by (auto simp: edges_def built_parent split: if_splits)

lemma edges_insert: "edges tgt (insert a D) = (case tgt a of None \<Rightarrow> {} | Some p \<Rightarrow> {(a, p)}) \<union> edges tgt D"
  by (auto simp: edges_def split: option.splits)

lemma edges_mono: "D \<subseteq> E \<Longrightarrow> edges tgt D \<subseteq> edges tgt E"
  by (auto simp: edges_def)

lemma built_forest:
  assumes "built tgt D h" "acyclic (edges tgt D)" "finite D" "card D + 1 < limit"
  shows "forest limit h"
proof -
  have "Domain (up h) \<subseteq> D" using assms(1) by (auto simp: built_parent split: if_splits)
  then have "finite (Domain (up h))" "card (Domain (up h)) \<le> card D" using assms(3) by (auto intro: finite_subset card_mono)
  then show ?thesis using assms by (simp add: forest_def built_up) (simp add: built_def)
qed

lemma link_step:
  assumes b: "built tgt D h" and "acyclic (edges tgt D)" "finite D" "card D + 1 < limit" "a \<notin> D" "tgt a = Some p"
  shows "if acyclic (edges tgt (insert a D))
    then \<exists>h'. set_parent limit h a (Some p) = Inr h' \<and> built tgt (insert a D) h' \<and>
      n_id \<circ> h' = n_id \<circ> h \<and> n_parent_id \<circ> h' = n_parent_id \<circ> h
    else set_parent limit h a (Some p) = Inl AttributeError"
proof -
  have f: "forest limit h" using assms by (intro built_forest)
  have "acyclic (edges tgt (insert a D)) \<longleftrightarrow> may_parent h a (Some p)"
    using assms by (simp add: edges_insert acyclic_insert may_parent_def built_up)
  moreover have "set_parent limit h a (Some p) = Inl AttributeError" if "\<not> may_parent h a (Some p)"
    using check_parent_iff [OF f, of a "Some p"] that by (simp add: set_parent_def)
  moreover have "built tgt (insert a D) h'" if "linked h'" "n_parent \<circ> h' = (n_parent \<circ> h)(a := Some p)" for h'
    using that b assms(6) by (auto simp: built_def fun_eq_iff)
  ultimately show ?thesis using set_parent_ok [OF f, of a "Some p"] by auto
qed

lemma built_orphan: "built tgt D h \<Longrightarrow> tgt a = None \<Longrightarrow> built tgt (insert a D) (orphan a h)"
  by (auto simp: built_def orphan_def linked_def fun_eq_iff)

lemma built_root: "built tgt D h \<Longrightarrow> tgt a = None \<Longrightarrow> built tgt (insert a D) h"
  by (auto simp: built_def fun_eq_iff)

lemma link_nodes_result:
  assumes "built tgt D h" "acyclic (edges tgt D)" "finite D" "card (D \<union> set as) + 1 < limit" "distinct as"
    "D \<inter> set as = {}" "\<And>a. a \<in> set as \<Longrightarrow> target index h a = tgt a"
  shows "if acyclic (edges tgt (D \<union> set as))
    then \<exists>h'. link_nodes limit index as h roots = (h', Inr (roots @ filter (\<lambda>a. tgt a = None) as)) \<and>
      built tgt (D \<union> set as) h' \<and> n_id \<circ> h' = n_id \<circ> h
    else \<exists>h'. link_nodes limit index as h roots = (h', Inl AttributeError)"
  using assms
proof (induction as arbitrary: D h roots)
  case (Cons a as)
  have D: "insert a D \<union> set as = D \<union> set (a # as)" "a \<notin> D" "insert a D \<inter> set as = {}" "a \<notin> set as"
    using Cons.prems(5,6) by auto
  have "card D \<le> card (D \<union> set (a # as))" using Cons.prems(3) by (intro card_mono) auto
  then have card: "card D + 1 < limit" using Cons.prems(4) by linarith
  have rest: ?case if step: "link_nodes limit index (a # as) h roots = link_nodes limit index as h1 roots'"
      and h1: "built tgt (insert a D) h1" "n_id \<circ> h1 = n_id \<circ> h" "\<And>x. x \<noteq> a \<Longrightarrow> n_parent_id (h1 x) = n_parent_id (h x)"
      and ac: "acyclic (edges tgt (insert a D))"
      and r: "roots' = roots @ filter (\<lambda>a. tgt a = None) [a]" for h1 roots'
  proof -
    have tg: "target index h1 x = tgt x" if "x \<in> set as" for x
    proof -
      have "x \<noteq> a" using that D(4) by blast
      then show ?thesis using Cons.prems(7) [of x] h1(3) [of x] that by (simp add: target_def)
    qed
    have f: "roots' @ filter (\<lambda>a. tgt a = None) as = roots @ filter (\<lambda>a. tgt a = None) (a # as)" by (simp add: r)
    have fin: "finite (insert a D)" "card (insert a D \<union> set as) + 1 < limit" "distinct as"
      using Cons.prems(3-5) by simp_all
    from Cons.IH [OF h1(1) ac fin D(3) tg, of roots'] show ?thesis unfolding step D(1) h1(2) f .
  qed
  show ?case
  proof (cases "tgt a")
    case None
    have ac: "acyclic (edges tgt (insert a D))" using Cons.prems(2) None by (simp add: edges_insert)
    have "n_parent_id (h a) = None \<or> (\<exists>i. n_parent_id (h a) = Some i \<and> map_of index i = None)"
      using Cons.prems(7) [of a] None by (auto simp: target_def split: option.splits)
    then show ?thesis
    proof (elim disjE exE conjE)
      assume "n_parent_id (h a) = None"
      then show ?thesis using None by (intro rest [of h, OF _ built_root [OF Cons.prems(1) None] _ _ ac]) simp_all
    next
      fix i assume "n_parent_id (h a) = Some i" "map_of index i = None"
      then show ?thesis using None
        by (intro rest [of "orphan a h", OF _ built_orphan [OF Cons.prems(1) None] _ _ ac])
          (simp_all add: orphan_def fun_eq_iff)
    qed
  next
    case (Some p)
    then obtain i where i: "n_parent_id (h a) = Some i" "map_of index i = Some p"
      using Cons.prems(7) [of a] by (auto simp: target_def split: option.splits)
    note step = link_step [OF Cons.prems(1-3) card D(2) Some]
    show ?thesis
    proof (cases "acyclic (edges tgt (insert a D))")
      case True
      with step obtain h' where h': "set_parent limit h a (Some p) = Inr h'" "built tgt (insert a D) h'"
        "n_id \<circ> h' = n_id \<circ> h" "n_parent_id \<circ> h' = n_parent_id \<circ> h" by auto
      show ?thesis
        by (rule rest [OF _ h'(2,3) _ True]) (use i h' Some in \<open>auto simp: fun_eq_iff\<close>)
    next
      case False
      then have "\<not> acyclic (edges tgt (D \<union> set (a # as)))"
        using acyclic_subset edges_mono [of "insert a D" "D \<union> set (a # as)" tgt] by auto
      then show ?thesis using step False i by simp
    qed
  qed
qed (auto simp: built_def)

text \<open>The node that stands for an id is the last one given with it.\<close>

definition by_id :: "('i, 'd) store \<Rightarrow> addr list \<Rightarrow> 'i \<Rightarrow> addr option" where
  "by_id h nodes i = find (\<lambda>a. n_id (h a) = i) (rev nodes)"

definition indexed :: "('i, 'd) store \<Rightarrow> addr list \<Rightarrow> addr set" where
  "indexed h nodes = {a \<in> set nodes. by_id h nodes (n_id (h a)) = Some a}"

definition parent_by_id :: "('i, 'd) store \<Rightarrow> addr list \<Rightarrow> addr \<Rightarrow> addr option" where
  "parent_by_id h nodes a = (case n_parent_id (h a) of None \<Rightarrow> None | Some i \<Rightarrow> by_id h nodes i)"

lemma map_of_index: "map_of (index_nodes h as index) i = (case by_id h as i of None \<Rightarrow> map_of index i | Some a \<Rightarrow> Some a)"
  by (induction h as index rule: index_nodes.induct) (auto simp: by_id_def find_append split: option.splits)

lemma distinct_index: "distinct (keys index) \<Longrightarrow> distinct (keys (index_nodes h as index))"
  by (induction h as index rule: index_nodes.induct) (simp_all del: distinct_map map_map)

lemma by_id_SomeD: "by_id h nodes i = Some a \<Longrightarrow> a \<in> set nodes \<and> n_id (h a) = i"
  by (auto simp: by_id_def dest: find_Some_mem)

lemma index_entries:
  fixes h :: "('i, 'd) store" and nodes :: "addr list"
  defines "index \<equiv> index_nodes h nodes []"
  shows "(i, a) \<in> set index \<longleftrightarrow> by_id h nodes i = Some a" "set (map snd index) = indexed h nodes" "distinct (map snd index)"
proof -
  have d: "distinct (keys index)" using distinct_index [of "[]" h nodes] by (simp add: index_def)
  show *: "(i, a) \<in> set index \<longleftrightarrow> by_id h nodes i = Some a" for i a
    using map_of_eq_Some_iff [OF d, of i a] map_of_index [of h nodes "[]" i] by (auto simp: index_def split: option.splits)
  have "a \<in> set (map snd index) \<longleftrightarrow> (\<exists>i. by_id h nodes i = Some a)" for a using * by force
  then show "set (map snd index) = indexed h nodes" by (auto simp: indexed_def dest: by_id_SomeD)
  have "inj_on snd (set index)" using * by (auto simp: inj_on_def dest!: by_id_SomeD)
  then show "distinct (map snd index)" using d by (auto simp: distinct_map)
qed

lemma target_index: "target (index_nodes h nodes []) h = parent_by_id h nodes"
  by (auto simp: fun_eq_iff target_def parent_by_id_def map_of_index split: option.splits)

lemma parent_by_id_indexed: "parent_by_id h nodes a = Some p \<Longrightarrow> p \<in> indexed h nodes"
  by (auto simp: parent_by_id_def indexed_def dest: by_id_SomeD split: option.splits)

lemma path_last: "path n h a = Inr ps \<Longrightarrow> n_parent (h (if ps = [] then a else last ps)) = None"
  by (induction n h a arbitrary: ps rule: path.induct) (auto simp: res_bind_eq_Inr split: option.splits if_splits)

lemma built_reaches_root:
  assumes "built (parent_by_id h nodes) (indexed h nodes) h'" "forest limit h'" "a \<in> indexed h nodes"
  shows "\<exists>ps. path limit h' a = Inr ps \<and> last (a # ps) \<in> {r \<in> indexed h nodes. parent_by_id h nodes r = None}"
proof -
  obtain ps where ps: "path limit h' a = Inr ps" "set ps = (up h')\<^sup>+ `` {a}" using forest_path [OF assms(2)] by blast
  have "p \<in> indexed h nodes" if "(a, p) \<in> (up h')\<^sup>+" for p
  proof -
    from that obtain b where "n_parent (h' b) = Some p" by (auto dest: tranclD2)
    then show ?thesis by (simp add: built_parent [OF assms(1)] parent_by_id_indexed split: if_splits)
  qed
  then have "(up h')\<^sup>+ `` {a} \<subseteq> indexed h nodes" by blast
  then have "last (a # ps) \<in> indexed h nodes" using ps(2) assms(3) last_in_set [of ps] by auto
  then show ?thesis using ps(1) path_last [OF ps(1)] assms(1) by (auto simp: built_parent)
qed

text \<open>
  C7: given new nodes, \<^verbatim>\<open>build_trees\<close> returns exactly when the parent ids contain no cycle, and raises
  \<^verbatim>\<open>AttributeError\<close> otherwise. When it returns, the store is a forest in which every indexed node hangs under
  the node its parent id names, the roots are the nodes whose parent id names none, and every node is
  connected to one of them. Of nodes with the same id the last one counts, whatever order the index has.
\<close>

theorem build_trees_correct:
  assumes "\<And>a. n_parent (h a) = None \<and> n_children (h a) = {}" "card (set nodes) + 1 < limit"
    "\<And>xs. mset (order xs) = mset xs"
  shows "if acyclic (edges (parent_by_id h nodes) (indexed h nodes))
    then \<exists>h' roots. build_trees limit order h nodes = (h', Inr roots) \<and> forest limit h' \<and> distinct roots \<and>
      set roots = {a \<in> indexed h nodes. parent_by_id h nodes a = None} \<and>
      (\<forall>a. n_parent (h' a) = (if a \<in> indexed h nodes then parent_by_id h nodes a else None)) \<and>
      (\<forall>a \<in> indexed h nodes. \<exists>ps. path limit h' a = Inr ps \<and> last (a # ps) \<in> set roots)
    else \<exists>h'. build_trees limit order h nodes = (h', Inl AttributeError)"
proof -
  let ?tgt = "parent_by_id h nodes" and ?A = "indexed h nodes" and ?index = "index_nodes h nodes []"
  let ?as = "order (map snd ?index)"
  have as: "set ?as = ?A" "distinct ?as"
    using index_entries(2,3) [of h nodes] mset_eq_setD [OF assms(3) [of "map snd ?index"]]
      mset_eq_imp_distinct_iff [OF assms(3) [of "map snd ?index"]] by simp_all
  have fin: "finite ?A" "card ?A + 1 < limit"
    using assms(2) card_mono [of "set nodes" ?A] by (auto simp: indexed_def)
  have b: "built ?tgt {} h" using assms(1) by (auto simp: built_def linked_def fun_eq_iff)
  note link = link_nodes_result [OF b _ _ _ as(2), of limit ?index "[]"]
  show ?thesis
  proof (cases "acyclic (edges ?tgt ?A)")
    case True
    with link obtain h' where h': "build_trees limit order h nodes = (h', Inr (filter (\<lambda>a. ?tgt a = None) ?as))" "built ?tgt ?A h'"
      using fin by (auto simp: as edges_def acyclic_def target_index build_trees_def Let_def)
    have f: "forest limit h'" using built_forest [OF h'(2) True fin] .
    show ?thesis
      using True h' f as built_reaches_root [OF h'(2) f] by (auto simp: built_parent)
  next
    case False
    with link show ?thesis using fin by (auto simp: as edges_def acyclic_def target_index build_trees_def Let_def)
  qed
qed

definition three_units :: "(nat, unit) store" where
  "three_units a = new_node a (if a = 0 then Some 7 else Some (a - 1)) ()"

lemma three_units_by_id: "by_id three_units [0, 1, 2] i = (if i < 3 then Some i else None)"
  by (auto simp: by_id_def three_units_def new_node_def)

lemma distinct_singleton: "distinct xs \<Longrightarrow> set xs = {x} \<Longrightarrow> xs = [x]"
  by (cases xs; cases "tl xs") auto

theorem build_trees_correct_witness:
  "\<exists>h'. build_trees 100 rev three_units [0, 1, 2] = (h', Inr [0]) \<and> forest 100 h' \<and> n_parent (h' 2) = Some 1"
proof -
  have A: "indexed three_units [0, 1, 2] = {0, 1, 2}"
    by (auto simp: indexed_def three_units_by_id three_units_def new_node_def simp del: One_nat_def)
  have p: "parent_by_id three_units [0, 1, 2] a = (if 0 < a \<and> a < 4 then Some (a - 1) else None)" for a
    using three_units_by_id [of "a - 1"] three_units_by_id [of 7]
    by (auto simp: parent_by_id_def three_units_def [of a] new_node_def simp del: One_nat_def)
  have "edges (parent_by_id three_units [0, 1, 2]) {0, 1, 2} \<subseteq> less_than\<inverse>"
    by (auto simp: edges_def p simp del: One_nat_def split: if_splits)
  then have ac: "acyclic (edges (parent_by_id three_units [0, 1, 2]) {0, 1, 2})"
    by (rule acyclic_subset [rotated]) (simp add: wf_acyclic)
  have "\<exists>h' roots. build_trees 100 rev three_units [0, 1, 2] = (h', Inr roots) \<and> forest 100 h' \<and> distinct roots \<and>
      set roots = {0} \<and> n_parent (h' 2) = Some 1"
    using build_trees_correct [of three_units "[0, 1, 2]" 100 rev] ac
    by (auto simp: A p three_units_def new_node_def Collect_conv_if simp del: One_nat_def)
  then show ?thesis by (elim exE conjE) (auto dest: distinct_singleton)
qed

end
