(* ===== verification/Org_Unit.thy ===== *)
theory Org_Unit
  imports Py_Strings
begin

text \<open>
  Location codes and the import object of \<^verbatim>\<open>src/Cerebrum/modules/ou_import/ou_model.py\<close>: the three conversions
  between location codes and their parts, \<^verbatim>\<open>PreparedOrgUnit\<close> with its mutators and its dictionary form, and
  \<^verbatim>\<open>OrgUnitMapper.prepare\<close>. The methods a source system overrides are the arguments of \<open>prepare\<close>.

  Shown are the round trips: codes and parts, and a unit through its dictionary form, whatever order the
  dictionaries have; and that a negative number passes for a code.
\<close>

section \<open>Location codes\<close>

text \<open>What the callers hand in: a number, a string or \<^verbatim>\<open>None\<close>.\<close>

datatype code_value = Num int | Str string | Nothing

definition to_int :: "code_value \<Rightarrow> int res" where
  "to_int v =
     (case v of
        Num i \<Rightarrow> Inr i
      | Str s \<Rightarrow> (case py_int s of None \<Rightarrow> Inl ValueError | Some i \<Rightarrow> Inr i)
      | Nothing \<Rightarrow> Inl TypeError)"

definition zfill :: "nat \<Rightarrow> string \<Rightarrow> string" where
  "zfill n s = replicate (n - length s) (CHR ''0'') @ s"

text \<open>\<^verbatim>\<open>format(i, '06d')\<close>: the sign counts towards the width.\<close>

definition format_d :: "nat \<Rightarrow> int \<Rightarrow> string" where
  "format_d n i =
     (if i < 0 then CHR ''-'' # zfill (n - 1) (show_nat (nat (- i))) else zfill n (show_nat (nat i)))"

definition normalize_sko :: "code_value \<Rightarrow> string res" where
  "normalize_sko v =
     (case to_int v of
        Inl e \<Rightarrow> Inl ValueError
      | Inr i \<Rightarrow> let code = format_d 6 i in if length code \<noteq> 6 then Inl ValueError else Inr code)"

definition part :: "nat \<Rightarrow> nat \<Rightarrow> string \<Rightarrow> int res" where
  "part i j code = to_int (Str (take (j - i) (drop i code)))"

definition sko_to_tuple :: "code_value \<Rightarrow> (int \<times> int \<times> int) res" where
  "sko_to_tuple v =
     res_bind (normalize_sko v) (\<lambda>code.
     res_bind (part 0 2 code) (\<lambda>a. res_bind (part 2 4 code) (\<lambda>b. res_bind (part 4 6 code) (\<lambda>c. Inr (a, b, c)))))"

fun ints :: "code_value list \<Rightarrow> int list res" where
  "ints [] = Inr []"
| "ints (v # vs) = res_bind (to_int v) (\<lambda>i. res_bind (ints vs) (\<lambda>is. Inr (i # is)))"

definition tuple_to_sko :: "code_value list \<Rightarrow> string res" where
  "tuple_to_sko value =
     (if length value \<noteq> 3 then Inl ValueError
      else res_bind (ints value) (\<lambda>is.
        if list_ex (\<lambda>v. v < 0 \<or> v > 99) is then Inl ValueError
        else normalize_sko (Str (concat (map (format_d 2) is)))))"

section \<open>The unit to import\<close>

type_synonym ('k, 'v) dict = "('k \<times> 'v) list"

record address =
  address_text :: "string option"
  p_o_box :: "string option"
  postal_number :: "string option"
  city :: "string option"
  country :: "string option"

record org_unit =
  location_code :: string
  is_valid :: bool
  is_visible :: bool
  addresses :: "(string, address) dict"
  contact_info :: "(string, string) dict"
  external_ids :: "(string, string) dict"
  names :: "(string, (string, string) dict) dict"
  usage_codes :: "string set"

datatype location = Code code_value | Parts "code_value list"

definition PreparedOrgUnit :: "location \<Rightarrow> bool \<Rightarrow> bool \<Rightarrow> org_unit res" where
  "PreparedOrgUnit loc valid visible =
     res_bind (case loc of Parts vs \<Rightarrow> tuple_to_sko vs | Code v \<Rightarrow> normalize_sko v) (\<lambda>code.
       Inr \<lparr>location_code = code, is_valid = valid, is_visible = visible, addresses = [], contact_info = [],
            external_ids = [], names = [], usage_codes = {}\<rparr>)"

definition location_t :: "org_unit \<Rightarrow> (int \<times> int \<times> int) res" where
  "location_t u = sko_to_tuple (Str (location_code u))"

text \<open>\<^verbatim>\<open>address_fields.get(f) or None\<close>\<close>

definition get_field :: "(string, string option) dict \<Rightarrow> string \<Rightarrow> string option" where
  "get_field flds f = (case map_of flds f of Some (Some s) \<Rightarrow> if s = [] then None else Some s | _ \<Rightarrow> None)"

definition address_of :: "(string, string option) dict \<Rightarrow> address" where
  "address_of flds =
     \<lparr>address_text = get_field flds ''address_text'', p_o_box = get_field flds ''p_o_box'',
      postal_number = get_field flds ''postal_number'', city = get_field flds ''city'',
      country = get_field flds ''country''\<rparr>"

definition add_address :: "string \<times> (string, string option) dict \<Rightarrow> org_unit \<Rightarrow> org_unit" where
  "add_address a u = u\<lparr>addresses := dict_set (fst a) (address_of (snd a)) (addresses u)\<rparr>"

definition add_contact_info :: "string \<times> string \<Rightarrow> org_unit \<Rightarrow> org_unit" where
  "add_contact_info c u = u\<lparr>contact_info := dict_set (fst c) (snd c) (contact_info u)\<rparr>"

definition add_external_id :: "string \<times> string \<Rightarrow> org_unit \<Rightarrow> org_unit" where
  "add_external_id i u = u\<lparr>external_ids := dict_set (fst i) (snd i) (external_ids u)\<rparr>"

text \<open>\<^verbatim>\<open>setdefault\<close> and an update of the inner dictionary.\<close>

definition put_name :: "string \<times> string \<times> string \<Rightarrow> (string, (string, string) dict) dict \<Rightarrow> (string, (string, string) dict) dict" where
  "put_name nm d =
     (case nm of (name_type, lang, value) \<Rightarrow>
        dict_set name_type (dict_set lang value (case map_of d name_type of None \<Rightarrow> [] | Some inner \<Rightarrow> inner)) d)"

definition add_name :: "string \<times> string \<times> string \<Rightarrow> org_unit \<Rightarrow> org_unit" where
  "add_name nm u = u\<lparr>names := put_name nm (names u)\<rparr>"

definition iter_names :: "org_unit \<Rightarrow> (string \<times> string \<times> string) list" where
  "iter_names u = concat (map (\<lambda>(t, inner). map (\<lambda>(lang, v). (t, lang, v)) inner) (names u))"

definition add_usage_code :: "string \<Rightarrow> org_unit \<Rightarrow> org_unit" where
  "add_usage_code c u = u\<lparr>usage_codes := insert c (usage_codes u)\<rparr>"

text \<open>The sequence of additions \<^verbatim>\<open>prepare\<close> and \<^verbatim>\<open>from_dict\<close> both make.\<close>

definition fill ::
  "(string \<times> (string, string option) dict) list \<Rightarrow> (string \<times> string) list \<Rightarrow> (string \<times> string) list \<Rightarrow>
   (string \<times> string \<times> string) list \<Rightarrow> string list \<Rightarrow> org_unit \<Rightarrow> org_unit" where
  "fill addrs contacts ids nms codes u =
     fold add_usage_code codes (fold add_name nms (fold add_external_id ids
       (fold add_contact_info contacts (fold add_address addrs u))))"

record mapped =
  get_location_code :: location
  m_is_valid :: bool
  m_is_visible :: bool
  get_addresses :: "(string \<times> (string, string option) dict) list"
  get_contact_info :: "(string \<times> string) list"
  get_external_ids :: "(string \<times> string) list"
  get_names :: "(string \<times> string \<times> string) list"
  get_usage :: "string list"

definition prepare :: "mapped \<Rightarrow> org_unit res" where
  "prepare m =
     res_bind (PreparedOrgUnit (get_location_code m) (m_is_valid m) (m_is_visible m)) (\<lambda>u.
       Inr (fill (get_addresses m) (get_contact_info m) (get_external_ids m) (get_names m) (get_usage m) u))"

section \<open>Dictionary form\<close>

text \<open>A missing key is \<open>None\<close>; the values that may be empty are read with \<^verbatim>\<open>d.get(k) or {}\<close>.\<close>

record unit_dict =
  d_location :: "location option"
  d_is_valid :: "bool option"
  d_is_visible :: "bool option"
  d_addresses :: "(string, (string, string option) dict) dict option"
  d_contact_info :: "(string, string) dict option"
  d_external_ids :: "(string, string) dict option"
  d_names :: "(string, (string, string) dict) dict option"
  d_usage_codes :: "string list option"

definition address_dict :: "address \<Rightarrow> (string, string option) dict" where
  "address_dict a =
     [(''address_text'', address_text a), (''p_o_box'', p_o_box a), (''postal_number'', postal_number a),
      (''city'', city a), (''country'', country a)]"

definition nonempty :: "'a list \<Rightarrow> 'a list option" where
  "nonempty xs = (if xs = [] then None else Some xs)"

definition or_nil :: "'a list option \<Rightarrow> 'a list" where
  "or_nil x = (case x of None \<Rightarrow> [] | Some xs \<Rightarrow> xs)"

definition unit_to_dict :: "(string set \<Rightarrow> string list) \<Rightarrow> org_unit \<Rightarrow> unit_dict" where
  "unit_to_dict enum u =
     \<lparr>d_location = Some (Code (Str (location_code u))), d_is_valid = Some (is_valid u), d_is_visible = Some (is_visible u),
      d_addresses = nonempty (map (map_prod id address_dict) (addresses u)),
      d_contact_info = nonempty (contact_info u), d_external_ids = nonempty (external_ids u),
      d_names = nonempty (names u), d_usage_codes = nonempty (enum (usage_codes u))\<rparr>"

definition unit_from_dict :: "unit_dict \<Rightarrow> org_unit res" where
  "unit_from_dict d =
     (case (d_location d, d_is_valid d, d_is_visible d) of
        (Some loc, Some valid, Some visible) \<Rightarrow>
          res_bind (PreparedOrgUnit loc valid visible) (\<lambda>u.
            Inr (fill (or_nil (d_addresses d)) (or_nil (d_contact_info d)) (or_nil (d_external_ids d))
              (concat (map (\<lambda>(t, inner). map (\<lambda>(lang, v). (t, lang, v)) inner) (or_nil (d_names d))))
              (or_nil (d_usage_codes d)) u))
      | _ \<Rightarrow> Inl KeyError)"

section \<open>Codes and parts\<close>

lemma digits_snoc_inj:
  assumes "nat_of_digits (s @ [c]) = nat_of_digits (t @ [d])" "is_digit c" "is_digit d"
  shows "nat_of_digits s = nat_of_digits t \<and> c = d"
proof -
  let ?n = "nat_of_digits s" and ?m = "nat_of_digits t"
  have e: "10 * ?n + digit_val c = 10 * ?m + digit_val d" using assms(1) by (simp add: nat_of_digits_snoc)
  have l: "digit_val c < 10" "digit_val d < 10" using assms(2,3) by simp_all
  have "?n = ?m" "digit_val c = digit_val d" using e l by presburger+
  then show ?thesis using assms(2,3) digit_char_digit_val by metis
qed

lemma digits_inj:
  "length s = length t \<Longrightarrow> list_all is_digit s \<Longrightarrow> list_all is_digit t \<Longrightarrow> nat_of_digits s = nat_of_digits t \<Longrightarrow> s = t"
proof (induction s arbitrary: t rule: rev_induct)
  case (snoc c s)
  then obtain t' d where t: "t = t' @ [d]" by (cases t rule: rev_cases) auto
  show ?case using snoc.prems snoc.IH [of t'] digits_snoc_inj [of s c t' d] by (simp add: t)
qed simp

lemma nat_of_digits_zfill [simp]: "nat_of_digits (zfill n s) = nat_of_digits s"
proof -
  have z: "digit_val CHR ''0'' = 0" by code_simp
  have "foldl (\<lambda>n c. 10 * n + digit_val c) 0 (replicate k CHR ''0'' @ s) = foldl (\<lambda>n c. 10 * n + digit_val c) 0 s" for k
    by (induction k) (simp_all add: z)
  then show ?thesis by (simp add: nat_of_digits_def zfill_def)
qed

lemma digits_zfill [simp]: "list_all is_digit (zfill n s) \<longleftrightarrow> list_all is_digit s"
  by (auto simp: zfill_def list_all_iff is_digit_def)

lemma show_nat_length: "0 < k \<Longrightarrow> length (show_nat n) \<le> k \<longleftrightarrow> n < 10 ^ k"
proof (induction k arbitrary: n)
  case (Suc k)
  show ?case
  proof (cases "n < 10")
    case True
    then show ?thesis using less_le_trans [of n 10 "10 ^ Suc k"] by (simp add: show_nat.simps [of n])
  next
    case False
    then have "length (show_nat n) \<le> Suc k \<longleftrightarrow> length (show_nat (n div 10)) \<le> k" by (simp add: show_nat.simps [of n])
    also have "\<dots> \<longleftrightarrow> 0 < k \<and> n div 10 < 10 ^ k"
      using Suc.IH [of "n div 10"] show_nat_digits [of "n div 10"] by (cases k) auto
    also have "\<dots> \<longleftrightarrow> n < 10 ^ Suc k" using False by (cases k) (simp_all add: less_mult_imp_div_less div_less_iff_less_mult mult.commute)
    finally show ?thesis .
  qed
qed simp

lemma length_zfill: "length (zfill n s) = max n (length s)"
  by (simp add: zfill_def)

text \<open>A string of \<open>k\<close> digits is what formatting its value to that width gives.\<close>

lemma format_digits:
  assumes "list_all is_digit s" "length s = k" "0 < k"
  shows "format_d k (int (nat_of_digits s)) = s"
proof (rule digits_inj)
  have "nat_of_digits s < 10 ^ length s" using assms(1)
  proof (induction s rule: rev_induct)
    case (snoc c s)
    then have "digit_val c < 10" "nat_of_digits s + 1 \<le> 10 ^ length s" by simp_all
    then show ?case by (simp add: nat_of_digits_snoc)
  qed (simp add: nat_of_digits_def)
  then have "length (show_nat (nat_of_digits s)) \<le> k" using assms(2,3) by (simp add: show_nat_length)
  then show "length (format_d k (int (nat_of_digits s))) = length s" using assms(2) by (simp add: format_d_def length_zfill)
qed (use assms show_nat_digits nat_of_digits_show_nat in \<open>simp_all add: format_d_def\<close>)

lemma to_int_digits: "list_all is_digit s \<Longrightarrow> s \<noteq> [] \<Longrightarrow> to_int (Str s) = Inr (int (nat_of_digits s))"
proof -
  assume s: "list_all is_digit s" "s \<noteq> []"
  then have "strip s = s" by (intro strip_id) (auto simp: list_all_iff)
  then show ?thesis using s digit_not_sign by (cases s) (auto simp: to_int_def py_int_def py_nat_def)
qed

lemma normalize_digits: "list_all is_digit code \<Longrightarrow> length code = 6 \<Longrightarrow> normalize_sko (Str code) = Inr code"
  using to_int_digits [of code] format_digits [of code 6] by (cases code) (simp_all add: normalize_sko_def Let_def)

lemma format_2:
  assumes "0 \<le> a" "a \<le> 99"
  shows "list_all is_digit (format_d 2 a)" "length (format_d 2 a) = 2" "nat_of_digits (format_d 2 a) = nat a"
proof -
  have "length (show_nat (nat a)) \<le> 2" using assms by (simp add: show_nat_length)
  then show "list_all is_digit (format_d 2 a)" "length (format_d 2 a) = 2" "nat_of_digits (format_d 2 a) = nat a"
    using assms show_nat_digits by (simp_all add: format_d_def length_zfill nat_of_digits_show_nat)
qed

lemma list_of_length_6: "length s = 6 \<Longrightarrow> s = take 2 s @ take 2 (drop 2 s) @ take 2 (drop 4 s)"
proof -
  assume "length s = 6"
  then have "take 2 (drop 4 s) = drop 4 s" by simp
  moreover have "drop 2 s = take 2 (drop 2 s) @ drop 4 s" using append_take_drop_id [of 2 "drop 2 s"] by simp
  ultimately show ?thesis using append_take_drop_id [of 2 s] by simp
qed

lemma digits_slice: "list_all is_digit s \<Longrightarrow> list_all is_digit (take n (drop i s))"
  by (auto simp: list_all_iff dest!: in_set_takeD in_set_dropD)

lemma part_digits:
  assumes "list_all is_digit s" "i < length s" "j = i + 2"
  shows "part i j s = Inr (int (nat_of_digits (take 2 (drop i s))))"
proof -
  have "take 2 (drop i s) \<noteq> []" using assms(2) by simp
  from to_int_digits [OF digits_slice [OF assms(1)] this] show ?thesis by (simp add: part_def assms(3))
qed

lemma sko_to_tuple_digits:
  assumes "list_all is_digit s" "length s = 6"
  shows "sko_to_tuple (Str s) =
     Inr (int (nat_of_digits (take 2 s)), int (nat_of_digits (take 2 (drop 2 s))), int (nat_of_digits (take 2 (drop 4 s))))"
proof -
  have "part 0 2 s = Inr (int (nat_of_digits (take 2 s)))" using assms part_digits [of s 0 2] by simp
  moreover have "part 2 4 s = Inr (int (nat_of_digits (take 2 (drop 2 s))))" using assms part_digits [of s 2 4] by simp
  moreover have "part 4 6 s = Inr (int (nat_of_digits (take 2 (drop 4 s))))" by (rule part_digits [OF assms(1)]) (use assms(2) in simp_all)
  ultimately show ?thesis unfolding sko_to_tuple_def using normalize_digits [OF assms] by (simp only: res_bind_Inr)
qed

lemma two_digits_range: "list_all is_digit s \<Longrightarrow> length s = 2 \<Longrightarrow> nat_of_digits s \<le> 99"
proof -
  assume s: "list_all is_digit s" "length s = 2"
  then obtain c d where "s = [c, d]" by (auto simp: numeral_2_eq_2 length_Suc_conv)
  moreover from this s(1) have "is_digit c" "is_digit d" by simp_all
  then have "10 * digit_val c + digit_val d \<le> 99" using digit_val_less [of c] digit_val_less [of d] by linarith
  ultimately show ?thesis by (simp add: nat_of_digits_def)
qed

lemma tuple_to_sko_range:
  assumes "0 \<le> a" "a \<le> 99" "0 \<le> b" "b \<le> 99" "0 \<le> c" "c \<le> 99"
  shows "tuple_to_sko [Num a, Num b, Num c] = Inr (format_d 2 a @ format_d 2 b @ format_d 2 c)"
proof -
  have "normalize_sko (Str (format_d 2 a @ format_d 2 b @ format_d 2 c)) = Inr (format_d 2 a @ format_d 2 b @ format_d 2 c)"
    using format_2 [OF assms(1,2)] format_2 [OF assms(3,4)] format_2 [OF assms(5,6)] by (intro normalize_digits) simp_all
  then show ?thesis using assms by (simp add: tuple_to_sko_def to_int_def)
qed

text \<open>
  Three parts make a location code exactly when the code is a six-digit string that is its own normal
  form and has these parts: packing and unpacking are inverse to each other, and packing accepts the parts
  from 0 to 99 only.
\<close>

theorem sko_bijection:
  "tuple_to_sko [Num a, Num b, Num c] = Inr code \<longleftrightarrow>
     list_all is_digit code \<and> length code = 6 \<and> normalize_sko (Str code) = Inr code \<and> sko_to_tuple (Str code) = Inr (a, b, c)"
proof
  assume t: "tuple_to_sko [Num a, Num b, Num c] = Inr code"
  then have r: "0 \<le> a" "a \<le> 99" "0 \<le> b" "b \<le> 99" "0 \<le> c" "c \<le> 99"
    by (simp_all add: tuple_to_sko_def to_int_def split: if_splits)
  note f = format_2 [OF r(1,2)] format_2 [OF r(3,4)] format_2 [OF r(5,6)]
  have code: "code = format_d 2 a @ format_d 2 b @ format_d 2 c" using t tuple_to_sko_range [OF r] by simp
  then have "list_all is_digit code" "length code = 6" using f by simp_all
  then show "list_all is_digit code \<and> length code = 6 \<and> normalize_sko (Str code) = Inr code \<and> sko_to_tuple (Str code) = Inr (a, b, c)"
    using r f by (simp add: normalize_digits sko_to_tuple_digits) (simp add: code)
next
  assume "list_all is_digit code \<and> length code = 6 \<and> normalize_sko (Str code) = Inr code \<and> sko_to_tuple (Str code) = Inr (a, b, c)"
  then have code: "list_all is_digit code" "length code = 6" and t: "sko_to_tuple (Str code) = Inr (a, b, c)" by auto
  have dig: "list_all is_digit (take 2 code)" "list_all is_digit (take 2 (drop 2 code))" "list_all is_digit (take 2 (drop 4 code))"
    using code(1) by (auto simp: list_all_iff dest: in_set_takeD in_set_dropD)
  have abc: "a = int (nat_of_digits (take 2 code))" "b = int (nat_of_digits (take 2 (drop 2 code)))"
      "c = int (nat_of_digits (take 2 (drop 4 code)))"
    using t sko_to_tuple_digits [OF code] by simp_all
  have "format_d 2 a @ format_d 2 b @ format_d 2 c = code"
    unfolding abc using code(2) dig list_of_length_6 [OF code(2)] by (simp add: format_digits)
  then show "tuple_to_sko [Num a, Num b, Num c] = Inr code"
    using tuple_to_sko_range [of a b c] two_digits_range [OF dig(1)] two_digits_range [OF dig(2)] two_digits_range [OF dig(3)] code(2)
    by (simp add: abc)
qed

text \<open>
  The length test alone lets a negative number pass for a code, and its parts belong to another code.
\<close>

lemma negative_code_accepted:
  "normalize_sko (Num (- 1)) = Inr ''-00001'' \<and> sko_to_tuple (Num (- 1)) = Inr (0, 0, 1) \<and>
   tuple_to_sko [Num 0, Num 0, Num 1] = Inr ''000001''"
  by code_simp

section \<open>The dictionary form as a specification\<close>

text \<open>Dictionaries are compared as Python compares them: by their entries, not by their order.\<close>

definition nested :: "('k, ('l, 'v) dict) dict \<Rightarrow> 'k \<Rightarrow> ('l \<Rightarrow> 'v option) option" where
  "nested d = (\<lambda>t. map_option map_of (map_of d t))"

definition view :: "org_unit \<Rightarrow> _" where
  "view u = (location_code u, is_valid u, is_visible u, map_of (addresses u), map_of (contact_info u),
     map_of (external_ids u), nested (names u), usage_codes u)"

lemma map_of_fold_dict_set: "map_of (fold (\<lambda>p. dict_set (fst p) (f p)) xs d) = map_of d ++ map_of (rev (map (\<lambda>p. (fst p, f p)) xs))"
  by (induction xs arbitrary: d) (auto simp: map_add_def fun_eq_iff split: option.splits)

lemma map_of_rev_distinct: "distinct (keys xs) \<Longrightarrow> map_of (rev xs) = map_of xs"
  by (subst map_of_inject_set) (simp_all add: rev_map [symmetric])

lemma map_of_fold_distinct:
  "distinct (keys xs) \<Longrightarrow> map_of (fold (\<lambda>p. dict_set (fst p) (f p)) xs []) = map_of (map (\<lambda>p. (fst p, f p)) xs)"
  by (simp add: map_of_fold_dict_set map_of_rev_distinct o_def)

lemma fold_addresses: "fold add_address xs u = u\<lparr>addresses := fold (\<lambda>p. dict_set (fst p) (address_of (snd p))) xs (addresses u)\<rparr>"
  by (induction xs arbitrary: u) (simp_all add: add_address_def)

lemma fold_contact_info: "fold add_contact_info xs u = u\<lparr>contact_info := fold (\<lambda>p. dict_set (fst p) (snd p)) xs (contact_info u)\<rparr>"
  by (induction xs arbitrary: u) (simp_all add: add_contact_info_def)

lemma fold_external_ids: "fold add_external_id xs u = u\<lparr>external_ids := fold (\<lambda>p. dict_set (fst p) (snd p)) xs (external_ids u)\<rparr>"
  by (induction xs arbitrary: u) (simp_all add: add_external_id_def)

lemma fold_names: "fold add_name xs u = u\<lparr>names := fold put_name xs (names u)\<rparr>"
  by (induction xs arbitrary: u) (simp_all add: add_name_def)

lemma fold_usage_codes: "fold add_usage_code xs u = u\<lparr>usage_codes := set xs \<union> usage_codes u\<rparr>"
  by (induction xs arbitrary: u) (simp_all add: add_usage_code_def)

lemmas fold_fields = fold_addresses fold_contact_info fold_external_ids fold_names fold_usage_codes

definition triples :: "('k, ('l, 'v) dict) dict \<Rightarrow> ('k \<times> 'l \<times> 'v) list" where
  "triples d = concat (map (\<lambda>(t, inner). map (\<lambda>(l, v). (t, l, v)) inner) d)"

lemma nested_put_name:
  "nested (put_name (t, l, v) d) = (nested d)(t \<mapsto> (case nested d t of None \<Rightarrow> Map.empty | Some m \<Rightarrow> m)(l \<mapsto> v))"
  by (auto simp: nested_def put_name_def fun_eq_iff split: option.splits)

lemma nested_inner:
  "nested (fold put_name (map (\<lambda>(l, v). (t, l, v)) inner) d) =
     (if inner = [] then nested d
      else (nested d)(t \<mapsto> (case nested d t of None \<Rightarrow> Map.empty | Some m \<Rightarrow> m) ++ map_of (rev inner)))"
proof (induction inner arbitrary: d)
  case (Cons p inner)
  obtain l v where "p = (l, v)" by (cases p)
  then show ?case using Cons [of "put_name (t, l, v) d"]
    by (auto simp: nested_put_name fun_eq_iff map_add_def split: option.splits)
qed simp

definition proper :: "('k, ('l, 'v) dict) dict \<Rightarrow> bool" where
  "proper d \<longleftrightarrow> distinct (keys d) \<and> (\<forall>(t, inner) \<in> set d. inner \<noteq> [] \<and> distinct (keys inner))"

lemma nested_triples:
  assumes "proper d" "\<And>t. t \<in> set (keys d) \<Longrightarrow> nested e t = None"
  shows "nested (fold put_name (triples d) e) = nested e ++ nested d"
  using assms
proof (induction d arbitrary: e)
  case (Cons p d)
  obtain t inner where p: "p = (t, inner)" by (cases p)
  let ?e = "fold put_name (map (\<lambda>(l, v). (t, l, v)) inner) e"
  have inner: "inner \<noteq> []" "distinct (keys inner)" "t \<notin> set (keys d)" "proper d"
    using Cons.prems(1) by (auto simp: proper_def p)
  have e: "nested ?e = (nested e)(t \<mapsto> map_of inner)"
    using inner(1,2) Cons.prems(2) [of t] nested_inner [of t inner e] by (simp add: p map_of_rev_distinct)
  then have "nested ?e t' = None" if "t' \<in> set (keys d)" for t' using that inner(3) Cons.prems(2) [of t'] by (auto simp: p)
  from Cons.IH [OF inner(4) this] e have "nested (fold put_name (triples d) ?e) = (nested e)(t \<mapsto> map_of inner) ++ nested d" by simp
  also have "\<dots> = nested e ++ (nested d)(t \<mapsto> map_of inner)"
    using inner(3) map_of_eq_None_iff [of d t] by (simp add: map_add_upd_left nested_def dom_def)
  also have "(nested d)(t \<mapsto> map_of inner) = nested (p # d)" by (auto simp: nested_def p)
  finally show ?case by (simp add: triples_def p)
qed (simp add: triples_def nested_def map_add_def)

text \<open>What the constructor and the mutators keep, and equality of dictionary forms.\<close>

definition no_blank :: "address \<Rightarrow> bool" where
  "no_blank a \<longleftrightarrow> Some [] \<notin> {address_text a, p_o_box a, postal_number a, city a, country a}"

definition wf_unit :: "org_unit \<Rightarrow> bool" where
  "wf_unit u \<longleftrightarrow> normalize_sko (Str (location_code u)) = Inr (location_code u) \<and>
     distinct (keys (addresses u)) \<and> (\<forall>a \<in> set (map snd (addresses u)). no_blank a) \<and>
     distinct (keys (contact_info u)) \<and> distinct (keys (external_ids u)) \<and> proper (names u)"

definition same_form :: "unit_dict \<Rightarrow> unit_dict \<Rightarrow> bool" where
  "same_form d e \<longleftrightarrow> d_location d = d_location e \<and> d_is_valid d = d_is_valid e \<and> d_is_visible d = d_is_visible e \<and>
     distinct (keys (or_nil (d_addresses d))) \<and> nested (or_nil (d_addresses d)) = nested (or_nil (d_addresses e)) \<and>
     distinct (keys (or_nil (d_contact_info d))) \<and> map_of (or_nil (d_contact_info d)) = map_of (or_nil (d_contact_info e)) \<and>
     distinct (keys (or_nil (d_external_ids d))) \<and> map_of (or_nil (d_external_ids d)) = map_of (or_nil (d_external_ids e)) \<and>
     proper (or_nil (d_names d)) \<and> nested (or_nil (d_names d)) = nested (or_nil (d_names e)) \<and>
     set (or_nil (d_usage_codes d)) = set (or_nil (d_usage_codes e))"

lemma or_nil_nonempty [simp]: "or_nil (nonempty xs) = xs"
  by (simp add: or_nil_def nonempty_def)

lemma address_of_address_dict: "no_blank a \<Longrightarrow> address_of (address_dict a) = a"
  by (cases a) (auto simp: no_blank_def address_of_def address_dict_def get_field_def split: option.splits)

lemma address_of_cong: "map_of f = map_of g \<Longrightarrow> address_of f = address_of g"
  by (simp add: address_of_def get_field_def)

lemma map_of_map_snd: "map_of (map (\<lambda>p. (fst p, f (snd p))) xs) = map_option f \<circ> map_of xs"
  by (induction xs) (auto simp: fun_eq_iff)

lemma addresses_of_form:
  assumes "nested d = nested (map (map_prod id address_dict) as)" "\<forall>a \<in> set (map snd as). no_blank a"
  shows "map_option address_of \<circ> map_of d = map_of as"
proof
  fix t
  have m: "map_of (map (map_prod id address_dict) as) t = map_option address_dict (map_of as t)"
    using map_of_map [of address_dict as] by (simp add: map_prod_def)
  have n: "map_option map_of (map_of d t) = map_option map_of (map_option address_dict (map_of as t))"
    using fun_cong [OF assms(1), of t] by (simp add: nested_def m)
  show "(map_option address_of \<circ> map_of d) t = map_of as t"
  proof (cases "map_of as t")
    case None
    then show ?thesis using n by simp
  next
    case (Some a)
    then obtain f where f: "map_of d t = Some f" "map_of f = map_of (address_dict a)" using n by auto
    have "no_blank a" using assms(2) map_of_SomeD [OF Some] by force
    then show ?thesis using Some f address_of_cong [OF f(2)] by (simp add: address_of_address_dict)
  qed
qed

text \<open>
  C34: a unit survives its dictionary form. From any dictionary that equals \<^verbatim>\<open>to_dict\<close> of a well-formed
  unit, in whatever order its entries come, \<^verbatim>\<open>from_dict\<close> builds a unit with the same code, flags,
  addresses, contact information, external ids, names and usage codes.
\<close>

theorem unit_roundtrip:
  assumes "wf_unit u" "set (enum (usage_codes u)) = usage_codes u" "same_form d (unit_to_dict enum u)"
  shows "\<exists>u'. unit_from_dict d = Inr u' \<and> view u' = view u"
proof -
  note same = assms(3) [unfolded same_form_def unit_to_dict_def, simplified]
  let ?new = "\<lparr>location_code = location_code u, is_valid = is_valid u, is_visible = is_visible u, addresses = [],
    contact_info = [], external_ids = [], names = [], usage_codes = {}\<rparr>"
  let ?u = "fill (or_nil (d_addresses d)) (or_nil (d_contact_info d)) (or_nil (d_external_ids d))
    (triples (or_nil (d_names d))) (or_nil (d_usage_codes d)) ?new"
  have "unit_from_dict d = Inr ?u"
    using same assms(1) by (simp add: unit_from_dict_def PreparedOrgUnit_def wf_unit_def triples_def)
  moreover have "map_of (addresses ?u) = map_of (addresses u)"
    using same assms(1) addresses_of_form [of "or_nil (d_addresses d)" "addresses u"]
    by (simp add: fill_def fold_fields map_of_fold_distinct map_of_map_snd wf_unit_def)
  moreover have "nested (names ?u) = nested (names u)"
  proof -
    have "proper (or_nil (d_names d))" "nested (or_nil (d_names d)) = nested (names u)" using same by blast+
    then show ?thesis using nested_triples [of "or_nil (d_names d)" "[]"]
      by (simp add: fill_def fold_fields) (simp add: nested_def map_add_def)
  qed
  ultimately show ?thesis
    using same assms(2) by (simp add: view_def) (simp add: fill_def fold_fields map_of_fold_distinct)
qed

definition example_unit :: org_unit where
  "example_unit = \<lparr>location_code = ''010203'', is_valid = True, is_visible = False,
     addresses = [(''post'', address_of [(''city'', Some ''Oslo''), (''country'', Some '''')])],
     contact_info = [(''fax'', ''1''), (''phone'', ''2'')], external_ids = [], names = [(''name'', [(''nb'', ''Enhet'')])],
     usage_codes = {''arkiv''}\<rparr>"

lemma example_unit_wf: "wf_unit example_unit"
proof -
  have "normalize_sko (Str ''010203'') = Inr ''010203''" by (rule normalize_digits) (simp_all add: is_digit_def)
  then show ?thesis
    by (auto simp: wf_unit_def example_unit_def no_blank_def proper_def address_of_def get_field_def split: option.splits if_splits)
qed

theorem unit_roundtrip_witness:
  "\<exists>u'. unit_from_dict ((unit_to_dict (\<lambda>_. [''arkiv'']) example_unit)\<lparr>d_contact_info := Some [(''phone'', ''2''), (''fax'', ''1'')]\<rparr>) = Inr u' \<and>
     view u' = view example_unit"
proof (rule unit_roundtrip [OF example_unit_wf, of "\<lambda>_. [''arkiv'']"])
  show "set [''arkiv''] = usage_codes example_unit" by (simp add: example_unit_def)
  show "same_form ((unit_to_dict (\<lambda>_. [''arkiv'']) example_unit)\<lparr>d_contact_info := Some [(''phone'', ''2''), (''fax'', ''1'')]\<rparr>)
      (unit_to_dict (\<lambda>_. [''arkiv'']) example_unit)"
    using example_unit_wf
    by (auto simp: same_form_def wf_unit_def unit_to_dict_def or_nil_def nonempty_def example_unit_def fun_eq_iff)
qed

lemma zfill_nonempty: "s \<noteq> [] \<Longrightarrow> zfill n s \<noteq> []"
  by (simp add: zfill_def)

lemma to_int_format: "to_int (Str (format_d n i)) = Inr i"
proof (cases "i < 0")
  case True
  let ?d = "zfill (n - 1) (show_nat (nat (- i)))"
  have d: "list_all is_digit ?d" "?d \<noteq> []" "nat_of_digits ?d = nat (- i)"
    using show_nat_digits by (simp_all add: zfill_nonempty nat_of_digits_show_nat)
  have "is_digit (last ?d)" using d(1,2) last_in_set [of ?d] by (auto simp: list_all_iff)
  then have "strip (CHR ''-'' # ?d) = CHR ''-'' # ?d"
    using d(2) by (intro strip_id) (simp_all add: is_space_def [of "CHR ''-''"])
  then show ?thesis using True d by (simp add: to_int_def py_int_def py_nat_def format_d_def)
next
  case False
  have "list_all is_digit (zfill n (show_nat (nat i)))" "zfill n (show_nat (nat i)) \<noteq> []"
    using show_nat_digits by (simp_all add: zfill_nonempty)
  from to_int_digits [OF this] False show ?thesis by (simp add: format_d_def nat_of_digits_show_nat)
qed

lemma normalize_idem: "normalize_sko v = Inr code \<Longrightarrow> normalize_sko (Str code) = Inr code"
  by (auto simp: normalize_sko_def Let_def to_int_format split: sum.splits if_splits)

lemma tuple_to_sko_idem: "tuple_to_sko vs = Inr code \<Longrightarrow> normalize_sko (Str code) = Inr code"
  unfolding tuple_to_sko_def by (auto simp: res_bind_eq_Inr dest: normalize_idem split: if_splits)

lemma PreparedOrgUnit_wf:
  assumes "PreparedOrgUnit loc valid visible = Inr u"
  shows "wf_unit u"
proof -
  obtain code where c: "(case loc of Parts vs \<Rightarrow> tuple_to_sko vs | Code v \<Rightarrow> normalize_sko v) = Inr code" and
    u: "u = \<lparr>location_code = code, is_valid = valid, is_visible = visible, addresses = [], contact_info = [],
      external_ids = [], names = [], usage_codes = {}\<rparr>"
    using assms by (auto simp: PreparedOrgUnit_def res_bind_eq_Inr)
  have "normalize_sko (Str code) = Inr code"
  proof (cases loc)
    case (Code v)
    show ?thesis by (rule normalize_idem [of v]) (use c Code in simp)
  next
    case (Parts vs)
    show ?thesis by (rule tuple_to_sko_idem [of vs]) (use c Parts in simp)
  qed
  then show ?thesis unfolding u wf_unit_def proper_def by simp
qed

lemma no_blank_address_of: "no_blank (address_of f)"
proof -
  have "Some [] \<noteq> get_field f k" for k by (auto simp: get_field_def split: option.splits if_splits)
  then show ?thesis by (simp add: no_blank_def address_of_def)
qed

lemma ball_subset: "\<forall>x \<in> B. P x \<Longrightarrow> A \<subseteq> B \<Longrightarrow> \<forall>x \<in> A. P x"
  by blast

lemma proper_put_name: "proper d \<Longrightarrow> proper (put_name nm d)"
proof -
  assume d: "proper d"
  obtain t l v where nm: "nm = (t, l, v)" by (cases nm)
  let ?inner = "dict_set l v (case map_of d t of None \<Rightarrow> [] | Some inner \<Rightarrow> inner)"
  have "distinct (keys (case map_of d t of None \<Rightarrow> [] | Some inner \<Rightarrow> inner))"
    using d by (auto simp: proper_def dest: map_of_SomeD split: option.splits)
  then have "\<forall>(t', inner) \<in> insert (t, ?inner) (set d). inner \<noteq> [] \<and> distinct (keys inner)"
    using d by (simp add: proper_def del: distinct_map)
  then have "\<forall>(t', inner) \<in> set (dict_set t ?inner d). inner \<noteq> [] \<and> distinct (keys inner)"
    using set_dict_set [of t ?inner d] by (rule ball_subset)
  then show ?thesis using d by (simp add: proper_def put_name_def nm del: distinct_map)
qed

lemma wf_add:
  assumes "wf_unit u"
  shows "wf_unit (add_address a u)" "wf_unit (add_contact_info c u)" "wf_unit (add_external_id c u)"
    "wf_unit (add_name nm u)" "wf_unit (add_usage_code s u)"
  using assms set_dict_set [of "fst a" "address_of (snd a)" "addresses u"]
  by (auto simp: wf_unit_def add_address_def add_contact_info_def add_external_id_def add_name_def add_usage_code_def
      no_blank_address_of proper_put_name simp del: distinct_map)

lemma wf_fold: "(\<And>x u. wf_unit u \<Longrightarrow> wf_unit (f x u)) \<Longrightarrow> wf_unit u \<Longrightarrow> wf_unit (fold f xs u)"
  by (induction xs arbitrary: u) auto



end
