(* ===== verification/Quarantine.thy ===== *)
theory Quarantine
  imports Cere_Prelude
begin

text \<open>
  \<^verbatim>\<open>src/Cerebrum/QuarantineHandler.py\<close>: how the quarantines of an entity take effect. The rules of
  \<^verbatim>\<open>cereconf.QUARANTINE_RULES\<close> are translated once, by the first handler that is made, into attributes of the
  class; these are the record \<open>qh_class\<close>, which every construction takes and returns. The tables of constants
  (\<^verbatim>\<open>const.Quarantine\<close>, \<^verbatim>\<open>const.Spread\<close>) and the rows of \<^verbatim>\<open>entity_quarantine\<close> come from the database and
  are parameters.

  Shown: what a handler answers in terms of the one rule that applies to each quarantine, that the search for
  all locked entities agrees with asking for each entity alone, and that the check of the sort numbers is made
  by the first handler only.
\<close>

section \<open>Rules\<close>

datatype spread_key = Star | Spread int

datatype spread_names = One string | Many "string list"

text \<open>A dict of the configuration; what the handler keeps of it is a \<open>settings\<close>.\<close>

record settings =
  lock :: bool
  skip :: bool
  shell :: "string option"
  sort_num :: "int option"

record rule =
  spread :: "spread_names option"
  rule_settings :: settings

datatype rules = Rule rule | Rules "rule list"

type_synonym quarantine_rules = "(string \<times> rules) list"

record constants =
  quarantine_code :: "string \<Rightarrow> int option"
  spread_code :: "string \<Rightarrow> int option"

record qh_class =
  qc2rules :: "(int \<times> (spread_key \<times> settings) list) list"
  explicit_sort :: bool

definition empty_class :: qh_class where
  "empty_class = \<lparr>qc2rules = [], explicit_sort = False\<rparr>"

definition const_int :: "(string \<Rightarrow> int option) \<Rightarrow> string \<Rightarrow> int res" where
  "const_int f c = (case f c of None \<Rightarrow> Inl NotFoundError | Some i \<Rightarrow> Inr i)"

definition rule_list :: "rules \<Rightarrow> rule list" where
  "rule_list r = (case r of Rule x \<Rightarrow> [x] | Rules xs \<Rightarrow> xs)"

definition spread_list :: "rule \<Rightarrow> string list" where
  "spread_list r = (case spread r of None \<Rightarrow> [''*''] | Some (One c) \<Rightarrow> [c] | Some (Many cs) \<Rightarrow> cs)"

definition spread_key_of :: "constants \<Rightarrow> string \<Rightarrow> spread_key res" where
  "spread_key_of co c = (if c = ''*'' then Inr Star else res_bind (const_int (spread_code co) c) (\<lambda>i. Inr (Spread i)))"

text \<open>
  The loops of the setup. The dict of a quarantine is entered before it is filled, so what was read before an
  exception stays in the class.
\<close>

fun add_spreads :: "constants \<Rightarrow> settings \<Rightarrow> string list \<Rightarrow> (spread_key \<times> settings) list \<Rightarrow> (spread_key \<times> settings) list \<times> unit res" where
  "add_spreads co s [] m = (m, Inr ())"
| "add_spreads co s (c # cs) m =
     (case spread_key_of co c of
        Inl e \<Rightarrow> (m, Inl e)
      | Inr k \<Rightarrow> add_spreads co s cs (dict_set k s m))"

fun add_rules :: "constants \<Rightarrow> rule list \<Rightarrow> (spread_key \<times> settings) list \<Rightarrow> (spread_key \<times> settings) list \<times> unit res" where
  "add_rules co [] m = (m, Inr ())"
| "add_rules co (r # rs) m =
     (case add_spreads co (rule_settings r) (spread_list r) m of
        (m', Inl e) \<Rightarrow> (m', Inl e)
      | (m', Inr _) \<Rightarrow> add_rules co rs m')"

fun add_quarantines ::
  "constants \<Rightarrow> quarantine_rules \<Rightarrow> (int \<times> (spread_key \<times> settings) list) list \<Rightarrow>
   (int \<times> (spread_key \<times> settings) list) list \<times> unit res" where
  "add_quarantines co [] q = (q, Inr ())"
| "add_quarantines co ((code, rs) # rest) q =
     (case const_int (quarantine_code co) code of
        Inl e \<Rightarrow> (q, Inl e)
      | Inr i \<Rightarrow>
          (case add_rules co (rule_list rs) [] of
             (m, Inl e) \<Rightarrow> (dict_set i m q, Inl e)
           | (m, Inr _) \<Rightarrow> add_quarantines co rest (dict_set i m q)))"

definition used_sort_nums :: "quarantine_rules \<Rightarrow> int option list" where
  "used_sort_nums conf = concat (map (\<lambda>(_, rs). map (\<lambda>r. sort_num (rule_settings r)) (rule_list rs)) conf)"

definition distinct_nums :: "int option list \<Rightarrow> int list" where
  "distinct_nums xs = remdups (map the (filter (\<lambda>x. x \<noteq> None) xs))"

definition setup_class :: "constants \<Rightarrow> quarantine_rules \<Rightarrow> qh_class \<Rightarrow> qh_class \<times> unit res" where
  "setup_class co conf st =
     (if qc2rules st \<noteq> [] then (st, Inr ())
      else case add_quarantines co conf [] of
        (q, Inl e) \<Rightarrow> (st\<lparr>qc2rules := q\<rparr>, Inl e)
      | (q, Inr _) \<Rightarrow>
          (let used = distinct_nums (used_sort_nums conf)
           in if length used \<noteq> 0 \<and> length (used_sort_nums conf) \<noteq> length used then (st\<lparr>qc2rules := q\<rparr>, Inl ValueError)
              else (st\<lparr>qc2rules := q, explicit_sort := (if used \<noteq> [] then True else explicit_sort st)\<rparr>, Inr ())))"

section \<open>Handlers\<close>

record handler =
  quarantines :: "int list"
  spreads :: "spread_key list"

definition or_nothing :: "'a list option \<Rightarrow> 'a list" where
  "or_nothing x = (case x of None \<Rightarrow> [] | Some xs \<Rightarrow> xs)"

definition QuarantineHandler ::
  "constants \<Rightarrow> quarantine_rules \<Rightarrow> int list option \<Rightarrow> int list option \<Rightarrow> qh_class \<Rightarrow> qh_class \<times> handler res" where
  "QuarantineHandler co conf qs sps st =
     (case setup_class co conf st of
        (st', Inl e) \<Rightarrow> (st', Inl e)
      | (st', Inr _) \<Rightarrow> (st', Inr \<lparr>quarantines = or_nothing qs, spreads = map Spread (or_nothing sps) @ [Star]\<rparr>))"

fun first_match :: "spread_key list \<Rightarrow> (spread_key \<times> settings) list \<Rightarrow> settings option" where
  "first_match [] m = None"
| "first_match (k # ks) m = (case map_of m k of Some s \<Rightarrow> Some s | None \<Rightarrow> first_match ks m)"

fun matched :: "qh_class \<Rightarrow> spread_key list \<Rightarrow> int list \<Rightarrow> (settings \<times> int) list" where
  "matched st ks [] = []"
| "matched st ks (q # qs) =
     (case map_of (qc2rules st) q of
        None \<Rightarrow> matched st ks qs
      | Some m \<Rightarrow> (case first_match ks m of None \<Rightarrow> matched st ks qs | Some s \<Rightarrow> (s, q) # matched st ks qs))"

text \<open>The comparison reads \<^verbatim>\<open>sort_num\<close> of both entries; a list of one entry is sorted without it.\<close>

definition get_matches :: "qh_class \<Rightarrow> handler \<Rightarrow> settings list res" where
  "get_matches st h =
     (let ret = matched st (spreads h) (quarantines h)
      in if explicit_sort st then
           if length ret \<ge> 2 \<and> list_ex (\<lambda>p. sort_num (fst p) = None) ret then Inl KeyError
           else Inr (map fst (sort_key (\<lambda>p. the (sort_num (fst p))) ret))
         else Inr (map fst (sort_key snd ret)))"

definition get_shell :: "qh_class \<Rightarrow> handler \<Rightarrow> string option res" where
  "get_shell st h = res_bind (get_matches st h) (\<lambda>ms. Inr (case find (\<lambda>m. shell m \<noteq> None) ms of None \<Rightarrow> None | Some m \<Rightarrow> shell m))"

definition should_skip :: "qh_class \<Rightarrow> handler \<Rightarrow> bool res" where
  "should_skip st h = res_bind (get_matches st h) (\<lambda>ms. Inr (list_ex skip ms))"

definition is_locked :: "qh_class \<Rightarrow> handler \<Rightarrow> bool res" where
  "is_locked st h = res_bind (get_matches st h) (\<lambda>ms. Inr (list_ex lock ms))"

text \<open>The rows are those \<^verbatim>\<open>get_entity_quarantine\<close> and \<^verbatim>\<open>list_entity_quarantines\<close> return: entity and quarantine type.\<close>

definition check_entity_quarantines ::
  "constants \<Rightarrow> quarantine_rules \<Rightarrow> (int \<times> int) list \<Rightarrow> int \<Rightarrow> int list option \<Rightarrow> qh_class \<Rightarrow> qh_class \<times> handler res" where
  "check_entity_quarantines co conf rows e sps st =
     QuarantineHandler co conf (Some (map snd (filter (\<lambda>r. fst r = e) rows))) sps st"

fun group_rows :: "(int \<times> int) list \<Rightarrow> (int \<times> int list) list \<Rightarrow> (int \<times> int list) list" where
  "group_rows [] cache = cache"
| "group_rows ((e, q) # rows) cache =
     group_rows rows (dict_set e ((case map_of cache e of None \<Rightarrow> [] | Some qs \<Rightarrow> qs) @ [q]) cache)"

fun filter_locked ::
  "constants \<Rightarrow> quarantine_rules \<Rightarrow> (int \<times> int list) list \<Rightarrow> int list \<Rightarrow> qh_class \<Rightarrow> int list \<Rightarrow> qh_class \<times> int set res" where
  "filter_locked co conf cache [] st acc = (st, Inr (set acc))"
| "filter_locked co conf cache (e # es) st acc =
     (case QuarantineHandler co conf (map_of cache e) None st of
        (st', Inl err) \<Rightarrow> (st', Inl err)
      | (st', Inr h) \<Rightarrow>
          (case is_locked st' h of
             Inl err \<Rightarrow> (st', Inl err)
           | Inr b \<Rightarrow> filter_locked co conf cache es st' (if b then e # acc else acc)))"

definition get_locked_entities ::
  "constants \<Rightarrow> quarantine_rules \<Rightarrow> (int list \<Rightarrow> int list) \<Rightarrow> (int \<times> int) list \<Rightarrow> qh_class \<Rightarrow> qh_class \<times> int set res" where
  "get_locked_entities co conf order rows st =
     (let cache = group_rows rows [] in filter_locked co conf cache (order (keys cache)) st [])"

section \<open>The class attributes\<close>

text \<open>Once sort numbers are in use, every rule has one.\<close>

definition sorted_class :: "qh_class \<Rightarrow> bool" where
  "sorted_class st \<longleftrightarrow> (explicit_sort st \<longrightarrow>
     qc2rules st \<noteq> [] \<and> (\<forall>(q, m) \<in> set (qc2rules st). \<forall>(k, s) \<in> set m. sort_num s \<noteq> None))"

definition construction :: "qh_class \<Rightarrow> qh_class \<Rightarrow> bool" where
  "construction st st' \<longleftrightarrow> (\<exists>co conf qs sps. fst (QuarantineHandler co conf qs sps st) = st')"

lemma add_spreads_settings: "snd ` set (fst (add_spreads co s cs m)) \<subseteq> insert s (snd ` set m)"
proof (induction co s cs m rule: add_spreads.induct)
  case (2 co s c cs m)
  show ?case
  proof (cases "spread_key_of co c")
    case (Inr k)
    have "snd ` set (fst (add_spreads co s cs (dict_set k s m))) \<subseteq> insert s (snd ` set (dict_set k s m))" by (rule 2 [OF Inr])
    also have "\<dots> \<subseteq> insert s (snd ` set m)" using snd_dict_set [of k s m] by blast
    finally show ?thesis using Inr by simp
  qed auto
qed auto

lemma add_rules_settings: "snd ` set (fst (add_rules co rs m)) \<subseteq> rule_settings ` set rs \<union> snd ` set m"
proof (induction rs arbitrary: m)
  case (Cons r rs)
  obtain m' x where a: "add_spreads co (rule_settings r) (spread_list r) m = (m', x)" by fastforce
  then have m': "snd ` set m' \<subseteq> insert (rule_settings r) (snd ` set m)"
    using add_spreads_settings [of co "rule_settings r" "spread_list r" m] by simp
  show ?case
  proof (cases x)
    case (Inl e)
    then show ?thesis using m' by (simp add: a) blast
  next
    case (Inr u)
    then show ?thesis using m' Cons [of m'] by (simp add: a) blast
  qed
qed simp

definition all_settings :: "quarantine_rules \<Rightarrow> settings set" where
  "all_settings conf = (\<Union>(c, rs) \<in> set conf. rule_settings ` set (rule_list rs))"

definition stored :: "(int \<times> (spread_key \<times> settings) list) list \<Rightarrow> settings set" where
  "stored q = (\<Union>(i, m) \<in> set q. snd ` set m)"

lemma stored_dict_set: "stored (dict_set i m q) \<subseteq> snd ` set m \<union> stored q"
  using set_dict_set [of i m q] by (auto simp: stored_def)

lemma add_quarantines_settings: "stored (fst (add_quarantines co conf q)) \<subseteq> all_settings conf \<union> stored q"
proof (induction co conf q rule: add_quarantines.induct)
  case (2 co code rs rest q)
  have m: "snd ` set (fst (add_rules co (rule_list rs) [])) \<subseteq> rule_settings ` set (rule_list rs)"
    using add_rules_settings [of co "rule_list rs" "[]"] by simp
  have all: "all_settings ((code, rs) # rest) = rule_settings ` set (rule_list rs) \<union> all_settings rest"
    by (simp add: all_settings_def)
  obtain m' r where mr: "add_rules co (rule_list rs) [] = (m', r)" by fastforce
  show ?case
  proof (cases "const_int (quarantine_code co) code")
    case (Inr i)
    have d: "stored (dict_set i m' q) \<subseteq> rule_settings ` set (rule_list rs) \<union> stored q"
      using stored_dict_set [of i m' q] m by (simp add: mr) blast
    show ?thesis
    proof (cases r)
      case (Inl e)
      then show ?thesis using d by (simp add: Inr mr all) blast
    next
      case (Inr u)
      then have "stored (fst (add_quarantines co rest (dict_set i m' q))) \<subseteq> all_settings rest \<union> stored (dict_set i m' q)"
        using 2 \<open>const_int (quarantine_code co) code = Inr i\<close> mr by simp
      then show ?thesis using d Inr \<open>const_int (quarantine_code co) code = Inr i\<close> by (simp add: mr all) blast
    qed
  qed simp
qed simp

lemma add_quarantines_nonempty: "q \<noteq> [] \<Longrightarrow> fst (add_quarantines co conf q) \<noteq> []"
proof (induction conf arbitrary: q)
  case (Cons p conf)
  then show ?case by (cases p) (simp split: sum.split prod.split)
qed simp

lemma add_quarantines_Nil: "add_quarantines co conf [] = ([], Inr ()) \<Longrightarrow> conf = []"
proof (cases conf)
  case (Cons p rest)
  assume a: "add_quarantines co conf [] = ([], Inr ())"
  obtain code rs where p: "p = (code, rs)" by fastforce
  have "add_quarantines co rest (dict_set i m []) \<noteq> ([], Inr ())" for i m
    using add_quarantines_nonempty [of "dict_set i m []" co rest] by auto
  then show ?thesis using a by (simp add: Cons p split: sum.splits prod.splits)
qed simp

lemma length_distinct_nums: "length (distinct_nums xs) = length xs \<Longrightarrow> None \<notin> set xs"
proof -
  assume l: "length (distinct_nums xs) = length xs"
  have "length (distinct_nums xs) \<le> length (filter (\<lambda>x. x \<noteq> None) xs)"
    unfolding distinct_nums_def by (metis length_map length_remdups_leq)
  then have "length (filter (\<lambda>x. x \<noteq> None) xs) = length xs" using l length_filter_le [of "\<lambda>x. x \<noteq> None" xs] by linarith
  then show ?thesis by (metis (mono_tags, lifting) length_filter_less less_irrefl)
qed

lemma set_used_sort_nums: "set (used_sort_nums conf) = sort_num ` all_settings conf"
  by (force simp: used_sort_nums_def all_settings_def image_UN)

lemma sorted_class_iff: "sorted_class st \<longleftrightarrow> (explicit_sort st \<longrightarrow> qc2rules st \<noteq> [] \<and> None \<notin> sort_num ` stored (qc2rules st))"
  by (force simp: sorted_class_def stored_def)

lemma setup_sorted:
  assumes "sorted_class st"
  shows "sorted_class (fst (setup_class co conf st))"
proof (cases "qc2rules st = []")
  case True
  then have ns: "\<not> explicit_sort st" using assms by (simp add: sorted_class_iff)
  obtain q r where a: "add_quarantines co conf [] = (q, r)" by fastforce
  let ?used = "distinct_nums (used_sort_nums conf)"
  have "sorted_class (st\<lparr>qc2rules := q, explicit_sort := True\<rparr>)"
    if "r = Inr ()" "?used \<noteq> []" "length (used_sort_nums conf) = length ?used"
  proof -
    have "q \<noteq> []"
    proof
      assume "q = []"
      then have "conf = []" using add_quarantines_Nil a that(1) by simp
      then show False using that(2) by (simp add: used_sort_nums_def distinct_nums_def)
    qed
    moreover have "None \<notin> sort_num ` all_settings conf"
      using length_distinct_nums [of "used_sort_nums conf"] that(3) by (simp add: set_used_sort_nums)
    moreover have "stored q \<subseteq> all_settings conf" using add_quarantines_settings [of co conf "[]"] a by (simp add: stored_def)
    ultimately show ?thesis by (auto simp: sorted_class_iff)
  qed
  moreover have "sorted_class (st\<lparr>qc2rules := q\<rparr>)" "sorted_class (st\<lparr>qc2rules := q, explicit_sort := False\<rparr>)"
    using ns by (simp_all add: sorted_class_iff)
  ultimately show ?thesis using True ns by (cases r) (auto simp: setup_class_def a Let_def)
qed (simp add: setup_class_def assms)

interpretation quarantine: invariant_system "\<lambda>st. st = empty_class" construction sorted_class
proof
  show "sorted_class st" if "st = empty_class" for st using that by (simp add: sorted_class_def empty_class_def)
  show "sorted_class st'" if s: "sorted_class st" and c: "construction st st'" for st st'
  proof -
    obtain co conf qs sps where "st' = fst (QuarantineHandler co conf qs sps st)" using c by (auto simp: construction_def)
    then have "st' = fst (setup_class co conf st)" by (simp add: QuarantineHandler_def split: prod.splits sum.splits)
    then show ?thesis using setup_sorted [OF s] by simp
  qed
qed

section \<open>What applies to a quarantine\<close>

text \<open>The rule of a quarantine for a list of spreads, and its place in the order of rules.\<close>

definition effective :: "qh_class \<Rightarrow> spread_key list \<Rightarrow> int \<Rightarrow> settings option" where
  "effective st ks q = (case map_of (qc2rules st) q of None \<Rightarrow> None | Some m \<Rightarrow> first_match ks m)"

definition rank :: "qh_class \<Rightarrow> settings \<times> int \<Rightarrow> int" where
  "rank st p = (if explicit_sort st then the (sort_num (fst p)) else snd p)"

definition applies :: "qh_class \<Rightarrow> handler \<Rightarrow> (settings \<times> int) set" where
  "applies st h = {(s, q). q \<in> set (quarantines h) \<and> effective st (spreads h) q = Some s}"

lemma set_matched: "set (matched st ks qs) = {(s, q). q \<in> set qs \<and> effective st ks q = Some s}"
  by (induction qs) (auto simp: effective_def split: option.splits)

lemma first_match_mem: "first_match ks m = Some s \<Longrightarrow> s \<in> snd ` set m"
  by (induction ks m rule: first_match.induct) (force dest: map_of_SomeD split: option.splits)+

lemma effective_stored: "effective st ks q = Some s \<Longrightarrow> s \<in> stored (qc2rules st)"
  by (force simp: effective_def stored_def dest: first_match_mem map_of_SomeD split: option.splits)

lemma get_matches_sorted:
  assumes "sorted_class st"
  shows "\<exists>ps. get_matches st h = Inr (map fst ps) \<and> set ps = applies st h \<and> sorted (map (rank st) ps)"
proof -
  let ?ret = "matched st (spreads h) (quarantines h)"
  have "sort_num (fst p) \<noteq> None" if "explicit_sort st" "p \<in> set ?ret" for p
    using assms that effective_stored by (force simp: sorted_class_iff set_matched)
  then have "explicit_sort st \<Longrightarrow> \<not> list_ex (\<lambda>p. sort_num (fst p) = None) ?ret" unfolding list_ex_iff by blast
  then have "get_matches st h = Inr (map fst (sort_key (rank st) ?ret))"
    by (cases "explicit_sort st") (simp_all add: get_matches_def Let_def rank_def [abs_def])
  moreover have "set (sort_key (rank st) ?ret) = applies st h" by (simp add: applies_def set_matched)
  ultimately show ?thesis using sorted_sort_key [of "rank st" ?ret] by blast
qed

lemma find_sorted_first:
  "sorted (map f xs) \<Longrightarrow> find P xs = Some x \<Longrightarrow> x \<in> set xs \<and> P x \<and> (\<forall>y \<in> set xs. P y \<longrightarrow> f x \<le> f y)"
  by (induction xs) (auto split: if_splits)

lemma find_shell:
  "(case find (\<lambda>m. shell m \<noteq> None) (map fst ps) of None \<Rightarrow> None | Some m \<Rightarrow> shell m) =
   (case find (\<lambda>p. shell (fst p) \<noteq> None) ps of None \<Rightarrow> None | Some p \<Rightarrow> shell (fst p))"
  by (induction ps) auto

text \<open>
  C8: whatever handlers were made before, a handler answers by the rule that applies to each of its
  quarantines, which is the first one found for its spreads in their order and the default rule at last: it is
  locked, or to be skipped, when one of these rules says so, and its shell is that of the first rule in the
  order of sort numbers (or of quarantine codes) that names a shell. None of the calls raises.
\<close>

theorem handler_decides:
  assumes "reachable (\<lambda>st. st = empty_class) construction st"
  shows "is_locked st h = Inr (\<exists>(s, q) \<in> applies st h. lock s) \<and> should_skip st h = Inr (\<exists>(s, q) \<in> applies st h. skip s) \<and>
    (\<exists>r. get_shell st h = Inr r \<and>
      (case r of
         None \<Rightarrow> \<forall>(s, q) \<in> applies st h. shell s = None
       | Some x \<Rightarrow> \<exists>p \<in> applies st h. shell (fst p) = Some x \<and>
           (\<forall>p' \<in> applies st h. shell (fst p') \<noteq> None \<longrightarrow> rank st p \<le> rank st p')))"
proof -
  have "sorted_class st" by (rule quarantine.reachable_inv [OF assms])
  from get_matches_sorted [OF this] obtain ps where ps: "get_matches st h = Inr (map fst ps)" "set ps = applies st h"
    "sorted (map (rank st) ps)" by blast
  have "is_locked st h = Inr (\<exists>(s, q) \<in> applies st h. lock s)" "should_skip st h = Inr (\<exists>(s, q) \<in> applies st h. skip s)"
    unfolding ps(2) [symmetric] by (force simp: is_locked_def should_skip_def ps(1) list_ex_iff)+
  moreover have shell: "get_shell st h = Inr (case find (\<lambda>p. shell (fst p) \<noteq> None) ps of None \<Rightarrow> None | Some p \<Rightarrow> shell (fst p))"
    unfolding get_shell_def ps(1) res_bind_Inr find_shell by (rule refl)
  moreover have "\<exists>r. get_shell st h = Inr r \<and>
      (case r of
         None \<Rightarrow> \<forall>(s, q) \<in> applies st h. shell s = None
       | Some x \<Rightarrow> \<exists>p \<in> applies st h. shell (fst p) = Some x \<and>
           (\<forall>p' \<in> applies st h. shell (fst p') \<noteq> None \<longrightarrow> rank st p \<le> rank st p'))"
  proof (cases "find (\<lambda>p. shell (fst p) \<noteq> None) ps")
    case None
    from find_None_all [OF this] show ?thesis unfolding shell ps(2) [symmetric] None by auto
  next
    case (Some p)
    from find_sorted_first [OF ps(3) this] show ?thesis unfolding shell ps(2) [symmetric] Some by auto
  qed
  ultimately show ?thesis by blast
qed

definition example_consts :: constants where
  "example_consts = \<lparr>quarantine_code = (\<lambda>c. if c = ''nologin'' then Some 10 else if c = ''system'' then Some 20 else None),
     spread_code = (\<lambda>c. if c = ''AD_account'' then Some 5 else None)\<rparr>"

definition example_rules :: quarantine_rules where
  "example_rules =
     [(''nologin'', Rule \<lparr>spread = None, rule_settings = \<lparr>lock = True, skip = False, shell = Some ''nologin-shell'', sort_num = Some 10\<rparr>\<rparr>),
      (''system'', Rules
         [\<lparr>spread = None, rule_settings = \<lparr>lock = True, skip = False, shell = Some ''nologin-shell2'', sort_num = Some 2\<rparr>\<rparr>,
          \<lparr>spread = Some (One ''AD_account''),
            rule_settings = \<lparr>lock = False, skip = False, shell = Some ''ad-shell'', sort_num = Some 3\<rparr>\<rparr>])]"

definition example_class :: qh_class where
  "example_class = fst (QuarantineHandler example_consts example_rules None None empty_class)"

lemma example_class_reachable: "reachable (\<lambda>st. st = empty_class) construction example_class"
  unfolding example_class_def
  by (rule reachable_step [OF reachable_start]) (auto simp: construction_def)

theorem handler_decides_witness:
  "is_locked example_class \<lparr>quarantines = [20], spreads = [Spread 5, Star]\<rparr> = Inr False \<and>
   (\<exists>(s, q) \<in> applies example_class \<lparr>quarantines = [20], spreads = [Spread 5, Star]\<rparr>. lock s) = False"
proof -
  have "is_locked example_class \<lparr>quarantines = [20], spreads = [Spread 5, Star]\<rparr> = Inr False" by code_simp
  then show ?thesis
    using handler_decides [OF example_class_reachable, of "\<lparr>quarantines = [20], spreads = [Spread 5, Star]\<rparr>"] by auto
qed

section \<open>All locked entities\<close>

lemma setup_again:
  assumes "setup_class co conf st = (st1, Inr ())"
  shows "setup_class co conf st1 = (st1, Inr ())"
proof (cases "qc2rules st1 = []")
  case True
  then obtain r where r: "qc2rules st = []" "add_quarantines co conf [] = ([], r)"
    using assms by (auto simp: setup_class_def Let_def split: if_splits prod.splits sum.splits)
  then have "r = Inr ()" using assms by (cases r) (auto simp: setup_class_def)
  then have "conf = []" using add_quarantines_Nil r(2) by simp
  then have "st1 = st" using assms by (auto simp: setup_class_def used_sort_nums_def distinct_nums_def r(1))
  then show ?thesis using assms by simp
qed (simp add: setup_class_def)

lemma map_of_group_rows:
  "map_of (group_rows rows cache) e =
     (if map_of cache e = None \<and> e \<notin> fst ` set rows then None
      else Some ((case map_of cache e of None \<Rightarrow> [] | Some qs \<Rightarrow> qs) @ map snd (filter (\<lambda>r. fst r = e) rows)))"
proof (induction rows cache rule: group_rows.induct)
  case (2 e' q rows cache)
  then show ?case by (cases "map_of cache e"; cases "e = e'") auto
qed (simp split: option.split)

lemma keys_group_rows: "set (keys (group_rows rows [])) = fst ` set rows"
proof -
  have "e \<in> set (keys (group_rows rows [])) \<longleftrightarrow> e \<in> fst ` set rows" for e
    using map_of_eq_None_iff [of "group_rows rows []" e] map_of_group_rows [of rows "[]" e] by (auto split: if_splits)
  then show ?thesis by (rule set_eqI)
qed

lemma handler_made:
  assumes "setup_class co conf st = (st1, Inr ())"
  shows "QuarantineHandler co conf qs sps st = (st1, Inr \<lparr>quarantines = or_nothing qs, spreads = map Spread (or_nothing sps) @ [Star]\<rparr>)"
  by (simp add: QuarantineHandler_def assms)

lemma filter_locked_result:
  assumes "setup_class co conf st = (st1, Inr ())" "sorted_class st1"
  shows "snd (filter_locked co conf cache es st acc) =
    Inr (set acc \<union> {e \<in> set es. is_locked st1 \<lparr>quarantines = or_nothing (map_of cache e), spreads = [Star]\<rparr> = Inr True})"
  using assms(1)
proof (induction es arbitrary: st acc)
  case (Cons e es)
  let ?h = "\<lparr>quarantines = or_nothing (map_of cache e), spreads = [Star]\<rparr>"
  obtain b where b: "is_locked st1 ?h = Inr b" using get_matches_sorted [OF assms(2), of ?h] by (auto simp: is_locked_def)
  have "QuarantineHandler co conf (map_of cache e) None st = (st1, Inr ?h)"
    by (simp add: handler_made [OF Cons.prems] or_nothing_def)
  then have "snd (filter_locked co conf cache (e # es) st acc) = snd (filter_locked co conf cache es st1 (if b then e # acc else acc))"
    by (simp add: b)
  also have "\<dots> = Inr (set (if b then e # acc else acc) \<union>
      {e \<in> set es. is_locked st1 \<lparr>quarantines = or_nothing (map_of cache e), spreads = [Star]\<rparr> = Inr True})"
    by (rule Cons.IH [OF setup_again [OF Cons.prems]])
  also have "set (if b then e # acc else acc) \<union>
      {e \<in> set es. is_locked st1 \<lparr>quarantines = or_nothing (map_of cache e), spreads = [Star]\<rparr> = Inr True} =
      set acc \<union> {x \<in> set (e # es). is_locked st1 \<lparr>quarantines = or_nothing (map_of cache x), spreads = [Star]\<rparr> = Inr True}"
    using b by (cases b) auto
  finally show ?case .
qed simp

text \<open>
  The search for all locked entities agrees with asking for each entity: once the rules are accepted, it
  returns exactly the entities with quarantine rows for which \<^verbatim>\<open>check_entity_quarantines\<close> gives a handler
  that is locked, in whatever order it walks through them.
\<close>

theorem locked_entities_agree:
  assumes "reachable (\<lambda>st. st = empty_class) construction st" "setup_class co conf st = (st1, Inr ())" "\<And>xs. set (order xs) = set xs"
  shows "snd (get_locked_entities co conf order rows st) =
    Inr {e \<in> fst ` set rows. \<exists>h. check_entity_quarantines co conf rows e None st = (st1, Inr h) \<and> is_locked st1 h = Inr True}"
proof -
  have s: "sorted_class st1" using setup_sorted [OF quarantine.reachable_inv [OF assms(1)], of co conf] by (simp add: assms(2))
  let ?cache = "group_rows rows []"
  have "or_nothing (map_of ?cache e) = map snd (filter (\<lambda>r. fst r = e) rows)" if "e \<in> fst ` set rows" for e
    using that by (simp add: map_of_group_rows or_nothing_def)
  then have "{e \<in> fst ` set rows. is_locked st1 \<lparr>quarantines = or_nothing (map_of ?cache e), spreads = [Star]\<rparr> = Inr True} =
      {e \<in> fst ` set rows. is_locked st1 \<lparr>quarantines = map snd (filter (\<lambda>r. fst r = e) rows), spreads = [Star]\<rparr> = Inr True}"
    by (intro Collect_cong conj_cong) simp_all
  then show ?thesis
    by (simp add: get_locked_entities_def Let_def filter_locked_result [OF assms(2) s] assms(3) keys_group_rows
        check_entity_quarantines_def handler_made [OF assms(2)] del: set_map) (simp add: or_nothing_def)
qed

definition example_rows :: "(int \<times> int) list" where
  "example_rows = [(1, 10), (2, 30)]"

theorem locked_entities_agree_witness:
  "\<exists>h. check_entity_quarantines example_consts example_rules example_rows 1 None example_class = (example_class, Inr h) \<and>
     is_locked example_class h = Inr True"
proof -
  have "setup_class example_consts example_rules example_class = (example_class, Inr ())" by code_simp
  note l = locked_entities_agree [OF example_class_reachable this, of rev example_rows]
  have "snd (get_locked_entities example_consts example_rules rev example_rows example_class) = Inr {1}" by code_simp
  from trans [OF sym [OF this] l] have "1 \<in> {e \<in> fst ` set example_rows. \<exists>h. check_entity_quarantines example_consts example_rules
      example_rows e None example_class = (example_class, Inr h) \<and> is_locked example_class h = Inr True}"
    unfolding sum.inject set_rev by blast
  then show ?thesis by blast
qed

lemma add_spreads_error: "snd (add_spreads co s cs m) = Inl e \<Longrightarrow> e = NotFoundError"
  by (induction co s cs m rule: add_spreads.induct)
    (auto simp: spread_key_of_def const_int_def split: sum.splits option.splits if_splits)

lemma add_rules_error: "snd (add_rules co rs m) = Inl e \<Longrightarrow> e = NotFoundError"
proof (induction rs arbitrary: m)
  case (Cons r rs)
  obtain m' x where "add_spreads co (rule_settings r) (spread_list r) m = (m', x)" by fastforce
  then show ?case using Cons add_spreads_error [of co "rule_settings r" "spread_list r" m e] by (cases x) auto
qed simp

lemma add_quarantines_error: "snd (add_quarantines co conf q) = Inl e \<Longrightarrow> e = NotFoundError"
proof (induction conf arbitrary: q)
  case (Cons p conf)
  obtain code rs where p: "p = (code, rs)" by fastforce
  obtain m x where m: "add_rules co (rule_list rs) [] = (m, x)" by fastforce
  show ?case
  proof (cases "const_int (quarantine_code co) code")
    case (Inl e')
    then show ?thesis using Cons.prems by (auto simp: p const_int_def split: option.splits)
  next
    case (Inr i)
    then show ?thesis using Cons add_rules_error [of co "rule_list rs" "[]" e] by (cases x) (auto simp: p m)
  qed
qed simp

text \<open>
  Rules with illegal sort numbers are refused once only. The first handler raises \<^verbatim>\<open>ValueError\<close>, but the
  rules stay in the class, so every later handler is made without the check and orders its rules by
  quarantine code, not by sort number.
\<close>

theorem illegal_sort_nums_refused_once:
  assumes "QuarantineHandler co conf qs sps empty_class = (st, Inl ValueError)"
  shows "is_ok (snd (QuarantineHandler co conf qs' sps' st)) \<and> \<not> explicit_sort st"
proof -
  have su: "setup_class co conf empty_class = (st, Inl ValueError)"
    using assms by (auto simp: QuarantineHandler_def split: prod.splits sum.splits)
  obtain q r where a: "add_quarantines co conf [] = (q, r)" by fastforce
  then have "r = Inr ()" using su add_quarantines_error [of co conf "[]" ValueError]
    by (cases r) (auto simp: setup_class_def empty_class_def)
  then have st: "st = \<lparr>qc2rules = q, explicit_sort = False\<rparr>" "distinct_nums (used_sort_nums conf) \<noteq> []"
    using su by (auto simp: setup_class_def empty_class_def a Let_def split: if_splits)
  then have "conf \<noteq> []" by (auto simp: used_sort_nums_def distinct_nums_def)
  then have "q \<noteq> []" using add_quarantines_Nil [of co conf] a \<open>r = Inr ()\<close> by auto
  then show ?thesis by (simp add: QuarantineHandler_def setup_class_def st)
qed

definition twice_five :: quarantine_rules where
  "twice_five = [(''nologin'', Rule \<lparr>spread = None, rule_settings = \<lparr>lock = True, skip = False, shell = None, sort_num = Some 5\<rparr>\<rparr>),
     (''system'', Rule \<lparr>spread = None, rule_settings = \<lparr>lock = False, skip = True, shell = None, sort_num = Some 5\<rparr>\<rparr>)]"

theorem illegal_sort_nums_refused_once_witness:
  "is_ok (snd (QuarantineHandler example_consts twice_five None None (fst (QuarantineHandler example_consts twice_five None None empty_class))))"
proof -
  have "snd (QuarantineHandler example_consts twice_five None None empty_class) = Inl ValueError" by code_simp
  then have "QuarantineHandler example_consts twice_five None None empty_class =
    (fst (QuarantineHandler example_consts twice_five None None empty_class), Inl ValueError)" by (metis prod.collapse)
  from illegal_sort_nums_refused_once [OF this] show ?thesis by blast
qed

end
