(* ===== verification/Ip_Calc.thy ===== *)
theory Ip_Calc
  imports Py_Strings "HOL-Library.Word"
begin

text \<open>
  Address arithmetic: \<^verbatim>\<open>IPCalc\<close> and the checks of \<^verbatim>\<open>IPUtils\<close> in \<^verbatim>\<open>src/Cerebrum/modules/dns/IPUtils.py\<close>,
  and the number part of \<^verbatim>\<open>IPv6Calc\<close> in \<^verbatim>\<open>IPv6Utils.py\<close>. The library calls \<^verbatim>\<open>socket.inet_aton\<close> and
  \<^verbatim>\<open>socket.inet_ntoa\<close> are modelled as the C library defines them: one to four parts, decimal, octal after a
  leading 0 or hexadecimal after 0x, the last part filling the remaining bytes, and reading that stops at
  white space. Addresses are unbounded integers, as in Python, with the range checks of \<^verbatim>\<open>struct.pack\<close>.

  Shown: numbers and dotted addresses are inverse to each other, addresses accepted by \<^verbatim>\<open>parse_ipv4\<close> are the
  canonical ones, and the range of a network is the aligned block of its size around the address.
\<close>

section \<open>Reading and printing addresses\<close>

definition DNSError :: py_error where "DNSError = OtherError ''DNSError''"
definition struct_error :: py_error where "struct_error = OtherError ''struct.error''"
definition socket_error :: py_error where "socket_error = OtherError ''socket.error''"

definition is_hex :: "char \<Rightarrow> bool" where
  "is_hex c \<longleftrightarrow> is_digit c \<or> 97 \<le> ord c \<and> ord c \<le> 102 \<or> 65 \<le> ord c \<and> ord c \<le> 70"

definition hex_val :: "char \<Rightarrow> nat" where
  "hex_val c = (if is_digit c then ord c - 48 else if 97 \<le> ord c then ord c - 87 else ord c - 55)"

definition is_oct :: "char \<Rightarrow> bool" where
  "is_oct c \<longleftrightarrow> 48 \<le> ord c \<and> ord c \<le> 55"

definition strtoul :: "string \<Rightarrow> nat option" where
  "strtoul s =
     (if startswith s ''0x'' \<or> startswith s ''0X'' then
        (let d = drop 2 s in if d \<noteq> [] \<and> list_all is_hex d then Some (foldl (\<lambda>n c. 16 * n + hex_val c) 0 d) else None)
      else if startswith s ''0'' then
        if list_all is_oct s then Some (foldl (\<lambda>n c. 8 * n + digit_val c) 0 s) else None
      else py_nat s)"

fun pack_parts :: "nat list \<Rightarrow> nat option" where
  "pack_parts [a] = (if a < 4294967296 then Some a else None)"
| "pack_parts [a, b] = (if a < 256 \<and> b < 16777216 then Some (a * 16777216 + b) else None)"
| "pack_parts [a, b, c] = (if a < 256 \<and> b < 256 \<and> c < 65536 then Some (a * 16777216 + b * 65536 + c) else None)"
| "pack_parts [a, b, c, d] =
     (if a < 256 \<and> b < 256 \<and> c < 256 \<and> d < 256 then Some (a * 16777216 + b * 65536 + c * 256 + d) else None)"
| "pack_parts _ = None"

definition inet_aton :: "string \<Rightarrow> int res" where
  "inet_aton ip =
     (let parts = map strtoul (split_on CHR ''.'' (takeWhile (\<lambda>c. \<not> is_space c) ip))
      in if None \<in> set parts then Inl socket_error
         else case pack_parts (map the parts) of None \<Rightarrow> Inl socket_error | Some n \<Rightarrow> Inr (int n))"

definition octets :: "nat \<Rightarrow> nat list" where
  "octets n = [n div 16777216, n div 65536 mod 256, n div 256 mod 256, n mod 256]"

definition inet_ntoa :: "nat \<Rightarrow> string" where
  "inet_ntoa n = join ''.'' (map show_nat (octets n))"

section \<open>Class IPCalc\<close>

definition ip_to_long :: "string \<Rightarrow> int res" where
  "ip_to_long ip = (case inet_aton ip of Inl e \<Rightarrow> Inl DNSError | Inr n \<Rightarrow> Inr n)"

definition long_to_ip :: "int \<Rightarrow> string res" where
  "long_to_ip n = (if 0 \<le> n \<and> n < 2 ^ 32 then Inr (inet_ntoa (nat n)) else Inl struct_error)"

text \<open>
  \<^verbatim>\<open>pow(2, w) - pow(2, w - netmask)\<close>. Above the width Python's \<^verbatim>\<open>pow\<close> gives a fraction, which the bit
  operations of the callers refuse with \<^verbatim>\<open>TypeError\<close>.
\<close>

definition netmask_to_intrep :: "nat \<Rightarrow> int \<Rightarrow> int res" where
  "netmask_to_intrep w netmask = (if netmask > int w then Inl TypeError else Inr (2 ^ w - 2 ^ nat (int w - netmask)))"

definition netmask_to_ip :: "int \<Rightarrow> string res" where
  "netmask_to_ip netmask = res_bind (netmask_to_intrep 32 netmask) long_to_ip"

unbundle bit_operations_syntax

definition number_range :: "nat \<Rightarrow> int \<Rightarrow> int \<Rightarrow> (int \<times> int) res" where
  "number_range w tmp netmask =
     res_bind (netmask_to_intrep w netmask) (\<lambda>m. Inr (tmp AND m, tmp OR (2 ^ w - 1 - m)))"

definition ip_range_by_netmask :: "string \<Rightarrow> int \<Rightarrow> (int \<times> int) res" where
  "ip_range_by_netmask subnet netmask = res_bind (inet_aton subnet) (\<lambda>tmp. number_range 32 tmp netmask)"

section \<open>Class IPUtils\<close>

definition is_valid_ipv4 :: "string \<Rightarrow> bool" where
  "is_valid_ipv4 ip = is_ok (inet_aton ip)"

definition parse_ipv4 :: "string \<Rightarrow> unit res" where
  "parse_ipv4 ip =
     (if \<not> is_valid_ipv4 ip then Inl CerebrumError
      else if list_ex (\<lambda>p. startswith p ''0'' \<and> length p \<noteq> 1) (split_on CHR ''.'' ip) then Inl CerebrumError
      else Inr ())"

section \<open>Class IPv6Calc\<close>

text \<open>The address as the two 64-bit halves \<^verbatim>\<open>struct.unpack('!QQ', ...)\<close> gives.\<close>

definition join_halves :: "int \<Rightarrow> int \<Rightarrow> int" where
  "join_halves hi lo = push_bit 64 hi OR lo"

definition split_halves :: "int \<Rightarrow> int \<times> int" where
  "split_halves l = (drop_bit 64 l, l AND (2 ^ 64 - 1))"

definition ipv6_range_by_netmask :: "int \<Rightarrow> int \<Rightarrow> int \<Rightarrow> (int \<times> int) res" where
  "ipv6_range_by_netmask hi lo netmask = number_range 128 (join_halves hi lo) netmask"

section \<open>Networks are aligned blocks\<close>

lemma and_netmask:
  fixes t :: int
  assumes "0 \<le> t" "t < 2 ^ w" "k \<le> w"
  shows "t AND (2 ^ w - 2 ^ k) = t div 2 ^ k * 2 ^ k"
proof -
  have "push_bit k (mask (w - k)) = (2 ^ w - 2 ^ k :: int)"
    using assms(3) by (simp add: push_bit_eq_mult mask_eq_exp_minus_1 algebra_simps flip: power_add)
  moreover have "t AND push_bit k (mask (w - k)) = push_bit k (drop_bit k t)"
  proof (rule bit_eqI)
    fix n
    have "n < w" if "bit t n" using assms(1,2) that by (metis bit_take_bit_iff take_bit_int_eq_self)
    then show "bit (t AND push_bit k (mask (w - k))) n \<longleftrightarrow> bit (push_bit k (drop_bit k t)) n"
      using assms(3) by (auto simp: bit_simps)
  qed
  ultimately show ?thesis by (simp add: push_bit_eq_mult drop_bit_eq_div)
qed

lemma or_hostmask:
  fixes t :: int
  shows "t OR (2 ^ k - 1) = t div 2 ^ k * 2 ^ k + (2 ^ k - 1)"
proof -
  have "t OR mask k = push_bit k (drop_bit k t) OR mask k" by (rule bit_eqI) (auto simp: bit_simps)
  also have "\<dots> = push_bit k (drop_bit k t) + mask k"
    by (rule disjunctive_add_eq_or [symmetric]) (auto simp: bit_eq_iff bit_simps)
  finally show ?thesis by (simp add: push_bit_eq_mult drop_bit_eq_div mask_eq_exp_minus_1)
qed

lemma number_range_block:
  fixes t m :: int
  assumes "0 \<le> t" "t < 2 ^ w" "0 \<le> m" "m \<le> int w"
  defines "sz \<equiv> 2 ^ (w - nat m)"
  shows "number_range w t m = Inr (t div sz * sz, t div sz * sz + sz - 1)"
proof -
  have k: "nat (int w - m) = w - nat m" "w - nat m \<le> w" using assms(3,4) by (simp_all add: nat_diff_distrib)
  show ?thesis
    using assms(4) and_netmask [OF assms(1,2) k(2)] or_hostmask [of t "w - nat m"]
    by (simp add: number_range_def netmask_to_intrep_def k(1) sz_def algebra_simps)
qed

lemma number_range_too_long: "int w < m \<Longrightarrow> number_range w t m = Inl TypeError"
  by (simp add: number_range_def netmask_to_intrep_def)

lemma block_end:
  fixes t :: int
  assumes "0 \<le> t" "t < 2 ^ w" "k \<le> w"
  shows "t div 2 ^ k * 2 ^ k + 2 ^ k \<le> 2 ^ w"
proof -
  have "0 \<le> t mod 2 ^ k" by simp
  then have "t div 2 ^ k * 2 ^ k \<le> t" unfolding minus_mod_eq_div_mult [symmetric] by linarith
  also have "t < 2 ^ (w - k) * 2 ^ k" using assms by (simp flip: power_add)
  finally have "t div 2 ^ k < 2 ^ (w - k)" by (simp add: mult_less_cancel_right)
  then have "(t div 2 ^ k + 1) * 2 ^ k \<le> 2 ^ (w - k) * 2 ^ k" by (intro mult_right_mono) simp_all
  then show ?thesis using assms(3) by (simp add: distrib_right flip: power_add)
qed

lemma blocks_apart:
  fixes a b :: int
  assumes "a \<noteq> b" "0 < s"
  shows "a * s + s - 1 < b * s \<or> b * s + s - 1 < a * s"
proof -
  have "(a + 1) * s \<le> b * s" if "a < b" using that assms(2) by (intro mult_right_mono) simp_all
  moreover have "(b + 1) * s \<le> a * s" if "b < a" using that assms(2) by (intro mult_right_mono) simp_all
  ultimately show ?thesis using assms(1) by (auto simp: distrib_right neq_iff)
qed

text \<open>
  C36: for a prefix length within the width, the range of a network is the aligned block of
  \<open>2 ^ (width - length)\<close> addresses that contains the address, for IPv4 and for IPv6, and networks of the
  same length are equal or disjoint; a longer prefix raises \<^verbatim>\<open>TypeError\<close>.
\<close>

theorem network_ranges:
  assumes "w = 32 \<or> w = 128" "0 \<le> t" "t < 2 ^ w" "0 \<le> m"
  shows "if m \<le> int w
    then \<exists>lo hi. number_range w t m = Inr (lo, hi) \<and> lo \<le> t \<and> t \<le> hi \<and> hi - lo + 1 = 2 ^ (w - nat m) \<and>
      2 ^ (w - nat m) dvd lo \<and> 0 \<le> lo \<and> hi < 2 ^ w \<and>
      (\<forall>t' lo' hi'. 0 \<le> t' \<longrightarrow> t' < 2 ^ w \<longrightarrow> number_range w t' m = Inr (lo', hi') \<longrightarrow> (lo', hi') = (lo, hi) \<or> hi' < lo \<or> hi < lo')
    else number_range w t m = Inl TypeError"
proof (cases "m \<le> int w")
  case True
  define s :: int where "s = 2 ^ (w - nat m)"
  have pos: "0 < s" by (simp add: s_def)
  have r: "number_range w x m = Inr (x div s * s, x div s * s + s - 1)" if "0 \<le> x" "x < 2 ^ w" for x
    using number_range_block [OF that assms(4) True] by (simp add: s_def)
  have "t div s * s + t mod s = t" "0 \<le> t mod s" "t mod s < s" using pos by simp_all
  then have t: "t div s * s \<le> t" "t < t div s * s + s" by linarith+
  have "0 \<le> t div s * s" using assms(2) pos by (simp add: pos_imp_zdiv_nonneg_iff)
  moreover have "t div s * s + s \<le> 2 ^ w" unfolding s_def by (rule block_end [OF assms(2,3)]) simp
  moreover have "(x div s * s, x div s * s + s - 1) = (t div s * s, t div s * s + s - 1) \<or>
      x div s * s + s - 1 < t div s * s \<or> t div s * s + s - 1 < x div s * s" for x
    using blocks_apart [OF _ pos, of "x div s" "t div s"] by fastforce
  ultimately show ?thesis using True r t r [OF assms(2,3)] unfolding s_def [symmetric] by auto
qed (simp add: number_range_too_long)

theorem network_ranges_witness: "\<exists>lo hi. number_range 32 167772161 24 = Inr (lo, hi) \<and> hi - lo + 1 = 256"
  using network_ranges [of 32 167772161 24] by auto

section \<open>Numbers and dotted addresses\<close>

lemma octets_bytes: "n < 4294967296 \<Longrightarrow> \<forall>b \<in> set (octets n). b < 256"
  by (simp add: octets_def less_mult_imp_div_less)

lemma base_256:
  fixes n :: nat
  assumes "n = x * 256 + d" "x = y * 256 + c" "y = z * 256 + b"
  shows "z * 16777216 + b * 65536 + c * 256 + d = n"
  by (simp add: assms)

lemma pack_octets:
  assumes "n < 4294967296"
  shows "pack_parts (octets n) = Some n"
proof -
  have "n div 256 = n div 65536 * 256 + n div 256 mod 256" "n div 65536 = n div 16777216 * 256 + n div 65536 mod 256"
    using div_mult_mod_eq [of "n div 256" 256] div_mult2_eq [of n 256 256]
      div_mult_mod_eq [of "n div 65536" 256] div_mult2_eq [of n 65536 256] by simp_all
  note eq = base_256 [OF div_mult_mod_eq [symmetric] this]
  have "n div 16777216 < 256 \<and> n div 65536 mod 256 < 256 \<and> n div 256 mod 256 < 256 \<and> n mod 256 < 256"
    using octets_bytes [OF assms] unfolding octets_def by auto
  then show ?thesis unfolding octets_def pack_parts.simps eq by (rule if_P)
qed

lemma octets_pack:
  assumes "a < 256" "b < 256" "c < 256" "d < (256::nat)"
  shows "octets (a * 16777216 + b * 65536 + c * 256 + d) = [a, b, c, d]" and "a * 16777216 + b * 65536 + c * 256 + d < 4294967296"
proof -
  let ?n = "a * 16777216 + b * 65536 + c * 256 + d"
  have 1: "?n div 256 = a * 65536 + b * 256 + c" using assms(4) by (simp add: div_add1_eq)
  then have 2: "?n div 65536 = a * 256 + b" using assms(3) div_mult2_eq [of ?n 256 256] by simp
  then have 3: "?n div 16777216 = a" using assms(2) div_mult2_eq [of ?n 65536 256] by simp
  have "(c + 256 * (a * 256 + b)) mod 256 = c" "(d + 256 * (a * 65536 + b * 256 + c)) mod 256 = d" "(b + 256 * a) mod 256 = b"
    using assms by (simp_all only: mod_mult_self2 mod_less)
  then have "(a * 65536 + b * 256 + c) mod 256 = c" "?n mod 256 = d" "(a * 256 + b) mod 256 = b" by (simp_all add: algebra_simps)
  then show "octets ?n = [a, b, c, d]" unfolding octets_def 1 2 3 by simp
  show "?n < 4294967296" using assms by linarith
qed

text \<open>Decimal numbers without leading zeros are read as such and are what printing gives.\<close>

definition plain_decimal :: "string \<Rightarrow> bool" where
  "plain_decimal s \<longleftrightarrow> s \<noteq> [] \<and> list_all is_digit s \<and> (startswith s ''0'' \<longrightarrow> length s = 1)"

lemma startswith_Cons: "startswith s [c] \<longleftrightarrow> s \<noteq> [] \<and> hd s = c"
  by (cases s) (auto simp: startswith_def)

lemma plain_show_nat: "plain_decimal (show_nat n)"
  using show_nat_digits [of n] show_nat_hd_zero [of n]
  by (auto simp: plain_decimal_def startswith_Cons show_nat.simps [of n])

lemma startswith_0x: "list_all is_digit s \<Longrightarrow> \<not> startswith s ''0x'' \<and> \<not> startswith s ''0X''"
  by (cases s; cases "tl s") (auto simp: startswith_def is_digit_def)

lemma strtoul_plain: "plain_decimal s \<Longrightarrow> strtoul s = Some (nat_of_digits s)"
proof -
  assume s: "plain_decimal s"
  then have x: "\<not> startswith s ''0x''" "\<not> startswith s ''0X''" using startswith_0x by (auto simp: plain_decimal_def)
  show ?thesis
  proof (cases "startswith s ''0''")
    case True
    then have "s = ''0''" using s by (cases s) (auto simp: plain_decimal_def startswith_Cons)
    moreover have "strtoul ''0'' = Some (nat_of_digits ''0'')" by code_simp
    ultimately show ?thesis by simp
  next
    case False
    then show ?thesis using s x by (simp add: strtoul_def py_nat_def plain_decimal_def)
  qed
qed

lemma show_nat_plain: "plain_decimal s \<Longrightarrow> show_nat (nat_of_digits s) = s"
proof (induction s rule: rev_induct)
  case (snoc c s)
  have c: "is_digit c" "digit_val c < 10" using snoc.prems by (auto simp: plain_decimal_def)
  show ?case
  proof (cases "s = []")
    case True
    then show ?thesis using c by (simp add: nat_of_digits_def show_nat.simps)
  next
    case False
    then have s: "plain_decimal s" "hd s \<noteq> CHR ''0''" using snoc.prems by (auto simp: plain_decimal_def startswith_Cons)
    let ?m = "nat_of_digits s"
    have "?m \<noteq> 0" using show_nat_hd_zero [of ?m] snoc.IH [OF s(1)] s(2) by simp
    then show ?thesis using c snoc.IH [OF s(1)] by (simp add: nat_of_digits_snoc show_nat.simps [of "10 * ?m + digit_val c"])
  qed
qed (simp add: plain_decimal_def)

lemma plain_no_sep: "plain_decimal s \<Longrightarrow> CHR ''.'' \<notin> set s \<and> (\<forall>c \<in> set s. \<not> is_space c)"
  by (auto simp: plain_decimal_def list_all_iff is_digit_def dest!: bspec)

lemma set_join: "set (join s xs) \<subseteq> set s \<union> (\<Union>x \<in> set xs. set x)"
  by (induction s xs rule: join.induct) auto

lemma length_4: "length xs = 4 \<Longrightarrow> \<exists>a b c d. xs = [a, b, c, d]"
  by (auto simp: numeral_eq_Suc length_Suc_conv)

lemma inet_aton_plain:
  assumes "\<forall>p \<in> set ps. plain_decimal p" "length ps = 4" "\<forall>p \<in> set ps. nat_of_digits p < 256"
  shows "\<exists>n. n < 4294967296 \<and> inet_aton (join ''.'' ps) = Inr (int n) \<and> octets n = map nat_of_digits ps"
proof -
  obtain a b c d where ps: "ps = [a, b, c, d]" using length_4 [OF assms(2)] by blast
  let ?v = nat_of_digits
  let ?n = "?v a * 16777216 + ?v b * 65536 + ?v c * 256 + ?v d"
  have split: "split_on CHR ''.'' (join ''.'' ps) = ps" using assms(1) plain_no_sep by (intro split_on_join) (auto simp: ps)
  have sp: "takeWhile (\<lambda>x. \<not> is_space x) (join ''.'' ps) = join ''.'' ps"
  proof (rule takeWhile_eq_all_conv [THEN iffD2], rule ballI)
    fix x assume "x \<in> set (join ''.'' ps)"
    then have "x = CHR ''.'' \<or> (\<exists>p \<in> set ps. x \<in> set p)" using set_join [of "''.''" ps] by auto
    moreover have "\<not> is_space CHR ''.''" by (simp add: is_space_def)
    ultimately show "\<not> is_space x" using assms(1) plain_no_sep by blast
  qed
  have "map strtoul ps = map (\<lambda>p. Some (?v p)) ps" using assms(1) by (simp add: strtoul_plain)
  then have "inet_aton (join ''.'' ps) = Inr (int ?n)"
    using assms(3) unfolding inet_aton_def Let_def sp split by (simp add: ps)
  then show ?thesis using octets_pack [of "?v a" "?v b" "?v c" "?v d"] assms(3) by (auto simp: ps)
qed

lemma strtoul_no_zero:
  assumes "strtoul p \<noteq> None" "startswith p ''0'' \<longrightarrow> length p = 1"
  shows "plain_decimal p"
proof (cases "startswith p ''0''")
  case True
  then have "p = ''0''" using assms(2) by (cases p) (auto simp: startswith_Cons)
  then show ?thesis by (simp add: plain_decimal_def is_digit_def)
next
  case False
  then have "\<not> startswith p ''0x''" "\<not> startswith p ''0X''" by (cases p; auto simp: startswith_def)+
  then show ?thesis using assms(1) False by (simp add: strtoul_def py_nat_def plain_decimal_def split: if_splits)
qed

lemma pack_bytes: "pack_parts (map f ps) \<noteq> None \<Longrightarrow> length ps = 4 \<Longrightarrow> \<forall>p \<in> set ps. f p < 256"
  by (auto dest!: length_4 split: if_splits)

text \<open>
  Numbers and dotted addresses are inverse to each other. Every number below \<open>2 ^ 32\<close> prints as an address
  that reads back as this number, and every address of four parts that \<^verbatim>\<open>parse_ipv4\<close> accepts, and that holds no
  white space, is the one its number prints as: no two accepted addresses stand for the same number.
\<close>

theorem ip_roundtrip:
  "(0 \<le> n \<and> n < 2 ^ 32 \<longrightarrow> (\<exists>ip. long_to_ip n = Inr ip \<and> ip_to_long ip = Inr n \<and> parse_ipv4 ip = Inr ())) \<and>
   (parse_ipv4 ip = Inr () \<and> length (split_on CHR ''.'' ip) = 4 \<and> (\<forall>c \<in> set ip. \<not> is_space c) \<longrightarrow>
      (\<exists>m. ip_to_long ip = Inr m \<and> long_to_ip m = Inr ip))"
proof (intro conjI impI; (elim conjE)?)
  assume n: "0 \<le> n" "n < 2 ^ 32"
  let ?ps = "map show_nat (octets (nat n))"
  have b: "nat n < 4294967296" using n by simp
  have ps: "\<forall>p \<in> set ?ps. plain_decimal p" "length ?ps = 4" "\<forall>p \<in> set ?ps. nat_of_digits p < 256"
    using octets_bytes [OF b] plain_show_nat by (auto simp: nat_of_digits_show_nat octets_def)
  have e: "map nat_of_digits ?ps = octets (nat n)" by (simp add: o_def nat_of_digits_show_nat)
  from inet_aton_plain [OF ps] obtain m where m: "m < 4294967296" "inet_aton (inet_ntoa (nat n)) = Inr (int m)" "octets m = octets (nat n)"
    unfolding inet_ntoa_def e by blast
  have "m = nat n" using pack_octets [OF m(1)] pack_octets [OF b] unfolding m(3) by (simp only: option.inject)
  then have "ip_to_long (inet_ntoa (nat n)) = Inr n" using m(2) n(1) by (simp add: ip_to_long_def)
  moreover have "parse_ipv4 (inet_ntoa (nat n)) = Inr ()"
  proof -
    have "split_on CHR ''.'' (inet_ntoa (nat n)) = ?ps" unfolding inet_ntoa_def
      using ps(1) plain_no_sep by (intro split_on_join) (auto simp: octets_def)
    then show ?thesis using ps(1) m(2) by (auto simp: parse_ipv4_def is_valid_ipv4_def list_ex_iff plain_decimal_def)
  qed
  ultimately show "\<exists>ip. long_to_ip n = Inr ip \<and> ip_to_long ip = Inr n \<and> parse_ipv4 ip = Inr ()" using n by (simp add: long_to_ip_def)
next
  assume ip: "parse_ipv4 ip = Inr ()" "length (split_on CHR ''.'' ip) = 4" "\<forall>c \<in> set ip. \<not> is_space c"
  let ?ps = "split_on CHR ''.'' ip"
  have sp: "takeWhile (\<lambda>c. \<not> is_space c) ip = ip" using ip(3) by (simp add: takeWhile_eq_all_conv)
  have j: "join ''.'' ?ps = ip" by (rule join_split_on)
  have "is_ok (inet_aton ip)" and z: "\<forall>p \<in> set ?ps. startswith p ''0'' \<longrightarrow> length p = 1"
    using ip(1) by (auto simp: parse_ipv4_def is_valid_ipv4_def list_ex_iff split: if_splits)
  then have st: "\<forall>p \<in> set ?ps. strtoul p \<noteq> None" and pk: "pack_parts (map (\<lambda>p. the (strtoul p)) ?ps) \<noteq> None"
    unfolding inet_aton_def Let_def sp by (simp_all add: image_iff eq_commute [of None] o_def split: if_splits option.splits)
  have plain: "plain_decimal p" if "p \<in> set ?ps" for p
    using st z that strtoul_no_zero [of p] by blast
  have v: "map (\<lambda>p. the (strtoul p)) ?ps = map nat_of_digits ?ps" using plain by (simp add: strtoul_plain)
  have "\<forall>p \<in> set ?ps. nat_of_digits p < 256" using pk ip(2) unfolding v by (intro pack_bytes) simp_all
  with inet_aton_plain [of ?ps] plain ip(2) obtain m where m: "m < 4294967296" "inet_aton ip = Inr (int m)" "octets m = map nat_of_digits ?ps"
    unfolding j by blast
  have "inet_ntoa m = ip" unfolding inet_ntoa_def m(3) using plain j by (simp add: o_def show_nat_plain cong: map_cong)
  then show "\<exists>m. ip_to_long ip = Inr m \<and> long_to_ip m = Inr ip" using m by (auto simp: ip_to_long_def long_to_ip_def)
qed

theorem ip_roundtrip_witness:
  "(\<exists>ip. long_to_ip 167772161 = Inr ip \<and> ip_to_long ip = Inr 167772161) \<and>
   (\<exists>m. ip_to_long ''10.0.0.1'' = Inr m \<and> long_to_ip m = Inr ''10.0.0.1'')"
proof
  show "\<exists>ip. long_to_ip 167772161 = Inr ip \<and> ip_to_long ip = Inr 167772161"
    using ip_roundtrip [of 167772161] by auto
  have "parse_ipv4 ''10.0.0.1'' = Inr ()"
    by (simp add: parse_ipv4_def is_valid_ipv4_def inet_aton_def strtoul_def startswith_def py_nat_def is_digit_def is_oct_def
        is_space_def nat_of_digits_def digit_val_def Let_def)
  then show "\<exists>m. ip_to_long ''10.0.0.1'' = Inr m \<and> long_to_ip m = Inr ''10.0.0.1''"
    using ip_roundtrip [of 0 "''10.0.0.1''"] by (simp add: is_space_def)
qed

end
