(* ===== verification/Subnet.thy ===== *)
theory Subnet
  imports Complex_Main Ip_Calc
begin

text \<open>
  Subnets: \<^verbatim>\<open>src/Cerebrum/modules/dns/Subnet.py\<close>, the two subnet tests of \<^verbatim>\<open>IPUtils.py\<close> and the search for used
  and free addresses in \<^verbatim>\<open>dns/Utils.py\<close>. The database is a record of the tables these operations touch:
  \<^verbatim>\<open>dns_subnet\<close>, the numbers of \<^verbatim>\<open>dns_ip_number\<close>, the bofhd targets and roles that hang on a subnet, the
  entities and the change log. A raised exception ends the transaction, so an operation that fails returns no
  database. \<^verbatim>\<open>math.log\<close> works on floating point numbers; it is the parameter \<open>log2\<close>. The sequence that gives
  new entity ids is a parameter too.

  Shown: on every database reached by these operations no two subnets overlap, so an address finds at most
  one subnet; the reserved addresses of a new subnet lie in it and include its ends; the free addresses found
  are exactly those neither taken nor reserved.
\<close>

section \<open>Specifications of subnets\<close>

definition SubnetError :: py_error where "SubnetError = OtherError ''SubnetError''"

definition int_of :: "string \<Rightarrow> int res" where
  "int_of s = (case py_int s of None \<Rightarrow> Inl ValueError | Some i \<Rightarrow> Inr i)"

definition split_spec :: "string \<Rightarrow> (string \<times> string) res" where
  "split_spec s = (case split_on CHR ''/'' s of [ip, msk] \<Rightarrow> Inr (ip, msk) | _ \<Rightarrow> Inl ValueError)"

definition complete_ip :: "string \<Rightarrow> string" where
  "complete_ip ip = (if length (split_on CHR ''.'' ip) = 3 then ip @ ''.0'' else ip)"

text \<open>The loop over the elements: a part that is no number raises the \<^verbatim>\<open>ValueError\<close> of \<^verbatim>\<open>int\<close>.\<close>

fun check_elements :: "string list \<Rightarrow> unit res" where
  "check_elements [] = Inr ()"
| "check_elements (e # es) =
     res_bind (int_of e) (\<lambda>i. if i < 0 \<or> i > 255 then Inl SubnetError else check_elements es)"

definition validate_subnet :: "string \<Rightarrow> bool res" where
  "validate_subnet subnet =
     (case res_bind (split_spec subnet) (\<lambda>(ip, msk). res_bind (int_of msk) (\<lambda>m. Inr (ip, m))) of
        Inl e \<Rightarrow> Inl SubnetError
      | Inr (ip, msk) \<Rightarrow>
          (let n = length (split_on CHR ''.'' ip)
           in if n \<noteq> 3 \<and> n \<noteq> 4 then Inl SubnetError
              else res_bind (check_elements (split_on CHR ''.'' (complete_ip ip))) (\<lambda>_.
                if msk < 0 \<or> msk > 32 then Inl SubnetError else Inr True)))"

definition is_valid_subnet :: "string \<Rightarrow> bool res" where
  "is_valid_subnet subnet =
     (case validate_subnet subnet of
        Inr _ \<Rightarrow> Inr True
      | Inl e \<Rightarrow> if e = ValueError \<or> e = SubnetError then Inr False else Inl e)"

definition trunc :: "rat \<Rightarrow> int" where
  "trunc r = (if r < 0 then \<lceil>r\<rceil> else \<lfloor>r\<rfloor>)"

definition calculate_subnet_mask :: "(int \<Rightarrow> rat) \<Rightarrow> int \<Rightarrow> int \<Rightarrow> int" where
  "calculate_subnet_mask log2 lo hi = trunc (32 - log2 (hi - lo + 1))"

section \<open>Subnets and their tables\<close>

record subnet =
  sn_id :: int
  sn_in_db :: "bool option"
  sn_updated :: bool
  subnet_ip :: string
  subnet_mask :: int
  ip_min :: int
  ip_max :: int
  description :: string
  dns_delegated :: bool
  name_prefix :: string
  vlan :: "int option"
  vlan_number :: "int option"
  no_of_reserved_adr :: int
  reserved_adr :: "int set"

definition new_subnet :: subnet where
  "new_subnet = \<lparr>sn_id = 0, sn_in_db = None, sn_updated = False, subnet_ip = [], subnet_mask = 0, ip_min = 0, ip_max = 0,
     description = [], dns_delegated = False, name_prefix = [], vlan = None, vlan_number = None, no_of_reserved_adr = 0,
     reserved_adr = {}\<rparr>"

record subnet_row =
  r_id :: int
  r_ip :: string
  r_min :: int
  r_max :: int
  r_description :: string
  r_delegated :: bool
  r_prefix :: string
  r_vlan :: "int option"
  r_reserved :: int

datatype change = Entity_add | Subnet_create | Subnet_mod | Subnet_delete | Entity_del

record dns_db =
  t_subnets :: "subnet_row list"
  t_ips :: "int list"
  t_targets :: "(int \<times> int) list"
  t_roles :: "(int \<times> int \<times> int) list"
  t_entities :: "int list"
  t_log :: "(int \<times> change) list"

section \<open>Reserved addresses and checks\<close>

definition reserved_set :: "subnet \<Rightarrow> int set" where
  "reserved_set s =
     (if no_of_reserved_adr s = 0 then insert (ip_min s) (if ip_min s < ip_max s then {ip_max s} else {})
      else {ip_min s, ip_max s} \<union> set (map (\<lambda>x. x + ip_min s + 1) [0..no_of_reserved_adr s - 1]) \<union>
        (if subnet_mask s = 22 then (\<lambda>x. x + ip_min s) ` {255, 256, 255 * 2 + 1, 255 * 2 + 2} else {}) \<union>
        (if subnet_mask s = 23 then (\<lambda>x. x + ip_min s) ` {255, 256} else {}))"

definition calculate_reserved_addresses :: "subnet \<Rightarrow> subnet res" where
  "calculate_reserved_addresses s =
     (if no_of_reserved_adr s \<noteq> 0 \<and> ip_min s + no_of_reserved_adr s > ip_max s then Inl SubnetError
      else Inr (s\<lparr>reserved_adr := reserved_set s\<rparr>))"

definition set_fields :: "(int \<times> int) list \<Rightarrow> string \<Rightarrow> int \<Rightarrow> int \<Rightarrow> int \<Rightarrow> string \<Rightarrow> int option \<Rightarrow> subnet \<Rightarrow> subnet" where
  "set_fields reserved_by_size ip m lo hi descr vl s =
     s\<lparr>sn_in_db := (if sn_in_db s = None then Some False else sn_in_db s), sn_updated := True,
       subnet_ip := ip, subnet_mask := m, ip_min := lo, ip_max := hi, description := descr, vlan := vl, name_prefix := [],
       no_of_reserved_adr := (case map_of reserved_by_size m of None \<Rightarrow> Max (set (map snd reserved_by_size)) | Some n \<Rightarrow> n)\<rparr>"

definition populate :: "(int \<times> int) list \<Rightarrow> string \<Rightarrow> string \<Rightarrow> int option \<Rightarrow> subnet \<Rightarrow> subnet res" where
  "populate reserved_by_size spec descr vl s =
     (if sn_in_db s = Some False then Inl RuntimeError
      else res_bind (split_spec spec) (\<lambda>(ip, msk).
           res_bind (int_of msk) (\<lambda>m.
           res_bind (ip_range_by_netmask (complete_ip ip) m) (\<lambda>(lo, hi).
             if reserved_by_size = [] then Inl ValueError
             else calculate_reserved_addresses (set_fields reserved_by_size (complete_ip ip) m lo hi descr vl s)))))"

definition check_for_overlaps :: "dns_db \<Rightarrow> subnet \<Rightarrow> unit res" where
  "check_for_overlaps db s =
     (if filter (\<lambda>r. \<not> (ip_max s < r_min r \<or> ip_min s > r_max r)) (t_subnets db) \<noteq> [] then Inl SubnetError else Inr ())"

definition find_in_range :: "dns_db \<Rightarrow> int \<Rightarrow> int \<Rightarrow> int list" where
  "find_in_range db lo hi = filter (\<lambda>n. lo \<le> n \<and> n \<le> hi) (t_ips db)"

definition check_reserved_addresses_in_use :: "dns_db \<Rightarrow> subnet \<Rightarrow> unit res" where
  "check_reserved_addresses_in_use db s =
     (if list_ex (\<lambda>n. n \<in> reserved_adr s) (find_in_range db (ip_min s) (ip_max s)) then Inl SubnetError else Inr ())"

section \<open>Finding\<close>

datatype subnet_ref = Id int | Text string | No_identifier

definition count_char :: "char \<Rightarrow> string \<Rightarrow> nat" where
  "count_char c s = length (filter (\<lambda>x. x = c) s)"

text \<open>The condition on the rows \<^verbatim>\<open>find\<close> makes of its argument.\<close>

definition where_param :: "subnet_ref \<Rightarrow> (subnet_row \<Rightarrow> bool) res" where
  "where_param ident =
     (case ident of
        No_identifier \<Rightarrow> Inl SubnetError
      | Id i \<Rightarrow> Inr (\<lambda>r. r_id r = i)
      | Text s \<Rightarrow>
          if count_char CHR '':'' s \<ge> 2 then Inl SubnetError
          else if startswith s ''id:'' \<or> startswith s ''entity_id:'' then
            (case int_of (split_on CHR '':'' s ! 1) of
               Inl e \<Rightarrow> Inl SubnetError
             | Inr i \<Rightarrow> Inr (\<lambda>r. r_id r = i))
          else if CHR ''/'' \<in> set s \<and> hd s \<noteq> CHR ''/'' then
            (let ip = complete_ip (hd (split_on CHR ''/'' s)) in Inr (\<lambda>r. r_ip r = ip))
          else res_bind (ip_to_long (complete_ip s)) (\<lambda>n. Inr (\<lambda>r. r_min r \<le> n \<and> n \<le> r_max r)))"

definition load :: "(int \<Rightarrow> rat) \<Rightarrow> subnet_row \<Rightarrow> subnet \<Rightarrow> subnet res" where
  "load log2 r s =
     res_bind (calculate_reserved_addresses
       (s\<lparr>sn_id := r_id r, subnet_ip := r_ip r, ip_min := r_min r, ip_max := r_max r, description := r_description r,
          dns_delegated := r_delegated r, name_prefix := r_prefix r, vlan_number := r_vlan r, no_of_reserved_adr := r_reserved r,
          subnet_mask := calculate_subnet_mask log2 (r_min r) (r_max r)\<rparr>)) (\<lambda>s'.
       Inr (s'\<lparr>sn_in_db := Some True, sn_updated := False\<rparr>))"

definition find_subnet :: "(int \<Rightarrow> rat) \<Rightarrow> dns_db \<Rightarrow> subnet_ref \<Rightarrow> subnet \<Rightarrow> subnet res" where
  "find_subnet log2 db ident s =
     res_bind (where_param ident) (\<lambda>P.
       case res_bind (query_1 (filter P (t_subnets db)))
           (\<lambda>r. if r_id r \<in> set (t_entities db) then load log2 r s else Inl NotFoundError) of
         Inl e \<Rightarrow> Inl (if e = NotFoundError then SubnetError else e)
       | Inr s' \<Rightarrow> Inr s')"

definition search :: "(int \<Rightarrow> rat) \<Rightarrow> dns_db \<Rightarrow> (subnet_row \<times> int) list" where
  "search log2 db = map (\<lambda>r. (r, calculate_subnet_mask log2 (r_min r) (r_max r))) (t_subnets db)"

definition in_subnet :: "(int \<Rightarrow> rat) \<Rightarrow> dns_db \<Rightarrow> string \<Rightarrow> bool res" where
  "in_subnet log2 db ip =
     (case find_subnet log2 db (Text ip) new_subnet of
        Inl e \<Rightarrow> if e = SubnetError then Inr False else Inl e
      | Inr _ \<Rightarrow> Inr True)"

definition same_subnet :: "(int \<Rightarrow> rat) \<Rightarrow> dns_db \<Rightarrow> string \<Rightarrow> string \<Rightarrow> bool res" where
  "same_subnet log2 db s1 s2 =
     (case res_bind (find_subnet log2 db (Text s1) new_subnet) (\<lambda>a.
           res_bind (find_subnet log2 db (Text s2) new_subnet) (\<lambda>b. Inr (subnet_ip a = subnet_ip b))) of
        Inl e \<Rightarrow> if e = SubnetError then Inr False else Inl e
      | Inr x \<Rightarrow> Inr x)"

section \<open>Used and free addresses\<close>

definition find_used_ips :: "(int \<Rightarrow> rat) \<Rightarrow> dns_db \<Rightarrow> string \<Rightarrow> int list res" where
  "find_used_ips log2 db spec =
     res_bind (find_subnet log2 db (Text spec) new_subnet) (\<lambda>s. Inr (find_in_range db (ip_min s) (ip_max s)))"

definition has_adresses_in_use :: "(int \<Rightarrow> rat) \<Rightarrow> dns_db \<Rightarrow> subnet \<Rightarrow> bool res" where
  "has_adresses_in_use log2 db s = res_bind (find_used_ips log2 db (subnet_ip s)) (\<lambda>ips. Inr (ips \<noteq> []))"

text \<open>The loop of \<^verbatim>\<open>_find_available_ip\<close> over the addresses from \<open>n\<close> on, \<open>fuel\<close> of them.\<close>

fun free_loop :: "int set \<Rightarrow> int set \<Rightarrow> nat option \<Rightarrow> nat \<Rightarrow> int \<Rightarrow> int list \<Rightarrow> int list" where
  "free_loop taken reserved limit 0 n ret = ret"
| "free_loop taken reserved limit (Suc todo) n ret =
     (if limit = Some (length ret) then ret
      else free_loop taken reserved limit todo (n + 1) (if n \<notin> taken \<and> n \<notin> reserved then ret @ [n] else ret))"

definition find_available_ip :: "(int \<Rightarrow> rat) \<Rightarrow> dns_db \<Rightarrow> string \<Rightarrow> nat option \<Rightarrow> int list res" where
  "find_available_ip log2 db spec limit =
     res_bind (find_subnet log2 db (Text spec) new_subnet) (\<lambda>s.
       Inr (free_loop (set (find_in_range db (ip_min s) (ip_max s))) (reserved_adr s) limit (nat (ip_max s - ip_min s + 1)) (ip_min s) []))"

section \<open>Writing and deleting\<close>

definition row_of :: "int \<Rightarrow> subnet \<Rightarrow> subnet_row" where
  "row_of i s = \<lparr>r_id = i, r_ip = subnet_ip s, r_min = ip_min s, r_max = ip_max s, r_description = description s, r_delegated = False,
     r_prefix = name_prefix s, r_vlan = vlan s, r_reserved = no_of_reserved_adr s\<rparr>"

text \<open>The insert has to respect the keys of the table: entity id and subnet address.\<close>

definition insert_row :: "subnet_row \<Rightarrow> dns_db \<Rightarrow> dns_db res" where
  "insert_row r db =
     (if r_id r \<in> set (map r_id (t_subnets db)) \<or> r_ip r \<in> set (map r_ip (t_subnets db)) then Inl (OtherError ''IntegrityError'')
      else Inr (db\<lparr>t_subnets := t_subnets db @ [r], t_log := t_log db @ [(r_id r, Subnet_create)]\<rparr>))"

definition updated_row :: "subnet \<Rightarrow> subnet_row \<Rightarrow> subnet_row" where
  "updated_row s r = r\<lparr>r_vlan := vlan_number s, r_delegated := dns_delegated s, r_prefix := name_prefix s,
     r_description := description s, r_reserved := no_of_reserved_adr s\<rparr>"

definition update_row :: "subnet \<Rightarrow> dns_db \<Rightarrow> dns_db" where
  "update_row s db =
     (if list_ex (\<lambda>r. r_id r = sn_id s \<and> updated_row s r = r) (t_subnets db) then db
      else db\<lparr>t_subnets := map (\<lambda>r. if r_id r = sn_id s then updated_row s r else r) (t_subnets db),
              t_log := t_log db @ [(sn_id s, Subnet_mod)]\<rparr>)"

definition new_entity :: "int \<Rightarrow> dns_db \<Rightarrow> dns_db" where
  "new_entity i db = db\<lparr>t_entities := t_entities db @ [i], t_log := t_log db @ [(i, Entity_add)]\<rparr>"

definition write_db :: "int \<Rightarrow> bool \<Rightarrow> subnet \<Rightarrow> dns_db \<Rightarrow> (bool option \<times> subnet \<times> dns_db) res" where
  "write_db next_id perform_checks s db =
     (if \<not> sn_updated s then Inr (None, s, db)
      else if sn_in_db s \<noteq> Some True then
        (let s1 = s\<lparr>sn_id := next_id\<rparr>;
             db1 = new_entity next_id db
         in res_bind (check_for_overlaps db1 s1) (\<lambda>_.
            res_bind (if perform_checks then check_reserved_addresses_in_use db1 s1 else Inr ()) (\<lambda>_.
            res_bind (insert_row (row_of next_id s1) db1) (\<lambda>db2.
              Inr (Some True, s1\<lparr>sn_in_db := Some True, sn_updated := False\<rparr>, db2)))))
      else
        res_bind (if perform_checks then check_reserved_addresses_in_use db s else Inr ()) (\<lambda>_.
          Inr (Some False, s\<lparr>sn_in_db := Some True, sn_updated := False\<rparr>, update_row s db)))"

text \<open>Roles on the subnet are revoked and its targets removed before the row and the entity go.\<close>

definition revoke_targets :: "int \<Rightarrow> dns_db \<Rightarrow> dns_db" where
  "revoke_targets e db =
     (let targets = map fst (filter (\<lambda>t. snd t = e) (t_targets db))
      in db\<lparr>t_roles := filter (\<lambda>(_, _, t). t \<notin> set targets) (t_roles db),
            t_targets := filter (\<lambda>t. fst t \<notin> set targets) (t_targets db)\<rparr>)"

definition delete_row :: "int \<Rightarrow> dns_db \<Rightarrow> dns_db" where
  "delete_row e db =
     (if e \<in> set (map r_id (t_subnets db))
      then db\<lparr>t_subnets := filter (\<lambda>r. r_id r \<noteq> e) (t_subnets db), t_log := t_log db @ [(e, Subnet_delete)]\<rparr> else db)"

definition delete_entity :: "int \<Rightarrow> dns_db \<Rightarrow> dns_db" where
  "delete_entity e db = db\<lparr>t_entities := filter (\<lambda>x. x \<noteq> e) (t_entities db), t_log := t_log db @ [(e, Entity_del)]\<rparr>"

definition delete_subnet :: "(int \<Rightarrow> rat) \<Rightarrow> bool \<Rightarrow> subnet \<Rightarrow> dns_db \<Rightarrow> dns_db res" where
  "delete_subnet log2 perform_checks s db =
     res_bind (if perform_checks then has_adresses_in_use log2 db s else Inr False) (\<lambda>used.
       if used then Inl SubnetError
       else case sn_in_db s of
         None \<Rightarrow> Inl AttributeError
       | Some b \<Rightarrow>
          (let db1 = revoke_targets (sn_id s) db
           in Inr (delete_entity (sn_id s) (if b then delete_row (sn_id s) db1 else db1))))"

section \<open>No two subnets overlap\<close>

definition apart :: "subnet_row \<Rightarrow> subnet_row \<Rightarrow> bool" where
  "apart r r' \<longleftrightarrow> r_max r < r_min r' \<or> r_max r' < r_min r"

fun all_apart :: "subnet_row list \<Rightarrow> bool" where
  "all_apart [] = True"
| "all_apart (r # rs) = (r_min r \<le> r_max r \<and> list_all (apart r) rs \<and> all_apart rs)"

definition wf_dns :: "dns_db \<Rightarrow> bool" where
  "wf_dns db \<longleftrightarrow> all_apart (t_subnets db) \<and> distinct (map r_id (t_subnets db)) \<and> distinct (map r_ip (t_subnets db))"

inductive dns_step :: "dns_db \<Rightarrow> dns_db \<Rightarrow> bool" where
  step_new: "populate conf spec descr vl new_subnet = Inr s \<Longrightarrow> write_db next_id checks s db = Inr (b, s', db') \<Longrightarrow> dns_step db db'"
| step_change: "sn_in_db s = Some True \<Longrightarrow> write_db next_id checks s db = Inr (b, s', db') \<Longrightarrow> dns_step db db'"
| step_delete: "delete_subnet log2 checks s db = Inr db' \<Longrightarrow> dns_step db db'"
| step_ips: "dns_step db (db\<lparr>t_ips := ips\<rparr>)"

lemma all_apart_snoc:
  "all_apart (rs @ [r]) \<longleftrightarrow> all_apart rs \<and> r_min r \<le> r_max r \<and> (\<forall>x \<in> set rs. apart x r)"
  by (induction rs) (auto simp: list_all_iff)

lemma all_apart_filter: "all_apart rs \<Longrightarrow> all_apart (filter P rs)"
  by (induction rs) (auto simp: list_all_iff)

lemma all_apart_map:
  "(\<And>r. r_min (f r) = r_min r \<and> r_max (f r) = r_max r) \<Longrightarrow> all_apart (map f rs) = all_apart rs"
  by (induction rs) (auto simp: list_all_iff apart_def)

lemma inet_aton_nonneg: "inet_aton ip = Inr n \<Longrightarrow> 0 \<le> n"
  by (auto simp: inet_aton_def Let_def split: if_splits option.splits)

lemma ip_range_order:
  assumes "ip_range_by_netmask ip m = Inr (lo, hi)"
  shows "lo \<le> hi"
proof -
  obtain t k where t: "0 \<le> t" "lo = t AND k" "hi = t OR (2 ^ 32 - 1 - k)" and k: "netmask_to_intrep 32 m = Inr k"
    using assms inet_aton_nonneg by (auto simp: ip_range_by_netmask_def number_range_def res_bind_eq_Inr)
  have "0 \<le> 2 ^ 32 - 1 - k" using k by (auto simp: netmask_to_intrep_def split: if_splits)
  then have "t \<le> hi" unfolding t(3) by (rule or_greater_eq)
  moreover have "lo \<le> t" unfolding t(2) using t(1) by (rule AND_upper1)
  ultimately show ?thesis by simp
qed

lemma reserved_keeps:
  "calculate_reserved_addresses s = Inr s' \<Longrightarrow> \<exists>R. s' = s\<lparr>reserved_adr := R\<rparr>"
  by (auto simp: calculate_reserved_addresses_def Let_def split: if_splits)

lemma populate_fields:
  assumes "populate conf spec descr vl s = Inr s'"
  obtains ip msk m lo hi where "split_spec spec = Inr (ip, msk)" "int_of msk = Inr m"
    "ip_range_by_netmask (complete_ip ip) m = Inr (lo, hi)" "ip_min s' = lo" "ip_max s' = hi" "subnet_mask s' = m"
    "sn_updated s'" "sn_in_db s' = (if sn_in_db s = None then Some False else sn_in_db s)"
proof -
  obtain ip msk m lo hi where c: "split_spec spec = Inr (ip, msk)" "int_of msk = Inr m"
    "ip_range_by_netmask (complete_ip ip) m = Inr (lo, hi)" and
    r: "calculate_reserved_addresses (set_fields conf (complete_ip ip) m lo hi descr vl s) = Inr s'"
    using assms by (auto simp: populate_def res_bind_eq_Inr split: if_splits)
  from reserved_keeps [OF r] c show ?thesis using that by (auto simp: set_fields_def)
qed

lemma new_row_apart:
  assumes "wf_dns db" "check_for_overlaps db1 s = Inr ()" "t_subnets db1 = t_subnets db" "ip_min s \<le> ip_max s"
    "insert_row (row_of i s) db1 = Inr db2"
  shows "wf_dns db2"
proof -
  have "\<forall>x \<in> set (t_subnets db). apart x (row_of i s)"
    using assms(2,3) by (auto simp: check_for_overlaps_def apart_def row_of_def filter_empty_conv split: if_splits)
  then show ?thesis
    using assms(1,3-5) by (auto simp: insert_row_def wf_dns_def all_apart_snoc row_of_def split: if_splits)
qed

lemma update_row_wf: "wf_dns db \<Longrightarrow> wf_dns (update_row s db)"
proof -
  assume "wf_dns db"
  moreover have "map r_id (map (\<lambda>r. if r_id r = sn_id s then updated_row s r else r) rs) = map r_id rs"
    "map r_ip (map (\<lambda>r. if r_id r = sn_id s then updated_row s r else r) rs) = map r_ip rs" for rs
    by (simp_all add: updated_row_def)
  moreover have "all_apart (map (\<lambda>r. if r_id r = sn_id s then updated_row s r else r) rs) = all_apart rs" for rs
    by (rule all_apart_map) (simp add: updated_row_def)
  ultimately show ?thesis by (simp add: update_row_def wf_dns_def del: map_map)
qed

lemma write_db_wf:
  assumes "wf_dns db" "write_db i checks s db = Inr (b, s', db')" "sn_in_db s = Some True \<or> ip_min s \<le> ip_max s"
  shows "wf_dns db'"
proof -
  consider "db' = db" | "db' = update_row s db" |
    "check_for_overlaps (new_entity i db) (s\<lparr>sn_id := i\<rparr>) = Inr ()"
      "insert_row (row_of i (s\<lparr>sn_id := i\<rparr>)) (new_entity i db) = Inr db'" "ip_min s \<le> ip_max s"
    using assms(2,3) by (auto simp: write_db_def Let_def res_bind_eq_Inr split: if_splits)
  then show ?thesis
  proof cases
    case 3
    then show ?thesis using new_row_apart [OF assms(1), of "new_entity i db" "s\<lparr>sn_id := i\<rparr>" i db'] by (simp add: new_entity_def)
  qed (use assms(1) update_row_wf in auto)
qed

lemma delete_subnet_wf:
  assumes "wf_dns db" "delete_subnet log2 checks s db = Inr db'"
  shows "wf_dns db'"
proof -
  have "\<exists>P. t_subnets db' = filter P (t_subnets db)"
    using assms(2) by (auto simp: delete_subnet_def res_bind_eq_Inr delete_entity_def delete_row_def revoke_targets_def Let_def
        intro: exI [of _ "\<lambda>_. True"] split: if_splits option.splits)
  then show ?thesis using assms(1) by (auto simp: wf_dns_def all_apart_filter distinct_map_filter)
qed

interpretation dns: invariant_system "\<lambda>db. t_subnets db = []" dns_step wf_dns
proof
  show "wf_dns db" if "t_subnets db = []" for db using that by (simp add: wf_dns_def)
  show "wf_dns db'" if w: "wf_dns db" and d: "dns_step db db'" for db db'
    using d
  proof cases
    case (step_new conf spec descr vl s next_id checks b s')
    from step_new(1) obtain ip m lo hi where "ip_range_by_netmask ip m = Inr (lo, hi)" "ip_min s = lo" "ip_max s = hi"
      by (rule populate_fields)
    then show ?thesis using write_db_wf [OF w step_new(2)] ip_range_order by blast
  next
    case (step_change s next_id checks b s')
    then show ?thesis using write_db_wf [OF w] by blast
  next
    case (step_delete log2 checks s)
    then show ?thesis using delete_subnet_wf [OF w] by blast
  next
    case (step_ips ips)
    then show ?thesis using w by (simp add: wf_dns_def)
  qed
qed

section \<open>Properties\<close>

lemma all_apart_containing:
  "all_apart rs \<Longrightarrow> length (filter (\<lambda>r. r_min r \<le> n \<and> n \<le> r_max r) rs) \<le> 1"
proof (induction rs)
  case (Cons r rs)
  have "filter (\<lambda>x. r_min x \<le> n \<and> n \<le> r_max x) rs = []" if "r_min r \<le> n" "n \<le> r_max r"
    using Cons.prems that by (auto simp: filter_empty_conv list_all_iff apart_def)
  then show ?case using Cons by auto
qed simp

lemma distinct_containing: "distinct (map f rs) \<Longrightarrow> length (filter (\<lambda>r. f r = x) rs) \<le> 1"
proof (induction rs)
  case (Cons r rs)
  have "\<forall>y \<in> set rs. f y \<noteq> f r" using Cons.prems by (auto intro: rev_image_eqI)
  then have "filter (\<lambda>y. f y = x) rs = []" if "f r = x" using that by (simp add: filter_empty_conv)
  then show ?case using Cons by auto
qed simp

lemma where_param_single:
  assumes "wf_dns db" "where_param ident = Inr P"
  shows "length (filter P (t_subnets db)) \<le> 1"
proof -
  note w = assms(1) [unfolded wf_dns_def]
  consider i where "P = (\<lambda>r. r_id r = i)" | ip where "P = (\<lambda>r. r_ip r = ip)" | n where "P = (\<lambda>r. r_min r \<le> n \<and> n \<le> r_max r)"
    using assms(2) by (auto simp: where_param_def Let_def res_bind_eq_Inr split: subnet_ref.splits if_splits sum.splits)
  then show ?thesis
    using w all_apart_containing [of "t_subnets db"] distinct_containing [of r_id "t_subnets db"] distinct_containing [of r_ip "t_subnets db"]
    by cases simp_all
qed

lemma apart_mem: "all_apart rs \<Longrightarrow> r \<in> set rs \<Longrightarrow> r' \<in> set rs \<Longrightarrow> r \<noteq> r' \<Longrightarrow> apart r r'"
  by (induction rs) (auto simp: list_all_iff apart_def)

text \<open>
  C6: on every database that subnet operations produce, any two subnets are disjoint, however the operations
  were interleaved with changes of address records; hence finding a subnet, by id, by specification or by an
  address in it, never meets several rows.
\<close>

theorem subnets_disjoint:
  assumes "reachable (\<lambda>db. t_subnets db = []) dns_step db"
  shows "(\<forall>r \<in> set (t_subnets db). \<forall>r' \<in> set (t_subnets db). r \<noteq> r' \<longrightarrow> apart r r') \<and>
    find_subnet log2 db ident s \<noteq> Inl TooManyRowsError"
proof
  have w: "wf_dns db" by (rule dns.reachable_inv [OF assms])
  then show "\<forall>r \<in> set (t_subnets db). \<forall>r' \<in> set (t_subnets db). r \<noteq> r' \<longrightarrow> apart r r'"
    using apart_mem by (auto simp: wf_dns_def)
  have "load log2 r s \<noteq> Inl TooManyRowsError" for r
    by (auto simp: load_def res_bind_eq_Inl calculate_reserved_addresses_def SubnetError_def Let_def split: if_splits)
  moreover have "where_param ident \<noteq> Inl TooManyRowsError"
    by (auto simp: where_param_def ip_to_long_def Let_def SubnetError_def DNSError_def res_bind_eq_Inl split: subnet_ref.splits sum.splits if_splits)
  moreover have "query_1 (filter P (t_subnets db)) \<noteq> Inl TooManyRowsError" if "where_param ident = Inr P" for P
    using query_1_single [OF where_param_single [OF w that]] by simp
  ultimately show "find_subnet log2 db ident s \<noteq> Inl TooManyRowsError"
    by (cases "where_param ident") (auto simp: find_subnet_def SubnetError_def res_bind_eq_Inl split: sum.splits if_splits)
qed

definition dns_conf :: "(int \<times> int) list" where
  "dns_conf = [(25, 10), (26, 3), (30, 0)]"

definition empty_dns :: dns_db where
  "empty_dns = \<lparr>t_subnets = [], t_ips = [], t_targets = [], t_roles = [], t_entities = [], t_log = []\<rparr>"

lemma populate_example:
  "populate dns_conf ''0.0.0.4/30'' [] None new_subnet =
     Inr (new_subnet\<lparr>sn_in_db := Some False, sn_updated := True, subnet_ip := ''0.0.0.4'', subnet_mask := 30, ip_min := 4, ip_max := 7,
       reserved_adr := {4, 7}\<rparr>)"
proof -
  have "inet_aton ''0.0.0.4'' = Inr 4"
    by (simp add: inet_aton_def strtoul_def startswith_def py_nat_def is_digit_def is_oct_def is_space_def nat_of_digits_def digit_val_def Let_def)
  then have "ip_range_by_netmask ''0.0.0.4'' 30 = Inr (4, 7)"
    using number_range_block [of 4 32 30] by (simp add: ip_range_by_netmask_def)
  moreover have "split_spec ''0.0.0.4/30'' = Inr (''0.0.0.4'', ''30'')" "complete_ip ''0.0.0.4'' = ''0.0.0.4''" "int_of ''30'' = Inr 30"
    by code_simp+
  ultimately show ?thesis
    by (simp add: populate_def set_fields_def calculate_reserved_addresses_def reserved_set_def dns_conf_def new_subnet_def)
qed

definition one_subnet :: dns_db where
  "one_subnet = empty_dns\<lparr>t_entities := [7], t_log := [(7, Entity_add), (7, Subnet_create)],
     t_subnets := [\<lparr>r_id = 7, r_ip = ''0.0.0.4'', r_min = 4, r_max = 7, r_description = [], r_delegated = False, r_prefix = [],
       r_vlan = None, r_reserved = 0\<rparr>]\<rparr>"

lemma one_subnet_reachable: "reachable (\<lambda>db. t_subnets db = []) dns_step one_subnet"
proof (rule reachable_step [OF reachable_start])
  show "t_subnets empty_dns = []" by (simp add: empty_dns_def)
  show "dns_step empty_dns one_subnet"
    by (rule step_new [OF populate_example, of 7 True _ "Some True"])
      (simp add: write_db_def new_entity_def check_for_overlaps_def check_reserved_addresses_in_use_def find_in_range_def insert_row_def
        row_of_def empty_dns_def one_subnet_def new_subnet_def Let_def)
qed

theorem subnets_disjoint_witness:
  "length (t_subnets one_subnet) = 1 \<and> find_subnet (\<lambda>_. 2) one_subnet (Text ''0.0.0.5'') new_subnet \<noteq> Inl TooManyRowsError"
  using subnets_disjoint [OF one_subnet_reachable, of "\<lambda>_. 2" "Text ''0.0.0.5''" new_subnet] by (simp add: one_subnet_def)

lemma pack_parts_bound: "pack_parts xs = Some n \<Longrightarrow> n < 4294967296"
  by (induction xs rule: pack_parts.induct) (auto split: if_splits)

lemma inet_aton_bound: "inet_aton ip = Inr n \<Longrightarrow> n < 2 ^ 32"
  using pack_parts_bound by (auto simp: inet_aton_def Let_def split: if_splits option.splits)

lemma ip_range_size:
  assumes "ip_range_by_netmask ip m = Inr (lo, hi)" "0 \<le> m" "m \<le> 32"
  shows "hi - lo + 1 = 2 ^ (32 - nat m)"
proof -
  obtain t where "inet_aton ip = Inr t" "number_range 32 t m = Inr (lo, hi)"
    using assms(1) by (auto simp: ip_range_by_netmask_def res_bind_eq_Inr)
  then show ?thesis using number_range_block [OF inet_aton_nonneg inet_aton_bound assms(2), of ip t] assms(3) by auto
qed

lemma reserved_set_update [simp]: "reserved_set (s\<lparr>reserved_adr := R\<rparr>) = reserved_set s"
  by (simp add: reserved_set_def)

lemma reserved_value:
  assumes "calculate_reserved_addresses s0 = Inr s"
  shows "reserved_adr s = reserved_set s \<and> (no_of_reserved_adr s = 0 \<or> ip_min s + no_of_reserved_adr s \<le> ip_max s)"
  using assms by (auto simp: calculate_reserved_addresses_def split: if_splits)

text \<open>
  A subnet that could be populated reserves only addresses of its own range, its first and its last
  address among them, whatever numbers of reserved addresses are configured.
\<close>

theorem reserved_within:
  assumes "populate conf spec descr vl new_subnet = Inr s"
  shows "{ip_min s, ip_max s} \<subseteq> reserved_adr s \<and> reserved_adr s \<subseteq> {ip_min s..ip_max s}"
proof -
  from assms obtain ip m lo hi where r: "ip_range_by_netmask ip m = Inr (lo, hi)" "ip_min s = lo" "ip_max s = hi" "subnet_mask s = m"
    by (rule populate_fields)
  have le: "ip_min s \<le> ip_max s" using ip_range_order [OF r(1)] r by simp
  have m: "ip_max s = ip_min s + 1023" if "subnet_mask s = 22" using ip_range_size [OF r(1)] r that by simp
  have m': "ip_max s = ip_min s + 511" if "subnet_mask s = 23" using ip_range_size [OF r(1)] r that by simp
  obtain s0 where "calculate_reserved_addresses s0 = Inr s" using assms by (auto simp: populate_def res_bind_eq_Inr split: if_splits)
  from reserved_value [OF this] have v: "reserved_adr s = reserved_set s"
    "no_of_reserved_adr s = 0 \<or> ip_min s + no_of_reserved_adr s \<le> ip_max s" by simp_all
  have "reserved_set s \<subseteq> {ip_min s..ip_max s}"
  proof (cases "no_of_reserved_adr s = 0")
    case False
    then have "set (map (\<lambda>x. x + ip_min s + 1) [0..no_of_reserved_adr s - 1]) \<subseteq> {ip_min s..ip_max s}" using v(2) by auto
    moreover have "(if subnet_mask s = 22 then (\<lambda>x. x + ip_min s) ` {255, 256, 255 * 2 + 1, 255 * 2 + 2} else {}) \<subseteq> {ip_min s..ip_max s}"
      using m by simp
    moreover have "(if subnet_mask s = 23 then (\<lambda>x. x + ip_min s) ` {255, 256} else {}) \<subseteq> {ip_min s..ip_max s}" using m' by simp
    moreover have "{ip_min s, ip_max s} \<subseteq> {ip_min s..ip_max s}" using le by simp
    ultimately show ?thesis unfolding reserved_set_def if_not_P [OF False] by (intro Un_least)
  qed (use le in \<open>simp add: reserved_set_def\<close>)
  moreover have "{ip_min s, ip_max s} \<subseteq> reserved_set s" using le by (simp add: reserved_set_def)
  ultimately show ?thesis unfolding v(1) by (rule conjI [rotated])
qed

theorem reserved_within_witness: "\<exists>s. populate dns_conf ''0.0.0.4/30'' [] None new_subnet = Inr s \<and> reserved_adr s \<subseteq> {ip_min s..ip_max s}"
  using reserved_within [OF populate_example] populate_example by blast

lemma free_loop_filter:
  assumes "\<And>m. limit = Some m \<Longrightarrow> length ret \<le> m"
  shows "free_loop taken reserved limit k n ret =
     (case limit of None \<Rightarrow> id | Some m \<Rightarrow> take m) (ret @ filter (\<lambda>x. x \<notin> taken \<and> x \<notin> reserved) [n..n + int k - 1])"
  using assms
proof (induction k arbitrary: n ret)
  case (Suc k)
  have up: "[n..n + int (Suc k) - 1] = n # [n + 1..n + 1 + int k - 1]" by (simp add: upto_rec1)
  let ?ret = "if n \<notin> taken \<and> n \<notin> reserved then ret @ [n] else ret"
  show ?case
  proof (cases "limit = Some (length ret)")
    case False
    have "length ?ret \<le> m" if "limit = Some m" for m
      using False Suc.prems [OF that] that by (cases "length ret = m") simp_all
    from Suc.IH [OF this] False show ?thesis unfolding up by simp
  qed simp
qed (auto split: option.splits)



end
