(* ===== verification/Pw_Checks.thy ===== *)
theory Pw_Checks
  imports Py_Strings "HOL-Library.Multiset"
begin

text \<open>
  The password checks of \<^verbatim>\<open>src/Cerebrum/modules/pwcheck/simple.py\<close>, \<^verbatim>\<open>phrase.py\<close> and \<^verbatim>\<open>history_checks.py\<close>. A
  password is a Unicode string, here the list of its code points. The three character properties Python takes
  from its Unicode tables (\<^verbatim>\<open>lower\<close>, white space, \<^verbatim>\<open>isdigit\<close>) are the record \<open>unicode\<close>, an argument;
  \<open>latin1\<close> holds their values below 256. A check returns its messages, and no messages where the source
  returns \<^verbatim>\<open>None\<close>; a message is a constructor that carries the values put into its text.

  Shown: the check for character sequences finds exactly the passwords with a run of neighbours, in the
  alphabet or on a row of the keyboard; a longer password never loses entropy points; the check of the
  owner's name misses the last characters of the name.
\<close>

section \<open>Characters\<close>

type_synonym ustring = "nat list"

record unicode =
  u_lower :: "nat \<Rightarrow> nat"
  u_space :: "nat \<Rightarrow> bool"
  u_digit :: "nat \<Rightarrow> bool"

definition latin1 :: unicode where
  "latin1 =
     \<lparr>u_lower = (\<lambda>c. if 65 \<le> c \<and> c \<le> 90 \<or> 192 \<le> c \<and> c \<le> 222 \<and> c \<noteq> 215 then c + 32 else c),
      u_space = (\<lambda>c. 9 \<le> c \<and> c \<le> 13 \<or> 28 \<le> c \<and> c \<le> 32 \<or> c = 133 \<or> c = 160),
      u_digit = (\<lambda>c. 48 \<le> c \<and> c \<le> 57 \<or> c = 178 \<or> c = 179 \<or> c = 185)\<rparr>"

definition uni :: "string \<Rightarrow> ustring" where
  "uni s = map of_char s"

definition ascii_lowercase :: "nat \<Rightarrow> bool" where
  "ascii_lowercase c \<longleftrightarrow> 97 \<le> c \<and> c \<le> 122"

definition ascii_uppercase :: "nat \<Rightarrow> bool" where
  "ascii_uppercase c \<longleftrightarrow> 65 \<le> c \<and> c \<le> 90"

definition ascii_digits :: "nat \<Rightarrow> bool" where
  "ascii_digits c \<longleftrightarrow> 48 \<le> c \<and> c \<le> 57"

definition ascii_letters :: "nat \<Rightarrow> bool" where
  "ascii_letters c \<longleftrightarrow> ascii_lowercase c \<or> ascii_uppercase c"

definition punctuation :: "nat \<Rightarrow> bool" where
  "punctuation c \<longleftrightarrow> 33 \<le> c \<and> c \<le> 126 \<and> \<not> ascii_letters c \<and> \<not> ascii_digits c"

definition ulower :: "unicode \<Rightarrow> ustring \<Rightarrow> ustring" where
  "ulower u s = map (u_lower u) s"

definition ustrip :: "unicode \<Rightarrow> ustring \<Rightarrow> ustring" where
  "ustrip u s = rev (dropWhile (u_space u) (rev (dropWhile (u_space u) s)))"

text \<open>The parts of a string between the characters of a class, empty ones left out.\<close>

fun split_class :: "('a \<Rightarrow> bool) \<Rightarrow> 'a list \<Rightarrow> 'a list list" where
  "split_class p [] = [[]]"
| "split_class p (x # xs) =
     (if p x then [] # split_class p xs
      else case split_class p xs of [] \<Rightarrow> [[x]] | q # qs \<Rightarrow> (x # q) # qs)"

definition chunks :: "('a \<Rightarrow> bool) \<Rightarrow> 'a list \<Rightarrow> 'a list list" where
  "chunks p s = filter (\<lambda>x. x \<noteq> []) (split_class p s)"

definition starts_with :: "'a list \<Rightarrow> 'a list \<Rightarrow> bool" where
  "starts_with s p \<longleftrightarrow> take (length p) s = p"

text \<open>\<^verbatim>\<open>re.search\<close> for a sequence of character classes.\<close>

fun match_classes :: "('a \<Rightarrow> bool) list \<Rightarrow> 'a list \<Rightarrow> bool" where
  "match_classes [] s = True"
| "match_classes (p # ps) [] = False"
| "match_classes (p # ps) (c # s) = (p c \<and> match_classes ps s)"

fun search_classes :: "('a \<Rightarrow> bool) list \<Rightarrow> 'a list \<Rightarrow> bool" where
  "search_classes ps [] = match_classes ps []"
| "search_classes ps (c # s) = (match_classes ps (c # s) \<or> search_classes ps s)"

section \<open>Messages and accounts\<close>

datatype pw_msg =
    NullCharacter
  | SpaceCharacter
  | EightBitCharacters
  | BadCharacter nat
  | NotLatin1
  | IllegalCharacter nat
  | TooFewGroups int int
  | LowEntropy int int
  | TooShort int
  | TooLong int
  | GoodTry
  | NotEnoughSets
  | AlphabeticalOrder
  | KeyboardOrder
  | RepeatedSequence
  | ContainsUsername
  | ContainsReversedUsername
  | ContainsName
  | ContainsNamePart nat
  | OnlyLettersAndSpaces
  | TooFewDigits int
  | TooFewLetters int
  | NotMixedCase
  | TooFewWords int int
  | ShortWords int
  | TooSimilarToOld
  | SameAsOld
  | OtherMessage string

text \<open>
  What the checks read of an account. \<open>owner\<close> is \<open>None\<close> when there is no \<^verbatim>\<open>owner_id\<close>, \<open>Some None\<close> when
  \<^verbatim>\<open>person.find\<close> raises \<^verbatim>\<open>NotFoundError\<close>, and otherwise the rows of \<^verbatim>\<open>person.get_names()\<close>: whether the
  variant is the full name, and the name. The history methods may be missing from the class.
\<close>

record account =
  account_name :: "ustring option"
  owner :: "(bool \<times> ustring) list option option"
  brute_history :: "(ustring \<Rightarrow> bool) option"
  old_passwords :: "(ustring \<Rightarrow> bool) option"
  verify_auth :: "ustring \<Rightarrow> bool res"

section \<open>Checks of single characters\<close>

text \<open>
  The two entries of \<^verbatim>\<open>_password_illegal_chars\<close> are visited in the order CPython 2 stores them, without hash
  randomisation: their hashes collide in the table and the null character was inserted first.
\<close>

definition CheckSpaceOrNull :: "ustring \<Rightarrow> pw_msg list" where
  "CheckSpaceOrNull pw =
     (if 0 \<in> set pw then [NullCharacter] else []) @ (if 32 \<in> set pw then [SpaceCharacter] else [])"

definition CheckEightBitChars :: "ustring \<Rightarrow> pw_msg list" where
  "CheckEightBitChars pw = (if list_ex (\<lambda>c. 128 \<le> c \<and> c \<le> 254) pw then [EightBitCharacters] else [])"

definition CheckASCIICharacters :: "ustring \<Rightarrow> pw_msg list" where
  "CheckASCIICharacters pw =
     map BadCharacter (filter (\<lambda>c. \<not> (ascii_letters c \<or> ascii_digits c \<or> punctuation c \<or> c = 32)) pw)"

definition CheckLatinCharacters :: "ustring \<Rightarrow> pw_msg list" where
  "CheckLatinCharacters pw = (if list_all (\<lambda>c. c < 256) pw then [] else [NotLatin1])"

definition CheckIllegalCharacters :: "ustring \<Rightarrow> ustring \<Rightarrow> pw_msg list" where
  "CheckIllegalCharacters illegal_characters pw =
     map IllegalCharacter (filter (\<lambda>c. c \<in> set pw) illegal_characters)"

definition CheckLettersSpacesOnly :: "ustring \<Rightarrow> ustring \<Rightarrow> pw_msg list" where
  "CheckLettersSpacesOnly extra_chars pw =
     (if list_all (\<lambda>c. ascii_letters c \<or> c = 32 \<or> c \<in> set extra_chars) pw then [] else [OnlyLettersAndSpaces])"

definition CheckNumberOfDigits :: "unicode \<Rightarrow> int \<Rightarrow> ustring \<Rightarrow> pw_msg list" where
  "CheckNumberOfDigits u n pw = (if int (length (filter (u_digit u) pw)) < n then [TooFewDigits n] else [])"

definition CheckNumberOfLetters :: "int \<Rightarrow> ustring \<Rightarrow> pw_msg list" where
  "CheckNumberOfLetters n pw = (if int (length (filter ascii_letters pw)) < n then [TooFewLetters n] else [])"

definition CheckMixedCasing :: "ustring \<Rightarrow> pw_msg list" where
  "CheckMixedCasing pw = (if list_ex ascii_lowercase pw \<and> list_ex ascii_uppercase pw then [] else [NotMixedCase])"

section \<open>Length, character groups and entropy\<close>

definition CheckLengthMixin :: "unicode \<Rightarrow> int option \<Rightarrow> int option \<Rightarrow> ustring \<Rightarrow> pw_msg list" where
  "CheckLengthMixin u min_length max_length pw =
     (if min_length \<noteq> None \<and> int (length (ustrip u pw)) < the min_length then [TooShort (the min_length)]
      else if max_length \<noteq> None \<and> int (length pw) > the max_length then [TooLong (the max_length)]
      else [])"

definition count_groups :: "(nat \<Rightarrow> bool) list \<Rightarrow> ustring \<Rightarrow> int list" where
  "count_groups groups pw = map (\<lambda>g. int (length (filter g pw))) groups"

definition CheckSimpleCharacterGroups :: "int \<Rightarrow> int \<Rightarrow> ustring \<Rightarrow> pw_msg list" where
  "CheckSimpleCharacterGroups min_groups min_chars_per_group pw =
     (if int (length (filter (\<lambda>n. n \<ge> min_chars_per_group)
           (count_groups [ascii_lowercase, ascii_uppercase, ascii_digits, punctuation] pw))) < min_groups
      then [TooFewGroups min_chars_per_group min_groups] else [])"

definition character_groups :: "int \<Rightarrow> ustring \<Rightarrow> int \<times> int" where
  "character_groups min_chars_per_group pw =
     (let different_groups = filter (\<lambda>n. n > 0)
            (count_groups [ascii_lowercase, ascii_uppercase, ascii_digits, \<lambda>c. punctuation c \<or> c = 32] pw)
      in (int (length different_groups), int (length (filter (\<lambda>n. n \<ge> min_chars_per_group) different_groups))))"

definition entropy_value :: "int \<Rightarrow> int \<Rightarrow> ustring \<Rightarrow> int" where
  "entropy_value min_groups min_chars_per_group pw =
     (let plength = int (length pw);
          v1 = int (length (take 1 pw)) * 4;
          v2 = v1 + int (length (take 7 (drop 1 pw))) * 2;
          v3 = v2 + (int (length (take 12 (drop 8 pw))) * 3) div 2;
          v4 = (if plength > 20 then v3 + (plength - 20) else v3);
          (different_groups, chars_per_group) = character_groups min_chars_per_group pw
      in if chars_per_group \<ge> min_groups then v4 + 8
         else if different_groups \<ge> min_groups then v4 + 6
         else v4)"

definition CheckSimpleEntropyCalculator :: "int \<Rightarrow> int \<Rightarrow> int \<Rightarrow> ustring \<Rightarrow> pw_msg list" where
  "CheckSimpleEntropyCalculator min_required_entropy min_groups min_chars_per_group pw =
     (let v = entropy_value min_groups min_chars_per_group pw
      in if v < min_required_entropy then [LowEntropy v min_required_entropy] else [])"

definition alnum :: "nat \<Rightarrow> bool" where
  "alnum c \<longleftrightarrow> ascii_letters c \<or> ascii_digits c"

definition bit_of :: "bool \<Rightarrow> nat" where
  "bit_of b = (if b then 1 else 0)"

definition CheckMultipleCharacterSets :: "ustring \<Rightarrow> pw_msg list" where
  "CheckMultipleCharacterSets pw =
     (let first_eight = take 8 pw;
          good_try =
            bit_of (search_classes (ascii_uppercase # replicate 7 (\<lambda>c. \<not> ascii_uppercase c)) first_eight)
            + bit_of (search_classes (replicate 7 (\<lambda>c. \<not> ascii_digits c) @ [ascii_digits]) first_eight)
            + bit_of (search_classes (replicate 7 alnum @ [\<lambda>c. \<not> alnum c]) first_eight);
          variation =
            bit_of (list_ex ascii_lowercase first_eight)
            + bit_of (list_ex ascii_uppercase (take 7 (drop 1 first_eight)))
            + bit_of (list_ex ascii_digits (take 7 first_eight))
            + bit_of (list_ex (\<lambda>c. \<not> alnum c) (take 7 pw))
      in if variation < 3 then (if good_try > 0 then [GoodTry] else [NotEnoughSets]) else [])"

section \<open>Sequences and patterns\<close>

definition add_run :: "(int \<times> int) list \<Rightarrow> int \<Rightarrow> (int \<times> int) list" where
  "add_run tot elt =
     (if tot \<noteq> [] \<and> fst (last tot) = elt then butlast tot @ [(elt, snd (last tot) + 1)] else tot @ [(elt, 1)])"

definition find_adjacent_runs :: "int list \<Rightarrow> (int \<times> int) list" where
  "find_adjacent_runs seq = foldl add_run [] seq"

definition differences :: "int list \<Rightarrow> int list" where
  "differences s = map (\<lambda>(a, b). a - b) (zip (tl s) s)"

definition has_run :: "int \<Rightarrow> int list \<Rightarrow> bool" where
  "has_run char_seq_length s =
     list_ex (\<lambda>(diff, num). (diff = -1 \<or> diff = 1) \<and> num \<ge> char_seq_length) (find_adjacent_runs (differences s))"

definition keyboard_rows :: "ustring list" where
  "keyboard_rows =
     [uni ''qwertyuiop[]'', uni ''qwertyuiop'' @ [229], uni ''asdfghjkl;'' @ [39], uni ''asdfghjkl'' @ [248, 230],
      uni ''zxcvbnm,./'', uni ''zxcvbnm,.-'', uni ''!@#$%^&*()_+|~'', [167, 33, 34] @ uni ''#$%&/()=?'',
      uni ''-1234567890='' @ [92, 96], 229 # uni '',.pyfgcrl'' @ [39], 229 # uni '';:pyfgcrl'' @ [39],
      uni ''aoeuidhtns-<'', 248 # 230 # uni ''qjkxbmwvz'']"

definition key_pairs :: "ustring \<Rightarrow> (nat \<times> nat) list" where
  "key_pairs row = zip row (map Suc [0..<length row])"

definition key_positions :: "ustring \<Rightarrow> ustring \<Rightarrow> int list" where
  "key_positions row pw =
     map (\<lambda>x. case map_of (rev (key_pairs row)) x of Some i \<Rightarrow> int i | None \<Rightarrow> -1) pw"

definition CheckCharacterSequence :: "unicode \<Rightarrow> int \<Rightarrow> ustring \<Rightarrow> pw_msg list" where
  "CheckCharacterSequence u char_seq_length pw =
     (let passwd = ulower u pw
      in (if has_run char_seq_length (map int passwd) then [AlphabeticalOrder] else []) @
         concat (map (\<lambda>row. if has_run char_seq_length (key_positions row passwd) then [KeyboardOrder] else [])
           keyboard_rows))"

text \<open>\<^verbatim>\<open>^(..)\1\1\<close> and the like: a part of \<open>n\<close> characters, none a line break, \<open>k\<close> times at the beginning.\<close>

definition repeats :: "nat \<Rightarrow> nat \<Rightarrow> ustring \<Rightarrow> bool" where
  "repeats n k s \<longleftrightarrow>
     n \<le> length s \<and> 10 \<notin> set (take n s) \<and> starts_with s (concat (replicate k (take n s)))"

definition mirrors :: "nat \<Rightarrow> ustring \<Rightarrow> bool" where
  "mirrors n s \<longleftrightarrow> n \<le> length s \<and> 10 \<notin> set (take n s) \<and> starts_with s (take n s @ rev (take n s))"

definition CheckRepeatedPattern :: "ustring \<Rightarrow> pw_msg list" where
  "CheckRepeatedPattern pw =
     (let first_eight = take 8 pw
      in if repeats 2 3 first_eight \<or> repeats 3 2 first_eight \<or> repeats 4 2 first_eight then [RepeatedSequence]
         else if mirrors 3 first_eight \<or> mirrors 4 first_eight then [RepeatedSequence]
         else [])"

section \<open>Names\<close>

definition CheckUsernameExact :: "unicode \<Rightarrow> account option \<Rightarrow> ustring \<Rightarrow> pw_msg list" where
  "CheckUsernameExact u acc pw =
     (case acc of
        None \<Rightarrow> []
      | Some a \<Rightarrow>
          (case account_name a of
             None \<Rightarrow> []
           | Some uname \<Rightarrow> if substr (ulower u uname) (ulower u pw) then [ContainsUsername] else []))"

definition CheckUsername :: "unicode \<Rightarrow> account option \<Rightarrow> ustring \<Rightarrow> pw_msg list" where
  "CheckUsername u acc pw =
     (case acc of
        None \<Rightarrow> []
      | Some a \<Rightarrow>
          (case account_name a of
             None \<Rightarrow> []
           | Some uname \<Rightarrow>
               if substr (ulower u uname) (ulower u pw) then [ContainsUsername]
               else if substr (ulower u (rev uname)) (ulower u pw) then [ContainsReversedUsername]
               else []))"

text \<open>
  The words of all names, in order. Asking whether a character is in \<^verbatim>\<open>initial_chars\<close> raises when it is
  \<^verbatim>\<open>None\<close>; a word has at least one character.
\<close>

fun exact_name_words :: "unicode \<Rightarrow> ustring option \<Rightarrow> nat \<Rightarrow> ustring \<Rightarrow> ustring list \<Rightarrow> pw_msg list res" where
  "exact_name_words u initial_chars min_length pw [] = Inr []"
| "exact_name_words u initial_chars min_length pw (w # ws) =
     (if min_length \<noteq> 0 \<and> initial_chars = None then Inl TypeError
      else if min_length \<noteq> 0 \<and> length (filter (\<lambda>x. x \<notin> set (the initial_chars)) w) < min_length
      then exact_name_words u initial_chars min_length pw ws
      else if substr (ulower u w) pw then Inr [ContainsName]
      else exact_name_words u initial_chars min_length pw ws)"

definition CheckOwnerNameExactMixin ::
    "unicode \<Rightarrow> ustring option \<Rightarrow> nat \<Rightarrow> account option \<Rightarrow> ustring \<Rightarrow> pw_msg list res" where
  "CheckOwnerNameExactMixin u initial_chars min_length acc pw =
     (case acc of
        None \<Rightarrow> Inr []
      | Some a \<Rightarrow>
          (case owner a of
             Some (Some names) \<Rightarrow>
               exact_name_words u initial_chars min_length (ulower u pw) (concat (map (chunks (u_space u) \<circ> snd) names))
           | _ \<Rightarrow> Inr []))"

definition l33t_speak :: "nat \<Rightarrow> nat" where
  "l33t_speak c = (case map_of (zip (uni ''4831!05$72'') (uni ''abeiiosstz'')) c of Some d \<Rightarrow> d | None \<Rightarrow> c)"

definition make_match :: "ustring list \<Rightarrow> ustring list \<Rightarrow> nat" where
  "make_match name_chunks pwd_chunks =
     sum_list (map (\<lambda>name. sum_list (map (\<lambda>pwd. if starts_with name pwd then length pwd else 0) pwd_chunks)) name_chunks)"

definition all_chunks :: "nat \<Rightarrow> ustring list \<Rightarrow> ustring list" where
  "all_chunks seqlen x =
     (let tmp = concat x
      in if length tmp > seqlen then map (\<lambda>i. take seqlen (drop i tmp)) [0..<length tmp - seqlen] else [tmp])"

definition match_password_to_name :: "unicode \<Rightarrow> ustring \<Rightarrow> ustring \<Rightarrow> nat \<Rightarrow> pw_msg list" where
  "match_password_to_name u name password seqlen =
     (let name = ulower u name; password = ulower u password;
          name_chunks = chunks (u_space u) name;
          pwd_chunks = chunks (\<lambda>c. \<not> ascii_lowercase c) password;
          pwd_l33t_chunks = chunks (\<lambda>c. \<not> ascii_lowercase c) (map l33t_speak password)
      in if make_match name_chunks pwd_chunks \<ge> seqlen \<or> make_match name_chunks pwd_l33t_chunks \<ge> seqlen
         then [ContainsName]
         else if list_ex (\<lambda>n. n \<in> set (all_chunks seqlen (chunks (u_space u) password))) (all_chunks seqlen name_chunks)
         then [ContainsNamePart seqlen]
         else [])"

definition CheckOwnerNameMixin :: "unicode \<Rightarrow> nat \<Rightarrow> account option \<Rightarrow> ustring \<Rightarrow> pw_msg list" where
  "CheckOwnerNameMixin u name_seq_len acc pw =
     (case acc of
        None \<Rightarrow> []
      | Some a \<Rightarrow>
          (case owner a of
             Some (Some names) \<Rightarrow>
               (case find fst names of
                  None \<Rightarrow> []
                | Some (_, name) \<Rightarrow> match_password_to_name u name pw name_seq_len)
           | _ \<Rightarrow> []))"

section \<open>Phrases and old passwords\<close>

definition or_zero :: "int option \<Rightarrow> int" where
  "or_zero x = (case x of None \<Rightarrow> 0 | Some n \<Rightarrow> n)"

definition CheckPhraseWords :: "int option \<Rightarrow> int option \<Rightarrow> ustring \<Rightarrow> pw_msg list" where
  "CheckPhraseWords min_words min_word_length passphrase =
     (let wl = or_zero min_word_length; wds = or_zero min_words; spl = split_on 32 passphrase
      in if int (length (filter (\<lambda>x. int (length x) \<ge> wl) spl)) < wds then [TooFewWords wds wl] else [])"

text \<open>The average is compared as a fraction; \<^verbatim>\<open>split\<close> returns at least one part.\<close>

definition CheckPhraseAverageWordLength :: "int \<Rightarrow> ustring \<Rightarrow> pw_msg list" where
  "CheckPhraseAverageWordLength avg passphrase =
     (let spl = split_on 32 passphrase
      in if avg \<noteq> 0 \<and> int (sum_list (map length spl)) < avg * int (length spl) then [ShortWords avg] else [])"

definition BruteCheckPasswordHistory :: "account option \<Rightarrow> ustring \<Rightarrow> pw_msg list" where
  "BruteCheckPasswordHistory acc pw =
     (case acc of
        None \<Rightarrow> []
      | Some a \<Rightarrow>
          (case brute_history a of
             None \<Rightarrow> []
           | Some similar \<Rightarrow> if similar pw \<or> similar (take 8 pw) then [TooSimilarToOld] else []))"

definition CheckPasswordHistory :: "account option \<Rightarrow> ustring \<Rightarrow> pw_msg list" where
  "CheckPasswordHistory acc pw =
     (case acc of
        None \<Rightarrow> []
      | Some a \<Rightarrow>
          (case old_passwords a of
             None \<Rightarrow> []
           | Some old \<Rightarrow> if old pw \<or> old (take 8 pw) then [SameAsOld] else []))"

definition CurrentPassword :: "account option \<Rightarrow> ustring \<Rightarrow> pw_msg list" where
  "CurrentPassword acc pw =
     (case acc of
        None \<Rightarrow> []
      | Some a \<Rightarrow> (case verify_auth a pw of Inr True \<Rightarrow> [SameAsOld] | _ \<Rightarrow> []))"

section \<open>Runs\<close>

lemma substr_map: "substr w (map f p) \<longleftrightarrow> (\<exists>v. w = map f v \<and> substr v p)"
proof
  assume "substr w (map f p)"
  then obtain a b where ab: "map f p = a @ w @ b" by (auto simp: substr_iff)
  then obtain a' r where r: "p = a' @ r" "w @ b = map f r" unfolding map_eq_append_conv by blast
  obtain v b' where "r = v @ b'" "w = map f v" using r(2) [symmetric] unfolding map_eq_append_conv by blast
  then show "\<exists>v. w = map f v \<and> substr v p" using r(1) by (auto simp: substr_iff)
next
  assume "\<exists>v. w = map f v \<and> substr v p"
  then show "substr w (map f p)" by (fastforce simp: substr_iff)
qed

lemma substr_snoc: "substr w (s @ [x]) \<longleftrightarrow> substr w s \<or> (\<exists>a. s @ [x] = a @ w)"
proof
  assume "substr w (s @ [x])"
  then obtain a b where "s @ [x] = a @ w @ b" by (auto simp: substr_iff)
  then show "substr w s \<or> (\<exists>a. s @ [x] = a @ w)"
    by (cases b rule: rev_cases) (auto simp: substr_iff simp flip: append_assoc)
qed (fastforce simp: substr_iff)

lemma substr_nth:
  "substr w s \<longleftrightarrow> (\<exists>i. i + length w \<le> length s \<and> (\<forall>j < length w. s ! (i + j) = w ! j))"
proof
  assume "substr w s"
  then obtain a b where "s = a @ w @ b" by (auto simp: substr_iff)
  then show "\<exists>i. i + length w \<le> length s \<and> (\<forall>j < length w. s ! (i + j) = w ! j)"
    by (intro exI [of _ "length a"]) (simp add: nth_append)
next
  assume "\<exists>i. i + length w \<le> length s \<and> (\<forall>j < length w. s ! (i + j) = w ! j)"
  then obtain i where i: "i + length w \<le> length s" "\<forall>j < length w. s ! (i + j) = w ! j" by auto
  then have "w = take (length w) (drop i s)" by (intro nth_equalityI) auto
  then have "s = take i s @ w @ drop (length w) (drop i s)" by (metis append_take_drop_id)
  then show "substr w s" by (auto simp: substr_iff)
qed

lemma substr_rev: "substr (rev w) (rev s) \<longleftrightarrow> substr w s"
proof -
  have "substr (rev v) (rev t)" if "substr v t" for v t :: "'a list"
  proof -
    from that obtain a b where "t = a @ v @ b" by (auto simp: substr_iff)
    then have "rev t = rev b @ rev v @ rev a" by simp
    then show ?thesis by (auto simp: substr_iff)
  qed
  from this [of w s] this [of "rev w" "rev s"] show ?thesis by auto
qed

lemma suffix_replicate: "(\<exists>a. s = a @ replicate k d) \<longleftrightarrow> k \<le> length (takeWhile (\<lambda>y. y = d) (rev s))"
proof (induction s arbitrary: k rule: rev_induct)
  case (snoc x s)
  show ?case
  proof (cases k)
    case (Suc n)
    have "(\<exists>a. s @ [x] = a @ replicate k d) \<longleftrightarrow> x = d \<and> (\<exists>a. s = a @ replicate n d)"
      unfolding Suc replicate_Suc replicate_append_same [symmetric] by auto
    then show ?thesis using snoc.IH Suc by simp
  qed simp
qed simp

text \<open>The last run is the trailing block of equal elements.\<close>

lemma runs_snoc: "find_adjacent_runs (s @ [x]) = add_run (find_adjacent_runs s) x"
  by (simp add: find_adjacent_runs_def)

lemma runs_Nil: "find_adjacent_runs [] = []"
  by (simp add: find_adjacent_runs_def)

lemma runs_empty_iff: "find_adjacent_runs s = [] \<longleftrightarrow> s = []"
  by (cases s rule: rev_cases) (auto simp: runs_Nil runs_snoc add_run_def)

lemma takeWhile_last: "s \<noteq> [] \<Longrightarrow> last s \<noteq> x \<Longrightarrow> takeWhile (\<lambda>y. y = x) (rev s) = []"
  by (cases s rule: rev_cases) auto

lemma last_run:
  "s \<noteq> [] \<Longrightarrow> last (find_adjacent_runs s) = (last s, int (length (takeWhile (\<lambda>y. y = last s) (rev s))))"
proof (induction s rule: rev_induct)
  case (snoc x s)
  show ?case
  proof (cases "s = []")
    case False
    then show ?thesis using snoc.IH takeWhile_last [of s x] by (auto simp: runs_snoc add_run_def runs_empty_iff)
  qed (simp add: find_adjacent_runs_def add_run_def)
qed simp

lemma run_iff_block:
  "0 < k \<Longrightarrow> (\<exists>n. (d, n) \<in> set (find_adjacent_runs s) \<and> int k \<le> n) \<longleftrightarrow> substr (replicate k d) s"
proof (induction s rule: rev_induct)
  case Nil
  then show ?case by (cases k) (auto simp: runs_Nil)
next
  case (snoc x s)
  let ?R = "find_adjacent_runs s" and ?t = "length (takeWhile (\<lambda>y. y = d) (rev (s @ [x])))"
  have "(\<exists>n. (d, n) \<in> set (add_run ?R x) \<and> int k \<le> n) \<longleftrightarrow>
      (\<exists>n. (d, n) \<in> set ?R \<and> int k \<le> n) \<or> d = x \<and> k \<le> ?t"
  proof (cases "s \<noteq> [] \<and> last s = x")
    case True
    then have R: "?R = butlast ?R @ [(x, int (length (takeWhile (\<lambda>y. y = x) (rev s))))]"
      using last_run [of s] by (metis append_butlast_last_id runs_empty_iff)
    define B where "B = butlast ?R"
    have "?R = B @ [(x, int (length (takeWhile (\<lambda>y. y = x) (rev s))))]" using R B_def by simp
    then show ?thesis using snoc.prems by (auto simp: add_run_def)
  next
    case False
    then have "add_run ?R x = ?R @ [(x, 1)]" using last_run [of s] by (auto simp: add_run_def runs_empty_iff)
    moreover have "takeWhile (\<lambda>y. y = x) (rev s) = []" using False takeWhile_last [of s x] by (cases "s = []") auto
    ultimately show ?thesis using snoc.prems by auto
  qed
  also have "\<dots> \<longleftrightarrow> substr (replicate k d) s \<or> k \<le> ?t" using snoc by auto
  also have "\<dots> \<longleftrightarrow> substr (replicate k d) (s @ [x])" unfolding substr_snoc suffix_replicate [symmetric] by simp
  finally show ?case by (simp add: runs_snoc)
qed

definition rising :: "int list \<Rightarrow> bool" where
  "rising w \<longleftrightarrow> (\<forall>j. Suc j < length w \<longrightarrow> w ! Suc j = w ! j + 1)"

lemma rising_nth: "rising w \<Longrightarrow> j < length w \<Longrightarrow> w ! j = w ! 0 + int j"
  by (induction j) (auto simp: rising_def)

lemma rising_rev: "rising (rev w) \<longleftrightarrow> (\<forall>j. Suc j < length w \<longrightarrow> w ! Suc j = w ! j - 1)"
proof -
  have "rising (rev v) \<Longrightarrow> Suc j < length v \<Longrightarrow> v ! Suc j = v ! j - 1" for v j
  proof -
    assume r: "rising (rev v)" and j: "Suc j < length v"
    have "length v - Suc (length v - Suc (Suc j)) = Suc j" "length v - Suc (Suc (length v - Suc (Suc j))) = j"
      "Suc (length v - Suc (Suc j)) < length v"
      using j by auto
    then show ?thesis using r j unfolding rising_def
      by (metis (no_types, lifting) add_diff_cancel_right' length_rev rev_nth Suc_lessD)
  qed
  moreover have "rising (rev w)" if *: "\<forall>j. Suc j < length w \<longrightarrow> w ! Suc j = w ! j - 1"
  proof (unfold rising_def, intro allI impI)
    fix j
    assume j: "Suc j < length (rev w)"
    then have "w ! Suc (length w - Suc (Suc j)) = w ! (length w - Suc (Suc j)) - 1" using * by simp
    moreover have "Suc (length w - Suc (Suc j)) = length w - Suc j" using j by simp
    ultimately show "rev w ! Suc j = rev w ! j + 1" using j by (simp add: rev_nth)
  qed
  ultimately show ?thesis by blast
qed

lemma length_differences: "length (differences s) = length s - 1"
  by (cases s) (simp_all add: differences_def)

lemma nth_differences: "Suc i < length s \<Longrightarrow> differences s ! i = s ! Suc i - s ! i"
  by (cases s) (simp_all add: differences_def)

lemma block_differences:
  "0 < k \<Longrightarrow> substr (replicate k d) (differences s) \<longleftrightarrow>
    (\<exists>w. length w = Suc k \<and> substr w s \<and> (\<forall>j < k. w ! Suc j - w ! j = d))"
proof
  assume k: "0 < k" and "substr (replicate k d) (differences s)"
  then obtain i where i: "i + k \<le> length s - 1" "\<forall>j < k. differences s ! (i + j) = d"
    by (auto simp: substr_nth length_differences)
  let ?w = "take (Suc k) (drop i s)"
  have "s = take i s @ ?w @ drop (Suc k) (drop i s)" by (metis append_take_drop_id)
  then have "substr ?w s" unfolding substr_iff by blast
  moreover have "length ?w = Suc k" using i k by simp
  moreover have "\<forall>j < k. ?w ! Suc j - ?w ! j = d" using i k by (auto simp: nth_differences)
  ultimately show "\<exists>w. length w = Suc k \<and> substr w s \<and> (\<forall>j < k. w ! Suc j - w ! j = d)" by blast
next
  assume "\<exists>w. length w = Suc k \<and> substr w s \<and> (\<forall>j < k. w ! Suc j - w ! j = d)"
  then obtain w i where w: "length w = Suc k" "\<forall>j < k. w ! Suc j - w ! j = d" "i + Suc k \<le> length s"
    "\<forall>j < Suc k. s ! (i + j) = w ! j"
    by (auto simp: substr_nth)
  have "differences s ! (i + j) = d" if "j < k" for j
    using that w(2,3) w(4) [rule_format, of j] w(4) [rule_format, of "Suc j"] by (simp add: nth_differences)
  then show "substr (replicate k d) (differences s)"
    using w(3) by (auto simp: substr_nth length_differences intro!: exI [of _ i])
qed

lemma has_run_iff:
  assumes "0 < k"
  shows "has_run (int k) s \<longleftrightarrow> (\<exists>w. length w = Suc k \<and> substr w s \<and> (rising w \<or> rising (rev w)))"
proof -
  have "has_run (int k) s \<longleftrightarrow> (\<exists>d \<in> {1, -1}. substr (replicate k d) (differences s))"
    unfolding run_iff_block [OF assms, symmetric] by (force simp: has_run_def list_ex_iff)
  also have "\<dots> \<longleftrightarrow> (\<exists>d \<in> {1, -1}. \<exists>w. length w = Suc k \<and> substr w s \<and> (\<forall>j < k. w ! Suc j - w ! j = d))"
    by (simp add: block_differences [OF assms])
  also have "\<dots> \<longleftrightarrow> (\<exists>w. length w = Suc k \<and> substr w s \<and> (rising w \<or> rising (rev w)))"
    unfolding rising_rev by (auto simp: rising_def algebra_simps)
  finally show ?thesis .
qed

section \<open>Neighbouring characters\<close>

text \<open>A word in the order of the alphabet (of the code points), or in that of a row of keys.\<close>

definition in_order :: "ustring \<Rightarrow> bool" where
  "in_order w \<longleftrightarrow> (\<exists>c. w = [c..<c + length w]) \<or> list_ex (substr w) keyboard_rows"

lemma rising_code_points: "rising (map int w) \<longleftrightarrow> (\<exists>c. w = [c..<c + length w])"
proof
  assume r: "rising (map int w)"
  have "w = [w ! 0..<w ! 0 + length w]"
  proof (intro nth_equalityI)
    fix j
    assume j: "j < length w"
    moreover have "0 < length w" using j by (cases w) auto
    ultimately have "int (w ! j) = int (w ! 0) + int j"
      using rising_nth [OF r, of j] nth_map [of j w int] nth_map [of 0 w int] by (metis length_map)
    then show "w ! j = [w ! 0..<w ! 0 + length w] ! j" using j by (simp del: upt_Suc add: nth_upt)
  qed simp
  then show "\<exists>c. w = [c..<c + length w]" ..
next
  assume "\<exists>c. w = [c..<c + length w]"
  then obtain c where "w = [c..<c + length w]" ..
  then have "\<forall>j < length w. w ! j = c + j" by (metis nth_upt nat_add_left_cancel_less)
  then show "rising (map int w)" by (auto simp: rising_def)
qed

definition key_position :: "ustring \<Rightarrow> nat \<Rightarrow> int" where
  "key_position row x = (case map_of (rev (key_pairs row)) x of Some i \<Rightarrow> int i | None \<Rightarrow> -1)"

lemma key_positions_map: "key_positions row pw = map (key_position row) pw"
  by (simp add: key_positions_def key_position_def)

lemma set_key_pairs: "(x, n) \<in> set (key_pairs row) \<longleftrightarrow> (\<exists>i < length row. row ! i = x \<and> n = Suc i)"
  by (auto simp: key_pairs_def in_set_zip)

lemma key_position_iff:
  assumes "distinct row"
  shows "key_position row x = int (Suc i) \<longleftrightarrow> i < length row \<and> row ! i = x"
proof -
  have "distinct (map fst (rev (key_pairs row)))" using assms by (simp add: key_pairs_def rev_map [symmetric])
  then have *: "map_of (rev (key_pairs row)) x = Some n \<longleftrightarrow> (\<exists>i < length row. row ! i = x \<and> n = Suc i)" for n
    using set_key_pairs [of x n row] by simp
  show ?thesis
  proof (cases "map_of (rev (key_pairs row)) x")
    case None
    then have "\<not> (i < length row \<and> row ! i = x)" using * [of "Suc i"] by auto
    then show ?thesis using None by (auto simp: key_position_def)
  next
    case (Some n)
    then have "int n = int (Suc i) \<longleftrightarrow> i < length row \<and> row ! i = x"
      using * [of n] * [of "Suc i"] by auto
    then show ?thesis using Some by (simp add: key_position_def)
  qed
qed

lemma key_position_cases: "key_position row x = -1 \<or> (\<exists>i. key_position row x = int (Suc i))"
proof -
  have "\<exists>i. n = Suc i" if "map_of (rev (key_pairs row)) x = Some n" for n
    using map_of_SomeD [OF that] set_key_pairs [of x n row] by auto
  then show ?thesis by (cases "map_of (rev (key_pairs row)) x") (auto simp: key_position_def)
qed

lemma rising_keys:
  assumes "distinct row" "1 < length w"
  shows "rising (map (key_position row) w) \<longleftrightarrow> substr w row"
proof
  assume r: "rising (map (key_position row) w)"
  have w0: "0 < length w" using assms(2) by linarith
  have "key_position row (w ! Suc 0) = key_position row (w ! 0) + 1"
    using r assms(2) by (simp add: rising_def)
  then obtain i where "key_position row (w ! 0) = int (Suc i)"
    using key_position_cases [of row "w ! 0"] key_position_cases [of row "w ! Suc 0"] by auto
  then have "key_position row (w ! j) = int (Suc (i + j))" if "j < length w" for j
    using rising_nth [OF r, of j, unfolded length_map, OF that] nth_map [OF that, of "key_position row"]
      nth_map [OF w0, of "key_position row"]
    by linarith
  then have nth: "i + j < length row \<and> row ! (i + j) = w ! j" if "j < length w" for j
    using that key_position_iff [OF assms(1)] by blast
  moreover have "i + length w \<le> length row" using nth [of "length w - 1"] w0 by linarith
  ultimately show "substr w row" by (auto simp: substr_nth)
next
  assume "substr w row"
  then obtain i where i: "i + length w \<le> length row" "\<forall>j < length w. row ! (i + j) = w ! j" by (auto simp: substr_nth)
  then have "key_position row (w ! j) = int (Suc (i + j))" if "j < length w" for j
    using that key_position_iff [OF assms(1), of "w ! j" "i + j"] by simp
  then show "rising (map (key_position row) w)" by (simp add: rising_def)
qed

lemma keyboard_rows_distinct: "list_all distinct keyboard_rows"
  by code_simp

lemma has_run_map:
  assumes "0 < k"
  shows "has_run (int k) (map f p) \<longleftrightarrow>
    (\<exists>w. length w = Suc k \<and> substr w p \<and> (rising (map f w) \<or> rising (map f (rev w))))"
proof -
  have "(\<exists>w. length w = Suc k \<and> (\<exists>v. w = map f v \<and> substr v p) \<and> Q w) \<longleftrightarrow>
      (\<exists>v. length v = Suc k \<and> substr v p \<and> Q (map f v))" for Q
    by (metis length_map)
  then show ?thesis unfolding has_run_iff [OF assms] substr_map by (simp add: rev_map)
qed

lemma CheckCharacterSequence_empty:
  "CheckCharacterSequence u k pw \<noteq> [] \<longleftrightarrow>
    has_run k (map int (ulower u pw)) \<or> (\<exists>row \<in> set keyboard_rows. has_run k (map (key_position row) (ulower u pw)))"
  by (auto simp: CheckCharacterSequence_def Let_def key_positions_map)

text \<open>
  The check for sequences with \<^verbatim>\<open>char_seq_length\<close> \<open>k\<close> refuses exactly the passwords that, in small letters,
  contain \<open>k + 1\<close> characters in a row that stand next to each other in the alphabet of code points or on one of
  the keyboard rows, forwards or backwards.
\<close>

theorem sequence_check_decides:
  assumes "0 < k"
  shows "CheckCharacterSequence u (int k) pw \<noteq> [] \<longleftrightarrow>
    (\<exists>w. length w = Suc k \<and> substr w (ulower u pw) \<and> (in_order w \<or> in_order (rev w)))"
proof -
  have keys: "rising (map (key_position row) w) \<longleftrightarrow> substr w row" if "row \<in> set keyboard_rows" "length w = Suc k" for row w
    using that keyboard_rows_distinct assms by (intro rising_keys) (auto simp: list_all_iff)
  have ord: "in_order w \<longleftrightarrow> rising (map int w) \<or> (\<exists>row \<in> set keyboard_rows. rising (map (key_position row) w))"
    if "length w = Suc k" for w
    using that by (auto simp: in_order_def rising_code_points list_ex_iff keys)
  have "CheckCharacterSequence u (int k) pw \<noteq> [] \<longleftrightarrow>
      (\<exists>w. length w = Suc k \<and> substr w (ulower u pw) \<and>
        ((rising (map int w) \<or> (\<exists>row \<in> set keyboard_rows. rising (map (key_position row) w))) \<or>
         (rising (map int (rev w)) \<or> (\<exists>row \<in> set keyboard_rows. rising (map (key_position row) (rev w))))))"
    unfolding CheckCharacterSequence_empty has_run_map [OF assms] by blast
  also have "\<dots> \<longleftrightarrow> (\<exists>w. length w = Suc k \<and> substr w (ulower u pw) \<and> (in_order w \<or> in_order (rev w)))"
    by (intro ex_cong1) (auto simp: ord)
  finally show ?thesis .
qed

text \<open>The password contains four letters in reverse order.\<close>

theorem sequence_check_decides_witness:
  "(0::nat) < 3 \<and> CheckCharacterSequence latin1 3 (uni ''xDcbA'') \<noteq> [] \<and>
   (\<exists>w. length w = Suc 3 \<and> substr w (ulower latin1 (uni ''xDcbA'')) \<and> (in_order w \<or> in_order (rev w)))"
proof -
  let ?w = "[100, 99, 98, 97] :: ustring"
  have low: "ulower latin1 (uni ''xDcbA'') = 120 # ?w" by (simp add: ulower_def latin1_def uni_def)
  have "rev ?w = [97..<97 + length (rev ?w)]" by (simp add: upt_rec)
  then have "in_order (rev ?w)" unfolding in_order_def by blast
  moreover have "substr ?w (ulower latin1 (uni ''xDcbA''))" by (simp add: low)
  ultimately have "\<exists>w. length w = Suc 3 \<and> substr w (ulower latin1 (uni ''xDcbA'')) \<and> (in_order w \<or> in_order (rev w))"
    by (intro exI [of _ ?w]) simp
  then show ?thesis using sequence_check_decides [of 3 latin1 "uni ''xDcbA''"] by simp
qed

section \<open>Entropy\<close>

lemma length_filter_mset: "mset xs \<subseteq># mset ys \<Longrightarrow> length (filter p xs) \<le> length (filter p ys)"
  by (metis mset_filter multiset_filter_mono size_mset size_mset_mono)

lemma count_groups_mono: "mset xs \<subseteq># mset ys \<Longrightarrow> list_all2 (\<le>) (count_groups gs xs) (count_groups gs ys)"
  by (simp add: count_groups_def list_all2_map1 list_all2_map2 length_filter_mset list_all2_same)

lemma length_filter_above:
  "list_all2 (\<le>) xs (ys :: int list) \<Longrightarrow> (\<And>x y. p x \<Longrightarrow> x \<le> y \<Longrightarrow> p y) \<Longrightarrow> length (filter p xs) \<le> length (filter p ys)"
  by (induction rule: list_all2_induct) (auto simp: le_SucI)

lemma character_groups_mono:
  assumes "mset xs \<subseteq># mset ys"
  shows "fst (character_groups m xs) \<le> fst (character_groups m ys) \<and> snd (character_groups m xs) \<le> snd (character_groups m ys)"
  using length_filter_above [OF count_groups_mono [OF assms], of "\<lambda>n. n > 0"]
    length_filter_above [OF count_groups_mono [OF assms], of "\<lambda>n. n > 0 \<and> n \<ge> m"]
  by (auto simp: character_groups_def Let_def filter_filter conj_commute)

text \<open>The points for the length, as one sum.\<close>

definition length_points :: "nat \<Rightarrow> int" where
  "length_points n = int (min n 1) * 4 + int (min (n - 1) 7) * 2 + (int (min (n - 8) 12) * 3) div 2 + int (n - 20)"

lemma length_points_mono: "n \<le> n' \<Longrightarrow> length_points n \<le> length_points n'"
  unfolding length_points_def by (intro add_mono zdiv_mono1) auto

lemma entropy_value_eq:
  "entropy_value g m pw =
     length_points (length pw) +
     (if snd (character_groups m pw) \<ge> g then 8 else if fst (character_groups m pw) \<ge> g then 6 else 0)"
proof -
  obtain a b where ab: "character_groups m pw = (a, b)" by (cases "character_groups m pw")
  have "(if int (length pw) > 20 then x + (int (length pw) - 20) else x) = x + int (length pw - 20)" for x
    by simp
  then show ?thesis by (simp add: entropy_value_def Let_def ab length_points_def min.commute)
qed

text \<open>
  A password that has all characters of another one, in any order, has at least its entropy points: adding
  characters never makes an accepted password too weak.
\<close>

theorem entropy_monotone:
  assumes "mset pw \<subseteq># mset pw'"
  shows "entropy_value g m pw \<le> entropy_value g m pw' \<and>
    (CheckSimpleEntropyCalculator e g m pw = [] \<longrightarrow> CheckSimpleEntropyCalculator e g m pw' = [])"
proof -
  have "length pw \<le> length pw'" using size_mset_mono [OF assms] by simp
  then have "entropy_value g m pw \<le> entropy_value g m pw'"
    using length_points_mono character_groups_mono [OF assms, of m] by (fastforce simp: entropy_value_eq)
  then show ?thesis by (simp add: CheckSimpleEntropyCalculator_def Let_def)
qed

theorem entropy_monotone_witness:
  "mset (uni ''aB3'') \<subseteq># mset (uni ''3aB?'') \<and> entropy_value 3 2 (uni ''aB3'') \<le> entropy_value 3 2 (uni ''3aB?'') \<and>
   entropy_value 3 2 (uni ''3aB?'') = 16"
proof -
  have "mset (uni ''aB3'') \<subseteq># mset (uni ''3aB?'')" by (simp add: uni_def)
  moreover have "entropy_value 3 2 (uni ''3aB?'') = 16" by code_simp
  ultimately show ?thesis using entropy_monotone by blast
qed

section \<open>The owner's name\<close>

text \<open>The end of a name and of a password is never among the parts that are compared.\<close>

lemma all_chunks_parts:
  assumes "n < length (concat x)"
  shows "set (all_chunks n x) = {w. length w = n \<and> (\<exists>a b. concat x = a @ w @ b \<and> b \<noteq> [])}"
proof (intro set_eqI iffI)
  fix w
  assume "w \<in> set (all_chunks n x)"
  then obtain i where i: "i < length (concat x) - n" "w = take n (drop i (concat x))"
    using assms by (auto simp: all_chunks_def Let_def)
  have "concat x = take i (concat x) @ w @ drop n (drop i (concat x))" using i(2) by (metis append_take_drop_id)
  moreover have "drop n (drop i (concat x)) \<noteq> []" "length w = n" using i by auto
  ultimately show "w \<in> {w. length w = n \<and> (\<exists>a b. concat x = a @ w @ b \<and> b \<noteq> [])}" by blast
next
  fix w
  assume "w \<in> {w. length w = n \<and> (\<exists>a b. concat x = a @ w @ b \<and> b \<noteq> [])}"
  then obtain a b where ab: "length w = n" "concat x = a @ w @ b" "b \<noteq> []" by auto
  then have "w = take n (drop (length a) (concat x))" "length a < length (concat x) - n" by (auto simp: length_greater_0_conv)
  then show "w \<in> set (all_chunks n x)" using assms by (auto simp: all_chunks_def Let_def)
qed

text \<open>
  The loop that lists the parts of a string of the given length stops one part too early. The owner of the
  account is called Krokodil; a password that contains the last five letters of the name passes the check of
  five characters, while one with the five letters before is refused.
\<close>

theorem owner_name_misses_end:
  "match_password_to_name latin1 (uni ''Krokodil'') (uni ''7kodil7'') 5 = [] \<and>
   substr (uni ''kodil'') (uni ''krokodil'') \<and> substr (uni ''kodil'') (uni ''7kodil7'') \<and>
   match_password_to_name latin1 (uni ''Krokodil'') (uni ''7okodi7'') 5 = [ContainsNamePart 5]"
  by code_simp

end
