(* ===== verification/Pw_Checker.thy ===== *)
theory Pw_Checker
  imports Pw_Checks
begin

text \<open>
  Running the configured password checks: \<^verbatim>\<open>check_password\<close> of \<^verbatim>\<open>src/Cerebrum/modules/pwcheck/checker.py\<close>. An
  entry of \<^verbatim>\<open>PASSWORD_CHECKS\<close>, the name of a checker class and its arguments, is a value of \<open>checker\<close>; the
  checks of \<^verbatim>\<open>dictionary.py\<close>, which read word lists from files, are \<open>OtherCheck\<close> with the function \<open>other\<close> they
  compute as an argument. The translations of the messages are display text, so that one message list stands
  for all languages, but the loop over the languages is kept: it writes the table of errors.

  Shown: the structured report and the answer by exception agree when no style names a check twice, and the
  exception carries the first message of the first failed check; a style that names a check twice loses
  errors or raises \<^verbatim>\<open>TypeError\<close>.
\<close>

section \<open>Checkers\<close>

datatype checker =
    SpaceOrNull
  | EightBit
  | AsciiOnly
  | Latin1Only
  | IllegalChars ustring
  | CharacterGroups int int
  | EntropyCalculator int int int
  | Length "int option" "int option"
  | MultipleSets
  | CharacterSequence int
  | RepeatedPattern
  | ExactUsername
  | Username
  | ExactOwnerName "ustring option" nat
  | OwnerName nat
  | LettersAndSpaces ustring
  | NumberOfDigits int
  | NumberOfLetters int
  | MixedCasing
  | NumWords "int option" "int option"
  | AvgWordLength int
  | BruteHistory
  | History
  | Current
  | OtherCheck string

fun check_name :: "checker \<Rightarrow> string" where
  "check_name SpaceOrNull = ''space_or_null''"
| "check_name EightBit = ''8bit_characters''"
| "check_name AsciiOnly = ''ascii_characters_only''"
| "check_name Latin1Only = ''latin1_characters_only''"
| "check_name (IllegalChars _) = ''illegal_characters''"
| "check_name (CharacterGroups _ _) = ''simple_character_groups''"
| "check_name (EntropyCalculator _ _ _) = ''simple_entropy_calculator''"
| "check_name (Length _ _) = ''length''"
| "check_name MultipleSets = ''multiple_character_sets''"
| "check_name (CharacterSequence _) = ''character_sequence''"
| "check_name RepeatedPattern = ''repeated_pattern''"
| "check_name ExactUsername = ''exact_username''"
| "check_name Username = ''username''"
| "check_name (ExactOwnerName _ _) = ''exact_owner_name''"
| "check_name (OwnerName _) = ''owner_name''"
| "check_name (LettersAndSpaces _) = ''letters_and_spaces_only''"
| "check_name (NumberOfDigits _) = ''number_of_digits''"
| "check_name (NumberOfLetters _) = ''number_of_letters''"
| "check_name MixedCasing = ''mixed_casing''"
| "check_name (NumWords _ _) = ''num_words''"
| "check_name (AvgWordLength _) = ''avg_word_length''"
| "check_name BruteHistory = ''brute_history''"
| "check_name History = ''history''"
| "check_name Current = ''current''"
| "check_name (OtherCheck n) = n"

text \<open>What the checks depend on besides the password.\<close>

record pw_env =
  unicode_db :: unicode
  pw_account :: "account option"
  other :: "string \<Rightarrow> ustring \<Rightarrow> pw_msg list res"

fun run_checker :: "pw_env \<Rightarrow> checker \<Rightarrow> ustring \<Rightarrow> pw_msg list res" where
  "run_checker e SpaceOrNull pw = Inr (CheckSpaceOrNull pw)"
| "run_checker e EightBit pw = Inr (CheckEightBitChars pw)"
| "run_checker e AsciiOnly pw = Inr (CheckASCIICharacters pw)"
| "run_checker e Latin1Only pw = Inr (CheckLatinCharacters pw)"
| "run_checker e (IllegalChars cs) pw = Inr (CheckIllegalCharacters cs pw)"
| "run_checker e (CharacterGroups g m) pw = Inr (CheckSimpleCharacterGroups g m pw)"
| "run_checker e (EntropyCalculator r g m) pw = Inr (CheckSimpleEntropyCalculator r g m pw)"
| "run_checker e (Length lo hi) pw = Inr (CheckLengthMixin (unicode_db e) lo hi pw)"
| "run_checker e MultipleSets pw = Inr (CheckMultipleCharacterSets pw)"
| "run_checker e (CharacterSequence k) pw = Inr (CheckCharacterSequence (unicode_db e) k pw)"
| "run_checker e RepeatedPattern pw = Inr (CheckRepeatedPattern pw)"
| "run_checker e ExactUsername pw = Inr (CheckUsernameExact (unicode_db e) (pw_account e) pw)"
| "run_checker e Username pw = Inr (CheckUsername (unicode_db e) (pw_account e) pw)"
| "run_checker e (ExactOwnerName cs m) pw = CheckOwnerNameExactMixin (unicode_db e) cs m (pw_account e) pw"
| "run_checker e (OwnerName k) pw = Inr (CheckOwnerNameMixin (unicode_db e) k (pw_account e) pw)"
| "run_checker e (LettersAndSpaces cs) pw = Inr (CheckLettersSpacesOnly cs pw)"
| "run_checker e (NumberOfDigits n) pw = Inr (CheckNumberOfDigits (unicode_db e) n pw)"
| "run_checker e (NumberOfLetters n) pw = Inr (CheckNumberOfLetters n pw)"
| "run_checker e MixedCasing pw = Inr (CheckMixedCasing pw)"
| "run_checker e (NumWords n m) pw = Inr (CheckPhraseWords n m pw)"
| "run_checker e (AvgWordLength n) pw = Inr (CheckPhraseAverageWordLength n pw)"
| "run_checker e BruteHistory pw = Inr (BruteCheckPasswordHistory (pw_account e) pw)"
| "run_checker e History pw = Inr (CheckPasswordHistory (pw_account e) pw)"
| "run_checker e Current pw = Inr (CurrentPassword (pw_account e) pw)"
| "run_checker e (OtherCheck n) pw = other e n pw"

section \<open>The loop over the checks\<close>

type_synonym checkers_dict = "(string \<times> checker list) list"

datatype pw_class = PasswordNotGoodEnough | RigidPasswordNotGoodEnough | PhrasePasswordNotGoodEnough

definition exception_class :: "string \<Rightarrow> pw_class" where
  "exception_class style =
     (if style = ''rigid'' then RigidPasswordNotGoodEnough
      else if style = ''phrase'' then PhrasePasswordNotGoodEnough else PasswordNotGoodEnough)"

definition configured :: "checkers_dict \<Rightarrow> string \<Rightarrow> bool" where
  "configured d style = (case map_of d style of Some (_ # _) \<Rightarrow> True | _ \<Rightarrow> False)"

definition allowed_style_of :: "checkers_dict \<Rightarrow> string" where
  "allowed_style_of d =
     (if configured d ''rigid'' \<and> configured d ''phrase'' then ''mixed''
      else if configured d ''phrase'' then ''phrase'' else ''rigid'')"

definition pwstyle_of :: "checkers_dict \<Rightarrow> ustring \<Rightarrow> string" where
  "pwstyle_of d password =
     (if allowed_style_of d = ''mixed'' then (if 32 \<in> set password then ''phrase'' else ''rigid'')
      else allowed_style_of d)"

text \<open>
  The table \<^verbatim>\<open>errors\<close>: for a style and a check, Python's \<^verbatim>\<open>None\<close> or the messages by language. Assigning an
  item to \<^verbatim>\<open>None\<close> raises.
\<close>

type_synonym pw_errors = "string \<times> string \<Rightarrow> (string \<times> pw_msg list) list option option"

definition put_error :: "string \<times> string \<Rightarrow> string \<Rightarrow> pw_msg list \<Rightarrow> pw_errors \<Rightarrow> pw_errors res" where
  "put_error key lang err errors =
     (case errors key of
        None \<Rightarrow> Inr (errors(key \<mapsto> Some [(lang, err)]))
      | Some None \<Rightarrow> Inl TypeError
      | Some (Some d) \<Rightarrow> Inr (errors(key \<mapsto> Some (dict_set lang err d))))"

datatype 'a outcome = Refused pw_class pw_msg | Going 'a

definition go_on :: "'a outcome res \<Rightarrow> ('a \<Rightarrow> 'b outcome res) \<Rightarrow> 'b outcome res" where
  "go_on r f = res_bind r (\<lambda>oc. case oc of Refused c m \<Rightarrow> Inr (Refused c m) | Going x \<Rightarrow> f x)"

fun check_langs ::
    "pw_env \<Rightarrow> bool \<Rightarrow> string \<Rightarrow> ustring \<Rightarrow> string \<Rightarrow> checker \<Rightarrow> string list \<Rightarrow> pw_errors \<Rightarrow> pw_errors outcome res" where
  "check_langs e structured pwstyle pw style c [] errors = Inr (Going errors)"
| "check_langs e structured pwstyle pw style c (lang # langs) errors =
     res_bind (run_checker e c pw) (\<lambda>err.
       if \<not> structured \<and> err \<noteq> [] \<and> pwstyle = style then Inr (Refused (exception_class style) (hd err))
       else res_bind
              (if err \<noteq> [] then put_error (style, check_name c) lang err errors
               else Inr (errors((style, check_name c) \<mapsto> None)))
              (\<lambda>errors. check_langs e structured pwstyle pw style c langs errors))"

fun check_style ::
    "pw_env \<Rightarrow> bool \<Rightarrow> string \<Rightarrow> ustring \<Rightarrow> string list \<Rightarrow> string \<Rightarrow> checker list \<Rightarrow> pw_errors \<Rightarrow> pw_errors outcome res" where
  "check_style e structured pwstyle pw langs style [] errors = Inr (Going errors)"
| "check_style e structured pwstyle pw langs style (c # cs) errors =
     go_on (check_langs e structured pwstyle pw style c langs errors)
       (\<lambda>errors. check_style e structured pwstyle pw langs style cs errors)"

fun check_styles ::
    "pw_env \<Rightarrow> bool \<Rightarrow> string \<Rightarrow> ustring \<Rightarrow> string list \<Rightarrow> checkers_dict \<Rightarrow> pw_errors \<Rightarrow> pw_errors outcome res" where
  "check_styles e structured pwstyle pw langs [] errors = Inr (Going errors)"
| "check_styles e structured pwstyle pw langs ((style, checks) # d) errors =
     go_on (check_style e structured pwstyle pw langs style checks errors)
       (\<lambda>errors. check_styles e structured pwstyle pw langs d errors)"

section \<open>The answer\<close>

record check_entry =
  ce_name :: string
  ce_passed :: bool
  ce_errors :: "(string \<times> pw_msg list) list option option"

record report =
  rp_passed :: bool
  rp_allowed_style :: string
  rp_style :: string
  rp_checks :: "(string \<times> check_entry list) list"

datatype pw_answer = Accepted | Raised pw_class pw_msg | Report report

definition failed :: "pw_errors \<Rightarrow> string \<times> string \<Rightarrow> bool" where
  "failed errors key = (case errors key of Some (Some (_ # _)) \<Rightarrow> True | _ \<Rightarrow> False)"

definition entries :: "pw_errors \<Rightarrow> string \<Rightarrow> checker list \<Rightarrow> check_entry list" where
  "entries errors style checks =
     map (\<lambda>c. \<lparr>ce_name = check_name c, ce_passed = (\<not> failed errors (style, check_name c)),
               ce_errors = errors (style, check_name c)\<rparr>) checks"

definition build_report :: "checkers_dict \<Rightarrow> ustring \<Rightarrow> pw_errors \<Rightarrow> report" where
  "build_report d pw errors =
     \<lparr>rp_passed = list_all (\<lambda>(style, checks). style = pwstyle_of d pw \<longrightarrow> list_all ce_passed (entries errors style checks)) d,
      rp_allowed_style = allowed_style_of d, rp_style = pwstyle_of d pw,
      rp_checks = map (\<lambda>(style, checks). (style, entries errors style checks)) (filter (\<lambda>(_, checks). checks \<noteq> []) d)\<rparr>"

definition check_password ::
    "pw_env \<Rightarrow> string list \<Rightarrow> checkers_dict \<Rightarrow> checkers_dict option \<Rightarrow> bool \<Rightarrow> ustring \<Rightarrow> pw_answer res" where
  "check_password e langs password_checks checkers structured pw =
     (let d = (case checkers of Some d \<Rightarrow> d | None \<Rightarrow> password_checks)
      in res_bind (check_styles e structured (pwstyle_of d pw) pw langs d Map.empty) (\<lambda>oc.
           case oc of
             Refused c m \<Rightarrow> Inr (Raised c m)
           | Going errors \<Rightarrow> Inr (if structured then Report (build_report d pw errors) else Accepted)))"

section \<open>Both answers agree\<close>

lemma go_on_simps [simp]:
  "go_on (Inl ex) f = Inl ex" "go_on (Inr (Refused c m)) f = Inr (Refused c m)" "go_on (Inr (Going x)) f = f x"
  by (simp_all add: go_on_def)

text \<open>What a check says, and what the loop writes for it.\<close>

definition messages :: "pw_env \<Rightarrow> ustring \<Rightarrow> checker \<Rightarrow> pw_msg list" where
  "messages e pw c = (case run_checker e c pw of Inr m \<Rightarrow> m | Inl _ \<Rightarrow> [])"

definition written :: "string list \<Rightarrow> pw_msg list \<Rightarrow> (string \<times> pw_msg list) list option" where
  "written langs err = (if err = [] then None else Some (fold (\<lambda>l. dict_set l err) langs []))"

definition table :: "pw_env \<Rightarrow> ustring \<Rightarrow> string list \<Rightarrow> string \<Rightarrow> checker list \<Rightarrow>
    ((string \<times> string) \<times> (string \<times> pw_msg list) list option) list" where
  "table e pw langs style cs = map (\<lambda>c. ((style, check_name c), written langs (messages e pw c))) cs"

lemma check_langs_passed:
  "run_checker e c pw = Inr [] \<Longrightarrow> langs \<noteq> [] \<Longrightarrow>
    check_langs e st ps pw style c langs errors = Inr (Going (errors((style, check_name c) \<mapsto> None)))"
proof (induction langs arbitrary: errors)
  case (Cons l langs)
  then show ?case by (cases langs) auto
qed simp

lemma check_langs_more:
  "run_checker e c pw = Inr err \<Longrightarrow> err \<noteq> [] \<Longrightarrow> st \<or> ps \<noteq> style \<Longrightarrow> errors (style, check_name c) = Some (Some m) \<Longrightarrow>
    check_langs e st ps pw style c langs errors =
      Inr (Going (errors((style, check_name c) \<mapsto> Some (fold (\<lambda>l. dict_set l err) langs m))))"
proof (induction langs arbitrary: errors m)
  case Nil
  then show ?case by (simp add: fun_upd_idem)
next
  case (Cons l langs)
  then show ?case by (auto simp: put_error_def)
qed

lemma check_langs_eq:
  assumes "run_checker e c pw = Inr err" "langs \<noteq> []" "errors (style, check_name c) = None"
  shows "check_langs e st ps pw style c langs errors =
    Inr (if \<not> st \<and> err \<noteq> [] \<and> ps = style then Refused (exception_class style) (hd err)
         else Going (errors((style, check_name c) \<mapsto> written langs err)))"
proof (cases langs)
  case (Cons l ls)
  show ?thesis
  proof (cases "err = [] \<or> \<not> st \<and> ps = style")
    case True
    then show ?thesis using assms check_langs_passed [of e c pw langs st ps style errors] Cons
      by (auto simp: written_def)
  next
    case False
    then show ?thesis
      using assms Cons check_langs_more [of e c pw err st ps style "errors((style, check_name c) \<mapsto> Some [(l, err)])"]
      by (auto simp: put_error_def written_def)
  qed
qed (use assms in simp)

text \<open>A configuration the loop can run: no style names a check twice, and every check returns.\<close>

definition runnable :: "pw_env \<Rightarrow> ustring \<Rightarrow> checkers_dict \<Rightarrow> bool" where
  "runnable e pw d \<longleftrightarrow>
     distinct (keys d) \<and>
     list_all (\<lambda>(style, checks). distinct (map check_name checks) \<and> list_all (\<lambda>c. is_ok (run_checker e c pw)) checks) d"

definition first_failure :: "pw_env \<Rightarrow> ustring \<Rightarrow> checker list \<Rightarrow> checker option" where
  "first_failure e pw cs = find (\<lambda>c. messages e pw c \<noteq> []) cs"

lemma first_failure_simps [simp]:
  "first_failure e pw [] = None"
  "first_failure e pw (c # cs) = (if messages e pw c \<noteq> [] then Some c else first_failure e pw cs)"
  by (simp_all add: first_failure_def)

lemma first_failure_None: "first_failure e pw cs = None \<longleftrightarrow> (\<forall>c \<in> set cs. messages e pw c = [])"
  by (auto simp: first_failure_def find_None_iff)

lemma messages_ok: "is_ok (run_checker e c pw) \<Longrightarrow> run_checker e c pw = Inr (messages e pw c)"
  by (auto simp: messages_def is_ok_iff)

lemma dom_table: "dom (map_of (table e pw langs style cs)) = Pair style ` check_name ` set cs"
  by (auto simp: table_def dom_map_of_conv_image_fst image_image)

lemma check_style_eq:
  "list_all (\<lambda>c. is_ok (run_checker e c pw)) cs \<Longrightarrow> langs \<noteq> [] \<Longrightarrow> distinct (map check_name cs) \<Longrightarrow>
   (\<forall>c \<in> set cs. errors (style, check_name c) = None) \<Longrightarrow>
    check_style e st ps pw langs style cs errors =
      Inr (case if \<not> st \<and> ps = style then first_failure e pw cs else None of
             Some c \<Rightarrow> Refused (exception_class style) (hd (messages e pw c))
           | None \<Rightarrow> Going (errors ++ map_of (table e pw langs style cs)))"
proof (induction cs arbitrary: errors)
  case (Cons c cs)
  let ?k = "(style, check_name c)"
  define errors' where "errors' = errors(?k \<mapsto> written langs (messages e pw c))"
  have first: "check_langs e st ps pw style c langs errors =
      Inr (if \<not> st \<and> messages e pw c \<noteq> [] \<and> ps = style then Refused (exception_class style) (hd (messages e pw c))
           else Going errors')"
    unfolding errors'_def using Cons.prems by (intro check_langs_eq) (auto intro: messages_ok)
  have "errors' (style, check_name c') = None" if "c' \<in> set cs" for c'
  proof -
    have "check_name c' \<noteq> check_name c"
      using that Cons.prems(3) by (metis distinct.simps(2) image_eqI list.map(2) list.set_map)
    then show ?thesis using Cons.prems(4) that by (simp add: errors'_def)
  qed
  then have rest: "check_style e st ps pw langs style cs errors' =
      Inr (case if \<not> st \<and> ps = style then first_failure e pw cs else None of
             Some c \<Rightarrow> Refused (exception_class style) (hd (messages e pw c))
           | None \<Rightarrow> Going (errors' ++ map_of (table e pw langs style cs)))"
    using Cons.prems by (intro Cons.IH) auto
  have "?k \<notin> dom (map_of (table e pw langs style cs))" using Cons.prems(3) by (auto simp: dom_table)
  then have "errors' ++ map_of (table e pw langs style cs) = errors ++ map_of (table e pw langs style (c # cs))"
    by (simp add: errors'_def map_add_upd_left table_def)
  then show ?case using first rest by (auto split: option.splits)
qed (simp add: table_def)

definition full_table :: "pw_env \<Rightarrow> ustring \<Rightarrow> string list \<Rightarrow> checkers_dict \<Rightarrow>
    ((string \<times> string) \<times> (string \<times> pw_msg list) list option) list" where
  "full_table e pw langs d = concat (map (\<lambda>(style, cs). table e pw langs style cs) d)"

lemma fst_full_table: "fst ` set (full_table e pw langs d) = {(s, check_name c) | s cs c. (s, cs) \<in> set d \<and> c \<in> set cs}"
  by (force simp: full_table_def table_def)

lemma dom_full_table: "dom (map_of (full_table e pw langs d)) = {(s, check_name c) | s cs c. (s, cs) \<in> set d \<and> c \<in> set cs}"
  by (simp only: dom_map_of_conv_image_fst fst_full_table)

lemma check_styles_eq:
  "runnable e pw d \<Longrightarrow> langs \<noteq> [] \<Longrightarrow>
   (\<And>s cs c. (s, cs) \<in> set d \<Longrightarrow> c \<in> set cs \<Longrightarrow> errors (s, check_name c) = None) \<Longrightarrow>
    check_styles e st ps pw langs d errors =
      Inr (case if st then None else case map_of d ps of None \<Rightarrow> None | Some cs \<Rightarrow> first_failure e pw cs of
             Some c \<Rightarrow> Refused (exception_class ps) (hd (messages e pw c))
           | None \<Rightarrow> Going (errors ++ map_of (full_table e pw langs d)))"
proof (induction d arbitrary: errors)
  case (Cons x d)
  obtain s cs where x: "x = (s, cs)" by (cases x)
  have run: "runnable e pw d" "s \<notin> fst ` set d" "distinct (map check_name cs)" "list_all (\<lambda>c. is_ok (run_checker e c pw)) cs"
    using Cons.prems(1) by (auto simp: runnable_def x)
  have step: "check_style e st ps pw langs s cs errors =
      Inr (case if \<not> st \<and> ps = s then first_failure e pw cs else None of
             Some c \<Rightarrow> Refused (exception_class s) (hd (messages e pw c))
           | None \<Rightarrow> Going (errors ++ map_of (table e pw langs s cs)))"
    using run Cons.prems by (intro check_style_eq) (auto simp: x)
  have rest: "check_styles e st ps pw langs d (errors ++ map_of (table e pw langs s cs)) =
      Inr (case if st then None else case map_of d ps of None \<Rightarrow> None | Some cs \<Rightarrow> first_failure e pw cs of
             Some c \<Rightarrow> Refused (exception_class ps) (hd (messages e pw c))
           | None \<Rightarrow> Going ((errors ++ map_of (table e pw langs s cs)) ++ map_of (full_table e pw langs d)))"
  proof (intro Cons.IH run(1) Cons.prems(2))
    fix s' cs' c'
    assume *: "(s', cs') \<in> set d" "c' \<in> set cs'"
    then have "s' \<noteq> s" using run(2) by force
    then have "(s', check_name c') \<notin> dom (map_of (table e pw langs s cs))" by (auto simp: dom_table)
    then show "(errors ++ map_of (table e pw langs s cs)) (s', check_name c') = None"
      using Cons.prems(3) * by (auto simp: map_add_def x dest!: domIff [THEN iffD2] split: option.splits)
  qed
  have "dom (map_of (table e pw langs s cs)) \<inter> dom (map_of (full_table e pw langs d)) = {}"
    unfolding dom_table dom_full_table using run(2) by (auto simp: image_iff)
  then have "(errors ++ map_of (table e pw langs s cs)) ++ map_of (full_table e pw langs d) =
      errors ++ map_of (full_table e pw langs (x # d))"
    by (simp add: full_table_def x map_add_comm [of "map_of (table e pw langs s cs)"] flip: map_add_assoc)
  moreover have "ps = s \<Longrightarrow> map_of d ps = None" using run(2) by (simp add: map_of_eq_None_iff)
  ultimately show ?case using step rest by (auto simp: x split: option.splits)
qed (simp add: full_table_def)

lemma distinct_full_table: "runnable e pw d \<Longrightarrow> distinct (map fst (full_table e pw langs d))"
proof (induction d)
  case (Cons x d)
  obtain s cs where x: "x = (s, cs)" by (cases x)
  have run: "runnable e pw d" "s \<notin> fst ` set d" "distinct (map check_name cs)"
    using Cons.prems by (auto simp: runnable_def x)
  have "distinct (map fst (table e pw langs s cs))"
    using run(3) by (simp add: table_def comp_def distinct_map inj_on_def)
  moreover have "fst ` set (table e pw langs s cs) \<inter> fst ` set (full_table e pw langs d) = {}"
    unfolding fst_full_table using run(2) by (auto simp: table_def image_iff)
  ultimately show ?case using Cons.IH [OF run(1)] by (simp add: full_table_def x)
qed (simp add: full_table_def)

lemma full_table_lookup:
  assumes "runnable e pw d" "(s, cs) \<in> set d" "c \<in> set cs"
  shows "map_of (full_table e pw langs d) (s, check_name c) = Some (written langs (messages e pw c))"
proof (intro map_of_is_SomeI distinct_full_table assms(1))
  show "((s, check_name c), written langs (messages e pw c)) \<in> set (full_table e pw langs d)"
    unfolding full_table_def set_concat set_map using assms(3)
    by (intro UnionI [OF imageI [OF imageI [OF assms(2)]]]) (simp add: table_def)
qed

lemma fold_dict_set_nonempty: "fold (\<lambda>l. dict_set l v) ls d = [] \<longleftrightarrow> ls = [] \<and> d = []"
  by (induction ls arbitrary: d) auto

lemma failed_full_table:
  assumes "runnable e pw d" "langs \<noteq> []" "(s, cs) \<in> set d" "c \<in> set cs"
  shows "failed (map_of (full_table e pw langs d)) (s, check_name c) \<longleftrightarrow> messages e pw c \<noteq> []"
proof -
  have "fold (\<lambda>l. dict_set l (messages e pw c)) langs [] \<noteq> []" using assms(2) by (simp add: fold_dict_set_nonempty)
  then show ?thesis
    using full_table_lookup [OF assms(1,3,4), of langs] by (auto simp: failed_def written_def neq_Nil_conv)
qed

lemma passed_report:
  assumes "runnable e pw d" "langs \<noteq> []"
  shows "rp_passed (build_report d pw (map_of (full_table e pw langs d))) \<longleftrightarrow>
    (case map_of d (pwstyle_of d pw) of None \<Rightarrow> True | Some cs \<Rightarrow> first_failure e pw cs = None)"
proof -
  have dist: "distinct (map fst d)" using assms(1) by (simp add: runnable_def)
  have *: "list_all ce_passed (entries (map_of (full_table e pw langs d)) s cs) \<longleftrightarrow> first_failure e pw cs = None"
    if "(s, cs) \<in> set d" for s cs
    using failed_full_table [OF assms that] by (auto simp: entries_def list_all_iff first_failure_None)
  have "rp_passed (build_report d pw (map_of (full_table e pw langs d))) \<longleftrightarrow>
      (\<forall>x \<in> set d. fst x = pwstyle_of d pw \<longrightarrow> list_all ce_passed (entries (map_of (full_table e pw langs d)) (fst x) (snd x)))"
    by (simp add: build_report_def list_all_iff case_prod_beta)
  also have "\<dots> \<longleftrightarrow> (\<forall>x \<in> set d. fst x = pwstyle_of d pw \<longrightarrow> first_failure e pw (snd x) = None)"
    using * by (intro ball_cong) auto
  also have "\<dots> \<longleftrightarrow> (\<forall>cs. map_of d (pwstyle_of d pw) = Some cs \<longrightarrow> first_failure e pw cs = None)"
    using dist by (force simp: map_of_eq_Some_iff)
  finally show ?thesis by (auto split: option.splits)
qed

text \<open>
  C9: when no style names a check twice and every check returns, both ways of asking return and agree. The plain
  call accepts the password when every check of its style passes, and otherwise raises the exception of the
  style with the first message of the first check that fails, in the order of the configuration. The report
  says that the password passed exactly when the plain call accepts it, and marks each check of every style
  as passed exactly when the check has no message.
\<close>

theorem check_password_agrees:
  assumes "runnable e pw d" "langs \<noteq> []"
  shows "check_password e langs d None False pw =
      Inr (case case map_of d (pwstyle_of d pw) of None \<Rightarrow> None | Some cs \<Rightarrow> first_failure e pw cs of
             None \<Rightarrow> Accepted
           | Some c \<Rightarrow> Raised (exception_class (pwstyle_of d pw)) (hd (messages e pw c))) \<and>
    (\<exists>rep. check_password e langs d None True pw = Inr (Report rep) \<and>
      (rp_passed rep \<longleftrightarrow> check_password e langs d None False pw = Inr Accepted) \<and>
      map (\<lambda>(s, es). (s, map (\<lambda>x. (ce_name x, ce_passed x)) es)) (rp_checks rep) =
        map (\<lambda>(s, cs). (s, map (\<lambda>c. (check_name c, messages e pw c = [])) cs)) (filter (\<lambda>(_, cs). cs \<noteq> []) d))"
proof -
  let ?T = "map_of (full_table e pw langs d)"
  have run: "check_styles e st (pwstyle_of d pw) pw langs d Map.empty =
      Inr (case if st then None else case map_of d (pwstyle_of d pw) of None \<Rightarrow> None | Some cs \<Rightarrow> first_failure e pw cs of
             Some c \<Rightarrow> Refused (exception_class (pwstyle_of d pw)) (hd (messages e pw c)) | None \<Rightarrow> Going ?T)" for st
    using check_styles_eq [OF assms, of Map.empty st "pwstyle_of d pw"] by (simp only: empty_map_add)
  have plain: "check_password e langs d None False pw =
      Inr (case case map_of d (pwstyle_of d pw) of None \<Rightarrow> None | Some cs \<Rightarrow> first_failure e pw cs of
             None \<Rightarrow> Accepted
           | Some c \<Rightarrow> Raised (exception_class (pwstyle_of d pw)) (hd (messages e pw c)))"
    by (auto simp: check_password_def run split: option.splits)
  have "check_password e langs d None True pw = Inr (Report (build_report d pw ?T))"
    by (simp add: check_password_def run)
  moreover have "rp_passed (build_report d pw ?T) \<longleftrightarrow> check_password e langs d None False pw = Inr Accepted"
    unfolding passed_report [OF assms] plain by (auto split: option.splits)
  moreover have "map (\<lambda>(s, es). (s, map (\<lambda>x. (ce_name x, ce_passed x)) es)) (rp_checks (build_report d pw ?T)) =
      map (\<lambda>(s, cs). (s, map (\<lambda>c. (check_name c, messages e pw c = [])) cs)) (filter (\<lambda>(_, cs). cs \<noteq> []) d)"
    using failed_full_table [OF assms] by (auto simp: build_report_def entries_def)
  ultimately show ?thesis using plain by blast
qed

text \<open>A passphrase configuration beside a rigid one; the password has no space, so the rigid style counts.\<close>

definition example_env :: pw_env where
  "example_env = \<lparr>unicode_db = latin1, pw_account = None, other = (\<lambda>_ _. Inr [])\<rparr>"

definition example_checks :: checkers_dict where
  "example_checks = [(''phrase'', [NumWords (Some 2) None]), (''rigid'', [SpaceOrNull, NumberOfDigits 1, MixedCasing])]"

theorem check_password_agrees_witness:
  "runnable example_env (uni ''abc'') example_checks \<and> [''en''] \<noteq> [] \<and>
   check_password example_env [''en''] example_checks None False (uni ''abc'') =
     Inr (Raised RigidPasswordNotGoodEnough (TooFewDigits 1)) \<and>
   (\<exists>rep. check_password example_env [''en''] example_checks None True (uni ''abc'') = Inr (Report rep) \<and> \<not> rp_passed rep)"
proof -
  have run: "runnable example_env (uni ''abc'') example_checks" by code_simp
  have "pwstyle_of example_checks (uni ''abc'') = ''rigid''" by code_simp
  moreover have "map_of example_checks ''rigid'' = Some [SpaceOrNull, NumberOfDigits 1, MixedCasing]"
    by (simp add: example_checks_def)
  moreover have "first_failure example_env (uni ''abc'') [SpaceOrNull, NumberOfDigits 1, MixedCasing] = Some (NumberOfDigits 1)"
    "hd (messages example_env (uni ''abc'') (NumberOfDigits 1)) = TooFewDigits 1"
    by code_simp+
  ultimately show ?thesis using check_password_agrees [OF run, of "[''en'']"] run by (auto simp: exception_class_def)
qed

text \<open>
  A style may name a check twice, with different arguments. Then the second one overwrites what the table
  of errors holds for the first: the report calls a password good that the plain call refuses, and it raises
  \<^verbatim>\<open>TypeError\<close> when the first passes and the second fails.
\<close>

theorem repeated_check_confuses_report:
  "check_password example_env [''en''] [(''rigid'', [NumberOfDigits 2, NumberOfDigits 1])] None False (uni ''abc1'') =
     Inr (Raised RigidPasswordNotGoodEnough (TooFewDigits 2)) \<and>
   map_option rp_passed (case check_password example_env [''en''] [(''rigid'', [NumberOfDigits 2, NumberOfDigits 1])] None True (uni ''abc1'') of
      Inr (Report rep) \<Rightarrow> Some rep | _ \<Rightarrow> None) = Some True \<and>
   check_password example_env [''en''] [(''rigid'', [NumberOfDigits 1, NumberOfDigits 2])] None True (uni ''abc1'') = Inl TypeError"
  by (simp add: check_password_def example_env_def latin1_def uni_def pwstyle_of_def allowed_style_of_def configured_def
      exception_class_def put_error_def build_report_def entries_def failed_def CheckNumberOfDigits_def)

end
