(* ===== verification/Closure.thy ===== *)
theory Closure
  imports Cere_Prelude "HOL-Library.While_Combinator"
begin

text \<open>
  Transitive searches. Two helper functions called \<^verbatim>\<open>search_transitive_closure\<close> repeat a database search on
  the ids it found until nothing new appears: the one of \<^verbatim>\<open>Group.search_members\<close>, which
  \<^verbatim>\<open>PolicyComponent.search_relations\<close> copies, returns the start set too; the one inside \<^verbatim>\<open>Group.search\<close> returns
  only what was found. A loop that would not end is \<open>None\<close>.

  A search is one step of a relation (locale \<open>finite_search\<close>); over a finite relation both loops end and
  compute its reflexive transitive and its transitive closure, loops in the relation or not.
\<close>

section \<open>The two loops\<close>

definition closure_step :: "('a set \<Rightarrow> 'a set) \<Rightarrow> 'a set \<times> 'a set \<Rightarrow> 'a set \<times> 'a set" where
  "closure_step searcher = (\<lambda>(workset, result).
     let new_set = searcher workset; result = result \<union> workset in (new_set - result, result))"

definition search_transitive_closure :: "('a set \<Rightarrow> 'a set) \<Rightarrow> 'a set \<Rightarrow> 'a set option" where
  "search_transitive_closure searcher start_id_set =
     map_option snd (while_option (\<lambda>(workset, _). workset \<noteq> {}) (closure_step searcher) (start_id_set, {}))"

definition parents_step :: "('a set \<Rightarrow> 'a set) \<Rightarrow> 'a set \<times> 'a set \<Rightarrow> 'a set \<times> 'a set" where
  "parents_step searcher = (\<lambda>(workset, result).
     let found = searcher workset in (found - result, result \<union> found))"

definition search_parents :: "('a set \<Rightarrow> 'a set) \<Rightarrow> 'a set \<Rightarrow> 'a set option" where
  "search_parents searcher start_id_set =
     map_option snd (while_option (\<lambda>(workset, _). workset \<noteq> {}) (parents_step searcher) (start_id_set, {}))"

section \<open>What a search promises\<close>

locale finite_search =
  fixes searcher :: "'a set \<Rightarrow> 'a set" and R :: "('a \<times> 'a) set"
  assumes searcher: "ws \<noteq> {} \<Longrightarrow> searcher ws = R `` ws"
    and finite_R: "finite R"
begin

lemma closed_Image:
  assumes "R `` A \<subseteq> A" "S \<subseteq> A"
  shows "R\<^sup>* `` S \<subseteq> A"
  using Image_closed_trancl [OF assms(1)] Image_mono [OF subset_refl assms(2), of "R\<^sup>*"] by blast

lemma step_Image: "W \<subseteq> R\<^sup>* `` S \<Longrightarrow> R `` W \<subseteq> R\<^sup>+ `` S"
  by (blast intro: rtrancl_into_trancl1)

lemma trancl_Image: "R\<^sup>+ `` S \<subseteq> R\<^sup>* `` S"
  by (blast intro: trancl_into_rtrancl)

lemma measure_decreases:
  assumes "finite S" "x \<in> R\<^sup>* `` S" "x \<notin> A" "x \<in> B" "A \<subseteq> B"
  shows "card (R\<^sup>* `` S - B) < card (R\<^sup>* `` S - A)"
proof (rule psubset_card_mono)
  have "R\<^sup>* `` S \<subseteq> S \<union> snd ` R"
  proof (rule closed_Image)
    show "R `` (S \<union> snd ` R) \<subseteq> S \<union> snd ` R" by force
  qed simp
  then show "finite (R\<^sup>* `` S - A)" using assms(1) finite_R by (meson finite_Diff finite_UnI finite_imageI finite_subset)
  show "R\<^sup>* `` S - B \<subset> R\<^sup>* `` S - A" using assms(2-5) by blast
qed

text \<open>The first loop: everything found is reachable, and what has been worked off is closed up to the work set.\<close>

definition closure_inv :: "'a set \<Rightarrow> 'a set \<times> 'a set \<Rightarrow> bool" where
  "closure_inv S = (\<lambda>(W, A). S \<subseteq> A \<union> W \<and> A \<union> W \<subseteq> R\<^sup>* `` S \<and> R `` A \<subseteq> A \<union> W \<and> W \<inter> A = {})"

lemma closure_inv_step:
  assumes "closure_inv S (W, A)" "W \<noteq> {}"
  shows "closure_inv S (closure_step searcher (W, A))"
proof -
  have inv: "S \<subseteq> A \<union> W" "A \<subseteq> R\<^sup>* `` S" "W \<subseteq> R\<^sup>* `` S" "R `` A \<subseteq> A \<union> W"
    using assms(1) by (simp_all add: closure_inv_def)
  have "R `` W \<subseteq> R\<^sup>* `` S" by (rule subset_trans [OF step_Image [OF inv(3)] trancl_Image])
  then have "closure_inv S (R `` W - (A \<union> W), A \<union> W)"
    unfolding closure_inv_def prod.case using inv by blast
  then show ?thesis using assms(2) by (simp add: closure_step_def searcher Let_def)
qed

theorem search_transitive_closure_eq:
  assumes "finite S"
  shows "search_transitive_closure searcher S = Some (R\<^sup>* `` S)"
proof -
  let ?m = "\<lambda>(W, A). card (R\<^sup>* `` S - A)"
  have start: "closure_inv S (S, {})" by (auto simp: closure_inv_def)
  have "\<exists>t. while_option (\<lambda>(W, _). W \<noteq> {}) (closure_step searcher) (S, {}) = Some t"
  proof (rule measure_while_option_Some [of "closure_inv S" _ _ ?m])
    fix s
    assume s: "closure_inv S s" "case s of (W, _) \<Rightarrow> W \<noteq> {}"
    obtain W A where WA: "s = (W, A)" by (cases s)
    obtain x where x: "x \<in> W" using s(2) WA by auto
    have "card (R\<^sup>* `` S - (A \<union> W)) < card (R\<^sup>* `` S - A)"
      using s(1) x WA by (intro measure_decreases [OF assms, of x]) (auto simp: closure_inv_def)
    then show "closure_inv S (closure_step searcher s) \<and> ?m (closure_step searcher s) < ?m s"
      using closure_inv_step [of S W A] s WA by (simp add: closure_step_def Let_def Un_commute)
  qed (rule start)
  then obtain t where t: "while_option (\<lambda>(W, _). W \<noteq> {}) (closure_step searcher) (S, {}) = Some t" ..
  have "closure_inv S t"
    by (rule while_option_rule [where P = "closure_inv S", OF _ t start]) (use closure_inv_step in auto)
  moreover obtain A where "t = ({}, A)" using while_option_stop [OF t] by (cases t) auto
  ultimately have "A = R\<^sup>* `` S" using closed_Image [of A S] by (auto simp: closure_inv_def)
  then show ?thesis using t \<open>t = ({}, A)\<close> by (simp add: search_transitive_closure_def)
qed

text \<open>The second loop: the work set is the part of the result, or the start set, that was not searched yet.\<close>

definition parents_inv :: "'a set \<Rightarrow> 'a set \<times> 'a set \<Rightarrow> bool" where
  "parents_inv S = (\<lambda>(W, A). A \<subseteq> R\<^sup>+ `` S \<and> W \<subseteq> R\<^sup>* `` S \<and> R `` (S \<union> A - W) \<subseteq> A)"

lemma parents_inv_step:
  assumes "parents_inv S (W, A)" "W \<noteq> {}"
  shows "parents_inv S (parents_step searcher (W, A))"
proof -
  have inv: "A \<subseteq> R\<^sup>+ `` S" "W \<subseteq> R\<^sup>* `` S" "R `` (S \<union> A - W) \<subseteq> A"
    using assms(1) by (simp_all add: parents_inv_def)
  have W: "R `` W \<subseteq> R\<^sup>+ `` S" by (rule step_Image [OF inv(2)])
  then have "R `` W \<subseteq> R\<^sup>* `` S" by (rule subset_trans [OF _ trancl_Image])
  then have "parents_inv S (R `` W - A, A \<union> R `` W)"
    unfolding parents_inv_def prod.case using inv W by blast
  then show ?thesis using assms(2) by (simp add: parents_step_def searcher Let_def)
qed

theorem search_parents_eq:
  assumes "finite S"
  shows "search_parents searcher S = Some (R\<^sup>+ `` S)"
proof -
  let ?m = "\<lambda>(W, A). 2 * card (R\<^sup>* `` S - A) + (if W = {} then 0 else 1 :: nat)"
  have start: "parents_inv S (S, {})" by (auto simp: parents_inv_def)
  have "\<exists>t. while_option (\<lambda>(W, _). W \<noteq> {}) (parents_step searcher) (S, {}) = Some t"
  proof (rule measure_while_option_Some [of "parents_inv S" _ _ ?m])
    fix s
    assume s: "parents_inv S s" "case s of (W, _) \<Rightarrow> W \<noteq> {}"
    obtain W A where WA: "s = (W, A)" by (cases s)
    have "?m (parents_step searcher (W, A)) < ?m (W, A)"
    proof (cases "R `` W - A = {}")
      case True
      then have "A \<union> R `` W = A" by blast
      then show ?thesis using True s(2) WA by (simp add: parents_step_def Let_def searcher)
    next
      case False
      then obtain x where x: "x \<in> R `` W" "x \<notin> A" by blast
      have "card (R\<^sup>* `` S - (A \<union> R `` W)) < card (R\<^sup>* `` S - A)"
      proof (rule measure_decreases [OF assms _ x(2)])
        have "R `` W \<subseteq> R\<^sup>+ `` S" using s(1) WA by (intro step_Image) (simp add: parents_inv_def)
        then show "x \<in> R\<^sup>* `` S" using x(1) trancl_Image [of S] by blast
      qed (use x in auto)
      then show ?thesis using s(2) WA by (simp add: parents_step_def Let_def searcher)
    qed
    then show "parents_inv S (parents_step searcher s) \<and> ?m (parents_step searcher s) < ?m s"
      using parents_inv_step [of S W A] s WA by simp
  qed (rule start)
  then obtain t where t: "while_option (\<lambda>(W, _). W \<noteq> {}) (parents_step searcher) (S, {}) = Some t" ..
  have "parents_inv S t"
    by (rule while_option_rule [where P = "parents_inv S", OF _ t start]) (use parents_inv_step in auto)
  moreover obtain A where A: "t = ({}, A)" using while_option_stop [OF t] by (cases t) auto
  ultimately have inv: "A \<subseteq> R\<^sup>+ `` S" "R `` (S \<union> A) \<subseteq> A" by (auto simp: parents_inv_def)
  then have "R\<^sup>* `` S \<subseteq> S \<union> A" by (intro closed_Image) auto
  then have "R `` (R\<^sup>* `` S) \<subseteq> A" using inv(2) by blast
  then have "R\<^sup>+ `` S \<subseteq> A" by (simp only: trancl_unfold_right relcomp_Image)
  then have "A = R\<^sup>+ `` S" using inv(1) by (rule subset_antisym [rotated])
  then show ?thesis using t A by (simp add: search_parents_def)
qed

end

end
