(* ===== verification/Sql_Args.thy ===== *)
theory Sql_Args
  imports Py_Strings
begin

text \<open>
  How search methods turn their arguments into conditions: \<^verbatim>\<open>argument_to_sql\<close> and \<^verbatim>\<open>prepare_string\<close> of
  \<^verbatim>\<open>src/Cerebrum/Utils.py\<close>. A condition is a predicate on the rows it selects from. The exceptions a database
  raises for a violated constraint and for a statement it refuses have names here.
\<close>

abbreviation IntegrityError :: py_error where "IntegrityError \<equiv> OtherError ''IntegrityError''"
abbreviation DataError :: py_error where "DataError \<equiv> OtherError ''DataError''"
abbreviation ProgrammingError :: py_error where "ProgrammingError \<equiv> OtherError ''ProgrammingError''"

text \<open>
  A column of a limited width: a string is too long if it has something other than blanks beyond the width, and is otherwise
  stored up to it.
\<close>

definition too_long :: "nat \<Rightarrow> string \<Rightarrow> bool" where
  "too_long n s = list_ex (\<lambda>c. c \<noteq> CHR '' '') (drop n s)"

abbreviation none_or :: "('a \<Rightarrow> bool) \<Rightarrow> 'a option \<Rightarrow> bool" where
  "none_or P x \<equiv> case x of None \<Rightarrow> True | Some v \<Rightarrow> P v"

text \<open>A single id, or a list, tuple or set of ids; only membership and emptiness of the latter matter.\<close>

datatype id_arg = One int | Many "int set"

definition argument_to_sql :: "id_arg \<Rightarrow> (int \<Rightarrow> bool) res" where
  "argument_to_sql arg =
     (case arg of
        One i \<Rightarrow> Inr (\<lambda>x. x = i)
      | Many ids \<Rightarrow> if ids = {} then Inl AssertionError else Inr (\<lambda>x. x \<in> ids))"

definition given :: "id_arg option \<Rightarrow> bool" where
  "given arg = (case arg of None \<Rightarrow> False | Some (One i) \<Rightarrow> i \<noteq> 0 | Some (Many ids) \<Rightarrow> ids \<noteq> {})"

definition start_set :: "id_arg \<Rightarrow> int set" where
  "start_set arg = (case arg of One i \<Rightarrow> {i} | Many ids \<Rightarrow> ids)"

definition prepare_string :: "string \<Rightarrow> string" where
  "prepare_string s = lower (map (\<lambda>c. if c = CHR ''*'' then CHR ''%'' else if c = CHR ''?'' then CHR ''_'' else c) s)"

text \<open>A clause of the \<^verbatim>\<open>WHERE\<close> condition, left out when its argument is not given.\<close>

definition clause :: "id_arg option \<Rightarrow> ((int \<Rightarrow> bool) \<Rightarrow> 'r \<Rightarrow> bool) \<Rightarrow> ('r \<Rightarrow> bool) res" where
  "clause arg f = (case arg of None \<Rightarrow> Inr (\<lambda>_. True) | Some a \<Rightarrow> res_bind (argument_to_sql a) (\<lambda>p. Inr (f p)))"

text \<open>A list or tuple of codes becomes an \<^verbatim>\<open>IN\<close> condition, which the database refuses when it is empty.\<close>

definition in_codes :: "id_arg option \<Rightarrow> ((int \<Rightarrow> bool) \<Rightarrow> 'r \<Rightarrow> bool) \<Rightarrow> ('r \<Rightarrow> bool) res" where
  "in_codes arg f = (if arg = Some (Many {}) then Inl ProgrammingError else clause arg f)"

fun conjunction :: "('r \<Rightarrow> bool) res list \<Rightarrow> ('r \<Rightarrow> bool) res" where
  "conjunction [] = Inr (\<lambda>_. True)"
| "conjunction (c # cs) = res_bind c (\<lambda>p. res_bind (conjunction cs) (\<lambda>q. Inr (\<lambda>r. p r \<and> q r)))"

section \<open>Facts\<close>

lemma short_fits: "length s \<le> n \<Longrightarrow> \<not> too_long n s"
  by (simp add: too_long_def)

lemma short_options:
  "none_or (\<lambda>s. length s \<le> n) x \<Longrightarrow> none_or (\<lambda>s. \<not> too_long n s) x"
  "none_or (\<lambda>s. length s \<le> n) x \<Longrightarrow> map_option (take n) x = x"
  by (auto simp: short_fits split: option.splits)

lemma argument_to_sql_simps [simp]:
  "argument_to_sql (One i) = Inr (\<lambda>x. x = i)"
  "argument_to_sql (Many ids) = (if ids = {} then Inl AssertionError else Inr (\<lambda>x. x \<in> ids))"
  by (simp_all add: argument_to_sql_def)

lemma clause_simps [simp]:
  "clause None f = Inr (\<lambda>_. True)"
  "clause (Some (One i)) f = Inr (f (\<lambda>x. x = i))"
  "clause (Some (Many ids)) f = (if ids = {} then Inl AssertionError else Inr (f (\<lambda>x. x \<in> ids)))"
  by (simp_all add: clause_def)

lemma argument_start_set: "given (Some m) \<Longrightarrow> argument_to_sql m = Inr (\<lambda>x. x \<in> start_set m)"
  by (cases m) (auto simp: given_def start_set_def fun_eq_iff)

end
