(* ===== verification/Cere_Groups.thy ===== *)
theory Cere_Groups
  imports Closure Sql_Args
begin

text \<open>
  Groups and their members: \<^verbatim>\<open>src/Cerebrum/Group.py\<close>, the administrators and moderators of
  \<^verbatim>\<open>src/Cerebrum/group/GroupRoles.py\<close> and the recursive query of \<^verbatim>\<open>src/Cerebrum/group/memberships.py\<close>. The
  database is a record of the tables these classes use, with the constraints of \<^verbatim>\<open>design/core_tables.sql\<close>
  checked where a statement could violate them; a violated constraint is \<^verbatim>\<open>IntegrityError\<close>. Dates are
  integers, \<open>now\<close> is the database's clock. What the database decides on strings, \<^verbatim>\<open>LOWER(column) LIKE pattern\<close>,
  is the parameter \<open>like\<close>.

  Shown: the indirect searches return, loops among the groups or not, and give exactly what a chain of
  memberships reaches; the recursive query agrees with them while its depth limit is large enough; deleting a
  group leaves no row of its own behind and is blocked exactly by accounts it owns and other rows it does not clear.
\<close>

section \<open>Tables\<close>

record group_row =
  g_id :: int
  g_type :: int
  g_description :: "string option"
  g_visibility :: int
  g_creator :: int
  g_expire :: "int option"

type_synonym member_row = "int \<times> int \<times> int"

text \<open>
  Of the tables that refer to entities, \<open>account_owner\<close> has the accounts with their owners (columns of \<^verbatim>\<open>account_info\<close>), and \<open>entity_refs\<close> the entities
  that rows of tables refer to for which a group has no class that deletes them, such as \<^verbatim>\<open>entity_contact_info\<close> and \<^verbatim>\<open>entity_address\<close>.
\<close>

record group_db =
  entity_info :: "(int \<times> int) list"
  group_info :: "group_row list"
  group_names :: "(int \<times> string) list"
  group_member :: "member_row list"
  group_admin :: "(int \<times> int) list"
  group_moderator :: "(int \<times> int) list"
  account_expire :: "(int \<times> int option) list"
  account_owner :: "(int \<times> int) list"
  entity_refs :: "int list"
  entity_spread :: "(int \<times> int) list"
  group_log :: "(int \<times> string \<times> int option) list"

definition has_group :: "group_db \<Rightarrow> int \<Rightarrow> bool" where
  "has_group db g = list_ex (\<lambda>r. g_id r = g) (group_info db)"

definition has_entity :: "group_db \<Rightarrow> int \<Rightarrow> bool" where
  "has_entity db e = list_ex (\<lambda>(i, _). i = e) (entity_info db)"

definition log_change :: "int \<Rightarrow> string \<Rightarrow> int option \<Rightarrow> group_db \<Rightarrow> group_db" where
  "log_change subject change dest db = db\<lparr>group_log := group_log db @ [(subject, change, dest)]\<rparr>"

section \<open>Searching for groups\<close>

definition unexpired :: "int \<Rightarrow> int option \<Rightarrow> bool" where
  "unexpired now expire = (case expire of None \<Rightarrow> True | Some e \<Rightarrow> e > now)"

record group_query =
  q_group_id :: "id_arg option"
  q_member_id :: "id_arg option"
  q_indirect_members :: bool
  q_admin_id :: "id_arg option"
  q_admin_by_membership :: bool
  q_moderator_id :: "id_arg option"
  q_moderator_by_membership :: bool
  q_spread :: "id_arg option"
  q_name :: "string option"
  q_description :: "string option"
  q_group_type :: "id_arg option"
  q_filter_expired :: bool
  q_creator_id :: "id_arg option"
  q_expired_only :: bool

definition any_group :: group_query where
  "any_group =
     \<lparr>q_group_id = None, q_member_id = None, q_indirect_members = False, q_admin_id = None,
      q_admin_by_membership = False, q_moderator_id = None, q_moderator_by_membership = False, q_spread = None,
      q_name = None, q_description = None, q_group_type = None, q_filter_expired = True, q_creator_id = None,
      q_expired_only = False\<rparr>"

definition has_direct_member :: "group_db \<Rightarrow> (int \<Rightarrow> bool) \<Rightarrow> group_row \<Rightarrow> bool" where
  "has_direct_member db p r = list_ex (\<lambda>(g, _, m). g = g_id r \<and> p m) (group_member db)"

definition has_role :: "(int \<times> int) list \<Rightarrow> (int \<Rightarrow> bool) \<Rightarrow> group_row \<Rightarrow> bool" where
  "has_role tbl p r = list_ex (\<lambda>(g, a). g = g_id r \<and> p a) tbl"

definition text_clause :: "(string \<Rightarrow> string \<Rightarrow> bool) \<Rightarrow> string option \<Rightarrow> (group_row \<Rightarrow> string option) \<Rightarrow> group_row \<Rightarrow> bool" where
  "text_clause like pat f r =
     (case pat of
        None \<Rightarrow> True
      | Some s \<Rightarrow> (case f r of None \<Rightarrow> False | Some v \<Rightarrow> like (prepare_string s) v))"

text \<open>The clauses after the one on members and roles, in the order of the source.\<close>

definition other_clauses ::
    "(string \<Rightarrow> string \<Rightarrow> bool) \<Rightarrow> int \<Rightarrow> group_db \<Rightarrow> group_query \<Rightarrow> (group_row \<Rightarrow> bool) res list" where
  "other_clauses like now db q =
     [clause (q_spread q) (\<lambda>p r. list_ex (\<lambda>(e, s). e = g_id r \<and> p s) (entity_spread db)),
      Inr (text_clause like (q_name q) (\<lambda>r. map_of (group_names db) (g_id r))),
      Inr (text_clause like (q_description q) g_description),
      clause (q_group_type q) (\<lambda>p r. p (g_type r)),
      Inr (\<lambda>r. q_filter_expired q \<longrightarrow> unexpired now (g_expire r)),
      clause (q_creator_id q) (\<lambda>p r. p (g_creator r)),
      Inr (\<lambda>r. q_expired_only q \<longrightarrow> (case g_expire r of None \<Rightarrow> False | Some e \<Rightarrow> e < now))]"

definition select_groups :: "group_db \<Rightarrow> (group_row \<Rightarrow> bool) res list \<Rightarrow> group_row list res" where
  "select_groups db cs = res_bind (conjunction cs) (\<lambda>p. Inr (filter p (group_info db)))"

text \<open>
  \<^verbatim>\<open>search\<close> with none of the three flags set; the calls \<^verbatim>\<open>search\<close> and \<^verbatim>\<open>search_members\<close> make themselves are of
  this kind.
\<close>

definition search_direct ::
    "(string \<Rightarrow> string \<Rightarrow> bool) \<Rightarrow> int \<Rightarrow> group_db \<Rightarrow> group_query \<Rightarrow> group_row list res" where
  "search_direct like now db q =
     (if given (q_member_id q) \<and> given (q_group_id q) then Inl ProgrammingError
      else select_groups db
        ([clause (q_group_id q) (\<lambda>p r. p (g_id r)), clause (q_member_id q) (has_direct_member db),
          clause (q_admin_id q) (has_role (group_admin db)), clause (q_moderator_id q) (has_role (group_moderator db))]
         @ other_clauses like now db q))"

definition parent_groups :: "(string \<Rightarrow> string \<Rightarrow> bool) \<Rightarrow> int \<Rightarrow> group_db \<Rightarrow> int set \<Rightarrow> int set" where
  "parent_groups like now db ids =
     (case search_direct like now db (any_group\<lparr>q_member_id := Some (Many ids), q_filter_expired := False\<rparr>) of
        Inr rows \<Rightarrow> g_id ` set rows
      | Inl _ \<Rightarrow> {})"

text \<open>
  The administrators of the clause with \<^verbatim>\<open>admin_by_membership\<close>: the id and the groups it is a direct member of.
  The source puts the argument into a list, so that a sequence of ids makes \<^verbatim>\<open>int\<close> raise.
\<close>

definition role_clause ::
    "(string \<Rightarrow> string \<Rightarrow> bool) \<Rightarrow> int \<Rightarrow> group_db \<Rightarrow> id_arg option \<Rightarrow> bool \<Rightarrow> (int \<times> int) list \<Rightarrow> (group_row \<Rightarrow> bool) res" where
  "role_clause like now db arg by_membership tbl =
     (if by_membership then
        (case arg of
           None \<Rightarrow> Inr (\<lambda>_. True)
         | Some a \<Rightarrow>
             res_bind (search_direct like now db (any_group\<lparr>q_member_id := Some a\<rparr>)) (\<lambda>rows.
               case a of
                 Many _ \<Rightarrow> Inl TypeError
               | One i \<Rightarrow> Inr (has_role tbl (\<lambda>x. x = i \<or> x \<in> g_id ` set rows))))
      else clause arg (has_role tbl))"

definition search_groups ::
    "(string \<Rightarrow> string \<Rightarrow> bool) \<Rightarrow> int \<Rightarrow> group_db \<Rightarrow> group_query \<Rightarrow> group_row list res option" where
  "search_groups like now db q =
     (if q_indirect_members q \<and> \<not> given (q_member_id q) then Some (Inl ProgrammingError)
      else if q_admin_by_membership q \<and> \<not> given (q_admin_id q) then Some (Inl ProgrammingError)
      else if q_moderator_by_membership q \<and> \<not> given (q_moderator_id q) then Some (Inl ProgrammingError)
      else if given (q_member_id q) \<and> given (q_group_id q) then Some (Inl ProgrammingError)
      else
        (let rest =
           [role_clause like now db (q_admin_id q) (q_admin_by_membership q) (group_admin db),
            role_clause like now db (q_moderator_id q) (q_moderator_by_membership q) (group_moderator db)]
           @ other_clauses like now db q;
             by_id = clause (q_group_id q) (\<lambda>p r. p (g_id r))
         in case q_member_id q of
              Some m \<Rightarrow>
                if q_indirect_members q then
                  (case by_id of
                     Inl e \<Rightarrow> Some (Inl e)
                   | Inr _ \<Rightarrow>
                       map_option
                         (\<lambda>group_ids. if group_ids = {} then Inr []
                                      else select_groups db (by_id # Inr (\<lambda>r. g_id r \<in> group_ids) # rest))
                         (search_parents (parent_groups like now db) (start_set m)))
                else Some (select_groups db (by_id # clause (Some m) (has_direct_member db) # rest))
            | None \<Rightarrow> Some (select_groups db (by_id # rest))))"

section \<open>Searching for members\<close>

record member_query =
  mq_group_id :: "id_arg option"
  mq_spread :: "id_arg option"
  mq_member_id :: "id_arg option"
  mq_member_type :: "id_arg option"
  mq_indirect_members :: bool
  mq_member_spread :: "id_arg option"
  mq_member_filter_expired :: bool
  mq_group_type :: "id_arg option"

definition any_member :: member_query where
  "any_member =
     \<lparr>mq_group_id = None, mq_spread = None, mq_member_id = None, mq_member_type = None, mq_indirect_members = False,
      mq_member_spread = None, mq_member_filter_expired = True, mq_group_type = None\<rparr>"

definition member_unexpired :: "int \<Rightarrow> group_db \<Rightarrow> int \<Rightarrow> bool" where
  "member_unexpired now db m =
     (unexpired now (case map_of (account_expire db) m of None \<Rightarrow> None | Some e \<Rightarrow> e) \<and>
      list_all (\<lambda>r. g_id r = m \<longrightarrow> unexpired now (g_expire r)) (group_info db))"

definition member_clauses :: "int \<Rightarrow> group_db \<Rightarrow> member_query \<Rightarrow> (member_row \<Rightarrow> bool) res list" where
  "member_clauses now db q =
     [clause (mq_group_id q) (\<lambda>p (g, _, _). p g),
      clause (mq_spread q) (\<lambda>p (g, _, _). list_ex (\<lambda>(e, s). e = g \<and> p s) (entity_spread db)),
      clause (mq_member_id q) (\<lambda>p (_, _, m). p m),
      clause (mq_member_type q) (\<lambda>p (_, t, _). p t),
      clause (mq_member_spread q) (\<lambda>p (_, _, m). list_ex (\<lambda>(e, s). e = m \<and> p s) (entity_spread db)),
      Inr (\<lambda>(_, _, m). mq_member_filter_expired q \<longrightarrow> member_unexpired now db m),
      clause (mq_group_type q) (\<lambda>p (g, _, _). list_ex (\<lambda>r. g_id r = g \<and> p (g_type r)) (group_info db))]"

definition select_members :: "int \<Rightarrow> group_db \<Rightarrow> member_query \<Rightarrow> member_row list res" where
  "select_members now db q = res_bind (conjunction (member_clauses now db q)) (\<lambda>p. Inr (filter p (group_member db)))"

text \<open>The ids of the groups among the direct members of some groups; \<open>et\<close> is the code of the entity type \<^verbatim>\<open>group\<close>.\<close>

definition child_groups :: "int \<Rightarrow> int \<Rightarrow> group_db \<Rightarrow> int set \<Rightarrow> int set" where
  "child_groups et now db ids =
     (case select_members now db
        (any_member\<lparr>mq_group_id := Some (Many ids), mq_member_type := Some (One et), mq_member_filter_expired := False\<rparr>) of
        Inr rows \<Rightarrow> (\<lambda>(_, _, m). m) ` set rows
      | Inl _ \<Rightarrow> {})"

definition search_members ::
    "(string \<Rightarrow> string \<Rightarrow> bool) \<Rightarrow> int \<Rightarrow> int \<Rightarrow> group_db \<Rightarrow> member_query \<Rightarrow> member_row list res option" where
  "search_members like et now db q =
     (if mq_indirect_members q \<and> (given (mq_group_id q) \<longleftrightarrow> given (mq_member_id q)) then Some (Inl AssertionError)
      else if mq_indirect_members q then
        (case mq_group_id q of
           Some g \<Rightarrow>
             map_option (\<lambda>ids. select_members now db (q\<lparr>mq_group_id := Some (Many ids)\<rparr>))
               (search_transitive_closure (child_groups et now db) (start_set g))
         | None \<Rightarrow>
             map_option (\<lambda>ids. select_members now db (q\<lparr>mq_member_id := Some (Many ids)\<rparr>))
               (search_transitive_closure (parent_groups like now db) (start_set (the (mq_member_id q)))))
      else Some (select_members now db q))"

section \<open>The recursive query\<close>

text \<open>
  The common table expression of \<^verbatim>\<open>get_groups\<close>, level by level: pairs of a group and the member it was found for.
  \<^verbatim>\<open>UNION ALL\<close> keeps duplicates, the final \<^verbatim>\<open>SELECT DISTINCT\<close> drops them.
\<close>

fun level :: "group_db \<Rightarrow> (int \<Rightarrow> bool) \<Rightarrow> nat \<Rightarrow> (int \<times> int) list" where
  "level db p 0 = [(g, m). (g, _, m) \<leftarrow> group_member db, p m]"
| "level db p (Suc d) = [(g', m). (g, m) \<leftarrow> level db p d, (g', _, m') \<leftarrow> group_member db, m' = g]"

definition member_search :: "group_db \<Rightarrow> (int \<Rightarrow> bool) \<Rightarrow> nat \<Rightarrow> (int \<times> int \<times> nat) list" where
  "member_search db p max_level = [(g, m, d). d \<leftarrow> [0..<Suc max_level], (g, m) \<leftarrow> level db p d]"

text \<open>
  A filter by spread adds a join with a stray quotation mark and an unknown alias, and without any filter the
  statement ends in \<^verbatim>\<open>WHERE\<close>: the database refuses both statements.
\<close>

definition get_groups ::
    "int \<Rightarrow> group_db \<Rightarrow> id_arg \<Rightarrow> id_arg option \<Rightarrow> id_arg option \<Rightarrow> bool \<Rightarrow> nat \<Rightarrow> (int \<times> int \<times> nat) list res" where
  "get_groups now db member_id group_spread group_type filter_expired max_recursion_depth =
     res_bind (argument_to_sql member_id) (\<lambda>p.
     res_bind (clause group_spread (\<lambda>_ _. True)) (\<lambda>_ :: unit \<Rightarrow> bool.
     res_bind (clause group_type (\<lambda>t g. list_ex (\<lambda>r. g_id r = g \<and> t (g_type r)) (group_info db))) (\<lambda>of_type.
       if group_spread \<noteq> None then Inl ProgrammingError
       else if \<not> filter_expired \<and> group_type = None then Inl ProgrammingError
       else Inr (remdups (filter
              (\<lambda>(g, _, _). (filter_expired \<longrightarrow> list_all (\<lambda>r. g_id r = g \<longrightarrow> unexpired now (g_expire r)) (group_info db))
                           \<and> of_type g)
              (member_search db p max_recursion_depth))))))"

section \<open>Members and roles\<close>

definition add_member :: "int \<Rightarrow> int \<Rightarrow> group_db \<Rightarrow> group_db res" where
  "add_member self member_id db =
     (case map_of (entity_info db) member_id of
        None \<Rightarrow> Inl NotFoundError
      | Some member_type \<Rightarrow>
          if \<not> has_group db self \<or> self = member_id \<or> list_ex (\<lambda>(g, _, m). g = self \<and> m = member_id) (group_member db)
          then Inl IntegrityError
          else Inr (log_change self ''group_add'' (Some member_id)
                 (db\<lparr>group_member := group_member db @ [(self, member_type, member_id)]\<rparr>)))"

definition has_member :: "int \<Rightarrow> int \<Rightarrow> group_db \<Rightarrow> member_row option" where
  "has_member self member_id db = find (\<lambda>(g, _, m). g = self \<and> m = member_id) (group_member db)"

definition remove_member_from_group :: "int \<Rightarrow> int \<Rightarrow> group_db \<Rightarrow> group_db" where
  "remove_member_from_group member_id group_id db =
     (if list_ex (\<lambda>(g, _, m). g = group_id \<and> m = member_id) (group_member db)
      then log_change group_id ''group_rem'' (Some member_id)
             (db\<lparr>group_member := filter (\<lambda>(g, _, m). \<not> (g = group_id \<and> m = member_id)) (group_member db)\<rparr>)
      else db)"

definition add_admin_to_group :: "int \<Rightarrow> int \<Rightarrow> group_db \<Rightarrow> group_db res" where
  "add_admin_to_group admin_id group_id db =
     (if \<not> has_group db group_id \<or> \<not> has_entity db admin_id \<or> (group_id, admin_id) \<in> set (group_admin db)
      then Inl IntegrityError
      else Inr (log_change group_id ''group_admin_add'' (Some admin_id)
             (db\<lparr>group_admin := group_admin db @ [(group_id, admin_id)]\<rparr>)))"

definition add_moderator_to_group :: "int \<Rightarrow> int \<Rightarrow> group_db \<Rightarrow> group_db res" where
  "add_moderator_to_group moderator_id group_id db =
     (if \<not> has_group db group_id \<or> \<not> has_entity db moderator_id \<or> (group_id, moderator_id) \<in> set (group_moderator db)
      then Inl IntegrityError
      else Inr (log_change group_id ''group_moderator_add'' (Some moderator_id)
             (db\<lparr>group_moderator := group_moderator db @ [(group_id, moderator_id)]\<rparr>)))"

definition is_admin :: "int \<Rightarrow> int option \<Rightarrow> group_db \<Rightarrow> bool" where
  "is_admin admin_id group_id db = list_ex (\<lambda>(g, a). a = admin_id \<and> (group_id = None \<or> group_id = Some g)) (group_admin db)"

definition is_moderator :: "int \<Rightarrow> int option \<Rightarrow> group_db \<Rightarrow> bool" where
  "is_moderator moderator_id group_id db =
     list_ex (\<lambda>(g, a). a = moderator_id \<and> (group_id = None \<or> group_id = Some g)) (group_moderator db)"

definition remove_admin_from_group :: "int \<Rightarrow> int \<Rightarrow> group_db \<Rightarrow> bool \<times> group_db" where
  "remove_admin_from_group admin_id group_id db =
     (if is_admin admin_id (Some group_id) db
      then (True, log_change group_id ''group_admin_rem'' (Some admin_id)
             (db\<lparr>group_admin := filter (\<lambda>x. x \<noteq> (group_id, admin_id)) (group_admin db)\<rparr>))
      else (False, db))"

definition remove_moderator_from_group :: "int \<Rightarrow> int \<Rightarrow> group_db \<Rightarrow> bool \<times> group_db" where
  "remove_moderator_from_group moderator_id group_id db =
     (if is_moderator moderator_id (Some group_id) db
      then (True, log_change group_id ''group_moderator_rem'' (Some moderator_id)
             (db\<lparr>group_moderator := filter (\<lambda>x. x \<noteq> (group_id, moderator_id)) (group_moderator db)\<rparr>))
      else (False, db))"

definition log_all :: "int \<Rightarrow> string \<Rightarrow> int list \<Rightarrow> group_db \<Rightarrow> group_db" where
  "log_all g change ids db = fold (\<lambda>i. log_change g change (Some i)) ids db"

definition remove_all :: "int \<Rightarrow> group_db \<Rightarrow> group_db" where
  "remove_all group_id db =
     (let db1 = log_all group_id ''group_admin_rem'' (map snd (filter (\<lambda>(g, _). g = group_id) (group_admin db))) db;
          db2 = db1\<lparr>group_admin := filter (\<lambda>(g, _). g \<noteq> group_id) (group_admin db1)\<rparr>;
          db3 = db2\<lparr>group_admin := filter (\<lambda>(_, a). a \<noteq> group_id) (group_admin db2)\<rparr>;
          db4 = log_all group_id ''group_moderator_rem'' (map snd (filter (\<lambda>(g, _). g = group_id) (group_moderator db3))) db3;
          db5 = db4\<lparr>group_moderator := filter (\<lambda>(g, _). g \<noteq> group_id) (group_moderator db4)\<rparr>
      in db5\<lparr>group_moderator := filter (\<lambda>(_, a). a \<noteq> group_id) (group_moderator db5)\<rparr>)"

section \<open>Creating and deleting groups\<close>

definition illegal_group_name :: "string \<Rightarrow> bool" where
  "illegal_group_name name = (name = [] \<or> length name > 256)"

text \<open>
  \<^verbatim>\<open>populate\<close> and \<^verbatim>\<open>write_db\<close> for a new group: the row of \<^verbatim>\<open>entity_info\<close> first, then that of \<^verbatim>\<open>group_info\<close>, then
  the name, which is unique in its namespace. A description has 512 characters at most. \<open>new_id\<close> is the next value of the database's sequence.
\<close>

definition new_group :: "int \<Rightarrow> int \<Rightarrow> group_row \<Rightarrow> string \<Rightarrow> group_db \<Rightarrow> group_db res" where
  "new_group et new_id r name db =
     (if illegal_group_name name then Inl IntegrityError
      else if has_entity db new_id then Inl IntegrityError
      else if \<not> none_or (\<lambda>d. \<not> too_long 512 d) (g_description r) then Inl DataError
      else if g_creator r \<notin> set (keys (account_expire db)) then Inl IntegrityError
      else if name \<in> snd ` set (group_names db) then Inl IntegrityError
      else Inr (log_change new_id ''entity_name_add'' None (log_change new_id ''group_create'' None
             (log_change new_id ''entity_add'' None
               (db\<lparr>entity_info := entity_info db @ [(new_id, et)],
                   group_info := group_info db @ [r\<lparr>g_id := new_id, g_description := map_option (take 512) (g_description r)\<rparr>],
                   group_names := group_names db @ [(new_id, name)]\<rparr>)))))"

text \<open>Deleting a row of \<^verbatim>\<open>group_info\<close> or \<^verbatim>\<open>entity_info\<close>; a row that is still referred to stays, and the statement raises.\<close>

definition delete_group_info :: "int \<Rightarrow> group_db \<Rightarrow> group_db res" where
  "delete_group_info g db =
     (if list_ex (\<lambda>(g', _, _). g' = g) (group_member db) \<or> list_ex (\<lambda>(g', _). g' = g) (group_admin db)
         \<or> list_ex (\<lambda>(g', _). g' = g) (group_moderator db)
      then Inl IntegrityError
      else Inr (db\<lparr>group_info := filter (\<lambda>r. g_id r \<noteq> g) (group_info db)\<rparr>))"

definition delete_entity_info :: "int \<Rightarrow> group_db \<Rightarrow> group_db res" where
  "delete_entity_info e db =
     (if has_group db e \<or> list_ex (\<lambda>(_, _, m). m = e) (group_member db) \<or> list_ex (\<lambda>(_, a). a = e) (group_admin db)
         \<or> list_ex (\<lambda>(_, a). a = e) (group_moderator db) \<or> list_ex (\<lambda>(i, _). i = e) (group_names db)
         \<or> list_ex (\<lambda>(i, _). i = e) (entity_spread db) \<or> list_ex (\<lambda>(_, owner). owner = e) (account_owner db) \<or> e \<in> set (entity_refs db)
      then Inl IntegrityError
      else Inr (db\<lparr>entity_info := filter (\<lambda>(i, _). i \<noteq> e) (entity_info db)\<rparr>))"

definition delete_group_name :: "int \<Rightarrow> group_db \<Rightarrow> group_db" where
  "delete_group_name e db =
     (if list_ex (\<lambda>(i, _). i = e) (group_names db)
      then (log_change e ''entity_name_del'' None db)\<lparr>group_names := filter (\<lambda>(i, _). i \<noteq> e) (group_names db)\<rparr>
      else db)"

text \<open>
  The deletions of the mixins for quarantines, external ids and localised names concern tables that are not
  modelled; those for spreads and for the entity itself follow the group's own.
\<close>

definition delete_group :: "int \<Rightarrow> group_db \<Rightarrow> group_db res" where
  "delete_group self db =
     (let db1 = remove_all self db;
          db2 = db1\<lparr>group_member := filter (\<lambda>(g, _, _). g \<noteq> self) (group_member db1)\<rparr>;
          db3 = db2\<lparr>group_member := filter (\<lambda>(_, _, m). m \<noteq> self) (group_member db2)\<rparr>;
          db4 = delete_group_name self db3
      in res_bind (delete_group_info self db4) (\<lambda>db5.
         let db6 = log_change self ''group_destroy'' None db5;
             db7 = log_all self ''spread_del'' (map snd (filter (\<lambda>(e, _). e = self) (entity_spread db6))) db6;
             db8 = db7\<lparr>entity_spread := filter (\<lambda>(e, _). e \<noteq> self) (entity_spread db7)\<rparr>
         in res_bind (delete_entity_info self db8) (\<lambda>db9. Inr (log_change self ''entity_del'' None db9))))"

section \<open>The indirect searches\<close>

definition up_edges :: "group_db \<Rightarrow> (int \<times> int) set" where
  "up_edges db = {(m, g). \<exists>t. (g, t, m) \<in> set (group_member db) \<and> has_group db g}"

definition down_edges :: "int \<Rightarrow> group_db \<Rightarrow> (int \<times> int) set" where
  "down_edges et db = {(g, m). (g, et, m) \<in> set (group_member db)}"

lemma text_clause_None [simp]: "text_clause like None f r"
  by (simp add: text_clause_def)

lemmas search_defs = search_direct_def select_groups_def other_clauses_def any_group_def given_def

lemma parent_groups_eq: "ids \<noteq> {} \<Longrightarrow> parent_groups like now db ids = up_edges db `` ids"
  by (force simp: parent_groups_def search_defs has_direct_member_def has_group_def up_edges_def list_ex_iff)

lemma child_groups_eq: "ids \<noteq> {} \<Longrightarrow> child_groups et now db ids = down_edges et db `` ids"
  by (force simp: child_groups_def select_members_def member_clauses_def any_member_def down_edges_def)

lemma finite_up_edges: "finite (up_edges db)"
  by (rule finite_subset [of _ "(\<lambda>(g, _, m). (m, g)) ` set (group_member db)"]) (force simp: up_edges_def)+

lemma finite_down_edges: "finite (down_edges et db)"
  by (rule finite_subset [of _ "(\<lambda>(g, _, m). (g, m)) ` set (group_member db)"]) (force simp: down_edges_def)+

interpretation up: finite_search "parent_groups like now db" "up_edges db" for like now db
  by unfold_locales (auto simp: parent_groups_eq finite_up_edges)

interpretation down: finite_search "child_groups et now db" "down_edges et db" for et now db
  by unfold_locales (auto simp: child_groups_eq finite_down_edges)

lemma search_indirect_exact_aux:
  assumes "given (Some m)" "finite (start_set m)"
  shows "search_groups like now db (any_group\<lparr>q_member_id := Some m, q_indirect_members := True, q_filter_expired := fe\<rparr>) =
    Some (Inr (filter (\<lambda>r. g_id r \<in> (up_edges db)\<^sup>+ `` start_set m \<and> (fe \<longrightarrow> unexpired now (g_expire r))) (group_info db)))"
proof -
  have "search_parents (parent_groups like now db) (start_set m) = Some ((up_edges db)\<^sup>+ `` start_set m)"
    by (rule up.search_parents_eq [OF assms(2)])
  moreover have "given (Some m) \<and> \<not> given None" using assms(1) by (simp add: given_def)
  ultimately show ?thesis
    by (auto simp: search_groups_def any_group_def select_groups_def other_clauses_def role_clause_def Let_def)
qed

text \<open>
  Searching for the groups an entity, or any of some entities, is an indirect member of returns, and gives
  exactly the groups a chain of memberships leads to, without the expired ones when they are filtered. Loops
  among the groups do no harm.
\<close>

theorem search_indirect_exact:
  assumes "given (Some m)" "finite (start_set m)"
  shows "search_groups like now db (any_group\<lparr>q_member_id := Some m, q_indirect_members := True, q_filter_expired := fe\<rparr>) =
    Some (Inr (filter (\<lambda>r. g_id r \<in> (up_edges db)\<^sup>+ `` start_set m \<and> (fe \<longrightarrow> unexpired now (g_expire r))) (group_info db)))"
  by (rule search_indirect_exact_aux [OF assms])

text \<open>
  C10: searching for the indirect members of a group, or of several, returns, and gives exactly the membership
  rows of these groups and of every group nested in them, loops or not.
\<close>

theorem search_members_indirect_exact:
  assumes "given (Some g)" "finite (start_set g)"
  shows "search_members like et now db
      (any_member\<lparr>mq_group_id := Some g, mq_indirect_members := True, mq_member_filter_expired := fe\<rparr>) =
    Some (Inr (filter (\<lambda>(g', _, m). g' \<in> (down_edges et db)\<^sup>* `` start_set g \<and> (fe \<longrightarrow> member_unexpired now db m))
      (group_member db)))"
proof -
  have "search_transitive_closure (child_groups et now db) (start_set g) = Some ((down_edges et db)\<^sup>* `` start_set g)"
    by (rule down.search_transitive_closure_eq [OF assms(2)])
  moreover have "start_set g \<noteq> {}" using assms(1) by (auto simp: given_def start_set_def split: id_arg.splits)
  then have "(down_edges et db)\<^sup>* `` start_set g \<noteq> {}" by blast
  moreover have "given (Some g) \<and> \<not> given None" using assms(1) by (simp add: given_def)
  ultimately show ?thesis
    by (simp add: search_members_def any_member_def select_members_def member_clauses_def case_prod_unfold)
qed

section \<open>The recursive query agrees\<close>

definition wf_groups :: "group_db \<Rightarrow> bool" where
  "wf_groups db \<longleftrightarrow>
     distinct (map g_id (group_info db)) \<and>
     (\<forall>r \<in> set (group_info db). has_entity db (g_id r)) \<and>
     distinct (map (\<lambda>(g, _, m). (g, m)) (group_member db)) \<and>
     (\<forall>(g, t, m) \<in> set (group_member db). has_group db g \<and> has_entity db m \<and> g \<noteq> m) \<and>
     (\<forall>(g, a) \<in> set (group_admin db). has_group db g \<and> has_entity db a) \<and>
     (\<forall>(g, a) \<in> set (group_moderator db). has_group db g \<and> has_entity db a) \<and>
     (\<forall>(a, owner) \<in> set (account_owner db). has_entity db owner) \<and> (\<forall>e \<in> set (entity_refs db). has_entity db e)"

lemma relpow_Image: "R `` ((R ^^ n) `` S) = (R ^^ Suc n) `` S"
  by (simp add: relcomp_Image)

lemma up_edges_iff:
  assumes "wf_groups db"
  shows "(m, g) \<in> up_edges db \<longleftrightarrow> (\<exists>t. (g, t, m) \<in> set (group_member db))"
  using assms by (force simp: up_edges_def wf_groups_def)

lemma level_Suc_groups: "fst ` set (level db p (Suc d)) = {g'. \<exists>t. \<exists>g \<in> fst ` set (level db p d). (g', t, g) \<in> set (group_member db)}"
  by force

lemma level_groups:
  assumes "wf_groups db"
  shows "fst ` set (level db p d) = (up_edges db ^^ Suc d) `` {m. p m}"
proof (induction d)
  case 0
  show ?case by (force simp: up_edges_iff [OF assms])
next
  case (Suc d)
  have "fst ` set (level db p (Suc d)) = up_edges db `` (fst ` set (level db p d))"
    unfolding level_Suc_groups Image_def up_edges_iff [OF assms] by blast
  then show ?case unfolding Suc.IH relpow_Image .
qed

text \<open>One more level of nesting than the query follows would not lead to another group.\<close>

definition deep_enough :: "group_db \<Rightarrow> id_arg \<Rightarrow> nat \<Rightarrow> bool" where
  "deep_enough db m n \<longleftrightarrow>
     fst ` set (level db (\<lambda>x. x \<in> start_set m) (Suc n)) \<subseteq> (\<Union>d \<in> {..n}. fst ` set (level db (\<lambda>x. x \<in> start_set m) d))"

lemma trancl_closed:
  assumes "R `` S \<subseteq> U" "R `` U \<subseteq> U"
  shows "R\<^sup>+ `` S \<subseteq> U"
proof
  fix y
  assume "y \<in> R\<^sup>+ `` S"
  then obtain x where x: "x \<in> S" "(x, y) \<in> R\<^sup>+" by blast
  from x(2) show "y \<in> U" by (induction rule: trancl_induct) (use x(1) assms in blast)+
qed

lemma levels_trancl:
  assumes "(R ^^ Suc (Suc n)) `` S \<subseteq> (\<Union>d \<in> {..n}. (R ^^ Suc d) `` S)"
  shows "(\<Union>d \<in> {..n}. (R ^^ Suc d) `` S) = R\<^sup>+ `` S"
proof
  show "(\<Union>d \<in> {..n}. (R ^^ Suc d) `` S) \<subseteq> R\<^sup>+ `` S"
  proof (intro UN_least subsetI)
    fix d y
    assume "y \<in> (R ^^ Suc d) `` S"
    then show "y \<in> R\<^sup>+ `` S" using trancl_power [of _ R] by blast
  qed
  let ?U = "\<Union>d \<in> {..n}. (R ^^ Suc d) `` S"
  have "R `` ((R ^^ Suc d) `` S) \<subseteq> ?U" if "d \<le> n" for d
  proof (cases "d = n")
    case True
    then show ?thesis using assms by (simp only: relpow_Image)
  next
    case False
    then have "Suc d \<in> {..n}" using that by simp
    then show ?thesis unfolding relpow_Image by blast
  qed
  then have closed: "R `` ?U \<subseteq> ?U" unfolding Image_UN by blast
  have first: "R `` S \<subseteq> ?U" using UN_upper [of 0 "{..n}" "\<lambda>d. (R ^^ Suc d) `` S"] by simp
  show "R\<^sup>+ `` S \<subseteq> ?U" by (rule trancl_closed [OF first closed])
qed

lemma unexpired_groups:
  assumes "wf_groups db" "r \<in> set (group_info db)"
  shows "list_all (\<lambda>r'. g_id r' = g_id r \<longrightarrow> unexpired now (g_expire r')) (group_info db) \<longleftrightarrow> unexpired now (g_expire r)"
proof -
  have "r' = r" if "r' \<in> set (group_info db)" "g_id r' = g_id r" for r'
    using assms that by (auto simp: wf_groups_def distinct_map inj_on_def)
  then show ?thesis using assms(2) by (auto simp: list_all_iff)
qed

lemma unexpired_image:
  assumes "wf_groups db" "T \<subseteq> g_id ` set (group_info db)"
  shows "{g \<in> T. list_all (\<lambda>r. g_id r = g \<longrightarrow> unexpired now (g_expire r)) (group_info db)} =
    g_id ` {r \<in> set (group_info db). g_id r \<in> T \<and> unexpired now (g_expire r)}"
  using assms(2) unexpired_groups [OF assms(1)] by auto

lemma up_edges_groups: "(up_edges db)\<^sup>+ `` S \<subseteq> g_id ` set (group_info db)"
proof
  fix g
  assume "g \<in> (up_edges db)\<^sup>+ `` S"
  then obtain y where "(y, g) \<in> up_edges db" by (auto elim: tranclE)
  then show "g \<in> g_id ` set (group_info db)" by (auto simp: up_edges_def has_group_def list_ex_iff)
qed

lemma set_member_search: "set (member_search db p n) = {(g, m, d). d \<le> n \<and> (g, m) \<in> set (level db p d)}"
  by (auto simp: member_search_def less_Suc_eq_le simp del: upt_Suc)

text \<open>
  The recursive SQL query finds exactly the groups that the repeated searches find, unless a deeper level
  than its limit would still add a group.
\<close>

theorem get_groups_agrees:
  assumes "wf_groups db" "given (Some m)" "finite (start_set m)" "deep_enough db m n"
  shows "\<exists>rows groups. get_groups now db m None None True n = Inr rows \<and>
    search_groups like now db (any_group\<lparr>q_member_id := Some m, q_indirect_members := True, q_filter_expired := True\<rparr>) =
      Some (Inr groups) \<and> fst ` set rows = g_id ` set groups"
proof -
  let ?p = "\<lambda>x. x \<in> start_set m" and ?ok = "\<lambda>g. list_all (\<lambda>r. g_id r = g \<longrightarrow> unexpired now (g_expire r)) (group_info db)"
  let ?rows = "remdups (filter (\<lambda>(g, _, _). ?ok g) (member_search db ?p n))"
  let ?groups = "filter (\<lambda>r. g_id r \<in> (up_edges db)\<^sup>+ `` start_set m \<and> unexpired now (g_expire r)) (group_info db)"
  have rows: "get_groups now db m None None True n = Inr ?rows"
    using assms(2) by (simp add: get_groups_def argument_start_set case_prod_unfold)
  have "fst ` set (member_search db ?p n) = (\<Union>d \<in> {..n}. fst ` set (level db ?p d))"
    unfolding set_member_search by force
  also have "\<dots> = (up_edges db)\<^sup>+ `` start_set m"
    using assms(4) unfolding deep_enough_def level_groups [OF assms(1)] Collect_mem_eq by (rule levels_trancl)
  finally have found: "fst ` set (member_search db ?p n) = (up_edges db)\<^sup>+ `` start_set m" .
  have "fst ` set ?rows = {g \<in> fst ` set (member_search db ?p n). ?ok g}" by force
  also have "\<dots> = g_id ` set ?groups"
    unfolding found unexpired_image [OF assms(1) up_edges_groups] set_filter ..
  finally show ?thesis
    using rows search_indirect_exact_aux [OF assms(2,3)] by auto
qed

section \<open>Deleting groups\<close>

lemma log_change_tables [simp]:
  "entity_info (log_change s c d db) = entity_info db" "group_info (log_change s c d db) = group_info db"
  "group_names (log_change s c d db) = group_names db" "group_member (log_change s c d db) = group_member db"
  "group_admin (log_change s c d db) = group_admin db" "group_moderator (log_change s c d db) = group_moderator db"
  "account_expire (log_change s c d db) = account_expire db" "account_owner (log_change s c d db) = account_owner db"
  "entity_refs (log_change s c d db) = entity_refs db" "entity_spread (log_change s c d db) = entity_spread db"
  by (simp_all add: log_change_def)

lemma log_all_tables [simp]:
  "entity_info (log_all s c is db) = entity_info db" "group_info (log_all s c is db) = group_info db"
  "group_names (log_all s c is db) = group_names db" "group_member (log_all s c is db) = group_member db"
  "group_admin (log_all s c is db) = group_admin db" "group_moderator (log_all s c is db) = group_moderator db"
  "account_expire (log_all s c is db) = account_expire db" "account_owner (log_all s c is db) = account_owner db"
  "entity_refs (log_all s c is db) = entity_refs db" "entity_spread (log_all s c is db) = entity_spread db"
  unfolding log_all_def by (induction "is" arbitrary: db) simp_all

text \<open>The tables after a deletion: every row that mentions the group is gone, every other row is kept.\<close>

definition without :: "int \<Rightarrow> group_db \<Rightarrow> group_db \<Rightarrow> bool" where
  "without g db db' \<longleftrightarrow>
     entity_info db' = filter (\<lambda>(i, _). i \<noteq> g) (entity_info db) \<and>
     group_info db' = filter (\<lambda>r. g_id r \<noteq> g) (group_info db) \<and>
     group_names db' = filter (\<lambda>(i, _). i \<noteq> g) (group_names db) \<and>
     group_member db' = filter (\<lambda>(g', _, m). g' \<noteq> g \<and> m \<noteq> g) (group_member db) \<and>
     group_admin db' = filter (\<lambda>(g', a). g' \<noteq> g \<and> a \<noteq> g) (group_admin db) \<and>
     group_moderator db' = filter (\<lambda>(g', a). g' \<noteq> g \<and> a \<noteq> g) (group_moderator db) \<and>
     entity_spread db' = filter (\<lambda>(e, _). e \<noteq> g) (entity_spread db) \<and>
     account_expire db' = account_expire db \<and> account_owner db' = account_owner db \<and> entity_refs db' = entity_refs db"

text \<open>What blocks a deletion.\<close>

definition referred_to :: "int \<Rightarrow> group_db \<Rightarrow> bool" where
  "referred_to e db \<longleftrightarrow> (\<exists>a. (a, e) \<in> set (account_owner db)) \<or> e \<in> set (entity_refs db)"

lemma remove_all_tables:
  "group_admin (remove_all g db) = filter (\<lambda>(g', a). g' \<noteq> g \<and> a \<noteq> g) (group_admin db)"
  "group_moderator (remove_all g db) = filter (\<lambda>(g', a). g' \<noteq> g \<and> a \<noteq> g) (group_moderator db)"
  "entity_info (remove_all g db) = entity_info db" "group_info (remove_all g db) = group_info db"
  "group_names (remove_all g db) = group_names db" "group_member (remove_all g db) = group_member db"
  "account_expire (remove_all g db) = account_expire db" "account_owner (remove_all g db) = account_owner db"
  "entity_refs (remove_all g db) = entity_refs db" "entity_spread (remove_all g db) = entity_spread db"
  by (simp_all add: remove_all_def Let_def filter_filter case_prod_unfold conj_commute)

lemma delete_group_name_tables:
  "group_names (delete_group_name g db) = filter (\<lambda>(i, _). i \<noteq> g) (group_names db)"
  "entity_info (delete_group_name g db) = entity_info db" "group_info (delete_group_name g db) = group_info db"
  "group_member (delete_group_name g db) = group_member db" "group_admin (delete_group_name g db) = group_admin db"
  "group_moderator (delete_group_name g db) = group_moderator db"
  "account_expire (delete_group_name g db) = account_expire db" "account_owner (delete_group_name g db) = account_owner db"
  "entity_refs (delete_group_name g db) = entity_refs db" "entity_spread (delete_group_name g db) = entity_spread db"
  by (auto simp: delete_group_name_def list_ex_iff case_prod_unfold intro: filter_True [symmetric])

lemmas delete_tables = remove_all_tables delete_group_name_tables

lemma delete_group_cases:
  "if referred_to g db then delete_group g db = Inl IntegrityError else \<exists>db'. delete_group g db = Inr db' \<and> without g db db'"
proof -
  define db4 where "db4 = delete_group_name g ((remove_all g db)\<lparr>group_member :=
      filter (\<lambda>(g', _, m). g' \<noteq> g \<and> m \<noteq> g) (group_member db)\<rparr>)"
  define db5 where "db5 = db4\<lparr>group_info := filter (\<lambda>r. g_id r \<noteq> g) (group_info db4)\<rparr>"
  have info: "delete_group_info g db4 = Inr db5"
    by (auto simp: delete_group_info_def db4_def db5_def delete_tables list_ex_iff)
  define db8 where "db8 = (let db6 = log_change g ''group_destroy'' None db5;
      db7 = log_all g ''spread_del'' (map snd (filter (\<lambda>(e, _). e = g) (entity_spread db6))) db6
    in db7\<lparr>entity_spread := filter (\<lambda>(e, _). e \<noteq> g) (entity_spread db7)\<rparr>)"
  have entity: "delete_entity_info g db8 =
      (if referred_to g db then Inl IntegrityError else Inr (db8\<lparr>entity_info := filter (\<lambda>(i, _). i \<noteq> g) (entity_info db8)\<rparr>))"
    by (auto simp: delete_entity_info_def db8_def db5_def db4_def Let_def delete_tables list_ex_iff has_group_def referred_to_def)
  have run: "delete_group g db = res_bind (delete_entity_info g db8) (\<lambda>db9. Inr (log_change g ''entity_del'' None db9))"
    using info by (simp add: delete_group_def Let_def delete_tables db4_def db8_def case_prod_unfold)
  show ?thesis unfolding run entity
    by (simp add: without_def db8_def db5_def db4_def Let_def delete_tables)
qed

section \<open>Consistency of the tables\<close>

text \<open>
  The steps are the operations above and one of the other classes, which may change accounts and the other rows that refer to
  entities as far as the foreign keys allow.
\<close>

inductive group_step :: "group_db \<Rightarrow> group_db \<Rightarrow> bool" where
  step_new: "new_group et i r n db = Inr db' \<Longrightarrow> group_step db db'"
| step_add: "add_member g m db = Inr db' \<Longrightarrow> group_step db db'"
| step_remove: "group_step db (remove_member_from_group m g db)"
| step_add_admin: "add_admin_to_group a g db = Inr db' \<Longrightarrow> group_step db db'"
| step_add_moderator: "add_moderator_to_group a g db = Inr db' \<Longrightarrow> group_step db db'"
| step_remove_admin: "group_step db (snd (remove_admin_from_group a g db))"
| step_remove_moderator: "group_step db (snd (remove_moderator_from_group a g db))"
| step_delete: "delete_group g db = Inr db' \<Longrightarrow> group_step db db'"
| step_others: "\<forall>(a, owner) \<in> set owners. has_entity db owner \<Longrightarrow> \<forall>e \<in> set refs. has_entity db e \<Longrightarrow>
    group_step db (db\<lparr>account_owner := owners, entity_refs := refs\<rparr>)"

inductive_cases group_stepE: "group_step db db'"

lemma has_group_iff: "has_group db g \<longleftrightarrow> g \<in> g_id ` set (group_info db)"
  by (auto simp: has_group_def list_ex_iff)

lemma has_entity_iff: "has_entity db e \<longleftrightarrow> e \<in> fst ` set (entity_info db)"
  by (force simp: has_entity_def list_ex_iff)

lemmas wf_simps = wf_groups_def has_group_iff has_entity_iff

lemma wf_new_group: "wf_groups db \<Longrightarrow> new_group et i r n db = Inr db' \<Longrightarrow> wf_groups db'"
  by (force simp: new_group_def wf_simps split: if_splits)

lemma wf_add_member:
  assumes "wf_groups db" "add_member g m db = Inr db'"
  shows "wf_groups db'"
proof -
  obtain t where t: "map_of (entity_info db) m = Some t" using assms(2) by (auto simp: add_member_def split: option.splits)
  have new: "has_group db g" "g \<noteq> m" "(g, m) \<notin> (\<lambda>(g, _, m). (g, m)) ` set (group_member db)"
    and db': "db' = log_change g ''group_add'' (Some m) (db\<lparr>group_member := group_member db @ [(g, t, m)]\<rparr>)"
    using assms(2) t by (auto simp: add_member_def list_ex_iff split: if_splits)
  have "has_entity db m" using map_of_SomeD [OF t] by (force simp: has_entity_iff)
  then show ?thesis using assms(1) new unfolding db' by (auto simp: wf_simps)
qed

lemma distinct_map_filter_key: "distinct (map f xs) \<Longrightarrow> distinct (map f (filter p xs))"
  by (induction xs) auto

lemma wf_fewer_rows:
  assumes "wf_groups db" "entity_info db' = entity_info db" "group_info db' = group_info db"
    "group_member db' = filter p (group_member db)" "set (group_admin db') \<subseteq> set (group_admin db)"
    "set (group_moderator db') \<subseteq> set (group_moderator db)" "account_owner db' = account_owner db" "entity_refs db' = entity_refs db"
  shows "wf_groups db'"
proof -
  have once: "distinct (map (\<lambda>(g, _, m). (g, m)) (group_member db'))"
    unfolding assms(4) using assms(1) by (intro distinct_map_filter_key) (simp add: wf_groups_def)
  have sub: "set (group_member db') \<subseteq> set (group_member db)" by (auto simp: assms(4))
  have same: "has_group db' = has_group db" "has_entity db' = has_entity db" by (simp_all add: fun_eq_iff has_group_def has_entity_def assms(2,3))
  have "\<forall>(g, t, m) \<in> set (group_member db'). has_group db g \<and> has_entity db m \<and> g \<noteq> m"
    "\<forall>(g, a) \<in> set (group_admin db'). has_group db g \<and> has_entity db a" "\<forall>(g, a) \<in> set (group_moderator db'). has_group db g \<and> has_entity db a"
    using assms(1) sub assms(5,6) unfolding wf_groups_def by (meson subsetD)+
  then show ?thesis using assms(1) once unfolding wf_groups_def same assms(3,7,8) by (intro conjI) simp_all
qed

lemma wf_remove_member:
  assumes "wf_groups db"
  shows "wf_groups (remove_member_from_group m g db)"
proof (rule wf_fewer_rows [OF assms])
  show "group_member (remove_member_from_group m g db) = filter (\<lambda>(g', _, m'). \<not> (g' = g \<and> m' = m)) (group_member db)"
    by (auto simp: remove_member_from_group_def list_ex_iff intro!: filter_True [symmetric])
qed (simp_all add: remove_member_from_group_def)

lemma wf_remove_roles:
  assumes "wf_groups db"
  shows "wf_groups (snd (remove_admin_from_group a g db))" "wf_groups (snd (remove_moderator_from_group a g db))"
  by (rule wf_fewer_rows [OF assms, where p = "\<lambda>_. True"];
      auto simp: remove_admin_from_group_def remove_moderator_from_group_def)+

lemma wf_more_roles:
  assumes "wf_groups db" "has_group db g" "has_entity db a"
  shows "wf_groups (log_change s c d (db\<lparr>group_admin := group_admin db @ [(g, a)]\<rparr>))"
    "wf_groups (log_change s c d (db\<lparr>group_moderator := group_moderator db @ [(g, a)]\<rparr>))"
  using assms by (auto simp: wf_simps)

lemma wf_without:
  assumes "wf_groups db" "without g db db'" "\<not> referred_to g db"
  shows "wf_groups db'"
proof -
  have tables: "entity_info db' = filter (\<lambda>(i, _). i \<noteq> g) (entity_info db)"
    "group_info db' = filter (\<lambda>r. g_id r \<noteq> g) (group_info db)"
    "group_member db' = filter (\<lambda>(g', _, m). g' \<noteq> g \<and> m \<noteq> g) (group_member db)"
    "group_admin db' = filter (\<lambda>(g', a). g' \<noteq> g \<and> a \<noteq> g) (group_admin db)"
    "group_moderator db' = filter (\<lambda>(g', a). g' \<noteq> g \<and> a \<noteq> g) (group_moderator db)"
    "account_owner db' = account_owner db" "entity_refs db' = entity_refs db"
    using assms(2) by (simp_all add: without_def)
  have G: "has_group db' x \<longleftrightarrow> has_group db x \<and> x \<noteq> g" for x by (auto simp: has_group_iff tables)
  have E: "has_entity db' x \<longleftrightarrow> has_entity db x \<and> x \<noteq> g" for x by (force simp: has_entity_iff tables)
  have wf: "distinct (map g_id (group_info db))" "\<forall>r \<in> set (group_info db). has_entity db (g_id r)"
    "distinct (map (\<lambda>(g, _, m). (g, m)) (group_member db))"
    "\<forall>(g, t, m) \<in> set (group_member db). has_group db g \<and> has_entity db m \<and> g \<noteq> m"
    "\<forall>(g, a) \<in> set (group_admin db). has_group db g \<and> has_entity db a"
    "\<forall>(g, a) \<in> set (group_moderator db). has_group db g \<and> has_entity db a"
    "\<forall>(a, owner) \<in> set (account_owner db). has_entity db owner" "\<forall>e \<in> set (entity_refs db). has_entity db e"
    using assms(1) unfolding wf_groups_def by blast+
  have "distinct (map g_id (group_info db'))" "distinct (map (\<lambda>(g, _, m). (g, m)) (group_member db'))"
    unfolding tables by (intro distinct_map_filter_key wf(1,3))+
  moreover have "has_entity db' (g_id r)" if "r \<in> set (group_info db')" for r
    using that wf(2) by (simp add: E tables(2))
  moreover have "has_group db' x \<and> has_entity db' y \<and> x \<noteq> y" if "(x, t, y) \<in> set (group_member db')" for x t y
    using that wf(4) unfolding G E tables(3) by (simp add: Ball_def) blast
  moreover have "has_group db' x \<and> has_entity db' a" if "(x, a) \<in> set (group_admin db')" for x a
    using that wf(5) unfolding G E tables(4) by (simp add: Ball_def) blast
  moreover have "has_group db' x \<and> has_entity db' a" if "(x, a) \<in> set (group_moderator db')" for x a
    using that wf(6) unfolding G E tables(5) by (simp add: Ball_def) blast
  moreover have "\<forall>(a, owner) \<in> set (account_owner db'). has_entity db' owner" "\<forall>e \<in> set (entity_refs db'). has_entity db' e"
    using wf(7,8) assms(3) unfolding E tables(6,7) referred_to_def by auto
  ultimately show ?thesis unfolding wf_groups_def by blast
qed

lemma wf_group_step: "wf_groups db \<Longrightarrow> group_step db db' \<Longrightarrow> wf_groups db'"
proof (erule group_stepE)
  fix g assume wf: "wf_groups db" and "delete_group g db = Inr db'"
  then show "wf_groups db'" using delete_group_cases [of g db] wf_without [OF wf] by (auto split: if_splits)
next
  fix owners refs assume "wf_groups db" "db' = db\<lparr>account_owner := owners, entity_refs := refs\<rparr>"
    "\<forall>(a, owner) \<in> set owners. has_entity db owner" "\<forall>e \<in> set refs. has_entity db e"
  then show "wf_groups db'" by (simp add: wf_groups_def has_group_def has_entity_def)
next
  fix m g assume "wf_groups db" "db' = remove_member_from_group m g db"
  then show "wf_groups db'" using wf_remove_member by simp
next
  fix a g assume "wf_groups db" "db' = snd (remove_admin_from_group a g db)"
  then show "wf_groups db'" using wf_remove_roles by simp
next
  fix a g assume "wf_groups db" "db' = snd (remove_moderator_from_group a g db)"
  then show "wf_groups db'" using wf_remove_roles by simp
next
  fix a g assume "wf_groups db" "add_admin_to_group a g db = Inr db'"
  then show "wf_groups db'" by (auto simp: add_admin_to_group_def intro: wf_more_roles split: if_splits)
next
  fix a g assume "wf_groups db" "add_moderator_to_group a g db = Inr db'"
  then show "wf_groups db'" by (auto simp: add_moderator_to_group_def intro: wf_more_roles split: if_splits)
qed (fact wf_new_group wf_add_member)+

definition no_groups :: "group_db \<Rightarrow> bool" where
  "no_groups db \<longleftrightarrow> group_info db = [] \<and> group_member db = [] \<and> group_admin db = [] \<and> group_moderator db = [] \<and>
     (\<forall>(a, owner) \<in> set (account_owner db). has_entity db owner) \<and> (\<forall>e \<in> set (entity_refs db). has_entity db e)"

interpretation groups: invariant_system no_groups group_step wf_groups
proof
  show "no_groups db \<Longrightarrow> wf_groups db" for db by (simp add: no_groups_def wf_groups_def)
qed (rule wf_group_step)

text \<open>
  C14: on every database the group operations produce, among changes of the other tables that refer to entities, memberships and
  roles connect existing groups with existing entities, memberships at most once each, and no group is its own member. Deleting a group raises
  \<^verbatim>\<open>IntegrityError\<close> exactly if accounts are owned by it or rows refer to it that its classes do not delete. Otherwise it returns,
  removes exactly the rows that mention the group and keeps the tables consistent.
\<close>

theorem groups_consistent:
  assumes "reachable no_groups group_step db"
  shows "wf_groups db \<and> (if referred_to g db then delete_group g db = Inl IntegrityError
    else \<exists>db'. delete_group g db = Inr db' \<and> without g db db' \<and> wf_groups db')"
proof -
  have "wf_groups db" by (rule groups.reachable_inv [OF assms])
  then show ?thesis using delete_group_cases [of g db] wf_without by (cases "referred_to g db") auto
qed

section \<open>An example\<close>

text \<open>
  Account 1 is a member of group 10, the groups 10 and 11 are members of each other, and group 12, which has
  expired, contains 11. The entity type of groups is 2.
\<close>

definition plain_group :: "int \<Rightarrow> int option \<Rightarrow> group_row" where
  "plain_group i e = \<lparr>g_id = i, g_type = 0, g_description = None, g_visibility = 0, g_creator = 1, g_expire = e\<rparr>"

definition nested_groups :: group_db where
  "nested_groups =
     \<lparr>entity_info = [(1, 1), (10, 2), (11, 2), (12, 2)],
      group_info = [plain_group 10 None, plain_group 11 None, plain_group 12 (Some 5)], group_names = [],
      group_member = [(10, 1, 1), (11, 2, 10), (10, 2, 11), (12, 2, 11)], group_admin = [], group_moderator = [],
      account_expire = [(1, None)], account_owner = [], entity_refs = [], entity_spread = [], group_log = []\<rparr>"

lemma nested_search:
  "search_groups like 7 nested_groups (any_group\<lparr>q_member_id := Some (One 1), q_indirect_members := True, q_filter_expired := True\<rparr>) =
    Some (Inr [plain_group 10 None, plain_group 11 None])"
  (is "?search = _")
proof -
  have up: "up_edges nested_groups = {(1, 10), (10, 11), (11, 10), (11, 12)}"
    by (auto simp: up_edges_def nested_groups_def has_group_def plain_group_def)
  have "(up_edges nested_groups)\<^sup>+ `` {1} = {10, 11, 12}"
  proof (rule subset_antisym)
    show "(up_edges nested_groups)\<^sup>+ `` {1} \<subseteq> {10, 11, 12}" by (rule trancl_closed) (auto simp: up)
    have a: "(1, 10) \<in> (up_edges nested_groups)\<^sup>+" by (rule r_into_trancl) (simp add: up)
    have b: "(1, 11) \<in> (up_edges nested_groups)\<^sup>+" by (rule trancl_into_trancl [OF a]) (simp add: up)
    have "(1, 12) \<in> (up_edges nested_groups)\<^sup>+" by (rule trancl_into_trancl [OF b]) (simp add: up)
    with a b show "{10, 11, 12} \<subseteq> (up_edges nested_groups)\<^sup>+ `` {1}" by blast
  qed
  then have "filter (\<lambda>r. g_id r \<in> (up_edges nested_groups)\<^sup>+ `` start_set (One 1) \<and> (True \<longrightarrow> unexpired 7 (g_expire r)))
      (group_info nested_groups) = [plain_group 10 None, plain_group 11 None]"
    by (simp add: start_set_def nested_groups_def plain_group_def unexpired_def)
  then show ?thesis
    using search_indirect_exact_aux [of "One 1" like 7 nested_groups True] by (simp add: given_def start_set_def)
qed

theorem search_indirect_exact_witness:
  "given (Some (One 1)) \<and> finite (start_set (One 1)) \<and>
   (\<exists>rows. search_groups (\<lambda>_ _. True) 7 nested_groups
      (any_group\<lparr>q_member_id := Some (One 1), q_indirect_members := True, q_filter_expired := True\<rparr>) = Some (Inr rows) \<and>
      rows = filter (\<lambda>r. g_id r \<in> (up_edges nested_groups)\<^sup>+ `` start_set (One 1) \<and> (True \<longrightarrow> unexpired 7 (g_expire r)))
        (group_info nested_groups) \<and> rows = [plain_group 10 None, plain_group 11 None])"
  using search_indirect_exact [of "One 1" "\<lambda>_ _. True" 7 nested_groups True] nested_search [of "\<lambda>_ _. True"]
  by (simp add: given_def start_set_def)

theorem search_members_indirect_exact_witness:
  "given (Some (One 12)) \<and> finite (start_set (One 12)) \<and>
   search_members (\<lambda>_ _. True) 2 7 nested_groups
      (any_member\<lparr>mq_group_id := Some (One 12), mq_indirect_members := True, mq_member_filter_expired := False\<rparr>) =
    Some (Inr (filter (\<lambda>(g', _, m). g' \<in> (down_edges 2 nested_groups)\<^sup>* `` start_set (One 12) \<and>
      (False \<longrightarrow> member_unexpired 7 nested_groups m)) (group_member nested_groups)))"
  using search_members_indirect_exact [of "One 12" "\<lambda>_ _. True" 2 7 nested_groups False]
  by (simp add: given_def start_set_def)

theorem get_groups_agrees_witness:
  "wf_groups nested_groups \<and> deep_enough nested_groups (One 1) 2 \<and>
   (\<exists>rows groups. get_groups 7 nested_groups (One 1) None None True 2 = Inr rows \<and>
     search_groups (\<lambda>_ _. True) 7 nested_groups
       (any_group\<lparr>q_member_id := Some (One 1), q_indirect_members := True, q_filter_expired := True\<rparr>) = Some (Inr groups) \<and>
     fst ` set rows = g_id ` set groups \<and> groups = [plain_group 10 None, plain_group 11 None])"
proof -
  have wf: "wf_groups nested_groups"
    by (auto simp: wf_groups_def nested_groups_def plain_group_def has_group_def has_entity_def)
  have deep: "deep_enough nested_groups (One 1) 2"
    by (simp add: deep_enough_def start_set_def nested_groups_def numeral_2_eq_2 atMost_Suc)
  have "given (Some (One 1))" "finite (start_set (One 1))" by (simp_all add: given_def start_set_def)
  from get_groups_agrees [OF wf this deep, of 7 "\<lambda>_ _. True"] show ?thesis
    using wf deep nested_search [of "\<lambda>_ _. True"] by auto
qed

text \<open>A group with a member, made on an empty database that knows account 1.\<close>

definition empty_groups :: group_db where
  "empty_groups =
     \<lparr>entity_info = [(1, 1)], group_info = [], group_names = [], group_member = [], group_admin = [], group_moderator = [],
      account_expire = [(1, None)], account_owner = [], entity_refs = [], entity_spread = [], group_log = []\<rparr>"

theorem groups_consistent_witness:
  "\<exists>db. reachable no_groups group_step db \<and> group_member db = [(10, 1, 1)] \<and> wf_groups db \<and>
     (\<exists>db'. delete_group 10 db = Inr db' \<and> without 10 db db' \<and> group_member db' = [])"
proof -
  obtain db1 where db1: "new_group 2 10 (plain_group 0 None) ''staff'' empty_groups = Inr db1"
    "group_info db1 = [plain_group 10 None]" "group_member db1 = []" "entity_info db1 = [(1, 1), (10, 2)]"
    by (auto simp: new_group_def illegal_group_name_def empty_groups_def has_entity_def plain_group_def)
  obtain db2 where db2: "add_member 10 1 db1 = Inr db2" "group_member db2 = [(10, 1, 1)]"
    using db1(2-4) by (auto simp: add_member_def has_group_def plain_group_def)
  have "reachable no_groups group_step empty_groups" by (rule reachable_start) (simp add: no_groups_def empty_groups_def)
  then have "reachable no_groups group_step db2"
    using reachable_step step_new [OF db1(1)] step_add [OF db2(1)] by metis
  moreover have "account_owner db2 = []" "entity_refs db2 = []"
    using db1(1) db2(1) by (auto simp: new_group_def add_member_def empty_groups_def split: if_splits option.splits)
  then have "\<not> referred_to 10 db2" by (simp add: referred_to_def)
  moreover from groups_consistent [OF calculation(1), of 10] this obtain db' where
    "wf_groups db2" "delete_group 10 db2 = Inr db'" "without 10 db2 db'" by auto
  moreover have "group_member db' = []" using \<open>without 10 db2 db'\<close> db2(2) by (simp add: without_def)
  ultimately show ?thesis using db2(2) by blast
qed

end
