(* ===== verification/Host_Policy.thy ===== *)
theory Host_Policy
  imports Closure Sql_Args
begin

text \<open>
  Roles and atoms, the policies of hosts: \<^verbatim>\<open>src/Cerebrum/modules/hostpolicy/PolicyComponent.py\<close>, with the methods
  of \<^verbatim>\<open>src/Cerebrum/Entity.py\<close> it relies on for entities and their names. The database is a record of the tables
  these classes use; the constraints of \<^verbatim>\<open>design/mod_hostpolicy.sql\<close> and \<^verbatim>\<open>design/core_tables.sql\<close> are checked
  where a statement could violate them. The codes of the constants, which the database assigns, are the record
  \<open>policy_const\<close>. A new row of \<^verbatim>\<open>entity_info\<close> gets an id from a sequence of the database: the argument \<open>new_id\<close>.

  Shown: the recursive searches return, and give exactly what a chain of memberships reaches; the methods keep the
  tables consistent; as long as only roles are sources, the membership relation keeps no loops.
\<close>

section \<open>Tables\<close>

record policy_const =
  entity_hostpolicy_atom :: int
  entity_hostpolicy_role :: int
  hostpolicy_contains :: int
  hostpolicy_component_namespace :: int
  names_deny_change :: "int list"

record component_row =
  co_id :: int
  co_type :: int
  co_description :: string
  co_foundation :: string
  co_date :: int

record policy_db =
  hp_entity_info :: "(int \<times> int) list"
  hp_component :: "component_row list"
  hp_name :: "(int \<times> int \<times> string) list"
  hp_rel_code :: "(int \<times> string) list"
  hp_relationship :: "(int \<times> int \<times> int) list"
  hp_dns_owner :: "int list"
  hp_host_policy :: "(int \<times> int) list"
  hp_log :: "(int \<times> string \<times> int option) list"

definition hp_log_change :: "int \<Rightarrow> string \<Rightarrow> int option \<Rightarrow> policy_db \<Rightarrow> policy_db" where
  "hp_log_change subject change dest db = db\<lparr>hp_log := hp_log db @ [(subject, change, dest)]\<rparr>"

definition has_component :: "policy_db \<Rightarrow> int \<Rightarrow> bool" where
  "has_component db c = list_ex (\<lambda>r. co_id r = c) (hp_component db)"

section \<open>Entities and their names\<close>

definition find_entity :: "int \<Rightarrow> policy_db \<Rightarrow> int res" where
  "find_entity e db = (case map_of (hp_entity_info db) e of None \<Rightarrow> Inl NotFoundError | Some t \<Rightarrow> Inr t)"

definition write_entity :: "int \<Rightarrow> int \<Rightarrow> policy_db \<Rightarrow> policy_db res" where
  "write_entity new_id e_type db =
     (if new_id \<in> set (keys (hp_entity_info db)) then Inl IntegrityError
      else Inr (hp_log_change new_id ''entity_add'' None (db\<lparr>hp_entity_info := hp_entity_info db @ [(new_id, e_type)]\<rparr>)))"

definition add_entity_name :: "int \<Rightarrow> int \<Rightarrow> string \<Rightarrow> policy_db \<Rightarrow> policy_db res" where
  "add_entity_name e domain name db =
     (if length name > 256 then Inl DataError
      else if e \<notin> set (keys (hp_entity_info db)) then Inl IntegrityError
      else if list_ex (\<lambda>(i, d, n). (i = e \<and> d = domain) \<or> (d = domain \<and> n = name)) (hp_name db) then Inl IntegrityError
      else Inr (hp_log_change e ''entity_name_add'' None (db\<lparr>hp_name := hp_name db @ [(e, domain, name)]\<rparr>)))"

definition update_entity_name :: "policy_const \<Rightarrow> int \<Rightarrow> int \<Rightarrow> string \<Rightarrow> policy_db \<Rightarrow> policy_db res" where
  "update_entity_name C e domain name db =
     (if domain \<in> set (names_deny_change C) then Inl IntegrityError
      else if (e, domain, name) \<in> set (hp_name db) then Inr db
      else if length name > 256 then Inl DataError
      else if list_ex (\<lambda>(i, d, n). d = domain \<and> n = name) (hp_name db) \<and> list_ex (\<lambda>(i, d, _). i = e \<and> d = domain) (hp_name db)
      then Inl IntegrityError
      else Inr (hp_log_change e ''entity_name_mod'' None
             (db\<lparr>hp_name := map (\<lambda>(i, d, n). (i, d, if i = e \<and> d = domain then name else n)) (hp_name db)\<rparr>)))"

text \<open>\<^verbatim>\<open>EntityName.delete\<close> takes every name of the entity, then \<^verbatim>\<open>Entity.delete\<close> the entity itself.\<close>

definition delete_entity_name :: "int \<Rightarrow> int \<Rightarrow> policy_db \<Rightarrow> policy_db" where
  "delete_entity_name e domain db =
     (if list_ex (\<lambda>(i, d, _). i = e \<and> d = domain) (hp_name db)
      then (hp_log_change e ''entity_name_del'' None db)\<lparr>hp_name := filter (\<lambda>(i, d, _). \<not> (i = e \<and> d = domain)) (hp_name db)\<rparr>
      else db)"

definition delete_entity_names :: "int \<Rightarrow> policy_db \<Rightarrow> policy_db" where
  "delete_entity_names e db = fold (delete_entity_name e) (map (\<lambda>(_, d, _). d) (filter (\<lambda>(i, _, _). i = e) (hp_name db))) db"

definition delete_entity_row :: "int \<Rightarrow> policy_db \<Rightarrow> policy_db res" where
  "delete_entity_row e db =
     (if has_component db e \<or> e \<in> set (hp_dns_owner db) \<or> list_ex (\<lambda>(i, _, _). i = e) (hp_name db) then Inl IntegrityError
      else Inr (hp_log_change e ''entity_del'' None (db\<lparr>hp_entity_info := filter (\<lambda>(i, _). i \<noteq> e) (hp_entity_info db)\<rparr>)))"

section \<open>Policy components\<close>

definition illegal_name :: "string \<Rightarrow> bool" where
  "illegal_name name = list_ex (\<lambda>c. \<not> (is_alpha c \<or> is_digit c \<or> c = CHR ''_'')) name"

definition illegal_attr :: "string \<Rightarrow> bool" where
  "illegal_attr attribute = (CHR '';'' \<in> set attribute)"

text \<open>The name of the event for a component of a type; any other type raises.\<close>

definition component_event :: "policy_const \<Rightarrow> int \<Rightarrow> string \<Rightarrow> string res" where
  "component_event C e_type what =
     (if e_type = entity_hostpolicy_atom C then Inr (''hostpolicy_atom_'' @ what)
      else if e_type = entity_hostpolicy_role C then Inr (''hostpolicy_role_'' @ what)
      else Inl RuntimeError)"

text \<open>
  \<^verbatim>\<open>populate\<close> and \<^verbatim>\<open>write_db\<close> for a new component. Without a date the column's default, the current date \<open>now\<close>, is
  stored.
\<close>

definition new_component ::
    "policy_const \<Rightarrow> int \<Rightarrow> int \<Rightarrow> int \<Rightarrow> string \<Rightarrow> string \<Rightarrow> string \<Rightarrow> int option \<Rightarrow> policy_db \<Rightarrow> policy_db res" where
  "new_component C now new_id e_type name description foundation foundation_date db =
     res_bind (write_entity new_id e_type db) (\<lambda>db1.
       if illegal_name name then Inl IntegrityError
       else if illegal_attr description then Inl IntegrityError
       else if illegal_attr foundation then Inl IntegrityError
       else res_bind (component_event C e_type ''create'') (\<lambda>event.
         if length description > 512 \<or> length foundation > 512 then Inl DataError
         else if has_component db1 new_id then Inl IntegrityError
         else
           let row = \<lparr>co_id = new_id, co_type = e_type, co_description = description, co_foundation = foundation,
                      co_date = (case foundation_date of None \<Rightarrow> now | Some d \<Rightarrow> d)\<rparr>;
               db2 = hp_log_change new_id event None (db1\<lparr>hp_component := hp_component db1 @ [row]\<rparr>)
           in add_entity_name new_id (hostpolicy_component_namespace C) name db2))"

text \<open>The instance \<^verbatim>\<open>find\<close> fills: the type comes from \<^verbatim>\<open>entity_info\<close>, the rest from the component and its name.\<close>

definition find_component :: "policy_const \<Rightarrow> int \<Rightarrow> policy_db \<Rightarrow> (component_row \<times> string) res" where
  "find_component C component_id db =
     res_bind (find_entity component_id db) (\<lambda>e_type.
       case (find (\<lambda>r. co_id r = component_id) (hp_component db),
             find (\<lambda>(i, d, _). i = component_id \<and> d = hostpolicy_component_namespace C) (hp_name db)) of
         (Some r, Some (_, _, name)) \<Rightarrow> Inr (r\<lparr>co_type := e_type\<rparr>, name)
       | _ \<Rightarrow> Inl NotFoundError)"

definition find_component_by_name :: "policy_const \<Rightarrow> string \<Rightarrow> policy_db \<Rightarrow> (component_row \<times> string) res" where
  "find_component_by_name C name db =
     (case find (\<lambda>(_, d, n). d = hostpolicy_component_namespace C \<and> n = name) (hp_name db) of
        None \<Rightarrow> Inl NotFoundError
      | Some (i, _, _) \<Rightarrow> find_component C i db)"

definition find_role_by_name :: "policy_const \<Rightarrow> string \<Rightarrow> policy_db \<Rightarrow> (component_row \<times> string) res" where
  "find_role_by_name C name db =
     res_bind (find_component_by_name C name db) (\<lambda>(r, n).
       if co_type r \<noteq> entity_hostpolicy_role C then Inl NotFoundError else Inr (r, n))"

definition find_atom_by_name :: "policy_const \<Rightarrow> string \<Rightarrow> policy_db \<Rightarrow> (component_row \<times> string) res" where
  "find_atom_by_name C name db =
     res_bind (find_component_by_name C name db) (\<lambda>(r, n).
       if co_type r \<noteq> entity_hostpolicy_atom C then Inl NotFoundError else Inr (r, n))"

text \<open>
  \<^verbatim>\<open>write_db\<close> for an instance that was found: \<open>self\<close> and \<open>old_name\<close> are what \<^verbatim>\<open>find\<close> filled in, \<open>new\<close> and \<open>name\<close> the
  attributes at the call. An attribute is marked as updated when it was assigned another value. The statement
  \<^verbatim>\<open>UPDATE ... SET (column=value, ...)\<close> is not SQL, so the database refuses it.
\<close>

definition write_component ::
    "policy_const \<Rightarrow> component_row \<Rightarrow> string \<Rightarrow> component_row \<Rightarrow> string \<Rightarrow> policy_db \<Rightarrow> policy_db res" where
  "write_component C self old_name new name db =
     (let renamed = (name \<noteq> old_name);
          described = (co_description new \<noteq> co_description self);
          founded = (co_foundation new \<noteq> co_foundation self)
      in if \<not> renamed \<and> \<not> described \<and> \<not> founded \<and> co_date new = co_date self then Inr db
         else if renamed \<and> illegal_name name then Inl IntegrityError
         else if described \<and> illegal_attr (co_description new) then Inl IntegrityError
         else if founded \<and> illegal_attr (co_foundation new) then Inl IntegrityError
         else res_bind (component_event C (co_type self) ''mod'') (\<lambda>_.
           if \<not> list_ex (\<lambda>r. co_id r = co_id self \<and> co_description r = co_description new
                \<and> co_foundation r = co_foundation new \<and> co_date r = co_date new) (hp_component db)
           then Inl ProgrammingError
           else if renamed then update_entity_name C (co_id self) (hostpolicy_component_namespace C) name db
           else Inr db))"

definition delete_component_row :: "int \<Rightarrow> policy_db \<Rightarrow> policy_db res" where
  "delete_component_row c db =
     (if list_ex (\<lambda>(s, _, t). s = c \<or> t = c) (hp_relationship db) \<or> list_ex (\<lambda>(_, p). p = c) (hp_host_policy db)
      then Inl IntegrityError
      else Inr (db\<lparr>hp_component := filter (\<lambda>r. co_id r \<noteq> c) (hp_component db)\<rparr>))"

definition delete_component :: "policy_const \<Rightarrow> component_row \<Rightarrow> policy_db \<Rightarrow> policy_db res" where
  "delete_component C self db =
     res_bind (delete_component_row (co_id self) db) (\<lambda>db1.
     res_bind (component_event C (co_type self) ''delete'') (\<lambda>event.
       delete_entity_row (co_id self) (delete_entity_names (co_id self) (hp_log_change (co_id self) event None db1))))"

section \<open>Relationships\<close>

record relation_row =
  source_entity_type :: int
  target_entity_type :: int
  source_name :: string
  target_name :: string
  relationship_str :: string
  source_id :: int
  target_id :: int
  relationship_id :: int

text \<open>The join of \<^verbatim>\<open>search_relations\<close> before its conditions on the arguments.\<close>

definition relation_rows :: "policy_db \<Rightarrow> relation_row list" where
  "relation_rows db = remdups
     [\<lparr>source_entity_type = co_type c1, target_entity_type = co_type c2, source_name = n1, target_name = n2,
       relationship_str = str, source_id = s, target_id = t, relationship_id = rel\<rparr>.
      (s, rel, t) \<leftarrow> hp_relationship db, (code, str) \<leftarrow> hp_rel_code db, code = rel,
      c1 \<leftarrow> hp_component db, co_id c1 = s, c2 \<leftarrow> hp_component db, co_id c2 = t,
      (i1, _, n1) \<leftarrow> hp_name db, i1 = s, (i2, _, n2) \<leftarrow> hp_name db, i2 = t]"

definition select_relations ::
    "policy_db \<Rightarrow> id_arg option \<Rightarrow> id_arg option \<Rightarrow> id_arg option \<Rightarrow> relation_row list res" where
  "select_relations db source target code =
     res_bind (conjunction
       [clause source (\<lambda>p r. p (source_id r)), clause target (\<lambda>p r. p (target_id r)),
        clause code (\<lambda>p r. p (relationship_id r))])
     (\<lambda>p. Inr (filter p (relation_rows db)))"

text \<open>The two searches \<^verbatim>\<open>search_relations\<close> passes to \<^verbatim>\<open>search_transitive_closure\<close>.\<close>

definition target_ids :: "policy_db \<Rightarrow> id_arg option \<Rightarrow> int set \<Rightarrow> int set" where
  "target_ids db code ids =
     (case select_relations db (Some (Many ids)) None code of Inr rows \<Rightarrow> target_id ` set rows | Inl _ \<Rightarrow> {})"

definition source_ids :: "policy_db \<Rightarrow> id_arg option \<Rightarrow> int set \<Rightarrow> int set" where
  "source_ids db code ids =
     (case select_relations db None (Some (Many ids)) code of Inr rows \<Rightarrow> source_id ` set rows | Inl _ \<Rightarrow> {})"

definition closure_arg :: "(int set \<Rightarrow> int set) \<Rightarrow> bool \<Rightarrow> id_arg option \<Rightarrow> id_arg option option" where
  "closure_arg searcher indirect arg =
     (case arg of
        None \<Rightarrow> Some None
      | Some a \<Rightarrow> if indirect then map_option (\<lambda>ids. Some (Many ids)) (search_transitive_closure searcher (start_set a))
                  else Some (Some a))"

definition search_relations ::
    "policy_db \<Rightarrow> id_arg option \<Rightarrow> id_arg option \<Rightarrow> id_arg option \<Rightarrow> bool \<Rightarrow> relation_row list res option" where
  "search_relations db source target code indirect_relations =
     (case (closure_arg (target_ids db code) indirect_relations source,
            closure_arg (source_ids db code) indirect_relations target) of
        (Some s, Some t) \<Rightarrow> Some (select_relations db s t code)
      | _ \<Rightarrow> None)"

section \<open>Roles\<close>

definition illegal_membership_loop :: "policy_const \<Rightarrow> int \<Rightarrow> int \<Rightarrow> policy_db \<Rightarrow> bool res option" where
  "illegal_membership_loop C source member db =
     map_option (\<lambda>r. res_bind r (\<lambda>rows. Inr (list_ex (\<lambda>row. target_id row = source) rows)))
       (search_relations db (Some (One member)) None (Some (One (hostpolicy_contains C))) True)"

definition illegal_relationship :: "policy_const \<Rightarrow> int \<Rightarrow> int \<Rightarrow> policy_db \<Rightarrow> bool res option" where
  "illegal_relationship C self member db =
     (case find_entity member db of
        Inl e \<Rightarrow> Some (Inl e)
      | Inr e_type \<Rightarrow>
          if e_type = entity_hostpolicy_role C then illegal_membership_loop C self member db else Some (Inr False))"

definition insert_relationship :: "int \<Rightarrow> int \<Rightarrow> int \<Rightarrow> policy_db \<Rightarrow> policy_db res" where
  "insert_relationship source rel target db =
     (if \<not> has_component db source \<or> \<not> has_component db target \<or> rel \<notin> set (keys (hp_rel_code db))
         \<or> source = target \<or> (source, rel, target) \<in> set (hp_relationship db)
      then Inl IntegrityError
      else Inr (db\<lparr>hp_relationship := hp_relationship db @ [(source, rel, target)]\<rparr>))"

definition add_relationship :: "policy_const \<Rightarrow> int \<Rightarrow> int \<Rightarrow> int \<Rightarrow> policy_db \<Rightarrow> policy_db res option" where
  "add_relationship C self rel target db =
     map_option (\<lambda>r. res_bind r (\<lambda>illegal.
       if illegal then Inl ProgrammingError
       else res_bind (insert_relationship self rel target db) (\<lambda>db'.
              Inr (hp_log_change self ''hostpolicy_relationship_add'' (Some target) db'))))
       (illegal_relationship C self target db)"

definition remove_relationship :: "int \<Rightarrow> int \<Rightarrow> int \<Rightarrow> policy_db \<Rightarrow> policy_db" where
  "remove_relationship self rel target db =
     (if (self, rel, target) \<in> set (hp_relationship db)
      then hp_log_change self ''hostpolicy_relationship_remove'' (Some target)
             (db\<lparr>hp_relationship := filter (\<lambda>r. r \<noteq> (self, rel, target)) (hp_relationship db)\<rparr>)
      else db)"

section \<open>Policies of hosts\<close>

definition add_to_host :: "int \<Rightarrow> int \<Rightarrow> policy_db \<Rightarrow> policy_db res" where
  "add_to_host self dns_owner_id db =
     (if dns_owner_id \<notin> set (hp_dns_owner db) \<or> \<not> has_component db self \<or> (dns_owner_id, self) \<in> set (hp_host_policy db)
      then Inl IntegrityError
      else Inr (hp_log_change dns_owner_id ''hostpolicy_policy_add'' (Some self)
             (db\<lparr>hp_host_policy := hp_host_policy db @ [(dns_owner_id, self)]\<rparr>)))"

definition remove_from_host :: "int \<Rightarrow> int \<Rightarrow> policy_db \<Rightarrow> policy_db" where
  "remove_from_host self dns_owner_id db =
     (if (dns_owner_id, self) \<in> set (hp_host_policy db)
      then hp_log_change dns_owner_id ''hostpolicy_policy_remove'' (Some self)
             (db\<lparr>hp_host_policy := filter (\<lambda>r. r \<noteq> (dns_owner_id, self)) (hp_host_policy db)\<rparr>)
      else db)"

record hostpolicy_row =
  hr_entity_type :: int
  hr_dns_owner_id :: int
  hr_dns_owner_name :: string
  hr_policy_name :: string
  hr_policy_id :: int

definition hostpolicy_rows :: "policy_db \<Rightarrow> hostpolicy_row list" where
  "hostpolicy_rows db = remdups
     [\<lparr>hr_entity_type = co_type c, hr_dns_owner_id = h, hr_dns_owner_name = n1, hr_policy_name = n2, hr_policy_id = p\<rparr>.
      (h, p) \<leftarrow> hp_host_policy db, c \<leftarrow> hp_component db, co_id c = p, h' \<leftarrow> hp_dns_owner db, h' = h,
      (i1, _, n1) \<leftarrow> hp_name db, i1 = h, (i2, _, n2) \<leftarrow> hp_name db, i2 = p]"

text \<open>The parents an indirect search by policy adds to the policies it was given.\<close>

definition with_parents :: "policy_const \<Rightarrow> policy_db \<Rightarrow> id_arg \<Rightarrow> id_arg res option" where
  "with_parents C db policy =
     map_option (\<lambda>r. res_bind r (\<lambda>rows. Inr (Many (start_set policy \<union> source_id ` set rows))))
       (search_relations db None (Some (Many (start_set policy))) (Some (One (hostpolicy_contains C))) True)"

definition select_hostpolicies ::
    "(string \<Rightarrow> string \<Rightarrow> bool) \<Rightarrow> policy_db \<Rightarrow> id_arg option \<Rightarrow> id_arg option \<Rightarrow> id_arg option \<Rightarrow> string option
     \<Rightarrow> hostpolicy_row list res" where
  "select_hostpolicies like db policy policy_type dns_owner host_name =
     res_bind (conjunction
       [clause policy (\<lambda>p r. p (hr_policy_id r)), clause dns_owner (\<lambda>p r. p (hr_dns_owner_id r)),
        Inr (\<lambda>r. case host_name of None \<Rightarrow> True | Some n \<Rightarrow> like (prepare_string n) (hr_dns_owner_name r)),
        clause policy_type (\<lambda>p r. p (hr_entity_type r))])
     (\<lambda>p. Inr (filter p (hostpolicy_rows db)))"

definition search_hostpolicies ::
    "policy_const \<Rightarrow> (string \<Rightarrow> string \<Rightarrow> bool) \<Rightarrow> policy_db \<Rightarrow> id_arg option \<Rightarrow> id_arg option \<Rightarrow> id_arg option
     \<Rightarrow> string option \<Rightarrow> bool \<Rightarrow> hostpolicy_row list res option" where
  "search_hostpolicies C like db policy policy_type dns_owner host_name indirect_relations =
     (if \<not> indirect_relations then Some (select_hostpolicies like db policy policy_type dns_owner host_name)
      else map_option (\<lambda>r. res_bind r (\<lambda>policy'.
        if dns_owner \<noteq> None \<or> host_name \<noteq> None
        then res_bind (clause policy' (\<lambda>p r. p (hr_policy_id r))) (\<lambda>_ :: hostpolicy_row \<Rightarrow> bool. Inl (OtherError ''Exception''))
        else select_hostpolicies like db policy' policy_type dns_owner host_name))
        (case policy of
           Some p \<Rightarrow> map_option (\<lambda>r. res_bind r (\<lambda>ids. Inr (Some ids))) (with_parents C db p)
         | None \<Rightarrow> Some (Inr None)))"

section \<open>The recursive searches\<close>

definition policy_edges :: "policy_db \<Rightarrow> int \<Rightarrow> (int \<times> int) set" where
  "policy_edges db code = {(s, t). (s, code, t) \<in> set (hp_relationship db)}"

definition row_edges :: "policy_db \<Rightarrow> int \<Rightarrow> (int \<times> int) set" where
  "row_edges db code = (\<lambda>r. (source_id r, target_id r)) ` {r \<in> set (relation_rows db). relationship_id r = code}"

lemma finite_row_edges [simp]: "finite (row_edges db code)"
  by (simp add: row_edges_def)

lemma target_ids_eq: "ids \<noteq> {} \<Longrightarrow> target_ids db (Some (One code)) ids = row_edges db code `` ids"
  by (force simp: target_ids_def select_relations_def row_edges_def)

lemma source_ids_eq: "ids \<noteq> {} \<Longrightarrow> source_ids db (Some (One code)) ids = (row_edges db code)\<inverse> `` ids"
  by (force simp: source_ids_def select_relations_def row_edges_def)

interpretation children: finite_search "target_ids db (Some (One code))" "row_edges db code" for db code
  by unfold_locales (simp_all add: target_ids_eq)

interpretation parents: finite_search "source_ids db (Some (One code))" "(row_edges db code)\<inverse>" for db code
  by unfold_locales (simp_all add: source_ids_eq)

lemma closure_not_empty: "S \<noteq> {} \<Longrightarrow> R\<^sup>* `` S \<noteq> {}"
  by blast

lemma search_children_eq:
  assumes "start_set a \<noteq> {}" "finite (start_set a)"
  shows "search_relations db (Some a) None (Some (One code)) True =
    Some (Inr (filter (\<lambda>r. source_id r \<in> (row_edges db code)\<^sup>* `` start_set a \<and> relationship_id r = code) (relation_rows db)))"
  using closure_not_empty [OF assms(1), of "row_edges db code"] children.search_transitive_closure_eq [OF assms(2)]
  by (simp add: search_relations_def closure_arg_def select_relations_def)

lemma search_parents_of_eq:
  assumes "start_set a \<noteq> {}" "finite (start_set a)"
  shows "search_relations db None (Some a) (Some (One code)) True =
    Some (Inr (filter (\<lambda>r. target_id r \<in> ((row_edges db code)\<inverse>)\<^sup>* `` start_set a \<and> relationship_id r = code) (relation_rows db)))"
  using closure_not_empty [OF assms(1), of "(row_edges db code)\<inverse>"] parents.search_transitive_closure_eq [OF assms(2)]
  by (simp add: search_relations_def closure_arg_def select_relations_def)

section \<open>Consistent tables\<close>

definition named :: "policy_db \<Rightarrow> int \<Rightarrow> bool" where
  "named db i \<longleftrightarrow> (\<exists>d n. (i, d, n) \<in> set (hp_name db))"

definition components_ok :: "policy_const \<Rightarrow> policy_db \<Rightarrow> bool" where
  "components_ok C db \<longleftrightarrow>
     distinct (keys (hp_entity_info db)) \<and> distinct (map co_id (hp_component db)) \<and>
     (\<forall>r \<in> set (hp_component db). map_of (hp_entity_info db) (co_id r) = Some (co_type r) \<and>
        (co_type r = entity_hostpolicy_atom C \<or> co_type r = entity_hostpolicy_role C) \<and>
        (\<exists>n. (co_id r, hostpolicy_component_namespace C, n) \<in> set (hp_name db)))"

definition references_ok :: "policy_db \<Rightarrow> bool" where
  "references_ok db \<longleftrightarrow>
     (\<forall>(s, rel, t) \<in> set (hp_relationship db). has_component db s \<and> has_component db t \<and> s \<noteq> t \<and> rel \<in> set (keys (hp_rel_code db))) \<and>
     (\<forall>(h, p) \<in> set (hp_host_policy db). h \<in> set (hp_dns_owner db) \<and> has_component db p) \<and>
     (\<forall>h \<in> set (hp_dns_owner db). h \<in> set (keys (hp_entity_info db)) \<and> \<not> has_component db h \<and> named db h)"

definition consistent :: "policy_const \<Rightarrow> policy_db \<Rightarrow> bool" where
  "consistent C db \<longleftrightarrow> components_ok C db \<and> references_ok db"

lemma has_component_iff: "has_component db c \<longleftrightarrow> c \<in> co_id ` set (hp_component db)"
  by (auto simp: has_component_def list_ex_iff)

lemma log_tables [simp]:
  "hp_entity_info (hp_log_change s c d db) = hp_entity_info db"
  "hp_component (hp_log_change s c d db) = hp_component db"
  "hp_name (hp_log_change s c d db) = hp_name db"
  "hp_rel_code (hp_log_change s c d db) = hp_rel_code db"
  "hp_relationship (hp_log_change s c d db) = hp_relationship db"
  "hp_dns_owner (hp_log_change s c d db) = hp_dns_owner db"
  "hp_host_policy (hp_log_change s c d db) = hp_host_policy db"
  by (simp_all add: hp_log_change_def)

lemma consistent_named: "consistent C db \<Longrightarrow> has_component db c \<Longrightarrow> named db c"
  unfolding consistent_def components_ok_def has_component_iff named_def by blast

lemma relation_row_iff:
  "r \<in> set (relation_rows db) \<longleftrightarrow>
     (source_id r, relationship_id r, target_id r) \<in> set (hp_relationship db) \<and>
     (relationship_id r, relationship_str r) \<in> set (hp_rel_code db) \<and>
     (\<exists>c \<in> set (hp_component db). co_id c = source_id r \<and> co_type c = source_entity_type r) \<and>
     (\<exists>c \<in> set (hp_component db). co_id c = target_id r \<and> co_type c = target_entity_type r) \<and>
     (\<exists>d. (source_id r, d, source_name r) \<in> set (hp_name db)) \<and> (\<exists>d. (target_id r, d, target_name r) \<in> set (hp_name db))"
proof (cases r)
  case (fields st tt sn tn str s t rel)
  show ?thesis unfolding fields relation_rows_def by force
qed

lemma row_of_edge:
  assumes "consistent C db" "(s, code, t) \<in> set (hp_relationship db)" "(t, d, n) \<in> set (hp_name db)"
  shows "\<exists>r \<in> set (relation_rows db). source_id r = s \<and> target_id r = t \<and> relationship_id r = code \<and> target_name r = n"
proof -
  have ok: "has_component db s" "has_component db t" "code \<in> set (keys (hp_rel_code db))"
    using assms(1,2) by (auto simp: consistent_def references_ok_def)
  obtain str where str: "(code, str) \<in> set (hp_rel_code db)" using ok(3) by auto
  obtain c1 c2 where c: "c1 \<in> set (hp_component db)" "co_id c1 = s" "c2 \<in> set (hp_component db)" "co_id c2 = t"
    using ok(1,2) by (auto simp: has_component_iff)
  obtain d1 n1 where n: "(s, d1, n1) \<in> set (hp_name db)" using consistent_named [OF assms(1) ok(1)] by (auto simp: named_def)
  let ?r = "\<lparr>source_entity_type = co_type c1, target_entity_type = co_type c2, source_name = n1, target_name = n,
       relationship_str = str, source_id = s, target_id = t, relationship_id = code\<rparr>"
  have "?r \<in> set (relation_rows db)" unfolding relation_row_iff using assms(2,3) str c n by auto
  then show ?thesis by (rule bexI [rotated]) simp
qed

lemma row_edges_eq: "consistent C db \<Longrightarrow> row_edges db code = policy_edges db code"
proof (rule set_eqI)
  fix x :: "int \<times> int"
  assume ok: "consistent C db"
  obtain s t where x: "x = (s, t)" by (cases x)
  show "x \<in> row_edges db code \<longleftrightarrow> x \<in> policy_edges db code"
  proof
    show "x \<in> row_edges db code \<Longrightarrow> x \<in> policy_edges db code" by (auto simp: row_edges_def policy_edges_def relation_row_iff)
  next
    assume "x \<in> policy_edges db code"
    then have e: "(s, code, t) \<in> set (hp_relationship db)" by (simp add: policy_edges_def x)
    then have "named db t" using ok consistent_named [OF ok, of t] by (auto simp: consistent_def references_ok_def)
    then obtain d n where "(t, d, n) \<in> set (hp_name db)" by (auto simp: named_def)
    from row_of_edge [OF ok e this] show "x \<in> row_edges db code" by (auto simp: row_edges_def x)
  qed
qed

lemma finite_edges: "finite (policy_edges db code)"
  by (rule finite_subset [of _ "(\<lambda>(s, _, t). (s, t)) ` set (hp_relationship db)"]) (force simp: policy_edges_def)+

section \<open>The methods keep the tables consistent\<close>

text \<open>The relation stays a hierarchy: only roles have members, and nothing is a member of itself through others.\<close>

definition hierarchy :: "policy_const \<Rightarrow> policy_db \<Rightarrow> bool" where
  "hierarchy C db \<longleftrightarrow>
     (\<forall>(s, rel, t) \<in> set (hp_relationship db). map_of (hp_entity_info db) s = Some (entity_hostpolicy_role C)) \<and>
     acyclic (policy_edges db (hostpolicy_contains C))"

lemmas table_defs = consistent_def components_ok_def references_ok_def has_component_iff named_def

lemma consistent_log [simp]: "consistent C (hp_log_change s c d db) = consistent C db"
  by (simp add: table_defs)

lemma hierarchy_log [simp]: "hierarchy C (hp_log_change s c d db) = hierarchy C db"
  by (simp add: hierarchy_def policy_edges_def)

lemma new_component_tables:
  assumes "new_component C now i ty name desc found date db = Inr db'"
  shows "\<exists>row. co_id row = i \<and> co_type row = ty \<and> (ty = entity_hostpolicy_atom C \<or> ty = entity_hostpolicy_role C) \<and>
    i \<notin> set (keys (hp_entity_info db)) \<and> hp_entity_info db' = hp_entity_info db @ [(i, ty)] \<and>
    hp_component db' = hp_component db @ [row] \<and> hp_name db' = hp_name db @ [(i, hostpolicy_component_namespace C, name)] \<and>
    hp_rel_code db' = hp_rel_code db \<and> hp_relationship db' = hp_relationship db \<and> hp_dns_owner db' = hp_dns_owner db \<and>
    hp_host_policy db' = hp_host_policy db"
  using assms
  by (auto simp: new_component_def write_entity_def component_event_def add_entity_name_def res_simps Let_def split: if_splits)

lemma components_known: "consistent C db \<Longrightarrow> has_component db c \<Longrightarrow> c \<in> set (keys (hp_entity_info db))"
  unfolding consistent_def components_ok_def has_component_iff by (metis imageE map_of_Some_keys)

lemma consistent_new:
  assumes ok: "consistent C db" and new: "new_component C now i ty name desc found date db = Inr db'"
  shows "consistent C db'"
proof -
  obtain row where row: "co_id row = i" "co_type row = ty" "ty = entity_hostpolicy_atom C \<or> ty = entity_hostpolicy_role C"
    and fresh: "i \<notin> set (keys (hp_entity_info db))" and E: "hp_entity_info db' = hp_entity_info db @ [(i, ty)]"
    and T: "hp_component db' = hp_component db @ [row]" "hp_name db' = hp_name db @ [(i, hostpolicy_component_namespace C, name)]"
      "hp_rel_code db' = hp_rel_code db" "hp_relationship db' = hp_relationship db" "hp_dns_owner db' = hp_dns_owner db"
      "hp_host_policy db' = hp_host_policy db"
    using new_component_tables [OF new] by blast
  have no: "\<not> has_component db i" using components_known [OF ok] fresh by blast
  have M: "map_of (hp_entity_info db') = (map_of (hp_entity_info db))(i := Some ty)"
    using fresh map_of_eq_None_iff [of "hp_entity_info db" i]
    by (auto simp: E map_add_def fun_eq_iff split: option.splits)
  have H: "has_component db' c \<longleftrightarrow> c = i \<or> has_component db c" for c by (auto simp: has_component_iff T row)
  have "components_ok C db'"
    using ok no fresh row unfolding consistent_def components_ok_def M by (auto simp: E T has_component_iff) (metis image_eqI)+
  moreover have N: "named db' c" if "named db c" for c using that by (auto simp: named_def T)
  have "references_ok db'"
    using ok fresh unfolding consistent_def references_ok_def H by (auto simp: E T intro: N)
  ultimately show ?thesis by (simp add: consistent_def)
qed

lemma hierarchy_new:
  assumes ok: "consistent C db" "hierarchy C db" and new: "new_component C now i ty name desc found date db = Inr db'"
  shows "hierarchy C db'"
proof -
  have same: "hp_entity_info db' = hp_entity_info db @ [(i, ty)]" "hp_relationship db' = hp_relationship db"
    using new_component_tables [OF new] by auto
  show ?thesis using ok(2) by (auto simp: hierarchy_def policy_edges_def same map_add_def)
qed

lemma update_name_tables:
  assumes "update_entity_name C e vd name db = Inr db'"
  shows "hp_entity_info db' = hp_entity_info db \<and> hp_component db' = hp_component db \<and> hp_rel_code db' = hp_rel_code db \<and>
    hp_relationship db' = hp_relationship db \<and> hp_dns_owner db' = hp_dns_owner db \<and> hp_host_policy db' = hp_host_policy db \<and>
    (\<lambda>(i, d, _). (i, d)) ` set (hp_name db') = (\<lambda>(i, d, _). (i, d)) ` set (hp_name db)"
  using assms by (auto simp: update_entity_name_def list_ex_iff split: if_splits) (force split: if_splits)+

lemma named_iff: "named db i \<longleftrightarrow> (\<exists>d. (i, d) \<in> (\<lambda>(i, d, _). (i, d)) ` set (hp_name db))"
  by (force simp: named_def)

lemma name_iff: "(\<exists>n. (i, d, n) \<in> set (hp_name db)) \<longleftrightarrow> (i, d) \<in> (\<lambda>(i, d, _). (i, d)) ` set (hp_name db)"
  by force

lemma consistent_same_tables:
  assumes "hp_entity_info db' = hp_entity_info db" "hp_component db' = hp_component db" "hp_rel_code db' = hp_rel_code db"
    "set (hp_relationship db') \<subseteq> set (hp_relationship db)" "hp_dns_owner db' = hp_dns_owner db"
    "set (hp_host_policy db') \<subseteq> set (hp_host_policy db)"
    "(\<lambda>(i, d, _). (i, d)) ` set (hp_name db') = (\<lambda>(i, d, _). (i, d)) ` set (hp_name db)"
    and "consistent C db"
  shows "consistent C db'"
proof -
  have H: "has_component db' = has_component db" by (simp add: has_component_def assms(2) fun_eq_iff)
  have "components_ok C db'" using assms(8) unfolding consistent_def components_ok_def name_iff assms(1,2,7) by blast
  moreover have "references_ok db'"
    using assms(8,4,6) unfolding consistent_def references_ok_def H named_iff assms(1,3,5,7) by blast
  ultimately show ?thesis by (simp add: consistent_def)
qed

lemma hierarchy_fewer:
  assumes "hp_entity_info db' = hp_entity_info db" "set (hp_relationship db') \<subseteq> set (hp_relationship db)" "hierarchy C db"
  shows "hierarchy C db'"
proof -
  have "policy_edges db' (hostpolicy_contains C) \<subseteq> policy_edges db (hostpolicy_contains C)" using assms(2) by (auto simp: policy_edges_def)
  then have "acyclic (policy_edges db' (hostpolicy_contains C))" using assms(3) by (auto simp: hierarchy_def intro: acyclic_subset)
  then show ?thesis using assms(2,3) unfolding hierarchy_def assms(1) by blast
qed

lemma write_component_cases:
  "write_component C self old new name db = Inr db' \<Longrightarrow>
     db' = db \<or> update_entity_name C (co_id self) (hostpolicy_component_namespace C) name db = Inr db'"
  by (auto simp: write_component_def Let_def res_simps split: if_splits)

lemma write_ok:
  assumes "write_component C self old new name db = Inr db'"
  shows "consistent C db \<Longrightarrow> consistent C db'" "hierarchy C db \<Longrightarrow> hierarchy C db'"
  using write_component_cases [OF assms] update_name_tables consistent_same_tables hierarchy_fewer by (metis order_refl)+

lemma removal_ok:
  "consistent C db \<Longrightarrow> consistent C (remove_relationship s rel t db)"
  "consistent C db \<Longrightarrow> consistent C (remove_from_host p h db)"
  by (rule consistent_same_tables [where db = db]; auto simp: remove_relationship_def remove_from_host_def)+

lemma removal_hierarchy:
  "hierarchy C db \<Longrightarrow> hierarchy C (remove_relationship s rel t db)"
  "hierarchy C db \<Longrightarrow> hierarchy C (remove_from_host p h db)"
  by (rule hierarchy_fewer [where db = db]; auto simp: remove_relationship_def remove_from_host_def)+

lemma add_to_host_ok:
  assumes "add_to_host p h db = Inr db'"
  shows "consistent C db \<Longrightarrow> consistent C db'" "hierarchy C db \<Longrightarrow> hierarchy C db'"
proof -
  have new: "h \<in> set (hp_dns_owner db)" "has_component db p"
    and db': "db' = hp_log_change h ''hostpolicy_policy_add'' (Some p) (db\<lparr>hp_host_policy := hp_host_policy db @ [(h, p)]\<rparr>)"
    using assms by (auto simp: add_to_host_def split: if_splits)
  show "consistent C db \<Longrightarrow> consistent C db'"
    using new unfolding consistent_def db' by (simp add: components_ok_def references_ok_def has_component_iff named_def)
  show "hierarchy C db \<Longrightarrow> hierarchy C db'" unfolding db' by (simp add: hierarchy_def policy_edges_def)
qed

lemma delete_names_tables [simp]:
  "hp_entity_info (fold (delete_entity_name e) ds db) = hp_entity_info db"
  "hp_component (fold (delete_entity_name e) ds db) = hp_component db"
  "hp_rel_code (fold (delete_entity_name e) ds db) = hp_rel_code db"
  "hp_relationship (fold (delete_entity_name e) ds db) = hp_relationship db"
  "hp_dns_owner (fold (delete_entity_name e) ds db) = hp_dns_owner db"
  "hp_host_policy (fold (delete_entity_name e) ds db) = hp_host_policy db"
  by (induction ds arbitrary: db) (simp_all add: delete_entity_name_def)

lemma delete_name_filter: "hp_name (delete_entity_name e vd db) = filter (\<lambda>(i, d, _). \<not> (i = e \<and> d = vd)) (hp_name db)"
  by (auto simp: delete_entity_name_def list_ex_iff intro!: filter_True [symmetric])

lemma delete_names_fold:
  "hp_name (fold (delete_entity_name e) ds db) = filter (\<lambda>(i, d, _). \<not> (i = e \<and> d \<in> set ds)) (hp_name db)"
  by (induction ds arbitrary: db) (auto simp: delete_name_filter intro!: filter_cong)

lemma delete_names_all: "hp_name (delete_entity_names e db) = filter (\<lambda>(i, _, _). i \<noteq> e) (hp_name db)"
  by (force simp: delete_entity_names_def delete_names_fold intro!: filter_cong)

text \<open>Deleting a component that nothing refers to succeeds, and takes the component, its names and its entity.\<close>

definition unused :: "policy_db \<Rightarrow> int \<Rightarrow> bool" where
  "unused db c \<longleftrightarrow> (\<forall>(s, _, t) \<in> set (hp_relationship db). s \<noteq> c \<and> t \<noteq> c) \<and> (\<forall>(_, p) \<in> set (hp_host_policy db). p \<noteq> c)"

definition component_gone :: "int \<Rightarrow> policy_db \<Rightarrow> policy_db \<Rightarrow> bool" where
  "component_gone c db db' \<longleftrightarrow>
     hp_entity_info db' = filter (\<lambda>(i, _). i \<noteq> c) (hp_entity_info db) \<and>
     hp_component db' = filter (\<lambda>r. co_id r \<noteq> c) (hp_component db) \<and>
     hp_name db' = filter (\<lambda>(i, _, _). i \<noteq> c) (hp_name db) \<and> hp_rel_code db' = hp_rel_code db \<and>
     hp_relationship db' = hp_relationship db \<and> hp_dns_owner db' = hp_dns_owner db \<and> hp_host_policy db' = hp_host_policy db"

lemma delete_entity_names_tables [simp]:
  "hp_entity_info (delete_entity_names e db) = hp_entity_info db" "hp_component (delete_entity_names e db) = hp_component db"
  "hp_rel_code (delete_entity_names e db) = hp_rel_code db" "hp_relationship (delete_entity_names e db) = hp_relationship db"
  "hp_dns_owner (delete_entity_names e db) = hp_dns_owner db" "hp_host_policy (delete_entity_names e db) = hp_host_policy db"
  by (simp_all add: delete_entity_names_def)

lemma delete_component_gone:
  assumes "delete_component C self db = Inr db'"
  shows "component_gone (co_id self) db db' \<and> unused db (co_id self)"
proof -
  obtain db1 event where row: "delete_component_row (co_id self) db = Inr db1"
    and rest: "delete_entity_row (co_id self) (delete_entity_names (co_id self) (hp_log_change (co_id self) event None db1)) = Inr db'"
    using assms by (auto simp: delete_component_def res_simps)
  have "unused db (co_id self)" using row by (auto simp: delete_component_row_def unused_def list_ex_iff split: if_splits)
  moreover have "db1 = db\<lparr>hp_component := filter (\<lambda>r. co_id r \<noteq> co_id self) (hp_component db)\<rparr>"
    using row by (simp add: delete_component_row_def split: if_splits)
  ultimately show ?thesis
    using rest by (auto simp: delete_entity_row_def component_gone_def delete_names_all split: if_splits)
qed

lemma delete_component_ok:
  assumes "consistent C db" "unused db (co_id self)" "has_component db (co_id self)"
    "co_type self = entity_hostpolicy_atom C \<or> co_type self = entity_hostpolicy_role C"
  shows "\<exists>db'. delete_component C self db = Inr db'"
proof -
  let ?c = "co_id self"
  have row: "delete_component_row ?c db = Inr (db\<lparr>hp_component := filter (\<lambda>r. co_id r \<noteq> ?c) (hp_component db)\<rparr>)"
    using assms(2) by (auto simp: delete_component_row_def unused_def list_ex_iff)
  have "?c \<notin> set (hp_dns_owner db)" using assms(1,3) by (auto simp: consistent_def references_ok_def)
  then show ?thesis
    using assms(4)
    by (auto simp: delete_component_def row component_event_def delete_entity_row_def delete_names_all has_component_iff list_ex_iff)
qed

lemma component_gone_ok:
  assumes "component_gone c db db'" "unused db c" "consistent C db" "has_component db c"
  shows "consistent C db'"
proof -
  have tables: "hp_entity_info db' = filter (\<lambda>(i, _). i \<noteq> c) (hp_entity_info db)"
    "hp_component db' = filter (\<lambda>r. co_id r \<noteq> c) (hp_component db)" "hp_name db' = filter (\<lambda>(i, _, _). i \<noteq> c) (hp_name db)"
    "hp_rel_code db' = hp_rel_code db" "hp_relationship db' = hp_relationship db" "hp_dns_owner db' = hp_dns_owner db"
    "hp_host_policy db' = hp_host_policy db"
    using assms(1) by (auto simp: component_gone_def)
  have H: "has_component db' x \<longleftrightarrow> has_component db x \<and> x \<noteq> c" for x by (auto simp: has_component_iff tables)
  have N: "named db' x \<longleftrightarrow> named db x \<and> x \<noteq> c" for x by (auto simp: named_def tables)
  have E: "hp_entity_info db' = dict_del c (hp_entity_info db)" by (simp add: tables dict_del_def case_prod_unfold)
  have K: "x \<in> set (keys (hp_entity_info db')) \<longleftrightarrow> x \<in> set (keys (hp_entity_info db)) \<and> x \<noteq> c" for x
    unfolding E using set_keys_dict_del [of c "hp_entity_info db"] by blast
  have D: "distinct (map co_id (hp_component db'))" using assms(3)
    by (simp add: tables consistent_def components_ok_def distinct_map inj_on_def)
  have "components_ok C db'"
    using assms(3) D unfolding consistent_def components_ok_def E map_of_dict_del by (auto simp: tables)
  moreover have "references_ok db'"
    using assms(2-4) unfolding consistent_def references_ok_def unused_def H N K tables(4-7) by blast
  ultimately show ?thesis by (simp add: consistent_def)
qed

lemma component_gone_hierarchy:
  assumes "component_gone c db db'" "unused db c" "hierarchy C db"
  shows "hierarchy C db'"
proof -
  have E: "hp_entity_info db' = dict_del c (hp_entity_info db)" and R: "hp_relationship db' = hp_relationship db"
    using assms(1) by (simp_all add: component_gone_def dict_del_def case_prod_unfold)
  have "policy_edges db' = policy_edges db" by (simp add: policy_edges_def R fun_eq_iff)
  moreover have "map_of (hp_entity_info db') s = Some (entity_hostpolicy_role C)" if "(s, rel, t) \<in> set (hp_relationship db)" for s rel t
    using assms(2,3) that unfolding E map_of_dict_del unused_def hierarchy_def by fastforce
  ultimately show ?thesis using assms(3) unfolding hierarchy_def R by auto
qed

section \<open>Memberships form no loop\<close>

lemma illegal_membership_loop_eq:
  assumes "consistent C db"
  shows "illegal_membership_loop C s m db = Some (Inr ((m, s) \<in> (policy_edges db (hostpolicy_contains C))\<^sup>+))"
proof -
  let ?R = "row_edges db (hostpolicy_contains C)"
  let ?rows = "filter (\<lambda>r. source_id r \<in> ?R\<^sup>* `` {m} \<and> relationship_id r = hostpolicy_contains C) (relation_rows db)"
  have "(\<exists>r \<in> set ?rows. target_id r = s) \<longleftrightarrow> (\<exists>x. (m, x) \<in> ?R\<^sup>* \<and> (x, s) \<in> ?R)" by (force simp: row_edges_def)
  also have "\<dots> \<longleftrightarrow> (m, s) \<in> ?R\<^sup>+" by (meson rtrancl_into_trancl1 tranclD2)
  finally have "list_ex (\<lambda>r. target_id r = s) ?rows \<longleftrightarrow> (m, s) \<in> ?R\<^sup>+" by (simp add: list_ex_iff)
  then show ?thesis
    using search_children_eq [of "One m" db "hostpolicy_contains C"]
    by (simp add: illegal_membership_loop_def start_set_def row_edges_eq [OF assms])
qed

lemma add_relationship_cases:
  assumes "consistent C db" "add_relationship C s rel t db = Some (Inr db')"
  shows "db' = hp_log_change s ''hostpolicy_relationship_add'' (Some t) (db\<lparr>hp_relationship := hp_relationship db @ [(s, rel, t)]\<rparr>)
    \<and> has_component db s \<and> has_component db t \<and> rel \<in> set (keys (hp_rel_code db)) \<and> s \<noteq> t
    \<and> (map_of (hp_entity_info db) t = Some (entity_hostpolicy_role C) \<longrightarrow> (t, s) \<notin> (policy_edges db (hostpolicy_contains C))\<^sup>+)"
  using assms(2)
  by (auto simp: add_relationship_def illegal_relationship_def illegal_membership_loop_eq [OF assms(1)] find_entity_def
      insert_relationship_def res_simps split: if_splits option.splits sum.splits)

lemma add_relationship_ok:
  assumes "consistent C db" "add_relationship C s rel t db = Some (Inr db')"
  shows "consistent C db'"
  using add_relationship_cases [OF assms] assms(1)
  by (auto simp: consistent_def components_ok_def references_ok_def has_component_iff named_def)

lemma add_relationship_hierarchy:
  assumes "consistent C db" "hierarchy C db" "add_relationship C s rel t db = Some (Inr db')"
    and role: "map_of (hp_entity_info db) s = Some (entity_hostpolicy_role C)"
  shows "hierarchy C db'"
proof -
  let ?E = "policy_edges db (hostpolicy_contains C)"
  have new: "hp_relationship db' = hp_relationship db @ [(s, rel, t)]" "hp_entity_info db' = hp_entity_info db" "s \<noteq> t"
    and loop: "map_of (hp_entity_info db) t = Some (entity_hostpolicy_role C) \<Longrightarrow> (t, s) \<notin> ?E\<^sup>+"
    using add_relationship_cases [OF assms(1,3)] by auto
  have acyclic: "acyclic ?E" using assms(2) by (simp add: hierarchy_def)
  have source: "map_of (hp_entity_info db) x = Some (entity_hostpolicy_role C)" if "(x, y) \<in> ?E" for x y
    using assms(2) that by (auto simp: hierarchy_def policy_edges_def)
  have "(t, s) \<notin> ?E\<^sup>+"
  proof
    assume path: "(t, s) \<in> ?E\<^sup>+"
    then obtain y where "(t, y) \<in> ?E" by (meson tranclD)
    then show False using source loop path by blast
  qed
  then have "(t, s) \<notin> ?E\<^sup>*" using new(3) by (auto simp: rtrancl_eq_or_trancl)
  moreover have "policy_edges db' (hostpolicy_contains C) \<subseteq> insert (s, t) ?E" by (auto simp: policy_edges_def new(1))
  ultimately have "acyclic (policy_edges db' (hostpolicy_contains C))" using acyclic by (auto simp: acyclic_insert intro: acyclic_subset)
  then show ?thesis using assms(2) role by (auto simp: hierarchy_def new)
qed

section \<open>The hosts of a policy\<close>

lemma with_parents_eq:
  assumes "consistent C db" "start_set p \<noteq> {}" "finite (start_set p)"
  shows "with_parents C db p = Some (Inr (Many (((policy_edges db (hostpolicy_contains C))\<inverse>)\<^sup>* `` start_set p)))"
proof -
  let ?R = "row_edges db (hostpolicy_contains C)" and ?S = "start_set p"
  let ?rows = "filter (\<lambda>r. target_id r \<in> (?R\<inverse>)\<^sup>* `` ?S \<and> relationship_id r = hostpolicy_contains C) (relation_rows db)"
  have "source_id ` set ?rows = ?R\<inverse> `` ((?R\<inverse>)\<^sup>* `` ?S)" by (force simp: row_edges_def)
  also have "\<dots> = (?R\<inverse>)\<^sup>+ `` ?S" by (simp add: trancl_unfold_right relcomp_Image)
  finally have "?S \<union> source_id ` set ?rows = (?R\<inverse>)\<^sup>* `` ?S" by (auto simp: rtrancl_eq_or_trancl)
  then show ?thesis
    using search_parents_of_eq [of "Many ?S" db "hostpolicy_contains C"] assms(2,3)
    by (simp add: with_parents_def start_set_def [of "Many _"] row_edges_eq [OF assms(1)])
qed

text \<open>
  The recursive search for the hosts that have a policy, or any of some policies, returns and gives exactly
  the hosts to which one of these policies, or a role that contains it through any chain of roles, is attached;
  asked for a host at the same time it raises.
\<close>

theorem hostpolicies_indirect_exact:
  assumes "consistent C db" "start_set p \<noteq> {}" "finite (start_set p)"
  shows "search_hostpolicies C like db (Some p) None None None True =
      Some (Inr (filter (\<lambda>r. \<exists>c \<in> start_set p. (hr_policy_id r, c) \<in> (policy_edges db (hostpolicy_contains C))\<^sup>*) (hostpolicy_rows db))) \<and>
    search_hostpolicies C like db (Some p) None (Some h) None True = Some (Inl (OtherError ''Exception''))"
proof -
  let ?E = "policy_edges db (hostpolicy_contains C)"
  have "(?E\<inverse>)\<^sup>* `` start_set p \<noteq> {}" by (rule closure_not_empty [OF assms(2)])
  moreover have "x \<in> (?E\<inverse>)\<^sup>* `` start_set p \<longleftrightarrow> (\<exists>c \<in> start_set p. (x, c) \<in> ?E\<^sup>*)" for x
    by (auto simp: rtrancl_converse)
  ultimately show ?thesis by (simp add: search_hostpolicies_def select_hostpolicies_def with_parents_eq [OF assms])
qed

end
