(* ===== verification/Policy_Cmds.thy ===== *)
theory Policy_Cmds
  imports Host_Policy "HOL-Library.Char_ord" "HOL-Library.List_Lexorder"
begin

text \<open>
  The commands on host policies: \<^verbatim>\<open>src/Cerebrum/modules/hostpolicy/bofhd_hostpolicy_cmds.py\<close>. A command checks that
  the operator is a DNS superuser (\<open>su\<close>), resolves its arguments and calls the methods of the theory Host\_Policy.
  Which host an argument names is decided by the DNS module; the commands take its answer \<open>host\<close>. The inner functions that
  call themselves get the number of nested calls Python allows, and raise \<^verbatim>\<open>RuntimeError\<close> beyond it.

  Shown: while roles are given by name, the commands keep the tables consistent and the memberships without
  loops, so that the listings return; a role given by its number is not checked to be a role, and the loop that
  makes possible is one that \<^verbatim>\<open>policy has_member\<close> never leaves.
\<close>

abbreviation BofhdError :: py_error where "BofhdError \<equiv> OtherError ''CerebrumError''"
abbreviation PermissionDenied :: py_error where "PermissionDenied \<equiv> OtherError ''PermissionDenied''"

section \<open>Arguments\<close>

datatype comp_class = PolicyComponent | Atom | Role

definition py_isdigit :: "string \<Rightarrow> bool" where
  "py_isdigit s = (s \<noteq> [] \<and> list_all is_digit s)"

definition get_component :: "policy_const \<Rightarrow> comp_class \<Rightarrow> string \<Rightarrow> policy_db \<Rightarrow> (component_row \<times> string) res" where
  "get_component C cls comp_id db =
     (case (if py_isdigit comp_id then find_component C (int (nat_of_digits comp_id)) db
            else case cls of
                   PolicyComponent \<Rightarrow> find_component_by_name C comp_id db
                 | Atom \<Rightarrow> find_atom_by_name C comp_id db
                 | Role \<Rightarrow> find_role_by_name C comp_id db) of
        Inl e \<Rightarrow> Inl (if e = NotFoundError then BofhdError else e)
      | Inr r \<Rightarrow> Inr r)"

definition check_if_unused :: "component_row \<Rightarrow> policy_db \<Rightarrow> unit res" where
  "check_if_unused component db =
     res_bind (select_hostpolicies (\<lambda>_ _. True) db (Some (One (co_id component))) None None None) (\<lambda>hosts.
       if hosts \<noteq> [] then Inl BofhdError
       else res_bind (select_relations db None (Some (One (co_id component))) None) (\<lambda>sources.
         if sources \<noteq> [] then Inl BofhdError
         else res_bind (select_relations db (Some (One (co_id component))) None None) (\<lambda>targets.
           if targets \<noteq> [] then Inl BofhdError else Inr ())))"

section \<open>Creating, deleting and changing policies\<close>

text \<open>The bodies of \<^verbatim>\<open>policy_atom_create\<close> and \<^verbatim>\<open>policy_role_create\<close> differ only in the class they populate.\<close>

definition policy_create ::
    "int \<Rightarrow> policy_const \<Rightarrow> bool \<Rightarrow> int \<Rightarrow> int \<Rightarrow> string \<Rightarrow> string \<Rightarrow> string \<Rightarrow> int option res \<Rightarrow> policy_db \<Rightarrow> policy_db res" where
  "policy_create e_type C su now new_id name description foundation foundation_date db =
     (if \<not> su then Inl PermissionDenied
      else if illegal_attr description then Inl BofhdError
      else if illegal_attr foundation then Inl BofhdError
      else res_bind foundation_date (\<lambda>date.
        case get_component C PolicyComponent name db of
          Inr _ \<Rightarrow> Inl BofhdError
        | Inl e \<Rightarrow> if e \<noteq> BofhdError then Inl e
                   else new_component C now new_id e_type name description foundation date db))"

definition policy_atom_create ::
    "policy_const \<Rightarrow> bool \<Rightarrow> int \<Rightarrow> int \<Rightarrow> string \<Rightarrow> string \<Rightarrow> string \<Rightarrow> int option res \<Rightarrow> policy_db \<Rightarrow> policy_db res" where
  "policy_atom_create C = policy_create (entity_hostpolicy_atom C) C"

definition policy_role_create ::
    "policy_const \<Rightarrow> bool \<Rightarrow> int \<Rightarrow> int \<Rightarrow> string \<Rightarrow> string \<Rightarrow> string \<Rightarrow> int option res \<Rightarrow> policy_db \<Rightarrow> policy_db res" where
  "policy_role_create C = policy_create (entity_hostpolicy_role C) C"

definition policy_atom_delete :: "policy_const \<Rightarrow> bool \<Rightarrow> string \<Rightarrow> policy_db \<Rightarrow> policy_db res" where
  "policy_atom_delete C su atom_id db =
     (if \<not> su then Inl PermissionDenied
      else res_bind (get_component C Atom atom_id db) (\<lambda>(atom, _).
           res_bind (check_if_unused atom db) (\<lambda>_. delete_component C atom db)))"

definition policy_role_delete :: "policy_const \<Rightarrow> bool \<Rightarrow> string \<Rightarrow> policy_db \<Rightarrow> policy_db res" where
  "policy_role_delete C su role_id db =
     (if \<not> su then Inl PermissionDenied
      else res_bind (get_component C Role role_id db) (\<lambda>(role, _).
           res_bind (check_if_unused role db) (\<lambda>_. delete_component C role db)))"

definition policy_rename :: "policy_const \<Rightarrow> bool \<Rightarrow> string \<Rightarrow> string \<Rightarrow> policy_db \<Rightarrow> policy_db res" where
  "policy_rename C su policy_id name db =
     (if \<not> su then Inl PermissionDenied
      else res_bind (get_component C PolicyComponent policy_id db) (\<lambda>(policy, old_name).
        case get_component C PolicyComponent name db of
          Inr _ \<Rightarrow> Inl BofhdError
        | Inl e \<Rightarrow> if e \<noteq> BofhdError then Inl e else write_component C policy old_name policy name db))"

definition policy_set_description :: "policy_const \<Rightarrow> bool \<Rightarrow> string \<Rightarrow> string \<Rightarrow> policy_db \<Rightarrow> policy_db res" where
  "policy_set_description C su policy_id description db =
     (if \<not> su then Inl PermissionDenied
      else res_bind (get_component C PolicyComponent policy_id db) (\<lambda>(policy, name).
        write_component C policy name (policy\<lparr>co_description := description\<rparr>) name db))"

definition policy_set_foundation :: "policy_const \<Rightarrow> bool \<Rightarrow> string \<Rightarrow> string \<Rightarrow> int option res \<Rightarrow> policy_db \<Rightarrow> policy_db res" where
  "policy_set_foundation C su policy_id foundation date db =
     (if \<not> su then Inl PermissionDenied
      else res_bind (get_component C PolicyComponent policy_id db) (\<lambda>(policy, name).
        res_bind date (\<lambda>foundation_date.
          let policy' = policy\<lparr>co_foundation := foundation\<rparr>
          in write_component C policy name
               (case foundation_date of None \<Rightarrow> policy' | Some d \<Rightarrow> policy'\<lparr>co_date := d\<rparr>) name db)))"

section \<open>Members of roles\<close>

text \<open>
  When there is no such role the command looks for an atom of that name to explain it, and raises \<^verbatim>\<open>CerebrumError\<close>
  either way. An illegal membership is refused by \<^verbatim>\<open>add_relationship\<close> with \<^verbatim>\<open>ProgrammingError\<close>, which the command turns into
  an explanation: always a \<^verbatim>\<open>CerebrumError\<close>.
\<close>

definition policy_add_member :: "policy_const \<Rightarrow> bool \<Rightarrow> string \<Rightarrow> string \<Rightarrow> policy_db \<Rightarrow> policy_db res option" where
  "policy_add_member C su role_id member_id db =
     (if \<not> su then Some (Inl PermissionDenied)
      else case get_component C Role role_id db of
        Inl e \<Rightarrow> Some (Inl e)
      | Inr (role, _) \<Rightarrow>
          (case get_component C PolicyComponent member_id db of
             Inl e \<Rightarrow> Some (Inl e)
           | Inr (member, _) \<Rightarrow>
               if co_id role = co_id member then Some (Inl BofhdError)
               else case search_relations db (Some (One (co_id role))) None (Some (One (hostpolicy_contains C))) True of
                 None \<Rightarrow> None
               | Some (Inl e) \<Rightarrow> Some (Inl e)
               | Some (Inr rows) \<Rightarrow>
                   if list_ex (\<lambda>row. target_id row = co_id member) rows then Some (Inl BofhdError)
                   else map_option (\<lambda>r. case r of
                            Inl e \<Rightarrow> Inl (if e = ProgrammingError then BofhdError else e)
                          | Inr db' \<Rightarrow> Inr db')
                          (add_relationship C (co_id role) (hostpolicy_contains C) (co_id member) db)))"

definition policy_remove_member :: "policy_const \<Rightarrow> bool \<Rightarrow> string \<Rightarrow> string \<Rightarrow> policy_db \<Rightarrow> policy_db res" where
  "policy_remove_member C su role_id member_id db =
     (if \<not> su then Inl PermissionDenied
      else res_bind (get_component C Role role_id db) (\<lambda>(role, _).
        res_bind (get_component C PolicyComponent member_id db) (\<lambda>(member, _).
        res_bind (select_relations db (Some (One (co_id role))) (Some (One (co_id member))) (Some (One (hostpolicy_contains C)))) (\<lambda>rel.
          if rel = [] then Inl BofhdError
          else Inr (remove_relationship (co_id role) (hostpolicy_contains C) (co_id member) db)))))"

fun concat_res :: "'a list res list \<Rightarrow> 'a list res" where
  "concat_res [] = Inr []"
| "concat_res (r # rs) = res_bind r (\<lambda>x. res_bind (concat_res rs) (\<lambda>y. Inr (x @ y)))"

text \<open>A line of the listing: the name, and the type padded to the depth.\<close>

primrec get_members :: "nat \<Rightarrow> policy_const \<Rightarrow> policy_db \<Rightarrow> int \<Rightarrow> nat \<Rightarrow> (string \<times> string) list res" where
  "get_members 0 C db roleid increment = Inl RuntimeError"
| "get_members (Suc limit) C db roleid increment =
     res_bind (select_relations db (Some (One roleid)) None (Some (One (hostpolicy_contains C)))) (\<lambda>members.
       concat_res (map (\<lambda>row.
         let is_role = (target_entity_type row = entity_hostpolicy_role C);
             line = (target_name row, replicate increment (CHR '' '') @ (if is_role then ''R'' else ''A''))
         in if is_role
            then res_bind (get_members limit C db (target_id row) (increment + 2)) (\<lambda>sub. Inr (line # sub))
            else Inr [line])
         (sort_key target_name members)))"

definition policy_list_members :: "nat \<Rightarrow> policy_const \<Rightarrow> bool \<Rightarrow> string \<Rightarrow> policy_db \<Rightarrow> (string \<times> string) list res" where
  "policy_list_members limit C su role_id db =
     (if \<not> su then Inl PermissionDenied
      else res_bind (get_component C Role role_id db) (\<lambda>(role, _). get_members limit C db (co_id role) 0))"

text \<open>
  The parents of a policy; a parent is marked as processed when the call for it has returned. The result carries
  the list of processed policies.
\<close>

fun parents_loop ::
    "(int \<Rightarrow> int list \<Rightarrow> (string list \<times> int list) res) \<Rightarrow> nat \<Rightarrow> relation_row list \<Rightarrow> int list \<Rightarrow> (string list \<times> int list) res" where
  "parents_loop rec increment [] already = Inr ([], already)"
| "parents_loop rec increment (row # rows) already =
     res_bind (if source_id row \<notin> set already then rec (source_id row) already else Inr ([], already)) (\<lambda>(sub, already').
     res_bind (parents_loop rec increment rows (already' @ [source_id row])) (\<lambda>(rest, already'').
       Inr ((replicate increment (CHR '' '') @ source_name row) # sub @ rest, already'')))"

primrec get_parents :: "nat \<Rightarrow> policy_const \<Rightarrow> policy_db \<Rightarrow> int \<Rightarrow> nat \<Rightarrow> int list \<Rightarrow> (string list \<times> int list) res" where
  "get_parents 0 C db policyid increment already = Inl RuntimeError"
| "get_parents (Suc limit) C db policyid increment already =
     res_bind (select_relations db None (Some (One policyid)) (Some (One (hostpolicy_contains C)))) (\<lambda>parents.
       parents_loop (\<lambda>p a. get_parents limit C db p (increment + 2) a) increment (sort_key source_name parents) already)"

definition policy_has_member :: "nat \<Rightarrow> policy_const \<Rightarrow> bool \<Rightarrow> string \<Rightarrow> policy_db \<Rightarrow> string list res" where
  "policy_has_member limit C su component_id db =
     (if \<not> su then Inl PermissionDenied
      else res_bind (get_component C PolicyComponent component_id db) (\<lambda>(component, _).
           res_bind (get_parents limit C db (co_id component) 0 []) (\<lambda>(lines, _). Inr lines)))"

section \<open>Policies of hosts\<close>

fun for_each :: "('a \<Rightarrow> unit res) \<Rightarrow> 'a list \<Rightarrow> unit res" where
  "for_each f [] = Inr ()"
| "for_each f (x # xs) = res_bind (f x) (\<lambda>_. for_each f xs)"

primrec check_member_loop :: "nat \<Rightarrow> policy_const \<Rightarrow> policy_db \<Rightarrow> int \<Rightarrow> int \<Rightarrow> unit res" where
  "check_member_loop 0 C db role_id check_id = Inl RuntimeError"
| "check_member_loop (Suc limit) C db role_id check_id =
     res_bind (select_relations db (Some (One role_id)) None (Some (One (hostpolicy_contains C)))) (\<lambda>rows.
       for_each (\<lambda>row.
         if target_id row = check_id then Inl BofhdError
         else if target_entity_type row = entity_hostpolicy_role C then check_member_loop limit C db (target_id row) check_id
         else Inr ()) rows)"

definition host_policy_add :: "nat \<Rightarrow> policy_const \<Rightarrow> bool \<Rightarrow> int res \<Rightarrow> string \<Rightarrow> policy_db \<Rightarrow> policy_db res" where
  "host_policy_add limit C su host comp_id db =
     (if \<not> su then Inl PermissionDenied
      else res_bind host (\<lambda>h. res_bind (get_component C PolicyComponent comp_id db) (\<lambda>(policy, _).
        if co_type policy = entity_hostpolicy_atom C then Inl BofhdError
        else res_bind (select_hostpolicies (\<lambda>_ _. True) db (Some (One (co_id policy))) None (Some (One h)) None) (\<lambda>direct.
          if direct \<noteq> [] then Inl BofhdError
          else res_bind (if co_type policy = entity_hostpolicy_role C
                 then res_bind (select_hostpolicies (\<lambda>_ _. True) db None None (Some (One h)) None)
                        (for_each (\<lambda>row. check_member_loop limit C db (hr_policy_id row) (co_id policy)))
                 else Inr ()) (\<lambda>_. add_to_host (co_id policy) h db)))))"

definition host_policy_remove :: "policy_const \<Rightarrow> bool \<Rightarrow> int res \<Rightarrow> string \<Rightarrow> policy_db \<Rightarrow> policy_db res" where
  "host_policy_remove C su host comp_id db =
     (if \<not> su then Inl PermissionDenied
      else res_bind host (\<lambda>h. res_bind (get_component C PolicyComponent comp_id db) (\<lambda>(policy, _).
        res_bind (select_hostpolicies (\<lambda>_ _. True) db (Some (One (co_id policy))) None (Some (One h)) None) (\<lambda>rows.
          if rows = [] then Inl BofhdError else Inr (remove_from_host (co_id policy) h db)))))"

section \<open>What the arguments stand for\<close>

definition component_ok :: "policy_const \<Rightarrow> policy_db \<Rightarrow> component_row \<Rightarrow> bool" where
  "component_ok C db r \<longleftrightarrow>
     has_component db (co_id r) \<and> map_of (hp_entity_info db) (co_id r) = Some (co_type r) \<and>
     (co_type r = entity_hostpolicy_atom C \<or> co_type r = entity_hostpolicy_role C)"

lemma find_component_ok:
  assumes "consistent C db" "find_component C i db = Inr (r, n)"
  shows "component_ok C db r"
proof -
  obtain t r0 where r0: "map_of (hp_entity_info db) i = Some t" "find (\<lambda>r. co_id r = i) (hp_component db) = Some r0" "r = r0\<lparr>co_type := t\<rparr>"
    using assms(2) by (auto simp: find_component_def find_entity_def split: option.splits)
  have "r0 \<in> set (hp_component db)" "co_id r0 = i" using find_Some_mem [OF r0(2)] by auto
  moreover from this have "map_of (hp_entity_info db) i = Some (co_type r0)"
    "co_type r0 = entity_hostpolicy_atom C \<or> co_type r0 = entity_hostpolicy_role C"
    using assms(1) unfolding consistent_def components_ok_def by blast+
  ultimately show ?thesis using r0 by (auto simp: component_ok_def has_component_iff)
qed

lemma find_by_name_ok: "consistent C db \<Longrightarrow> find_component_by_name C name db = Inr (r, n) \<Longrightarrow> component_ok C db r"
  by (auto simp: find_component_by_name_def intro: find_component_ok split: option.splits)

lemma get_component_ok: "consistent C db \<Longrightarrow> get_component C cls arg db = Inr (r, n) \<Longrightarrow> component_ok C db r"
  by (auto simp: get_component_def find_atom_by_name_def find_role_by_name_def res_simps
      intro: find_component_ok find_by_name_ok split: if_splits sum.splits comp_class.splits)

lemma get_role_by_name: "get_component C Role arg db = Inr (r, n) \<Longrightarrow> \<not> py_isdigit arg \<Longrightarrow> co_type r = entity_hostpolicy_role C"
  by (auto simp: get_component_def find_role_by_name_def res_simps split: if_splits sum.splits)

section \<open>The commands keep the tables consistent\<close>

inductive policy_step :: "policy_const \<Rightarrow> policy_db \<Rightarrow> policy_db \<Rightarrow> bool" for C where
  step_atom_create: "policy_atom_create C su now i name desc found date db = Inr db' \<Longrightarrow> policy_step C db db'"
| step_role_create: "policy_role_create C su now i name desc found date db = Inr db' \<Longrightarrow> policy_step C db db'"
| step_atom_delete: "policy_atom_delete C su arg db = Inr db' \<Longrightarrow> policy_step C db db'"
| step_role_delete: "policy_role_delete C su arg db = Inr db' \<Longrightarrow> policy_step C db db'"
| step_rename: "policy_rename C su arg name db = Inr db' \<Longrightarrow> policy_step C db db'"
| step_set_description: "policy_set_description C su arg desc db = Inr db' \<Longrightarrow> policy_step C db db'"
| step_set_foundation: "policy_set_foundation C su arg found date db = Inr db' \<Longrightarrow> policy_step C db db'"
| step_add_member: "policy_add_member C su role arg db = Some (Inr db') \<Longrightarrow> \<not> py_isdigit role \<Longrightarrow> policy_step C db db'"
| step_remove_member: "policy_remove_member C su role arg db = Inr db' \<Longrightarrow> policy_step C db db'"
| step_host_add: "host_policy_add limit C su host arg db = Inr db' \<Longrightarrow> policy_step C db db'"
| step_host_remove: "host_policy_remove C su host arg db = Inr db' \<Longrightarrow> policy_step C db db'"

lemma policy_create_new:
  "policy_create ty C su now i name desc found date db = Inr db' \<Longrightarrow>
     \<exists>d. new_component C now i ty name desc found d db = Inr db'"
  by (cases "get_component C PolicyComponent name db") (auto simp: policy_create_def res_simps split: if_splits)

lemma policy_create_ok:
  assumes "policy_create ty C su now i name desc found date db = Inr db'" "consistent C db \<and> hierarchy C db"
  shows "consistent C db' \<and> hierarchy C db'"
proof -
  obtain d where d: "new_component C now i ty name desc found d db = Inr db'" using policy_create_new [OF assms(1)] ..
  then show ?thesis using consistent_new [OF _ d] hierarchy_new [OF _ _ d] assms(2) by simp
qed

lemma policy_delete_component:
  assumes "policy_atom_delete C su arg db = Inr db' \<or> policy_role_delete C su arg db = Inr db'" "consistent C db"
  shows "\<exists>c. component_ok C db c \<and> delete_component C c db = Inr db'"
  using assms by (auto simp: policy_atom_delete_def policy_role_delete_def res_simps dest: get_component_ok split: if_splits)

lemma policy_write_component:
  assumes "policy_rename C su arg name db = Inr db' \<or> policy_set_description C su arg desc db = Inr db' \<or>
    policy_set_foundation C su arg found date db = Inr db'"
  shows "\<exists>self old new nm. write_component C self old new nm db = Inr db'"
  using assms
  by (cases "get_component C PolicyComponent name db")
    (auto simp: policy_rename_def policy_set_description_def policy_set_foundation_def res_simps Let_def split: if_splits)

lemma policy_write_ok:
  assumes "policy_rename C su arg name db = Inr db' \<or> policy_set_description C su arg desc db = Inr db' \<or>
    policy_set_foundation C su arg found date db = Inr db'" "consistent C db \<and> hierarchy C db"
  shows "consistent C db' \<and> hierarchy C db'"
proof -
  obtain self old new nm where w: "write_component C self old new nm db = Inr db'"
    using policy_write_component [OF assms(1)] by blast
  then show ?thesis using write_ok [OF w] assms(2) by simp
qed

lemma policy_add_member_relationship:
  assumes "policy_add_member C su arg arg' db = Some (Inr db')" "consistent C db"
  shows "\<exists>r n m. get_component C Role arg db = Inr (r, n) \<and> component_ok C db r \<and>
    add_relationship C (co_id r) (hostpolicy_contains C) m db = Some (Inr db')"
  using assms by (auto simp: policy_add_member_def dest: get_component_ok split: if_splits sum.splits option.splits prod.splits)
    (metis sum.exhaust)

lemma policy_step_ok:
  assumes "policy_step C db db'" "consistent C db \<and> hierarchy C db"
  shows "consistent C db' \<and> hierarchy C db'"
  using assms
proof (induction rule: policy_step.induct)
  case (step_atom_create su now i name desc found date db db')
  then show ?case using policy_create_ok unfolding policy_atom_create_def by blast
next
  case (step_role_create su now i name desc found date db db')
  then show ?case using policy_create_ok unfolding policy_role_create_def by blast
next
  case (step_atom_delete su arg db db')
  then obtain c where "component_ok C db c" "delete_component C c db = Inr db'" using policy_delete_component by blast
  then show ?case
    using step_atom_delete delete_component_gone component_gone_ok component_gone_hierarchy unfolding component_ok_def by blast
next
  case (step_role_delete su arg db db')
  then obtain c where "component_ok C db c" "delete_component C c db = Inr db'" using policy_delete_component by blast
  then show ?case
    using step_role_delete delete_component_gone component_gone_ok component_gone_hierarchy unfolding component_ok_def by blast
next
  case (step_rename su arg name db db')
  then show ?case using policy_write_ok by blast
next
  case (step_set_description su arg desc db db')
  then show ?case using policy_write_ok by blast
next
  case (step_set_foundation su arg found date db db')
  then show ?case using policy_write_ok by blast
next
  case (step_add_member su role arg db db')
  then obtain r n m where r: "get_component C Role role db = Inr (r, n)" "component_ok C db r"
    "add_relationship C (co_id r) (hostpolicy_contains C) m db = Some (Inr db')"
    using policy_add_member_relationship by blast
  then show ?case
    using step_add_member get_role_by_name [OF r(1)] add_relationship_ok add_relationship_hierarchy by (auto simp: component_ok_def)
next
  case (step_remove_member su role arg db db')
  then show ?case by (auto simp: policy_remove_member_def res_simps removal_ok removal_hierarchy split: if_splits)
next
  case (step_host_add limit su host arg db db')
  then show ?case by (auto simp: host_policy_add_def res_simps dest: add_to_host_ok split: if_splits)
next
  case (step_host_remove su host arg db db')
  then show ?case by (auto simp: host_policy_remove_def res_simps removal_ok removal_hierarchy split: if_splits)
qed

definition no_relations :: "policy_const \<Rightarrow> policy_db \<Rightarrow> bool" where
  "no_relations C db \<longleftrightarrow> consistent C db \<and> hp_relationship db = []"

interpretation policies: invariant_system "no_relations C" "policy_step C" "\<lambda>db. consistent C db \<and> hierarchy C db" for C
proof
  show "no_relations C db \<Longrightarrow> consistent C db \<and> hierarchy C db" for db
    by (simp add: no_relations_def hierarchy_def policy_edges_def acyclic_def)
qed (rule policy_step_ok)

text \<open>
  C11: on every database the policy commands produce, while roles to be given members are named and not numbered,
  the tables are consistent: components have their entity and a name, relationships and host policies refer to
  existing rows; only roles have members; and no policy is, directly or through others, a member of itself.
\<close>

theorem policies_consistent:
  assumes "reachable (no_relations C) (policy_step C) db"
  shows "consistent C db \<and> acyclic (policy_edges db (hostpolicy_contains C)) \<and>
    (\<forall>s t. (s, t) \<in> policy_edges db (hostpolicy_contains C) \<longrightarrow> map_of (hp_entity_info db) s = Some (entity_hostpolicy_role C))"
  using policies.reachable_inv [OF assms] by (auto simp: hierarchy_def policy_edges_def)

section \<open>The listings return\<close>

lemma acyclic_path_bound:
  assumes "finite E" "acyclic E"
  shows "(x, y) \<in> E ^^ n \<Longrightarrow> n \<le> card (E\<^sup>+ `` {x})"
proof (induction n arbitrary: x)
  case (Suc n)
  then obtain z where z: "(x, z) \<in> E" "(z, y) \<in> E ^^ n" by (meson relpow_Suc_E2)
  have fin: "finite (E\<^sup>+ `` {x})"
    by (rule finite_subset [of _ "snd ` E"]) (use assms(1) in \<open>force dest: tranclD2\<close>)+
  have "E\<^sup>+ `` {z} \<subset> E\<^sup>+ `` {x}"
  proof
    show "E\<^sup>+ `` {z} \<subseteq> E\<^sup>+ `` {x}" using z(1) by (auto intro: trancl_into_trancl2)
    have "z \<in> E\<^sup>+ `` {x}" "z \<notin> E\<^sup>+ `` {z}" using z(1) assms(2) by (auto simp: acyclic_def)
    then show "E\<^sup>+ `` {z} \<noteq> E\<^sup>+ `` {x}" by blast
  qed
  then have "card (E\<^sup>+ `` {z}) < card (E\<^sup>+ `` {x})" by (rule psubset_card_mono [OF fin])
  then show ?case using Suc.IH [OF z(2)] by simp
qed simp

text \<open>A chain of memberships is no longer than there are components.\<close>

lemma no_long_path:
  assumes "consistent C db" "hierarchy C db" "length (hp_component db) < n"
  shows "(policy_edges db (hostpolicy_contains C) ^^ n) `` {x} = {}"
proof (rule ccontr)
  let ?E = "policy_edges db (hostpolicy_contains C)"
  assume "(?E ^^ n) `` {x} \<noteq> {}"
  then obtain y where "(x, y) \<in> ?E ^^ n" by blast
  then have "n \<le> card (?E\<^sup>+ `` {x})"
    using acyclic_path_bound [OF finite_edges] assms(2) by (auto simp: hierarchy_def)
  also have "\<dots> \<le> card (co_id ` set (hp_component db))"
  proof (rule card_mono)
    have "has_component db t" if "(x, t) \<in> ?E\<^sup>+" for t
      using tranclD2 [OF that] assms(1) by (auto simp: policy_edges_def consistent_def references_ok_def)
    then show "?E\<^sup>+ `` {x} \<subseteq> co_id ` set (hp_component db)" by (auto simp: has_component_iff)
  qed simp
  also have "\<dots> \<le> length (hp_component db)" by (metis card_length length_map set_map)
  finally show False using assms(3) by simp
qed

lemma path_from_member: "(E ^^ Suc n) `` {x} = {} \<Longrightarrow> (x, t) \<in> E \<Longrightarrow> (E ^^ n) `` {t} = {}"
  using relpow_Suc_I2 [of x t E _ n] by (auto simp del: relpow.simps)

lemma select_members_eq:
  "select_relations db (Some (One x)) None (Some (One c)) =
     Inr (filter (\<lambda>r. source_id r = x \<and> relationship_id r = c) (relation_rows db))"
  by (simp add: select_relations_def)

text \<open>A row whose target is not a role leads no further.\<close>

lemma row_target:
  assumes "consistent C db" "hierarchy C db" "r \<in> set (relation_rows db)" "relationship_id r = hostpolicy_contains C"
  shows "(source_id r, target_id r) \<in> policy_edges db (hostpolicy_contains C)"
    "target_entity_type r \<noteq> entity_hostpolicy_role C \<Longrightarrow> (target_id r, y) \<notin> (policy_edges db (hostpolicy_contains C))\<^sup>+"
proof -
  show "(source_id r, target_id r) \<in> policy_edges db (hostpolicy_contains C)" using assms(3,4) by (auto simp: relation_row_iff policy_edges_def)
  have "map_of (hp_entity_info db) (target_id r) = Some (target_entity_type r)"
    using assms(1,3) by (auto simp: relation_row_iff consistent_def components_ok_def)
  then show "(target_id r, y) \<notin> (policy_edges db (hostpolicy_contains C))\<^sup>+" if "target_entity_type r \<noteq> entity_hostpolicy_role C"
    using that assms(2) by (auto simp: hierarchy_def policy_edges_def dest!: tranclD)
qed

lemma concat_res_ok: "(\<And>x. x \<in> set xs \<Longrightarrow> f x = Inr (g x)) \<Longrightarrow> concat_res (map f xs) = Inr (concat (map g xs))"
  by (induction xs) auto

definition below_role :: "policy_const \<Rightarrow> policy_db \<Rightarrow> int \<Rightarrow> string set" where
  "below_role C db x = {n. \<exists>t d. (x, t) \<in> (policy_edges db (hostpolicy_contains C))\<^sup>+ \<and> (t, d, n) \<in> set (hp_name db)}"

lemma below_unfold:
  assumes "consistent C db"
  shows "below_role C db x = (\<Union>r \<in> {r \<in> set (relation_rows db). source_id r = x \<and> relationship_id r = hostpolicy_contains C}.
    insert (target_name r) (below_role C db (target_id r)))" (is "_ = ?rhs")
proof (rule set_eqI, rule iffI)
  let ?E = "policy_edges db (hostpolicy_contains C)"
  fix n
  assume "n \<in> below_role C db x"
  then obtain t d where t: "(x, t) \<in> ?E\<^sup>+" "(t, d, n) \<in> set (hp_name db)" by (auto simp: below_role_def)
  obtain z where "(x, z) \<in> ?E" "(z, t) \<in> ?E\<^sup>*" using tranclD [OF t(1)] by blast
  then have z: "(x, hostpolicy_contains C, z) \<in> set (hp_relationship db)" "z = t \<or> (z, t) \<in> ?E\<^sup>+"
    by (auto simp: policy_edges_def [of _ "hostpolicy_contains C"] rtrancl_eq_or_trancl)
  have "named db z" using assms z(1) consistent_named [OF assms] by (auto simp: consistent_def references_ok_def)
  then obtain d' n' where n': "(z, d', n') \<in> set (hp_name db)" "z = t \<longrightarrow> n' = n" using t(2) by (auto simp: named_def)
  obtain r where "r \<in> set (relation_rows db)" "source_id r = x" "relationship_id r = hostpolicy_contains C"
    "target_id r = z" "z = t \<longrightarrow> target_name r = n"
    using row_of_edge [OF assms z(1) n'(1)] n'(2) by blast
  then show "n \<in> ?rhs" using z(2) t(2) by (auto simp: below_role_def)
next
  fix n
  assume "n \<in> ?rhs"
  then obtain r where r: "r \<in> set (relation_rows db)" "source_id r = x" "relationship_id r = hostpolicy_contains C"
    "n = target_name r \<or> n \<in> below_role C db (target_id r)" by auto
  then have "(x, target_id r) \<in> policy_edges db (hostpolicy_contains C)" "\<exists>d. (target_id r, d, target_name r) \<in> set (hp_name db)"
    by (auto simp: relation_row_iff policy_edges_def)
  then show "n \<in> below_role C db x" using r(4) by (auto simp: below_role_def intro: trancl_into_trancl2)
qed

lemma get_members_exact:
  assumes "consistent C db" "hierarchy C db" "(policy_edges db (hostpolicy_contains C) ^^ n) `` {x} = {}"
  shows "\<exists>lines. get_members n C db x inc = Inr lines \<and> fst ` set lines = below_role C db x"
  using assms(3)
proof (induction n arbitrary: x inc)
  case (Suc n)
  let ?rows = "filter (\<lambda>r. source_id r = x \<and> relationship_id r = hostpolicy_contains C) (relation_rows db)"
  let ?f = "\<lambda>row. let is_role = (target_entity_type row = entity_hostpolicy_role C);
      line = (target_name row, replicate inc (CHR '' '') @ (if is_role then ''R'' else ''A''))
      in if is_role then res_bind (get_members n C db (target_id row) (inc + 2)) (\<lambda>sub. Inr (line # sub)) else Inr [line]"
  have row: "\<exists>l. ?f r = Inr l \<and> fst ` set l = insert (target_name r) (below_role C db (target_id r))" if r: "r \<in> set ?rows" for r
  proof -
    have edge: "(x, target_id r) \<in> policy_edges db (hostpolicy_contains C)" using r row_target(1) [OF assms(1,2)] by auto
    from Suc.IH [OF path_from_member [OF Suc.prems edge], of "inc + 2"] obtain lines where
      lines: "get_members n C db (target_id r) (inc + 2) = Inr lines" "fst ` set lines = below_role C db (target_id r)" by blast
    have "below_role C db (target_id r) = {}" if "target_entity_type r \<noteq> entity_hostpolicy_role C"
      using row_target(2) [OF assms(1,2) _ _ that] r by (auto simp: below_role_def)
    then show ?thesis using lines by (cases "target_entity_type r = entity_hostpolicy_role C") (auto simp: Let_def)
  qed
  define g where "g r = projr (?f r)" for r :: relation_row
  have g: "?f r = Inr (g r)" "fst ` set (g r) = insert (target_name r) (below_role C db (target_id r))" if "r \<in> set ?rows" for r
    using row [OF that] unfolding g_def by (metis sum.sel(2))+
  have "get_members (Suc n) C db x inc = concat_res (map ?f (sort_key target_name ?rows))"
    by (simp only: get_members.simps select_members_eq res_bind_Inr)
  also have "\<dots> = Inr (concat (map g (sort_key target_name ?rows)))" by (rule concat_res_ok) (use g(1) in simp)
  finally have lines: "get_members (Suc n) C db x inc = Inr (concat (map g (sort_key target_name ?rows)))" .
  have "fst ` set (concat (map g (sort_key target_name ?rows))) = (\<Union>r \<in> set ?rows. fst ` set (g r))" by auto
  also have "\<dots> = (\<Union>r \<in> set ?rows. insert (target_name r) (below_role C db (target_id r)))" using g(2) by simp
  also have "\<dots> = below_role C db x" using below_unfold [OF assms(1), of x] by (simp only: set_filter)
  finally have "fst ` set (concat (map g (sort_key target_name ?rows))) = below_role C db x" .
  with lines show ?case by (intro exI conjI)
qed simp

text \<open>
  Listing the members of a role returns once Python allows one more nested call than there are policies, and
  the names it lists are exactly those of the direct and indirect members.
\<close>

theorem list_members_exact:
  assumes "reachable (no_relations C) (policy_step C) db" "length (hp_component db) < limit"
    "get_component C Role role_id db = Inr (role, name)"
  shows "\<exists>lines. policy_list_members limit C True role_id db = Inr lines \<and> fst ` set lines = below_role C db (co_id role)"
proof -
  have ok: "consistent C db" "hierarchy C db" using policies.reachable_inv [OF assms(1)] by auto
  show ?thesis using get_members_exact [OF ok no_long_path [OF ok assms(2)]] assms(3) by (simp add: policy_list_members_def)
qed

section \<open>Giving a policy to a host\<close>

lemma for_each_uniform:
  "(\<And>x. x \<in> set xs \<Longrightarrow> f x = (if P x then Inl e else Inr ())) \<Longrightarrow> for_each f xs = (if \<exists>x \<in> set xs. P x then Inl e else Inr ())"
  by (induction xs) auto

lemma check_member_loop_exact:
  assumes "consistent C db" "hierarchy C db" "(policy_edges db (hostpolicy_contains C) ^^ n) `` {x} = {}"
  shows "check_member_loop n C db x c = (if (x, c) \<in> (policy_edges db (hostpolicy_contains C))\<^sup>+ then Inl BofhdError else Inr ())"
  using assms(3)
proof (induction n arbitrary: x)
  case (Suc n)
  let ?E = "policy_edges db (hostpolicy_contains C)"
  let ?rows = "filter (\<lambda>r. source_id r = x \<and> relationship_id r = hostpolicy_contains C) (relation_rows db)"
  let ?f = "\<lambda>row. if target_id row = c then Inl BofhdError
      else if target_entity_type row = entity_hostpolicy_role C then check_member_loop n C db (target_id row) c else Inr ()"
  have row: "?f r = (if target_id r = c \<or> (target_id r, c) \<in> ?E\<^sup>+ then Inl BofhdError else Inr ())" if r: "r \<in> set ?rows" for r
  proof -
    have edge: "(x, target_id r) \<in> ?E" using r row_target(1) [OF assms(1,2)] by auto
    show ?thesis
      using Suc.IH [OF path_from_member [OF Suc.prems edge]] row_target(2) [OF assms(1,2)] r by auto
  qed
  have "(\<exists>r \<in> set ?rows. target_id r = c \<or> (target_id r, c) \<in> ?E\<^sup>+) \<longleftrightarrow> (\<exists>t. (x, t) \<in> row_edges db (hostpolicy_contains C) \<and> (t, c) \<in> ?E\<^sup>*)"
    by (force simp: row_edges_def rtrancl_eq_or_trancl)
  also have "\<dots> \<longleftrightarrow> (x, c) \<in> ?E\<^sup>+"
    unfolding row_edges_eq [OF assms(1)] by (meson rtrancl_into_trancl2 tranclD)
  finally have found: "(\<exists>r \<in> set ?rows. target_id r = c \<or> (target_id r, c) \<in> ?E\<^sup>+) \<longleftrightarrow> (x, c) \<in> ?E\<^sup>+" .
  have "check_member_loop (Suc n) C db x c = for_each ?f ?rows"
    by (simp only: check_member_loop.simps select_members_eq res_bind_Inr)
  also have "\<dots> = (if \<exists>r \<in> set ?rows. target_id r = c \<or> (target_id r, c) \<in> ?E\<^sup>+ then Inl BofhdError else Inr ())"
    by (rule for_each_uniform [OF row])
  finally show ?case unfolding found .
qed simp

lemma hostpolicy_row_ids:
  assumes "consistent C db"
  shows "(\<lambda>r. (hr_dns_owner_id r, hr_policy_id r)) ` set (hostpolicy_rows db) = set (hp_host_policy db)"
proof (rule subset_antisym)
  show "(\<lambda>r. (hr_dns_owner_id r, hr_policy_id r)) ` set (hostpolicy_rows db) \<subseteq> set (hp_host_policy db)"
    by (auto simp: hostpolicy_rows_def)
  show "set (hp_host_policy db) \<subseteq> (\<lambda>r. (hr_dns_owner_id r, hr_policy_id r)) ` set (hostpolicy_rows db)"
  proof (rule subrelI)
    fix h p
    assume hp: "(h, p) \<in> set (hp_host_policy db)"
    then have ok: "h \<in> set (hp_dns_owner db)" "has_component db p" "named db h"
      using assms by (auto simp: consistent_def references_ok_def)
    obtain c where c: "c \<in> set (hp_component db)" "co_id c = p" using ok(2) by (auto simp: has_component_iff)
    obtain d1 n1 d2 n2 where n: "(h, d1, n1) \<in> set (hp_name db)" "(p, d2, n2) \<in> set (hp_name db)"
      using ok(3) consistent_named [OF assms ok(2)] by (auto simp: named_def)
    have "\<lparr>hr_entity_type = co_type c, hr_dns_owner_id = h, hr_dns_owner_name = n1, hr_policy_name = n2, hr_policy_id = p\<rparr>
      \<in> set (hostpolicy_rows db)" using hp ok(1) c n by (force simp: hostpolicy_rows_def)
    then show "(h, p) \<in> (\<lambda>r. (hr_dns_owner_id r, hr_policy_id r)) ` set (hostpolicy_rows db)" by (rule rev_image_eqI) simp
  qed
qed

text \<open>
  Giving a host a policy returns once Python allows enough nested calls. It is refused for an atom, and for a
  role that the host has already, directly or because a role of the host contains it through any chain of roles;
  any other role is attached to the host, and nothing else changes but the log.
\<close>

theorem host_policy_add_exact:
  assumes "reachable (no_relations C) (policy_step C) db" "length (hp_component db) < limit" "h \<in> set (hp_dns_owner db)"
    "get_component C PolicyComponent comp_id db = Inr (policy, name)"
  shows "host_policy_add limit C True (Inr h) comp_id db =
    (if co_type policy = entity_hostpolicy_atom C
        \<or> (\<exists>p. (h, p) \<in> set (hp_host_policy db) \<and> (p, co_id policy) \<in> (policy_edges db (hostpolicy_contains C))\<^sup>*)
     then Inl BofhdError
     else Inr (hp_log_change h ''hostpolicy_policy_add'' (Some (co_id policy))
            (db\<lparr>hp_host_policy := hp_host_policy db @ [(h, co_id policy)]\<rparr>)))"
proof -
  let ?E = "policy_edges db (hostpolicy_contains C)" and ?c = "co_id policy"
  have ok: "consistent C db" "hierarchy C db" using policies.reachable_inv [OF assms(1)] by auto
  have policy: "has_component db ?c" "co_type policy = entity_hostpolicy_atom C \<or> co_type policy = entity_hostpolicy_role C"
    using get_component_ok [OF ok(1) assms(4)] by (auto simp: component_ok_def)
  let ?rows = "filter (\<lambda>r. hr_dns_owner_id r = h) (hostpolicy_rows db)"
  have rows: "(\<exists>r \<in> set ?rows. Q (hr_policy_id r)) \<longleftrightarrow> (\<exists>p. (h, p) \<in> set (hp_host_policy db) \<and> Q p)" for Q
    unfolding hostpolicy_row_ids [OF ok(1), symmetric] by force
  have direct: "select_hostpolicies (\<lambda>_ _. True) db (Some (One ?c)) None (Some (One h)) None =
      Inr (filter (\<lambda>r. hr_policy_id r = ?c) ?rows)"
    by (simp add: select_hostpolicies_def conj_commute)
  have direct_empty: "filter (\<lambda>r. hr_policy_id r = ?c) ?rows = [] \<longleftrightarrow> (h, ?c) \<notin> set (hp_host_policy db)"
    using rows [of "\<lambda>p. p = ?c"] by (auto simp: filter_empty_conv)
  have hosts: "select_hostpolicies (\<lambda>_ _. True) db None None (Some (One h)) None = Inr ?rows"
    by (simp add: select_hostpolicies_def)
  have loop: "for_each (\<lambda>row. check_member_loop limit C db (hr_policy_id row) ?c) ?rows =
      (if \<exists>p. (h, p) \<in> set (hp_host_policy db) \<and> (p, ?c) \<in> ?E\<^sup>+ then Inl BofhdError else Inr ())"
    unfolding rows [symmetric]
    by (rule for_each_uniform) (rule check_member_loop_exact [OF ok no_long_path [OF ok assms(2)]])
  have star: "(\<exists>p. (h, p) \<in> set (hp_host_policy db) \<and> (p, ?c) \<in> ?E\<^sup>*) \<longleftrightarrow>
      (h, ?c) \<in> set (hp_host_policy db) \<or> (\<exists>p. (h, p) \<in> set (hp_host_policy db) \<and> (p, ?c) \<in> ?E\<^sup>+)"
    by (auto simp: rtrancl_eq_or_trancl)
  show ?thesis
    unfolding star host_policy_add_def assms(4) res_bind_Inr prod.case direct hosts loop
    using direct_empty policy assms(3) by (auto simp: add_to_host_def)
qed

section \<open>Examples\<close>

definition example_const :: policy_const where
  "example_const = \<lparr>entity_hostpolicy_atom = 1, entity_hostpolicy_role = 2, hostpolicy_contains = 3,
     hostpolicy_component_namespace = 4, names_deny_change = []\<rparr>"

text \<open>A host, entity 5, and no policies yet.\<close>

definition policy_example :: policy_db where
  "policy_example = \<lparr>hp_entity_info = [(5, 9)], hp_component = [], hp_name = [(5, 8, ''web'')], hp_rel_code = [(3, ''hostpol_contains'')],
     hp_relationship = [], hp_dns_owner = [5], hp_host_policy = [], hp_log = []\<rparr>"

definition after :: "policy_db res option \<Rightarrow> policy_db" where
  "after r = (case r of Some (Inr db) \<Rightarrow> db | _ \<Rightarrow> policy_example)"

text \<open>An atom a, entity 10, and a role r, entity 11.\<close>

definition two_policies :: policy_db where
  "two_policies = after (Some (res_bind (policy_atom_create example_const True 0 10 ''a'' ''x'' ''y'' (Inr None) policy_example)
     (policy_role_create example_const True 0 11 ''r'' ''x'' ''y'' (Inr None))))"

definition numbered_role :: policy_db where
  "numbered_role = after (policy_add_member example_const True ''10'' ''r'' two_policies)"

definition looped :: policy_db where
  "looped = after (policy_add_member example_const True ''r'' ''a'' numbered_role)"

lemma numbered_role_ok: "policy_add_member example_const True ''10'' ''r'' two_policies = Some (Inr numbered_role)"
  by code_simp

lemma looped_ok: "policy_add_member example_const True ''r'' ''a'' numbered_role = Some (Inr looped)"
  by code_simp

lemma looped_rows:
  "hp_relationship looped = [(10, 3, 11), (11, 3, 10)]"
  "select_relations looped None (Some (One 10)) (Some (One 3)) = Inr [\<lparr>source_entity_type = 2, target_entity_type = 1, source_name = ''r'',
     target_name = ''a'', relationship_str = ''hostpol_contains'', source_id = 11, target_id = 10, relationship_id = 3\<rparr>]"
  "select_relations looped None (Some (One 11)) (Some (One 3)) = Inr [\<lparr>source_entity_type = 1, target_entity_type = 2, source_name = ''a'',
     target_name = ''r'', relationship_str = ''hostpol_contains'', source_id = 10, target_id = 11, relationship_id = 3\<rparr>]"
  by code_simp+

lemma looped_parents:
  "get_parents n example_const looped 10 inc [] = Inl RuntimeError \<and> get_parents n example_const looped 11 inc [] = Inl RuntimeError"
  by (induction n arbitrary: inc) (simp_all add: example_const_def looped_rows)

text \<open>
  C39: a role that is to be given members is not checked to be a role when it is given by its number. Giving the
  atom with number 10 a role as a member, and that role the atom, are both accepted; the memberships then form a
  loop, and asking which policies have the atom as a member exhausts the stack of nested calls, however large.
\<close>

theorem numbered_role_makes_loop:
  "map_of (hp_entity_info two_policies) 10 = Some (entity_hostpolicy_atom example_const) \<and>
   policy_add_member example_const True ''10'' ''r'' two_policies = Some (Inr numbered_role) \<and>
   policy_add_member example_const True ''r'' ''a'' numbered_role = Some (Inr looped) \<and>
   \<not> acyclic (policy_edges looped (hostpolicy_contains example_const)) \<and>
   policy_has_member limit example_const True ''a'' looped = Inl RuntimeError"
proof -
  have "(10, 11) \<in> policy_edges looped 3" "(11, 10) \<in> policy_edges looped 3" by (simp_all add: policy_edges_def looped_rows)
  then have "(10, 10) \<in> (policy_edges looped 3)\<^sup>+" by (meson trancl.intros)
  then have "\<not> acyclic (policy_edges looped 3)" by (auto simp: acyclic_def)
  moreover have "\<exists>r n. get_component example_const PolicyComponent ''a'' looped = Inr (r, n) \<and> co_id r = 10"
  proof -
    have "find_component_by_name example_const ''a'' looped = find_component example_const 10 looped"
      "find_component example_const 10 looped = Inr (\<lparr>co_id = 10, co_type = 1, co_description = ''x'', co_foundation = ''y'', co_date = 0\<rparr>, ''a'')"
      by code_simp+
    then show ?thesis by (simp add: get_component_def py_isdigit_def is_digit_def)
  qed
  moreover have "map_of (hp_entity_info two_policies) 10 = Some (entity_hostpolicy_atom example_const)" by code_simp
  moreover have "hostpolicy_contains example_const = 3" by (simp add: example_const_def)
  ultimately show ?thesis using numbered_role_ok looped_ok looped_parents by (auto simp: policy_has_member_def)
qed

text \<open>The role r with the atom a as its member.\<close>

definition one_member :: policy_db where
  "one_member = after (policy_add_member example_const True ''r'' ''a'' two_policies)"

lemma one_member_ok: "policy_add_member example_const True ''r'' ''a'' two_policies = Some (Inr one_member)"
  by code_simp

lemma two_policies_reachable: "reachable (no_relations example_const) (policy_step example_const) two_policies"
proof -
  let ?db = "case policy_atom_create example_const True 0 10 ''a'' ''x'' ''y'' (Inr None) policy_example of Inr db \<Rightarrow> db | Inl _ \<Rightarrow> policy_example"
  have "consistent example_const policy_example"
    by (simp add: table_defs policy_example_def)
  then have "reachable (no_relations example_const) (policy_step example_const) policy_example"
    by (intro reachable_start) (simp add: no_relations_def policy_example_def)
  moreover have "policy_atom_create example_const True 0 10 ''a'' ''x'' ''y'' (Inr None) policy_example = Inr ?db" by code_simp
  moreover have "policy_role_create example_const True 0 11 ''r'' ''x'' ''y'' (Inr None) ?db = Inr two_policies" by code_simp
  ultimately show ?thesis using reachable_step step_atom_create step_role_create by metis
qed

lemma one_member_reachable: "reachable (no_relations example_const) (policy_step example_const) one_member"
  by (rule reachable_step [OF two_policies_reachable], rule step_add_member [OF one_member_ok])
    (simp add: py_isdigit_def is_digit_def)

theorem policies_consistent_witness:
  "reachable (no_relations example_const) (policy_step example_const) one_member \<and> (11, 10) \<in> policy_edges one_member 3 \<and>
   consistent example_const one_member \<and> acyclic (policy_edges one_member 3)"
proof -
  have "hp_relationship one_member = [(11, 3, 10)]" by code_simp
  then show ?thesis using policies_consistent [OF one_member_reachable] one_member_reachable
    by (simp add: policy_edges_def example_const_def)
qed

lemma one_member_role:
  "get_component example_const Role ''r'' one_member =
     Inr (\<lparr>co_id = 11, co_type = 2, co_description = ''x'', co_foundation = ''y'', co_date = 0\<rparr>, ''r'')"
  "get_component example_const PolicyComponent ''r'' one_member =
     Inr (\<lparr>co_id = 11, co_type = 2, co_description = ''x'', co_foundation = ''y'', co_date = 0\<rparr>, ''r'')"
  by code_simp+

theorem list_members_exact_witness:
  "length (hp_component one_member) < 3 \<and>
   policy_list_members 3 example_const True ''r'' one_member = Inr [(''a'', ''A'')] \<and> {''a''} = below_role example_const one_member 11"
proof -
  have limit: "length (hp_component one_member) < 3" by code_simp
  have "policy_list_members 3 example_const True ''r'' one_member = Inr [(''a'', ''A'')]" by code_simp
  then show ?thesis using list_members_exact [OF one_member_reachable limit one_member_role(1)] limit by simp
qed

theorem host_policy_add_exact_witness:
  "length (hp_component one_member) < 3 \<and> 5 \<in> set (hp_dns_owner one_member) \<and>
   host_policy_add 3 example_const True (Inr 5) ''r'' one_member =
     Inr (hp_log_change 5 ''hostpolicy_policy_add'' (Some 11) (one_member\<lparr>hp_host_policy := [(5, 11)]\<rparr>))"
proof -
  have limit: "length (hp_component one_member) < 3" by code_simp
  have host: "5 \<in> set (hp_dns_owner one_member)" by code_simp
  have "hp_host_policy one_member = []" by code_simp
  then show ?thesis
    using host_policy_add_exact [OF one_member_reachable limit host one_member_role(2)] limit host by (simp add: example_const_def)
qed

definition hosted :: policy_db where
  "hosted = after (Some (host_policy_add 3 example_const True (Inr 5) ''r'' one_member))"

lemma hosted_reachable: "reachable (no_relations example_const) (policy_step example_const) hosted"
proof -
  have "host_policy_add 3 example_const True (Inr 5) ''r'' one_member = Inr hosted" by code_simp
  then show ?thesis by (rule reachable_step [OF one_member_reachable step_host_add])
qed

text \<open>The host has the atom through the role.\<close>

theorem hostpolicies_indirect_exact_witness:
  "\<exists>rows. search_hostpolicies example_const (\<lambda>_ _. True) hosted (Some (One 10)) None None None True = Some (Inr rows) \<and>
     map hr_dns_owner_name rows = [''web''] \<and>
     rows = filter (\<lambda>r. \<exists>c \<in> start_set (One 10). (hr_policy_id r, c) \<in> (policy_edges hosted (hostpolicy_contains example_const))\<^sup>*)
       (hostpolicy_rows hosted)"
proof -
  have "consistent example_const hosted" using policies.reachable_inv [OF hosted_reachable] by simp
  moreover have "start_set (One 10) \<noteq> {}" "finite (start_set (One 10))" by (simp_all add: start_set_def)
  moreover have "search_hostpolicies example_const (\<lambda>_ _. True) hosted (Some (One 10)) None None None True = Some (Inr
    [\<lparr>hr_entity_type = 2, hr_dns_owner_id = 5, hr_dns_owner_name = ''web'', hr_policy_name = ''r'', hr_policy_id = 11\<rparr>])"
    by code_simp
  ultimately show ?thesis using hostpolicies_indirect_exact [of example_const hosted "One 10" "\<lambda>_ _. True"] by simp
qed

end
