(* ===== verification/Event_Merge.thy ===== *)
theory Event_Merge
  imports Cere_Prelude "HOL-Library.Multiset"
begin

text \<open>
  Merging the events of a transaction before they are stored: \<^verbatim>\<open>src/Cerebrum/modules/event_publisher/event.py\<close>. A
  reference to an entity compares equal to another by its entity id, but the class defines neither \<^verbatim>\<open>__ne__\<close> nor
  \<^verbatim>\<open>__hash__\<close>, so in Python 2 the operator \<^verbatim>\<open>!=\<close> and dictionaries go by the identity of the object: the field
  \<open>ref_obj\<close>. Times are integers.

  Shown: the loop of \<^verbatim>\<open>merge_list\<close> ends; the events of different subjects do not influence each other, and no event
  is made up; a deletion absorbs everything else, a creation what was added to it; and references made for each
  change anew, as \<^verbatim>\<open>get_entity_ref\<close> makes them, are never merged.
\<close>

section \<open>Events\<close>

datatype event_type = ADD | CREATE | ACTIVATE | MODIFY | DEACTIVATE | DELETE | REMOVE | PASSWORD | JOIN

record entity_ref =
  ref_obj :: nat
  ref_entity_id :: int
  ref_type :: "string option"
  ref_ident :: string

record event =
  event_type :: event_type
  subject :: "entity_ref option"
  objects :: "entity_ref set"
  event_context :: "string set"
  attributes :: "string set"
  timestamp :: "int option"
  scheduled :: "int option"

definition subject_key :: "event \<Rightarrow> nat option" where
  "subject_key e = map_option ref_obj (subject e)"

definition mergeable :: "event \<Rightarrow> event \<Rightarrow> bool" where
  "mergeable self other =
     (if scheduled self \<noteq> None then False
      else if subject_key self \<noteq> subject_key other then False
      else if event_type self = CREATE then event_type other \<notin> {DEACTIVATE, REMOVE}
      else if event_type self = DELETE then event_type other \<in> {REMOVE, DEACTIVATE, ADD, ACTIVATE, MODIFY, PASSWORD}
      else if event_type self = event_type other \<and> event_type self \<in> {ADD, REMOVE, ACTIVATE, DEACTIVATE} then True
      else if event_context self \<noteq> event_context other then False
      else True)"

text \<open>
  The list \<^verbatim>\<open>merge\<close> returns: both events, none, the first with what it took over, or the other one only. The list
  \<^verbatim>\<open>[self]\<close> holds the object the method was called on, which the caller tells apart by identity.
\<close>

datatype merge_result = Both | Neither | Self event | Other

definition ret_self :: "event \<Rightarrow> event \<Rightarrow> merge_result" where
  "ret_self self other = Self (self\<lparr>objects := objects self \<union> objects other\<rparr>)"

definition merge :: "event \<Rightarrow> event \<Rightarrow> merge_result" where
  "merge self other =
     (if \<not> mergeable self other then Both
      else if event_type self = CREATE then
        (case event_type other of
           DELETE \<Rightarrow> Neither
         | ADD \<Rightarrow> ret_self (self\<lparr>event_context := event_context self \<union> event_context other\<rparr>) other
         | ACTIVATE \<Rightarrow> ret_self self other
         | MODIFY \<Rightarrow> ret_self (self\<lparr>attributes := attributes self \<union> attributes other\<rparr>) other
         | PASSWORD \<Rightarrow> ret_self (self\<lparr>attributes := insert ''password'' (attributes self)\<rparr>) other
         | _ \<Rightarrow> Both)
      else if event_type self = DELETE then ret_self self other
      else if event_type other = DELETE then Other
      else if event_type self = ACTIVATE \<and> event_type other = DEACTIVATE \<and> event_context self = event_context other then Neither
      else if event_type self = ADD \<and> event_type other = REMOVE \<and> event_context self = event_context other then Neither
      else if event_type self = event_type other then
        (if event_type self \<in> {ADD, REMOVE, ACTIVATE, DEACTIVATE}
         then ret_self (self\<lparr>event_context := event_context self \<union> event_context other\<rparr>) other
         else if event_context self \<noteq> event_context other then Both
         else ret_self (self\<lparr>attributes := attributes self \<union> attributes other\<rparr>) other)
      else Both)"

section \<open>Merging a list\<close>

lemma append_tail_length: "xs @ ys = c # cs \<Longrightarrow> Suc (length cs) = length xs + length ys"
  by (metis length_Cons length_append)

text \<open>\<^verbatim>\<open>merge_list\<close>: one call of the function is one round of the loop.\<close>

function merge_list :: "event list \<Rightarrow> event list \<Rightarrow> event \<Rightarrow> event list \<Rightarrow> event list" where
  "merge_list finished merged current (r # rest) =
     (case merge current r of
        Neither \<Rightarrow> (case merged @ rest of [] \<Rightarrow> finished | c # cs \<Rightarrow> merge_list finished [] c cs)
      | Self current' \<Rightarrow> merge_list finished merged current' rest
      | Other \<Rightarrow> (case merged @ r # rest of [] \<Rightarrow> finished | c # cs \<Rightarrow> merge_list finished [] c cs)
      | Both \<Rightarrow> merge_list finished (merged @ [r]) current rest)"
| "merge_list finished (m # merged) current [] = merge_list (finished @ [current]) [] m merged"
| "merge_list finished [] current [] = finished @ [current]"
  by pat_completeness auto

termination
  by (relation "measures [\<lambda>(_, merged, _, rest). length merged + length rest, \<lambda>(_, _, _, rest). length rest]")
    (auto dest!: append_tail_length)

definition event_order :: "event_type list" where
  "event_order = [CREATE, DELETE, ADD, ACTIVATE, MODIFY, PASSWORD, DEACTIVATE, REMOVE, JOIN]"

definition canonical_order :: "event list \<Rightarrow> event list" where
  "canonical_order events = concat (map (\<lambda>t. filter (\<lambda>e. event_type e = t) events) event_order)"

definition by_subject :: "event list \<Rightarrow> (nat option \<times> event list) list" where
  "by_subject events = fold (\<lambda>p result.
     case map_of result (subject_key p) of
       None \<Rightarrow> dict_set (subject_key p) [p] result
     | Some l \<Rightarrow> dict_set (subject_key p) (l @ [p]) result) events []"

fun merge_subject :: "event list \<Rightarrow> event list" where
  "merge_subject [] = []"
| "merge_subject (e # es) = merge_list [] [] e es"

text \<open>In which order Python 2 iterates over the dictionary \<^verbatim>\<open>result\<close> is not specified: the parameter \<open>items\<close>.\<close>

definition any_order :: "('a list \<Rightarrow> 'a list) \<Rightarrow> bool" where
  "any_order items \<longleftrightarrow> (\<forall>d. mset (items d) = mset d)"

definition merge_events ::
    "((nat option \<times> event list) list \<Rightarrow> (nat option \<times> event list) list) \<Rightarrow> event list \<Rightarrow> event list" where
  "merge_events items events = concat (map (\<lambda>(_, lst). merge_subject lst) (items (by_subject (canonical_order events))))"

section \<open>Sorting and grouping\<close>

lemma canonical_all: "t \<in> set event_order"
  by (cases t) (simp_all add: event_order_def)

lemma canonical_mset [simp]: "mset (canonical_order es) = mset es"
proof (induction es)
  case Nil
  then show ?case by (simp add: canonical_order_def event_order_def)
next
  case (Cons e es)
  have "mset (canonical_order (e # es)) = add_mset e (mset (canonical_order es))"
    by (cases "event_type e") (simp_all add: canonical_order_def event_order_def)
  then show ?case using Cons.IH by simp
qed

lemma canonical_set [simp]: "set (canonical_order es) = set es"
  by (metis canonical_mset set_mset_mset)

lemma canonical_filter: "canonical_order (filter P es) = filter P (canonical_order es)"
  by (simp add: canonical_order_def filter_concat o_def conj_commute)

lemma by_subject_snoc:
  "by_subject (es @ [e]) = dict_set (subject_key e)
     ((case map_of (by_subject es) (subject_key e) of None \<Rightarrow> [] | Some l \<Rightarrow> l) @ [e]) (by_subject es)"
  by (simp add: by_subject_def split: option.splits)

lemma by_subject_Nil [simp]: "by_subject [] = []"
  by (simp add: by_subject_def)

lemma by_subject_distinct: "distinct (keys (by_subject es))"
  by (induction es rule: rev_induct) (simp_all add: by_subject_snoc)

lemma by_subject_map_of:
  "map_of (by_subject es) k = (let l = filter (\<lambda>e. subject_key e = k) es in if l = [] then None else Some l)"
  by (induction es rule: rev_induct) (auto simp: by_subject_snoc Let_def)

lemma by_subject_in: "(k, l) \<in> set (by_subject es) \<Longrightarrow> l = filter (\<lambda>e. subject_key e = k) es \<and> l \<noteq> []"
  using map_of_is_SomeI [OF by_subject_distinct] by (fastforce simp: by_subject_map_of Let_def split: if_splits)

lemma any_order_dict:
  fixes d :: "('k \<times> 'v) list"
  assumes "any_order items" "distinct (keys d)"
  shows "set (items d) = set d \<and> distinct (keys (items d)) \<and> map_of (items d) = map_of d"
proof -
  have m: "mset (items d) = mset d" using assms(1) by (simp add: any_order_def)
  then have "mset (keys (items d)) = mset (keys d)" by (metis mset_map)
  then have d: "distinct (keys (items d))" using assms(2) mset_eq_imp_distinct_iff by blast
  moreover have "set (items d) = set d" using m by (rule mset_eq_setD)
  ultimately show ?thesis using assms(2) map_of_inject_set by blast
qed

section \<open>What merging preserves\<close>

text \<open>A property that merging two events keeps holds of every event of the result.\<close>

definition merge_closed :: "(event \<Rightarrow> bool) \<Rightarrow> bool" where
  "merge_closed P \<longleftrightarrow> (\<forall>a b c. P a \<longrightarrow> P b \<longrightarrow> merge a b = Self c \<longrightarrow> P c)"

lemma merge_list_all:
  "merge_closed P \<Longrightarrow> list_all P finished \<Longrightarrow> list_all P merged \<Longrightarrow> P current \<Longrightarrow> list_all P rest
    \<Longrightarrow> list_all P (merge_list finished merged current rest)"
proof (induction finished merged current rest rule: merge_list.induct)
  case (1 finished merged current r rest)
  note IH = 1(1-4) and ok = 1(5-)
  show ?case
  proof (cases "merge current r")
    case Both
    then show ?thesis using IH(1) ok by simp
  next
    case Neither
    have "list_all P (merged @ rest)" using ok by simp
    then show ?thesis using Neither IH(2) ok by (cases "merged @ rest") simp_all
  next
    case (Self c)
    have "P r" using ok(5) by simp
    then have "P c" using ok(1,4) Self unfolding merge_closed_def by blast
    then show ?thesis using Self IH(3) ok by simp
  next
    case Other
    have "list_all P (merged @ r # rest)" using ok by simp
    then show ?thesis using Other IH(4) ok by (cases "merged @ r # rest") simp_all
  qed
qed simp_all

lemma merge_subject_all: "merge_closed P \<Longrightarrow> list_all P es \<Longrightarrow> list_all P (merge_subject es)"
  by (cases es) (simp_all add: merge_list_all)

lemma merge_Self:
  assumes "merge a b = Self c"
  shows "event_type c = event_type a \<and> subject c = subject a \<and> scheduled c = scheduled a \<and> timestamp c = timestamp a \<and>
    objects c = objects a \<union> objects b \<and> subject_key a = subject_key b"
proof -
  have "mergeable a b" using assms by (auto simp: merge_def split: if_splits)
  then have "subject_key a = subject_key b" by (auto simp: mergeable_def split: if_splits)
  then show ?thesis using assms by (auto simp: merge_def ret_self_def split: if_splits event_type.splits)
qed

lemma merge_subject_key:
  assumes "\<forall>e \<in> set es. subject_key e = k" "e \<in> set (merge_subject es)"
  shows "subject_key e = k"
proof -
  have "merge_closed (\<lambda>e. subject_key e = k)" unfolding merge_closed_def subject_key_def using merge_Self by metis
  from merge_subject_all [OF this, of es] show ?thesis using assms by (simp add: list_all_iff)
qed

lemma concat_one_key:
  "distinct (keys d) \<Longrightarrow> concat (map (\<lambda>(k', l). if k' = k then f l else []) d) = (case map_of d k of None \<Rightarrow> [] | Some l \<Rightarrow> f l)"
proof (induction d)
  case (Cons p d)
  obtain k' l where p: "p = (k', l)" by (cases p)
  have "map_of d k = None" if "k' = k" using Cons.prems that by (auto simp: p map_of_eq_None_iff)
  then show ?case using Cons by (auto simp: p)
qed simp

lemma merge_events_of_subject:
  assumes "any_order items"
  shows "filter (\<lambda>e. subject_key e = k) (merge_events items es) = merge_subject (filter (\<lambda>e. subject_key e = k) (canonical_order es))"
proof -
  let ?b = "by_subject (canonical_order es)"
  let ?d = "items ?b"
  note d = any_order_dict [OF assms by_subject_distinct [of "canonical_order es"]]
  have one: "filter (\<lambda>e. subject_key e = k) (merge_subject l) = (if k' = k then merge_subject l else [])" if "(k', l) \<in> set ?d" for k' l
  proof -
    have "\<forall>e \<in> set l. subject_key e = k'" using by_subject_in [of k' l "canonical_order es"] that d by simp
    then have "subject_key e = k'" if "e \<in> set (merge_subject l)" for e using merge_subject_key that by blast
    then show ?thesis by (auto simp: filter_id_conv filter_empty_conv)
  qed
  have "filter (\<lambda>e. subject_key e = k) (merge_events items es) = concat (map (\<lambda>(k', l). if k' = k then merge_subject l else []) ?d)"
    unfolding merge_events_def filter_concat map_map
    by (rule arg_cong [where f = concat], rule map_cong [OF refl]) (use one in \<open>auto simp: case_prod_unfold\<close>)
  also have "\<dots> = merge_subject (filter (\<lambda>e. subject_key e = k) (canonical_order es))"
    using concat_one_key [of ?d k merge_subject] d by (simp add: by_subject_map_of Let_def)
  finally show ?thesis .
qed

lemma merge_events_one_subject:
  assumes "\<forall>e \<in> set es. subject_key e = k" "any_order items"
  shows "merge_events items es = merge_subject (canonical_order es)"
proof -
  have "subject_key e = k" if e: "e \<in> set (merge_events items es)" for e
  proof -
    obtain k' l where l: "(k', l) \<in> set (by_subject (canonical_order es))" "e \<in> set (merge_subject l)"
      using e any_order_dict [OF assms(2) by_subject_distinct [of "canonical_order es"]] by (auto simp: merge_events_def)
    then have "set l \<subseteq> set es" "\<forall>e \<in> set l. subject_key e = k'" using by_subject_in [OF l(1)] by auto
    then have "\<forall>e \<in> set l. subject_key e = k" using assms(1) by blast
    then show ?thesis using merge_subject_key [OF _ l(2)] by blast
  qed
  then have "filter (\<lambda>e. subject_key e = k) (merge_events items es) = merge_events items es" by (simp add: filter_id_conv)
  moreover have "filter (\<lambda>e. subject_key e = k) (canonical_order es) = canonical_order es" using assms(1) by (simp add: filter_id_conv)
  ultimately show ?thesis using merge_events_of_subject [OF assms(2), of k es] by simp
qed

text \<open>
  C15: the events of one subject are merged as if there were no others, and merging makes up nothing: every
  resulting event is one of the given events of its subject, with more objects at most, all of them objects of
  events of that subject.
\<close>

theorem merge_events_local:
  assumes "any_order items"
  shows "filter (\<lambda>e. subject_key e = k) (merge_events items es) = merge_events items (filter (\<lambda>e. subject_key e = k) es) \<and>
   (\<forall>e \<in> set (merge_events items es). \<exists>e0 \<in> set es.
      event_type e = event_type e0 \<and> subject e = subject e0 \<and> scheduled e = scheduled e0 \<and> timestamp e = timestamp e0 \<and>
      objects e0 \<subseteq> objects e \<and> objects e \<subseteq> (\<Union>f \<in> {f \<in> set es. subject_key f = subject_key e}. objects f))"
proof (intro conjI ballI)
  have "merge_events items (filter (\<lambda>e. subject_key e = k) es) = merge_subject (canonical_order (filter (\<lambda>e. subject_key e = k) es))"
    by (rule merge_events_one_subject [where k = k]) (simp_all add: assms)
  then show "filter (\<lambda>e. subject_key e = k) (merge_events items es) = merge_events items (filter (\<lambda>e. subject_key e = k) es)"
    by (simp add: merge_events_of_subject [OF assms] canonical_filter)
next
  fix e
  assume e: "e \<in> set (merge_events items es)"
  let ?S = "{f \<in> set es. subject_key f = subject_key e}"
  let ?P = "\<lambda>x. \<exists>e0 \<in> ?S. event_type x = event_type e0 \<and> subject x = subject e0 \<and> scheduled x = scheduled e0 \<and>
      timestamp x = timestamp e0 \<and> objects e0 \<subseteq> objects x \<and> objects x \<subseteq> (\<Union>f \<in> ?S. objects f)"
  have "e \<in> set (filter (\<lambda>x. subject_key x = subject_key e) (merge_events items es))" using e by simp
  then have out: "e \<in> set (merge_subject (filter (\<lambda>x. subject_key x = subject_key e) (canonical_order es)))"
    by (simp only: merge_events_of_subject [OF assms])
  have closed: "merge_closed ?P" unfolding merge_closed_def using merge_Self by (smt (verit) le_sup_iff le_supI1)
  have "list_all ?P (filter (\<lambda>x. subject_key x = subject_key e) (canonical_order es))" by (auto simp: list_all_iff)
  from merge_subject_all [OF closed this] have "?P e" using out unfolding list_all_iff by (rule bspec)
  then show "\<exists>e0 \<in> set es. event_type e = event_type e0 \<and> subject e = subject e0 \<and> scheduled e = scheduled e0 \<and>
      timestamp e = timestamp e0 \<and> objects e0 \<subseteq> objects e \<and> objects e \<subseteq> (\<Union>f \<in> ?S. objects f)" by blast
qed

section \<open>Deletions and creations\<close>

lemma merge_list_delete:
  assumes "event_type d = DELETE" "scheduled d = None"
  shows "\<forall>e \<in> set rest. subject_key e = subject_key d \<and> event_type e \<in> {REMOVE, DEACTIVATE, ADD, ACTIVATE, MODIFY, PASSWORD} \<Longrightarrow>
    merge_list [] [] d rest = [d\<lparr>objects := objects d \<union> (\<Union>e \<in> set rest. objects e)\<rparr>]"
  using assms
proof (induction rest arbitrary: d)
  case (Cons e rest)
  have "merge d e = Self (d\<lparr>objects := objects d \<union> objects e\<rparr>)"
    using Cons.prems by (auto simp: merge_def mergeable_def ret_self_def)
  then show ?case using Cons by (simp add: subject_key_def Un_assoc)
qed simp

text \<open>The types a list has none of do not matter for its order.\<close>

lemma canonical_delete:
  assumes "filter (\<lambda>e. event_type e = DELETE) es = [d]" "\<forall>e \<in> set es. event_type e \<notin> {CREATE, JOIN}"
  shows "\<exists>rest. canonical_order es = d # rest \<and> (\<forall>e \<in> set rest. e \<in> set es \<and> event_type e \<in> {REMOVE, DEACTIVATE, ADD, ACTIVATE, MODIFY, PASSWORD})"
proof -
  have "filter (\<lambda>e. event_type e = CREATE) es = []" "filter (\<lambda>e. event_type e = JOIN) es = []"
    using assms(2) by (auto simp: filter_empty_conv)
  then show ?thesis using assms(1) by (auto simp: canonical_order_def event_order_def)
qed

text \<open>
  Of the events of one subject, a deletion that is not scheduled absorbs all additions, removals, activations,
  modifications and changes of password, in whatever order they came: the deletion remains, with all their objects.
\<close>

theorem delete_absorbs:
  assumes "\<forall>e \<in> set es. subject_key e = k \<and> event_type e \<notin> {CREATE, JOIN}"
    "filter (\<lambda>e. event_type e = DELETE) es = [d]" "scheduled d = None" "any_order items"
  shows "merge_events items es = [d\<lparr>objects := (\<Union>e \<in> set es. objects e)\<rparr>]"
proof -
  obtain rest where rest: "canonical_order es = d # rest"
    "\<forall>e \<in> set rest. e \<in> set es \<and> event_type e \<in> {REMOVE, DEACTIVATE, ADD, ACTIVATE, MODIFY, PASSWORD}"
    using canonical_delete [OF assms(2)] assms(1) by blast
  have d: "d \<in> set es" "event_type d = DELETE" using assms(2) by (auto simp: filter_eq_Cons_iff)
  have "\<forall>e \<in> set rest. subject_key e = subject_key d \<and> event_type e \<in> {REMOVE, DEACTIVATE, ADD, ACTIVATE, MODIFY, PASSWORD}"
    using rest(2) assms(1) d(1) by auto
  from merge_list_delete [OF d(2) assms(3) this] have "merge_subject (canonical_order es) = [d\<lparr>objects := objects d \<union> (\<Union>e \<in> set rest. objects e)\<rparr>]"
    by (simp add: rest(1))
  moreover have "set es = insert d (set rest)" using rest(1) by (metis canonical_set list.simps(15))
  moreover have "merge_events items es = merge_subject (canonical_order es)" by (rule merge_events_one_subject [OF _ assms(4)]) (use assms(1) in auto)
  ultimately show ?thesis by simp
qed

definition of_type :: "event_type \<Rightarrow> event list \<Rightarrow> event set" where
  "of_type t es = {e \<in> set es. event_type e = t}"

lemma of_type_simps [simp]:
  "of_type t [] = {}" "of_type t (e # es) = (if event_type e = t then insert e (of_type t es) else of_type t es)"
  by (auto simp: of_type_def)

definition grown :: "event \<Rightarrow> event list \<Rightarrow> event" where
  "grown c es = c\<lparr>objects := objects c \<union> (\<Union>e \<in> set es. objects e),
      event_context := event_context c \<union> (\<Union>e \<in> of_type ADD es. event_context e),
      attributes := attributes c \<union> (\<Union>e \<in> of_type MODIFY es. attributes e)
        \<union> (if of_type PASSWORD es = {} then {} else {''password''})\<rparr>"

lemma merge_create:
  assumes "event_type c = CREATE" "scheduled c = None" "subject_key e = subject_key c" "event_type e \<in> {ADD, ACTIVATE, MODIFY, PASSWORD}"
  shows "merge c e = Self (grown c [e])"
proof -
  have "mergeable c e" using assms by (auto simp: mergeable_def)
  then show ?thesis
    using assms(1,4) by (cases c, cases "event_type e") (simp_all add: merge_def ret_self_def grown_def)
qed

lemma grown_Cons: "grown (grown c [e]) es = grown c (e # es)"
  by (intro event.equality) (auto simp: grown_def)

lemma merge_list_create:
  "event_type c = CREATE \<Longrightarrow> scheduled c = None \<Longrightarrow>
    \<forall>e \<in> set rest. subject_key e = subject_key c \<and> event_type e \<in> {ADD, ACTIVATE, MODIFY, PASSWORD} \<Longrightarrow>
    merge_list [] [] c rest = [grown c rest]"
proof (induction rest arbitrary: c)
  case (Cons e rest)
  have "event_type (grown c [e]) = CREATE" "scheduled (grown c [e]) = None" "subject_key (grown c [e]) = subject_key c"
    using Cons.prems by (simp_all add: grown_def subject_key_def)
  then have "merge_list [] [] (grown c [e]) rest = [grown c (e # rest)]" using Cons.IH [of "grown c [e]"] Cons.prems by (simp add: grown_Cons)
  moreover have "merge c e = Self (grown c [e])" using Cons.prems by (intro merge_create) auto
  ultimately show ?case by simp
qed (simp add: grown_def)

text \<open>
  Of the events of one subject, a creation that is not scheduled absorbs additions, activations, modifications
  and changes of password: it takes over all objects, the contexts of the additions and the attributes of the
  modifications, and the attribute \<^verbatim>\<open>password\<close> when the password was changed.
\<close>

theorem create_absorbs:
  assumes "\<forall>e \<in> set es. subject_key e = k \<and> event_type e \<in> {CREATE, ADD, ACTIVATE, MODIFY, PASSWORD}"
    "filter (\<lambda>e. event_type e = CREATE) es = [c]" "scheduled c = None" "any_order items"
  shows "merge_events items es = [c\<lparr>objects := (\<Union>e \<in> set es. objects e),
      event_context := event_context c \<union> (\<Union>e \<in> of_type ADD es. event_context e),
      attributes := attributes c \<union> (\<Union>e \<in> of_type MODIFY es. attributes e)
        \<union> (if of_type PASSWORD es = {} then {} else {''password''})\<rparr>]"
proof -
  have none: "filter (\<lambda>e. event_type e = t) es = []" if "t \<in> {DELETE, DEACTIVATE, REMOVE, JOIN}" for t
    using assms(1) that by (auto simp: filter_empty_conv)
  obtain rest where rest: "canonical_order es = c # rest" "\<forall>e \<in> set rest. e \<in> set es \<and> event_type e \<in> {ADD, ACTIVATE, MODIFY, PASSWORD}"
    using assms(2) none by (auto simp: canonical_order_def event_order_def)
  have c: "c \<in> set es" "event_type c = CREATE" using assms(2) by (auto simp: filter_eq_Cons_iff)
  have "\<forall>e \<in> set rest. subject_key e = subject_key c \<and> event_type e \<in> {ADD, ACTIVATE, MODIFY, PASSWORD}"
    using rest(2) assms(1) c(1) by auto
  note merged = merge_list_create [OF c(2) assms(3) this]
  have es: "set es = insert c (set rest)" using rest(1) by (metis canonical_set list.simps(15))
  then have "of_type t es = of_type t rest" if "t \<noteq> CREATE" for t using that c(2) by (auto simp: of_type_def)
  moreover have "merge_events items es = merge_list [] [] c rest"
    using merge_events_one_subject [of es k items] assms(1,4) rest(1) by auto
  ultimately show ?thesis using merged es by (simp add: grown_def)
qed

section \<open>What is not merged, and what is lost\<close>

lemma by_subject_distinct_keys: "distinct (map subject_key es) \<Longrightarrow> by_subject es = map (\<lambda>e. (subject_key e, [e])) es"
proof (induction es rule: rev_induct)
  case (snoc e es)
  then have new: "subject_key e \<notin> set (keys (map (\<lambda>e. (subject_key e, [e])) es))" and "by_subject es = map (\<lambda>e. (subject_key e, [e])) es"
    by auto
  moreover have "map_of (map (\<lambda>e. (subject_key e, [e])) es) (subject_key e) = None"
    using new unfolding map_of_eq_None_iff set_map .
  ultimately show ?case by (simp only: by_subject_snoc option.case append_Nil dict_set_new [OF new] map_append list.map)
qed simp

text \<open>
  Events whose subjects are different objects are never merged, even if the objects refer to the same entity:
  every event stays as it was. The event log looks up the subject of every change anew.
\<close>

theorem fresh_references_not_merged:
  assumes "distinct (map subject_key es)" "any_order items"
  shows "mset (merge_events items es) = mset es"
proof -
  let ?b = "by_subject (canonical_order es)"
  have "mset (map subject_key (canonical_order es)) = mset (map subject_key es)" by simp
  then have "distinct (map subject_key (canonical_order es))" using assms(1) mset_eq_imp_distinct_iff by blast
  then have b: "?b = map (\<lambda>e. (subject_key e, [e])) (canonical_order es)" by (rule by_subject_distinct_keys)
  have "mset (merge_events items es) = (\<Sum>p \<in># mset (items ?b). mset (merge_subject (snd p)))"
    by (simp add: merge_events_def mset_concat case_prod_unfold comp_def flip: sum_mset_sum_list)
  also have "\<dots> = (\<Sum>p \<in># mset ?b. mset (merge_subject (snd p)))" using assms(2) by (simp add: any_order_def)
  also have "\<dots> = mset es" by (simp add: b image_mset.compositionality comp_def)
  finally show ?thesis .
qed

text \<open>
  An event that is scheduled for later is merged into an earlier addition to the same subject that is not
  scheduled, and its schedule is lost; and when a subject is created and deleted, both events go, but an addition
  to it stays behind.
\<close>

theorem merging_loses:
  assumes "subject_key a = k" "subject_key b = k" "subject_key c = k" "subject_key d = k"
    "event_type a = ADD" "event_type b = ADD" "event_type c = CREATE" "event_type d = DELETE"
    "scheduled a = None" "scheduled b = Some later" "scheduled c = None" "any_order items"
  shows "map scheduled (merge_events items [a, b]) = [None] \<and> merge_events items [c, a, d] = [a]"
proof
  have "merge a b = Self (a\<lparr>event_context := event_context a \<union> event_context b, objects := objects a \<union> objects b\<rparr>)"
    using assms by (simp add: merge_def mergeable_def ret_self_def)
  moreover have "merge_events items [a, b] = merge_list [] [] a [b]"
    using merge_events_one_subject [of "[a, b]" k items] assms by (simp add: canonical_order_def event_order_def)
  ultimately show "map scheduled (merge_events items [a, b]) = [None]" using assms(9) by simp
  have "merge c d = Neither" using assms by (simp add: merge_def mergeable_def)
  moreover have "merge_events items [c, a, d] = merge_list [] [] c [d, a]"
    using merge_events_one_subject [of "[c, a, d]" k items] assms by (simp add: canonical_order_def event_order_def)
  ultimately show "merge_events items [c, a, d] = [a]" by simp
qed

section \<open>Examples\<close>

definition ref :: "nat \<Rightarrow> entity_ref" where
  "ref n = \<lparr>ref_obj = n, ref_entity_id = 7, ref_type = Some ''account'', ref_ident = ''bob''\<rparr>"

definition plain :: "event_type \<Rightarrow> nat \<Rightarrow> event" where
  "plain t n = \<lparr>event_type = t, subject = Some (ref n), objects = {}, event_context = {''AD''}, attributes = {}, timestamp = None, scheduled = None\<rparr>"

lemma any_order_rev [simp]: "any_order rev"
  by (simp add: any_order_def)

theorem merge_events_local_witness:
  "filter (\<lambda>e. subject_key e = Some 1) (merge_events rev [plain MODIFY 1, plain ADD 2, plain MODIFY 1]) = [plain MODIFY 1] \<and>
   merge_events rev [plain MODIFY 1, plain MODIFY 1] = [plain MODIFY 1]"
proof -
  have "merge_events rev [plain MODIFY 1, plain MODIFY 1] = [plain MODIFY 1]"
    using merge_events_one_subject [of "[plain MODIFY 1, plain MODIFY 1]" "Some 1" rev]
    by (simp add: canonical_order_def event_order_def plain_def ref_def subject_key_def merge_def mergeable_def ret_self_def)
  then show ?thesis
    using merge_events_local [OF any_order_rev, of "Some 1" "[plain MODIFY 1, plain ADD 2, plain MODIFY 1]"]
    by (simp add: plain_def ref_def subject_key_def)
qed

theorem delete_absorbs_witness:
  "merge_events rev [plain ADD 1, plain DELETE 1, plain MODIFY 1] = [plain DELETE 1]"
proof -
  have "\<forall>e \<in> set [plain ADD 1, plain DELETE 1, plain MODIFY 1]. subject_key e = Some 1 \<and> event_type e \<notin> {CREATE, JOIN}"
    by (simp add: plain_def ref_def subject_key_def)
  from delete_absorbs [OF this, of "plain DELETE 1" rev] show ?thesis by (simp add: plain_def)
qed

theorem create_absorbs_witness:
  "merge_events rev [plain PASSWORD 1, plain CREATE 1, plain ADD 1] = [(plain CREATE 1)\<lparr>attributes := {''password''}\<rparr>]"
proof -
  have "\<forall>e \<in> set [plain PASSWORD 1, plain CREATE 1, plain ADD 1]. subject_key e = Some 1 \<and> event_type e \<in> {CREATE, ADD, ACTIVATE, MODIFY, PASSWORD}"
    by (simp add: plain_def ref_def subject_key_def)
  from create_absorbs [OF this, of "plain CREATE 1" rev] show ?thesis by (simp add: plain_def)
qed

text \<open>Two changes of the same account, entity 7, in one transaction.\<close>

theorem fresh_references_not_merged_witness:
  "mset (merge_events rev [plain MODIFY 1, plain MODIFY 2]) = {#plain MODIFY 1, plain MODIFY 2#} \<and> ref_entity_id (ref 1) = ref_entity_id (ref 2)"
proof -
  have "distinct (map subject_key [plain MODIFY 1, plain MODIFY 2])" by (simp add: subject_key_def plain_def ref_def)
  from fresh_references_not_merged [OF this any_order_rev] show ?thesis by (simp add: ref_def)
qed

theorem merging_loses_witness:
  "map scheduled (merge_events rev [plain ADD 1, (plain ADD 1)\<lparr>scheduled := Some 100\<rparr>]) = [None] \<and>
   merge_events rev [plain CREATE 1, plain ADD 1, plain DELETE 1] = [plain ADD 1]"
  by (rule merging_loses [where k = "Some 1" and later = 100]) (simp_all add: plain_def ref_def subject_key_def)

end
