(* ===== verification/Cache.thy ===== *)
theory Cache
  imports Cere_Prelude
begin

text \<open>
  Dictionaries that forget: \<^verbatim>\<open>src/Cerebrum/Cache.py\<close>. A cache is built from a base class and a list of mixins; a
  method of the base class calls the same method of the first mixin, that one the next, and the last one the
  method of \<^verbatim>\<open>dict\<close>. The chain is a function on the list of mixins. An operation returns its result, or the
  exception it raises, together with the state it leaves behind. The lock of the base class and the flag
  \<^verbatim>\<open>_dont_lock\<close> matter only between threads and are left out; \<open>now\<close> is the value of \<^verbatim>\<open>time.time()\<close>.

  Shown: every combination of mixins keeps the registry and the dictionary in step, and setting, looking up and
  deleting have the effect their combination promises; with the mixins for slots and most recent use a cache is a
  bounded list of the most recently used entries; a memoized function returns what the function does, unless
  entries can time out.
\<close>

section \<open>State and mixins\<close>

datatype mixin = cache_mru | cache_slots | cache_timeout

record ('k, 'v) cache =
  c_data :: "('k \<times> 'v) list"
  c_registry :: "'k list"
  c_timestamps :: "('k \<times> int) list"
  c_size :: int
  c_timeout :: int

type_synonym ('k, 'v, 'a) cache_op = "('k, 'v) cache \<Rightarrow> 'a res \<times> ('k, 'v) cache"

definition and_then :: "('k, 'v, 'a) cache_op \<Rightarrow> ('a \<Rightarrow> ('k, 'v, 'b) cache_op) \<Rightarrow> ('k, 'v, 'b) cache_op" where
  "and_then m f c = (case m c of (Inl e, c') \<Rightarrow> (Inl e, c') | (Inr x, c') \<Rightarrow> f x c')"

text \<open>The methods \<^verbatim>\<open>setup\<close> of the mixins, which the constructor calls with its keyword arguments.\<close>

fun cache_setup :: "mixin \<Rightarrow> int option \<Rightarrow> int option \<Rightarrow> ('k, 'v) cache \<Rightarrow> ('k, 'v) cache" where
  "cache_setup cache_mru size_arg timeout_arg c = c"
| "cache_setup cache_slots size_arg timeout_arg c = c\<lparr>c_size := (case size_arg of None \<Rightarrow> 100 | Some s \<Rightarrow> s)\<rparr>"
| "cache_setup cache_timeout size_arg timeout_arg c =
     c\<lparr>c_timestamps := [], c_timeout := (case timeout_arg of None \<Rightarrow> 60 * 5 | Some t \<Rightarrow> t)\<rparr>"

definition new_cache :: "mixin list \<Rightarrow> int option \<Rightarrow> int option \<Rightarrow> ('k, 'v) cache" where
  "new_cache mixins size_arg timeout_arg =
     fold (\<lambda>m. cache_setup m size_arg timeout_arg) mixins
       \<lparr>c_data = [], c_registry = [], c_timestamps = [], c_size = 0, c_timeout = 0\<rparr>"

section \<open>Deleting\<close>

fun del_chain :: "mixin list \<Rightarrow> 'k \<Rightarrow> ('k, 'v, unit) cache_op" where
  "del_chain [] key c =
     (if key \<in> set (keys (c_data c)) then (Inr (), c\<lparr>c_data := dict_del key (c_data c)\<rparr>) else (Inl KeyError, c))"
| "del_chain (cache_timeout # ms) key c =
     and_then (del_chain ms key) (\<lambda>_ c.
       if key \<in> set (keys (c_timestamps c)) then (Inr (), c\<lparr>c_timestamps := dict_del key (c_timestamps c)\<rparr>)
       else (Inl KeyError, c)) c"
| "del_chain (cache_mru # ms) key c = del_chain ms key c"
| "del_chain (cache_slots # ms) key c = del_chain ms key c"

definition delitem :: "mixin list \<Rightarrow> 'k \<Rightarrow> ('k, 'v, unit) cache_op" where
  "delitem mixins key = and_then (del_chain mixins key) (\<lambda>_ c.
     if key \<in> set (c_registry c) then (Inr (), c\<lparr>c_registry := remove1 key (c_registry c)\<rparr>) else (Inl ValueError, c))"

section \<open>Setting and looking up\<close>

definition touch :: "'k \<Rightarrow> ('k, 'v, unit) cache_op" where
  "touch key c =
     (case c_registry c of
        [] \<Rightarrow> (Inl IndexError, c)
      | r # rs \<Rightarrow>
          if r \<noteq> key then
            (if key \<in> set (r # rs) then (Inr (), c\<lparr>c_registry := key # remove1 key (r # rs)\<rparr>) else (Inl ValueError, c))
          else (Inr (), c))"

lemma del_chain_registry: "del_chain ms key c = (r, c') \<Longrightarrow> c_registry c' = c_registry c"
  by (induction ms key c arbitrary: r c' rule: del_chain.induct)
    (auto simp: and_then_def split: if_splits prod.splits sum.splits)

lemma delitem_shorter: "delitem ms key c = (Inr (), c') \<Longrightarrow> length (c_registry c') < length (c_registry c)"
  using del_chain_registry [of ms key c]
  by (auto simp: delitem_def and_then_def length_remove1 intro!: diff_less length_pos_if_in_set split: if_splits prod.splits sum.splits)

function evict :: "mixin list \<Rightarrow> ('k, 'v, unit) cache_op" where
  "evict mixins c =
     (if int (length (c_registry c)) > c_size c then
        (if c_registry c = [] then (Inl IndexError, c)
         else case delitem mixins (last (c_registry c)) c of
                (Inl e, c') \<Rightarrow> (Inl e, c')
              | (Inr _, c') \<Rightarrow> evict mixins c')
      else (Inr (), c))"
  by pat_completeness auto

termination
  by (relation "measure (\<lambda>(_, c). length (c_registry c))") (auto simp: delitem_shorter [OF sym])

declare evict.simps [simp del]

fun set_chain :: "mixin list \<Rightarrow> mixin list \<Rightarrow> int \<Rightarrow> 'k \<Rightarrow> 'v \<Rightarrow> ('k, 'v, unit) cache_op" where
  "set_chain mixins [] now key value c = (Inr (), c\<lparr>c_data := dict_set key value (c_data c)\<rparr>)"
| "set_chain mixins (cache_mru # ms) now key value c = and_then (set_chain mixins ms now key value) (\<lambda>_. touch key) c"
| "set_chain mixins (cache_slots # ms) now key value c = and_then (set_chain mixins ms now key value) (\<lambda>_. evict mixins) c"
| "set_chain mixins (cache_timeout # ms) now key value c =
     and_then (set_chain mixins ms now key value)
       (\<lambda>_ c. (Inr (), c\<lparr>c_timestamps := dict_set key now (c_timestamps c)\<rparr>)) c"

definition setitem :: "mixin list \<Rightarrow> int \<Rightarrow> 'k \<Rightarrow> 'v \<Rightarrow> ('k, 'v, unit) cache_op" where
  "setitem mixins now key value c =
     set_chain mixins mixins now key value
       (if key \<notin> set (keys (c_data c)) then c\<lparr>c_registry := key # c_registry c\<rparr> else c)"

fun get_chain :: "mixin list \<Rightarrow> mixin list \<Rightarrow> int \<Rightarrow> 'k \<Rightarrow> ('k, 'v, 'v) cache_op" where
  "get_chain mixins [] now key c = (dict_get (c_data c) key, c)"
| "get_chain mixins (cache_mru # ms) now key c =
     and_then (get_chain mixins ms now key) (\<lambda>val. and_then (touch key) (\<lambda>_ c. (Inr val, c))) c"
| "get_chain mixins (cache_slots # ms) now key c = get_chain mixins ms now key c"
| "get_chain mixins (cache_timeout # ms) now key c =
     and_then (get_chain mixins ms now key) (\<lambda>val c.
       case map_of (c_timestamps c) key of
         None \<Rightarrow> (Inl KeyError, c)
       | Some t \<Rightarrow>
           if now - t \<ge> c_timeout c then and_then (delitem mixins key) (\<lambda>_ c. (Inl KeyError, c)) c
           else (Inr val, c)) c"

definition getitem :: "mixin list \<Rightarrow> int \<Rightarrow> 'k \<Rightarrow> ('k, 'v, 'v) cache_op" where
  "getitem mixins now key = get_chain mixins mixins now key"

text \<open>\<^verbatim>\<open>memoize_function\<close>: the test \<^verbatim>\<open>rest in cache\<close> is the one of \<^verbatim>\<open>dict\<close>; the function may raise.\<close>

definition memoized :: "mixin list \<Rightarrow> ('k \<Rightarrow> 'v res) \<Rightarrow> int \<Rightarrow> 'k \<Rightarrow> ('k, 'v, 'v) cache_op" where
  "memoized mixins function now rest c =
     (if rest \<in> set (keys (c_data c)) then getitem mixins now rest c
      else case function rest of
        Inl e \<Rightarrow> (Inl e, c)
      | Inr result \<Rightarrow> and_then (setitem mixins now rest result) (\<lambda>_ c. (Inr result, c)) c)"

section \<open>What an operation does\<close>

definition cache_ok :: "mixin list \<Rightarrow> ('k, 'v) cache \<Rightarrow> bool" where
  "cache_ok mixins c \<longleftrightarrow>
     distinct mixins \<and> distinct (c_registry c) \<and> distinct (keys (c_data c)) \<and> set (c_registry c) = set (keys (c_data c)) \<and>
     (cache_slots \<in> set mixins \<longrightarrow> c_size c \<ge> 1 \<and> int (length (c_registry c)) \<le> c_size c) \<and>
     (cache_timeout \<in> set mixins \<longrightarrow> set (keys (c_timestamps c)) = set (keys (c_data c)))"

lemma and_then_simps [simp]:
  "m c = (Inr x, c') \<Longrightarrow> and_then m f c = f x c'"
  "m c = (Inl e, c') \<Longrightarrow> and_then m f c = (Inl e, c')"
  by (simp_all add: and_then_def)

text \<open>Deleting a present key takes it out everywhere.\<close>

definition without_key :: "mixin list \<Rightarrow> 'k \<Rightarrow> ('k, 'v) cache \<Rightarrow> ('k, 'v) cache" where
  "without_key mixins key c = c\<lparr>c_data := dict_del key (c_data c), c_registry := remove1 key (c_registry c),
     c_timestamps := (if cache_timeout \<in> set mixins then dict_del key (c_timestamps c) else c_timestamps c)\<rparr>"

lemma del_chain_exact:
  assumes "key \<in> set (keys (c_data c))"
  shows "distinct ms \<Longrightarrow> cache_timeout \<in> set ms \<longrightarrow> key \<in> set (keys (c_timestamps c)) \<Longrightarrow>
    del_chain ms key c = (Inr (), c\<lparr>c_data := dict_del key (c_data c),
      c_timestamps := (if cache_timeout \<in> set ms then dict_del key (c_timestamps c) else c_timestamps c)\<rparr>)"
proof (induction ms)
  case Nil
  then show ?case using assms by simp
next
  case (Cons m ms)
  then show ?case by (cases m) (auto split: if_splits)
qed

lemma delitem_exact:
  assumes "key \<in> set (keys (c_data c))" "key \<in> set (c_registry c)" "distinct ms"
    "cache_timeout \<in> set ms \<longrightarrow> key \<in> set (keys (c_timestamps c))"
  shows "delitem ms key c = (Inr (), without_key ms key c)"
  using del_chain_exact [OF assms(1,3,4)] assms(2) by (simp add: delitem_def without_key_def)

lemma evict_stop: "int (length (c_registry c)) \<le> c_size c \<Longrightarrow> evict ms c = (Inr (), c)"
  by (subst evict.simps) simp

lemma evict_one:
  assumes "int (length (c_registry c)) = c_size c + 1" "c_registry c \<noteq> []"
    "delitem ms (last (c_registry c)) c = (Inr (), without_key ms (last (c_registry c)) c)"
  shows "evict ms c = (Inr (), without_key ms (last (c_registry c)) c)"
proof -
  let ?c = "without_key ms (last (c_registry c)) c"
  have "length (c_registry ?c) = length (c_registry c) - 1" using assms(2) by (simp add: without_key_def length_remove1)
  then have "int (length (c_registry ?c)) = c_size c" using assms(1,2) by (cases "c_registry c") simp_all
  then have "evict ms ?c = (Inr (), ?c)" by (intro evict_stop) (simp add: without_key_def)
  then show ?thesis using assms by (subst evict.simps) simp
qed

text \<open>
  The effect of setting a key through a part of the chain: the entry itself, the eviction of the oldest entry when
  a new key comes to a full cache with slots, the move to the front with most recent use, the time stamp.
\<close>

definition evicted :: "mixin list \<Rightarrow> 'k \<Rightarrow> ('k, 'v) cache \<Rightarrow> bool" where
  "evicted ms key c \<longleftrightarrow> key \<notin> set (c_registry c) \<and> cache_slots \<in> set ms \<and> int (length (c_registry c)) = c_size c"

definition after_set :: "mixin list \<Rightarrow> mixin list \<Rightarrow> int \<Rightarrow> 'k \<Rightarrow> 'v \<Rightarrow> ('k, 'v) cache \<Rightarrow> ('k, 'v) cache" where
  "after_set mixins ms now key val c =
     (let old = last (c_registry c);
          stamps = (if cache_timeout \<in> set ms then dict_set key now (c_timestamps c) else c_timestamps c)
      in c\<lparr>c_data := (if evicted ms key c then dict_del old (dict_set key val (c_data c)) else dict_set key val (c_data c)),
           c_registry := (if evicted ms key c then key # butlast (c_registry c)
                          else if key \<notin> set (c_registry c) then key # c_registry c
                          else if cache_mru \<in> set ms then key # remove1 key (c_registry c)
                          else c_registry c),
           c_timestamps := (if evicted ms key c \<and> cache_timeout \<in> set mixins then dict_del old stamps else stamps)\<rparr>)"

lemma dict_set_del_commute: "k \<noteq> x \<Longrightarrow> dict_set k v (dict_del x d) = dict_del x (dict_set k v d)"
  by (induction d rule: dict_set.induct) (auto simp: dict_del_def)

lemma dict_set_twice [simp]: "dict_set k v (dict_set k w d) = dict_set k v d"
  by (induction d rule: dict_set.induct) auto

lemma key_images [simp]:
  "fst ` set (dict_set k v d) = insert k (fst ` set d)" "fst ` set (dict_del k d) = fst ` set d - {k}"
  using set_keys_dict_set [of k v d] set_keys_dict_del [of k d] by (simp_all only: set_map)

lemma length_front: "k \<in> set xs \<Longrightarrow> Suc (length (remove1 k xs)) = length xs"
  by (induction xs) auto

lemma remove1_last: "distinct xs \<Longrightarrow> xs \<noteq> [] \<Longrightarrow> remove1 (last xs) xs = butlast xs"
  by (induction xs) auto

definition registered :: "'k \<Rightarrow> ('k, 'v) cache \<Rightarrow> ('k, 'v) cache" where
  "registered key c = (if key \<notin> set (keys (c_data c)) then c\<lparr>c_registry := key # c_registry c\<rparr> else c)"

lemma after_set_mru: "touch key (after_set mixins ms now key val c) = (Inr (), after_set mixins (cache_mru # ms) now key val c)"
proof (cases "key \<in> set (c_registry c)")
  case True
  then obtain r rs where r: "c_registry c = r # rs" by (cases "c_registry c") auto
  then show ?thesis using True by (auto simp: touch_def after_set_def evicted_def Let_def)
next
  case False
  then show ?thesis by (simp add: touch_def after_set_def evicted_def Let_def)
qed

lemma after_set_timeout:
  assumes "cache_timeout \<in> set mixins" "evicted ms key c \<longrightarrow> key \<noteq> last (c_registry c)"
  shows "(after_set mixins ms now key val c)\<lparr>c_timestamps := dict_set key now (c_timestamps (after_set mixins ms now key val c))\<rparr> =
    after_set mixins (cache_timeout # ms) now key val c"
  using assms by (auto simp: after_set_def evicted_def Let_def dict_set_del_commute)

lemma evicted_last: "cache_ok mixins c \<Longrightarrow> set ms \<subseteq> set mixins \<Longrightarrow> evicted ms key c \<Longrightarrow> c_registry c \<noteq> [] \<and> last (c_registry c) \<noteq> key"
  using last_in_set [of "c_registry c"] unfolding cache_ok_def evicted_def by fastforce

lemma after_set_slots:
  assumes ok: "cache_ok mixins c" and sub: "set (cache_slots # ms) \<subseteq> set mixins"
  shows "evict mixins (after_set mixins ms now key val c) = (Inr (), after_set mixins (cache_slots # ms) now key val c)"
proof (cases "evicted (cache_slots # ms) key c \<and> \<not> evicted ms key c")
  case True
  let ?c = "after_set mixins ms now key val c" and ?old = "last (c_registry c)"
  have reg: "c_registry c \<noteq> []" "?old \<noteq> key" using evicted_last [OF ok sub] True by blast+
  have new: "key \<notin> set (c_registry c)" "cache_slots \<notin> set ms" using True by (auto simp: evicted_def)
  have registry: "c_registry ?c = key # c_registry c" using new by (simp add: after_set_def evicted_def Let_def)
  then have last: "last (c_registry ?c) = ?old" using reg by simp
  have mem: "?old \<in> set (keys (c_data c))" using ok last_in_set [OF reg(1)] by (simp add: cache_ok_def)
  have len: "int (length (c_registry ?c)) = c_size ?c + 1" using True registry by (auto simp: evicted_def after_set_def Let_def)
  have "delitem mixins ?old ?c = (Inr (), without_key mixins ?old ?c)"
  proof (rule delitem_exact)
    show "?old \<in> set (keys (c_data ?c))" using mem new set_keys_dict_set [of key val "c_data c"] by (simp add: after_set_def evicted_def Let_def)
    show "?old \<in> set (c_registry ?c)" using reg by (simp add: registry)
    show "cache_timeout \<in> set mixins \<longrightarrow> ?old \<in> set (keys (c_timestamps ?c))"
      using mem ok new set_keys_dict_set [of key now "c_timestamps c"] by (auto simp: after_set_def evicted_def Let_def cache_ok_def)
  qed (use ok in \<open>simp add: cache_ok_def\<close>)
  then have "evict mixins ?c = (Inr (), without_key mixins ?old ?c)" using evict_one [of ?c mixins] len registry last by simp
  moreover have "remove1 ?old (c_registry c) = butlast (c_registry c)" using ok reg(1) by (simp add: cache_ok_def remove1_last)
  then have "without_key mixins ?old ?c = after_set mixins (cache_slots # ms) now key val c"
    using True new reg(2) by (simp add: without_key_def after_set_def evicted_def Let_def)
  ultimately show ?thesis by simp
next
  case False
  let ?c = "after_set mixins ms now key val c"
  have fits: "c_size c \<ge> 1" "int (length (c_registry c)) \<le> c_size c" using ok sub by (auto simp: cache_ok_def)
  have "int (length (c_registry ?c)) \<le> c_size ?c"
  proof (cases "key \<in> set (c_registry c)")
    case True
    then show ?thesis using fits(2) by (simp add: after_set_def evicted_def Let_def length_front)
  next
    case False
    then show ?thesis
      using \<open>\<not> (evicted (cache_slots # ms) key c \<and> \<not> evicted ms key c)\<close> fits
      by (cases "c_registry c") (auto simp: after_set_def evicted_def Let_def)
  qed
  moreover have "?c = after_set mixins (cache_slots # ms) now key val c"
    using False by (auto simp: after_set_def evicted_def Let_def)
  ultimately show ?thesis using evict_stop by metis
qed

lemma set_chain_exact:
  assumes "cache_ok mixins c"
  shows "set ms \<subseteq> set mixins \<Longrightarrow> set_chain mixins ms now key val (registered key c) = (Inr (), after_set mixins ms now key val c)"
proof (induction ms)
  case Nil
  have "key \<in> set (keys (c_data c)) \<longleftrightarrow> key \<in> set (c_registry c)" using assms by (simp add: cache_ok_def)
  then show ?case by (simp add: registered_def after_set_def evicted_def Let_def)
next
  case (Cons m ms)
  then have IH: "set_chain mixins ms now key val (registered key c) = (Inr (), after_set mixins ms now key val c)" by simp
  show ?case
  proof (cases m)
    case cache_mru
    then show ?thesis using IH by (simp add: after_set_mru)
  next
    case cache_slots
    then show ?thesis using IH after_set_slots [OF assms] Cons.prems by simp
  next
    case cache_timeout
    have "evicted ms key c \<longrightarrow> key \<noteq> last (c_registry c)" "Cache.cache_timeout \<in> set mixins"
      using evicted_last [OF assms, of ms key] Cons.prems cache_timeout by auto
    then show ?thesis using IH cache_timeout after_set_timeout [of mixins ms key c now val] by simp
  qed
qed

lemma setitem_exact:
  assumes "cache_ok mixins c"
  shows "setitem mixins now key val c = (Inr (), after_set mixins mixins now key val c)"
  using set_chain_exact [OF assms, of mixins] by (simp add: setitem_def registered_def)

text \<open>Looking up a key: with most recent use it moves to the front; an entry that has timed out is deleted.\<close>

definition expired :: "mixin list \<Rightarrow> int \<Rightarrow> 'k \<Rightarrow> ('k, 'v) cache \<Rightarrow> bool" where
  "expired mixins now key c \<longleftrightarrow>
     cache_timeout \<in> set mixins \<and> (\<exists>t. map_of (c_timestamps c) key = Some t \<and> now - t \<ge> c_timeout c)"

definition used :: "mixin list \<Rightarrow> 'k \<Rightarrow> ('k, 'v) cache \<Rightarrow> ('k, 'v) cache" where
  "used ms key c = c\<lparr>c_registry := (if cache_mru \<in> set ms then key # remove1 key (c_registry c) else c_registry c)\<rparr>"

lemma touch_used:
  assumes "key \<in> set (c_registry c)"
  shows "touch key (used ms key c) = (Inr (), used (cache_mru # ms) key c)"
proof -
  obtain r rs where "c_registry c = r # rs" using assms by (cases "c_registry c") auto
  then show ?thesis using assms by (auto simp: touch_def used_def)
qed

lemma without_used: "without_key mixins key (used ms key c) = without_key mixins key c"
  by (simp add: without_key_def used_def)

lemma get_chain_exact:
  assumes ok: "cache_ok mixins c" and val: "map_of (c_data c) key = Some val"
  shows "set ms \<subseteq> set mixins \<Longrightarrow> get_chain mixins ms now key c =
    (if expired ms now key c then (Inl KeyError, without_key mixins key c) else (Inr val, used ms key c))"
proof (induction ms)
  case Nil
  then show ?case using val by (simp add: expired_def used_def)
next
  case (Cons m ms)
  have key: "key \<in> set (keys (c_data c))" by (rule map_of_Some_keys [OF val])
  then have reg: "key \<in> set (c_registry c)" using ok unfolding cache_ok_def by blast
  have IH: "get_chain mixins ms now key c =
    (if expired ms now key c then (Inl KeyError, without_key mixins key c) else (Inr val, used ms key c))"
    using Cons by simp
  show ?case
  proof (cases m)
    case cache_mru
    have "expired (Cache.cache_mru # ms) now key c = expired ms now key c" by (simp add: expired_def)
    then show ?thesis using IH touch_used [OF reg] cache_mru by auto
  next
    case cache_slots
    then show ?thesis using IH by (simp add: expired_def used_def)
  next
    case cache_timeout
    then have stamps: "cache_timeout \<in> set mixins" "set (keys (c_timestamps c)) = set (keys (c_data c))"
      using ok Cons.prems by (auto simp: cache_ok_def)
    then obtain t where t: "map_of (c_timestamps c) key = Some t" using key keys_map_of_Some by metis
    have del: "delitem mixins key (used ms key c) = (Inr (), without_key mixins key c)"
      using delitem_exact [of key "used ms key c" mixins] key reg ok stamps(2) by (simp add: used_def without_used [unfolded used_def] cache_ok_def)
    have "map_of (c_timestamps (used ms key c)) key = Some t" "c_timeout (used ms key c) = c_timeout c" by (simp_all add: used_def t)
    moreover have "used (Cache.cache_timeout # ms) key c = used ms key c" by (simp add: used_def)
    ultimately show ?thesis using IH cache_timeout t del
      by (cases "Cache.cache_timeout \<in> set ms"; cases "c_timeout c \<le> now - t") (simp_all add: expired_def)
  qed
qed

lemma get_chain_missing: "map_of (c_data c) key = None \<Longrightarrow> get_chain mixins ms now key c = (Inl KeyError, c)"
proof (induction ms)
  case (Cons m ms)
  then show ?case by (cases m) simp_all
qed simp

lemma getitem_exact:
  assumes "cache_ok mixins c"
  shows "getitem mixins now key c =
    (case map_of (c_data c) key of
       None \<Rightarrow> (Inl KeyError, c)
     | Some val \<Rightarrow> if expired mixins now key c then (Inl KeyError, without_key mixins key c) else (Inr val, used mixins key c))"
  using get_chain_missing get_chain_exact [OF assms _ subset_refl] by (auto simp: getitem_def split: option.split)

section \<open>The invariant\<close>

lemma cache_ok_without:
  assumes "cache_ok mixins c"
  shows "cache_ok mixins (without_key mixins key c)"
proof -
  have "set (remove1 key (c_registry c)) = set (c_registry c) - {key}" using assms by (simp add: cache_ok_def)
  moreover have "length (remove1 key (c_registry c)) \<le> length (c_registry c)" by (simp add: length_remove1)
  ultimately show ?thesis using assms
    by (simp add: cache_ok_def without_key_def) auto
qed

lemma cache_ok_used:
  assumes "cache_ok mixins c" "key \<in> set (c_registry c)"
  shows "cache_ok mixins (used mixins key c)"
  using assms length_front [OF assms(2)] by (auto simp: cache_ok_def used_def)

lemma set_butlast: "distinct xs \<Longrightarrow> xs \<noteq> [] \<Longrightarrow> set (butlast xs) = set xs - {last xs}"
  by (metis remove1_last set_remove1_eq)

lemma cache_ok_after_set:
  assumes "cache_ok mixins c"
  shows "cache_ok mixins (after_set mixins mixins now key val c)"
proof -
  let ?c = "after_set mixins mixins now key val c" and ?old = "last (c_registry c)"
  have ok: "distinct mixins" "distinct (c_registry c)" "distinct (keys (c_data c))" "set (c_registry c) = fst ` set (c_data c)"
    and slots: "cache_slots \<in> set mixins \<Longrightarrow> c_size c \<ge> 1 \<and> int (length (c_registry c)) \<le> c_size c"
    and stamps: "cache_timeout \<in> set mixins \<Longrightarrow> fst ` set (c_timestamps c) = fst ` set (c_data c)"
    using assms by (auto simp: cache_ok_def)
  have out: "c_registry c \<noteq> [] \<and> ?old \<noteq> key" if "evicted mixins key c" using evicted_last [OF assms _ that] by simp
  have "distinct (c_registry ?c)"
    using ok(2) out set_butlast [OF ok(2)] by (auto simp: after_set_def Let_def evicted_def distinct_butlast)
  moreover have "distinct (keys (c_data ?c))" using ok(3) by (simp add: after_set_def Let_def)
  moreover have "set (c_registry ?c) = fst ` set (c_data ?c)"
    using ok(2,4) out set_butlast [OF ok(2)] by (auto simp: after_set_def Let_def evicted_def)
  moreover have "int (length (c_registry ?c)) \<le> c_size ?c" if "cache_slots \<in> set mixins"
  proof (cases "key \<in> set (c_registry c)")
    case True
    then show ?thesis using slots [OF that] by (simp add: after_set_def evicted_def Let_def length_front)
  next
    case False
    then show ?thesis using slots [OF that] that by (cases "c_registry c") (auto simp: after_set_def evicted_def Let_def)
  qed
  moreover have "c_size ?c = c_size c" by (simp add: after_set_def Let_def)
  moreover have "fst ` set (c_timestamps ?c) = fst ` set (c_data ?c)" if "cache_timeout \<in> set mixins"
    using stamps [OF that] that by (simp add: after_set_def Let_def)
  ultimately show ?thesis using ok(1) slots by (simp add: cache_ok_def)
qed

inductive cache_step :: "mixin list \<Rightarrow> ('k, 'v) cache \<Rightarrow> ('k, 'v) cache \<Rightarrow> bool" for mixins where
  step_set: "cache_step mixins c (snd (setitem mixins now key val c))"
| step_get: "cache_step mixins c (snd (getitem mixins now key c))"
| step_del: "cache_step mixins c (snd (delitem mixins key c))"

lemma delitem_missing: "key \<notin> set (keys (c_data c)) \<Longrightarrow> delitem ms key c = (Inl KeyError, c)"
proof -
  assume "key \<notin> set (keys (c_data c))"
  then have "del_chain ms key c = (Inl KeyError, c)"
  proof (induction ms)
    case (Cons m ms)
    then show ?case by (cases m) simp_all
  qed simp
  then show ?thesis by (simp add: delitem_def)
qed

lemma in_registry: "cache_ok mixins c \<Longrightarrow> map_of (c_data c) key = Some val \<Longrightarrow> key \<in> set (c_registry c)"
  using map_of_Some_keys unfolding cache_ok_def by fast

lemma cache_ok_get: "cache_ok mixins c \<Longrightarrow> cache_ok mixins (snd (getitem mixins now key c))"
  by (simp add: getitem_exact cache_ok_without cache_ok_used in_registry split: option.split)

lemma cache_ok_del:
  assumes "cache_ok mixins c"
  shows "cache_ok mixins (snd (delitem mixins key c))"
proof (cases "key \<in> set (keys (c_data c))")
  case True
  moreover have "key \<in> set (c_registry c)" "cache_timeout \<in> set mixins \<longrightarrow> key \<in> set (keys (c_timestamps c))" "distinct mixins"
    using assms True unfolding cache_ok_def by blast+
  ultimately show ?thesis using delitem_exact [of key c mixins] assms by (simp add: cache_ok_without)
next
  case False
  then show ?thesis using delitem_missing [of key c mixins] assms by simp
qed

definition fresh_cache :: "mixin list \<Rightarrow> int \<Rightarrow> int option \<Rightarrow> ('k, 'v) cache \<Rightarrow> bool" where
  "fresh_cache mixins s t c \<longleftrightarrow> distinct mixins \<and> s \<ge> 1 \<and> c = new_cache mixins (Some s) t"

lemma setup_fold:
  "fold (\<lambda>m. cache_setup m (Some s) t) ms c = c\<lparr>c_size := (if cache_slots \<in> set ms then s else c_size c),
     c_timestamps := (if cache_timeout \<in> set ms then [] else c_timestamps c),
     c_timeout := (if cache_timeout \<in> set ms then (case t of None \<Rightarrow> 60 * 5 | Some t \<Rightarrow> t) else c_timeout c)\<rparr>"
proof (induction ms arbitrary: c)
  case (Cons m ms)
  show ?case by (cases m) (simp_all add: Cons.IH)
qed simp

interpretation caches: invariant_system "fresh_cache mixins s t" "cache_step mixins" "\<lambda>c. cache_ok mixins c" for mixins s t
proof
  show "fresh_cache mixins s t c \<Longrightarrow> cache_ok mixins c" for c :: "('a, 'b) cache"
    by (auto simp: fresh_cache_def new_cache_def setup_fold cache_ok_def)
  show "cache_ok mixins c \<Longrightarrow> cache_step mixins c c' \<Longrightarrow> cache_ok mixins c'" for c c' :: "('a, 'b) cache"
    by (auto elim!: cache_step.cases simp: setitem_exact cache_ok_after_set cache_ok_get cache_ok_del)
qed

text \<open>
  For every combination of mixins, and whatever sequence of settings, look-ups and deletions, the registry of
  a cache with at least one slot lists each key of the dictionary exactly once and is within the number of slots.
  Setting a key always succeeds, the value is then found, and at most one other key, the last of the registry, is
  forgotten, and only when a new key comes to a full cache.
\<close>

theorem cache_in_step:
  assumes "reachable (fresh_cache mixins s t) (cache_step mixins) c"
  shows "distinct (c_registry c) \<and> set (c_registry c) = set (keys (c_data c)) \<and>
    (cache_slots \<in> set mixins \<longrightarrow> int (length (c_data c)) \<le> c_size c) \<and>
    (\<exists>c'. setitem mixins now key val c = (Inr (), c') \<and> map_of (c_data c') key = Some val \<and>
       (\<forall>k. k \<noteq> key \<longrightarrow> map_of (c_data c') k =
          (if k = last (c_registry c) \<and> key \<notin> set (keys (c_data c)) \<and> cache_slots \<in> set mixins \<and> int (length (c_data c)) = c_size c
           then None else map_of (c_data c) k)))"
proof -
  have ok: "cache_ok mixins c" by (rule caches.reachable_inv [OF assms])
  have reg: "set (c_registry c) = fst ` set (c_data c)" using ok by (simp add: cache_ok_def)
  have "card (set (c_registry c)) = length (c_registry c)" "card (set (keys (c_data c))) = length (c_data c)"
    using ok distinct_card [of "c_registry c"] distinct_card [of "keys (c_data c)"] by (simp_all add: cache_ok_def)
  then have len: "length (c_registry c) = length (c_data c)" by (simp add: reg)
  have keep: "evicted mixins key c \<Longrightarrow> last (c_registry c) \<noteq> key" using evicted_last [OF ok] by blast
  have "map_of (c_data (after_set mixins mixins now key val c)) k =
      (if k = key then Some val
       else if k = last (c_registry c) \<and> key \<notin> fst ` set (c_data c) \<and> cache_slots \<in> set mixins \<and> int (length (c_data c)) = c_size c
       then None else map_of (c_data c) k)" for k
    using keep by (auto simp: after_set_def Let_def evicted_def reg len)
  then show ?thesis using ok setitem_exact [OF ok] by (simp add: len [symmetric] cache_ok_def)
qed

section \<open>A list of the most recently used entries\<close>

text \<open>What a cache with slots and most recent use promises: a list of entries, the most recently used first.\<close>

definition lru_set :: "nat \<Rightarrow> 'k \<Rightarrow> 'v \<Rightarrow> ('k \<times> 'v) list \<Rightarrow> ('k \<times> 'v) list" where
  "lru_set n key val l = take n ((key, val) # filter (\<lambda>p. fst p \<noteq> key) l)"

definition lru_get :: "'k \<Rightarrow> ('k \<times> 'v) list \<Rightarrow> 'v res \<times> ('k \<times> 'v) list" where
  "lru_get key l =
     (case map_of l key of None \<Rightarrow> (Inl KeyError, l) | Some val \<Rightarrow> (Inr val, (key, val) # filter (\<lambda>p. fst p \<noteq> key) l))"

definition recent :: "('k, 'v) cache \<Rightarrow> ('k \<times> 'v) list" where
  "recent c = map (\<lambda>k. (k, the (map_of (c_data c) k))) (c_registry c)"

lemma filter_recent: "distinct ks \<Longrightarrow> filter (\<lambda>p. fst p \<noteq> key) (map (\<lambda>k. (k, f k)) ks) = map (\<lambda>k. (k, f k)) (remove1 key ks)"
  by (induction ks) (auto simp: filter_id_conv remove1_idem)

lemma map_of_recent:
  assumes "cache_ok mixins c"
  shows "map_of (recent c) key = map_of (c_data c) key"
proof (cases "map_of (c_data c) key")
  case None
  then have "key \<notin> set (c_registry c)" using assms unfolding cache_ok_def by (metis map_of_eq_None_iff set_map)
  then show ?thesis using None by (simp add: recent_def map_of_map_restrict restrict_map_def)
next
  case (Some v)
  then have "key \<in> set (c_registry c)" by (rule in_registry [OF assms])
  then show ?thesis using Some by (simp add: recent_def map_of_map_restrict restrict_map_def)
qed

lemma recent_set:
  assumes ok: "cache_ok mixins c" and both: "cache_mru \<in> set mixins" "cache_slots \<in> set mixins"
  shows "recent (after_set mixins mixins now key val c) = lru_set (nat (c_size c)) key val (recent c)"
proof -
  let ?r = "c_registry c" and ?f = "\<lambda>k. (k, the (map_of (c_data c) k))"
  have reg: "distinct ?r" "int (length ?r) \<le> c_size c" "c_size c \<ge> 1" using ok both(2) by (auto simp: cache_ok_def)
  have rest: "filter (\<lambda>p. fst p \<noteq> key) (recent c) = map ?f (remove1 key ?r)" using filter_recent [OF reg(1), of key "\<lambda>k. the (map_of (c_data c) k)"] by (simp add: recent_def)
  show ?thesis
  proof (cases "evicted mixins key c")
    case True
    then have new: "key \<notin> set ?r" "length ?r = nat (c_size c)" by (auto simp: evicted_def)
    have old: "?r \<noteq> []" using evicted_last [OF ok _ True] by simp
    have "recent (after_set mixins mixins now key val c) = (key, val) # map ?f (butlast ?r)"
      using True new set_butlast [OF reg(1) old] evicted_last [OF ok _ True] by (auto simp: recent_def after_set_def Let_def)
    moreover have "map ?f (butlast ?r) = take (nat (c_size c) - 1) (map ?f ?r)" by (simp add: butlast_conv_take new(2) take_map)
    moreover have "nat (c_size c) = Suc (nat (c_size c) - 1)" using reg(3) by simp
    ultimately show ?thesis using new rest unfolding lru_set_def by (metis remove1_idem take_Suc_Cons)
  next
    case False
    have front: "recent (after_set mixins mixins now key val c) = (key, val) # map ?f (remove1 key ?r)"
      using False both(1) reg(1) by (auto simp: recent_def after_set_def Let_def remove1_idem)
    have "length ((key, val) # map ?f (remove1 key ?r)) \<le> nat (c_size c)"
      using False both(2) reg(2) length_front [of key ?r] by (cases "key \<in> set ?r") (auto simp: evicted_def remove1_idem)
    then show ?thesis unfolding lru_set_def rest front by (metis take_all)
  qed
qed

text \<open>
  C12: a cache with slots and most recent use, without time-outs, refines the list of most recently used entries:
  setting a key puts it first and cuts the list to the number of slots, looking it up moves it to the front.
\<close>

theorem cache_refines_lru:
  assumes "reachable (fresh_cache mixins s t) (cache_step mixins) c" "cache_mru \<in> set mixins" "cache_slots \<in> set mixins"
    "cache_timeout \<notin> set mixins"
  shows "recent (snd (setitem mixins now key val c)) = lru_set (nat (c_size c)) key val (recent c) \<and>
    (fst (getitem mixins now key c), recent (snd (getitem mixins now key c))) = lru_get key (recent c)"
proof -
  have ok: "cache_ok mixins c" by (rule caches.reachable_inv [OF assms(1)])
  have "recent (used mixins key c) = (key, val) # filter (\<lambda>p. fst p \<noteq> key) (recent c)" if "map_of (c_data c) key = Some val" for val
  proof -
    have "distinct (c_registry c)" using ok by (simp add: cache_ok_def)
    then show ?thesis using that assms(2) filter_recent [of "c_registry c" key "\<lambda>k. the (map_of (c_data c) k)"] by (simp add: recent_def used_def)
  qed
  moreover have "\<not> expired mixins now key c" using assms(4) by (simp add: expired_def)
  ultimately have "(fst (getitem mixins now key c), recent (snd (getitem mixins now key c))) = lru_get key (recent c)"
    by (simp add: getitem_exact [OF ok] lru_get_def map_of_recent [OF ok] split: option.split)
  then show ?thesis using recent_set [OF ok assms(2,3)] by (simp add: setitem_exact [OF ok])
qed

section \<open>Memoized functions\<close>

definition memo_ok :: "('k \<Rightarrow> 'v res) \<Rightarrow> ('k, 'v) cache \<Rightarrow> bool" where
  "memo_ok f c \<longleftrightarrow> (\<forall>k v. map_of (c_data c) k = Some v \<longrightarrow> f k = Inr v)"

lemma memo_ok_changes:
  "memo_ok f c \<Longrightarrow> memo_ok f (without_key mixins key c)"
  "memo_ok f c \<Longrightarrow> memo_ok f (used mixins key c)"
  "memo_ok f c \<Longrightarrow> f key = Inr val \<Longrightarrow> memo_ok f (after_set mixins mixins now key val c)"
  by (auto simp: memo_ok_def without_key_def used_def after_set_def Let_def split: if_splits)

text \<open>
  On a cache that holds results of the function, a memoized function returns, or raises, what the function
  does, and the cache holds only results of the function afterwards; except that asked again for a result that has
  timed out it raises \<^verbatim>\<open>KeyError\<close> instead of computing it anew.
\<close>

theorem memoized_exact:
  assumes "cache_ok mixins c" "memo_ok f c"
  shows "\<exists>c'. memoized mixins f now key c =
      (if key \<in> set (keys (c_data c)) \<and> expired mixins now key c then Inl KeyError else f key, c') \<and>
    cache_ok mixins c' \<and> memo_ok f c'"
proof (cases "map_of (c_data c) key")
  case None
  then have new: "key \<notin> set (keys (c_data c))" by (metis map_of_eq_None_iff set_map)
  show ?thesis
  proof (cases "f key")
    case (Inl e)
    then show ?thesis using new assms by (simp add: memoized_def)
  next
    case (Inr v)
    have "and_then (setitem mixins now key v) (\<lambda>_ c. (Inr v, c)) c = (Inr v, after_set mixins mixins now key v c)"
      by (simp add: setitem_exact [OF assms(1)])
    then show ?thesis using new Inr cache_ok_after_set [OF assms(1)] memo_ok_changes(3) [OF assms(2) Inr] by (simp add: memoized_def)
  qed
next
  case (Some v)
  then have "key \<in> set (keys (c_data c))" "f key = Inr v" "key \<in> set (c_registry c)"
    using assms(2) map_of_Some_keys [OF Some] in_registry [OF assms(1) Some] by (auto simp: memo_ok_def)
  then show ?thesis
    using Some memo_ok_changes(1,2) [OF assms(2)] cache_ok_without [OF assms(1)] cache_ok_used [OF assms(1)]
    by (simp add: memoized_def getitem_exact [OF assms(1)])
qed

section \<open>Examples\<close>

definition small_cache :: "(int, int) cache" where
  "small_cache = snd (setitem [cache_mru, cache_slots] 0 2 20 (snd (setitem [cache_mru, cache_slots] 0 1 10 (new_cache [cache_mru, cache_slots] (Some 2) None))))"

lemma small_cache_reachable: "reachable (fresh_cache [cache_mru, cache_slots] 2 None) (cache_step [cache_mru, cache_slots]) small_cache"
proof -
  let ?m = "[cache_mru, cache_slots]" and ?c = "new_cache [cache_mru, cache_slots] (Some 2) None :: (int, int) cache"
  have "reachable (fresh_cache ?m 2 None) (cache_step ?m) ?c" by (rule reachable_start) (simp add: fresh_cache_def)
  then have "reachable (fresh_cache ?m 2 None) (cache_step ?m) (snd (setitem ?m 0 1 10 ?c))" by (rule reachable_step) (rule step_set)
  then show ?thesis unfolding small_cache_def by (rule reachable_step) (rule step_set)
qed

theorem cache_in_step_witness:
  "\<exists>c'. setitem [cache_mru, cache_slots] 0 3 30 small_cache = (Inr (), c') \<and> map_of (c_data c') 3 = Some 30 \<and> map_of (c_data c') 1 = None"
proof -
  have "c_registry small_cache = [2, 1]" "c_data small_cache = [(1, 10), (2, 20)]" "c_size small_cache = 2" by code_simp+
  then show ?thesis using cache_in_step [OF small_cache_reachable, of 0 3 30] by auto
qed

theorem cache_refines_lru_witness:
  "recent small_cache = [(2, 20), (1, 10)] \<and>
   recent (snd (setitem [cache_mru, cache_slots] 0 3 30 small_cache)) = [(3, 30), (2, 20)] \<and>
   fst (getitem [cache_mru, cache_slots] 0 1 small_cache) = Inr 10"
proof -
  have "recent small_cache = [(2, 20), (1, 10)]" "c_size small_cache = 2" by code_simp+
  then show ?thesis
    using cache_refines_lru [OF small_cache_reachable, of 0 3 30] cache_refines_lru [OF small_cache_reachable, of 0 1]
    by (simp add: lru_set_def lru_get_def)
qed

text \<open>The squares, remembered for ten seconds: at time 0 the square of 3 is computed, at time 20 it has timed out.\<close>

definition squares :: "(int, int) cache" where
  "squares = snd (memoized [cache_timeout] (\<lambda>x. Inr (x * x)) 0 3 (new_cache [cache_timeout] None (Some 10)))"

theorem memoized_exact_witness:
  "fst (memoized [cache_timeout] (\<lambda>x. Inr (x * x)) 5 3 squares) = Inr 9 \<and>
   fst (memoized [cache_timeout] (\<lambda>x. Inr (x * x)) 20 3 squares) = Inl KeyError"
proof -
  have squares: "c_registry squares = [3]" "c_data squares = [(3, 9)]" "c_timestamps squares = [(3, 0)]" "c_timeout squares = 10"
    by code_simp+
  have ok: "cache_ok [cache_timeout] squares" "memo_ok (\<lambda>x. Inr (x * x)) squares" by (simp_all add: cache_ok_def memo_ok_def squares)
  have "\<not> expired [cache_timeout] 5 3 squares" "expired [cache_timeout] 20 3 squares" by (simp_all add: expired_def squares)
  then show ?thesis using memoized_exact [OF ok, of 5 3] memoized_exact [OF ok, of 20 3] by (auto simp: squares)
qed

end
