(* ===== verification/Entity_Sync.thy ===== *)
theory Entity_Sync
  imports Sql_Args
begin

text \<open>
  What an entity is known by in its source systems: contact information, addresses and external ids of
  \<^verbatim>\<open>src/Cerebrum/Entity.py\<close>, and the classes of \<^verbatim>\<open>src/Cerebrum/modules/import_utils/syncs.py\<close> that bring them in line
  with what a source system delivers. The codes of sources and types are integers, and are taken to be valid; the
  primary keys, the unique constraint and the widths of the columns of the tables are checked.

  A Python set is iterated in no particular order; \<open>elems\<close> takes one.

  Shown: after a synchronisation the entity has exactly the delivered values of the types the synchronisation is
  in charge of, and nothing else of it has changed; doing it again changes nothing; the same of contact information
  that is populated and written. A second value of a type is overlooked.
\<close>

section \<open>Tables\<close>

record contact_row =
  ct_entity :: int
  ct_source :: int
  ct_type :: int
  ct_pref :: int
  ct_value :: string
  ct_description :: "string option"
  ct_alias :: "string option"

record entity_address =
  ea_address_text :: "string option"
  ea_p_o_box :: "string option"
  ea_postal_number :: "string option"
  ea_city :: "string option"
  ea_country :: "int option"

record ext_row =
  xi_entity :: int
  xi_entity_type :: int
  xi_type :: int
  xi_source :: int
  xi_value :: string

record entity_db =
  ed_contact :: "contact_row list"
  ed_address :: "((int \<times> int \<times> int) \<times> entity_address) list"
  ed_extid :: "ext_row list"
  ed_log :: "(int \<times> string) list"

definition ed_log_change :: "int \<Rightarrow> string \<Rightarrow> entity_db \<Rightarrow> entity_db" where
  "ed_log_change e change db = db\<lparr>ed_log := ed_log db @ [(e, change)]\<rparr>"

definition elems :: "int set \<Rightarrow> int list" where
  "elems S = sorted_list_of_set S"

fun fold_res :: "('a \<Rightarrow> 's \<Rightarrow> 's res) \<Rightarrow> 'a list \<Rightarrow> 's \<Rightarrow> 's res" where
  "fold_res f [] s = Inr s"
| "fold_res f (x # xs) s = res_bind (f x s) (fold_res f xs)"

section \<open>Contact information\<close>

definition entity_get_contact_info :: "int \<Rightarrow> int option \<Rightarrow> int option \<Rightarrow> entity_db \<Rightarrow> contact_row list" where
  "entity_get_contact_info e source type db =
     sort_key ct_pref (filter (\<lambda>r. ct_entity r = e \<and> (source = None \<or> source = Some (ct_source r))
       \<and> (type = None \<or> type = Some (ct_type r))) (ed_contact db))"

definition entity_add_contact_info ::
    "int \<Rightarrow> int \<Rightarrow> int \<Rightarrow> string \<Rightarrow> int option \<Rightarrow> string option \<Rightarrow> string option \<Rightarrow> entity_db \<Rightarrow> entity_db res" where
  "entity_add_contact_info e source type val pref description alias db =
     (let p = (case pref of None \<Rightarrow> 1 | Some p \<Rightarrow> p);
          row = \<lparr>ct_entity = e, ct_source = source, ct_type = type, ct_pref = p, ct_value = take 255 val,
            ct_description = map_option (take 512) description, ct_alias = map_option (take 255) alias\<rparr>
      in if too_long 255 val \<or> \<not> none_or (\<lambda>d. \<not> too_long 512 d) description \<or> \<not> none_or (\<lambda>a. \<not> too_long 255 a) alias \<or> \<bar>p\<bar> \<ge> 100
         then Inl DataError
         else if list_ex (\<lambda>r. ct_entity r = e \<and> ct_source r = source \<and> ct_type r = type \<and> ct_pref r = p) (ed_contact db)
         then Inl IntegrityError
         else Inr (ed_log_change e ''entity_cinfo_add'' (db\<lparr>ed_contact := ed_contact db @ [row]\<rparr>)))"

text \<open>A preference of \<open>None\<close> stands for the default \<^verbatim>\<open>'ALL'\<close>.\<close>

definition delete_contact_info :: "int \<Rightarrow> int \<Rightarrow> int \<Rightarrow> int option \<Rightarrow> entity_db \<Rightarrow> entity_db" where
  "delete_contact_info e source type pref db =
     (if entity_get_contact_info e (Some source) (Some type) db = [] then db
      else (ed_log_change e ''entity_cinfo_del'' db)\<lparr>ed_contact := filter (\<lambda>r. \<not> (ct_entity r = e \<and> ct_source r = source
             \<and> ct_type r = type \<and> (pref = None \<or> pref = Some (ct_pref r)))) (ed_contact db)\<rparr>)"

text \<open>
  \<^verbatim>\<open>populate_contact_info\<close> collects data per type and preference in the instance, for one source system;
  \<^verbatim>\<open>write_db\<close> brings the rows of that source in line with it. The instance keeps both afterwards.
\<close>

record contact_instance =
  src_sys :: "int option"
  contact_data :: "((int \<times> int) \<times> string \<times> string option \<times> string option) list option"

definition populate_contact_info ::
    "int \<Rightarrow> (int \<times> string \<times> int \<times> string option \<times> string option) option \<Rightarrow> contact_instance \<Rightarrow> contact_instance res" where
  "populate_contact_info source arg self =
     (if src_sys self \<noteq> None \<and> src_sys self \<noteq> Some source then Inl ValueError
      else
        let d = (case contact_data self of None \<Rightarrow> [] | Some d \<Rightarrow> d)
        in Inr (case arg of
             None \<Rightarrow> self\<lparr>src_sys := Some source, contact_data := Some d\<rparr>
           | Some (type, val, pref, description, alias) \<Rightarrow>
               self\<lparr>src_sys := Some source,
                    contact_data := Some (dict_set (type, pref) (val, (if alias = Some [] then None else alias), description) d)\<rparr>))"

text \<open>One row of the loop of \<^verbatim>\<open>write_db\<close>: a row that agrees with the data is struck from it, any other is deleted.\<close>

definition contact_write_row ::
    "int \<Rightarrow> int \<Rightarrow> contact_row \<Rightarrow> entity_db \<times> ((int \<times> int) \<times> string \<times> string option \<times> string option) list
     \<Rightarrow> entity_db \<times> ((int \<times> int) \<times> string \<times> string option \<times> string option) list" where
  "contact_write_row e source row = (\<lambda>(db, d).
     if map_of d (ct_type row, ct_pref row) = Some (ct_value row, ct_alias row, ct_description row)
     then (db, dict_del (ct_type row, ct_pref row) d)
     else (delete_contact_info e source (ct_type row) (Some (ct_pref row)) db, d))"

definition contact_write_db :: "int \<Rightarrow> contact_instance \<Rightarrow> entity_db \<Rightarrow> entity_db res" where
  "contact_write_db e self db =
     (case (src_sys self, contact_data self) of
        (Some source, Some d) \<Rightarrow>
          let (db', rest) = fold (contact_write_row e source) (entity_get_contact_info e (Some source) None db) (db, d)
          in fold_res (\<lambda>((type, pref), (val, alias, description)). entity_add_contact_info e source type val (Some pref) description alias) rest db'
      | _ \<Rightarrow> Inr db)"

section \<open>Addresses\<close>

definition address_fits :: "entity_address \<Rightarrow> bool" where
  "address_fits a \<longleftrightarrow> none_or (\<lambda>s. \<not> too_long 256 s) (ea_address_text a) \<and> none_or (\<lambda>s. \<not> too_long 32 s) (ea_postal_number a) \<and>
     none_or (\<lambda>s. \<not> too_long 128 s) (ea_city a)"

definition stored_address :: "entity_address \<Rightarrow> entity_address" where
  "stored_address a = a\<lparr>ea_address_text := map_option (take 256) (ea_address_text a),
     ea_postal_number := map_option (take 32) (ea_postal_number a), ea_city := map_option (take 128) (ea_city a)\<rparr>"

definition add_entity_address :: "int \<Rightarrow> int \<Rightarrow> int \<Rightarrow> entity_address \<Rightarrow> entity_db \<Rightarrow> entity_db res" where
  "add_entity_address e source type a db =
     (if \<not> address_fits a then Inl DataError
      else if (e, source, type) \<in> set (keys (ed_address db)) then Inl IntegrityError
      else Inr (ed_log_change e ''entity_addr_add'' (db\<lparr>ed_address := ed_address db @ [((e, source, type), stored_address a)]\<rparr>)))"

definition delete_entity_address :: "int \<Rightarrow> int \<Rightarrow> int \<Rightarrow> entity_db \<Rightarrow> entity_db" where
  "delete_entity_address e source type db =
     (if (e, source, type) \<notin> set (keys (ed_address db)) then db
      else ed_log_change e ''entity_addr_del'' (db\<lparr>ed_address := dict_del (e, source, type) (ed_address db)\<rparr>))"

section \<open>External ids\<close>

definition get_external_id :: "int \<Rightarrow> int \<Rightarrow> int option \<Rightarrow> int option \<Rightarrow> entity_db \<Rightarrow> ext_row list" where
  "get_external_id e et source type db =
     filter (\<lambda>r. xi_entity r = e \<and> xi_entity_type r = et \<and> (source = None \<or> source = Some (xi_source r))
       \<and> (type = None \<or> type = Some (xi_type r))) (ed_extid db)"

definition delete_external_id :: "int \<Rightarrow> int \<Rightarrow> int \<Rightarrow> entity_db \<Rightarrow> entity_db" where
  "delete_external_id e source type db =
     (if \<not> list_ex (\<lambda>r. xi_entity r = e \<and> xi_type r = type \<and> xi_source r = source) (ed_extid db) then db
      else ed_log_change e ''entity_ext_id_del''
             (db\<lparr>ed_extid := filter (\<lambda>r. \<not> (xi_entity r = e \<and> xi_type r = type \<and> xi_source r = source)) (ed_extid db)\<rparr>))"

definition insert_external_id :: "int \<Rightarrow> int \<Rightarrow> int \<Rightarrow> int \<Rightarrow> string \<Rightarrow> entity_db \<Rightarrow> entity_db res" where
  "insert_external_id e et source type val db =
     (if too_long 256 val then Inl DataError
      else if list_ex (\<lambda>r. (xi_entity r = e \<and> xi_type r = type \<and> xi_source r = source)
           \<or> (xi_type r = type \<and> xi_source r = source \<and> xi_value r = take 256 val)) (ed_extid db) then Inl IntegrityError
      else Inr ((ed_log_change e ''entity_ext_id_add'' db)\<lparr>ed_extid := ed_extid db @
             [\<lparr>xi_entity = e, xi_entity_type = et, xi_type = type, xi_source = source, xi_value = take 256 val\<rparr>]\<rparr>))"

definition update_external_id :: "int \<Rightarrow> int \<Rightarrow> int \<Rightarrow> int \<Rightarrow> string \<Rightarrow> entity_db \<Rightarrow> entity_db res" where
  "update_external_id e et source type val db =
     (if \<lparr>xi_entity = e, xi_entity_type = et, xi_type = type, xi_source = source, xi_value = val\<rparr> \<in> set (ed_extid db) then Inr db
      else if list_ex (\<lambda>r. xi_entity r = e \<and> xi_type r = type \<and> xi_source r = source) (ed_extid db) \<and> too_long 256 val then Inl DataError
      else if list_ex (\<lambda>r. xi_entity r = e \<and> xi_type r = type \<and> xi_source r = source) (ed_extid db)
          \<and> list_ex (\<lambda>r. xi_type r = type \<and> xi_source r = source \<and> xi_value r = take 256 val \<and> xi_entity r \<noteq> e) (ed_extid db)
      then Inl IntegrityError
      else Inr ((ed_log_change e ''entity_ext_id_mod'' db)\<lparr>ed_extid :=
             map (\<lambda>r. if xi_entity r = e \<and> xi_type r = type \<and> xi_source r = source then r\<lparr>xi_value := take 256 val\<rparr> else r) (ed_extid db)\<rparr>))"

text \<open>
  \<^verbatim>\<open>affect_external_id\<close>, \<^verbatim>\<open>populate_external_id\<close> for each value, and \<^verbatim>\<open>write_db\<close>: \<open>types\<close> are the affected types, \<open>vals\<close> the
  populated values; the values in the database are read once, before the first change.
\<close>

definition extid_write_type :: "int \<Rightarrow> int \<Rightarrow> int \<Rightarrow> (int \<Rightarrow> string option) \<Rightarrow> (int \<Rightarrow> string option) \<Rightarrow> int \<Rightarrow> entity_db \<Rightarrow> entity_db res" where
  "extid_write_type e et source vals dbvals type db =
     (case (vals type, dbvals type) of
        (None, None) \<Rightarrow> Inr db
      | (None, Some _) \<Rightarrow> Inr (delete_external_id e source type db)
      | (Some v, None) \<Rightarrow> insert_external_id e et source type v db
      | (Some v, Some w) \<Rightarrow> if v = w then Inr db else update_external_id e et source type v db)"

definition extid_write_db :: "int \<Rightarrow> int \<Rightarrow> int \<Rightarrow> int list \<Rightarrow> (int \<Rightarrow> string option) \<Rightarrow> entity_db \<Rightarrow> entity_db res" where
  "extid_write_db e et source types vals db =
     (let dbvals = map_of (map (\<lambda>r. (xi_type r, xi_value r)) (rev (get_external_id e et (Some source) None db)))
      in fold_res (extid_write_type e et source vals dbvals) types db)"

text \<open>
  \<^verbatim>\<open>_set_cached_external_id\<close> compares the value with a list of rows, which it never equals, and waits for an
  exception the list does not raise.
\<close>

definition set_cached_external_id :: "int \<Rightarrow> int \<Rightarrow> int \<Rightarrow> int \<Rightarrow> string option \<Rightarrow> entity_db \<Rightarrow> entity_db res" where
  "set_cached_external_id e et sys_cache variant val db =
     (case val of
        None \<Rightarrow> Inr (delete_external_id e sys_cache variant db)
      | Some v \<Rightarrow> update_external_id e et sys_cache variant v db)"

section \<open>Synchronisations\<close>

text \<open>
  \<^verbatim>\<open>_KeyValueSync.__call__\<close>, for the methods \<open>fetch\<close> and \<open>apply_changes\<close> of a subclass: the types to add, update and
  remove.
\<close>

definition kv_sync ::
    "('db \<Rightarrow> (int \<times> 'v) set) \<Rightarrow> ((int \<Rightarrow> 'v option) \<Rightarrow> int set \<Rightarrow> int set \<Rightarrow> int set \<Rightarrow> 'db \<Rightarrow> 'db res) \<Rightarrow> int set option
     \<Rightarrow> (int \<times> 'v) list \<Rightarrow> 'db \<Rightarrow> ((int set \<times> int set \<times> int set) \<times> 'db) res" where
  "kv_sync fetch_current apply_changes affect_types pairs db =
     (let new_pairs = set pairs;
          new_types = fst ` new_pairs;
          affected = (\<lambda>t. case affect_types of None \<Rightarrow> True | Some A \<Rightarrow> t \<in> A)
      in if card new_types \<noteq> card new_pairs then Inl ValueError
         else if \<not> (\<forall>t \<in> new_types. affected t) then Inl ValueError
         else
           let curr_pairs = Set.filter (\<lambda>(t, _). affected t) (fetch_current db);
               curr_types = fst ` curr_pairs;
               to_add = new_types - curr_types;
               to_remove = curr_types - new_types;
               to_update = fst ` (new_pairs - curr_pairs) - to_add
           in res_bind (apply_changes (map_of pairs) to_add to_update to_remove db) (\<lambda>db'.
                Inr ((to_add, to_update, to_remove), db')))"

definition contact_fetch :: "int \<Rightarrow> int \<Rightarrow> entity_db \<Rightarrow> (int \<times> string) set" where
  "contact_fetch e source db = (\<lambda>r. (ct_type r, ct_value r)) ` set (entity_get_contact_info e (Some source) None db)"

definition contact_apply ::
    "int \<Rightarrow> int \<Rightarrow> (int \<Rightarrow> string option) \<Rightarrow> int set \<Rightarrow> int set \<Rightarrow> int set \<Rightarrow> entity_db \<Rightarrow> entity_db res" where
  "contact_apply e source vals to_add to_update to_remove db =
     (if to_add \<union> to_remove \<union> to_update = {} then Inr db
      else fold_res (\<lambda>t db. case vals t of None \<Rightarrow> Inl KeyError | Some v \<Rightarrow> entity_add_contact_info e source t v None None None db)
             (elems (to_update \<union> to_add))
             (fold (\<lambda>t. delete_contact_info e source t None) (elems (to_remove \<union> to_update)) db))"

definition normalize_addr :: "entity_address \<Rightarrow> entity_address" where
  "normalize_addr a = a\<lparr>ea_country := (if ea_country a = Some 0 then None else ea_country a)\<rparr>"

definition address_fetch :: "int \<Rightarrow> int \<Rightarrow> entity_db \<Rightarrow> (int \<times> entity_address) set" where
  "address_fetch e source db =
     (\<lambda>((_, _, t), a). (t, normalize_addr a)) ` set (filter (\<lambda>((e', s, _), _). e' = e \<and> s = source) (ed_address db))"

definition address_apply ::
    "int \<Rightarrow> int \<Rightarrow> (int \<Rightarrow> entity_address option) \<Rightarrow> int set \<Rightarrow> int set \<Rightarrow> int set \<Rightarrow> entity_db \<Rightarrow> entity_db res" where
  "address_apply e source vals to_add to_update to_remove db =
     (if to_add \<union> to_remove \<union> to_update = {} then Inr db
      else fold_res (\<lambda>t db. case vals t of None \<Rightarrow> Inl KeyError | Some a \<Rightarrow> add_entity_address e source t a db)
             (elems (to_update \<union> to_add))
             (fold (\<lambda>t. delete_entity_address e source t) (elems (to_remove \<union> to_update)) db))"

definition extid_fetch :: "int \<Rightarrow> int \<Rightarrow> int \<Rightarrow> entity_db \<Rightarrow> (int \<times> string) set" where
  "extid_fetch e et source db = (\<lambda>r. (xi_type r, xi_value r)) ` set (get_external_id e et (Some source) None db)"

definition extid_apply ::
    "int \<Rightarrow> int \<Rightarrow> int \<Rightarrow> (int \<Rightarrow> string option) \<Rightarrow> int set \<Rightarrow> int set \<Rightarrow> int set \<Rightarrow> entity_db \<Rightarrow> entity_db res" where
  "extid_apply e et source vals to_add to_update to_remove db =
     (if to_add \<union> to_remove \<union> to_update = {} then Inr db
      else extid_write_db e et source (elems (to_add \<union> to_remove \<union> to_update)) vals db)"

definition contact_sync where "contact_sync e source = kv_sync (contact_fetch e source) (contact_apply e source)"
definition extid_sync where "extid_sync e et source = kv_sync (extid_fetch e et source) (extid_apply e et source)"
definition address_sync where
  "address_sync e source affect_types pairs =
     kv_sync (address_fetch e source) (address_apply e source) affect_types (map (\<lambda>(t, a). (t, normalize_addr a)) pairs)"

section \<open>What a subclass promises\<close>

text \<open>
  The changes a synchronisation asks for: types to add that have no value, types to update and to remove that have
  one, and a value for every type to add or update.
\<close>

definition sound_changes :: "(int \<times> 'v) set \<Rightarrow> (int \<Rightarrow> 'v option) \<Rightarrow> int set \<Rightarrow> int set \<Rightarrow> int set \<Rightarrow> bool" where
  "sound_changes cur vals to_add to_update to_remove \<longleftrightarrow>
     finite (to_add \<union> to_update \<union> to_remove) \<and> to_add \<inter> fst ` cur = {} \<and> to_update \<union> to_remove \<subseteq> fst ` cur \<and>
     to_update \<inter> to_remove = {} \<and> to_add \<union> to_update \<subseteq> dom vals \<and> to_remove \<inter> dom vals = {}"

definition kv_changed :: "(int \<times> 'v) set \<Rightarrow> (int \<Rightarrow> 'v option) \<Rightarrow> int set \<Rightarrow> int set \<Rightarrow> int set \<Rightarrow> (int \<times> 'v) set" where
  "kv_changed cur vals to_add to_update to_remove =
     {p \<in> cur. fst p \<notin> to_update \<union> to_remove} \<union> {(t, v). t \<in> to_add \<union> to_update \<and> vals t = Some v}"

definition in_charge :: "int set option \<Rightarrow> int \<Rightarrow> bool" where
  "in_charge affect_types t = (case affect_types of None \<Rightarrow> True | Some A \<Rightarrow> t \<in> A)"

definition valid_pairs :: "int set option \<Rightarrow> (int \<times> 'v) list \<Rightarrow> bool" where
  "valid_pairs A pairs \<longleftrightarrow> inj_on fst (set pairs) \<and> (\<forall>p \<in> set pairs. in_charge A (fst p))"

definition charged :: "int set option \<Rightarrow> (int \<times> 'v) set \<Rightarrow> (int \<times> 'v) set" where
  "charged A cur = {p \<in> cur. in_charge A (fst p)}"

definition adds :: "int set option \<Rightarrow> (int \<times> 'v) list \<Rightarrow> (int \<times> 'v) set \<Rightarrow> int set" where
  "adds A pairs cur = fst ` set pairs - fst ` charged A cur"

definition removes :: "int set option \<Rightarrow> (int \<times> 'v) list \<Rightarrow> (int \<times> 'v) set \<Rightarrow> int set" where
  "removes A pairs cur = fst ` charged A cur - fst ` set pairs"

definition updates :: "int set option \<Rightarrow> (int \<times> 'v) list \<Rightarrow> (int \<times> 'v) set \<Rightarrow> int set" where
  "updates A pairs cur = fst ` (set pairs - charged A cur) - adds A pairs cur"

lemmas delta_defs = adds_def removes_def updates_def

lemma kv_sync_eq:
  "kv_sync f a A pairs db =
     (if valid_pairs A pairs
      then res_bind (a (map_of pairs) (adds A pairs (f db)) (updates A pairs (f db)) (removes A pairs (f db)) db)
             (\<lambda>db'. Inr ((adds A pairs (f db), updates A pairs (f db), removes A pairs (f db)), db'))
      else Inl ValueError)"
proof -
  have "card (fst ` set pairs) = card (set pairs) \<longleftrightarrow> inj_on fst (set pairs)" by (metis List.finite_set card_image eq_card_imp_inj_on)
  moreover have "Set.filter (\<lambda>(t, _). in_charge A t) (f db) = charged A (f db)" by (auto simp: charged_def)
  ultimately show ?thesis
    unfolding kv_sync_def in_charge_def [symmetric] Let_def by (simp add: valid_pairs_def delta_defs)
qed

lemma sound_delta:
  assumes "valid_pairs A pairs" "finite cur"
  shows "sound_changes cur (map_of pairs) (adds A pairs cur) (updates A pairs cur) (removes A pairs cur)"
proof -
  have dom: "dom (map_of pairs) = fst ` set pairs" by (rule dom_map_of_conv_image_fst)
  have "finite (fst ` charged A cur)" using assms(2) by (simp add: charged_def)
  then have "finite (adds A pairs cur \<union> updates A pairs cur \<union> removes A pairs cur)" by (simp add: delta_defs)
  moreover have "adds A pairs cur \<inter> fst ` cur = {}" using assms(1) by (force simp: adds_def charged_def valid_pairs_def)
  moreover have "updates A pairs cur \<union> removes A pairs cur \<subseteq> fst ` cur" by (auto simp: delta_defs charged_def)
  ultimately show ?thesis unfolding sound_changes_def dom by (auto simp: delta_defs)
qed

lemma map_of_valid: "valid_pairs A pairs \<Longrightarrow> map_of pairs t = Some v \<longleftrightarrow> (t, v) \<in> set pairs"
proof
  assume valid: "valid_pairs A pairs" and mem: "(t, v) \<in> set pairs"
  then obtain w where w: "map_of pairs t = Some w" using weak_map_of_SomeI by metis
  then have "(t, w) \<in> set pairs" by (rule map_of_SomeD)
  then have "(t, w) = (t, v)" using valid mem unfolding valid_pairs_def inj_on_def by fastforce
  then show "map_of pairs t = Some v" using w by simp
qed (rule map_of_SomeD)

lemma changed_delta:
  assumes "valid_pairs A pairs" "single_valued cur"
  shows "charged A (kv_changed cur (map_of pairs) (adds A pairs cur) (updates A pairs cur) (removes A pairs cur)) = set pairs"
    "{p \<in> kv_changed cur (map_of pairs) (adds A pairs cur) (updates A pairs cur) (removes A pairs cur). \<not> in_charge A (fst p)} =
      {p \<in> cur. \<not> in_charge A (fst p)}"
proof -
  let ?c = "kv_changed cur (map_of pairs) (adds A pairs cur) (updates A pairs cur) (removes A pairs cur)"
  have charge: "in_charge A t" if "(t, v) \<in> set pairs" for t v using that assms(1) by (auto simp: valid_pairs_def)
  have val: "map_of pairs t = Some v \<longleftrightarrow> (t, v) \<in> set pairs" for t v by (rule map_of_valid [OF assms(1)])
  have one: "v = w" if "(t, v) \<in> cur" "(t, w) \<in> cur" for t v w using that assms(2) by (auto simp: single_valued_def)
  have new: "v = w" if "(t, v) \<in> set pairs" "(t, w) \<in> set pairs" for t v w using that val by (metis option.inject)
  have iff: "(t, v) \<in> ?c \<longleftrightarrow> (if in_charge A t then (t, v) \<in> set pairs else (t, v) \<in> cur)" for t v
  proof (cases "in_charge A t")
    case True
    show ?thesis
    proof (cases "(t, v) \<in> set pairs")
      case mem: True
      then have t: "t \<in> fst ` set pairs" by force
      show ?thesis
      proof (cases "(t, v) \<in> cur")
        case cur: True
        have "t \<notin> updates A pairs cur" using new [OF mem] cur True by (auto simp: updates_def charged_def)
        then show ?thesis using t cur mem True by (auto simp: kv_changed_def removes_def)
      next
        case False
        then have "t \<in> adds A pairs cur \<union> updates A pairs cur" using mem t by (force simp: updates_def charged_def)
        then show ?thesis using val mem True by (auto simp: kv_changed_def)
      qed
    next
      case False
      have "t \<in> updates A pairs cur \<union> removes A pairs cur" if "(t, v) \<in> cur"
      proof (cases "t \<in> fst ` set pairs")
        case True
        then obtain w where w: "(t, w) \<in> set pairs" by force
        then have "(t, w) \<notin> cur" using False one [OF that] by blast
        moreover have "t \<in> fst ` charged A cur" using that \<open>in_charge A t\<close> by (force simp: charged_def)
        ultimately show ?thesis using w by (force simp: updates_def adds_def charged_def)
      next
        case False
        moreover have "t \<in> fst ` charged A cur" using that \<open>in_charge A t\<close> by (force simp: charged_def)
        ultimately show ?thesis by (simp add: removes_def)
      qed
      then show ?thesis using False val True by (auto simp: kv_changed_def)
    qed
  next
    case False
    then show ?thesis using charge val unfolding kv_changed_def delta_defs charged_def by (auto simp: image_iff)
  qed
  show "charged A ?c = set pairs" using iff charge by (auto simp: charged_def)
  show "{p \<in> ?c. \<not> in_charge A (fst p)} = {p \<in> cur. \<not> in_charge A (fst p)}" using iff by auto
qed

lemma delta_settled: "valid_pairs A pairs \<Longrightarrow> charged A cur = set pairs \<Longrightarrow>
    adds A pairs cur = {} \<and> updates A pairs cur = {} \<and> removes A pairs cur = {}"
  by (simp add: delta_defs)

locale key_value_sync =
  fixes fetch_current :: "'db \<Rightarrow> (int \<times> 'v) set"
    and apply_changes :: "(int \<Rightarrow> 'v option) \<Rightarrow> int set \<Rightarrow> int set \<Rightarrow> int set \<Rightarrow> 'db \<Rightarrow> 'db res"
    and ok :: "'db \<Rightarrow> bool" and good :: "'v \<Rightarrow> bool" and rest :: "'db \<Rightarrow> 'r"
  assumes fetch_finite: "finite (fetch_current db)"
    and ok_single: "ok db \<Longrightarrow> single_valued (fetch_current db)"
    and apply_nothing: "apply_changes vals {} {} {} db = Inr db"
    and apply_exact: "ok db \<Longrightarrow> ran vals \<subseteq> Collect good \<Longrightarrow>
      sound_changes (fetch_current db) vals to_add to_update to_remove \<Longrightarrow>
      apply_changes vals to_add to_update to_remove db = Inr db' \<Longrightarrow>
      ok db' \<and> rest db' = rest db \<and> fetch_current db' = kv_changed (fetch_current db) vals to_add to_update to_remove"
begin

lemma ran_pairs: "\<forall>p \<in> set pairs. good (snd p) \<Longrightarrow> ran (map_of pairs) \<subseteq> Collect good"
  by (force simp: ran_def dest: map_of_SomeD)

lemma sync_result:
  assumes "ok db" "\<forall>p \<in> set pairs. good (snd p)" "kv_sync fetch_current apply_changes A pairs db = Inr (r, db')"
  shows "ok db'" "rest db' = rest db" "charged A (fetch_current db') = set pairs"
    "{p \<in> fetch_current db'. \<not> in_charge A (fst p)} = {p \<in> fetch_current db. \<not> in_charge A (fst p)}"
    "kv_sync fetch_current apply_changes A pairs db' = Inr (({}, {}, {}), db')"
proof -
  let ?F = "fetch_current db"
  have valid: "valid_pairs A pairs" using assms(3) by (simp add: kv_sync_eq split: if_splits)
  have "apply_changes (map_of pairs) (adds A pairs ?F) (updates A pairs ?F) (removes A pairs ?F) db = Inr db'"
    using assms(3) by (auto simp: kv_sync_eq res_simps split: if_splits)
  from apply_exact [OF assms(1) ran_pairs [OF assms(2)] sound_delta [OF valid fetch_finite] this]
  have db': "ok db'" "rest db' = rest db" "fetch_current db' = kv_changed ?F (map_of pairs) (adds A pairs ?F) (updates A pairs ?F) (removes A pairs ?F)"
    by auto
  show "ok db'" "rest db' = rest db" by (rule db'(1,2))+
  show all: "charged A (fetch_current db') = set pairs"
    unfolding db'(3) by (rule changed_delta(1) [OF valid ok_single [OF assms(1)]])
  show "{p \<in> fetch_current db'. \<not> in_charge A (fst p)} = {p \<in> ?F. \<not> in_charge A (fst p)}"
    unfolding db'(3) by (rule changed_delta(2) [OF valid ok_single [OF assms(1)]])
  show "kv_sync fetch_current apply_changes A pairs db' = Inr (({}, {}, {}), db')"
    using valid delta_settled [OF valid all] by (simp add: kv_sync_eq apply_nothing)
qed

end

locale total_sync = key_value_sync +
  assumes apply_returns: "ok db \<Longrightarrow> ran vals \<subseteq> Collect good \<Longrightarrow> sound_changes (fetch_current db) vals to_add to_update to_remove \<Longrightarrow>
    \<exists>db'. apply_changes vals to_add to_update to_remove db = Inr db'"
begin

lemma sync_returns:
  assumes "ok db" "\<forall>p \<in> set pairs. good (snd p)" "valid_pairs A pairs"
  shows "\<exists>r db'. kv_sync fetch_current apply_changes A pairs db = Inr (r, db')"
  using apply_returns [OF assms(1) ran_pairs [OF assms(2)] sound_delta [OF assms(3) fetch_finite]] assms(3)
  by (auto simp: kv_sync_eq)

end

section \<open>Contact information\<close>

lemma elems_props [simp]: "finite S \<Longrightarrow> set (elems S) = S" "distinct (elems S)"
  by (simp_all add: elems_def)

lemma contact_fetch_iff:
  "(t, v) \<in> contact_fetch e s db \<longleftrightarrow> (\<exists>r \<in> set (ed_contact db). ct_entity r = e \<and> ct_source r = s \<and> ct_type r = t \<and> ct_value r = v)"
  by (auto simp: contact_fetch_def entity_get_contact_info_def image_iff)

lemma contact_types: "t \<in> fst ` contact_fetch e s db \<longleftrightarrow> (\<exists>r \<in> set (ed_contact db). ct_entity r = e \<and> ct_source r = s \<and> ct_type r = t)"
  by (force simp: contact_fetch_def entity_get_contact_info_def)

lemma sort_key_empty [simp]: "sort_key f xs = [] \<longleftrightarrow> xs = []"
  by (metis length_0_conv length_sort)

lemma delete_contact_all:
  "ed_contact (delete_contact_info e s t None db) = filter (\<lambda>r. \<not> (ct_entity r = e \<and> ct_source r = s \<and> ct_type r = t)) (ed_contact db)"
  by (auto simp: delete_contact_info_def entity_get_contact_info_def filter_empty_conv intro!: filter_True [symmetric])

lemma delete_contacts:
  "ed_contact (fold (\<lambda>t. delete_contact_info e s t None) ts db) =
     filter (\<lambda>r. \<not> (ct_entity r = e \<and> ct_source r = s \<and> ct_type r \<in> set ts)) (ed_contact db)"
  by (induction ts arbitrary: db) (auto simp: delete_contact_all intro!: filter_cong)

definition new_contact :: "int \<Rightarrow> int \<Rightarrow> (int \<Rightarrow> string option) \<Rightarrow> int \<Rightarrow> contact_row" where
  "new_contact e s vals t = \<lparr>ct_entity = e, ct_source = s, ct_type = t, ct_pref = 1, ct_value = the (vals t), ct_description = None, ct_alias = None\<rparr>"

text \<open>What a synchronisation has to leave alone: the rows of other entities and sources, and the other tables.\<close>

definition contact_others :: "int \<Rightarrow> int \<Rightarrow> entity_db \<Rightarrow> contact_row list" where
  "contact_others e s db = filter (\<lambda>r. \<not> (ct_entity r = e \<and> ct_source r = s)) (ed_contact db)"

definition contact_rest where "contact_rest e s db = (contact_others e s db, ed_address db, ed_extid db)"

lemma delete_contacts_rest: "contact_rest e s (fold (\<lambda>t. delete_contact_info e s t None) ts db) = contact_rest e s db"
proof (induction ts arbitrary: db)
  case (Cons t ts)
  have "contact_rest e s (delete_contact_info e s t None db) = contact_rest e s db"
    unfolding contact_rest_def contact_others_def delete_contact_all filter_filter
    by (auto simp: delete_contact_info_def ed_log_change_def intro!: filter_cong)
  then show ?case using Cons by simp
qed simp

text \<open>Values are added in order until one is too long.\<close>

lemma add_contacts:
  "distinct ts \<Longrightarrow> set ts \<subseteq> dom vals \<Longrightarrow>
   \<forall>r \<in> set (ed_contact db). ct_entity r = e \<and> ct_source r = s \<longrightarrow> ct_type r \<notin> set ts \<Longrightarrow>
   \<forall>t \<in> set ts. length (the (vals t)) \<le> 255 \<Longrightarrow>
   \<exists>db'. fold_res (\<lambda>t db. case vals t of None \<Rightarrow> Inl KeyError | Some v \<Rightarrow> entity_add_contact_info e s t v None None None db) ts db = Inr db' \<and>
     ed_contact db' = ed_contact db @ map (new_contact e s vals) ts \<and> contact_rest e s db' = contact_rest e s db"
proof (induction ts arbitrary: db)
  case (Cons t ts)
  obtain v where v: "vals t = Some v" using Cons.prems(2) by auto
  let ?db = "ed_log_change e ''entity_cinfo_add'' (db\<lparr>ed_contact := ed_contact db @ [new_contact e s vals t]\<rparr>)"
  have "length v \<le> 255" using Cons.prems(4) v by simp
  then have add: "entity_add_contact_info e s t v None None None db = Inr ?db"
    using Cons.prems(3) v by (auto simp: entity_add_contact_info_def new_contact_def list_ex_iff short_fits)
  have rows: "ed_contact ?db = ed_contact db @ [new_contact e s vals t]" by (simp add: ed_log_change_def)
  have "contact_rest e s ?db = contact_rest e s db"
    unfolding contact_rest_def contact_others_def rows by (simp add: new_contact_def ed_log_change_def)
  then show ?case using Cons.IH [of ?db] Cons.prems add v rows by (auto simp: new_contact_def)
qed simp

lemma add_contacts_long:
  "distinct ts \<Longrightarrow> set ts \<subseteq> dom vals \<Longrightarrow>
   \<forall>r \<in> set (ed_contact db). ct_entity r = e \<and> ct_source r = s \<longrightarrow> ct_type r \<notin> set ts \<Longrightarrow>
   \<exists>t \<in> set ts. too_long 255 (the (vals t)) \<Longrightarrow>
   fold_res (\<lambda>t db. case vals t of None \<Rightarrow> Inl KeyError | Some v \<Rightarrow> entity_add_contact_info e s t v None None None db) ts db = Inl DataError"
proof (induction ts arbitrary: db)
  case (Cons t ts)
  obtain v where v: "vals t = Some v" using Cons.prems(2) by auto
  show ?case
  proof (cases "too_long 255 v")
    case True
    then show ?thesis using v by (simp add: entity_add_contact_info_def)
  next
    case False
    define row where "row = \<lparr>ct_entity = e, ct_source = s, ct_type = t, ct_pref = 1, ct_value = take 255 v, ct_description = None, ct_alias = None\<rparr>"
    let ?db = "ed_log_change e ''entity_cinfo_add'' (db\<lparr>ed_contact := ed_contact db @ [row]\<rparr>)"
    have add: "entity_add_contact_info e s t v None None None db = Inr ?db"
      using Cons.prems(3) False by (auto simp: entity_add_contact_info_def row_def list_ex_iff)
    have "\<forall>r \<in> set (ed_contact ?db). ct_entity r = e \<and> ct_source r = s \<longrightarrow> ct_type r \<notin> set ts"
      using Cons.prems(1,3) by (auto simp: row_def ed_log_change_def)
    then show ?thesis using Cons.IH [of ?db] Cons.prems(1,2,4) add v False by auto
  qed
qed simp

text \<open>After the deletions the types to add have no rows, so that nothing but a value that is too long stops the insertions.\<close>

lemma contact_deleted:
  assumes "sound_changes (contact_fetch e s db) vals add upd rem" "db1 = fold (\<lambda>t. delete_contact_info e s t None) (elems (rem \<union> upd)) db"
  shows "ed_contact db1 = filter (\<lambda>r. \<not> (ct_entity r = e \<and> ct_source r = s \<and> ct_type r \<in> rem \<union> upd)) (ed_contact db)"
    "\<forall>r \<in> set (ed_contact db1). ct_entity r = e \<and> ct_source r = s \<longrightarrow> ct_type r \<notin> set (elems (upd \<union> add))"
    "set (elems (upd \<union> add)) = upd \<union> add" "upd \<union> add \<subseteq> dom vals"
proof -
  have fin: "finite add" "finite upd" "finite rem" and no: "add \<inter> fst ` contact_fetch e s db = {}"
    using assms(1) by (auto simp: sound_changes_def)
  show db1: "ed_contact db1 = filter (\<lambda>r. \<not> (ct_entity r = e \<and> ct_source r = s \<and> ct_type r \<in> rem \<union> upd)) (ed_contact db)"
    using fin by (simp add: delete_contacts assms(2))
  show "\<forall>r \<in> set (ed_contact db1). ct_entity r = e \<and> ct_source r = s \<longrightarrow> ct_type r \<notin> set (elems (upd \<union> add))"
    using no fin unfolding db1 by (auto simp: disjoint_iff contact_types)
  show "set (elems (upd \<union> add)) = upd \<union> add" "upd \<union> add \<subseteq> dom vals" using fin assms(1) by (auto simp: sound_changes_def)
qed

lemma contact_apply_exact:
  assumes "sound_changes (contact_fetch e s db) vals add upd rem" "ran vals \<subseteq> {v. length v \<le> 255}"
  shows "\<exists>db'. contact_apply e s vals add upd rem db = Inr db' \<and> contact_rest e s db' = contact_rest e s db \<and>
    contact_fetch e s db' = kv_changed (contact_fetch e s db) vals add upd rem"
proof (cases "add \<union> rem \<union> upd = {}")
  case True
  then show ?thesis by (simp add: contact_apply_def kv_changed_def)
next
  case False
  define db1 where "db1 = fold (\<lambda>t. delete_contact_info e s t None) (elems (rem \<union> upd)) db"
  note deleted = contact_deleted [OF assms(1) db1_def]
  have short: "\<forall>t \<in> set (elems (upd \<union> add)). length (the (vals t)) \<le> 255" unfolding deleted(3) using deleted(4) assms(2) by (fastforce simp: ran_def)
  obtain db' where db': "contact_apply e s vals add upd rem db = Inr db'"
    "ed_contact db' = ed_contact db1 @ map (new_contact e s vals) (elems (upd \<union> add))" "contact_rest e s db' = contact_rest e s db"
    using add_contacts [OF elems_props(2) _ deleted(2) short] deleted(3,4) delete_contacts_rest [of e s "elems (rem \<union> upd)" db]
    unfolding contact_apply_def if_not_P [OF False] db1_def by auto
  have "(t, v) \<in> contact_fetch e s db' \<longleftrightarrow> (t, v) \<in> kv_changed (contact_fetch e s db) vals add upd rem" for t v
  proof -
    have "(t, v) \<in> contact_fetch e s db' \<longleftrightarrow> (t, v) \<in> contact_fetch e s db1 \<or> (\<exists>x \<in> upd \<union> add. t = x \<and> v = the (vals x))"
      unfolding contact_fetch_iff db'(2) using deleted(3) by (simp add: bex_Un new_contact_def) blast
    moreover have "(t, v) \<in> contact_fetch e s db1 \<longleftrightarrow> (t, v) \<in> contact_fetch e s db \<and> t \<notin> rem \<union> upd"
      unfolding contact_fetch_iff deleted(1) by auto
    moreover have "vals t = Some v \<longleftrightarrow> v = the (vals t)" if "t \<in> upd \<union> add" using that deleted(4) by auto
    ultimately show ?thesis unfolding kv_changed_def by auto
  qed
  then show ?thesis using db'(1,3) by auto
qed

lemma contact_apply_long:
  assumes "sound_changes (contact_fetch e s db) vals add upd rem" "t \<in> upd \<union> add" "too_long 255 (the (vals t))"
  shows "contact_apply e s vals add upd rem db = Inl DataError"
proof -
  define db1 where "db1 = fold (\<lambda>t. delete_contact_info e s t None) (elems (rem \<union> upd)) db"
  note deleted = contact_deleted [OF assms(1) db1_def]
  have "\<not> add \<union> rem \<union> upd = {}" using assms(2) by auto
  then show ?thesis using add_contacts_long [OF elems_props(2) _ deleted(2)] deleted(3,4) assms(2,3)
    unfolding contact_apply_def db1_def by auto
qed

lemma changed_single:
  assumes "single_valued cur" "sound_changes cur vals add upd rem"
  shows "single_valued (kv_changed cur vals add upd rem)"
proof (rule single_valuedI)
  fix t v w
  assume v: "(t, v) \<in> kv_changed cur vals add upd rem" "(t, w) \<in> kv_changed cur vals add upd rem"
  have "add \<inter> fst ` cur = {}" using assms(2) unfolding sound_changes_def by blast
  then have "t \<notin> add" if "(t, x) \<in> cur" for x using that by (metis IntI emptyE fst_conv image_eqI)
  then show "v = w" using v single_valuedD [OF assms(1)] by (auto simp: kv_changed_def)
qed

interpretation contacts: total_sync "contact_fetch e s" "contact_apply e s" "\<lambda>db. single_valued (contact_fetch e s db)"
  "\<lambda>v. length v \<le> 255" "contact_rest e s" for e s
proof
  show "finite (contact_fetch e s db)" for db by (simp add: contact_fetch_def)
  show "contact_apply e s vals {} {} {} db = Inr db" for vals db by (simp add: contact_apply_def)
  show "single_valued (contact_fetch e s db) \<Longrightarrow> ran vals \<subseteq> {v. length v \<le> 255} \<Longrightarrow>
      sound_changes (contact_fetch e s db) vals to_add to_update to_remove \<Longrightarrow> contact_apply e s vals to_add to_update to_remove db = Inr db' \<Longrightarrow>
      single_valued (contact_fetch e s db') \<and> contact_rest e s db' = contact_rest e s db \<and>
      contact_fetch e s db' = kv_changed (contact_fetch e s db) vals to_add to_update to_remove"
    for db vals to_add to_update to_remove db'
    using contact_apply_exact changed_single by (metis sum.inject(2))
  show "single_valued (contact_fetch e s db) \<Longrightarrow> ran vals \<subseteq> {v. length v \<le> 255} \<Longrightarrow>
      sound_changes (contact_fetch e s db) vals to_add to_update to_remove \<Longrightarrow> \<exists>db'. contact_apply e s vals to_add to_update to_remove db = Inr db'"
    for db vals to_add to_update to_remove
    using contact_apply_exact by metis
qed

text \<open>
  C13: for an entity that has at most one value per type from the source system. Synchronising its contact information raises
  \<^verbatim>\<open>ValueError\<close> when a type is given two values or is not one the synchronisation is in charge of, and otherwise \<^verbatim>\<open>DataError\<close> when
  a value does not fit the 255 characters of its column. With values that do, it returns: the entity then has from the source
  exactly the given values of the types in charge, and those of other types as before; the rows of all other entities and
  sources, the addresses and the external ids are unchanged; and synchronising again changes nothing.
\<close>

theorem contact_sync_exact:
  assumes "single_valued (contact_fetch e s db)" "\<forall>r \<in> set (ed_contact db). length (ct_value r) \<le> 255"
  shows "(\<not> valid_pairs A pairs \<longrightarrow> contact_sync e s A pairs db = Inl ValueError) \<and>
    (valid_pairs A pairs \<and> (\<exists>p \<in> set pairs. too_long 255 (snd p)) \<longrightarrow> contact_sync e s A pairs db = Inl DataError) \<and>
    (valid_pairs A pairs \<and> (\<forall>p \<in> set pairs. length (snd p) \<le> 255) \<longrightarrow> (\<exists>r db'. contact_sync e s A pairs db = Inr (r, db') \<and>
      {p \<in> contact_fetch e s db'. in_charge A (fst p)} = set pairs \<and>
      {p \<in> contact_fetch e s db'. \<not> in_charge A (fst p)} = {p \<in> contact_fetch e s db. \<not> in_charge A (fst p)} \<and>
      contact_others e s db' = contact_others e s db \<and> ed_address db' = ed_address db \<and> ed_extid db' = ed_extid db \<and>
      contact_sync e s A pairs db' = Inr (({}, {}, {}), db')))"
proof (intro conjI impI)
  assume "\<not> valid_pairs A pairs"
  then show "contact_sync e s A pairs db = Inl ValueError" by (simp add: contact_sync_def kv_sync_eq)
next
  let ?F = "contact_fetch e s db"
  assume long: "valid_pairs A pairs \<and> (\<exists>p \<in> set pairs. too_long 255 (snd p))"
  then obtain t v where tv: "(t, v) \<in> set pairs" "too_long 255 v" by auto
  have "(t, v) \<notin> ?F" using assms(2) tv(2) short_fits by (auto simp: contact_fetch_iff)
  then have "t \<in> updates A pairs ?F \<union> adds A pairs ?F" using tv(1) by (force simp: updates_def charged_def)
  moreover have "the (map_of pairs t) = v" using tv(1) long map_of_valid [of A pairs t v] by simp
  ultimately have "contact_apply e s (map_of pairs) (adds A pairs ?F) (updates A pairs ?F) (removes A pairs ?F) db = Inl DataError"
    using contact_apply_long [OF sound_delta] contacts.fetch_finite long tv(2) by metis
  then show "contact_sync e s A pairs db = Inl DataError" using long by (simp add: contact_sync_def kv_sync_eq)
next
  assume short: "valid_pairs A pairs \<and> (\<forall>p \<in> set pairs. length (snd p) \<le> 255)"
  then obtain r db' where sync: "kv_sync (contact_fetch e s) (contact_apply e s) A pairs db = Inr (r, db')"
    using contacts.sync_returns [OF assms(1)] by blast
  from contacts.sync_result [OF assms(1) _ sync] short show "\<exists>r db'. contact_sync e s A pairs db = Inr (r, db') \<and>
      {p \<in> contact_fetch e s db'. in_charge A (fst p)} = set pairs \<and>
      {p \<in> contact_fetch e s db'. \<not> in_charge A (fst p)} = {p \<in> contact_fetch e s db. \<not> in_charge A (fst p)} \<and>
      contact_others e s db' = contact_others e s db \<and> ed_address db' = ed_address db \<and> ed_extid db' = ed_extid db \<and>
      contact_sync e s A pairs db' = Inr (({}, {}, {}), db')"
    using sync by (intro exI [of _ r] exI [of _ db']) (simp add: contact_sync_def charged_def contact_rest_def)
qed

section \<open>Addresses\<close>

lemma address_fetch_iff: "(t, a) \<in> address_fetch e s db \<longleftrightarrow> (\<exists>b. ((e, s, t), b) \<in> set (ed_address db) \<and> a = normalize_addr b)"
  by (force simp: address_fetch_def)

lemma address_types: "t \<in> fst ` address_fetch e s db \<longleftrightarrow> (e, s, t) \<in> set (keys (ed_address db))"
  by (force simp: address_fetch_def)

lemma delete_address_all: "ed_address (delete_entity_address e s t db) = dict_del (e, s, t) (ed_address db)"
  by (force simp: delete_entity_address_def dict_del_def ed_log_change_def intro!: filter_True [symmetric])

lemma delete_addresses:
  "ed_address (fold (\<lambda>t. delete_entity_address e s t) ts db) = filter (\<lambda>p. fst p \<notin> (\<lambda>t. (e, s, t)) ` set ts) (ed_address db)"
  by (induction ts arbitrary: db) (auto simp: delete_address_all dict_del_def intro!: filter_cong)

definition short_address :: "entity_address \<Rightarrow> bool" where
  "short_address a \<longleftrightarrow> none_or (\<lambda>s. length s \<le> 256) (ea_address_text a) \<and> none_or (\<lambda>s. length s \<le> 32) (ea_postal_number a) \<and>
     none_or (\<lambda>s. length s \<le> 128) (ea_city a)"

lemma short_address_stored: "short_address a \<Longrightarrow> address_fits a \<and> stored_address a = a"
  by (simp add: short_address_def address_fits_def stored_address_def short_options)

definition address_rest where
  "address_rest e s db = (filter (\<lambda>((e', s', _), _). \<not> (e' = e \<and> s' = s)) (ed_address db), ed_contact db, ed_extid db)"

lemma delete_addresses_rest: "address_rest e s (fold (\<lambda>t. delete_entity_address e s t) ts db) = address_rest e s db"
proof (induction ts arbitrary: db)
  case (Cons t ts)
  have "address_rest e s (delete_entity_address e s t db) = address_rest e s db"
    unfolding address_rest_def delete_address_all dict_del_def filter_filter
    by (auto simp: delete_entity_address_def ed_log_change_def intro!: filter_cong)
  then show ?case using Cons by simp
qed simp

lemma add_addresses:
  "distinct ts \<Longrightarrow> set ts \<subseteq> dom vals \<Longrightarrow> \<forall>t \<in> set ts. (e, s, t) \<notin> set (keys (ed_address db)) \<Longrightarrow> \<forall>t \<in> set ts. short_address (the (vals t)) \<Longrightarrow>
   \<exists>db'. fold_res (\<lambda>t db. case vals t of None \<Rightarrow> Inl KeyError | Some a \<Rightarrow> add_entity_address e s t a db) ts db = Inr db' \<and>
     ed_address db' = ed_address db @ map (\<lambda>t. ((e, s, t), the (vals t))) ts \<and> address_rest e s db' = address_rest e s db"
proof (induction ts arbitrary: db)
  case (Cons t ts)
  obtain a where a: "vals t = Some a" using Cons.prems(2) by auto
  let ?db = "ed_log_change e ''entity_addr_add'' (db\<lparr>ed_address := ed_address db @ [((e, s, t), a)]\<rparr>)"
  have "address_fits a" "stored_address a = a" using Cons.prems(4) a short_address_stored by auto
  then have add: "add_entity_address e s t a db = Inr ?db" using Cons.prems(3) by (auto simp: add_entity_address_def)
  have rows: "ed_address ?db = ed_address db @ [((e, s, t), a)]" by (simp add: ed_log_change_def)
  have "address_rest e s ?db = address_rest e s db" unfolding address_rest_def rows by (simp add: ed_log_change_def)
  then show ?case using Cons.IH [of ?db] Cons.prems add a rows by auto
qed simp

definition address_keys :: "entity_db \<Rightarrow> bool" where
  "address_keys db \<longleftrightarrow> distinct (keys (ed_address db))"

lemma address_single: "address_keys db \<Longrightarrow> single_valued (address_fetch e s db)"
  unfolding single_valued_def address_fetch_iff address_keys_def by (metis map_of_is_SomeI option.inject)

lemma address_apply_exact:
  assumes "address_keys db" "ran vals \<subseteq> {a. normalize_addr a = a \<and> short_address a}" "sound_changes (address_fetch e s db) vals add upd rem"
  shows "\<exists>db'. address_apply e s vals add upd rem db = Inr db' \<and> address_keys db' \<and> address_rest e s db' = address_rest e s db \<and>
    address_fetch e s db' = kv_changed (address_fetch e s db) vals add upd rem"
proof (cases "add \<union> rem \<union> upd = {}")
  case True
  then show ?thesis using assms(1) by (simp add: address_apply_def kv_changed_def)
next
  case False
  let ?db1 = "fold (\<lambda>t. delete_entity_address e s t) (elems (rem \<union> upd)) db"
  have fin: "finite add" "finite upd" "finite rem" and dom: "add \<union> upd \<subseteq> dom vals" and no: "add \<inter> fst ` address_fetch e s db = {}"
    using assms(3) by (auto simp: sound_changes_def)
  have db1: "ed_address ?db1 = filter (\<lambda>p. fst p \<notin> (\<lambda>t. (e, s, t)) ` (rem \<union> upd)) (ed_address db)"
    using fin by (simp add: delete_addresses)
  have free: "\<forall>t \<in> set (elems (upd \<union> add)). (e, s, t) \<notin> set (keys (ed_address ?db1))"
    using no fin unfolding db1 disjoint_iff address_types by auto
  have known: "set (elems (upd \<union> add)) \<subseteq> dom vals" using dom fin by auto
  have short: "\<forall>t \<in> set (elems (upd \<union> add)). short_address (the (vals t))" using dom fin assms(2) by (force simp: ran_def)
  from add_addresses [OF elems_props(2) known free short] obtain db' where db': "address_apply e s vals add upd rem db = Inr db'"
    "ed_address db' = ed_address ?db1 @ map (\<lambda>t. ((e, s, t), the (vals t))) (elems (upd \<union> add))" "address_rest e s db' = address_rest e s ?db1"
    unfolding address_apply_def if_not_P [OF False] by blast
  have "distinct (keys (ed_address ?db1))"
    unfolding db1 using assms(1) by (simp add: address_keys_def distinct_map inj_on_def)
  moreover have "distinct (map (\<lambda>t. (e, s, t)) (elems (upd \<union> add)))" by (simp add: distinct_map inj_on_def)
  ultimately have "address_keys db'" using free by (auto simp: address_keys_def db'(2) o_def)
  moreover have "(t, a) \<in> address_fetch e s db' \<longleftrightarrow> (t, a) \<in> kv_changed (address_fetch e s db) vals add upd rem" for t a
  proof -
    have normal: "normalize_addr (the (vals t)) = the (vals t)" if "t \<in> upd \<union> add" using that dom assms(2) by (force simp: ran_def)
    have "(t, a) \<in> address_fetch e s db' \<longleftrightarrow> (t, a) \<in> address_fetch e s ?db1 \<or> (t \<in> upd \<union> add \<and> a = normalize_addr (the (vals t)))"
      unfolding address_fetch_iff db'(2) using fin by (auto simp: image_iff)
    moreover have "(t, a) \<in> address_fetch e s ?db1 \<longleftrightarrow> (t, a) \<in> address_fetch e s db \<and> t \<notin> rem \<union> upd"
      unfolding address_fetch_iff db1 by (auto simp: image_iff)
    moreover have "vals t = Some a \<longleftrightarrow> a = the (vals t)" if "t \<in> upd \<union> add" using that dom by auto
    ultimately show ?thesis using normal unfolding kv_changed_def by auto
  qed
  ultimately show ?thesis using db'(1) db'(3) [unfolded delete_addresses_rest] by auto
qed

interpretation addresses: total_sync "address_fetch e s" "address_apply e s" address_keys "\<lambda>a. normalize_addr a = a \<and> short_address a"
  "address_rest e s" for e s
proof
  show "finite (address_fetch e s db)" for db by (simp add: address_fetch_def)
  show "address_apply e s vals {} {} {} db = Inr db" for vals db by (simp add: address_apply_def)
  show "address_keys db \<Longrightarrow> ran vals \<subseteq> {a. normalize_addr a = a \<and> short_address a} \<Longrightarrow>
      sound_changes (address_fetch e s db) vals to_add to_update to_remove \<Longrightarrow> address_apply e s vals to_add to_update to_remove db = Inr db' \<Longrightarrow>
      address_keys db' \<and> address_rest e s db' = address_rest e s db \<and>
      address_fetch e s db' = kv_changed (address_fetch e s db) vals to_add to_update to_remove"
    for db vals to_add to_update to_remove db'
    using address_apply_exact [of db vals e s to_add to_update to_remove] by auto
  show "address_keys db \<Longrightarrow> ran vals \<subseteq> {a. normalize_addr a = a \<and> short_address a} \<Longrightarrow>
      sound_changes (address_fetch e s db) vals to_add to_update to_remove \<Longrightarrow> \<exists>db'. address_apply e s vals to_add to_update to_remove db = Inr db'"
    for db vals to_add to_update to_remove
    using address_apply_exact [of db vals e s to_add to_update to_remove] by blast
qed (rule address_single)

lemma normalize_twice [simp]: "normalize_addr (normalize_addr a) = normalize_addr a"
  by (simp add: normalize_addr_def)

lemma address_sync_exact:
  assumes "address_keys db" "address_sync e s A pairs db = Inr (r, db')" "\<forall>p \<in> set pairs. short_address (snd p)"
  shows "charged A (address_fetch e s db') = (\<lambda>(t, a). (t, normalize_addr a)) ` set pairs"
    "address_rest e s db' = address_rest e s db" "address_sync e s A pairs db' = Inr (({}, {}, {}), db')"
proof -
  let ?pairs = "map (\<lambda>(t, a). (t, normalize_addr a)) pairs"
  have "\<forall>p \<in> set ?pairs. normalize_addr (snd p) = snd p \<and> short_address (snd p)"
    using assms(3) by (auto simp: short_address_def) (auto simp: normalize_addr_def)
  note result = addresses.sync_result [OF assms(1) this assms(2) [unfolded address_sync_def]]
  show "charged A (address_fetch e s db') = (\<lambda>(t, a). (t, normalize_addr a)) ` set pairs" using result(3) by simp
  show "address_rest e s db' = address_rest e s db" by (rule result(2))
  show "address_sync e s A pairs db' = Inr (({}, {}, {}), db')" using result(5) by (simp add: address_sync_def)
qed

section \<open>External ids\<close>

definition extid_keys :: "int \<Rightarrow> int \<Rightarrow> entity_db \<Rightarrow> bool" where
  "extid_keys e et db \<longleftrightarrow>
     distinct (map (\<lambda>r. (xi_entity r, xi_type r, xi_source r)) (ed_extid db)) \<and>
     (\<forall>r \<in> set (ed_extid db). xi_entity r = e \<longrightarrow> xi_entity_type r = et)"

lemma extid_fetch_iff:
  assumes "extid_keys e et db"
  shows "(t, v) \<in> extid_fetch e et s db \<longleftrightarrow>
    (\<exists>r \<in> set (ed_extid db). xi_entity r = e \<and> xi_source r = s \<and> xi_type r = t \<and> xi_value r = v)"
  using assms by (auto simp: extid_fetch_def get_external_id_def extid_keys_def image_iff)

lemma extid_row_unique:
  assumes "extid_keys e et db" "r \<in> set (ed_extid db)" "r' \<in> set (ed_extid db)"
    "xi_entity r = xi_entity r'" "xi_type r = xi_type r'" "xi_source r = xi_source r'"
  shows "r = r'"
  using assms by (auto simp: extid_keys_def distinct_map inj_on_def)

lemma extid_single: "extid_keys e et db \<Longrightarrow> single_valued (extid_fetch e et s db)"
  using extid_row_unique [of e et db] by (auto simp: single_valued_def extid_fetch_iff)

lemma update_rows:
  assumes "update_external_id e et s t v db = Inr db'" "length v \<le> 256"
    "\<lparr>xi_entity = e, xi_entity_type = et, xi_type = t, xi_source = s, xi_value = v\<rparr> \<notin> set (ed_extid db)"
  shows "ed_extid db' = map (\<lambda>r. if xi_entity r = e \<and> xi_type r = t \<and> xi_source r = s then r\<lparr>xi_value := v\<rparr> else r) (ed_extid db)"
  using assms(1,2) unfolding update_external_id_def if_not_P [OF assms(3)] by (simp split: if_split_asm) (drule sym, simp)

text \<open>Whatever writing a type does, the entity then has the populated value of that type, or none.\<close>

lemma extid_write_type_exact:
  assumes ok: "extid_keys e et db" and dbv: "\<And>w. dbvals t = Some w \<longleftrightarrow> (t, w) \<in> extid_fetch e et s db"
    and wrote: "extid_write_type e et s vals dbvals t db = Inr db'" and short: "ran vals \<subseteq> {v. length v \<le> 256}"
  shows "extid_keys e et db' \<and> extid_fetch e et s db' = {p \<in> extid_fetch e et s db. fst p \<noteq> t} \<union> {(t', v). t' = t \<and> vals t = Some v}"
proof -
  let ?F = "extid_fetch e et s db"
  have keep: "?thesis" if "extid_keys e et db'"
    "\<And>x v. (\<exists>r \<in> set (ed_extid db'). xi_entity r = e \<and> xi_source r = s \<and> xi_type r = x \<and> xi_value r = v) \<longleftrightarrow>
      (x \<noteq> t \<and> (x, v) \<in> ?F) \<or> (x = t \<and> vals t = Some v)"
    using that by (auto simp: extid_fetch_iff [OF that(1)])
  have short: "length v \<le> 256" if "vals t = Some v" for v using short that by (auto simp: ran_def)
  show ?thesis
  proof (cases "vals t")
    case None
    show ?thesis
    proof (cases "dbvals t")
      case n: None
      then show ?thesis using wrote None ok dbv by (auto simp: extid_write_type_def)
    next
      case (Some w)
      then have db': "db' = delete_external_id e s t db" using wrote None by (simp add: extid_write_type_def)
      then have rows: "ed_extid db' = filter (\<lambda>r. \<not> (xi_entity r = e \<and> xi_type r = t \<and> xi_source r = s)) (ed_extid db)"
        by (auto simp: delete_external_id_def list_ex_iff ed_log_change_def intro!: filter_True [symmetric])
      have "extid_keys e et db'" using ok by (auto simp: extid_keys_def rows distinct_map inj_on_def)
      then show ?thesis by (rule keep) (auto simp: rows None extid_fetch_iff [OF ok])
    qed
  next
    case (Some v)
    show ?thesis
    proof (cases "dbvals t")
      case None
      then have ins: "insert_external_id e et s t v db = Inr db'" using wrote Some by (simp add: extid_write_type_def)
      let ?r = "\<lparr>xi_entity = e, xi_entity_type = et, xi_type = t, xi_source = s, xi_value = v\<rparr>"
      have rows: "ed_extid db' = ed_extid db @ [?r]" and
        free: "\<forall>r \<in> set (ed_extid db). \<not> (xi_entity r = e \<and> xi_type r = t \<and> xi_source r = s)"
        using ins short [OF Some] by (auto simp: insert_external_id_def list_ex_iff split: if_splits)
      have "extid_keys e et db'" using ok free by (auto simp: extid_keys_def rows)
      then show ?thesis using free by - (rule keep, auto simp: rows Some extid_fetch_iff [OF ok])
    next
      case old: (Some w)
      show ?thesis
      proof (cases "v = w")
        case True
        then have "db' = db" "(t, v) \<in> ?F" using wrote Some old dbv [of w] by (auto simp: extid_write_type_def)
        moreover have "x = v" if "(t, x) \<in> ?F" for x using single_valuedD [OF extid_single [OF ok]] that \<open>(t, v) \<in> ?F\<close> by metis
        ultimately have "?F = {p \<in> ?F. fst p \<noteq> t} \<union> {(t', v). t' = t \<and> vals t = Some v}" unfolding Some by fastforce
        then show ?thesis using ok \<open>db' = db\<close> by simp
      next
        case False
        then have upd: "update_external_id e et s t v db = Inr db'" using wrote Some old by (simp add: extid_write_type_def)
        have "(t, w) \<in> ?F" using old dbv by simp
        then obtain r where r: "r \<in> set (ed_extid db)" "xi_entity r = e" "xi_source r = s" "xi_type r = t" "xi_value r = w"
          by (auto simp: extid_fetch_iff [OF ok])
        let ?r = "\<lparr>xi_entity = e, xi_entity_type = et, xi_type = t, xi_source = s, xi_value = v\<rparr>"
        have "?r \<notin> set (ed_extid db)"
        proof
          assume "?r \<in> set (ed_extid db)"
          then have "r = ?r" by (rule extid_row_unique [OF ok r(1)]) (simp_all add: r)
          then have "xi_value r = v" by simp
          then show False using r(5) False by simp
        qed
        then have rows: "ed_extid db' = map (\<lambda>r. if xi_entity r = e \<and> xi_type r = t \<and> xi_source r = s then r\<lparr>xi_value := v\<rparr> else r) (ed_extid db)"
          by (rule update_rows [OF upd short [OF Some]])
        have same: "map (\<lambda>r. (xi_entity r, xi_type r, xi_source r)) (ed_extid db') = map (\<lambda>r. (xi_entity r, xi_type r, xi_source r)) (ed_extid db)"
          by (simp add: rows)
        have "xi_entity_type x = et" if x: "x \<in> set (ed_extid db')" "xi_entity x = e" for x
        proof -
          obtain y where "y \<in> set (ed_extid db)" "xi_entity y = xi_entity x" "xi_entity_type y = xi_entity_type x"
            using x(1) unfolding rows set_map by (elim imageE) (simp split: if_splits)
          then show ?thesis using ok x(2) unfolding extid_keys_def by metis
        qed
        then have "extid_keys e et db'" using ok unfolding extid_keys_def same by blast
        then show ?thesis
        proof (rule keep)
          fix x u
          have "(\<exists>y \<in> set (ed_extid db'). xi_entity y = e \<and> xi_source y = s \<and> xi_type y = x \<and> xi_value y = u) \<longleftrightarrow>
            (\<exists>y \<in> set (ed_extid db). xi_entity y = e \<and> xi_source y = s \<and> xi_type y = x \<and> (if x = t then v else xi_value y) = u)"
            unfolding rows set_map bex_simps(7) by (intro bex_cong) auto
          also have "\<dots> \<longleftrightarrow> (x \<noteq> t \<and> (x, u) \<in> ?F) \<or> (x = t \<and> vals t = Some u)"
            using r Some by (cases "x = t") (auto simp: extid_fetch_iff [OF ok])
          finally show "(\<exists>y \<in> set (ed_extid db'). xi_entity y = e \<and> xi_source y = s \<and> xi_type y = x \<and> xi_value y = u) \<longleftrightarrow>
            (x \<noteq> t \<and> (x, u) \<in> ?F) \<or> (x = t \<and> vals t = Some u)" .
        qed
      qed
    qed
  qed
qed

lemma extid_fold_exact:
  "extid_keys e et db \<Longrightarrow> distinct ts \<Longrightarrow> ran vals \<subseteq> {v. length v \<le> 256} \<Longrightarrow> (\<And>t w. t \<in> set ts \<Longrightarrow> dbvals t = Some w \<longleftrightarrow> (t, w) \<in> extid_fetch e et s db) \<Longrightarrow>
   fold_res (extid_write_type e et s vals dbvals) ts db = Inr db' \<Longrightarrow>
   extid_keys e et db' \<and> extid_fetch e et s db' = {p \<in> extid_fetch e et s db. fst p \<notin> set ts} \<union> {(t, v). t \<in> set ts \<and> vals t = Some v}"
proof (induction ts arbitrary: db)
  case (Cons t ts)
  obtain db1 where db1: "extid_write_type e et s vals dbvals t db = Inr db1" "fold_res (extid_write_type e et s vals dbvals) ts db1 = Inr db'"
    using Cons.prems(5) by (auto simp: res_simps)
  have one: "extid_keys e et db1"
    "extid_fetch e et s db1 = {p \<in> extid_fetch e et s db. fst p \<noteq> t} \<union> {(t', v). t' = t \<and> vals t = Some v}"
    using extid_write_type_exact [OF Cons.prems(1) _ db1(1) Cons.prems(3)] Cons.prems(4) by auto
  have "dbvals x = Some w \<longleftrightarrow> (x, w) \<in> extid_fetch e et s db1" if "x \<in> set ts" for x w
    using that Cons.prems(2,4) by (auto simp: one(2))
  from Cons.IH [OF one(1) _ Cons.prems(3) this db1(2)] Cons.prems(2)
  have rest: "extid_keys e et db'"
    "extid_fetch e et s db' = {p \<in> extid_fetch e et s db1. fst p \<notin> set ts} \<union> {(t, v). t \<in> set ts \<and> vals t = Some v}" by auto
  show ?case using rest(1) Cons.prems(2) unfolding rest(2) one(2) by auto
qed auto

definition extid_rest where
  "extid_rest e s db = (filter (\<lambda>r. \<not> (xi_entity r = e \<and> xi_source r = s)) (ed_extid db), ed_contact db, ed_address db)"

lemma filter_map_others: "(\<And>x. P x \<Longrightarrow> f x = x) \<Longrightarrow> (\<And>x. P (f x) = P x) \<Longrightarrow> filter P (map f xs) = filter P xs"
  by (induction xs) auto

lemma extid_write_type_rest:
  assumes "extid_write_type e et s vals dbvals t db = Inr db'"
  shows "extid_rest e s db' = extid_rest e s db"
proof -
  have "extid_rest e s (delete_external_id e s t db) = extid_rest e s db"
    by (auto simp: extid_rest_def delete_external_id_def ed_log_change_def intro!: filter_cong)
  moreover have "insert_external_id e et s t v db = Inr db1 \<Longrightarrow> extid_rest e s db1 = extid_rest e s db" for v db1
    by (auto simp: extid_rest_def insert_external_id_def ed_log_change_def split: if_splits)
  moreover have "update_external_id e et s t v db = Inr db1 \<Longrightarrow> extid_rest e s db1 = extid_rest e s db" for v db1
    by (auto simp: extid_rest_def update_external_id_def ed_log_change_def split: if_splits intro!: filter_map_others)
  ultimately show ?thesis using assms by (auto simp: extid_write_type_def split: option.splits if_splits)
qed

lemma extid_fold_rest: "fold_res (extid_write_type e et s vals dbvals) ts db = Inr db' \<Longrightarrow> extid_rest e s db' = extid_rest e s db"
  by (induction ts arbitrary: db) (auto simp: res_simps dest: extid_write_type_rest)

lemma extid_apply_exact:
  assumes ok: "extid_keys e et db" and sound: "sound_changes (extid_fetch e et s db) vals add upd rem"
    and wrote: "extid_apply e et s vals add upd rem db = Inr db'" and short: "ran vals \<subseteq> {v. length v \<le> 256}"
  shows "extid_keys e et db' \<and> extid_rest e s db' = extid_rest e s db \<and> extid_fetch e et s db' = kv_changed (extid_fetch e et s db) vals add upd rem"
proof (cases "add \<union> rem \<union> upd = {}")
  case True
  then show ?thesis using ok wrote by (simp add: extid_apply_def kv_changed_def)
next
  case False
  let ?F = "extid_fetch e et s db" and ?ts = "elems (add \<union> rem \<union> upd)"
  let ?rows = "get_external_id e et (Some s) None db"
  let ?dbvals = "map_of (map (\<lambda>r. (xi_type r, xi_value r)) (rev ?rows))"
  have ch: "finite (add \<union> rem \<union> upd)" "add \<inter> fst ` ?F = {}" "add \<union> upd \<subseteq> dom vals" "rem \<inter> dom vals = {}"
    using sound unfolding sound_changes_def by (blast, blast, blast, blast)
  have F: "?F = set (map (\<lambda>r. (xi_type r, xi_value r)) (rev ?rows))" by (simp add: extid_fetch_def)
  have dbvals: "?dbvals t = Some w \<longleftrightarrow> (t, w) \<in> ?F" for t w
  proof
    show "?dbvals t = Some w \<Longrightarrow> (t, w) \<in> ?F" unfolding F by (rule map_of_SomeD)
    assume mem: "(t, w) \<in> ?F"
    then obtain w' where w': "?dbvals t = Some w'" unfolding F using weak_map_of_SomeI by metis
    then have "(t, w') \<in> ?F" unfolding F by (rule map_of_SomeD)
    then show "?dbvals t = Some w" using single_valuedD [OF extid_single [OF ok] mem] w' by simp
  qed
  have run: "fold_res (extid_write_type e et s vals ?dbvals) ?ts db = Inr db'"
    using wrote unfolding extid_apply_def if_not_P [OF False] extid_write_db_def Let_def .
  from extid_fold_exact [OF ok elems_props(2) short dbvals run]
  have "extid_keys e et db'" "extid_fetch e et s db' = {p \<in> ?F. fst p \<notin> add \<union> rem \<union> upd} \<union> {(t, v). t \<in> add \<union> rem \<union> upd \<and> vals t = Some v}"
    unfolding elems_props(1) [OF ch(1)] by blast+
  moreover have "{p \<in> ?F. fst p \<notin> add \<union> rem \<union> upd} = {p \<in> ?F. fst p \<notin> upd \<union> rem}" using ch(2) by blast
  moreover have "{(t, v). t \<in> add \<union> rem \<union> upd \<and> vals t = Some v} = {(t, v). t \<in> add \<union> upd \<and> vals t = Some v}" using ch(4) by blast
  ultimately show ?thesis using extid_fold_rest [OF run] unfolding kv_changed_def by simp
qed

interpretation extids: key_value_sync "extid_fetch e et s" "extid_apply e et s" "extid_keys e et" "\<lambda>v. length v \<le> 256" "extid_rest e s" for e et s
proof
  show "finite (extid_fetch e et s db)" for db by (simp add: extid_fetch_def)
  show "extid_apply e et s vals {} {} {} db = Inr db" for vals db by (simp add: extid_apply_def)
qed (use extid_single extid_apply_exact in \<open>blast+\<close>)

text \<open>
  When synchronising the external ids of an entity does not raise, the entity then has exactly the given ids
  of the types the synchronisation is in charge of, its other ids from that source as before, the ids of other entities and
  sources are unchanged, and synchronising again changes nothing.
\<close>

theorem extid_sync_exact:
  assumes "extid_keys e et db" "extid_sync e et s A pairs db = Inr (r, db')" "\<forall>p \<in> set pairs. length (snd p) \<le> 256"
  shows "extid_rest e s db' = extid_rest e s db \<and> {p \<in> extid_fetch e et s db'. in_charge A (fst p)} = set pairs \<and>
    {p \<in> extid_fetch e et s db'. \<not> in_charge A (fst p)} = {p \<in> extid_fetch e et s db. \<not> in_charge A (fst p)} \<and>
    extid_sync e et s A pairs db' = Inr (({}, {}, {}), db')"
  using extids.sync_result [OF assms(1,3) assms(2) [unfolded extid_sync_def]] by (simp add: extid_sync_def charged_def)

section \<open>Populating and writing contact information\<close>

definition contact_key :: "contact_row \<Rightarrow> int \<times> int \<times> int \<times> int" where
  "contact_key r = (ct_entity r, ct_source r, ct_type r, ct_pref r)"

definition contact_keys :: "entity_db \<Rightarrow> bool" where
  "contact_keys db \<longleftrightarrow> distinct (map contact_key (ed_contact db))"

text \<open>The rows of an entity from a source, as the data of an instance has them.\<close>

definition contact_view :: "int \<Rightarrow> int \<Rightarrow> entity_db \<Rightarrow> ((int \<times> int) \<times> string \<times> string option \<times> string option) set" where
  "contact_view e s db = (\<lambda>r. ((ct_type r, ct_pref r), ct_value r, ct_alias r, ct_description r)) `
     {r \<in> set (ed_contact db). ct_entity r = e \<and> ct_source r = s}"

definition agrees :: "((int \<times> int) \<times> string \<times> string option \<times> string option) list \<Rightarrow> contact_row \<Rightarrow> bool" where
  "agrees d r \<longleftrightarrow> map_of d (ct_type r, ct_pref r) = Some (ct_value r, ct_alias r, ct_description r)"

lemma delete_contact_one:
  assumes "r \<in> set (ed_contact db)" "ct_entity r = e" "ct_source r = s" "contact_keys db"
  shows "ed_contact (delete_contact_info e s (ct_type r) (Some (ct_pref r)) db) = filter (\<lambda>x. x \<noteq> r) (ed_contact db)"
proof -
  have "entity_get_contact_info e (Some s) (Some (ct_type r)) db \<noteq> []" using assms(1-3) by (auto simp: entity_get_contact_info_def filter_empty_conv)
  moreover have "(ct_entity x = e \<and> ct_source x = s \<and> ct_type x = ct_type r \<and> ct_pref r = ct_pref x) \<longleftrightarrow> x = r" if "x \<in> set (ed_contact db)" for x
    using assms that inj_onD [of contact_key "set (ed_contact db)" x r] by (auto simp: contact_keys_def distinct_map contact_key_def)
  then have "filter (\<lambda>x. \<not> (ct_entity x = e \<and> ct_source x = s \<and> ct_type x = ct_type r \<and> (Some (ct_pref r) = None \<or> Some (ct_pref r) = Some (ct_pref x)))) (ed_contact db)
      = filter (\<lambda>x. x \<noteq> r) (ed_contact db)" by (intro filter_cong) simp_all
  ultimately show ?thesis by (simp add: delete_contact_info_def)
qed

lemma contact_key_differs:
  assumes "contact_keys db" "r \<in> set (ed_contact db)" "x \<in> set (ed_contact db)" "x \<noteq> r"
    "ct_entity x = ct_entity r" "ct_source x = ct_source r"
  shows "(ct_type x, ct_pref x) \<noteq> (ct_type r, ct_pref r)"
  using assms inj_onD [of contact_key "set (ed_contact db)" x r] by (auto simp: contact_keys_def distinct_map contact_key_def)

lemma agrees_del: "(ct_type x, ct_pref x) \<noteq> k \<Longrightarrow> agrees (dict_del k d) x = agrees d x"
  by (simp add: agrees_def)

lemma contact_keys_filter: "contact_keys db \<Longrightarrow> ed_contact db' = filter P (ed_contact db) \<Longrightarrow> contact_keys db'"
  by (auto simp: contact_keys_def distinct_map inj_on_def)

definition settled :: "contact_row list \<Rightarrow> ((int \<times> int) \<times> string \<times> string option \<times> string option) list \<Rightarrow> (int \<times> int) set" where
  "settled rows d = (\<lambda>r. (ct_type r, ct_pref r)) ` {r \<in> set rows. agrees d r}"

lemma contact_loop:
  "distinct rows \<Longrightarrow> contact_keys db \<Longrightarrow> \<forall>r \<in> set rows. r \<in> set (ed_contact db) \<and> ct_entity r = e \<and> ct_source r = s \<Longrightarrow>
   \<exists>db'. fold (contact_write_row e s) rows (db, d) = (db', filter (\<lambda>p. fst p \<notin> settled rows d) d) \<and>
     ed_contact db' = filter (\<lambda>x. x \<notin> {r \<in> set rows. \<not> agrees d r}) (ed_contact db)"
proof (induction rows arbitrary: db d)
  case Nil
  then show ?case by (simp add: settled_def)
next
  case (Cons r rows)
  have r: "r \<in> set (ed_contact db)" "ct_entity r = e" "ct_source r = s" using Cons.prems(3) by auto
  have differs: "(ct_type x, ct_pref x) \<noteq> (ct_type r, ct_pref r)" if "x \<in> set rows" for x
  proof (rule contact_key_differs [OF Cons.prems(2) r(1)])
    show "x \<noteq> r" using Cons.prems(1) that by auto
  qed (use Cons.prems(3) that r in simp_all)
  show ?case
  proof (cases "agrees d r")
    case True
    let ?d = "dict_del (ct_type r, ct_pref r) d"
    have same: "agrees ?d x = agrees d x" if "x \<in> set rows" for x using agrees_del differs [OF that] by blast
    have settled: "settled (r # rows) d = insert (ct_type r, ct_pref r) (settled rows ?d)"
      using True same by (auto simp: settled_def)
    have step: "contact_write_row e s r (db, d) = (db, ?d)" using True by (simp add: contact_write_row_def agrees_def)
    have "\<forall>x \<in> set rows. x \<in> set (ed_contact db) \<and> ct_entity x = e \<and> ct_source x = s" using Cons.prems(3) by simp
    from Cons.IH [OF _ Cons.prems(2) this, of ?d] Cons.prems(1) obtain db' where
      IH: "fold (contact_write_row e s) rows (db, ?d) = (db', filter (\<lambda>p. fst p \<notin> settled rows ?d) ?d)"
        "ed_contact db' = filter (\<lambda>x. x \<notin> {r \<in> set rows. \<not> agrees ?d r}) (ed_contact db)" by auto
    have "filter (\<lambda>p. fst p \<notin> settled rows ?d) ?d = filter (\<lambda>p. fst p \<notin> settled (r # rows) d) d"
      unfolding settled dict_del_def filter_filter by (rule filter_cong) auto
    moreover have "{x \<in> set rows. \<not> agrees ?d x} = {x \<in> set (r # rows). \<not> agrees d x}" using same True by auto
    ultimately show ?thesis using IH step by simp
  next
    case False
    let ?db = "delete_contact_info e s (ct_type r) (Some (ct_pref r)) db"
    have rows1: "ed_contact ?db = filter (\<lambda>x. x \<noteq> r) (ed_contact db)" by (rule delete_contact_one [OF r Cons.prems(2)])
    have step: "contact_write_row e s r (db, d) = (?db, d)" using False by (simp add: contact_write_row_def agrees_def)
    have "\<forall>x \<in> set rows. x \<in> set (ed_contact ?db) \<and> ct_entity x = e \<and> ct_source x = s"
      using Cons.prems(1,3) by (auto simp: rows1)
    from Cons.IH [OF _ contact_keys_filter [OF Cons.prems(2) rows1] this, of d] Cons.prems(1) obtain db' where
      IH: "fold (contact_write_row e s) rows (?db, d) = (db', filter (\<lambda>p. fst p \<notin> settled rows d) d)"
        "ed_contact db' = filter (\<lambda>x. x \<notin> {r \<in> set rows. \<not> agrees d r}) (ed_contact ?db)" by auto
    have "settled (r # rows) d = settled rows d" using False by (auto simp: settled_def)
    moreover have "ed_contact db' = filter (\<lambda>x. x \<notin> {x \<in> set (r # rows). \<not> agrees d x}) (ed_contact db)"
      unfolding IH(2) rows1 filter_filter using False by (intro filter_cong) auto
    ultimately show ?thesis using IH(1) step by simp
  qed
qed

definition short_data :: "(int \<times> int) \<times> string \<times> string option \<times> string option \<Rightarrow> bool" where
  "short_data = (\<lambda>((t, p), (v, a, d)). length v \<le> 255 \<and> none_or (\<lambda>s. length s \<le> 255) a \<and> none_or (\<lambda>s. length s \<le> 512) d \<and> \<bar>p\<bar> < 100)"

definition data_row :: "int \<Rightarrow> int \<Rightarrow> (int \<times> int) \<times> string \<times> string option \<times> string option \<Rightarrow> contact_row" where
  "data_row e s = (\<lambda>((t, p), (v, a, d)). \<lparr>ct_entity = e, ct_source = s, ct_type = t, ct_pref = p, ct_value = v, ct_description = d, ct_alias = a\<rparr>)"

lemma add_data:
  "distinct (keys d) \<Longrightarrow> \<forall>r \<in> set (ed_contact db). ct_entity r = e \<and> ct_source r = s \<longrightarrow> (ct_type r, ct_pref r) \<notin> set (keys d) \<Longrightarrow>
   \<forall>x \<in> set d. short_data x \<Longrightarrow>
   \<exists>db'. fold_res (\<lambda>((type, pref), (val, alias, description)). entity_add_contact_info e s type val (Some pref) description alias) d db = Inr db' \<and>
     ed_contact db' = ed_contact db @ map (data_row e s) d"
proof (induction d arbitrary: db)
  case (Cons x d)
  obtain t p v a desc where x: "x = ((t, p), (v, a, desc))" by (metis surj_pair)
  let ?db = "ed_log_change e ''entity_cinfo_add'' (db\<lparr>ed_contact := ed_contact db @ [data_row e s x]\<rparr>)"
  have add: "entity_add_contact_info e s t v (Some p) desc a db = Inr ?db"
    using Cons.prems(2,3) by (auto simp: entity_add_contact_info_def data_row_def x list_ex_iff short_data_def short_fits short_options)
  have rows: "ed_contact ?db = ed_contact db @ [data_row e s x]" by (simp add: ed_log_change_def)
  have "\<forall>r \<in> set (ed_contact ?db). ct_entity r = e \<and> ct_source r = s \<longrightarrow> (ct_type r, ct_pref r) \<notin> set (keys d)"
    using Cons.prems unfolding rows by (auto simp: data_row_def x)
  from Cons.IH [OF _ this] Cons.prems(1,3) show ?case using add rows by (auto simp: x)
qed simp

text \<open>How the view of an entity's rows grows by added data and shrinks in the loop.\<close>

lemma contact_view_added:
  assumes "ed_contact db' = ed_contact db @ map (data_row e s) d"
  shows "contact_view e s db' = contact_view e s db \<union> set d" and "contact_others e s db' = contact_others e s db"
proof -
  have data: "(ct_type (data_row e s x), ct_pref (data_row e s x)) = fst x"
    "(ct_value (data_row e s x), ct_alias (data_row e s x), ct_description (data_row e s x)) = snd x"
    "ct_entity (data_row e s x) = e \<and> ct_source (data_row e s x) = s" for x
    by (simp_all add: data_row_def split: prod.splits)
  then have "{r \<in> set (ed_contact db'). ct_entity r = e \<and> ct_source r = s} =
    {r \<in> set (ed_contact db). ct_entity r = e \<and> ct_source r = s} \<union> data_row e s ` set d" unfolding assms by auto
  then show "contact_view e s db' = contact_view e s db \<union> set d"
    by (simp only: contact_view_def image_Un image_image data prod.collapse image_ident)
  have "filter (\<lambda>r. \<not> (ct_entity r = e \<and> ct_source r = s)) (map (data_row e s) d) = []"
    using data(3) by (auto simp: filter_empty_conv)
  then show "contact_others e s db' = contact_others e s db" by (simp add: contact_others_def assms)
qed

lemma contact_view_settled:
  assumes "set rows = {x \<in> set (ed_contact db). ct_entity x = e \<and> ct_source x = s}" "distinct (keys d)"
    "ed_contact db' = filter (\<lambda>x. x \<notin> {r \<in> set rows. \<not> agrees d r}) (ed_contact db)"
  shows "contact_view e s db' = {p \<in> set d. fst p \<in> settled rows d}"
proof (rule set_eqI)
  fix x :: "(int \<times> int) \<times> string \<times> string option \<times> string option"
  obtain k w where x: "x = (k, w)" by (cases x)
  have "x \<in> contact_view e s db' \<longleftrightarrow> (\<exists>r \<in> set rows. agrees d r \<and> (ct_type r, ct_pref r) = k \<and> map_of d k = Some w)"
    unfolding contact_view_def assms(3) x assms(1) by (auto simp: agrees_def image_iff)
  also have "\<dots> \<longleftrightarrow> k \<in> settled rows d \<and> map_of d k = Some w" by (auto simp: settled_def)
  also have "map_of d k = Some w \<longleftrightarrow> (k, w) \<in> set d" using assms(2) by simp
  finally show "x \<in> contact_view e s db' \<longleftrightarrow> x \<in> {p \<in> set d. fst p \<in> settled rows d}" by (auto simp: x)
qed

text \<open>
  Writing contact information that was populated for a source system succeeds when it fits its columns; the entity then has exactly the
  populated rows from that source, keyed by type and preference, and all other rows of the table are as before.
\<close>

theorem contact_write_exact:
  assumes "contact_keys db" "distinct (keys d)" "\<forall>x \<in> set d. short_data x"
  shows "\<exists>db'. contact_write_db e \<lparr>src_sys = Some s, contact_data = Some d\<rparr> db = Inr db' \<and>
    contact_view e s db' = set d \<and> contact_others e s db' = contact_others e s db"
proof -
  let ?rows = "entity_get_contact_info e (Some s) None db" and ?k = "\<lambda>r. (ct_type r, ct_pref r)"
  let ?rest = "filter (\<lambda>p. fst p \<notin> settled ?rows d) d"
  have rows: "x \<in> set ?rows \<longleftrightarrow> x \<in> set (ed_contact db) \<and> ct_entity x = e \<and> ct_source x = s" for x
    by (auto simp: entity_get_contact_info_def)
  have set_rows: "set ?rows = {x \<in> set (ed_contact db). ct_entity x = e \<and> ct_source x = s}" using rows by blast
  have "distinct (ed_contact db)" using assms(1) by (simp add: contact_keys_def distinct_map)
  then have "distinct ?rows" by (simp add: entity_get_contact_info_def)
  from contact_loop [OF this assms(1), of e s d] rows obtain db1 where
    loop: "fold (contact_write_row e s) ?rows (db, d) = (db1, ?rest)"
    and db1: "ed_contact db1 = filter (\<lambda>x. x \<notin> {r \<in> set ?rows. \<not> agrees d r}) (ed_contact db)" by blast
  have left: "?k r \<in> settled ?rows d" if "r \<in> set (ed_contact db1)" "ct_entity r = e" "ct_source r = s" for r
    using that rows by (auto simp: db1 settled_def)
  have "distinct (keys ?rest)" using assms(2) by (simp add: distinct_map inj_on_def)
  moreover have "\<forall>r \<in> set (ed_contact db1). ct_entity r = e \<and> ct_source r = s \<longrightarrow> ?k r \<notin> set (keys ?rest)" using left by auto
  ultimately obtain db' where db': "contact_write_db e \<lparr>src_sys = Some s, contact_data = Some d\<rparr> db = Inr db'"
    "ed_contact db' = ed_contact db1 @ map (data_row e s) ?rest"
    using add_data [of ?rest db1 e s] assms(3) by (auto simp: contact_write_db_def loop)
  note views = contact_view_added [OF db'(2)] contact_view_settled [OF set_rows assms(2) db1]
  have "contact_view e s db' = set d" unfolding views(1,3) by auto
  moreover have "contact_others e s db1 = contact_others e s db"
    unfolding contact_others_def db1 filter_filter by (intro filter_cong) (auto simp: rows)
  ultimately show ?thesis using db'(1) views(2) by auto
qed

section \<open>What is overlooked\<close>

text \<open>
  An entity with two values of a type, under different preferences, keeps both when the source delivers one
  of them: synchronising asks for no change, and the entity has a value the source no longer has.
\<close>

theorem contact_sync_overlooks:
  assumes "(t, v) \<in> contact_fetch e s db" "(t, w) \<in> contact_fetch e s db" "v \<noteq> w" "fst ` contact_fetch e s db = {t}"
  shows "contact_sync e s None [(t, v)] db = Inr (({}, {}, {}), db) \<and> (t, w) \<in> contact_fetch e s db"
proof -
  let ?F = "contact_fetch e s db"
  have "charged None ?F = ?F" by (simp add: charged_def in_charge_def)
  then have "adds None [(t, v)] ?F = {}" "updates None [(t, v)] ?F = {}" "removes None [(t, v)] ?F = {}"
    using assms(1,4) by (auto simp: delta_defs)
  then have "contact_sync e s None [(t, v)] db = Inr (({}, {}, {}), db)"
    by (simp add: contact_sync_def kv_sync_eq valid_pairs_def in_charge_def contacts.apply_nothing)
  then show ?thesis using assms(2) by simp
qed

text \<open>A cached external id that an entity does not have yet is not stored.\<close>

lemma cached_id_not_stored:
  assumes "\<not> list_ex (\<lambda>r. xi_entity r = e \<and> xi_type r = variant \<and> xi_source r = sys_cache) (ed_extid db)"
  shows "\<exists>db'. set_cached_external_id e et sys_cache variant val db = Inr db' \<and> ed_extid db' = ed_extid db"
proof (cases val)
  case None
  then show ?thesis using assms by (simp add: set_cached_external_id_def delete_external_id_def)
next
  case (Some v)
  have "\<lparr>xi_entity = e, xi_entity_type = et, xi_type = variant, xi_source = sys_cache, xi_value = v\<rparr> \<notin> set (ed_extid db)"
    using assms by (auto simp: list_ex_iff)
  moreover have "map (\<lambda>r. if xi_entity r = e \<and> xi_type r = variant \<and> xi_source r = sys_cache then r\<lparr>xi_value := take 256 v\<rparr> else r) (ed_extid db) = ed_extid db"
    using assms by (intro map_idI) (auto simp: list_ex_iff)
  ultimately show ?thesis using Some assms by (simp add: set_cached_external_id_def update_external_id_def)
qed

section \<open>Examples\<close>

definition phone :: "int \<Rightarrow> int \<Rightarrow> string \<Rightarrow> contact_row" where
  "phone t p v = \<lparr>ct_entity = 1, ct_source = 7, ct_type = t, ct_pref = p, ct_value = v, ct_description = None, ct_alias = None\<rparr>"

definition person_db :: entity_db where
  "person_db = \<lparr>ed_contact = [phone 10 1 ''123'', phone 11 1 ''456''], ed_address = [],
     ed_extid = [\<lparr>xi_entity = 1, xi_entity_type = 2, xi_type = 20, xi_source = 7, xi_value = ''a''\<rparr>], ed_log = []\<rparr>"

lemma person_fetch: "contact_fetch 1 7 person_db = {(10, ''123''), (11, ''456'')}"
  by (auto simp: contact_fetch_iff person_db_def phone_def set_eq_iff)

theorem contact_sync_exact_witness:
  "\<exists>r db'. contact_sync 1 7 None [(10, ''999'')] person_db = Inr (r, db') \<and> contact_fetch 1 7 db' = {(10, ''999'')}"
proof -
  have "single_valued (contact_fetch 1 7 person_db)" by (auto simp: person_fetch single_valued_def)
  moreover have "\<forall>r \<in> set (ed_contact person_db). length (ct_value r) \<le> 255" by (simp add: person_db_def phone_def)
  moreover have "valid_pairs None [(10, ''999'')]" by (simp add: valid_pairs_def in_charge_def)
  ultimately obtain r db' where "contact_sync 1 7 None [(10, ''999'')] person_db = Inr (r, db')"
    "{p \<in> contact_fetch 1 7 db'. in_charge None (fst p)} = {(10, ''999'')}" using contact_sync_exact [of 1 7 person_db None "[(10, ''999'')]"] by auto
  then show ?thesis by (cases r) (auto simp: in_charge_def)
qed

theorem extid_sync_exact_witness:
  "\<exists>r db'. extid_sync 1 2 7 None [(20, ''b''), (21, ''c'')] person_db = Inr (r, db') \<and> extid_fetch 1 2 7 db' = {(20, ''b''), (21, ''c'')}"
proof -
  have keys: "extid_keys 1 2 person_db" by (simp add: extid_keys_def person_db_def)
  obtain r db' where sync: "extid_sync 1 2 7 None [(20, ''b''), (21, ''c'')] person_db = Inr (r, db')"
    by (simp add: extid_sync_def kv_sync_eq valid_pairs_def in_charge_def delta_defs charged_def extid_fetch_def get_external_id_def
        person_db_def extid_apply_def elems_def extid_write_db_def extid_write_type_def update_external_id_def insert_external_id_def ed_log_change_def too_long_def)
  then show ?thesis using extid_sync_exact [OF keys sync] by (cases r) (auto simp: in_charge_def)
qed

theorem contact_write_exact_witness:
  "\<exists>db'. contact_write_db 1 \<lparr>src_sys = Some 7, contact_data = Some [((10, 1), (''123'', None, None)), ((12, 50), (''x'', None, None))]\<rparr> person_db = Inr db' \<and>
     contact_view 1 7 db' = {((10, 1), (''123'', None, None)), ((12, 50), (''x'', None, None))}"
proof -
  have "contact_keys person_db" by (simp add: contact_keys_def contact_key_def person_db_def phone_def)
  moreover have "distinct (keys [((10 :: int, 1 :: int), (''123'', None, None)), ((12, 50), (''x'', None, None))])" by simp
  ultimately show ?thesis using contact_write_exact [of person_db "[((10, 1), (''123'', None, None)), ((12, 50), (''x'', None, None))]" 1 7] by (auto simp: short_data_def)
qed

theorem contact_sync_overlooks_witness:
  "contact_sync 1 7 None [(10, ''123'')] (person_db\<lparr>ed_contact := [phone 10 1 ''123'', phone 10 2 ''000'']\<rparr>) =
     Inr (({}, {}, {}), person_db\<lparr>ed_contact := [phone 10 1 ''123'', phone 10 2 ''000'']\<rparr>)"
proof -
  let ?db = "person_db\<lparr>ed_contact := [phone 10 1 ''123'', phone 10 2 ''000'']\<rparr>"
  have "contact_fetch 1 7 ?db = {(10, ''123''), (10, ''000'')}" by (auto simp: contact_fetch_iff phone_def set_eq_iff)
  then show ?thesis using contact_sync_overlooks [of 10 "''123''" 1 7 ?db "''000''"] by simp
qed

end
