(* ===== verification/Usernames.thy ===== *)
theory Usernames
  imports Py_Strings
begin

text \<open>
  Suggestions for new user names: \<^verbatim>\<open>src/Cerebrum/utils/username.py\<close>, the transliteration of names
  (\<^verbatim>\<open>src/Cerebrum/utils/transliterate.py\<close>) it starts from, and the methods of \<^verbatim>\<open>src/Cerebrum/Account.py\<close> that ask for
  names nobody has. A name in the database is a list of code points. Unicode normalisation is done by Python's tables and the
  last step to ASCII by the package \<^verbatim>\<open>unidecode\<close>: the arguments \<open>nfc\<close> and \<open>unidecode\<close>.

  Shown: which exception is raised when, and that otherwise every suggestion is accepted by the validation and, given
  room for two characters, fits the maximal length; fewer than fifteen are suggested only if all numbered ones were
  tried. Hyphens between spaces survive the transliteration and make the function raise; the numbered suggestions
  lack the prefix.
\<close>

section \<open>Transliteration\<close>

definition iso646_60_to_ascii :: "nat list \<Rightarrow> nat list" where
  "iso646_60_to_ascii s =
     map (\<lambda>c. case map_of [(91, 65), (92, 79), (93, 65), (123, 97), (124, 111), (125, 97), (191, 111)] c of None \<Rightarrow> c | Some d \<Rightarrow> d) s"

definition preferred_transliterations :: "nat list \<Rightarrow> nat list" where
  "preferred_transliterations s =
     concat (map (\<lambda>c. case map_of [(198, ''Ae''), (230, ''ae''), (197, ''Aa''), (229, ''aa''), (208, ''Dh''), (240, ''dh'')] c of
       None \<Rightarrow> [c] | Some r \<Rightarrow> map of_char r) s)"

definition name_char :: "char \<Rightarrow> bool" where
  "name_char c \<longleftrightarrow> is_alpha c \<or> is_digit c \<or> c = CHR '' '' \<or> c = CHR ''-''"

definition strip_not_letter_digit_space_dash :: "string \<Rightarrow> string" where
  "strip_not_letter_digit_space_dash s = filter name_char s"

text \<open>The substitutions of runs of white space, and of hyphens with one space on either side, as \<^verbatim>\<open>re.sub\<close> scans.\<close>

function squeeze_spaces :: "string \<Rightarrow> string" where
  "squeeze_spaces [] = []"
| "squeeze_spaces (c # s) =
     (if is_space c then CHR '' '' # squeeze_spaces (dropWhile is_space s) else c # squeeze_spaces s)"
  by pat_completeness auto

termination
  by (relation "measure length") (simp_all add: le_imp_less_Suc length_dropWhile_le)

definition skip_space :: "string \<Rightarrow> string" where
  "skip_space s = (case s of [] \<Rightarrow> [] | c # t \<Rightarrow> if c = CHR '' '' then t else s)"

lemma skip_space_length: "length (skip_space s) \<le> length s"
  by (cases s) (simp_all add: skip_space_def)

function join_hyphens :: "string \<Rightarrow> string" where
  "join_hyphens [] = []"
| "join_hyphens (c # s) =
     (if c = CHR ''-'' \<or> (c = CHR '' '' \<and> s \<noteq> [] \<and> hd s = CHR ''-'')
      then CHR ''-'' # join_hyphens (skip_space (dropWhile (\<lambda>x. x = CHR ''-'') s))
      else c # join_hyphens s)"
  by pat_completeness auto

termination
  by (relation "measure length") (simp_all add: le_imp_less_Suc le_trans [OF skip_space_length length_dropWhile_le])

definition is_sep :: "char \<Rightarrow> bool" where
  "is_sep c \<longleftrightarrow> c = CHR '' '' \<or> c = CHR ''-''"

definition normalize_whitespace_and_hyphens :: "string \<Rightarrow> string" where
  "normalize_whitespace_and_hyphens s =
     rev (dropWhile is_sep (rev (dropWhile is_sep (join_hyphens (squeeze_spaces s)))))"

definition for_posix :: "(nat list \<Rightarrow> nat list) \<Rightarrow> (nat list \<Rightarrow> string) \<Rightarrow> nat list \<Rightarrow> string" where
  "for_posix nfc unidecode s =
     lower (normalize_whitespace_and_hyphens (strip_not_letter_digit_space_dash
       (unidecode (preferred_transliterations (iso646_60_to_ascii (nfc s))))))"

section \<open>Suggestions\<close>

definition goal :: nat where "goal = 15"

text \<open>
  A loop that collects candidates and ends when it has enough, asked after each round; and the last one, which asks
  before each.
\<close>

fun collect :: "('j \<Rightarrow> string list) \<Rightarrow> 'j list \<Rightarrow> string list \<Rightarrow> string list" where
  "collect f [] potuname = potuname"
| "collect f (j # js) potuname =
     (let potuname' = potuname @ f j in if length potuname' \<ge> goal then potuname' else collect f js potuname')"

fun collect_numbered :: "('j \<Rightarrow> string list) \<Rightarrow> 'j list \<Rightarrow> string list \<Rightarrow> string list" where
  "collect_numbered f [] potuname = potuname"
| "collect_numbered f (i # is) potuname =
     (if length potuname < goal then collect_numbered f is (potuname @ f i) else potuname)"

text \<open>\<^verbatim>\<open>range(n, m, -1)\<close> and the slice \<^verbatim>\<open>s[:n]\<close>, with a negative \<open>n\<close> counting from the end.\<close>

definition down :: "int \<Rightarrow> nat \<Rightarrow> nat list" where
  "down n m = rev [Suc m..<Suc (nat n)]"

definition slice_to :: "int \<Rightarrow> string \<Rightarrow> string" where
  "slice_to n s = (if n \<ge> 0 then take (nat n) s else take (nat (int (length s) + n)) s)"

definition name_parts :: "string \<Rightarrow> string list" where
  "name_parts fname = split_on (CHR '' '') (map (\<lambda>c. if c = CHR ''-'' then CHR '' '' else c) fname)"

definition initials_of :: "string \<Rightarrow> string res" where
  "initials_of fname = (if [] \<in> set (name_parts fname) then Inl IndexError else Inr (map hd (name_parts fname)))"

definition first_name :: "int \<Rightarrow> string \<Rightarrow> string" where
  "first_name maxlen fname = take (nat maxlen) (hd (split_on (CHR '' '') (filter (\<lambda>c. c \<noteq> CHR ''-'') fname)))"

text \<open>The candidates of one round of each of the first three loops, without prefix and suffix.\<close>

definition initials_round :: "int \<Rightarrow> string \<Rightarrow> string \<Rightarrow> string \<Rightarrow> nat \<Rightarrow> string list" where
  "initials_round maxlen firstinit initial lname j =
     (firstinit @ take j lname) #
     (if initial \<noteq> [] \<and> int (length firstinit + 1 + j) \<le> maxlen then [firstinit @ initial @ take j lname] else [])"

definition substrings_round :: "int \<Rightarrow> string \<Rightarrow> string \<Rightarrow> string \<Rightarrow> nat \<Rightarrow> string list" where
  "substrings_round maxlen fname initial lname i =
     (let llim = min (int (length lname)) (maxlen - int i)
      in concat (map (\<lambda>j. (if initial \<noteq> [] \<and> int j < llim then [take i fname @ initial @ take j lname] else []) @
           [take i fname @ take j lname]) [1..<Suc (nat llim)]))"

definition valid :: "(string \<Rightarrow> bool) option \<Rightarrow> string \<Rightarrow> bool" where
  "valid validate_func un = (case validate_func of None \<Rightarrow> True | Some f \<Rightarrow> f un)"

text \<open>
  The three loops over parts of the names, and the names they yield; then the numbered names, for which the source reuses
  the variable \<^verbatim>\<open>prefix\<close>.
\<close>

definition part_names :: "int \<Rightarrow> string \<Rightarrow> string \<Rightarrow> (string \<Rightarrow> bool) option \<Rightarrow> string \<Rightarrow> string \<Rightarrow> string \<Rightarrow> string list" where
  "part_names maxlen suffix prefix validate_func initials fname lname =
     (let ok = (\<lambda>uns. filter (valid validate_func) (map (\<lambda>un. prefix @ un @ suffix) uns));
          firstinit = (if length initials \<ge> 3 then take 2 initials else []);
          initial = (if length initials > 1 then [last initials] else []);
          names1 = (if length firstinit > 1
            then collect (\<lambda>j. ok (initials_round maxlen firstinit initial lname j))
                   (down (min (int (length lname)) (maxlen - int (length firstinit))) 0) []
            else []);
          names2 = collect (\<lambda>i. ok (substrings_round maxlen fname initial lname i))
                     (down (min (int (length fname)) (maxlen - 1)) 0) names1
      in collect (\<lambda>i. ok [take i fname]) (down (min (int (length fname)) maxlen) 1) names2)"

definition numbered_name :: "int \<Rightarrow> string \<Rightarrow> string \<Rightarrow> string \<Rightarrow> nat \<Rightarrow> string" where
  "numbered_name maxlen suffix fname lname i = slice_to (maxlen - 2) (fname @ lname) @ show_nat i @ suffix"

definition all_names :: "int \<Rightarrow> string \<Rightarrow> string \<Rightarrow> (string \<Rightarrow> bool) option \<Rightarrow> string \<Rightarrow> string \<Rightarrow> string \<Rightarrow> string list" where
  "all_names maxlen suffix prefix validate_func initials fname lname =
     collect_numbered (\<lambda>i. filter (valid validate_func) [numbered_name maxlen suffix fname lname i]) [1..<100]
       (part_names maxlen suffix prefix validate_func initials fname lname)"

definition suggest_usernames ::
    "(nat list \<Rightarrow> nat list) \<Rightarrow> (nat list \<Rightarrow> string) \<Rightarrow> nat list \<Rightarrow> nat list \<Rightarrow> int \<Rightarrow> string \<Rightarrow> string \<Rightarrow> (string \<Rightarrow> bool) option
     \<Rightarrow> string list res" where
  "suggest_usernames nfc unidecode fname0 lname0 maxlen0 suffix prefix validate_func =
     (let maxlen = maxlen0 - int (length suffix) - int (length prefix);
          lastname = for_posix nfc unidecode lname0;
          posix = for_posix nfc unidecode fname0;
          fname = (if posix = [] then lastname else posix);
          lname = filter (\<lambda>c. \<not> is_sep c) (if posix = [] then [] else lastname)
      in if maxlen \<le> 0 then Inl AssertionError
         else if lastname = [] then Inl ValueError
         else res_bind (initials_of fname) (\<lambda>initials.
                Inr (all_names maxlen suffix prefix validate_func initials (first_name maxlen fname) lname)))"

text \<open>
  The names of the account's owner come from the person; a name is valid when no entity has it in any of the domains.
\<close>

definition validate_new_uname :: "(int \<times> int \<times> string) list \<Rightarrow> int \<Rightarrow> string \<Rightarrow> bool" where
  "validate_new_uname entity_names domain uname = (\<not> list_ex (\<lambda>(_, d, n). d = domain \<and> n = uname) entity_names)"

definition is_valid_new_uname :: "int list \<Rightarrow> (int \<times> int \<times> string) list \<Rightarrow> string \<Rightarrow> bool" where
  "is_valid_new_uname domains entity_names uname = list_all (\<lambda>d. validate_new_uname entity_names d uname) domains"

definition suggest_unames ::
    "(nat list \<Rightarrow> nat list) \<Rightarrow> (nat list \<Rightarrow> string) \<Rightarrow> int list \<Rightarrow> (int \<times> int \<times> string) list \<Rightarrow> nat list res \<Rightarrow> nat list res \<Rightarrow> int \<Rightarrow> string
     \<Rightarrow> string list res" where
  "suggest_unames nfc unidecode domains entity_names first_res last_res maxlen suffix =
     res_bind first_res (\<lambda>fname. res_bind last_res (\<lambda>lname.
       suggest_usernames nfc unidecode fname lname maxlen suffix [] (Some (is_valid_new_uname domains entity_names))))"

section \<open>What the transliteration leaves\<close>

definition posix_char :: "char \<Rightarrow> bool" where
  "posix_char c \<longleftrightarrow> is_lower c \<or> is_digit c"

lemma posix_not_sep: "posix_char c \<Longrightarrow> \<not> is_sep c"
  by (auto simp: posix_char_def is_lower_def is_digit_def is_sep_def)

lemma lower_name_char: "name_char c \<Longrightarrow> posix_char (lower_char c) \<or> is_sep (lower_char c)"
  by (auto simp: name_char_def posix_char_def lower_char_def is_alpha_def is_lower_def is_upper_def is_digit_def is_sep_def)

lemma lower_sep [simp]: "is_sep (lower_char c) \<longleftrightarrow> is_sep c"
proof (cases "is_upper c")
  case True
  then have "is_lower (lower_char c)" by (auto simp: lower_char_def is_upper_def is_lower_def)
  then show ?thesis using True by (auto simp: is_sep_def is_lower_def is_upper_def)
qed (simp add: lower_char_def)

lemma squeeze_subset: "set (squeeze_spaces s) \<subseteq> insert (CHR '' '') (set s)"
  by (induction s rule: squeeze_spaces.induct) (auto dest: set_dropWhileD)

lemma skip_space_subset: "set (skip_space s) \<subseteq> set s"
  by (auto simp: skip_space_def split: list.splits if_splits)

lemma join_hyphens_subset: "set (join_hyphens s) \<subseteq> insert (CHR ''-'') (set s)"
proof (induction s rule: join_hyphens.induct)
  case (2 c s)
  then show ?case using skip_space_subset [of "dropWhile (\<lambda>x. x = CHR ''-'') s"] by (auto dest: set_dropWhileD)
qed simp

lemma dropWhile_ends:
  assumes "rev (dropWhile P (rev (dropWhile P s))) = t" "t \<noteq> []"
  shows "\<not> P (hd t) \<and> \<not> P (last t)"
proof -
  let ?u = "dropWhile P s"
  have t: "t = rev (dropWhile P (rev ?u))" using assms(1) by simp
  have "dropWhile P (rev ?u) \<noteq> []" using assms(2) t by simp
  then have last: "\<not> P (last t)" using hd_dropWhile [of P "rev ?u"] by (simp add: t last_rev)
  have "?u \<noteq> []" using \<open>dropWhile P (rev ?u) \<noteq> []\<close> by (metis dropWhile.simps(1) rev.simps(1))
  then have "\<not> P (hd ?u)" by (rule hd_dropWhile)
  moreover have "hd t = hd ?u"
    by (metis t assms(2) hd_append2 rev_append rev_rev_ident takeWhile_dropWhile_id)
  ultimately show ?thesis using last by simp
qed

lemma for_posix_form:
  fixes unidecode :: "nat list \<Rightarrow> string"
  assumes "for_posix nfc unidecode s = t"
  shows "list_all (\<lambda>c. posix_char c \<or> is_sep c) t \<and> (t \<noteq> [] \<longrightarrow> posix_char (hd t) \<and> posix_char (last t))"
proof -
  define u where "u = strip_not_letter_digit_space_dash (unidecode (preferred_transliterations (iso646_60_to_ascii (nfc s))))"
  define v where "v = normalize_whitespace_and_hyphens u"
  have t: "t = map lower_char v" using assms by (simp add: for_posix_def lower_def u_def v_def)
  have "set u \<subseteq> Collect name_char" by (auto simp: u_def strip_not_letter_digit_space_dash_def)
  then have "set (join_hyphens (squeeze_spaces u)) \<subseteq> Collect name_char"
    using join_hyphens_subset [of "squeeze_spaces u"] squeeze_subset [of u] unfolding name_char_def by blast
  then have v: "set v \<subseteq> Collect name_char"
    unfolding v_def normalize_whitespace_and_hyphens_def by (auto dest!: set_dropWhileD)
  then have chars: "list_all (\<lambda>c. posix_char c \<or> is_sep c) t" using lower_name_char by (auto simp: t list_all_iff)
  have "posix_char (hd t) \<and> posix_char (last t)" if "t \<noteq> []"
  proof -
    have "\<not> is_sep (hd v) \<and> \<not> is_sep (last v)"
      by (rule dropWhile_ends [of is_sep "join_hyphens (squeeze_spaces u)"]) (use that t in \<open>simp_all add: v_def normalize_whitespace_and_hyphens_def\<close>)
    then show ?thesis using that chars t by (auto simp: list_all_iff hd_map last_map)
  qed
  then show ?thesis using chars by blast
qed

section \<open>The loops\<close>

lemma collect_mem: "u \<in> set (collect f js acc) \<Longrightarrow> u \<in> set acc \<or> (\<exists>j \<in> set js. u \<in> set (f j))"
  by (induction f js acc rule: collect.induct) (auto simp: Let_def split: if_splits)

lemma collect_numbered_mem: "u \<in> set (collect_numbered f is acc) \<Longrightarrow> u \<in> set acc \<or> (\<exists>i \<in> set is. u \<in> set (f i))"
  by (induction f "is" acc rule: collect_numbered.induct) (auto split: if_splits)

lemma collect_numbered_grows: "set acc \<subseteq> set (collect_numbered f is acc)"
  by (induction f "is" acc rule: collect_numbered.induct) auto

lemma collect_numbered_few: "length (collect_numbered f is acc) < goal \<Longrightarrow> i \<in> set is \<Longrightarrow> set (f i) \<subseteq> set (collect_numbered f is acc)"
proof (induction f "is" acc rule: collect_numbered.induct)
  case (2 f j js acc)
  then have "length acc < goal" by (auto split: if_splits)
  then show ?case using 2 collect_numbered_grows [of "acc @ f j" f js] by auto
qed simp

lemma down_mem [simp]: "j \<in> set (down n m) \<longleftrightarrow> m < j \<and> int j \<le> n"
  by (auto simp: down_def)

lemma length_slice_to: "n \<ge> 0 \<Longrightarrow> int (length (slice_to n s)) \<le> n"
  by (simp add: slice_to_def)

lemma slice_to_subset: "set (slice_to n s) \<subseteq> set s"
  by (auto simp: slice_to_def dest: in_set_takeD)

lemma two_digits: "i < 100 \<Longrightarrow> length (show_nat i) \<le> 2"
  by (subst show_nat.simps, subst show_nat.simps) auto


section \<open>The suggestions\<close>

text \<open>
  The suggestion proper: lower case letters and digits between prefix and suffix, or followed by a number and the
  suffix, within the length.
\<close>

definition suggestion :: "int \<Rightarrow> string \<Rightarrow> string \<Rightarrow> string \<Rightarrow> bool" where
  "suggestion maxlen suffix prefix u \<longleftrightarrow>
     (\<exists>w. list_all posix_char w \<and>
        (u = prefix @ w @ suffix \<and> int (length u) \<le> maxlen \<or>
         (\<exists>i. 0 < i \<and> i < 100 \<and> u = w @ show_nat i @ suffix \<and>
            (2 \<le> maxlen - int (length suffix) - int (length prefix) \<longrightarrow> int (length u) \<le> maxlen))))"

lemma initials_round_fits:
  assumes "list_all posix_char (firstinit @ initial @ lname)" "length initial \<le> 1" "int j \<le> maxlen - int (length firstinit)"
    "w \<in> set (initials_round maxlen firstinit initial lname j)"
  shows "list_all posix_char w \<and> int (length w) \<le> maxlen"
  using assms by (auto simp: initials_round_def list_all_iff dest!: in_set_takeD split: if_splits)

lemma substrings_round_fits:
  assumes "list_all posix_char (fname @ initial @ lname)" "length initial \<le> 1"
    "w \<in> set (substrings_round maxlen fname initial lname i)"
  shows "list_all posix_char w \<and> int (length w) \<le> maxlen"
  using assms by (auto simp: substrings_round_def Let_def list_all_iff dest!: in_set_takeD split: if_splits)

lemma split_on_subset: "p \<in> set (split_on c s) \<Longrightarrow> set p \<subseteq> set s"
proof (induction s arbitrary: p)
  case (Cons x s)
  obtain q qs where "split_on c s = q # qs" by (cases "split_on c s") simp_all
  then show ?case using Cons by (fastforce split: if_splits)
qed simp

lemma name_parts_chars:
  assumes "list_all (\<lambda>c. posix_char c \<or> is_sep c) fname" "p \<in> set (name_parts fname)"
  shows "list_all posix_char p"
proof -
  have "CHR '' '' \<notin> set p" using assms(2) unfolding name_parts_def by (rule split_on_parts)
  moreover have "set p \<subseteq> set (map (\<lambda>c. if c = CHR ''-'' then CHR '' '' else c) fname)"
    using assms(2) unfolding name_parts_def by (rule split_on_subset)
  ultimately show ?thesis using assms(1) by (auto simp: list_all_iff is_sep_def split: if_splits)
qed

lemma first_name_chars:
  assumes "list_all (\<lambda>c. posix_char c \<or> is_sep c) fname"
  shows "list_all posix_char (first_name maxlen fname)"
proof -
  let ?f = "filter (\<lambda>c. c \<noteq> CHR ''-'') fname"
  have h: "hd (split_on (CHR '' '') ?f) \<in> set (split_on (CHR '' '') ?f)" by simp
  note split_on_subset [OF h] split_on_parts [OF h]
  then show ?thesis using assms by (auto simp: first_name_def list_all_iff is_sep_def dest!: in_set_takeD)
qed

lemma initials_chars:
  assumes "list_all (\<lambda>c. posix_char c \<or> is_sep c) fname" "initials_of fname = Inr initials"
  shows "list_all posix_char initials"
  using assms name_parts_chars [OF assms(1)] by (auto simp: initials_of_def list_all_iff split: if_splits) (metis hd_in_set)


lemma part_names_fit:
  assumes "list_all posix_char (initials @ fname @ lname)" "u \<in> set (part_names room suffix prefix validate initials fname lname)"
  shows "valid validate u \<and> (\<exists>w. list_all posix_char w \<and> u = prefix @ w @ suffix \<and> int (length w) \<le> room)"
proof -
  define firstinit where "firstinit = (if length initials \<ge> 3 then take 2 initials else [])"
  define initial where "initial = (if length initials > 1 then [last initials] else [])"
  let ?W = "\<lambda>w. prefix @ w @ suffix" and ?ok = "filter (valid validate)"
  have last: "posix_char (last initials)" if "length initials > 1"
  proof -
    have "initials \<noteq> []" using that by auto
    then show ?thesis using assms(1) last_in_set by (auto simp: list_all_iff)
  qed
  have chars: "list_all posix_char (firstinit @ initial @ lname)" "list_all posix_char (fname @ initial @ lname)"
    using assms(1) last by (auto simp: list_all_iff firstinit_def initial_def dest: in_set_takeD)
  have short: "length initial \<le> 1" by (simp add: initial_def)
  have "u \<in> set (collect (\<lambda>i. ?ok (map ?W [take i fname])) (down (min (int (length fname)) room) 1)
      (collect (\<lambda>i. ?ok (map ?W (substrings_round room fname initial lname i))) (down (min (int (length fname)) (room - 1)) 0)
        (if length firstinit > 1
         then collect (\<lambda>j. ?ok (map ?W (initials_round room firstinit initial lname j)))
                (down (min (int (length lname)) (room - int (length firstinit))) 0) []
         else [])))"
    using assms(2) unfolding part_names_def Let_def firstinit_def initial_def .
  then obtain w where w: "valid validate (?W w)" "u = ?W w"
    "(\<exists>j. int j \<le> room - int (length firstinit) \<and> w \<in> set (initials_round room firstinit initial lname j)) \<or>
     (\<exists>i. w \<in> set (substrings_round room fname initial lname i)) \<or> (\<exists>i. int i \<le> room \<and> w = take i fname)"
    by (auto dest!: collect_mem split: if_splits) blast+
  have "list_all posix_char w \<and> int (length w) \<le> room"
    using w(3)
  proof (elim disjE exE conjE)
    fix i assume "int i \<le> room" "w = take i fname"
    then show ?thesis using chars(2) by (auto simp: list_all_iff dest: in_set_takeD)
  qed (use initials_round_fits [OF chars(1) short] substrings_round_fits [OF chars(2) short] in blast)+
  then show ?thesis using w(1,2) by blast
qed

lemma all_names_fit:
  assumes "list_all posix_char (initials @ fname @ lname)" "room = maxlen - int (length suffix) - int (length prefix)"
    "u \<in> set (all_names room suffix prefix validate initials fname lname)"
  shows "valid validate u \<and> suggestion maxlen suffix prefix u"
proof (cases "u \<in> set (part_names room suffix prefix validate initials fname lname)")
  case True
  then show ?thesis using part_names_fit [OF assms(1) True] assms(2) by (auto simp: suggestion_def)
next
  case False
  then obtain i where i: "0 < i" "i < 100" "u = numbered_name room suffix fname lname i" "valid validate u"
    using assms(3) by (auto simp: all_names_def Suc_le_eq dest!: collect_numbered_mem split: if_splits)
  let ?w = "slice_to (room - 2) (fname @ lname)"
  have "list_all posix_char ?w" using assms(1) slice_to_subset [of "room - 2" "fname @ lname"] by (auto simp: list_all_iff)
  moreover have "int (length u) \<le> maxlen" if "2 \<le> room"
    using that assms(2) length_slice_to [of "room - 2" "fname @ lname"] two_digits [OF i(2)] by (simp add: i(3) numbered_name_def)
  moreover have "u = ?w @ show_nat i @ suffix" by (simp add: i(3) numbered_name_def)
  ultimately have "suggestion maxlen suffix prefix u" using i(1,2) assms(2) unfolding suggestion_def by blast
  then show ?thesis using i(4) by blast
qed

lemma all_names_few:
  assumes "length (all_names room suffix prefix validate initials fname lname) < 15" "0 < i" "i < 100"
    "valid validate (numbered_name room suffix fname lname i)"
  shows "numbered_name room suffix fname lname i \<in> set (all_names room suffix prefix validate initials fname lname)"
proof -
  let ?f = "\<lambda>i. filter (valid validate) [numbered_name room suffix fname lname i]"
  have "set (?f i) \<subseteq> set (all_names room suffix prefix validate initials fname lname)"
    unfolding all_names_def by (rule collect_numbered_few) (use assms in \<open>simp_all add: all_names_def goal_def\<close>)
  then show ?thesis using assms(4) by simp
qed

text \<open>
  C22: whatever the Unicode tables and the validation, \<^verbatim>\<open>suggest_usernames\<close> raises \<^verbatim>\<open>AssertionError\<close> when prefix and suffix leave
  no room, \<^verbatim>\<open>ValueError\<close> when nothing of the last name is left, and \<^verbatim>\<open>IndexError\<close> when two separators follow each other in
  the first name. Otherwise it returns; every suggestion passes the validation and is made of lower case letters and digits
  between prefix and suffix, or of such characters, a number below 100 and the suffix, within the length where there is room for
  two characters; and if there are fewer than fifteen, every numbered name was tried.
\<close>

theorem suggest_usernames_exact:
  assumes "room = maxlen - int (length suffix) - int (length prefix)" "lname' = for_posix nfc unidecode lname"
    "fname' = (if for_posix nfc unidecode fname = [] then lname' else for_posix nfc unidecode fname)"
  shows "let result = suggest_usernames nfc unidecode fname lname maxlen suffix prefix validate in
    if room \<le> 0 then result = Inl AssertionError
    else if lname' = [] then result = Inl ValueError
    else if [] \<in> set (name_parts fname') then result = Inl IndexError
    else \<exists>us base. result = Inr us \<and> (\<forall>u \<in> set us. valid validate u \<and> suggestion maxlen suffix prefix u) \<and>
      (length us < 15 \<longrightarrow> (\<forall>i. 0 < i \<and> i < 100 \<and> valid validate (base @ show_nat i @ suffix) \<longrightarrow> base @ show_nat i @ suffix \<in> set us))"
proof (cases "[] \<in> set (name_parts fname')")
  case True
  then show ?thesis
    unfolding suggest_usernames_def Let_def assms(1)[symmetric] assms(2)[symmetric] assms(3)[symmetric] initials_of_def by simp
next
  case False
  let ?l = "filter (\<lambda>c. \<not> is_sep c) (if for_posix nfc unidecode fname = [] then [] else lname')"
  let ?i = "map hd (name_parts fname')" and ?f = "first_name room fname'"
  let ?us = "all_names room suffix prefix validate ?i ?f ?l" and ?base = "slice_to (room - 2) (?f @ ?l)"
  have initials: "initials_of fname' = Inr ?i" using False by (simp add: initials_of_def)
  have run: "suggest_usernames nfc unidecode fname lname maxlen suffix prefix validate =
      (if room \<le> 0 then Inl AssertionError else if lname' = [] then Inl ValueError else Inr ?us)"
    unfolding suggest_usernames_def Let_def assms(1)[symmetric] assms(2)[symmetric] assms(3)[symmetric] initials by simp
  have form: "list_all (\<lambda>c. posix_char c \<or> is_sep c) fname'" "list_all (\<lambda>c. posix_char c \<or> is_sep c) lname'"
    using for_posix_form [of nfc unidecode fname] for_posix_form [of nfc unidecode lname] assms(2,3) by auto
  have chars: "list_all posix_char (?i @ ?f @ ?l)"
    using initials_chars [OF form(1) initials] first_name_chars [OF form(1)] form(2) by (auto simp: list_all_iff)
  have "\<exists>us base. Inr ?us = Inr us \<and> (\<forall>u \<in> set us. valid validate u \<and> suggestion maxlen suffix prefix u) \<and>
      (length us < 15 \<longrightarrow> (\<forall>i. 0 < i \<and> i < 100 \<and> valid validate (base @ show_nat i @ suffix) \<longrightarrow> base @ show_nat i @ suffix \<in> set us))"
    using all_names_fit [OF chars assms(1)] all_names_few [of room suffix prefix validate ?i ?f ?l]
    by (intro exI [of _ ?us] exI [of _ ?base]) (auto simp: numbered_name_def)
  then show ?thesis using run False by simp
qed


lemma suggest_usernames_valid:
  assumes "suggest_usernames nfc unidecode fname lname maxlen suffix prefix validate = Inr us" "u \<in> set us"
  shows "valid validate u"
proof -
  have "u \<in> set us \<Longrightarrow> us = all_names room suffix prefix validate initials f l \<Longrightarrow> valid validate u" for room initials f l
    by (auto simp: all_names_def part_names_def Let_def dest!: collect_numbered_mem collect_mem split: if_splits)
  then show ?thesis using assms by (auto simp: suggest_usernames_def Let_def res_simps split: if_splits)
qed

text \<open>
  Every name suggested for the account of a person is free in each of the domains the account is checked against.
\<close>

theorem suggested_names_free:
  assumes "suggest_unames nfc unidecode domains entity_names first_res last_res maxlen suffix = Inr us" "u \<in> set us" "d \<in> set domains"
  shows "\<forall>e n. (e, d, n) \<in> set entity_names \<longrightarrow> n \<noteq> u"
proof -
  obtain fname lname where "suggest_usernames nfc unidecode fname lname maxlen suffix [] (Some (is_valid_new_uname domains entity_names)) = Inr us"
    using assms(1) by (auto simp: suggest_unames_def res_simps)
  with suggest_usernames_valid assms(2) have "is_valid_new_uname domains entity_names u" by (fastforce simp: valid_def)
  then show ?thesis using assms(3) by (auto simp: is_valid_new_uname_def validate_new_uname_def list_all_iff list_ex_iff)
qed

section \<open>Examples\<close>

definition code_points :: "string \<Rightarrow> nat list" where
  "code_points s = map of_char s"

definition ascii_only :: "nat list \<Rightarrow> string" where
  "ascii_only s = map char_of (filter (\<lambda>c. c < 128) s)"

lemma example_names:
  "for_posix (\<lambda>s. s) ascii_only (code_points ''Hansen'') = ''hansen''"
  "for_posix (\<lambda>s. s) ascii_only (code_points ''Geir-Ove Johnsen'') = ''geir-ove johnsen''"
  "[] \<notin> set (name_parts ''geir-ove johnsen'')"
  by code_simp+

theorem suggest_usernames_exact_witness:
  "\<exists>us. suggest_usernames (\<lambda>s. s) ascii_only (code_points ''Geir-Ove Johnsen'') (code_points ''Hansen'') 8 [] [] None = Inr us \<and>
     ''gohansen'' \<in> set us \<and> (\<forall>u \<in> set us. suggestion 8 [] [] u)"
proof -
  have "is_ok (suggest_usernames (\<lambda>s. s) ascii_only (code_points ''Geir-Ove Johnsen'') (code_points ''Hansen'') 8 [] [] None) \<and>
    (case suggest_usernames (\<lambda>s. s) ascii_only (code_points ''Geir-Ove Johnsen'') (code_points ''Hansen'') 8 [] [] None of
       Inl _ \<Rightarrow> False | Inr us \<Rightarrow> ''gohansen'' \<in> set us)" by code_simp
  then show ?thesis
    using suggest_usernames_exact [of 8 8 "[]" "[]" "''hansen''" "\<lambda>s. s" ascii_only "code_points ''Hansen''" "''geir-ove johnsen''"
        "code_points ''Geir-Ove Johnsen''" None] example_names by (auto simp: Let_def)
qed

theorem suggested_names_free_witness:
  "''gohansen'' \<notin> set (case suggest_unames (\<lambda>s. s) ascii_only [1] [(7, 1, ''gohansen'')] (Inr (code_points ''Geir-Ove Johnsen'')) (Inr (code_points ''Hansen'')) 8 [] of
     Inl _ \<Rightarrow> [] | Inr us \<Rightarrow> us) \<and>
   is_ok (suggest_unames (\<lambda>s. s) ascii_only [1] [(7, 1, ''gohansen'')] (Inr (code_points ''Geir-Ove Johnsen'')) (Inr (code_points ''Hansen'')) 8 [])"
proof -
  let ?r = "suggest_unames (\<lambda>s. s) ascii_only [1] [(7, 1, ''gohansen'')] (Inr (code_points ''Geir-Ove Johnsen'')) (Inr (code_points ''Hansen'')) 8 []"
  have "is_ok ?r" using example_names(3) by (simp add: suggest_unames_def suggest_usernames_def Let_def initials_of_def example_names(1,2))
  then obtain us where us: "?r = Inr us" unfolding is_ok_iff by (rule exE)
  have "''gohansen'' \<notin> set us" using suggested_names_free [OF us, of "''gohansen''" 1] by auto
  then show ?thesis using us by simp
qed

text \<open>
  Three examples in which the suggestions miss what the documentation says. A hyphen between two others and spaces survives the
  normalisation of the first name and makes the function raise \<^verbatim>\<open>IndexError\<close>; the numbered names lack the prefix; and with
  room for one character they exceed the length.
\<close>

theorem suggestions_go_wrong:
  "for_posix (\<lambda>s. s) ascii_only (code_points ''Anne - - Marie'') = ''anne--marie'' \<and>
   suggest_usernames (\<lambda>s. s) ascii_only (code_points ''Anne - - Marie'') (code_points ''Hansen'') 8 [] [] None = Inl IndexError \<and>
   map (take 2) (case suggest_usernames (\<lambda>s. s) ascii_only [] (code_points ''Li'') 8 [] ''x-'' None of Inl _ \<Rightarrow> [] | Inr us \<Rightarrow> us) =
     ''x-'' # replicate 14 ''li'' \<and>
   (case suggest_usernames (\<lambda>s. s) ascii_only (code_points ''Ola'') (code_points ''Nordmann'') 1 [] [] None of
      Inl _ \<Rightarrow> [] | Inr us \<Rightarrow> take 1 us) = [''onordman1'']"
  by (intro conjI) code_simp+

end
