(* ===== verification/Priority_Rows.thy ===== *)
theory Priority_Rows
  imports Cere_Prelude
begin

text \<open>
  Rows that an owner ranks by a number no two of its rows share. Two tables of the program are kept that way, and both make
  room for a number by moving up by one the row that has it, after the row that has the next number, and so on: the types of
  accounts (\<open>Accounts\<close>) and the affiliations of persons (\<open>Affiliations\<close>). What the moves do is shown here once, in the
  locale \<open>priority_rows\<close> of a row's fields.
\<close>

text \<open>The numbers in the way of a new one: those that follow it without a gap.\<close>

definition in_run :: "int set \<Rightarrow> int \<Rightarrow> int \<Rightarrow> bool" where
  "in_run P p q \<longleftrightarrow> p \<le> q \<and> {p..q} \<subseteq> P"

definition shift_row :: "('r \<Rightarrow> int) \<Rightarrow> ('r \<Rightarrow> int) \<Rightarrow> (int \<Rightarrow> 'r \<Rightarrow> 'r) \<Rightarrow> int set \<Rightarrow> int \<Rightarrow> int \<Rightarrow> 'r \<Rightarrow> 'r" where
  "shift_row owner prio with_prio P person p r = (if owner r = person \<and> in_run P p (prio r) then with_prio (prio r + 1) r else r)"

definition unique_rows :: "('r \<Rightarrow> 'k) \<Rightarrow> ('r \<Rightarrow> int) \<Rightarrow> ('r \<Rightarrow> int) \<Rightarrow> 'r list \<Rightarrow> bool" where
  "unique_rows key owner prio rows \<longleftrightarrow> distinct (map key rows) \<and> distinct (map (\<lambda>r. (owner r, prio r)) rows)"

definition numbers :: "('r \<Rightarrow> int) \<Rightarrow> ('r \<Rightarrow> int) \<Rightarrow> int \<Rightarrow> 'r list \<Rightarrow> int set" where
  "numbers owner prio person rows = prio ` {r \<in> set rows. owner r = person}"

text \<open>A dictionary of an owner's rows by their numbers.\<close>

definition by_number :: "('r \<Rightarrow> int) \<Rightarrow> ('r \<Rightarrow> int) \<Rightarrow> int \<Rightarrow> 'r list \<Rightarrow> (int \<times> 'r) list \<Rightarrow> bool" where
  "by_number owner prio person rows d \<longleftrightarrow>
     (\<forall>q r. map_of d q = Some r \<longleftrightarrow> r \<in> set rows \<and> owner r = person \<and> prio r = q)"

lemma numbers_code: "numbers owner prio person rows = set (map prio (filter (\<lambda>r. owner r = person) rows))"
  by (auto simp: numbers_def)

lemma in_run_step: "p \<in> P \<Longrightarrow> in_run P p q \<longleftrightarrow> q = p \<or> in_run P (p + 1) q"
proof -
  assume p: "p \<in> P"
  have "{p..q} = insert p {p + 1..q}" if "p \<le> q" using that by (auto simp: set_eq_iff)
  then show ?thesis using p by (auto simp: in_run_def)
qed

lemma in_run_free: "p \<notin> P \<Longrightarrow> \<not> in_run P p q"
  by (auto simp: in_run_def)

text \<open>How often the next number can be in the way: the measure of both recursions.\<close>

lemma fewer_above: "p \<in> set xs \<Longrightarrow> card {q \<in> set xs. q \<ge> p + 1} < card {q \<in> set xs. q \<ge> (p :: int)}"
proof -
  assume "p \<in> set xs"
  then have "{q \<in> set xs. q \<ge> p + 1} \<subset> {q \<in> set xs. q \<ge> p}"
    by (intro psubsetI subsetI) (auto simp: set_eq_iff intro: exI [of _ p])
  then show ?thesis by (rule psubset_card_mono [rotated]) simp
qed

lemma by_number_keys: "by_number owner prio person rows d \<Longrightarrow> set (keys d) = numbers owner prio person rows"
  unfolding by_number_def numbers_def using keys_map_of_Some map_of_Some_keys
  by (fastforce simp: image_iff dom_map_of_conv_image_fst [symmetric])

lemma fold_dict_set_map_of:
  "map_of (fold (\<lambda>r. dict_set (prio r) r) rows d) = (\<lambda>q. case find (\<lambda>r. prio r = q) (rev rows) of None \<Rightarrow> map_of d q | Some r \<Rightarrow> Some r)"
  by (induction rows arbitrary: d) (auto simp: fun_eq_iff find_append split: option.splits)

locale priority_rows =
  fixes owner :: "'r \<Rightarrow> int" and prio :: "'r \<Rightarrow> int" and with_prio :: "int \<Rightarrow> 'r \<Rightarrow> 'r" and key :: "'r \<Rightarrow> 'k"
  assumes prio_with: "prio (with_prio p r) = p"
    and owner_with: "owner (with_prio p r) = owner r"
    and key_with: "key (with_prio p r) = key r"
begin

lemma shift_fields: "key (shift_row owner prio with_prio P person p r) = key r" "owner (shift_row owner prio with_prio P person p r) = owner r"
  by (simp_all add: shift_row_def key_with owner_with)

lemma shift_free: "p \<notin> P \<Longrightarrow> shift_row owner prio with_prio P person p r = r"
  by (simp add: shift_row_def in_run_free)

lemma key_unique: "unique_rows key owner prio rows \<Longrightarrow> r \<in> set rows \<Longrightarrow> x \<in> set rows \<Longrightarrow> key r = key x \<Longrightarrow> r = x"
  unfolding unique_rows_def distinct_map by (meson inj_onD)

lemma prio_unique:
  assumes "unique_rows key owner prio rows" "r \<in> set rows" "x \<in> set rows" "owner r = owner x" "prio r = prio x"
  shows "r = x"
  using assms inj_onD [of "\<lambda>r. (owner r, prio r)" "set rows" r x] unfolding unique_rows_def distinct_map by simp

text \<open>After the move no row of the owner has the number; the order stays.\<close>

lemma makes_room: "prio r \<in> P \<Longrightarrow> owner r = person \<Longrightarrow> prio (shift_row owner prio with_prio P person p r) \<noteq> p"
  by (auto simp: shift_row_def in_run_def prio_with)

lemma shift_order:
  assumes "prio r \<in> P" "prio x \<in> P" "owner r = person" "owner x = person" "prio r < prio x"
  shows "prio (shift_row owner prio with_prio P person p r) < prio (shift_row owner prio with_prio P person p x)"
proof -
  have "in_run P p (prio x)" if "in_run P p (prio r)" "prio x = prio r + 1"
  proof -
    have "{p..prio x} = insert (prio x) {p..prio r}" using that by (auto simp: in_run_def)
    then show ?thesis using that assms(2) by (auto simp: in_run_def)
  qed
  then show ?thesis using assms by (cases "prio x = prio r + 1") (auto simp: shift_row_def prio_with)
qed

text \<open>Moving up the row with a number after those that follow it moves up the whole run.\<close>

lemma shift_step:
  assumes "unique_rows key owner prio rows" "x \<in> set rows" "owner x = person" "prio x = p" "p \<in> P"
  shows "map (\<lambda>r. if key r = key x then with_prio (p + 1) r else shift_row owner prio with_prio P person (p + 1) r) rows =
    map (shift_row owner prio with_prio P person p) rows"
proof (rule map_cong [OF refl])
  fix r
  assume r: "r \<in> set rows"
  show "(if key r = key x then with_prio (p + 1) r else shift_row owner prio with_prio P person (p + 1) r) = shift_row owner prio with_prio P person p r"
  proof (cases "r = x")
    case True
    then show ?thesis using assms in_run_step [OF assms(5)] by (simp add: shift_row_def)
  next
    case False
    then have "key r \<noteq> key x" "owner r = person \<Longrightarrow> prio r \<noteq> p"
      using key_unique [OF assms(1) r assms(2)] prio_unique [OF assms(1) r assms(2)] assms(3,4) by auto
    then show ?thesis using in_run_step [OF assms(5)] by (auto simp: shift_row_def)
  qed
qed

lemma shift_inj:
  assumes "unique_rows key owner prio rows" "P = numbers owner prio person rows" "a \<in> set rows" "b \<in> set rows" "f = shift_row owner prio with_prio P person p"
    "owner (f a) = owner (f b)" "prio (f a) = prio (f b)"
  shows "a = b"
proof (cases "owner a = person")
  case True
  then have "prio a \<in> P" "prio b \<in> P" "owner b = person" using assms shift_fields(2) by (auto simp: numbers_def)
  then have "prio a = prio b"
    using shift_order [of a P b person p] shift_order [of b P a person p] True assms(5,7) by (cases "prio a" "prio b" rule: linorder_cases) auto
  then show ?thesis using prio_unique [OF assms(1,3,4)] True \<open>owner b = person\<close> by simp
next
  case False
  then show ?thesis using prio_unique [OF assms(1,3,4)] assms(5-7) shift_fields(2) by (simp add: shift_row_def split: if_splits)
qed

text \<open>The rows stay unique when one of the owner gets the number.\<close>

lemma unique_shifted:
  assumes "unique_rows key owner prio rows" "P = numbers owner prio person rows" "owner row = person" "prio row = p"
    "set rows' = insert row (shift_row owner prio with_prio P person p ` {r \<in> set rows. key r \<noteq> key row})" "distinct (map key rows')"
  shows "unique_rows key owner prio rows'"
proof -
  let ?f = "shift_row owner prio with_prio P person p"
  have room: "(owner (?f z), prio (?f z)) \<noteq> (owner row, prio row)" if "z \<in> set rows" for z
    using that makes_room [of z P person p] assms(2-4) shift_fields(2) by (auto simp: numbers_def)
  have "inj_on (\<lambda>r. (owner r, prio r)) (set rows')"
  proof (rule inj_onI)
    fix x y
    assume "x \<in> set rows'" "y \<in> set rows'" and eq: "(owner x, prio x) = (owner y, prio y)"
    then consider "x = row" "y = row" | b where "x = row" "b \<in> set rows" "y = ?f b" | a where "y = row" "a \<in> set rows" "x = ?f a"
      | a b where "a \<in> set rows" "b \<in> set rows" "x = ?f a" "y = ?f b" unfolding assms(5) by blast
    then show "x = y"
    proof cases
      case (2 b)
      then show ?thesis using room [of b] eq by simp
    next
      case (3 a)
      then show ?thesis using room [of a] eq by simp
    next
      case (4 a b)
      then show ?thesis using shift_inj [OF assms(1,2) 4(1,2) refl, of p] eq by simp
    qed simp
  qed
  moreover have "distinct rows'" using assms(6) by (simp add: distinct_map)
  ultimately show ?thesis using assms(6) by (simp add: unique_rows_def distinct_map)
qed

lemma dict_by_number:
  assumes "unique_rows key owner prio rows" "set own = {r \<in> set rows. owner r = person}"
  shows "by_number owner prio person rows (fold (\<lambda>r. dict_set (prio r) r) own [])"
proof -
  have "find (\<lambda>r. prio r = q) (rev own) = Some x \<longleftrightarrow> x \<in> set rows \<and> owner x = person \<and> prio x = q" for q x
  proof
    assume "find (\<lambda>r. prio r = q) (rev own) = Some x"
    then show "x \<in> set rows \<and> owner x = person \<and> prio x = q" using find_Some_mem assms(2) by fastforce
  next
    assume x: "x \<in> set rows \<and> owner x = person \<and> prio x = q"
    then have "x \<in> set (rev own)" by (simp add: assms(2))
    then obtain y where y: "find (\<lambda>r. prio r = q) (rev own) = Some y" using x by (cases "find (\<lambda>r. prio r = q) (rev own)") (auto simp: find_None_iff)
    then have "y \<in> set (rev own)" "prio y = q" using find_Some_mem by fastforce+
    then have "y = x" using prio_unique [OF assms(1), of y x] x assms(2) by auto
    then show "find (\<lambda>r. prio r = q) (rev own) = Some x" using y by simp
  qed
  moreover have "map_of (fold (\<lambda>r. dict_set (prio r) r) own []) q = find (\<lambda>r. prio r = q) (rev own)" for q
    by (simp add: fold_dict_set_map_of split: option.splits)
  ultimately show ?thesis unfolding by_number_def by simp
qed

lemma updated_set:
  assumes "unique_rows key owner prio rows" "x \<in> set rows" "row = with_prio p x"
  shows "set (map (\<lambda>r. if key r = key x then with_prio p r else f r) rows) = insert row (f ` {r \<in> set rows. key r \<noteq> key row})"
proof -
  have "key row = key x" using assms(3) by (simp add: key_with)
  then show ?thesis using assms key_unique [OF assms(1) _ assms(2)] by (auto simp: image_iff)
qed

end

end
