(* ===== verification/Accounts.thy ===== *)
theory Accounts
  imports Sql_Args Priority_Rows "HOL-Library.Product_Lexorder"
begin

text \<open>
  What an account is used for: the class \<^verbatim>\<open>AccountType\<close> of \<^verbatim>\<open>src/Cerebrum/Account.py\<close>. The tables, and the constraints
  a statement may violate, are those of \<^verbatim>\<open>design/core_tables.sql\<close>: of the types of a person's accounts, no two have the same
  priority, and a priority has three digits. An account is given by its id and its owner; \<open>ac_sources\<close> are the affiliations of
  persons with their status, one for every source system.

  Shown: setting a type gives it the priority asked for, whatever is there already; the types in its way move up by one, as far
  as they follow each other without a gap, and keep their order, and no statement on the way violates the constraints. The
  primary accounts of a search are the types with the lowest number, one for each person.
\<close>

section \<open>Tables\<close>

record type_row =
  at_person :: int
  at_ou :: int
  at_affiliation :: int
  at_account :: int
  at_priority :: int

record account_db =
  ac_owners :: "(int \<times> int) list"
  ac_expires :: "(int \<times> int option) list"
  ac_affiliations :: "(int \<times> int \<times> int) list"
  ac_types :: "type_row list"
  ac_sources :: "(int \<times> int \<times> int \<times> int) list"
  ac_spreads :: "(int \<times> int) list"
  ac_log :: "(int \<times> string) list"

definition ac_log_change :: "int \<Rightarrow> string \<Rightarrow> account_db \<Rightarrow> account_db" where
  "ac_log_change e change db = db\<lparr>ac_log := ac_log db @ [(e, change)]\<rparr>"

definition type_key :: "type_row \<Rightarrow> int \<times> int \<times> int \<times> int" where
  "type_key r = (at_person r, at_ou r, at_affiliation r, at_account r)"

section \<open>Account types\<close>

text \<open>The join with \<^verbatim>\<open>account_info\<close> that drops expired accounts.\<close>

definition not_expired :: "int \<Rightarrow> account_db \<Rightarrow> int \<Rightarrow> bool" where
  "not_expired now db account =
     list_ex (\<lambda>(a, expire). a = account \<and> (case expire of None \<Rightarrow> True | Some e \<Rightarrow> e > now)) (ac_expires db)"

definition get_account_types :: "int \<Rightarrow> int \<Rightarrow> int \<Rightarrow> bool \<Rightarrow> int option \<Rightarrow> bool \<Rightarrow> account_db \<Rightarrow> type_row list" where
  "get_account_types now self_id self_owner all_persons_types owner_id filter_expired db =
     sort_key at_priority (filter (\<lambda>r.
       (if all_persons_types \<or> owner_id \<noteq> None
        then at_person r = (case owner_id of Some o1 \<Rightarrow> o1 | None \<Rightarrow> self_owner)
        else at_account r = self_id) \<and> (filter_expired \<longrightarrow> not_expired now db (at_account r))) (ac_types db))"

text \<open>\<^verbatim>\<open>UPDATE account_type SET priority\<close> for the row with a key.\<close>

definition update_priority :: "int \<times> int \<times> int \<times> int \<Rightarrow> int \<Rightarrow> account_db \<Rightarrow> account_db res" where
  "update_priority key new_pri db =
     (if \<not> list_ex (\<lambda>r. type_key r = key) (ac_types db) then Inr db
      else if \<bar>new_pri\<bar> \<ge> 1000 then Inl DataError
      else if list_ex (\<lambda>r. type_key r \<noteq> key \<and> at_person r = fst key \<and> at_priority r = new_pri) (ac_types db) then Inl IntegrityError
      else Inr (db\<lparr>ac_types := map (\<lambda>r. if type_key r = key then r\<lparr>at_priority := new_pri\<rparr> else r) (ac_types db)\<rparr>))"

function set_account_type_priority :: "int \<Rightarrow> (int \<times> type_row) list \<Rightarrow> int \<Rightarrow> int \<Rightarrow> account_db \<Rightarrow> account_db res" where
  "set_account_type_priority self_id all_pris orig_pri new_pri db =
     res_bind (if new_pri \<in> set (keys all_pris) then set_account_type_priority self_id all_pris new_pri (new_pri + 1) db else Inr db) (\<lambda>db1.
     res_bind (dict_get all_pris orig_pri) (\<lambda>row.
     res_bind (update_priority (type_key row) new_pri db1) (\<lambda>db2.
       Inr (ac_log_change self_id ''account_type_mod'' db2))))"
  by pat_completeness auto

termination
  by (relation "measure (\<lambda>(_, all_pris, _, new_pri, _). card {p \<in> set (keys all_pris). p \<ge> new_pri})") (auto simp del: set_map intro: fewer_above)

declare set_account_type_priority.simps [simp del]

definition insert_type :: "type_row \<Rightarrow> account_db \<Rightarrow> account_db res" where
  "insert_type r db =
     (if \<bar>at_priority r\<bar> \<ge> 1000 then Inl DataError
      else if list_ex (\<lambda>x. type_key x = type_key r \<or> at_person x = at_person r \<and> at_priority x = at_priority r) (ac_types db)
        \<or> (at_person r, at_ou r, at_affiliation r) \<notin> set (ac_affiliations db) \<or> (at_account r, at_person r) \<notin> set (ac_owners db)
      then Inl IntegrityError
      else Inr (db\<lparr>ac_types := ac_types db @ [r]\<rparr>))"

text \<open>The result is what the method did, with the priority, or nothing.\<close>

definition set_account_type ::
    "int \<Rightarrow> int \<Rightarrow> int \<Rightarrow> int \<Rightarrow> int option \<Rightarrow> account_db \<Rightarrow> ((string \<times> int) option \<times> account_db) res" where
  "set_account_type self_id self_owner ou_id affiliation priority db =
     (let rows = get_account_types 0 self_id self_owner True None False db;
          all_pris = fold (\<lambda>r. dict_set (at_priority r) r) rows [];
          mine = filter (\<lambda>r. ou_id = at_ou r \<and> affiliation = at_affiliation r \<and> self_id = at_account r) rows;
          max_pri = fold (\<lambda>r m. if at_priority r > m then at_priority r else m) rows 0;
          pri = (case priority of None \<Rightarrow> max_pri + 5 | Some p \<Rightarrow> p)
      in if mine = [] then
           res_bind (if pri \<in> set (keys all_pris) then set_account_type_priority self_id all_pris pri (pri + 1) db else Inr db) (\<lambda>db1.
           res_bind (insert_type \<lparr>at_person = self_owner, at_ou = ou_id, at_affiliation = affiliation, at_account = self_id, at_priority = pri\<rparr> db1) (\<lambda>db2.
             Inr (Some (''add'', pri), ac_log_change self_id ''account_type_add'' db2)))
         else if at_priority (last mine) \<noteq> pri then
           res_bind (set_account_type_priority self_id all_pris (at_priority (last mine)) pri db) (\<lambda>db1. Inr (Some (''mod'', pri), db1))
         else Inr (None, db))"

definition del_account_type :: "int \<Rightarrow> int \<Rightarrow> int \<Rightarrow> int \<Rightarrow> account_db \<Rightarrow> account_db" where
  "del_account_type self_id self_owner ou_id affiliation db =
     (let key = (self_owner, ou_id, affiliation, self_id)
      in if \<not> list_ex (\<lambda>r. type_key r = key) (ac_types db) then db
         else ac_log_change self_id ''account_type_del'' (db\<lparr>ac_types := filter (\<lambda>r. type_key r \<noteq> key) (ac_types db)\<rparr>))"

definition delete_ac_types :: "int \<Rightarrow> account_db \<Rightarrow> account_db" where
  "delete_ac_types self_id db = db\<lparr>ac_types := filter (\<lambda>r. at_account r \<noteq> self_id) (ac_types db)\<rparr>"

text \<open>The loop of \<^verbatim>\<open>list_accounts_by_type\<close> that keeps the first row of each person.\<close>

fun primary_rows :: "int option \<Rightarrow> type_row list \<Rightarrow> type_row list" where
  "primary_rows prev [] = []"
| "primary_rows prev (r # rows) =
     (if Some (at_person r) \<noteq> prev then r # primary_rows (Some (at_person r)) rows else primary_rows prev rows)"

definition list_accounts_by_type ::
    "int \<Rightarrow> int option \<Rightarrow> id_arg option \<Rightarrow> int option \<Rightarrow> bool \<Rightarrow> int option \<Rightarrow> id_arg option \<Rightarrow> bool \<Rightarrow> id_arg option \<Rightarrow> id_arg option \<Rightarrow>
     id_arg option \<Rightarrow> account_db \<Rightarrow> type_row list res" where
  "list_accounts_by_type now ou_id affiliation status filter_expired account_id person_id primary_only person_spread account_spread
       exclude_account_id db =
     res_bind (clause person_id (\<lambda>p r. p (at_person r))) (\<lambda>person_ok.
     if person_spread \<noteq> None \<and> account_spread \<noteq> None then Inl CerebrumError
     else res_bind (if given exclude_account_id then clause exclude_account_id (\<lambda>p r. \<not> p (at_account r)) else Inr (\<lambda>_. True)) (\<lambda>exclude_ok.
     res_bind (conjunction
         [in_codes affiliation (\<lambda>p r. p (at_affiliation r)),
          in_codes person_spread (\<lambda>p r. list_ex (\<lambda>(e, s). e = at_person r \<and> p s) (ac_spreads db)),
          in_codes account_spread (\<lambda>p r. list_ex (\<lambda>(e, s). e = at_account r \<and> p s) (ac_spreads db))]) (\<lambda>codes_ok.
       let rows = sort_key (\<lambda>r. (at_person r, at_priority r)) (filter (\<lambda>r.
             list_ex (\<lambda>(p, ou, aff, st). p = at_person r \<and> ou = at_ou r \<and> aff = at_affiliation r \<and> (status = None \<or> status = Some st))
               (ac_sources db) \<and>
             list_ex (\<lambda>(a, expire). a = at_account r \<and> (filter_expired \<longrightarrow> (case expire of None \<Rightarrow> True | Some e \<Rightarrow> e > now))) (ac_expires db) \<and>
             (case ou_id of None \<Rightarrow> True | Some ou \<Rightarrow> at_ou r = ou) \<and>
             (case account_id of None \<Rightarrow> True | Some a \<Rightarrow> a = 0 \<or> at_account r = a) \<and>
             person_ok r \<and> exclude_ok r \<and> codes_ok r) (remdups (ac_types db)))
       in Inr (if primary_only then primary_rows None rows else rows))))"

section \<open>Primary accounts\<close>

lemma primary_rows_exact:
  "sorted (map (\<lambda>r. (at_person r, at_priority r)) rows) \<Longrightarrow> distinct (map (\<lambda>r. (at_person r, at_priority r)) rows) \<Longrightarrow>
   (\<And>q r. prev = Some q \<Longrightarrow> r \<in> set rows \<Longrightarrow> q \<le> at_person r) \<Longrightarrow>
   set (primary_rows prev rows) =
     {r \<in> set rows. Some (at_person r) \<noteq> prev \<and> (\<forall>x \<in> set rows. at_person x = at_person r \<longrightarrow> at_priority r \<le> at_priority x)} \<and>
   distinct (map at_person (primary_rows prev rows))"
proof (induction prev rows rule: primary_rows.induct)
  case (2 prev r rows)
  have less: "at_person r < at_person x \<or> at_person x = at_person r \<and> at_priority r < at_priority x" if "x \<in> set rows" for x
    using 2(3,4) that by force
  show ?case
  proof (cases "Some (at_person r) = prev")
    case True
    then have "set (primary_rows prev rows) =
        {r \<in> set rows. Some (at_person r) \<noteq> prev \<and> (\<forall>x \<in> set rows. at_person x = at_person r \<longrightarrow> at_priority r \<le> at_priority x)} \<and>
      distinct (map at_person (primary_rows prev rows))"
      using 2(2-5) by simp
    then show ?thesis using True by auto
  next
    case False
    then have rest: "set (primary_rows (Some (at_person r)) rows) = {x \<in> set rows. at_person x \<noteq> at_person r \<and>
        (\<forall>y \<in> set rows. at_person y = at_person x \<longrightarrow> at_priority x \<le> at_priority y)} \<and>
      distinct (map at_person (primary_rows (Some (at_person r)) rows))"
      using 2(1,3,4) less by force
    have "at_person x \<noteq> at_person r \<Longrightarrow> x \<in> set rows \<Longrightarrow> Some (at_person x) \<noteq> prev" for x
      using 2(5) [of "at_person x" r] less [of x] by auto
    moreover have "at_priority r < at_priority x" if "x \<in> set rows" "at_person x = at_person r" for x using less [OF that(1)] that(2) by simp
    ultimately have "{x \<in> set (r # rows). Some (at_person x) \<noteq> prev \<and> (\<forall>y \<in> set (r # rows). at_person y = at_person x \<longrightarrow> at_priority x \<le> at_priority y)} =
      insert r (set (primary_rows (Some (at_person r)) rows))"
      unfolding rest [THEN conjunct1] using False by (auto dest: leD intro: less_imp_le)
    then show ?thesis using False rest by auto
  qed
qed simp

section \<open>Moving priorities\<close>

definition wf_types :: "account_db \<Rightarrow> bool" where
  "wf_types db \<longleftrightarrow> unique_rows type_key at_person at_priority (ac_types db)"

abbreviation priorities :: "int \<Rightarrow> account_db \<Rightarrow> int set" where
  "priorities person db \<equiv> numbers at_person at_priority person (ac_types db)"

abbreviation shifted :: "int set \<Rightarrow> int \<Rightarrow> int \<Rightarrow> type_row \<Rightarrow> type_row" where
  "shifted \<equiv> shift_row at_person at_priority (\<lambda>p r. r\<lparr>at_priority := p\<rparr>)"

text \<open>The dictionary of a person's types by priority.\<close>

abbreviation by_priority :: "int \<Rightarrow> account_db \<Rightarrow> (int \<times> type_row) list \<Rightarrow> bool" where
  "by_priority person db \<equiv> by_number at_person at_priority person (ac_types db)"

lemma type_key_update [simp]: "type_key (r\<lparr>at_priority := p\<rparr>) = type_key r"
  by (simp add: type_key_def)

interpretation types: priority_rows at_person at_priority "\<lambda>p r. r\<lparr>at_priority := p\<rparr>" type_key
  by unfold_locales simp_all

lemma shifted_fields [simp]:
  "type_key (shifted P person p r) = type_key r" "at_person (shifted P person p r) = at_person r"
  by (rule types.shift_fields)+

lemmas wf_rows = wf_types_def [THEN iffD1]

lemma update_priority_ok:
  assumes "wf_types db" "row \<in> set (ac_types db)" "P = priorities (at_person row) db" "\<bar>p\<bar> < 1000"
    "ac_types db1 = map (shifted P (at_person row) p) (ac_types db)"
  shows "update_priority (type_key row) p db1 = Inr (db1\<lparr>ac_types :=
      map (\<lambda>r. if type_key r = type_key row then r\<lparr>at_priority := p\<rparr> else shifted P (at_person row) p r) (ac_types db)\<rparr>)"
proof -
  have "list_ex (\<lambda>r. type_key r = type_key row) (ac_types db1)" using assms(2,5) by (auto simp: list_ex_iff)
  moreover have "\<not> list_ex (\<lambda>r. type_key r \<noteq> type_key row \<and> at_person r = fst (type_key row) \<and> at_priority r = p) (ac_types db1)"
    using types.makes_room [of _ P "at_person row" p] assms(3,5) by (auto simp: list_ex_iff type_key_def numbers_def)
  moreover have "map (\<lambda>r. if type_key r = type_key row then r\<lparr>at_priority := p\<rparr> else r) (ac_types db1) =
      map (\<lambda>r. if type_key r = type_key row then r\<lparr>at_priority := p\<rparr> else shifted P (at_person row) p r) (ac_types db)"
    unfolding assms(5) map_map by (rule map_cong) (auto simp: shift_row_def)
  ultimately show ?thesis using assms(4) by (simp add: update_priority_def)
qed


lemma set_priority_exact:
  assumes "wf_types db" "by_priority person db all_pris" "P = priorities person db" "\<forall>q \<in> P. q < 999"
  shows "\<bar>new_pri\<bar> < 1000 \<Longrightarrow> map_of all_pris orig_pri = Some row \<Longrightarrow>
    \<exists>log. set_account_type_priority self_id all_pris orig_pri new_pri db = Inr (db\<lparr>ac_log := log, ac_types :=
      map (\<lambda>r. if type_key r = type_key row then r\<lparr>at_priority := new_pri\<rparr> else shifted P person new_pri r) (ac_types db)\<rparr>)"
  using assms
proof (induction self_id all_pris orig_pri new_pri db arbitrary: row rule: set_account_type_priority.induct)
  case (1 self_id all_pris orig_pri new_pri db)
  note bounds = "1.prems"(1) and row = "1.prems"(2) and wf = "1.prems"(3) and all = "1.prems"(4) and P = "1.prems"(5) and small = "1.prems"(6)
  have in_row: "row \<in> set (ac_types db)" "at_person row = person" using all row unfolding by_number_def by auto
  have keys: "set (keys all_pris) = P" using by_number_keys [OF all] P by simp
  have "\<exists>log. (if new_pri \<in> set (keys all_pris) then set_account_type_priority self_id all_pris new_pri (new_pri + 1) db else Inr db) =
      Inr (db\<lparr>ac_log := log, ac_types := map (shifted P person new_pri) (ac_types db)\<rparr>)"
  proof (cases "new_pri \<in> P")
    case True
    then obtain x where x: "map_of all_pris new_pri = Some x" using keys map_of_eq_None_iff [of all_pris new_pri] by auto
    then have in_x: "x \<in> set (ac_types db)" "at_person x = person" "at_priority x = new_pri" using all unfolding by_number_def by auto
    have "\<bar>new_pri + 1\<bar> < 1000" using True small bounds by auto
    from "1.IH" [OF _ this x wf all P small] True keys obtain log where
      rec: "set_account_type_priority self_id all_pris new_pri (new_pri + 1) db = Inr (db\<lparr>ac_log := log, ac_types :=
        map (\<lambda>r. if type_key r = type_key x then r\<lparr>at_priority := new_pri + 1\<rparr> else shifted P person (new_pri + 1) r) (ac_types db)\<rparr>)" by auto
    note types.shift_step [OF wf_rows [OF wf] in_x True]
    then show ?thesis unfolding keys if_P [OF True] rec by (intro exI [of _ log]) simp
  next
    case False
    then have "map (shifted P person new_pri) (ac_types db) = ac_types db" by (intro map_idI) (rule types.shift_free)
    then show ?thesis using False keys by (intro exI [of _ "ac_log db"]) simp
  qed
  then obtain log where first: "(if new_pri \<in> set (keys all_pris) then set_account_type_priority self_id all_pris new_pri (new_pri + 1) db else Inr db) =
      Inr (db\<lparr>ac_log := log, ac_types := map (shifted P person new_pri) (ac_types db)\<rparr>)" by blast
  let ?types = "map (\<lambda>r. if type_key r = type_key row then r\<lparr>at_priority := new_pri\<rparr> else shifted P person new_pri r) (ac_types db)"
  have upd: "update_priority (type_key row) new_pri (db\<lparr>ac_log := log, ac_types := map (shifted P person new_pri) (ac_types db)\<rparr>) =
      Inr (db\<lparr>ac_log := log, ac_types := ?types\<rparr>)"
    using update_priority_ok [OF wf in_row(1) _ bounds, of P "db\<lparr>ac_log := log, ac_types := map (shifted P person new_pri) (ac_types db)\<rparr>"] P in_row(2)
    by simp
  show ?case
    unfolding set_account_type_priority.simps [of self_id all_pris orig_pri new_pri db] first res_bind_Inr dict_get_Some [OF row] upd
    by (intro exI [of _ "log @ [(self_id, ''account_type_mod'')]"]) (simp add: ac_log_change_def)
qed


section \<open>Setting a type\<close>

lemma get_all_types: "set (get_account_types now self_id person True None False db) = {r \<in> set (ac_types db). at_person r = person}"
  by (auto simp: get_account_types_def)

lemma fold_max_priority:
  "fold (\<lambda>r m. if at_priority r > m then at_priority r else m) rows m0 = Max (insert m0 (at_priority ` set rows))"
proof (induction rows arbitrary: m0)
  case (Cons r rows)
  have step: "(if at_priority r > m0 then at_priority r else m0) = max m0 (at_priority r)" by auto
  have "Max (insert (max m0 (at_priority r)) (at_priority ` set rows)) = Max (insert m0 (insert (at_priority r) (at_priority ` set rows)))"
    by (cases "rows = []") (simp_all add: max.assoc)
  then show ?case using Cons.IH [of "max m0 (at_priority r)"] by (simp only: fold_simps step list.set image_insert)
qed simp


lemma wf_shifted:
  assumes "wf_types db" "P = priorities person db" "row = \<lparr>at_person = person, at_ou = ou, at_affiliation = aff, at_account = ac, at_priority = p\<rparr>"
    "set (ac_types db') = insert row (shifted P person p ` {r \<in> set (ac_types db). type_key r \<noteq> type_key row})"
    "distinct (map type_key (ac_types db'))"
  shows "wf_types db'"
  unfolding wf_types_def by (rule types.unique_shifted [OF wf_rows [OF assms(1)] assms(2) _ _ assms(4,5)]) (simp_all add: assms(3))

text \<open>Making room for a priority, when there is no type to be moved to it yet.\<close>

lemma first_moves:
  assumes "wf_types db" "by_priority person db all_pris" "P = priorities person db" "\<forall>q \<in> P. q < 999" "\<bar>p\<bar> < 1000"
  shows "\<exists>log. (if p \<in> P then set_account_type_priority self_id all_pris p (p + 1) db else Inr db) =
    Inr (db\<lparr>ac_log := log, ac_types := map (shifted P person p) (ac_types db)\<rparr>)"
proof (cases "p \<in> P")
  case True
  then obtain x where x: "x \<in> set (ac_types db)" "at_person x = person" "at_priority x = p" using assms(3) by (auto simp: numbers_def)
  then have "map_of all_pris p = Some x" using assms(2) by (simp add: by_number_def)
  moreover have "\<bar>p + 1\<bar> < 1000" using True assms(4,5) by auto
  ultimately obtain log where
    rec: "set_account_type_priority self_id all_pris p (p + 1) db = Inr (db\<lparr>ac_log := log, ac_types :=
      map (\<lambda>r. if type_key r = type_key x then r\<lparr>at_priority := p + 1\<rparr> else shifted P person (p + 1) r) (ac_types db)\<rparr>)"
    using set_priority_exact [OF assms(1-4)] by blast
  then show ?thesis unfolding types.shift_step [OF wf_rows [OF assms(1)] x True] if_P [OF True] by blast
next
  case False
  then have "map (shifted P person p) (ac_types db) = ac_types db" by (intro map_idI) (rule types.shift_free)
  then show ?thesis using False by (intro exI [of _ "ac_log db"]) simp
qed


lemma move_type_ok:
  assumes "wf_types db" "by_priority person db all_pris" "P = priorities person db" "\<forall>q \<in> P. q < 999" "\<bar>p\<bar> < 1000"
    "row = \<lparr>at_person = person, at_ou = ou, at_affiliation = aff, at_account = self_id, at_priority = p\<rparr>"
    "x \<in> set (ac_types db)" "type_key x = type_key row"
  shows "\<exists>db'. set_account_type_priority self_id all_pris (at_priority x) p db = Inr db' \<and> wf_types db' \<and>
    set (ac_types db') = insert row (shifted P person p ` {r \<in> set (ac_types db). type_key r \<noteq> type_key row})"
proof -
  have person: "at_person x = person" using assms(6,8) by (simp add: type_key_def)
  then have "map_of all_pris (at_priority x) = Some x" using assms(2,7) by (simp add: by_number_def)
  from set_priority_exact [OF assms(1-4,5) this, of self_id] obtain log where
    moved: "set_account_type_priority self_id all_pris (at_priority x) p db = Inr (db\<lparr>ac_log := log, ac_types :=
      map (\<lambda>r. if type_key r = type_key x then r\<lparr>at_priority := p\<rparr> else shifted P person p r) (ac_types db)\<rparr>)" by blast
  have "row = x\<lparr>at_priority := p\<rparr>" using assms(6,8) by (cases x) (simp add: type_key_def)
  note rows = types.updated_set [OF wf_rows [OF assms(1)] assms(7) this, of "shifted P person p"]
  have keys: "map type_key (map (\<lambda>r. if type_key r = type_key x then r\<lparr>at_priority := p\<rparr> else shifted P person p r) (ac_types db)) = map type_key (ac_types db)"
    by simp
  let ?types = "map (\<lambda>r. if type_key r = type_key x then r\<lparr>at_priority := p\<rparr> else shifted P person p r) (ac_types db)"
  have "distinct (map type_key ?types)" unfolding keys using assms(1) by (simp add: wf_types_def unique_rows_def)
  then have "wf_types (db\<lparr>ac_log := log, ac_types := ?types\<rparr>)"
    using wf_shifted [OF assms(1,3,6), of "db\<lparr>ac_log := log, ac_types := ?types\<rparr>"] rows by (simp del: map_map set_map)
  then show ?thesis using moved rows by (intro exI [of _ "db\<lparr>ac_log := log, ac_types := ?types\<rparr>"]) (simp del: map_map set_map)
qed

lemma add_type_ok:
  assumes "wf_types db" "by_priority person db all_pris" "P = priorities person db" "\<forall>q \<in> P. q < 999" "\<bar>p\<bar> < 1000"
    "row = \<lparr>at_person = person, at_ou = ou, at_affiliation = aff, at_account = self_id, at_priority = p\<rparr>"
    "type_key row \<notin> type_key ` set (ac_types db)" "(self_id, person) \<in> set (ac_owners db)" "(person, ou, aff) \<in> set (ac_affiliations db)"
  shows "\<exists>db'. res_bind (if p \<in> P then set_account_type_priority self_id all_pris p (p + 1) db else Inr db) (insert_type row) = Inr db' \<and> wf_types db' \<and>
    set (ac_types db') = insert row (shifted P person p ` {r \<in> set (ac_types db). type_key r \<noteq> type_key row})"
proof -
  obtain log where first: "(if p \<in> P then set_account_type_priority self_id all_pris p (p + 1) db else Inr db) =
      Inr (db\<lparr>ac_log := log, ac_types := map (shifted P person p) (ac_types db)\<rparr>)"
    using first_moves [OF assms(1-5)] by blast
  let ?db = "db\<lparr>ac_log := log, ac_types := map (shifted P person p) (ac_types db) @ [row]\<rparr>"
  have room: "at_priority (shifted P person p r) \<noteq> p" if "r \<in> set (ac_types db)" "at_person r = person" for r
    using that assms(3) types.makes_room by (simp add: numbers_def)
  have new_key: "type_key r \<noteq> type_key row" if "r \<in> set (ac_types db)" for r using that assms(7) by (metis image_eqI)
  have "\<not> list_ex (\<lambda>x. type_key x = type_key row \<or> at_person x = at_person row \<and> at_priority x = at_priority row) (map (shifted P person p) (ac_types db))"
    using room new_key assms(6) by (auto simp: list_ex_iff)
  then have "insert_type row (db\<lparr>ac_log := log, ac_types := map (shifted P person p) (ac_types db)\<rparr>) = Inr ?db"
    using assms(5,6,8,9) by (simp add: insert_type_def)
  moreover have rows: "set (ac_types ?db) = insert row (shifted P person p ` {r \<in> set (ac_types db). type_key r \<noteq> type_key row})"
  proof -
    have "{r \<in> set (ac_types db). type_key r \<noteq> type_key row} = set (ac_types db)" using new_key by auto
    then show ?thesis by simp
  qed
  moreover have "wf_types ?db"
    by (rule wf_shifted [OF assms(1,3,6) rows]) (use assms(1,7) in \<open>auto simp: wf_types_def unique_rows_def comp_def\<close>)
  ultimately show ?thesis using first by auto
qed

text \<open>The branches of the method, by the row the account has for the type, if any.\<close>

lemma set_account_type_cases:
  assumes "wf_types db" "P = priorities person db" "p = (case priority of None \<Rightarrow> Max (insert 0 P) + 5 | Some q \<Rightarrow> q)"
    "row = \<lparr>at_person = person, at_ou = ou, at_affiliation = aff, at_account = self_id, at_priority = p\<rparr>"
  shows "\<exists>all_pris. by_priority person db all_pris \<and>
    (type_key row \<notin> type_key ` set (ac_types db) \<longrightarrow> set_account_type self_id person ou aff priority db =
       res_bind (res_bind (if p \<in> P then set_account_type_priority self_id all_pris p (p + 1) db else Inr db) (insert_type row))
         (\<lambda>db2. Inr (Some (''add'', p), ac_log_change self_id ''account_type_add'' db2))) \<and>
    (\<forall>x \<in> set (ac_types db). type_key x = type_key row \<longrightarrow> set_account_type self_id person ou aff priority db =
       (if at_priority x \<noteq> p
        then res_bind (set_account_type_priority self_id all_pris (at_priority x) p db) (\<lambda>db1. Inr (Some (''mod'', p), db1))
        else Inr (None, db)))"
proof -
  define rows where "rows = get_account_types 0 self_id person True None False db"
  define all_pris where "all_pris = fold (\<lambda>r. dict_set (at_priority r) r) rows []"
  define mine where "mine = filter (\<lambda>r. ou = at_ou r \<and> aff = at_affiliation r \<and> self_id = at_account r) rows"
  have rows: "set rows = {r \<in> set (ac_types db). at_person r = person}" by (simp add: rows_def get_all_types)
  have prio: "by_priority person db all_pris" unfolding all_pris_def by (rule types.dict_by_number [OF wf_rows [OF assms(1)] rows])
  have keys: "set (keys all_pris) = P" using by_number_keys [OF prio] assms(2) by simp
  have mine: "r \<in> set mine \<longleftrightarrow> r \<in> set (ac_types db) \<and> type_key r = type_key row" for r
    using assms(4) by (auto simp: mine_def rows type_key_def)
  have pris: "at_priority ` set rows = P" using rows assms(2) by (simp add: numbers_def)
  have run: "set_account_type self_id person ou aff priority db =
    (if mine = [] then
       res_bind (if p \<in> P then set_account_type_priority self_id all_pris p (p + 1) db else Inr db) (\<lambda>db1.
       res_bind (insert_type row db1) (\<lambda>db2. Inr (Some (''add'', p), ac_log_change self_id ''account_type_add'' db2)))
     else if at_priority (last mine) \<noteq> p then
       res_bind (set_account_type_priority self_id all_pris (at_priority (last mine)) p db) (\<lambda>db1. Inr (Some (''mod'', p), db1))
     else Inr (None, db))"
    unfolding set_account_type_def Let_def rows_def [symmetric] all_pris_def [symmetric] mine_def [symmetric] fold_max_priority
      keys pris assms(3) [symmetric] assms(4) [symmetric] by (rule refl)
  have "last mine = x" "mine \<noteq> []" if "x \<in> set (ac_types db)" "type_key x = type_key row" for x
  proof -
    show "mine \<noteq> []" using mine [of x] that by auto
    then have "last mine \<in> set mine" by (rule last_in_set)
    then have "last mine \<in> set (ac_types db) \<and> type_key (last mine) = type_key row" by (simp only: mine)
    then show "last mine = x" by (intro types.key_unique [OF wf_rows [OF assms(1)]]) (use that in simp_all)
  qed
  moreover have "mine = []" if "type_key row \<notin> type_key ` set (ac_types db)"
  proof (rule ccontr)
    assume "mine \<noteq> []"
    then have "last mine \<in> set mine" by (rule last_in_set)
    then have "last mine \<in> set (ac_types db) \<and> type_key (last mine) = type_key row" by (simp only: mine)
    then show False using that by (metis image_eqI)
  qed
  ultimately show ?thesis using prio run by (intro exI [of _ all_pris]) (simp add: res_bind_assoc)
qed

text \<open>
  C16: setting a type of an account gives it the priority that was asked for, or five more than the highest one of the person. If it
  had another, or did not exist, the types of the person in its way move up by one, as far as they follow each other without a gap; the
  order of all other types stays as it was, types of other persons are untouched, and the constraints of the table hold throughout.
\<close>

theorem set_account_type_exact:
  assumes "wf_types db" "(self_id, person) \<in> set (ac_owners db)" "(person, ou, aff) \<in> set (ac_affiliations db)"
    "P = priorities person db" "p = (case priority of None \<Rightarrow> Max (insert 0 P) + 5 | Some q \<Rightarrow> q)" "\<bar>p\<bar> < 1000" "\<forall>q \<in> P. q < 999"
    "row = \<lparr>at_person = person, at_ou = ou, at_affiliation = aff, at_account = self_id, at_priority = p\<rparr>"
  shows "\<exists>what db'. set_account_type self_id person ou aff priority db = Inr (what, db') \<and> wf_types db' \<and>
    set (ac_types db') = insert row ((if row \<in> set (ac_types db) then id else shifted P person p) ` {r \<in> set (ac_types db). type_key r \<noteq> type_key row}) \<and>
    (\<forall>r \<in> set (ac_types db). \<forall>x \<in> set (ac_types db). at_person r = person \<and> at_person x = person \<and> at_priority r < at_priority x \<longrightarrow>
      at_priority (shifted P person p r) < at_priority (shifted P person p x))"
proof -
  let ?others = "{r \<in> set (ac_types db). type_key r \<noteq> type_key row}"
  obtain all_pris where prio: "by_priority person db all_pris"
    and add: "type_key row \<notin> type_key ` set (ac_types db) \<Longrightarrow> set_account_type self_id person ou aff priority db =
       res_bind (res_bind (if p \<in> P then set_account_type_priority self_id all_pris p (p + 1) db else Inr db) (insert_type row))
         (\<lambda>db2. Inr (Some (''add'', p), ac_log_change self_id ''account_type_add'' db2))"
    and move: "\<And>x. x \<in> set (ac_types db) \<Longrightarrow> type_key x = type_key row \<Longrightarrow> set_account_type self_id person ou aff priority db =
       (if at_priority x \<noteq> p
        then res_bind (set_account_type_priority self_id all_pris (at_priority x) p db) (\<lambda>db1. Inr (Some (''mod'', p), db1))
        else Inr (None, db))"
    using set_account_type_cases [OF assms(1,4,5,8)] by metis
  consider (new) "type_key row \<notin> type_key ` set (ac_types db)" | (same) "row \<in> set (ac_types db)"
    | (moved) x where "x \<in> set (ac_types db)" "type_key x = type_key row" "row \<notin> set (ac_types db)" by (metis imageE)
  then have "\<exists>what db'. set_account_type self_id person ou aff priority db = Inr (what, db') \<and> wf_types db' \<and>
    set (ac_types db') = insert row ((if row \<in> set (ac_types db) then id else shifted P person p) ` ?others)"
  proof cases
    case new
    then have "row \<notin> set (ac_types db)" by auto
    then show ?thesis using add_type_ok [OF assms(1) prio assms(4,7,6,8) new assms(2,3)] add [OF new]
      by (fastforce simp: wf_types_def unique_rows_def ac_log_change_def)
  next
    case same
    moreover from this have "set (ac_types db) = insert row ?others" using types.key_unique [OF wf_rows [OF assms(1)]] by auto
    ultimately show ?thesis using move [OF same refl] assms(1,8) by simp
  next
    case moved
    have "row = x" if "at_priority x = p" using that moved(2) assms(8) by (intro type_row.equality) (simp_all add: type_key_def)
    then have "at_priority x \<noteq> p" using moved(1,3) by auto
    then show ?thesis using move_type_ok [OF assms(1) prio assms(4,7,6,8) moved(1,2)] move [OF moved(1,2)] moved(3) by force
  qed
  then show ?thesis using types.shift_order assms(4) by (fastforce simp: numbers_def)
qed


text \<open>
  A search for primary accounts finds, for every person that a search for all accounts with the same arguments finds, exactly one
  account type: the one of them with the lowest priority number.
\<close>

theorem primary_accounts_exact:
  assumes "wf_types db"
    "list_accounts_by_type now ou affiliation status expired account person False person_spread account_spread exclude db = Inr rows"
  shows "\<exists>primary. list_accounts_by_type now ou affiliation status expired account person True person_spread account_spread exclude db = Inr primary \<and>
    set primary = {r \<in> set rows. \<forall>x \<in> set rows. at_person x = at_person r \<longrightarrow> at_priority r \<le> at_priority x} \<and>
    distinct (map at_person primary) \<and> at_person ` set primary = at_person ` set rows"
proof -
  obtain P where rows: "rows = sort_key (\<lambda>r. (at_person r, at_priority r)) (filter P (remdups (ac_types db)))"
    and run: "list_accounts_by_type now ou affiliation status expired account person True person_spread account_spread exclude db = Inr (primary_rows None rows)"
    using assms(2) by (auto simp: list_accounts_by_type_def res_simps Let_def split: if_splits)
  have subset: "set rows \<subseteq> set (ac_types db)" and "distinct rows" unfolding rows by (auto simp: distinct_sort)
  have "inj_on (\<lambda>r. (at_person r, at_priority r)) (set rows)"
    using assms(1) subset unfolding wf_types_def unique_rows_def distinct_map by (meson inj_on_subset)
  with \<open>distinct rows\<close> have "distinct (map (\<lambda>r. (at_person r, at_priority r)) rows)" by (simp add: distinct_map)
  moreover have "sorted (map (\<lambda>r. (at_person r, at_priority r)) rows)" unfolding rows by (rule sorted_sort_key)
  ultimately have primary: "set (primary_rows None rows) = {r \<in> set rows. \<forall>x \<in> set rows. at_person x = at_person r \<longrightarrow> at_priority r \<le> at_priority x}"
    "distinct (map at_person (primary_rows None rows))"
    using primary_rows_exact [of rows None] by simp_all
  have "at_person x \<in> at_person ` set (primary_rows None rows)" if "x \<in> set rows" for x
  proof -
    let ?own = "{r \<in> set rows. at_person r = at_person x}"
    have "Min (at_priority ` ?own) \<in> at_priority ` ?own" using that by (intro Min_in) auto
    then obtain r where r: "r \<in> ?own" "at_priority r = Min (at_priority ` ?own)" by auto
    have "at_priority r \<le> at_priority y" if "y \<in> ?own" for y unfolding r(2) using that by (intro Min_le) auto
    then show ?thesis unfolding primary(1) using r(1) by (intro image_eqI [of _ _ r]) auto
  qed
  then have "at_person ` set rows \<subseteq> at_person ` set (primary_rows None rows)" by (rule image_subsetI)
  moreover have "set (primary_rows None rows) \<subseteq> set rows" unfolding primary(1) by blast
  ultimately have "at_person ` set (primary_rows None rows) = at_person ` set rows" by blast
  then show ?thesis using run primary by (intro exI [of _ "primary_rows None rows"]) simp
qed

text \<open>Two accounts of a person, with three types next to each other and one further off, and a type of another person.\<close>

definition example_accounts :: account_db where
  "example_accounts = \<lparr>ac_owners = [(1, 10), (2, 10), (3, 11)], ac_expires = [(1, None), (2, None), (3, Some 5)],
     ac_affiliations = [(10, 7, 50), (10, 7, 51), (10, 8, 50), (11, 7, 50)],
     ac_types =
       [\<lparr>at_person = 10, at_ou = 7, at_affiliation = 50, at_account = 1, at_priority = 300\<rparr>,
        \<lparr>at_person = 10, at_ou = 7, at_affiliation = 51, at_account = 2, at_priority = 301\<rparr>,
        \<lparr>at_person = 10, at_ou = 8, at_affiliation = 50, at_account = 1, at_priority = 310\<rparr>,
        \<lparr>at_person = 11, at_ou = 7, at_affiliation = 50, at_account = 3, at_priority = 300\<rparr>],
     ac_sources = [(10, 7, 50, 1), (10, 7, 51, 1), (10, 8, 50, 2), (11, 7, 50, 1)], ac_spreads = [(10, 60)], ac_log = []\<rparr>"

lemma example_accounts_wf: "wf_types example_accounts"
  by (simp add: wf_types_def unique_rows_def example_accounts_def type_key_def)

lemma primary_accounts_exact_witness:
  "list_accounts_by_type 3 None None None True None None False (Some (One 60)) None None example_accounts = Inr (take 3 (ac_types example_accounts)) \<and>
   (\<exists>primary. list_accounts_by_type 3 None None None True None None True (Some (One 60)) None None example_accounts = Inr primary \<and>
     set primary = {r \<in> set (take 3 (ac_types example_accounts)). \<forall>x \<in> set (take 3 (ac_types example_accounts)).
       at_person x = at_person r \<longrightarrow> at_priority r \<le> at_priority x})"
proof -
  have "list_accounts_by_type 3 None None None True None None False (Some (One 60)) None None example_accounts = Inr (take 3 (ac_types example_accounts))"
    by (simp add: list_accounts_by_type_def example_accounts_def in_codes_def given_def)
  then show ?thesis using primary_accounts_exact [OF example_accounts_wf] by blast
qed

lemma set_account_type_exact_witness:
  "\<exists>what db'. set_account_type 2 10 8 50 (Some 300) (example_accounts\<lparr>ac_affiliations := [(10, 8, 50)]\<rparr>) = Inr (what, db') \<and> wf_types db'"
proof -
  let ?db = "example_accounts\<lparr>ac_affiliations := [(10, 8, 50)]\<rparr>"
  have "wf_types ?db" using example_accounts_wf by (simp add: wf_types_def unique_rows_def)
  moreover have "priorities 10 ?db = {300, 301, 310}" by (simp add: numbers_code example_accounts_def)
  ultimately show ?thesis
    using set_account_type_exact [of ?db 2 10 8 50 "{300, 301, 310}" 300 "Some 300", OF _ _ _ _ _ _ _ refl]
    by (auto simp: example_accounts_def)
qed

end
