(* ===== verification/Account_Homes.thy ===== *)
theory Account_Homes
  imports Sql_Args
begin

text \<open>
  Where the home of an account is: the class \<^verbatim>\<open>AccountHome\<close> of \<^verbatim>\<open>src/Cerebrum/Account.py\<close>. An account has a home for every
  spread in \<^verbatim>\<open>account_home\<close>, which points to a directory in \<^verbatim>\<open>homedir\<close>; the constraints a statement may violate are those of
  \<^verbatim>\<open>design/core_tables.sql\<close>. The account is given by its id and its name. Of the parameters of a change log entry the path is
  kept. An argument of \<^verbatim>\<open>set_homedir\<close> that is not given (\<^verbatim>\<open>NotSet\<close>) is \<open>None\<close>; SQL \<^verbatim>\<open>NULL\<close> is \<open>Some None\<close>.

  Shown: setting and clearing a home changes the home of that account and spread only; a directory that was in use
  stays exactly as long as some home points to it; and no sequence of operations leaves a home without its directory.
\<close>

section \<open>Tables\<close>

record homedir_row =
  hd_id :: int
  hd_account :: int
  hd_home :: "string option"
  hd_disk :: "int option"
  hd_status :: int

record home_row =
  ah_account :: int
  ah_spread :: int
  ah_homedir :: int

record home_db =
  hm_accounts :: "int list"
  hm_disks :: "(int \<times> string) list"
  hm_statuses :: "int list"
  hm_spreads :: "int list"
  hm_homedirs :: "homedir_row list"
  hm_homes :: "home_row list"
  hm_seq :: int
  hm_log :: "(int \<times> string \<times> string option) list"

definition log_home :: "int \<Rightarrow> string \<Rightarrow> string option \<Rightarrow> home_db \<Rightarrow> home_db" where
  "log_home self_id change path db = db\<lparr>hm_log := hm_log db @ [(self_id, change, path)]\<rparr>"

text \<open>The constraints on a row of \<^verbatim>\<open>homedir\<close>, apart from its key, and on a row of \<^verbatim>\<open>account_home\<close>, apart from its key.\<close>

definition homedir_row_ok :: "home_db \<Rightarrow> homedir_row \<Rightarrow> bool" where
  "homedir_row_ok db r \<longleftrightarrow> (hd_home r \<noteq> None \<or> hd_disk r \<noteq> None) \<and> hd_account r \<in> set (hm_accounts db) \<and>
     hd_status r \<in> set (hm_statuses db) \<and> (case hd_disk r of None \<Rightarrow> True | Some d \<Rightarrow> d \<in> set (keys (hm_disks db)))"

definition home_row_ok :: "home_db \<Rightarrow> home_row \<Rightarrow> bool" where
  "home_row_ok db h \<longleftrightarrow> ah_account h \<in> set (hm_accounts db) \<and> ah_spread h \<in> set (hm_spreads db) \<and>
     list_ex (\<lambda>d. hd_id d = ah_homedir h \<and> hd_account d = ah_account h) (hm_homedirs db)"

section \<open>Reading\<close>

definition is_given :: "string option \<Rightarrow> bool" where
  "is_given s \<longleftrightarrow> s \<noteq> None \<and> s \<noteq> Some []"

definition disk_given :: "int option \<Rightarrow> bool" where
  "disk_given d \<longleftrightarrow> d \<noteq> None \<and> d \<noteq> Some 0"

definition find_disk :: "int \<Rightarrow> home_db \<Rightarrow> string res" where
  "find_disk d db = (case map_of (hm_disks db) d of None \<Rightarrow> Inl NotFoundError | Some path \<Rightarrow> Inr path)"

definition resolve_homedir ::
    "string \<Rightarrow> string option \<Rightarrow> int option \<Rightarrow> string option \<Rightarrow> string option \<Rightarrow> home_db \<Rightarrow> string option res" where
  "resolve_homedir self_name account_name disk_id disk_path home db =
     (let account_name = (if is_given account_name then the account_name else self_name)
      in res_bind (if disk_given disk_id then res_bind (find_disk (the disk_id) db) (\<lambda>p. Inr (Some p)) else Inr disk_path) (\<lambda>disk_path.
         if is_given home then
           Inr (Some (if \<not> is_given disk_path then the home else the disk_path @ ''/'' @ the home))
         else if \<not> is_given disk_path then Inr None
         else Inr (Some (the disk_path @ ''/'' @ account_name))))"

definition get_homedir :: "int \<Rightarrow> home_db \<Rightarrow> homedir_row res" where
  "get_homedir homedir_id db = query_1 (filter (\<lambda>d. hd_id d = homedir_id) (hm_homedirs db))"

text \<open>The join of the two tables: every home with its directory.\<close>

definition joined_homes :: "int \<Rightarrow> home_db \<Rightarrow> (home_row \<times> homedir_row) list" where
  "joined_homes self_id db =
     concat (map (\<lambda>h. map (\<lambda>d. (h, d)) (filter (\<lambda>d. hd_id d = ah_homedir h) (hm_homedirs db)))
       (filter (\<lambda>h. ah_account h = self_id) (hm_homes db)))"

definition get_home :: "int \<Rightarrow> int \<Rightarrow> home_db \<Rightarrow> homedir_row res" where
  "get_home self_id spread db = query_1 (map snd (filter (\<lambda>(h, d). ah_spread h = spread) (joined_homes self_id db)))"

definition get_homes :: "int \<Rightarrow> home_db \<Rightarrow> (homedir_row \<times> int) list" where
  "get_homes self_id db = map (\<lambda>(h, d). (d, ah_spread h)) (joined_homes self_id db)"

definition get_homepath :: "int \<Rightarrow> string \<Rightarrow> int \<Rightarrow> home_db \<Rightarrow> string option res" where
  "get_homepath self_id self_name spread db =
     res_bind (get_home self_id spread db) (\<lambda>tmp. resolve_homedir self_name None (hd_disk tmp) None (hd_home tmp) db)"

section \<open>Writing\<close>

definition delete_homes :: "int \<Rightarrow> home_db \<Rightarrow> home_db res" where
  "delete_homes self_id db =
     (let homes = filter (\<lambda>h. ah_account h \<noteq> self_id) (hm_homes db)
      in if list_ex (\<lambda>d. hd_account d = self_id \<and> list_ex (\<lambda>h. ah_homedir h = hd_id d) homes) (hm_homedirs db) then Inl IntegrityError
         else Inr (db\<lparr>hm_homes := homes, hm_homedirs := filter (\<lambda>d. hd_account d \<noteq> self_id) (hm_homedirs db)\<rparr>))"

definition clear_homedir :: "int \<Rightarrow> string \<Rightarrow> int \<Rightarrow> home_db \<Rightarrow> home_db res" where
  "clear_homedir self_id self_name homedir_id db =
     res_bind (get_homedir homedir_id db) (\<lambda>tmp.
     res_bind (resolve_homedir self_name None (hd_disk tmp) None (hd_home tmp) db) (\<lambda>path.
       if \<not> list_ex (\<lambda>d. hd_id d = homedir_id) (hm_homedirs db) then Inr db
       else if list_ex (\<lambda>h. ah_homedir h = homedir_id) (hm_homes db) then Inl IntegrityError
       else Inr (log_home self_id ''homedir_remove'' path
              (db\<lparr>hm_homedirs := filter (\<lambda>d. hd_id d \<noteq> homedir_id) (hm_homedirs db)\<rparr>))))"

definition clear_home :: "int \<Rightarrow> string \<Rightarrow> int \<Rightarrow> home_db \<Rightarrow> home_db res" where
  "clear_home self_id self_name spread db =
     (case get_home self_id spread db of
        Inl e \<Rightarrow> if e = NotFoundError then Inr db else Inl e
      | Inr ah \<Rightarrow>
          res_bind (resolve_homedir self_name None (hd_disk ah) None (hd_home ah) db) (\<lambda>old_home.
          if \<not> list_ex (\<lambda>h. ah_account h = self_id \<and> ah_spread h = spread) (hm_homes db) then Inr db
          else
            (let db1 = log_home self_id ''account_home_removed'' old_home
                   (db\<lparr>hm_homes := filter (\<lambda>h. \<not> (ah_account h = self_id \<and> ah_spread h = spread)) (hm_homes db)\<rparr>)
             in if length (filter (\<lambda>h. ah_homedir h = hd_id ah) (hm_homes db1)) < 1
                then clear_homedir self_id self_name (hd_id ah) db1
                else Inr db1)))"

definition illegal_path_char :: "char \<Rightarrow> bool" where
  "illegal_path_char c \<longleftrightarrow> c \<in> set '':*?<>|'' \<or> c = CHR 0x22"

text \<open>\<^verbatim>\<open>INSERT\<close> and \<^verbatim>\<open>UPDATE\<close> of a row of \<^verbatim>\<open>homedir\<close>; a status that is \<^verbatim>\<open>NULL\<close> is refused.\<close>

definition insert_homedir :: "int \<Rightarrow> int \<Rightarrow> string option \<Rightarrow> int option \<Rightarrow> int option \<Rightarrow> home_db \<Rightarrow> home_db res" where
  "insert_homedir homedir_id self_id home disk_id status db =
     (if (case home of None \<Rightarrow> False | Some h \<Rightarrow> length h > 512) then Inl DataError
      else case status of
        None \<Rightarrow> Inl IntegrityError
      | Some st \<Rightarrow>
          (let r = \<lparr>hd_id = homedir_id, hd_account = self_id, hd_home = home, hd_disk = disk_id, hd_status = st\<rparr>
           in if \<not> homedir_row_ok db r \<or> list_ex (\<lambda>d. hd_id d = homedir_id) (hm_homedirs db) then Inl IntegrityError
              else Inr (db\<lparr>hm_homedirs := hm_homedirs db @ [r]\<rparr>)))"

definition update_homedir ::
    "int \<Rightarrow> int \<Rightarrow> string option option \<Rightarrow> int option option \<Rightarrow> int option option \<Rightarrow> home_db \<Rightarrow> home_db res" where
  "update_homedir homedir_id self_id home disk_id status db =
     (let new = (\<lambda>d. d\<lparr>hd_account := self_id,
            hd_home := (case home of None \<Rightarrow> hd_home d | Some h \<Rightarrow> h),
            hd_disk := (case disk_id of None \<Rightarrow> hd_disk d | Some k \<Rightarrow> k),
            hd_status := (case status of Some (Some st) \<Rightarrow> st | _ \<Rightarrow> hd_status d)\<rparr>)
      in if \<not> list_ex (\<lambda>d. hd_id d = homedir_id) (hm_homedirs db) then Inr db
         else if (case home of Some (Some h) \<Rightarrow> length h > 512 | _ \<Rightarrow> False) then Inl DataError
         else if status = Some None \<or> list_ex (\<lambda>d. hd_id d = homedir_id \<and> \<not> homedir_row_ok db (new d)) (hm_homedirs db)
           \<or> list_ex (\<lambda>h. ah_homedir h = homedir_id \<and> ah_account h \<noteq> self_id) (hm_homes db) then Inl IntegrityError
         else Inr (db\<lparr>hm_homedirs := map (\<lambda>d. if hd_id d = homedir_id then new d else d) (hm_homedirs db)\<rparr>))"

definition set_homedir ::
    "int \<Rightarrow> string \<Rightarrow> int option \<Rightarrow> string option option \<Rightarrow> int option option \<Rightarrow> int option option \<Rightarrow> home_db \<Rightarrow> (int \<times> home_db) res" where
  "set_homedir self_id self_name current_id home disk_id status db =
     (if (case home of Some (Some h) \<Rightarrow> list_ex illegal_path_char h | _ \<Rightarrow> False) then Inl ValueError
      else
        (let log = (\<lambda>change homedir_id home disk_id db1.
               res_bind (if disk_given disk_id \<or> is_given home then resolve_homedir self_name None disk_id None home db1 else Inr None) (\<lambda>path.
                 Inr (homedir_id, log_home self_id change path db1)))
         in case current_id of
              None \<Rightarrow>
                (let homedir_id = hm_seq db + 1;
                     home = (case home of None \<Rightarrow> None | Some h \<Rightarrow> h);
                     disk_id = (case disk_id of None \<Rightarrow> None | Some k \<Rightarrow> k);
                     status = (case status of None \<Rightarrow> None | Some st \<Rightarrow> st)
                 in res_bind (insert_homedir homedir_id self_id home disk_id status (db\<lparr>hm_seq := homedir_id\<rparr>))
                      (log ''homedir_add'' homedir_id home disk_id))
            | Some homedir_id \<Rightarrow>
                if list_ex (\<lambda>d. (case disk_id of None \<Rightarrow> True | Some k \<Rightarrow> hd_disk d = k) \<and>
                     (case home of None \<Rightarrow> True | Some h \<Rightarrow> hd_home d = h) \<and>
                     (case status of None \<Rightarrow> True | Some st \<Rightarrow> Some (hd_status d) = st) \<and>
                     hd_account d = self_id \<and> hd_id d = homedir_id) (hm_homedirs db)
                then Inr (homedir_id, db)
                else res_bind (update_homedir homedir_id self_id home disk_id status db)
                       (log ''homedir_update'' homedir_id (case home of None \<Rightarrow> None | Some h \<Rightarrow> h) (case disk_id of None \<Rightarrow> None | Some k \<Rightarrow> k))))"

text \<open>The handler of \<^verbatim>\<open>NotFoundError\<close> in \<^verbatim>\<open>set_home\<close> covers the whole update.\<close>

definition insert_home :: "int \<Rightarrow> int \<Rightarrow> int \<Rightarrow> string option \<Rightarrow> home_db \<Rightarrow> home_db res" where
  "insert_home self_id spread homedir_id path db =
     (let h = \<lparr>ah_account = self_id, ah_spread = spread, ah_homedir = homedir_id\<rparr>
      in if \<not> home_row_ok db h \<or> list_ex (\<lambda>x. ah_account x = self_id \<and> ah_spread x = spread) (hm_homes db) then Inl IntegrityError
         else Inr (log_home self_id ''account_home_added'' path (db\<lparr>hm_homes := hm_homes db @ [h]\<rparr>)))"

definition update_home :: "int \<Rightarrow> int \<Rightarrow> int \<Rightarrow> home_db \<Rightarrow> home_db res" where
  "update_home self_id spread homedir_id db =
     (if \<not> list_ex (\<lambda>h. ah_account h = self_id \<and> ah_spread h = spread) (hm_homes db) then Inr db
      else if \<not> home_row_ok db \<lparr>ah_account = self_id, ah_spread = spread, ah_homedir = homedir_id\<rparr> then Inl IntegrityError
      else Inr (db\<lparr>hm_homes := map (\<lambda>h. if ah_account h = self_id \<and> ah_spread h = spread then h\<lparr>ah_homedir := homedir_id\<rparr> else h) (hm_homes db)\<rparr>))"

definition set_home :: "int \<Rightarrow> string \<Rightarrow> int \<Rightarrow> int \<Rightarrow> home_db \<Rightarrow> home_db res" where
  "set_home self_id self_name spread homedir_id db =
     res_bind (get_homedir homedir_id db) (\<lambda>tmp.
     res_bind (resolve_homedir self_name None (hd_disk tmp) None (hd_home tmp) db) (\<lambda>path.
       case get_home self_id spread db of
         Inl e \<Rightarrow> if e = NotFoundError then insert_home self_id spread homedir_id path db else Inl e
       | Inr old \<Rightarrow>
           if list_ex (\<lambda>h. h = \<lparr>ah_account = self_id, ah_spread = spread, ah_homedir = homedir_id\<rparr>) (hm_homes db) then Inr db
           else res_bind (update_home self_id spread homedir_id db) (\<lambda>db1.
             (let db2 = log_home self_id ''account_home_updated'' path db1
              in if hd_id old \<notin> hd_id ` fst ` set (get_homes self_id db2) then
                   (case clear_homedir self_id self_name (hd_id old) db2 of
                      Inl e \<Rightarrow> if e = NotFoundError then insert_home self_id spread homedir_id path db2 else Inl e
                    | Inr db3 \<Rightarrow> Inr db3)
                 else Inr db2))))"


section \<open>Consistent tables\<close>

definition wf_homes :: "home_db \<Rightarrow> bool" where
  "wf_homes db \<longleftrightarrow> distinct (map hd_id (hm_homedirs db)) \<and> distinct (map (\<lambda>h. (ah_account h, ah_spread h)) (hm_homes db)) \<and>
     (\<forall>d \<in> set (hm_homedirs db). homedir_row_ok db d \<and> hd_id d \<le> hm_seq db) \<and> (\<forall>h \<in> set (hm_homes db). home_row_ok db h)"

definition in_use :: "home_db \<Rightarrow> homedir_row \<Rightarrow> bool" where
  "in_use db d \<longleftrightarrow> list_ex (\<lambda>h. ah_homedir h = hd_id d) (hm_homes db)"

text \<open>The abstract view: the directory of every account and spread.\<close>

definition home_map :: "home_db \<Rightarrow> int \<times> int \<Rightarrow> homedir_row option" where
  "home_map db = (\<lambda>(account, spread). case get_home account spread db of Inl _ \<Rightarrow> None | Inr d \<Rightarrow> Some d)"

text \<open>What an operation may do to the directories: those in use before stay as long as they are in use.\<close>

definition collects_unused :: "home_db \<Rightarrow> home_db \<Rightarrow> bool" where
  "collects_unused db db' \<longleftrightarrow> set (hm_homedirs db') = {d \<in> set (hm_homedirs db). in_use db d \<longrightarrow> in_use db' d}"

lemma log_home_simps [simp]:
  "hm_homes (log_home a c p db) = hm_homes db" "hm_homedirs (log_home a c p db) = hm_homedirs db" "hm_seq (log_home a c p db) = hm_seq db"
  "wf_homes (log_home a c p db) = wf_homes db" "home_map (log_home a c p db) = home_map db" "in_use (log_home a c p db) = in_use db"
  "homedir_row_ok (log_home a c p db) = homedir_row_ok db" "home_row_ok (log_home a c p db) = home_row_ok db"
  "get_homedir i (log_home a c p db) = get_homedir i db" "get_homes a' (log_home a c p db) = get_homes a' db"
  "hm_disks (log_home a c p db) = hm_disks db" "hm_spreads (log_home a c p db) = hm_spreads db"
  "resolve_homedir n n' k q h (log_home a c p db) = resolve_homedir n n' k q h db"
  by (simp_all add: log_home_def wf_homes_def home_map_def in_use_def homedir_row_ok_def home_row_ok_def get_home_def joined_homes_def fun_eq_iff
      get_homedir_def get_homes_def resolve_homedir_def find_disk_def cong: option.case_cong)

lemma joined_homes_set:
  "set (joined_homes a db) = {(h, d). h \<in> set (hm_homes db) \<and> ah_account h = a \<and> d \<in> set (hm_homedirs db) \<and> hd_id d = ah_homedir h}"
  by (auto simp: joined_homes_def)

lemma wf_key:
  assumes "wf_homes db"
  shows "h \<in> set (hm_homes db) \<Longrightarrow> filter (\<lambda>x. ah_account x = ah_account h \<and> ah_spread x = ah_spread h) (hm_homes db) = [h]"
    and "d \<in> set (hm_homedirs db) \<Longrightarrow> filter (\<lambda>x. hd_id x = hd_id d) (hm_homedirs db) = [d]"
  using assms filter_key_single [of "\<lambda>h. (ah_account h, ah_spread h)" "hm_homes db" h] filter_key_single [of hd_id "hm_homedirs db" d]
  by (simp_all add: wf_homes_def)

lemma wf_same_key:
  assumes "wf_homes db"
  shows "h \<in> set (hm_homes db) \<Longrightarrow> x \<in> set (hm_homes db) \<Longrightarrow> ah_account x = ah_account h \<Longrightarrow> ah_spread x = ah_spread h \<Longrightarrow> x = h"
    and "d \<in> set (hm_homedirs db) \<Longrightarrow> y \<in> set (hm_homedirs db) \<Longrightarrow> hd_id y = hd_id d \<Longrightarrow> y = d"
  using wf_key [OF assms, THEN arg_cong [where f = set]] by auto

lemma get_homedir_mem: "wf_homes db \<Longrightarrow> d \<in> set (hm_homedirs db) \<Longrightarrow> get_homedir (hd_id d) db = Inr d"
  by (simp add: get_homedir_def wf_key query_1_def)

lemma get_home_mem:
  assumes "wf_homes db" "h \<in> set (hm_homes db)" "d \<in> set (hm_homedirs db)" "ah_homedir h = hd_id d"
  shows "get_home (ah_account h) (ah_spread h) db = Inr d"
proof -
  have "map snd (filter (\<lambda>(x, d). ah_spread x = ah_spread h) (joined_homes (ah_account h) db)) =
    map snd (concat (map (\<lambda>x. map (\<lambda>d. (x, d)) (filter (\<lambda>d. hd_id d = ah_homedir x) (hm_homedirs db)))
      (filter (\<lambda>x. ah_account x = ah_account h \<and> ah_spread x = ah_spread h) (hm_homes db))))" (is "_ = map snd (concat (map ?f _))")
  proof -
    have "filter (\<lambda>(x, d). ah_spread x = ah_spread h) (concat (map ?f xs)) = concat (map ?f (filter (\<lambda>x. ah_spread x = ah_spread h) xs))" for xs
      by (induction xs) (auto simp: filter_map comp_def)
    then show ?thesis by (simp add: joined_homes_def conj_commute)
  qed
  also have "\<dots> = [d]" using wf_key [OF assms(1)] assms(2-4) by (simp add: comp_def)
  finally show ?thesis by (simp add: get_home_def query_1_def)
qed

lemma get_home_none: "\<not> (\<exists>h \<in> set (hm_homes db). ah_account h = a \<and> ah_spread h = s) \<Longrightarrow> get_home a s db = Inl NotFoundError"
proof -
  assume "\<not> (\<exists>h \<in> set (hm_homes db). ah_account h = a \<and> ah_spread h = s)"
  then have "filter (\<lambda>(h, d). ah_spread h = s) (joined_homes a db) = []" by (auto simp: filter_empty_conv joined_homes_set)
  then show ?thesis by (simp add: get_home_def query_1_def)
qed

lemma home_map_iff:
  assumes "wf_homes db"
  shows "home_map db (a, s) = Some d \<longleftrightarrow> d \<in> set (hm_homedirs db) \<and> \<lparr>ah_account = a, ah_spread = s, ah_homedir = hd_id d\<rparr> \<in> set (hm_homes db)"
proof (cases "\<exists>h \<in> set (hm_homes db). ah_account h = a \<and> ah_spread h = s")
  case True
  then obtain h where h: "h \<in> set (hm_homes db)" "ah_account h = a" "ah_spread h = s" by blast
  then obtain x where x: "x \<in> set (hm_homedirs db)" "hd_id x = ah_homedir h"
    using assms by (auto simp: wf_homes_def home_row_ok_def list_ex_iff)
  have "home_map db (a, s) = Some x" using get_home_mem [OF assms h(1) x(1)] h x(2) by (simp add: home_map_def)
  moreover have "\<lparr>ah_account = a, ah_spread = s, ah_homedir = hd_id x\<rparr> = h" using h x(2) by (intro home_row.equality) simp_all
  moreover have "d = x" if "d \<in> set (hm_homedirs db)" "\<lparr>ah_account = a, ah_spread = s, ah_homedir = hd_id d\<rparr> \<in> set (hm_homes db)"
  proof -
    have "\<lparr>ah_account = a, ah_spread = s, ah_homedir = hd_id d\<rparr> = h" by (rule wf_same_key(1) [OF assms h(1) that(2)]) (simp_all add: h)
    then have "hd_id d = hd_id x" using x(2) by (metis home_row.select_convs(3))
    then show ?thesis by (rule wf_same_key(2) [OF assms x(1) that(1)])
  qed
  ultimately show ?thesis using h(1) x(1) by (metis option.inject)
next
  case False
  then have "home_map db (a, s) = None" by (simp add: home_map_def get_home_none)
  then show ?thesis using False by force
qed


section \<open>Setting and clearing a home\<close>

lemma option_ext: "(\<And>x. a = Some x \<longleftrightarrow> b = Some x) \<Longrightarrow> a = b"
  by (cases a; cases b) auto

lemma resolve_ok: "homedir_row_ok db d \<Longrightarrow> \<exists>path. resolve_homedir n None (hd_disk d) None (hd_home d) db = Inr path"
  by (cases "hd_disk d"; cases "map_of (hm_disks db) (the (hd_disk d))")
    (auto simp: resolve_homedir_def homedir_row_ok_def find_disk_def disk_given_def Let_def map_of_eq_None_iff)

lemma wf_remove_homedir:
  "wf_homes db \<Longrightarrow> \<not> (\<exists>h \<in> set (hm_homes db). ah_homedir h = i) \<Longrightarrow>
   wf_homes (db\<lparr>hm_homedirs := filter (\<lambda>x. hd_id x \<noteq> i) (hm_homedirs db)\<rparr>)"
  unfolding wf_homes_def by (auto simp: distinct_map_filter homedir_row_ok_def home_row_ok_def list_ex_iff cong: option.case_cong) metis

lemma wf_replace_homes:
  assumes "wf_homes db" "distinct (map (\<lambda>h. (ah_account h, ah_spread h)) homes)" "\<And>h. h \<in> set homes \<Longrightarrow> home_row_ok db h"
  shows "wf_homes (db\<lparr>hm_homes := homes\<rparr>)"
  using assms unfolding wf_homes_def by (auto simp: homedir_row_ok_def home_row_ok_def cong: option.case_cong)

lemma release_ok:
  assumes "wf_homes db1" "hm_homedirs db1 = hm_homedirs db" "d \<in> set (hm_homedirs db)" "in_use db d" "\<not> in_use db1 d"
    "\<And>x. x \<in> set (hm_homedirs db) \<Longrightarrow> x \<noteq> d \<Longrightarrow> in_use db x \<Longrightarrow> in_use db1 x"
  shows "\<exists>db'. clear_homedir a n (hd_id d) db1 = Inr db' \<and> wf_homes db' \<and> hm_homes db' = hm_homes db1 \<and> collects_unused db db'"
proof -
  let ?db = "db1\<lparr>hm_homedirs := filter (\<lambda>x. hd_id x \<noteq> hd_id d) (hm_homedirs db1)\<rparr>"
  have d: "d \<in> set (hm_homedirs db1)" using assms(2,3) by simp
  obtain path where "resolve_homedir n None (hd_disk d) None (hd_home d) db1 = Inr path"
    using resolve_ok assms(1) d by (metis wf_homes_def)
  then have run: "clear_homedir a n (hd_id d) db1 = Inr (log_home a ''homedir_remove'' path ?db)"
    using get_homedir_mem [OF assms(1) d] d assms(5) by (auto simp: clear_homedir_def list_ex_iff in_use_def)
  have "wf_homes ?db" using assms(5) by (intro wf_remove_homedir assms(1)) (auto simp: in_use_def list_ex_iff)
  moreover have "in_use ?db = in_use db1" by (simp add: in_use_def fun_eq_iff)
  then have "collects_unused db ?db"
    using assms(2,4,5,6) wf_same_key(2) [OF assms(1) d] by (auto simp: collects_unused_def)
  ultimately show ?thesis using run by (simp add: collects_unused_def)
qed

lemma home_map_collect:
  assumes "wf_homes db" "wf_homes db'" "collects_unused db db'"
    "\<And>h. h \<in> set (hm_homes db') \<longleftrightarrow> (if ah_account h = a \<and> ah_spread h = s then ah_homedir h \<in> hd_id ` D else h \<in> set (hm_homes db))"
    "D \<subseteq> set (hm_homedirs db)"
  shows "home_map db' k = Some d \<longleftrightarrow> (if k = (a, s) then d \<in> D else home_map db k = Some d)"
proof -
  obtain a' s' where k: "k = (a', s')" by fastforce
  let ?h = "\<lparr>ah_account = a', ah_spread = s', ah_homedir = hd_id d\<rparr>"
  have "d \<in> set (hm_homedirs db') \<longleftrightarrow> d \<in> set (hm_homedirs db)" if "?h \<in> set (hm_homes db')"
  proof -
    have "in_use db' d" using that unfolding in_use_def list_ex_iff by (intro bexI [of _ ?h]) simp_all
    then show ?thesis using assms(3) by (simp add: collects_unused_def)
  qed
  moreover have "?h \<in> set (hm_homes db') \<longleftrightarrow> (if k = (a, s) then hd_id d \<in> hd_id ` D else ?h \<in> set (hm_homes db))"
    using assms(4) [of ?h] k by simp
  moreover have "d \<in> D \<longleftrightarrow> d \<in> set (hm_homedirs db) \<and> hd_id d \<in> hd_id ` D"
    using assms(5) wf_same_key(2) [OF assms(1)] by blast
  ultimately show ?thesis unfolding k using home_map_iff [OF assms(2)] home_map_iff [OF assms(1)] by auto
qed

lemma clear_home_ok:
  assumes "wf_homes db"
  shows "\<exists>db'. clear_home a n s db = Inr db' \<and> wf_homes db' \<and> collects_unused db db' \<and> home_map db' = (home_map db)((a, s) := None)"
proof (cases "\<exists>h \<in> set (hm_homes db). ah_account h = a \<and> ah_spread h = s")
  case False
  then have "clear_home a n s db = Inr db" by (simp add: clear_home_def get_home_none)
  moreover have "home_map db (a, s) = None" using False by (simp add: home_map_def get_home_none)
  ultimately show ?thesis using assms by (simp add: collects_unused_def fun_upd_idem)
next
  case True
  then obtain h where h: "h \<in> set (hm_homes db)" "ah_account h = a" "ah_spread h = s" by blast
  then obtain d where d: "d \<in> set (hm_homedirs db)" "hd_id d = ah_homedir h" "homedir_row_ok db d"
    using assms by (auto simp: wf_homes_def home_row_ok_def list_ex_iff)
  obtain path where path: "resolve_homedir n None (hd_disk d) None (hd_home d) db = Inr path" using resolve_ok [OF d(3)] by blast
  let ?homes = "filter (\<lambda>h. \<not> (ah_account h = a \<and> ah_spread h = s)) (hm_homes db)"
  let ?db1 = "log_home a ''account_home_removed'' path (db\<lparr>hm_homes := ?homes\<rparr>)"
  have run: "clear_home a n s db = (if \<not> in_use ?db1 d then clear_homedir a n (hd_id d) ?db1 else Inr ?db1)"
    using get_home_mem [OF assms h(1) d(1)] h d(2) path
    by (auto simp: clear_home_def list_ex_iff Let_def in_use_def filter_empty_conv)
  have wf1: "wf_homes ?db1" unfolding log_home_simps
    by (rule wf_replace_homes [OF assms]) (use assms in \<open>auto simp: wf_homes_def distinct_map_filter\<close>)
  have used: "in_use db d" using h d(2) by (auto simp: in_use_def list_ex_iff)
  have others: "in_use ?db1 x" if x: "x \<in> set (hm_homedirs db)" "x \<noteq> d" "in_use db x" for x
  proof -
    obtain g where g: "g \<in> set (hm_homes db)" "ah_homedir g = hd_id x" using x(3) by (auto simp: in_use_def list_ex_iff)
    have "g \<noteq> h" using wf_same_key(2) [OF assms d(1) x(1)] x(2) d(2) g(2) by auto
    then have "\<not> (ah_account g = a \<and> ah_spread g = s)" using wf_same_key(1) [OF assms h(1) g(1)] h(2,3) by auto
    then show ?thesis using g by (auto simp: in_use_def list_ex_iff)
  qed
  have "\<exists>db'. clear_home a n s db = Inr db' \<and> wf_homes db' \<and> hm_homes db' = ?homes \<and> collects_unused db db'"
  proof (cases "in_use ?db1 d")
    case True
    then have "collects_unused db ?db1" using others by (auto simp: collects_unused_def)
    then show ?thesis using run True wf1 by simp
  next
    case False
    then show ?thesis using release_ok [OF wf1 _ d(1) used False others] run by simp
  qed
  then obtain db' where db': "clear_home a n s db = Inr db'" "wf_homes db'" "hm_homes db' = ?homes" "collects_unused db db'" by blast
  have "home_map db' k = ((home_map db)((a, s) := None)) k" for k
    by (rule option_ext) (simp add: home_map_collect [OF assms db'(2,4), of a s "{}"] db'(3))
  then show ?thesis using db' by blast
qed


lemma distinct_append_key: "distinct (map f xs) \<Longrightarrow> f x \<notin> f ` set xs \<Longrightarrow> distinct (map f (xs @ [x]))"
  by simp

lemma get_homes_ids: "hd_id d \<in> hd_id ` fst ` set (get_homes a db) \<longleftrightarrow>
    (\<exists>h \<in> set (hm_homes db). ah_account h = a \<and> ah_homedir h = hd_id d \<and> (\<exists>x \<in> set (hm_homedirs db). hd_id x = hd_id d))"
  by (force simp: get_homes_def joined_homes_set image_iff)

text \<open>A new home, where the account has none for the spread.\<close>

lemma set_home_new:
  assumes "wf_homes db" "d \<in> set (hm_homedirs db)" "hd_account d = a" "a \<in> set (hm_accounts db)" "s \<in> set (hm_spreads db)"
    "\<not> (\<exists>h \<in> set (hm_homes db). ah_account h = a \<and> ah_spread h = s)"
  shows "\<exists>db'. set_home a n s (hd_id d) db = Inr db' \<and> wf_homes db' \<and> collects_unused db db' \<and>
    set (hm_homes db') = insert \<lparr>ah_account = a, ah_spread = s, ah_homedir = hd_id d\<rparr> (set (hm_homes db))"
proof -
  let ?h = "\<lparr>ah_account = a, ah_spread = s, ah_homedir = hd_id d\<rparr>"
  obtain path where path: "resolve_homedir n None (hd_disk d) None (hd_home d) db = Inr path"
    using resolve_ok assms(1,2) by (metis wf_homes_def)
  have ok: "home_row_ok db ?h" using assms(2-5) by (auto simp: home_row_ok_def list_ex_iff)
  let ?db = "db\<lparr>hm_homes := hm_homes db @ [?h]\<rparr>"
  have run: "set_home a n s (hd_id d) db = Inr (log_home a ''account_home_added'' path ?db)"
    using get_homedir_mem [OF assms(1,2)] path ok assms(6) by (auto simp: set_home_def get_home_none insert_home_def list_ex_iff)
  have "wf_homes ?db"
    by (rule wf_replace_homes [OF assms(1)], rule distinct_append_key) (use assms(1,6) ok in \<open>auto simp: wf_homes_def\<close>)
  moreover have "collects_unused db ?db" by (auto simp: collects_unused_def in_use_def list_ex_iff)
  ultimately show ?thesis using run by (simp add: collects_unused_def)
qed

lemma image_replace:
  assumes "\<And>x. x \<in> S \<Longrightarrow> P x \<Longrightarrow> f x = c" "\<And>x. x \<in> S \<Longrightarrow> \<not> P x \<Longrightarrow> f x = x" "\<exists>x \<in> S. P x"
  shows "f ` S = insert c {x \<in> S. \<not> P x}"
proof (intro equalityI subsetI)
  fix y assume "y \<in> f ` S"
  then obtain x where "x \<in> S" "y = f x" by blast
  then show "y \<in> insert c {x \<in> S. \<not> P x}" using assms(1,2) by (cases "P x") auto
next
  fix y assume "y \<in> insert c {x \<in> S. \<not> P x}"
  then show "y \<in> f ` S" using assms by (metis (no_types, lifting) image_eqI insert_iff mem_Collect_eq)
qed

text \<open>A home that moves to another directory.\<close>

lemma set_home_move:
  assumes "wf_homes db" "d \<in> set (hm_homedirs db)" "hd_account d = a" "a \<in> set (hm_accounts db)" "s \<in> set (hm_spreads db)"
    "h \<in> set (hm_homes db)" "ah_account h = a" "ah_spread h = s" "ah_homedir h \<noteq> hd_id d"
  shows "\<exists>db'. set_home a n s (hd_id d) db = Inr db' \<and> wf_homes db' \<and> collects_unused db db' \<and>
    set (hm_homes db') = insert \<lparr>ah_account = a, ah_spread = s, ah_homedir = hd_id d\<rparr> {x \<in> set (hm_homes db). \<not> (ah_account x = a \<and> ah_spread x = s)}"
proof -
  let ?h = "\<lparr>ah_account = a, ah_spread = s, ah_homedir = hd_id d\<rparr>"
  let ?move = "\<lambda>x. if ah_account x = a \<and> ah_spread x = s then x\<lparr>ah_homedir := hd_id d\<rparr> else x"
  obtain old where old: "old \<in> set (hm_homedirs db)" "hd_id old = ah_homedir h" and old_account: "hd_account old = a"
    using assms(1,6,7) by (auto simp: wf_homes_def home_row_ok_def list_ex_iff)
  obtain path where path: "resolve_homedir n None (hd_disk d) None (hd_home d) db = Inr path"
    using resolve_ok assms(1,2) by (metis wf_homes_def)
  have ok: "home_row_ok db ?h" using assms(2-5) by (auto simp: home_row_ok_def list_ex_iff)
  let ?db1 = "log_home a ''account_home_updated'' path (db\<lparr>hm_homes := map ?move (hm_homes db)\<rparr>)"
  have "?h \<notin> set (hm_homes db)"
  proof
    assume "?h \<in> set (hm_homes db)"
    then have "?h = h" by (rule wf_same_key(1) [OF assms(1,6)]) (simp_all add: assms(7,8))
    then show False using assms(9) by (metis home_row.select_convs(3))
  qed
  then have run: "set_home a n s (hd_id d) db =
      (if hd_id old \<notin> hd_id ` fst ` set (get_homes a ?db1) then
         (case clear_homedir a n (hd_id old) ?db1 of
            Inl e \<Rightarrow> if e = NotFoundError then insert_home a s (hd_id d) path ?db1 else Inl e | Inr db3 \<Rightarrow> Inr db3)
       else Inr ?db1)"
    using get_homedir_mem [OF assms(1,2)] get_home_mem [OF assms(1,6) old(1)] old(2) path ok assms(6-8)
    by (auto simp: set_home_def update_home_def list_ex_iff Let_def)
  have move: "?move x = ?h" if "ah_account x = a" "ah_spread x = s" for x
    using that by (intro home_row.equality) simp_all
  have homes: "set (hm_homes ?db1) = insert ?h {x \<in> set (hm_homes db). \<not> (ah_account x = a \<and> ah_spread x = s)}"
  proof -
    have "?move ` set (hm_homes db) = insert ?h {x \<in> set (hm_homes db). \<not> (ah_account x = a \<and> ah_spread x = s)}"
      by (rule image_replace [where P = "\<lambda>x. ah_account x = a \<and> ah_spread x = s"]) (use move assms(6-8) in \<open>auto simp del: home_row.update_convs\<close>)
    then show ?thesis by simp
  qed
  have keys: "map (\<lambda>x. (ah_account x, ah_spread x)) (map ?move (hm_homes db)) = map (\<lambda>x. (ah_account x, ah_spread x)) (hm_homes db)" by simp
  have wf1: "wf_homes ?db1" unfolding log_home_simps
  proof (rule wf_replace_homes [OF assms(1)])
    show "distinct (map (\<lambda>h. (ah_account h, ah_spread h)) (map ?move (hm_homes db)))" unfolding keys using assms(1) by (simp add: wf_homes_def)
    fix x assume "x \<in> set (map ?move (hm_homes db))"
    then have "x = ?h \<or> x \<in> set (hm_homes db)" using homes by (simp del: set_map) blast
    then show "home_row_ok db x" using ok assms(1) by (auto simp: wf_homes_def)
  qed
  have used: "in_use db old" using assms(6) old(2) by (auto simp: in_use_def list_ex_iff)
  have others: "in_use ?db1 x" if x: "x \<in> set (hm_homedirs db)" "x \<noteq> old" "in_use db x" for x
  proof -
    obtain g where g: "g \<in> set (hm_homes db)" "ah_homedir g = hd_id x" using x(3) by (auto simp: in_use_def list_ex_iff)
    have "g \<noteq> h" using wf_same_key(2) [OF assms(1) old(1) x(1)] x(2) old(2) g(2) by auto
    then have "\<not> (ah_account g = a \<and> ah_spread g = s)" using wf_same_key(1) [OF assms(1,6) g(1)] assms(7,8) by auto
    then have "g \<in> set (hm_homes ?db1)" using g(1) unfolding homes by blast
    then show ?thesis using g(2) unfolding in_use_def list_ex_iff by blast
  qed
  show ?thesis
  proof (cases "in_use ?db1 old")
    case True
    then obtain g where g: "g \<in> set (hm_homes ?db1)" "ah_homedir g = hd_id old" unfolding in_use_def list_ex_iff by blast
    have "home_row_ok ?db1 g" using wf1 g(1) by (auto simp: wf_homes_def)
    then obtain x where "x \<in> set (hm_homedirs db)" "hd_id x = hd_id old" "hd_account x = ah_account g"
      using g(2) by (auto simp: home_row_ok_def list_ex_iff)
    then have "ah_account g = hd_account old" using wf_same_key(2) [OF assms(1) old(1)] by metis
    moreover have "hd_account old = a" using old_account .
    ultimately have "hd_id old \<in> hd_id ` fst ` set (get_homes a ?db1)" using g old(1) unfolding get_homes_ids by auto
    moreover have "collects_unused db ?db1" using True others by (auto simp: collects_unused_def)
    ultimately show ?thesis using run wf1 homes by simp
  next
    case False
    then have "hd_id old \<notin> hd_id ` fst ` set (get_homes a ?db1)" unfolding get_homes_ids in_use_def list_ex_iff by blast
    moreover obtain db' where "clear_homedir a n (hd_id old) ?db1 = Inr db'" "wf_homes db'" "hm_homes db' = hm_homes ?db1" "collects_unused db db'"
      using release_ok [OF wf1 _ old(1) used False others] by fastforce
    ultimately show ?thesis using run homes by simp
  qed
qed

lemma set_home_ok:
  assumes "wf_homes db" "d \<in> set (hm_homedirs db)" "hd_account d = a" "s \<in> set (hm_spreads db)"
  shows "\<exists>db'. set_home a n s (hd_id d) db = Inr db' \<and> wf_homes db' \<and> collects_unused db db' \<and> home_map db' = (home_map db)((a, s) \<mapsto> d)"
proof -
  let ?h = "\<lparr>ah_account = a, ah_spread = s, ah_homedir = hd_id d\<rparr>"
  have a: "a \<in> set (hm_accounts db)" using assms(1-3) by (auto simp: wf_homes_def homedir_row_ok_def)
  have "\<exists>db'. set_home a n s (hd_id d) db = Inr db' \<and> wf_homes db' \<and> collects_unused db db' \<and>
    set (hm_homes db') = insert ?h {x \<in> set (hm_homes db). \<not> (ah_account x = a \<and> ah_spread x = s)}"
  proof -
    consider (new) "\<not> (\<exists>h \<in> set (hm_homes db). ah_account h = a \<and> ah_spread h = s)" | (same) "?h \<in> set (hm_homes db)"
      | (move) h where "h \<in> set (hm_homes db)" "ah_account h = a" "ah_spread h = s" "ah_homedir h \<noteq> hd_id d"
    proof (cases "\<exists>h \<in> set (hm_homes db). ah_account h = a \<and> ah_spread h = s")
      case True
      then obtain h where h: "h \<in> set (hm_homes db)" "ah_account h = a" "ah_spread h = s" by blast
      then have "h = ?h" if "ah_homedir h = hd_id d" using that by (intro home_row.equality) simp_all
      then show ?thesis using that(2) that(3) [OF h] h(1) by fastforce
    qed (rule that(1))
    then show ?thesis
    proof cases
      case new
      then have "{x \<in> set (hm_homes db). \<not> (ah_account x = a \<and> ah_spread x = s)} = set (hm_homes db)" by blast
      then show ?thesis using set_home_new [OF assms(1-3) a assms(4) new] by simp
    next
      case same
      have "set_home a n s (hd_id d) db = Inr db"
        using get_homedir_mem [OF assms(1,2)] get_home_mem [OF assms(1) same assms(2)] same resolve_ok [of db d n] assms(1,2)
        by (auto simp: set_home_def list_ex_iff wf_homes_def)
      moreover have "set (hm_homes db) = insert ?h {x \<in> set (hm_homes db). \<not> (ah_account x = a \<and> ah_spread x = s)}"
      proof -
        have "x = ?h" if "x \<in> set (hm_homes db)" "ah_account x = a" "ah_spread x = s" for x
          by (rule wf_same_key(1) [OF assms(1) same that(1)]) (simp_all add: that)
        then show ?thesis using same by blast
      qed
      ultimately show ?thesis using assms(1) by (auto simp: collects_unused_def)
    next
      case (move h)
      then show ?thesis by (rule set_home_move [OF assms(1-3) a assms(4)])
    qed
  qed
  then obtain db' where db': "set_home a n s (hd_id d) db = Inr db'" "wf_homes db'" "collects_unused db db'"
    "set (hm_homes db') = insert ?h {x \<in> set (hm_homes db). \<not> (ah_account x = a \<and> ah_spread x = s)}" by blast
  have "h \<in> set (hm_homes db') \<longleftrightarrow> (if ah_account h = a \<and> ah_spread h = s then ah_homedir h \<in> hd_id ` {d} else h \<in> set (hm_homes db))" for h
    unfolding db'(4) by (cases h) auto
  then have "home_map db' k = ((home_map db)((a, s) \<mapsto> d)) k" for k
    by (intro option_ext) (auto simp: home_map_collect [OF assms(1) db'(2,3), of a s "{d}"] assms(2))
  then show ?thesis using db' by blast
qed


section \<open>Every sequence of operations\<close>

lemma insert_homedir_wf:
  assumes "wf_homes db" "insert_homedir (hm_seq db + 1) a home disk st (db\<lparr>hm_seq := hm_seq db + 1\<rparr>) = Inr db'"
  shows "wf_homes db'"
proof -
  obtain r where r: "db' = db\<lparr>hm_seq := hm_seq db + 1, hm_homedirs := hm_homedirs db @ [r]\<rparr>" "hd_id r = hm_seq db + 1"
    "homedir_row_ok (db\<lparr>hm_seq := hm_seq db + 1\<rparr>) r"
    using assms(2) by (auto simp: insert_homedir_def Let_def split: if_splits option.splits)
  have same: "homedir_row_ok db' d = homedir_row_ok db d" "homedir_row_ok (db\<lparr>hm_seq := hm_seq db + 1\<rparr>) d = homedir_row_ok db d" for d
    unfolding r(1) by (simp_all add: homedir_row_ok_def cong: option.case_cong)
  have less: "hd_id d \<le> hm_seq db" if "d \<in> set (hm_homedirs db)" for d using that assms(1) by (auto simp: wf_homes_def)
  have "distinct (map hd_id (hm_homedirs db'))" using assms(1) less r(2) unfolding r(1) by (force simp: wf_homes_def)
  moreover have "homedir_row_ok db' d \<and> hd_id d \<le> hm_seq db'" if "d \<in> set (hm_homedirs db')" for d
    using that assms(1) r(2,3) less unfolding same by (fastforce simp: wf_homes_def r(1))
  moreover have "home_row_ok db' h" if "home_row_ok db h" for h using that by (auto simp: home_row_ok_def r(1))
  ultimately show ?thesis using assms(1) by (simp add: wf_homes_def r(1))
qed

lemma update_homedir_wf:
  assumes "wf_homes db" "update_homedir i a home disk st db = Inr db'"
  shows "wf_homes db'"
proof (cases "db' = db")
  case False
  then obtain new where new: "db' = db\<lparr>hm_homedirs := map (\<lambda>d. if hd_id d = i then new d else d) (hm_homedirs db)\<rparr>"
      "\<And>d. hd_id (new d) = hd_id d" "\<And>d. hd_account (new d) = a"
    and ok: "\<And>d. d \<in> set (hm_homedirs db) \<Longrightarrow> hd_id d = i \<Longrightarrow> homedir_row_ok db (new d)"
    and owner: "\<And>h. h \<in> set (hm_homes db) \<Longrightarrow> ah_homedir h = i \<Longrightarrow> ah_account h = a"
    using assms(2) by (auto simp: update_homedir_def Let_def list_ex_iff split: if_splits)
  have same: "homedir_row_ok db' d = homedir_row_ok db d" for d
    unfolding new(1) by (simp add: homedir_row_ok_def cong: option.case_cong)
  have ids: "map hd_id (map (\<lambda>d. if hd_id d = i then new d else d) (hm_homedirs db)) = map hd_id (hm_homedirs db)"
    by (simp add: new(2))
  have "distinct (map hd_id (hm_homedirs db'))" using assms(1) ids unfolding new(1) by (simp add: wf_homes_def del: map_map)
  moreover have "homedir_row_ok db' d \<and> hd_id d \<le> hm_seq db'" if "d \<in> set (hm_homedirs db')" for d
    using that assms(1) ok new(2) unfolding same by (auto simp: wf_homes_def new(1))
  moreover have "home_row_ok db' h" if "h \<in> set (hm_homes db)" for h
  proof -
    obtain d where "d \<in> set (hm_homedirs db)" "hd_id d = ah_homedir h" "hd_account d = ah_account h" and
      codes: "ah_account h \<in> set (hm_accounts db)" "ah_spread h \<in> set (hm_spreads db)"
      using assms(1) \<open>h \<in> set (hm_homes db)\<close> by (auto simp: wf_homes_def home_row_ok_def list_ex_iff)
    then have "\<exists>x \<in> set (hm_homedirs db'). hd_id x = ah_homedir h \<and> hd_account x = ah_account h"
      using owner [OF that] new(2,3) by (intro bexI [of _ "if hd_id d = i then new d else d"]) (auto simp: new(1))
    then show ?thesis using codes by (simp add: home_row_ok_def list_ex_iff new(1))
  qed
  ultimately show ?thesis using assms(1) by (simp add: wf_homes_def new(1))
qed (use assms(1) in simp)

lemma set_homedir_wf:
  assumes "wf_homes db" "set_homedir a n current home disk st db = Inr (i, db')"
  shows "wf_homes db'"
proof (cases current)
  case None
  then show ?thesis using assms insert_homedir_wf [OF assms(1)] by (auto simp: set_homedir_def Let_def res_simps split: if_splits)
next
  case (Some c)
  then show ?thesis using assms update_homedir_wf [OF assms(1)] by (auto simp: set_homedir_def Let_def res_simps split: if_splits)
qed

lemma query_1_mem: "query_1 xs = Inr x \<Longrightarrow> x \<in> set xs"
  by (cases xs; cases "tl xs") (auto simp: query_1_def)

lemma set_home_wf:
  assumes "wf_homes db" "set_home a n s i db = Inr db'"
  shows "wf_homes db'"
proof -
  obtain d where d: "d \<in> set (hm_homedirs db)" "hd_id d = i"
    using assms(2) by (auto simp: set_home_def res_simps get_homedir_def dest!: query_1_mem)
  show ?thesis
  proof (cases "home_row_ok db \<lparr>ah_account = a, ah_spread = s, ah_homedir = i\<rparr>")
    case True
    then have "hd_account d = a" "s \<in> set (hm_spreads db)"
      using wf_same_key(2) [OF assms(1) d(1)] d(2) by (auto simp: home_row_ok_def list_ex_iff)
    then show ?thesis using set_home_ok [OF assms(1) d(1), of a s n] d(2) assms(2) by auto
  next
    case False
    then have "\<lparr>ah_account = a, ah_spread = s, ah_homedir = i\<rparr> \<notin> set (hm_homes db)" using assms(1) by (auto simp: wf_homes_def)
    moreover have "update_home a s i db = Inl IntegrityError" if "get_home a s db = Inr old" for old
      using that get_home_none [of db a s] False by (auto simp: update_home_def list_ex_iff)
    moreover have "insert_home a s i path db = Inl IntegrityError" for path using False by (simp add: insert_home_def)
    ultimately have False using assms(2) by (cases "get_home a s db") (auto simp: set_home_def res_simps list_ex_iff split: if_splits)
    then show ?thesis ..
  qed
qed

lemma delete_homes_wf: "wf_homes db \<Longrightarrow> delete_homes a db = Inr db' \<Longrightarrow> wf_homes db'"
  unfolding wf_homes_def
  by (auto simp: delete_homes_def Let_def distinct_map_filter homedir_row_ok_def home_row_ok_def list_ex_iff split: if_splits cong: option.case_cong) metis

inductive home_step :: "home_db \<Rightarrow> home_db \<Rightarrow> bool" where
  step_set_homedir: "set_homedir a n current home disk st db = Inr (i, db') \<Longrightarrow> home_step db db'"
| step_set_home: "set_home a n s i db = Inr db' \<Longrightarrow> home_step db db'"
| step_clear_home: "clear_home a n s db = Inr db' \<Longrightarrow> home_step db db'"
| step_delete_homes: "delete_homes a db = Inr db' \<Longrightarrow> home_step db db'"

definition no_homes :: "home_db \<Rightarrow> bool" where
  "no_homes db \<longleftrightarrow> hm_homes db = [] \<and> hm_homedirs db = []"

lemma home_step_wf: "home_step db db' \<Longrightarrow> wf_homes db \<Longrightarrow> wf_homes db'"
proof (induction rule: home_step.induct)
  case (step_clear_home a n s db db')
  then show ?case using clear_home_ok [of db a n s] by auto
qed (auto intro: set_homedir_wf set_home_wf delete_homes_wf)

interpretation homes: invariant_system no_homes home_step wf_homes
  by (unfold_locales, simp add: no_homes_def wf_homes_def) (rule home_step_wf)


text \<open>
  C17: clearing a home always succeeds and removes the home of that account and spread, nothing else; setting a home to a directory of
  the account makes it the home for that spread, nothing else. A directory that was in use before is removed exactly when
  no home points to it any more; one that was not yet in use stays.
\<close>

theorem homes_follow_map:
  assumes "wf_homes db"
  shows "(\<exists>db'. clear_home a n s db = Inr db' \<and> wf_homes db' \<and> collects_unused db db' \<and> home_map db' = (home_map db)((a, s) := None)) \<and>
    (\<forall>d \<in> set (hm_homedirs db). hd_account d = a \<and> s \<in> set (hm_spreads db) \<longrightarrow>
      (\<exists>db'. set_home a n s (hd_id d) db = Inr db' \<and> wf_homes db' \<and> collects_unused db db' \<and> home_map db' = (home_map db)((a, s) \<mapsto> d)))"
  using clear_home_ok [OF assms] set_home_ok [OF assms] by blast

text \<open>
  Whatever sequence of operations on homes the tables went through, an account has at most one home for a spread, its
  directory and its disk are there, and the path of the home can be found.
\<close>

theorem homes_have_paths:
  assumes "reachable no_homes home_step db"
  shows "(get_homepath a n s db = Inl NotFoundError \<and> filter (\<lambda>h. ah_account h = a \<and> ah_spread h = s) (hm_homes db) = []) \<or>
    (\<exists>h path. get_homepath a n s db = Inr path \<and> filter (\<lambda>h. ah_account h = a \<and> ah_spread h = s) (hm_homes db) = [h])"
proof -
  have wf: "wf_homes db" by (rule homes.reachable_inv [OF assms])
  show ?thesis
  proof (cases "\<exists>h \<in> set (hm_homes db). ah_account h = a \<and> ah_spread h = s")
    case True
    then obtain h where h: "h \<in> set (hm_homes db)" "ah_account h = a" "ah_spread h = s" by blast
    then obtain d where d: "d \<in> set (hm_homedirs db)" "hd_id d = ah_homedir h" "homedir_row_ok db d"
      using wf by (auto simp: wf_homes_def home_row_ok_def list_ex_iff)
    then show ?thesis using get_home_mem [OF wf h(1) d(1)] wf_key(1) [OF wf h(1)] h resolve_ok [OF d(3), of n] by (auto simp: get_homepath_def)
  next
    case False
    then show ?thesis by (auto simp: get_homepath_def get_home_none filter_empty_conv)
  qed
qed

definition example_homes :: home_db where
  "example_homes = \<lparr>hm_accounts = [1], hm_disks = [(5, ''/d'')], hm_statuses = [0], hm_spreads = [60, 61],
     hm_homedirs = [\<lparr>hd_id = 1, hd_account = 1, hd_home = None, hd_disk = Some 5, hd_status = 0\<rparr>,
       \<lparr>hd_id = 2, hd_account = 1, hd_home = Some ''u'', hd_disk = None, hd_status = 0\<rparr>],
     hm_homes = [\<lparr>ah_account = 1, ah_spread = 60, ah_homedir = 1\<rparr>], hm_seq = 2, hm_log = []\<rparr>"

lemma homes_follow_map_witness:
  "wf_homes example_homes \<and> (\<exists>db'. clear_home 1 ''bob'' 60 example_homes = Inr db' \<and> collects_unused example_homes db' \<and>
    home_map db' = (home_map example_homes)((1, 60) := None))"
proof -
  have "wf_homes example_homes" by (simp add: wf_homes_def example_homes_def homedir_row_ok_def home_row_ok_def)
  then show ?thesis using homes_follow_map [of example_homes 1 "''bob''" 60] by blast
qed

lemma homes_have_paths_witness:
  "let start = example_homes\<lparr>hm_homes := [], hm_homedirs := []\<rparr>
   in \<exists>db1 db2. set_homedir 1 ''bob'' None None (Some (Some 5)) (Some (Some 0)) start = Inr (3, db1) \<and> set_home 1 ''bob'' 60 3 db1 = Inr db2 \<and>
     get_homepath 1 ''bob'' 60 db2 = Inr (Some ''/d/bob'') \<and> get_homepath 1 ''bob'' 60 db2 \<noteq> Inl NotFoundError"
proof -
  let ?start = "example_homes\<lparr>hm_homes := [], hm_homedirs := []\<rparr>"
  obtain db1 where db1: "set_homedir 1 ''bob'' None None (Some (Some 5)) (Some (Some 0)) ?start = Inr (3, db1)"
      "db1 = ?start\<lparr>hm_seq := 3, hm_homedirs := [\<lparr>hd_id = 3, hd_account = 1, hd_home = None, hd_disk = Some 5, hd_status = 0\<rparr>],
         hm_log := [(1, ''homedir_add'', Some ''/d/bob'')]\<rparr>"
    by (simp add: set_homedir_def insert_homedir_def homedir_row_ok_def example_homes_def disk_given_def is_given_def resolve_homedir_def
        find_disk_def log_home_def)
  obtain db2 where db2: "set_home 1 ''bob'' 60 3 db1 = Inr db2" "db2 = log_home 1 ''account_home_added'' (Some ''/d/bob'')
         (db1\<lparr>hm_homes := [\<lparr>ah_account = 1, ah_spread = 60, ah_homedir = 3\<rparr>]\<rparr>)"
    by (simp add: db1(2) set_home_def get_homedir_def query_1_def resolve_homedir_def find_disk_def disk_given_def is_given_def
        get_home_def joined_homes_def insert_home_def home_row_ok_def example_homes_def)
  have path: "get_homepath 1 ''bob'' 60 db2 = Inr (Some ''/d/bob'')"
    by (simp add: db2(2) db1(2) get_homepath_def get_home_def joined_homes_def query_1_def resolve_homedir_def find_disk_def disk_given_def
        is_given_def example_homes_def log_home_def)
  have "reachable no_homes home_step ?start" by (rule reachable_start) (simp add: no_homes_def)
  then have "reachable no_homes home_step db2" using db1(1) db2(1) by (meson reachable_step step_set_homedir step_set_home)
  from homes_have_paths [OF this, of 1 "''bob''" 60] path have "get_homepath 1 ''bob'' 60 db2 \<noteq> Inl NotFoundError" by auto
  then show ?thesis using db1(1) db2(1) path by (auto simp: Let_def)
qed

text \<open>
  The entry in the change log for a changed directory names the path of the given columns only: a directory at
  \<^verbatim>\<open>/d/u\<close> whose name alone changes is logged as if it were no longer on its disk.
\<close>

lemma update_logs_part_of_path:
  "let db = example_homes\<lparr>hm_homedirs := [\<lparr>hd_id = 1, hd_account = 1, hd_home = Some ''u'', hd_disk = Some 5, hd_status = 0\<rparr>]\<rparr>
   in \<exists>db'. set_homedir 1 ''bob'' (Some 1) (Some (Some ''v'')) None None db = Inr (1, db') \<and>
     hm_log db' = [(1, ''homedir_update'', Some ''v'')] \<and> get_homepath 1 ''bob'' 60 db' = Inr (Some ''/d/v'')"
  by (simp add: set_homedir_def update_homedir_def homedir_row_ok_def example_homes_def disk_given_def is_given_def resolve_homedir_def
      find_disk_def log_home_def illegal_path_char_def get_homepath_def get_home_def joined_homes_def query_1_def)

end
