(* ===== verification/Pw_Dictionary.thy ===== *)
theory Pw_Dictionary
  imports Py_Strings "HOL-Library.List_Lexorder" "HOL-Library.Char_ord"
begin

text \<open>
  The search for dictionary words in passwords: \<^verbatim>\<open>src/Cerebrum/modules/pwcheck/dictionary.py\<close>. A word file is its text and the
  block size its file system reports; characters are ASCII, so that a character is a byte, and lines end in a line feed.
  Reading all lines from a position is \<open>read_lines\<close>; \<^verbatim>\<open>$\<close> of a regular expression also matches before a final line feed. The
  order in which \<^verbatim>\<open>others.keys()\<close> yields is the argument \<open>order\<close>.

  Shown: the binary search over blocks finds the first line that is not below the key; the search for words is exact on the
  first dictionary and never opens another; and what that means for the words the check refuses.
\<close>

section \<open>Files\<close>

record word_file =
  df_bsize :: int
  df_text :: string

abbreviation nl :: char where "nl \<equiv> CHR 0x0A"

definition first_line :: "string \<Rightarrow> string" where
  "first_line s = takeWhile (\<lambda>c. c \<noteq> nl) s @ (if nl \<in> set s then [nl] else [])"

lemma first_line_pos: "s \<noteq> [] \<Longrightarrow> first_line s \<noteq> []"
  by (cases s) (auto simp: first_line_def)

function read_lines :: "string \<Rightarrow> string list" where
  "read_lines s = (if s = [] then [] else first_line s # read_lines (drop (length (first_line s)) s))"
  by pat_completeness auto

termination
  by (relation "measure length") (auto simp: first_line_pos)

declare read_lines.simps [simp del]

section \<open>Searching a position\<close>

definition block_size :: "word_file \<Rightarrow> nat" where
  "block_size f = (if df_bsize f < 1 \<or> df_bsize f > 65536 then 8192 else nat (df_bsize f))"

definition word_char :: "char \<Rightarrow> bool" where
  "word_char c \<longleftrightarrow> is_alpha c \<or> is_digit c \<or> c = CHR ''_''"

definition dict_form :: "bool \<Rightarrow> bool \<Rightarrow> string \<Rightarrow> string" where
  "dict_form dictn folded s =
     (let s = (if dictn then filter (\<lambda>c. word_char c \<or> is_space c) s else s) in if folded then lower s else s)"

text \<open>The line a round of the binary search compares: the first whole one after the start of the block.\<close>

definition probe :: "string \<Rightarrow> nat \<Rightarrow> nat \<Rightarrow> string" where
  "probe text blksize mid =
     (let p = mid * blksize;
          q = (if mid = 0 then p else p + length (first_line (drop p text)))
      in first_line (drop q text))"

function find_block :: "string \<Rightarrow> nat \<Rightarrow> (string \<Rightarrow> string) \<Rightarrow> string \<Rightarrow> nat \<Rightarrow> nat \<Rightarrow> nat" where
  "find_block text blksize form key mn mx =
     (if mx - mn > 1
      then (let mid = (mx + mn) div 2
            in if form (probe text blksize mid) < key then find_block text blksize form key mid mx
               else find_block text blksize form key mn mid)
      else mn)"
  by pat_completeness auto

termination
  by (relation "measure (\<lambda>(_, _, _, _, mn, mx). mx - mn)") auto

declare find_block.simps [simp del]

text \<open>The loop that reads on, with the position before and after the line read last.\<close>

fun scan :: "(string \<Rightarrow> string) \<Rightarrow> string \<Rightarrow> nat \<Rightarrow> nat \<Rightarrow> string list \<Rightarrow> nat" where
  "scan form key mn pos [] = mn"
| "scan form key mn pos (line # lines) =
     (if form (strip line) \<ge> key then mn
      else (let pos' = pos + length line in scan form key pos' pos' lines))"

definition look :: "word_file \<Rightarrow> string \<Rightarrow> bool \<Rightarrow> bool \<Rightarrow> nat" where
  "look f key dictn folded =
     (let blksize = block_size f;
          form = dict_form dictn folded;
          key = form key;
          mn = find_block (df_text f) blksize form key 0 (length (df_text f) div blksize) * blksize;
          pos = (if mn = 0 then 0 else mn + length (first_line (drop mn (df_text f))))
      in scan form key mn pos (read_lines (drop pos (df_text f))))"

section \<open>Searching words\<close>

definition rstrip :: "string \<Rightarrow> string" where
  "rstrip s = rev (dropWhile is_space (rev s))"

fun word_loop :: "bool \<Rightarrow> bool \<Rightarrow> string list \<Rightarrow> string list \<Rightarrow> bool" where
  "word_loop dict_order case_fold words [] = False"
| "word_loop dict_order case_fold words (line # lines) =
     (let line1 = rstrip line;
          line2 = (if case_fold then lower line1 else line1);
          line3 = (if dict_order then filter (\<lambda>c. word_char c \<or> is_space c) line2 else line2)
      in if list_ex (startswith line3) words then True
         else if line3 > last words then False
         else word_loop dict_order case_fold words lines)"

text \<open>Every way out of the inner loop returns, so the loop over the files ends in its first round.\<close>

definition is_word_in_dicts :: "word_file list \<Rightarrow> string list \<Rightarrow> bool \<Rightarrow> bool \<Rightarrow> bool" where
  "is_word_in_dicts dictionaries words0 dict_order case_fold =
     (let words = sort (filter (\<lambda>w. length w > 3) words0)
      in if words = [] then False
         else case dictionaries of
           [] \<Rightarrow> False
         | f # _ \<Rightarrow> word_loop dict_order case_fold words (read_lines (drop (look f (hd words) dict_order case_fold) (df_text f))))"

section \<open>Variations of a word\<close>

definition ends_with :: "string \<Rightarrow> string \<Rightarrow> bool" where
  "ends_with s t \<longleftrightarrow> length t \<le> length s \<and> drop (length s - length t) s = t"

text \<open>Substitutions at the end of a string, where \<^verbatim>\<open>$\<close> may stand before a final line feed.\<close>

definition body :: "string \<Rightarrow> string" where
  "body s = (if ends_with s [nl] then butlast s else s)"

definition tail :: "string \<Rightarrow> string" where
  "tail s = (if ends_with s [nl] then [nl] else [])"

definition drop_suffix :: "string \<Rightarrow> string \<Rightarrow> string" where
  "drop_suffix t s = (if ends_with (body s) t then take (length (body s) - length t) (body s) @ tail s else s)"

definition drop_digits :: "string \<Rightarrow> string" where
  "drop_digits s = rev (dropWhile is_digit (rev (body s))) @ tail s"

definition l33t :: "char \<Rightarrow> char" where
  "l33t c = (case map_of (zip ''4831!05$72'' ''abeiiosstz'') c of Some d \<Rightarrow> d | None \<Rightarrow> c)"

definition truncated :: "string \<Rightarrow> string" where
  "truncated s = drop_suffix ''ing'' (drop_suffix ''ly'' (drop_suffix ''er'' (drop_suffix ''ed'' (drop_suffix ''s'' s))))"

definition check_dict :: "word_file list \<Rightarrow> string \<Rightarrow> bool" where
  "check_dict dictionaries baseword0 =
     (let baseword = lower baseword0
      in if baseword \<noteq> [] \<and> is_lower (hd baseword) then
           (let word = drop_digits baseword;
                check_for = (if ends_with word ''ed'' \<or> ends_with word ''er'' then [take (length word - 2) word @ ''e'']
                  else if ends_with word ''ing'' then [take (length word - 3) word @ ''e''] else []) @ [truncated word]
            in is_word_in_dicts dictionaries check_for True True
               \<or> is_word_in_dicts dictionaries [map l33t (truncated word)] True True)
         else is_word_in_dicts dictionaries [dropWhile (\<lambda>c. \<not> is_lower c) baseword] True True
              \<or> is_word_in_dicts dictionaries [map l33t baseword] True True)"

section \<open>Two words\<close>

text \<open>The last capital letter and what follows it, when it is the only one after the first character.\<close>

definition oneup :: "string \<Rightarrow> string" where
  "oneup word =
     (case body word of
        [] \<Rightarrow> []
      | c # rest \<Rightarrow>
          (case dropWhile is_lower rest of
             u # lows \<Rightarrow> if c \<noteq> nl \<and> is_upper u \<and> list_all is_lower lows then u # lows else []
           | [] \<Rightarrow> []))"

definition two_capitals :: "string \<Rightarrow> bool" where
  "two_capitals word = list_ex (\<lambda>i. i \<ge> 1 \<and> word ! (i - 1) \<noteq> nl \<and> is_upper (word ! i) \<and>
     list_ex (\<lambda>j. is_upper (word ! j) \<and> nl \<notin> set (take (j - Suc i) (drop (Suc i) word))) [Suc i..<length word]) [0..<length word]"

definition lower_after_two :: "string \<Rightarrow> bool" where
  "lower_after_two word \<longleftrightarrow> length (body word) \<ge> 3 \<and> nl \<notin> set (take 2 (body word)) \<and> list_all is_lower (drop 2 (body word))"

definition cword :: "string \<Rightarrow> string" where
  "cword word = filter (\<lambda>c. c \<noteq> CHR '' '') (rstrip (lower word))"

definition npass :: "string \<Rightarrow> string" where
  "npass word =
     (let s = map l33t (cword word)
      in if list_ex (\<lambda>c. ends_with (body s) [CHR ''/'', c]) ''?!.'' then take (length (body s) - 2) (body s) @ tail s else s)"

definition untabbed :: "string \<Rightarrow> string" where
  "untabbed s = takeWhile (\<lambda>c. c \<noteq> CHR 0x09) s"

text \<open>The rests of the password behind the words of a file, in the order they are found.\<close>

fun heads_loop :: "string \<Rightarrow> string \<Rightarrow> string \<Rightarrow> string list \<Rightarrow> string list \<Rightarrow> string list" where
  "heads_loop np up two [] others = others"
| "heads_loop np up two (line0 # lines) others =
     (let line = untabbed (lower (rstrip line0))
      in if line > two then others
         else
           (let key = drop (length line) np
            in heads_loop np up two lines
                 (if startswith np line \<and> list_all word_char key \<and> \<not> (up \<noteq> [] \<and> length up \<noteq> length key) \<and> key \<notin> set others
                  then others @ [key] else others)))"

definition heads :: "string \<Rightarrow> string \<Rightarrow> word_file \<Rightarrow> string list \<Rightarrow> string list" where
  "heads np up f others =
     (let two = take 2 np
      in heads_loop np up (butlast two @ [char_of (ord (last two) + 1)]) (read_lines (drop (look f two True True) (df_text f))) others)"

definition second_word :: "string \<Rightarrow> string \<Rightarrow> word_file \<Rightarrow> string \<Rightarrow> (string \<times> string) option" where
  "second_word word np f key =
     (let line = untabbed (rstrip (first_line (drop (look f key True True) (df_text f))))
      in if line = key \<or> (length word = 8 \<and> startswith line key) then Some (take (length np - length key) np, line)
         else if length key = 1 \<and> length (body np) \<ge> 3 \<and> hd np \<noteq> nl \<and> last (body np) \<noteq> nl \<and> list_all is_lower (butlast (tl (body np)))
         then Some (line, key) else None)"

fun first_some :: "('a \<Rightarrow> 'b option) \<Rightarrow> 'a list \<Rightarrow> 'b option" where
  "first_some f [] = None"
| "first_some f (x # xs) = (case f x of Some y \<Rightarrow> Some y | None \<Rightarrow> first_some f xs)"

definition check_two_word_combinations :: "(string list \<Rightarrow> string list) \<Rightarrow> word_file list \<Rightarrow> string \<Rightarrow> (string \<times> string) option" where
  "check_two_word_combinations order dictionaries word =
     (if \<not> (length word \<ge> 2 \<and> hd word \<noteq> nl \<and> is_alpha (word ! 1)) \<or> two_capitals word then None
      else
        (let np = npass word;
             others0 = (if lower_after_two word then [tl (cword word)] else []);
             others = fold (heads np (oneup word)) dictionaries others0
         in first_some (\<lambda>f. first_some (second_word word np f) (order others)) dictionaries))"

section \<open>The check\<close>

datatype dict_msg = DictionaryWords | TwoWords string string

definition additional_words :: "string list" where
  "additional_words = [''ibm'', ''dec'', ''sun'', ''at&t'', ''nasa'', ''jan'', ''feb'', ''mar'', ''apr'',
     ''may'', ''jun'', ''jul'', ''aug'', ''sep'', ''oct'', ''nov'', ''dec'']"

definition CheckPasswordDictionary :: "(string list \<Rightarrow> string list) \<Rightarrow> word_file list \<Rightarrow> string \<Rightarrow> dict_msg list" where
  "CheckPasswordDictionary order dictionaries password =
     (let start = take 8 password
      in if check_dict dictionaries start then [DictionaryWords]
         else case check_two_word_combinations order dictionaries start of
           Some (word1, word2) \<Rightarrow> [TwoWords word1 word2]
         | None \<Rightarrow> if list_ex (\<lambda>tmp. substr tmp (lower start)) additional_words then [DictionaryWords] else [])"


section \<open>Sorted dictionaries\<close>

definition text_of :: "string list \<Rightarrow> string" where
  "text_of lines = concat (map (\<lambda>l. l @ [nl]) lines)"

text \<open>A line without white space at its ends; and a dictionary of such lines, each shorter than a block, in dictionary order.\<close>

definition plain_line :: "string \<Rightarrow> bool" where
  "plain_line l \<longleftrightarrow> nl \<notin> set l \<and> (l = [] \<or> \<not> is_space (hd l) \<and> \<not> is_space (last l))"

definition sorted_dict :: "word_file \<Rightarrow> string list \<Rightarrow> bool" where
  "sorted_dict f lines \<longleftrightarrow> df_text f = text_of lines \<and> list_all (\<lambda>l. plain_line l \<and> Suc (length l) < block_size f) lines \<and>
     sorted (map (dict_form True True) lines)"

lemma text_of_simps [simp]:
  "text_of [] = []" "text_of (l # ls) = l @ nl # text_of ls" "text_of (xs @ ys) = text_of xs @ text_of ys"
  by (simp_all add: text_of_def)

lemma first_line_append: "nl \<notin> set l \<Longrightarrow> first_line (l @ nl # s) = l @ [nl]"
proof -
  assume "nl \<notin> set l"
  then have "takeWhile (\<lambda>c. c \<noteq> nl) (l @ nl # s) = l" by (induction l) auto
  then show ?thesis by (simp add: first_line_def)
qed

lemma read_lines_text_of: "list_all (\<lambda>l. nl \<notin> set l) lines \<Longrightarrow> read_lines (text_of lines) = map (\<lambda>l. l @ [nl]) lines"
proof (induction lines)
  case (Cons l lines)
  have "drop (length (first_line (l @ nl # text_of lines))) (l @ nl # text_of lines) = text_of lines"
    using Cons.prems by (simp add: first_line_append)
  then show ?case using Cons by (subst read_lines.simps) (simp add: first_line_append)
qed (simp add: read_lines.simps)

text \<open>Reading from the middle of a line leads to the start of the next one.\<close>

lemma skip_partial_line:
  assumes "list_all (\<lambda>l. nl \<notin> set l \<and> Suc (length l) < n) lines" "p + n \<le> length (text_of lines)" "0 < n"
  shows "\<exists>before after. lines = before @ after \<and> after \<noteq> [] \<and>
    p + length (first_line (drop p (text_of lines))) = length (text_of before)"
  using assms
proof (induction lines arbitrary: p)
  case (Cons l lines)
  show ?case
  proof (cases "p \<le> length l")
    case True
    then have "drop p (text_of (l # lines)) = drop p l @ nl # text_of lines" by simp
    moreover have "nl \<notin> set (drop p l)" using Cons.prems(1) by (auto dest: in_set_dropD)
    ultimately have "p + length (first_line (drop p (text_of (l # lines)))) = length (text_of [l])"
      using True by (simp add: first_line_append)
    moreover have "lines \<noteq> []" using Cons.prems True by auto
    ultimately show ?thesis by (intro exI [of _ "[l]"] exI [of _ lines]) simp
  next
    case False
    define q where "q = p - Suc (length l)"
    have q: "p = Suc (length l) + q" using False by (simp add: q_def)
    then have tail: "list_all (\<lambda>l. nl \<notin> set l \<and> Suc (length l) < n) lines" "q + n \<le> length (text_of lines)" using Cons.prems by simp_all
    obtain before after where IH: "lines = before @ after" "after \<noteq> []"
      "q + length (first_line (drop q (text_of lines))) = length (text_of before)"
      using Cons.IH [OF tail Cons.prems(3)] by blast
    have rest: "drop p (text_of (l # lines)) = drop q (text_of lines)" by (simp add: q)
    have "p + length (first_line (drop p (text_of (l # lines)))) = length (text_of (l # before))" unfolding rest using IH(3) q by simp
    moreover have "l # lines = (l # before) @ after" using IH(1) by simp
    ultimately show ?thesis using IH(2) by blast
  qed
qed simp

lemma le_append: "(xs :: 'a :: linorder list) \<le> xs @ ys"
  by (induction xs) auto

lemma prefix_between:
  fixes w x y :: "'a :: linorder list"
  shows "w \<le> x \<Longrightarrow> x \<le> w @ z \<Longrightarrow> \<exists>z'. x = w @ z'"
proof (induction w arbitrary: x)
  case (Cons a w)
  then obtain b x' where x: "x = b # x'" by (cases x) auto
  then have "b = a" "w \<le> x'" "x' \<le> w @ z" using Cons.prems by auto
  then show ?case using Cons.IH [of x'] x by auto
qed simp

lemma strip_line: "plain_line l \<Longrightarrow> strip (l @ [nl]) = l" "plain_line l \<Longrightarrow> rstrip (l @ [nl]) = l"
proof -
  assume l: "plain_line l"
  have space: "is_space nl" by (simp add: is_space_def)
  show "rstrip (l @ [nl]) = l" using l space by (cases l rule: rev_cases) (auto simp: rstrip_def plain_line_def)
  show "strip (l @ [nl]) = l"
  proof (cases "l = []")
    case False
    then have "dropWhile is_space (l @ [nl]) = l @ [nl]" using l by (cases l) (auto simp: plain_line_def)
    then show ?thesis using \<open>rstrip (l @ [nl]) = l\<close> by (simp add: strip_def rstrip_def)
  qed (use space in \<open>simp add: strip_def\<close>)
qed

lemma dict_form_nl: "dict_form d f (l @ [nl]) = dict_form d f l @ [nl]"
  by (simp add: dict_form_def lower_def is_space_def lower_char_def is_upper_def)

lemma dict_form_idem: "dict_form True True (dict_form True True s) = dict_form True True s"
proof -
  have "lower_char (lower_char c) = lower_char c" for c
    by (auto simp: lower_char_def is_upper_def)
  moreover have "word_char (lower_char c) \<or> is_space (lower_char c)" if "word_char c \<or> is_space c" for c
    using that by (auto simp: lower_char_def word_char_def is_space_def is_alpha_def is_lower_def is_upper_def is_digit_def)
  then have "filter (\<lambda>c. (word_char c \<or> is_space c) \<and> (word_char (lower_char c) \<or> is_space (lower_char c))) s = filter (\<lambda>c. word_char c \<or> is_space c) s"
    by (intro filter_cong) auto
  ultimately show ?thesis by (simp add: dict_form_def lower_def filter_map comp_def)
qed

lemma scan_plain:
  assumes "list_all plain_line lines"
  shows "scan form key mn pos (map (\<lambda>l. l @ [nl]) lines) =
    (if lines = [] \<or> \<not> form (hd lines) < key then mn else pos + length (text_of (takeWhile (\<lambda>l. form l < key) lines)))"
  using assms
proof (induction lines arbitrary: mn pos)
  case (Cons l lines)
  then show ?case by (cases lines) (auto simp: strip_line Let_def not_less)
qed simp


lemma block_size_pos [simp]: "block_size f > 0" "block_size f \<noteq> 0"
  by (simp_all add: block_size_def)

lemma find_block_inv:
  assumes "Q mn" "\<And>mid. mid > 0 \<Longrightarrow> mid < mx \<Longrightarrow> form (probe cont n mid) < key \<Longrightarrow> Q mid"
  shows "Q (find_block cont n form key mn mx)"
  using assms
proof (induction cont n form key mn mx rule: find_block.induct)
  case (1 cont n form key mn mx)
  show ?case
  proof (cases "mx - mn > 1")
    case True
    define mid where "mid = (mx + mn) div 2"
    have mid: "mid > 0" "mid < mx" using True by (auto simp: mid_def)
    have step: "find_block cont n form key mn mx =
      (if form (probe cont n mid) < key then find_block cont n form key mid mx else find_block cont n form key mn mid)"
      using True by (subst find_block.simps) (simp add: mid_def)
    show ?thesis
    proof (cases "form (probe cont n mid) < key")
      case less: True
      then show ?thesis using step "1.IH"(1) [OF True mid_def less] "1.prems" mid by simp
    next
      case False
      then show ?thesis using step "1.IH"(2) [OF True mid_def False] "1.prems" mid by simp
    qed
  qed (use 1 in \<open>subst find_block.simps, simp\<close>)
qed

lemma look_exact:
  assumes "sorted_dict f lines" "k = dict_form True True key"
  shows "look f key True True = length (text_of (takeWhile (\<lambda>l. dict_form True True l < k) lines))"
proof -
  let ?form = "dict_form True True" and ?n = "block_size f" and ?text = "text_of lines"
  have cont: "df_text f = ?text" and plain: "list_all plain_line lines" and order: "sorted (map ?form lines)"
    and short: "list_all (\<lambda>l. nl \<notin> set l \<and> Suc (length l) < ?n) lines" and nonl: "list_all (\<lambda>l. nl \<notin> set l) lines"
    using assms(1) by (auto simp: sorted_dict_def list_all_iff plain_line_def)
  define mn where "mn = find_block ?text ?n ?form k 0 (length ?text div ?n)"
  have inv: "mn = 0 \<or> mn * ?n + ?n \<le> length ?text \<and> ?form (probe ?text ?n mn) < k" (is "?inv mn")
    unfolding mn_def
  proof (rule find_block_inv)
    fix mid assume "mid < length ?text div ?n" "?form (probe ?text ?n mid) < k"
    moreover from this(1) have "Suc mid * ?n \<le> length ?text" by (metis Suc_leI block_size_pos(1) less_eq_div_iff_mult_less_eq)
    ultimately show "?inv mid" by simp
  qed simp
  show ?thesis
  proof (cases "mn = 0")
    case True
    then have "look f key True True = scan ?form k 0 0 (map (\<lambda>l. l @ [nl]) lines)"
      by (simp add: look_def Let_def cont mn_def [symmetric] assms(2) [symmetric] read_lines_text_of [OF nonl])
    also have "\<dots> = length (text_of (takeWhile (\<lambda>l. ?form l < k) lines))"
      unfolding scan_plain [OF plain] by (cases lines) simp_all
    finally show ?thesis .
  next
    case False
    then have mn: "mn * ?n + ?n \<le> length ?text" "?form (probe ?text ?n mn) < k" using inv by auto
    then obtain before after where split: "lines = before @ after" "after \<noteq> []"
      "mn * ?n + length (first_line (drop (mn * ?n) ?text)) = length (text_of before)"
      using skip_partial_line [OF short _ block_size_pos(1)] by blast
    obtain l ls where after: "after = l # ls" using split(2) by (cases after) auto
    have l: "nl \<notin> set l" using nonl split(1) after by simp
    have dropped: "drop (length (text_of before)) ?text = text_of after" by (simp add: split(1))
    have "probe ?text ?n mn = l @ [nl]"
      using False split(3) dropped after l by (simp add: probe_def Let_def first_line_append)
    then have "?form l @ [nl] < k" using mn by (simp add: dict_form_nl)
    then have l_less: "?form l < k" using le_append [of "?form l" "[nl]"] by (rule le_less_trans [rotated])
    have "list_all (\<lambda>x. ?form x \<le> ?form l) before" using order split(1) after by (auto simp: sorted_append list_all_iff)
    then have before_less: "\<And>x. x \<in> set before \<Longrightarrow> ?form x < k" using l_less by (auto simp: list_all_iff)
    have nonl_after: "list_all (\<lambda>l. nl \<notin> set l) after" and plain_after: "list_all plain_line after"
      using nonl plain split(1) by auto
    have "look f key True True = scan ?form k (mn * ?n) (length (text_of before)) (map (\<lambda>l. l @ [nl]) after)"
      using False split(3) dropped
      by (simp add: look_def Let_def cont mn_def [symmetric] assms(2) [symmetric] read_lines_text_of [OF nonl_after])
    also have "\<dots> = length (text_of before) + length (text_of (takeWhile (\<lambda>l. ?form l < k) after))"
      unfolding scan_plain [OF plain_after] using l_less after by simp
    also have "\<dots> = length (text_of (takeWhile (\<lambda>l. ?form l < k) lines))"
      using before_less by (simp add: split(1) takeWhile_append2)
    finally show ?thesis .
  qed
qed


section \<open>Which words are found\<close>

lemma startswith_iff: "startswith s p \<longleftrightarrow> (\<exists>t. s = p @ t)"
  unfolding startswith_def by (metis append_eq_conv_conj)

lemma line_form: "filter (\<lambda>c. word_char c \<or> is_space c) (lower s) = dict_form True True s"
proof -
  have "(word_char (lower_char c) \<or> is_space (lower_char c)) = (word_char c \<or> is_space c)" for c
    by (auto simp: lower_char_def word_char_def is_space_def is_alpha_def is_lower_def is_upper_def is_digit_def)
  then show ?thesis by (simp add: dict_form_def lower_def filter_map comp_def)
qed

lemma sorted_le_last: "sorted xs \<Longrightarrow> x \<in> set xs \<Longrightarrow> x \<le> last xs"
  by (induction xs) auto

lemma word_loop_exact:
  assumes "list_all plain_line lines" "sorted (map (dict_form True True) lines)" "sorted words" "words \<noteq> []"
  shows "word_loop True True words (map (\<lambda>l. l @ [nl]) lines) \<longleftrightarrow> (\<exists>l \<in> set lines. \<exists>w \<in> set words. startswith (dict_form True True l) w)"
  using assms(1,2)
proof (induction lines)
  case (Cons l lines)
  let ?form = "dict_form True True"
  have step: "word_loop True True words (map (\<lambda>l. l @ [nl]) (l # lines)) =
    (if list_ex (startswith (?form l)) words then True else if ?form l > last words then False
     else word_loop True True words (map (\<lambda>l. l @ [nl]) lines))"
    using Cons.prems(1) by (simp add: strip_line line_form Let_def)
  have "startswith (?form l) w" if "?form l > last words" "x \<in> set lines" "w \<in> set words" "startswith (?form x) w" for x w
  proof -
    have "w \<le> last words" using assms(3) that(3) by (rule sorted_le_last)
    then have "w \<le> ?form l" using that(1) by simp
    moreover have "?form l \<le> ?form x" using Cons.prems(2) that(2) by simp
    moreover from that(4) obtain z where "?form x = w @ z" unfolding startswith_iff by blast
    ultimately show ?thesis unfolding startswith_iff using prefix_between [of w "?form l" z] by auto
  qed
  then show ?case unfolding step using Cons by (auto simp: list_ex_iff)
qed simp


lemma sorted_map_dropWhile: "sorted (map f xs) \<Longrightarrow> sorted (map f (dropWhile P xs))"
  by (induction xs) auto

lemma sorted_le_hd: "sorted xs \<Longrightarrow> x \<in> set xs \<Longrightarrow> hd xs \<le> x"
  by (cases xs) auto

lemma dict_rest:
  assumes "sorted_dict f lines" "k = dict_form True True key"
  shows "drop (look f key True True) (df_text f) = text_of (dropWhile (\<lambda>l. dict_form True True l < k) lines)"
proof -
  have "df_text f = text_of (takeWhile (\<lambda>l. dict_form True True l < k) lines @ dropWhile (\<lambda>l. dict_form True True l < k) lines)"
    using assms(1) by (simp add: sorted_dict_def)
  then show ?thesis by (simp only: text_of_simps(3) look_exact [OF assms] append_eq_conv_conj) simp
qed

text \<open>
  C25: in a dictionary that is sorted by its letters and digits, whatever its case and punctuation, and whose lines are shorter than a
  block of the file system, the binary search over the blocks ends at the start of a line: every line before it is below the key, every
  line from there on is not.
\<close>

theorem look_finds_place:
  assumes "sorted_dict f lines"
  shows "\<exists>before after. lines = before @ after \<and> look f key True True = length (text_of before) \<and>
    drop (look f key True True) (df_text f) = text_of after \<and>
    (\<forall>l \<in> set before. dict_form True True l < dict_form True True key) \<and> (\<forall>l \<in> set after. dict_form True True key \<le> dict_form True True l)"
proof -
  let ?P = "\<lambda>l. dict_form True True l < dict_form True True key"
  let ?before = "takeWhile ?P lines" and ?after = "dropWhile ?P lines"
  have "dict_form True True key \<le> dict_form True True l" if l: "l \<in> set ?after" for l
  proof (cases "?after")
    case (Cons x xs)
    then have "\<not> ?P x" using hd_dropWhile [of ?P lines] by simp
    moreover have "sorted (map (dict_form True True) ?after)"
      by (rule sorted_map_dropWhile) (use assms in \<open>simp add: sorted_dict_def\<close>)
    then have "dict_form True True x \<le> dict_form True True l" using l Cons by auto
    ultimately show ?thesis by simp
  next
    case Nil
    then show ?thesis using l by (simp only: list.set) simp
  qed
  moreover have "\<forall>l \<in> set ?before. ?P l" by (auto dest: set_takeWhileD)
  ultimately show ?thesis using look_exact [OF assms refl] dict_rest [OF assms refl]
    by (intro exI [where x = ?before] exI [where x = ?after]) simp
qed

lemma words_in_dict:
  assumes "sorted_dict f lines" "\<forall>w \<in> set words. dict_form True True w = w"
  shows "is_word_in_dicts (f # fs) words True True \<longleftrightarrow>
    (\<exists>w \<in> set words. length w > 3 \<and> (\<exists>l \<in> set lines. startswith (dict_form True True l) w))"
proof -
  let ?form = "dict_form True True"
  define ws where "ws = sort (filter (\<lambda>w. length w > 3) words)"
  have ws: "set ws = {w \<in> set words. length w > 3}" "sorted ws" by (simp_all add: ws_def)
  show ?thesis
  proof (cases "ws = []")
    case True
    then have "{w \<in> set words. length w > 3} = {}" using ws(1) by simp
    then show ?thesis using True by (auto simp: is_word_in_dicts_def Let_def ws_def [symmetric])
  next
    case False
    have first: "?form (hd ws) = hd ws" "\<And>w. w \<in> set ws \<Longrightarrow> hd ws \<le> w"
      using False ws assms(2) hd_in_set [OF False] by (auto intro: sorted_le_hd)
    let ?P = "\<lambda>l. ?form l < hd ws"
    have plain: "list_all plain_line lines" "list_all (\<lambda>l. nl \<notin> set l) lines" "sorted (map ?form lines)"
      using assms(1) by (auto simp: sorted_dict_def list_all_iff plain_line_def)
    have split: "lines = takeWhile ?P lines @ dropWhile ?P lines" by simp
    have "drop (look f (hd ws) True True) (df_text f) = text_of (dropWhile ?P lines)" by (rule dict_rest [OF assms(1)]) (simp add: first(1))
    moreover have rest: "list_all plain_line (dropWhile ?P lines)" "list_all (\<lambda>l. nl \<notin> set l) (dropWhile ?P lines)"
      using plain by (auto simp: list_all_iff dest: set_dropWhileD)
    moreover have "sorted (map ?form (dropWhile ?P lines))" by (rule sorted_map_dropWhile [OF plain(3)])
    ultimately have "is_word_in_dicts (f # fs) words True True \<longleftrightarrow> (\<exists>l \<in> set (dropWhile ?P lines). \<exists>w \<in> set ws. startswith (?form l) w)"
      using False word_loop_exact [OF rest(1) _ ws(2) False]
      by (simp add: is_word_in_dicts_def Let_def ws_def [symmetric] read_lines_text_of)
    moreover have "\<not> startswith (?form l) w" if "l \<in> set (takeWhile ?P lines)" "w \<in> set ws" for l w
    proof
      assume "startswith (?form l) w"
      then have "w \<le> ?form l" unfolding startswith_iff using le_append [of w] by auto
      then show False using set_takeWhileD [OF that(1)] first(2) [OF that(2)] by auto
    qed
    then have "(\<exists>l \<in> set (dropWhile ?P lines). \<exists>w \<in> set ws. startswith (?form l) w) \<longleftrightarrow> (\<exists>l \<in> set lines. \<exists>w \<in> set ws. startswith (?form l) w)"
      using split by (metis (no_types, lifting) Un_iff set_append)
    ultimately show ?thesis using ws(1) by auto
  qed
qed


text \<open>
  In a sorted dictionary, the search for words that consist of lower case letters and digits finds out exactly whether some line
  starts with one of the words of more than three characters; dictionaries after the first make no difference.
\<close>

theorem words_found_in_first:
  assumes "sorted_dict f lines" "\<forall>w \<in> set words. dict_form True True w = w"
  shows "is_word_in_dicts (f # fs) words True True \<longleftrightarrow>
    (\<exists>w \<in> set words. length w > 3 \<and> (\<exists>l \<in> set lines. startswith (dict_form True True l) w))"
  by (rule words_in_dict [OF assms])

lemma small_dict_sorted: "sorted_dict (\<lparr>df_bsize = 8, df_text = text_of [''Apple'', ''can-t'', ''flower'', ''table'', ''zebra'']\<rparr>)
    [''Apple'', ''can-t'', ''flower'', ''table'', ''zebra'']"
  by code_simp

lemma look_finds_place_witness:
  "let f = \<lparr>df_bsize = 8, df_text = text_of [''Apple'', ''can-t'', ''flower'', ''table'', ''zebra'']\<rparr>
   in look f ''Flow'' True True = 12 \<and>
     (\<exists>before after. drop (look f ''Flow'' True True) (df_text f) = text_of after \<and>
        (\<forall>l \<in> set after. dict_form True True ''Flow'' \<le> dict_form True True l))"
proof -
  have "look \<lparr>df_bsize = 8, df_text = text_of [''Apple'', ''can-t'', ''flower'', ''table'', ''zebra'']\<rparr> ''Flow'' True True = 12" by code_simp
  then show ?thesis unfolding Let_def using look_finds_place [OF small_dict_sorted, of "''Flow''"] by blast
qed

lemma words_found_in_first_witness:
  "let f = \<lparr>df_bsize = 8, df_text = text_of [''Apple'', ''can-t'', ''flower'', ''table'', ''zebra'']\<rparr>
   in is_word_in_dicts [f] [''flow'', ''flowe''] True True \<and>
     \<not> is_word_in_dicts [\<lparr>df_bsize = 8, df_text = text_of []\<rparr>, f] [''flow'', ''flowe''] True True"
proof -
  let ?f = "\<lparr>df_bsize = 8, df_text = text_of [''Apple'', ''can-t'', ''flower'', ''table'', ''zebra'']\<rparr>"
  have "dict_form True True ''flow'' = ''flow''" "dict_form True True ''flowe'' = ''flowe''" "startswith (dict_form True True ''flower'') ''flow''"
    by code_simp+
  moreover have "sorted_dict \<lparr>df_bsize = 8, df_text = text_of []\<rparr> []" by code_simp
  ultimately show ?thesis unfolding Let_def
    using words_found_in_first [OF small_dict_sorted, of "[''flow'', ''flowe'']" "[]"]
      words_found_in_first [of "\<lparr>df_bsize = 8, df_text = text_of []\<rparr>" "[]" "[''flow'', ''flowe'']" "[?f]"] by simp
qed


section \<open>Which passwords are refused\<close>

lemma body_lower: "list_all is_lower s \<Longrightarrow> body s = s \<and> tail s = []"
proof -
  assume s: "list_all is_lower s"
  have "\<not> ends_with s [nl]"
  proof
    assume "ends_with s [nl]"
    then have "nl \<in> set (drop (length s - 1) s)" by (simp add: ends_with_def)
    then have "nl \<in> set s" by (rule in_set_dropD)
    then show False using s by (auto simp: list_all_iff is_lower_def)
  qed
  then show ?thesis by (simp add: body_def tail_def)
qed

lemma drop_suffix_prefix: "list_all is_lower s \<Longrightarrow> \<exists>t'. s = drop_suffix t s @ t' \<and> list_all is_lower (drop_suffix t s)"
proof -
  assume s: "list_all is_lower s"
  have "\<exists>t'. s = take n s @ t'" "list_all is_lower (take n s)" for n
    using s by (metis append_take_drop_id) (use s in \<open>auto simp: list_all_iff dest: in_set_takeD\<close>)
  then show ?thesis using body_lower [OF s] s by (auto simp: drop_suffix_def)
qed

lemma truncated_prefix: "list_all is_lower s \<Longrightarrow> \<exists>t. s = truncated s @ t \<and> list_all is_lower (truncated s)"
proof -
  assume s: "list_all is_lower s"
  define s1 where "s1 = drop_suffix ''s'' s"
  define s2 where "s2 = drop_suffix ''ed'' s1"
  define s3 where "s3 = drop_suffix ''er'' s2"
  define s4 where "s4 = drop_suffix ''ly'' s3"
  obtain t1 where 1: "s = s1 @ t1" "list_all is_lower s1" using drop_suffix_prefix [OF s, of "''s''"] by (auto simp: s1_def)
  obtain t2 where 2: "s1 = s2 @ t2" "list_all is_lower s2" using drop_suffix_prefix [OF 1(2), of "''ed''"] by (auto simp: s2_def)
  obtain t3 where 3: "s2 = s3 @ t3" "list_all is_lower s3" using drop_suffix_prefix [OF 2(2), of "''er''"] by (auto simp: s3_def)
  obtain t4 where 4: "s3 = s4 @ t4" "list_all is_lower s4" using drop_suffix_prefix [OF 3(2), of "''ly''"] by (auto simp: s4_def)
  obtain t5 where 5: "s4 = truncated s @ t5" "list_all is_lower (truncated s)"
    using drop_suffix_prefix [OF 4(2), of "''ing''"] by (auto simp: truncated_def s1_def s2_def s3_def s4_def)
  have "s = truncated s @ (t5 @ t4 @ t3 @ t2 @ t1)" using 1(1) 2(1) 3(1) 4(1) 5(1) by simp
  then show ?thesis using 5(2) by blast
qed

lemma lower_forms:
  assumes "list_all is_lower s"
  shows "lower s = s" "dict_form True True s = s" "drop_digits s = s"
proof -
  show low: "lower s = s" using assms by (induction s) (auto simp: lower_def lower_char_def is_lower_def is_upper_def)
  have "filter (\<lambda>c. word_char c \<or> is_space c) s = s" using assms by (auto simp: filter_id_conv list_all_iff word_char_def is_alpha_def)
  then show "dict_form True True s = s" using low by (simp add: dict_form_def)
  have "dropWhile is_digit (rev s) = rev s"
    using assms by (cases s rule: rev_cases) (auto simp: list_all_iff is_lower_def is_digit_def)
  then show "drop_digits s = s" using body_lower [OF assms] by (simp add: drop_digits_def)
qed

lemma check_dict_word:
  assumes "sorted_dict f lines" "list_all is_lower w" "length (truncated w) > 3" "\<exists>l \<in> set lines. startswith (dict_form True True l) w"
  shows "check_dict (f # fs) w"
proof -
  obtain t where t: "w = truncated w @ t" "list_all is_lower (truncated w)" using truncated_prefix [OF assms(2)] by blast
  have "w \<noteq> []" using assms(3) t(1) by auto
  then have first: "w \<noteq> [] \<and> is_lower (hd w)" using assms(2) by (cases w) auto
  obtain l where l: "l \<in> set lines" "startswith (dict_form True True l) (truncated w)"
    using assms(4) t(1) unfolding startswith_iff by (metis append.assoc)
  let ?extra = "if ends_with w ''ed'' \<or> ends_with w ''er'' then [take (length w - 2) w @ ''e'']
     else if ends_with w ''ing'' then [take (length w - 3) w @ ''e''] else []"
  have "list_all is_lower (take n w @ ''e'')" for n
    using assms(2) by (auto simp: list_all_iff is_lower_def dest!: in_set_takeD)
  then have "\<forall>v \<in> set ?extra. dict_form True True v = v" using lower_forms(2) by (auto split: if_splits)
  then have "is_word_in_dicts (f # fs) (?extra @ [truncated w]) True True"
    using words_in_dict [OF assms(1), of "?extra @ [truncated w]" fs] lower_forms(2) [OF t(2)] l assms(3) by auto
  then show ?thesis unfolding check_dict_def Let_def lower_forms(1) [OF assms(2)] lower_forms(3) [OF assms(2)] if_P [OF first] by blast
qed

text \<open>
  A password is refused if its first eight characters are lower case letters with which some line of the first dictionary
  starts, as long as more than three of them are left without their ending.
\<close>

theorem dictionary_words_refused:
  assumes "sorted_dict f lines" "list_all is_lower (take 8 password)" "length (truncated (take 8 password)) > 3"
    "\<exists>l \<in> set lines. startswith (dict_form True True l) (take 8 password)"
  shows "CheckPasswordDictionary order (f # fs) password = [DictionaryWords]"
  using check_dict_word [OF assms] by (simp add: CheckPasswordDictionary_def)

end
