(* ===== verification/Affiliations.thy ===== *)
theory Affiliations
  imports Sql_Args Priority_Rows "HOL-Library.While_Combinator"
begin

text \<open>
  The affiliations of persons: the methods of \<^verbatim>\<open>src/Cerebrum/Person.py\<close> that add, change and remove them, the rules of
  precedence they follow, and \<^verbatim>\<open>AffiliationSync\<close> of \<^verbatim>\<open>src/Cerebrum/modules/import_utils/syncs.py\<close>. The tables and their
  constraints are those of \<^verbatim>\<open>design/core_tables.sql\<close>: no two affiliations of a person have the same precedence, and a
  precedence has six digits. The codes of source systems, affiliations and statuses are numbers; \<open>aff_names\<close> has their names, and
  \<open>conf\<close> is \<^verbatim>\<open>cereconf.PERSON_AFFILIATION_PRECEDENCE_RULE\<close>, whose entry \<^verbatim>\<open>core:override\<close>, if any, is a range. A sequence
  in which names and numbers are mixed does not occur. A calculation that does not end is \<open>None\<close>; one that recurses too deeply raises.

  Shown: adding an affiliation with a precedence gives it that precedence, moves up only the run in its way and keeps the order; the
  precedence calculated from a range is free; and after a synchronisation the person has from the source exactly what
  it delivered.
\<close>

section \<open>Tables\<close>

record aff_row =
  af_person :: int
  af_ou :: int
  af_affiliation :: int
  af_source :: int
  af_status :: int
  af_created :: int
  af_last :: int
  af_deleted :: "int option"
  af_precedence :: int

record aff_db =
  pa_ous :: "int list"
  pa_codes :: "int list"
  pa_statuses :: "(int \<times> int) list"
  pa_systems :: "int list"
  pa_affiliations :: "(int \<times> int \<times> int) list"
  pa_types :: "(int \<times> int \<times> int) list"
  pa_sources :: "aff_row list"
  pa_log :: "(int \<times> string) list"

definition aff_key :: "aff_row \<Rightarrow> int \<times> int \<times> int \<times> int" where
  "aff_key r = (af_person r, af_ou r, af_affiliation r, af_source r)"

definition pa_log_change :: "int \<Rightarrow> string \<Rightarrow> aff_db \<Rightarrow> aff_db" where
  "pa_log_change e change db = db\<lparr>pa_log := pa_log db @ [(e, change)]\<rparr>"

definition is_active :: "int \<Rightarrow> aff_row \<Rightarrow> bool" where
  "is_active now r = (case af_deleted r of None \<Rightarrow> True | Some d \<Rightarrow> d > now)"

text \<open>Ordered by precedence when a person is given, otherwise in the order of the table.\<close>

definition list_affiliations ::
    "int \<Rightarrow> id_arg option \<Rightarrow> id_arg option \<Rightarrow> id_arg option \<Rightarrow> id_arg option \<Rightarrow> id_arg option \<Rightarrow> bool \<Rightarrow> aff_db \<Rightarrow> aff_row list res" where
  "list_affiliations now person_id source_system affiliation status ou_id include_deleted db =
     res_bind (conjunction
       [in_codes person_id (\<lambda>p r. p (af_person r)),
        in_codes affiliation (\<lambda>p r. p (af_affiliation r)),
        in_codes source_system (\<lambda>p r. p (af_source r)),
        in_codes status (\<lambda>p r. p (af_status r)),
        in_codes ou_id (\<lambda>p r. p (af_ou r))]) (\<lambda>ok.
       let rows = filter (\<lambda>r. ok r \<and> (include_deleted \<or> is_active now r)) (pa_sources db)
       in Inr (if person_id \<noteq> None then sort_key af_precedence rows else rows))"

definition get_affiliations :: "int \<Rightarrow> int \<Rightarrow> bool \<Rightarrow> aff_db \<Rightarrow> aff_row list res" where
  "get_affiliations now self_id include_deleted db = list_affiliations now (Some (One self_id)) None None None None include_deleted db"

section \<open>Precedence\<close>

datatype prec = NoPrec | Number int | Name string | Names "string list" | Range "int list"

datatype prec_rule = Value prec | Rules "(string \<times> prec_rule) list"

record aff_names =
  nm_source :: "int \<Rightarrow> string"
  nm_affiliation :: "int \<Rightarrow> string"
  nm_status :: "int \<Rightarrow> string"

text \<open>A dictionary of rules is searched with the names in turn, a star standing for any.\<close>

fun search_rule :: "prec_rule \<Rightarrow> string list \<Rightarrow> prec_rule" where
  "search_rule (Value v) names = Value v"
| "search_rule (Rules d) [] = Value NoPrec"
| "search_rule (Rules d) [name] =
     (case map_of d name of
        Some r \<Rightarrow> r
      | None \<Rightarrow> (case map_of d ''*'' of Some r \<Rightarrow> r | None \<Rightarrow> Value NoPrec))"
| "search_rule (Rules d) (name # name' # names) =
     (let star = (case map_of d ''*'' of Some r \<Rightarrow> search_rule r (name' # names) | None \<Rightarrow> Value NoPrec)
      in case map_of d name of
           Some r \<Rightarrow> (let res = search_rule r (name' # names) in if res \<noteq> Value NoPrec then res else star)
         | None \<Rightarrow> star)"

definition get_affiliation_precedence_rule :: "aff_names \<Rightarrow> (string \<times> prec_rule) list \<Rightarrow> int \<Rightarrow> string \<Rightarrow> string option \<Rightarrow> prec_rule" where
  "get_affiliation_precedence_rule names conf source afforrule status =
     search_rule (Rules conf) ([nm_source names source, afforrule] @ (case status of None \<Rightarrow> [] | Some s \<Rightarrow> [s]))"

definition override_range :: "(string \<times> prec_rule) list \<Rightarrow> (int \<times> int) option" where
  "override_range conf = (case map_of conf ''core:override'' of Some (Value (Range (a # b # _))) \<Rightarrow> Some (a, b) | _ \<Rightarrow> None)"

definition new_spot :: "int \<Rightarrow> int \<Rightarrow> int \<Rightarrow> int list \<Rightarrow> int option" where
  "new_spot mn mx step all_precs =
     while_option (\<lambda>x. x \<in> set all_precs) (\<lambda>x. x + step) (fold max (filter (\<lambda>x. mn \<le> x \<and> x < mx) all_precs) mn)"

fun calculate_affiliation_precedence ::
    "nat \<Rightarrow> aff_names \<Rightarrow> (string \<times> prec_rule) list \<Rightarrow> int \<Rightarrow> int \<Rightarrow> int \<Rightarrow> int list \<Rightarrow> prec_rule \<Rightarrow> int option \<Rightarrow> int res option" where
  "calculate_affiliation_precedence 0 names conf affiliation source status all_precs precedence old = Some (Inl RuntimeError)"
| "calculate_affiliation_precedence (Suc limit) names conf affiliation source status all_precs precedence old =
     (let again = (\<lambda>r. calculate_affiliation_precedence limit names conf affiliation source status all_precs r old);
          old_given = (old \<noteq> None \<and> old \<noteq> Some 0)
      in case precedence of
           Value NoPrec \<Rightarrow>
             if old_given then Some (Inr (the old))
             else again (get_affiliation_precedence_rule names conf source (nm_affiliation names affiliation) (Some (nm_status names status)))
         | Value (Number n) \<Rightarrow> Some (Inr n)
         | Value (Name s) \<Rightarrow> again (get_affiliation_precedence_rule names conf source s None)
         | Value (Names ss) \<Rightarrow>
             (case ss of
                [s, t] \<Rightarrow> again (get_affiliation_precedence_rule names conf source s (Some t))
              | [_, _, _] \<Rightarrow> Some (Inl TypeError)
              | _ \<Rightarrow> Some (Inl AssertionError))
         | Value (Range ns) \<Rightarrow>
             (if length ns \<noteq> 2 \<and> length ns \<noteq> 3 then Some (Inl AssertionError)
              else
                (let mn = ns ! 0; mx = ns ! 1
                 in if mn = mx then Some (Inr mn)
                    else if old_given \<and> (mn \<le> the old \<and> the old < mx
                      \<or> (case override_range conf of None \<Rightarrow> False | Some (a, b) \<Rightarrow> a \<le> the old \<and> the old < b)) then Some (Inr (the old))
                    else map_option Inr (new_spot mn mx (if length ns > 2 then ns ! 2 else 5) all_precs)))
         | Rules _ \<Rightarrow> Some (Inl AssertionError))"

section \<open>Adding and removing\<close>

text \<open>The constraints on a row of \<^verbatim>\<open>person_affiliation_source\<close> that replaces those with its key.\<close>

definition source_row_error :: "aff_row \<Rightarrow> aff_db \<Rightarrow> py_error option" where
  "source_row_error r db =
     (if \<bar>af_precedence r\<bar> \<ge> 1000000 then Some DataError
      else if list_ex (\<lambda>x. aff_key x \<noteq> aff_key r \<and> af_person x = af_person r \<and> af_precedence x = af_precedence r) (pa_sources db)
        \<or> (af_person r, af_ou r, af_affiliation r) \<notin> set (pa_affiliations db) \<or> (af_affiliation r, af_status r) \<notin> set (pa_statuses db)
        \<or> af_source r \<notin> set (pa_systems db) then Some IntegrityError
      else None)"

definition update_source :: "int \<times> int \<times> int \<times> int \<Rightarrow> (aff_row \<Rightarrow> aff_row) \<Rightarrow> aff_db \<Rightarrow> aff_db res" where
  "update_source key f db =
     (case find (\<lambda>r. aff_key r = key) (pa_sources db) of
        None \<Rightarrow> Inr db
      | Some r \<Rightarrow>
          (case source_row_error (f r) db of
             Some e \<Rightarrow> Inl e
           | None \<Rightarrow> Inr (db\<lparr>pa_sources := map (\<lambda>x. if aff_key x = key then f x else x) (pa_sources db)\<rparr>)))"

definition insert_source :: "aff_row \<Rightarrow> aff_db \<Rightarrow> aff_db res" where
  "insert_source r db =
     (case source_row_error r db of
        Some e \<Rightarrow> Inl e
      | None \<Rightarrow>
          if list_ex (\<lambda>x. aff_key x = aff_key r) (pa_sources db) then Inl IntegrityError
          else Inr (db\<lparr>pa_sources := pa_sources db @ [r]\<rparr>))"

function clear_precedence :: "int \<Rightarrow> (int \<times> aff_row) list \<Rightarrow> aff_db \<Rightarrow> aff_db res" where
  "clear_precedence precedence all_precs db =
     res_bind (dict_get all_precs precedence) (\<lambda>row.
     res_bind (if precedence + 1 \<in> set (keys all_precs) then clear_precedence (precedence + 1) all_precs db else Inr db) (\<lambda>db1.
       update_source (aff_key row) (\<lambda>r. r\<lparr>af_precedence := precedence + 1\<rparr>) db1))"
  by pat_completeness auto

termination
  by (relation "measure (\<lambda>(p, all_precs, _). card {q \<in> set (keys all_precs). q \<ge> p})")
    (auto simp del: set_map simp: res_simps intro!: fewer_above dest: map_of_Some_keys)

declare clear_precedence.simps [simp del]

definition insert_affiliation :: "int \<Rightarrow> int \<Rightarrow> int \<Rightarrow> aff_db \<Rightarrow> aff_db res" where
  "insert_affiliation self_id ou_id affiliation db =
     (if (self_id, ou_id, affiliation) \<in> set (pa_affiliations db) then Inr db
      else if ou_id \<notin> set (pa_ous db) \<or> affiliation \<notin> set (pa_codes db) then Inl IntegrityError
      else Inr (pa_log_change self_id ''person_aff_add'' (db\<lparr>pa_affiliations := pa_affiliations db @ [(self_id, ou_id, affiliation)]\<rparr>)))"

text \<open>The result is what was done, or nothing.\<close>

definition add_affiliation ::
    "nat \<Rightarrow> int \<Rightarrow> aff_names \<Rightarrow> (string \<times> prec_rule) list \<Rightarrow> int \<Rightarrow> int \<Rightarrow> int \<Rightarrow> int \<Rightarrow> int \<Rightarrow> prec \<Rightarrow> aff_db \<Rightarrow> (string option \<times> aff_db) res option" where
  "add_affiliation limit now names conf self_id ou_id affiliation source status precedence db =
     (case get_affiliations now self_id True db of
        Inl e \<Rightarrow> Some (Inl e)
      | Inr rows \<Rightarrow>
          (let all_prs = fold (\<lambda>r. dict_set (af_precedence r) r) rows [];
               calculate = calculate_affiliation_precedence limit names conf affiliation source status (map af_precedence rows) (Value precedence);
               clear = (\<lambda>p db1. if p \<in> set (keys all_prs) then clear_precedence p all_prs db1 else Inr db1);
               key = (self_id, ou_id, affiliation, source)
           in case insert_affiliation self_id ou_id affiliation db of
                Inl e \<Rightarrow> Some (Inl e)
              | Inr db1 \<Rightarrow>
                  (case find (\<lambda>r. aff_key r = key) (pa_sources db1) of
                     Some cur \<Rightarrow>
                       map_option (\<lambda>c. res_bind c (\<lambda>new_prec.
                         res_bind (if new_prec \<noteq> af_precedence cur then clear new_prec db1 else Inr db1) (\<lambda>db2.
                         res_bind (update_source key (\<lambda>r. r\<lparr>af_status := status, af_last := now, af_deleted := None, af_precedence := new_prec\<rparr>) db2) (\<lambda>db3.
                           Inr (if af_deleted cur \<noteq> None then (Some ''add'', pa_log_change self_id ''person_aff_src_add'' db3)
                                else if af_status cur \<noteq> status \<or> af_precedence cur \<noteq> new_prec
                                then (Some ''mod'', pa_log_change self_id ''person_aff_src_mod'' db3)
                                else (None, db3))))))
                         (calculate (Some (af_precedence cur)))
                   | None \<Rightarrow>
                       map_option (\<lambda>c. res_bind c (\<lambda>pr.
                         res_bind (clear pr db1) (\<lambda>db2.
                         res_bind (insert_source \<lparr>af_person = self_id, af_ou = ou_id, af_affiliation = affiliation, af_source = source, af_status = status,
                             af_created = now, af_last = now, af_deleted = None, af_precedence = pr\<rparr> db2) (\<lambda>db3.
                           Inr (Some ''add'', pa_log_change self_id ''person_aff_src_add'' db3)))))
                         (calculate None))))"

definition delete_affiliation :: "int \<Rightarrow> int \<Rightarrow> int \<Rightarrow> int \<Rightarrow> int \<Rightarrow> aff_db \<Rightarrow> aff_db res" where
  "delete_affiliation now self_id ou_id affiliation source db =
     (let key = (self_id, ou_id, affiliation, source)
      in res_bind (query_1 (map af_status (filter (\<lambda>r. aff_key r = key) (pa_sources db)))) (\<lambda>_.
           Inr (pa_log_change self_id ''person_aff_src_del''
             (db\<lparr>pa_sources := map (\<lambda>r. if aff_key r = key then r\<lparr>af_deleted := Some now\<rparr> else r) (pa_sources db)\<rparr>))))"

definition nuke_affiliation :: "int \<Rightarrow> int \<Rightarrow> int \<Rightarrow> int \<Rightarrow> aff_db \<Rightarrow> aff_db res" where
  "nuke_affiliation self_id ou_id affiliation source db =
     (let db1 = pa_log_change self_id ''person_aff_src_del''
            (db\<lparr>pa_sources := filter (\<lambda>r. aff_key r \<noteq> (self_id, ou_id, affiliation, source)) (pa_sources db)\<rparr>)
      in if list_ex (\<lambda>r. (af_person r, af_ou r, af_affiliation r) = (self_id, ou_id, affiliation)) (pa_sources db1) then Inr db1
         else if (self_id, ou_id, affiliation) \<in> set (pa_types db1) then Inl IntegrityError
         else Inr (pa_log_change self_id ''person_aff_del''
                (db1\<lparr>pa_affiliations := filter (\<lambda>a. a \<noteq> (self_id, ou_id, affiliation)) (pa_affiliations db1)\<rparr>)))"

definition nuke_affiliation_for_source_system :: "int \<Rightarrow> int \<Rightarrow> aff_db \<Rightarrow> aff_db" where
  "nuke_affiliation_for_source_system self_id source_system db =
     pa_log_change self_id ''person_aff_src_del'' (db\<lparr>pa_sources := filter (\<lambda>r. af_source r \<noteq> source_system) (pa_sources db)\<rparr>)"


section \<open>Synchronisation\<close>

text \<open>
  What the source delivers is read first: \<open>get_affiliation\<close> is the look-up of affiliation and status in
  \<^verbatim>\<open>Constants.py\<close>. The order in which Python goes through a set of affiliations is \<open>order\<close>.
\<close>

fun read_affiliations :: "('v \<Rightarrow> (int \<times> int option) res) \<Rightarrow> aff_db \<Rightarrow> ('v \<times> int) list \<Rightarrow> (int \<times> int \<times> int) list res" where
  "read_affiliations get_affiliation db [] = Inr []"
| "read_affiliations get_affiliation db ((aff_value, ou_id) # tuples) =
     res_bind (get_affiliation aff_value) (\<lambda>(aff, status).
       case status of
         None \<Rightarrow> Inl ValueError
       | Some st \<Rightarrow>
           if ou_id \<notin> set (pa_ous db) then Inl ValueError
           else res_bind (read_affiliations get_affiliation db tuples) (\<lambda>affs. Inr (List.insert (ou_id, aff, st) affs)))"

fun delete_all :: "int \<Rightarrow> int \<Rightarrow> int \<Rightarrow> (int \<times> int \<times> int) list \<Rightarrow> aff_db \<Rightarrow> aff_db res" where
  "delete_all now self_id source [] db = Inr db"
| "delete_all now self_id source ((ou_id, aff, status) # affs) db =
     res_bind (delete_affiliation now self_id ou_id aff source db) (delete_all now self_id source affs)"

fun add_all :: "nat \<Rightarrow> int \<Rightarrow> aff_names \<Rightarrow> (string \<times> prec_rule) list \<Rightarrow> int \<Rightarrow> int \<Rightarrow> (int \<times> int \<times> int) list \<Rightarrow> aff_db \<Rightarrow> aff_db res option" where
  "add_all limit now names conf self_id source [] db = Some (Inr db)"
| "add_all limit now names conf self_id source ((ou_id, aff, status) # affs) db =
     (case add_affiliation limit now names conf self_id ou_id aff source status NoPrec db of
        None \<Rightarrow> None
      | Some (Inl e) \<Rightarrow> Some (Inl e)
      | Some (Inr (_, db1)) \<Rightarrow> add_all limit now names conf self_id source affs db1)"

definition affiliation_sync ::
    "nat \<Rightarrow> int \<Rightarrow> aff_names \<Rightarrow> (string \<times> prec_rule) list \<Rightarrow> ('v \<Rightarrow> (int \<times> int option) res) \<Rightarrow> ((int \<times> int \<times> int) list \<Rightarrow> (int \<times> int \<times> int) list) \<Rightarrow>
     int \<Rightarrow> int \<Rightarrow> ('v \<times> int) list \<Rightarrow> aff_db \<Rightarrow>
     (((int \<times> int \<times> int) set \<times> (int \<times> int \<times> int) set \<times> (int \<times> int \<times> int) set) \<times> aff_db) res option" where
  "affiliation_sync limit now names conf get_affiliation order source_system self_id aff_tuples db =
     (case res_bind (read_affiliations get_affiliation db aff_tuples) (\<lambda>new.
            res_bind (list_affiliations now (Some (One self_id)) (Some (One source_system)) None None None False db) (\<lambda>rows.
              Inr (new, remdups (map (\<lambda>r. (af_ou r, af_affiliation r, af_status r)) rows)))) of
        Inl e \<Rightarrow> Some (Inl e)
      | Inr (new, current) \<Rightarrow>
          (let to_add = set new - set current; to_update = set new \<inter> set current; to_remove = set current - set new
           in case delete_all now self_id source_system (order (filter (\<lambda>a. a \<notin> set new) current)) db of
                Inl e \<Rightarrow> Some (Inl e)
              | Inr db1 \<Rightarrow>
                  map_option (\<lambda>r. res_bind r (\<lambda>db2. Inr ((to_add, to_update, to_remove), db2)))
                    (add_all limit now names conf self_id source_system (order new) db1)))"

section \<open>Precedences\<close>

definition wf_affs :: "aff_db \<Rightarrow> bool" where
  "wf_affs db \<longleftrightarrow> unique_rows aff_key af_person af_precedence (pa_sources db) \<and>
     (\<forall>r \<in> set (pa_sources db). (af_person r, af_ou r, af_affiliation r) \<in> set (pa_affiliations db) \<and>
        (af_affiliation r, af_status r) \<in> set (pa_statuses db) \<and> af_source r \<in> set (pa_systems db))"

abbreviation precedences :: "int \<Rightarrow> aff_db \<Rightarrow> int set" where
  "precedences person db \<equiv> numbers af_person af_precedence person (pa_sources db)"

abbreviation raised :: "int set \<Rightarrow> int \<Rightarrow> int \<Rightarrow> aff_row \<Rightarrow> aff_row" where
  "raised \<equiv> shift_row af_person af_precedence (\<lambda>p r. r\<lparr>af_precedence := p\<rparr>)"

lemma aff_key_update [simp]:
  "aff_key (r\<lparr>af_precedence := p\<rparr>) = aff_key r" "aff_key (r\<lparr>af_deleted := d\<rparr>) = aff_key r"
  "aff_key (r\<lparr>af_status := st\<rparr>) = aff_key r" "aff_key (r\<lparr>af_last := now\<rparr>) = aff_key r"
  by (simp_all add: aff_key_def)

interpretation affs: priority_rows af_person af_precedence "\<lambda>p r. r\<lparr>af_precedence := p\<rparr>" aff_key
  by unfold_locales simp_all

lemma new_spot_free:
  assumes "step > 0"
  shows "\<exists>x. new_spot mn mx step precs = Some x \<and> x \<notin> set precs"
proof -
  let ?f = "\<lambda>x. card {q \<in> set precs. q \<ge> x}"
  have "?f (x + step) < ?f x" if "x \<in> set precs" for x
  proof -
    have "x \<in> {q \<in> set precs. q \<ge> x}" "x \<notin> {q \<in> set precs. q \<ge> x + step}" using assms that by auto
    moreover have "{q \<in> set precs. q \<ge> x + step} \<subseteq> {q \<in> set precs. q \<ge> x}" using assms by auto
    ultimately have "{q \<in> set precs. q \<ge> x + step} \<subset> {q \<in> set precs. q \<ge> x}" by blast
    then show ?thesis by (rule psubset_card_mono [rotated]) simp
  qed
  then obtain x where x: "while_option (\<lambda>x. x \<in> set precs) (\<lambda>x. x + step) (fold max (filter (\<lambda>x. mn \<le> x \<and> x < mx) precs) mn) = Some x"
    using measure_while_option_Some [of "\<lambda>_. True" "\<lambda>x. x \<in> set precs" "\<lambda>x. x + step" ?f] by blast
  then show ?thesis using while_option_stop [OF x] by (auto simp: new_spot_def)
qed

lemma get_affiliations_all:
  "get_affiliations now self True db = Inr (sort_key af_precedence (filter (\<lambda>r. af_person r = self) (pa_sources db)))"
  by (simp add: get_affiliations_def list_affiliations_def in_codes_def Let_def)

lemma find_map: "find Q (map g xs) = map_option g (find (\<lambda>x. Q (g x)) xs)"
  by (induction xs) auto

lemma find_key: "unique_rows aff_key af_person af_precedence rows \<Longrightarrow> x \<in> set rows \<Longrightarrow> find (\<lambda>r. aff_key r = aff_key x) rows = Some x"
  using affs.key_unique [of rows _ x] by (cases "find (\<lambda>r. aff_key r = aff_key x) rows") (auto simp: find_None_iff dest!: find_Some_mem)

text \<open>One statement, on rows that were moved out of the way by \<open>g\<close>.\<close>

lemma update_moved:
  assumes "wf_affs db" "row \<in> set (pa_sources db)" "\<And>r. aff_key (g r) = aff_key r" "\<And>r. aff_key (f r) = aff_key r" "\<And>r. af_precedence (f r) = p"
    "\<And>r. f (g r) = f r" "(af_affiliation row, af_status (f row)) \<in> set (pa_statuses db)"
    "\<And>r. r \<in> set (pa_sources db) \<Longrightarrow> aff_key r \<noteq> aff_key row \<Longrightarrow> af_person r = af_person row \<Longrightarrow> af_precedence (g r) \<noteq> p"
  shows "update_source (aff_key row) f (db\<lparr>pa_sources := map g (pa_sources db)\<rparr>) =
    (if \<bar>p\<bar> \<ge> 1000000 then Inl DataError
     else Inr (db\<lparr>pa_sources := map (\<lambda>r. if aff_key r = aff_key row then f r else g r) (pa_sources db)\<rparr>))"
proof -
  have same: "af_person (f r) = af_person r" "af_ou (f r) = af_ou r" "af_affiliation (f r) = af_affiliation r" "af_source (f r) = af_source r"
    "af_person (g r) = af_person r" for r
    using assms(3,4) [of r] by (simp_all add: aff_key_def)
  have "find (\<lambda>r. aff_key r = aff_key row) (map g (pa_sources db)) = Some (g row)"
    using find_key [OF _ assms(2)] assms(1) by (simp add: find_map assms(3) wf_affs_def)
  moreover have "source_row_error (f row) (db\<lparr>pa_sources := map g (pa_sources db)\<rparr>) = (if \<bar>p\<bar> \<ge> 1000000 then Some DataError else None)"
    using assms(1,2,7,8) by (auto simp: source_row_error_def list_ex_iff assms(3-5) same wf_affs_def)
  moreover have "map (\<lambda>x. if aff_key x = aff_key row then f x else x) (map g (pa_sources db)) =
      map (\<lambda>r. if aff_key r = aff_key row then f r else g r) (pa_sources db)"
    by (simp add: assms(3,6) comp_def if_distrib)
  ultimately show ?thesis by (simp add: update_source_def assms(6) del: map_map)
qed

lemma raised_fields [simp]: "aff_key (raised P person p r) = aff_key r" "af_person (raised P person p r) = af_person r"
  by (rule affs.shift_fields)+

lemma clear_precedence_exact:
  assumes "wf_affs db" "by_number af_person af_precedence person (pa_sources db) all_precs" "P = precedences person db"
  shows "p \<in> P \<Longrightarrow> clear_precedence p all_precs db = Inr (db\<lparr>pa_sources := map (raised P person p) (pa_sources db)\<rparr>) \<or>
    clear_precedence p all_precs db = Inl DataError \<and> (\<exists>q \<in> P. \<bar>q + 1\<bar> \<ge> 1000000)"
  using assms
proof (induction p all_precs db rule: clear_precedence.induct)
  case (1 p all_precs db)
  note p = "1.prems"(1) and wf = "1.prems"(2) and all = "1.prems"(3) and P = "1.prems"(4)
  have rows: "unique_rows aff_key af_person af_precedence (pa_sources db)" using wf by (simp add: wf_affs_def)
  have keys: "set (keys all_precs) = P" using by_number_keys [OF all] P by simp
  obtain row where row: "map_of all_precs p = Some row" using p keys map_of_eq_None_iff [of all_precs p] by auto
  then have in_row: "row \<in> set (pa_sources db)" "af_person row = person" "af_precedence row = p" using all unfolding by_number_def by auto
  let ?next = "if p + 1 \<in> set (keys all_precs) then clear_precedence (p + 1) all_precs db else Inr db"
  have "?next = Inr (db\<lparr>pa_sources := map (raised P person (p + 1)) (pa_sources db)\<rparr>) \<or> ?next = Inl DataError \<and> (\<exists>q \<in> P. \<bar>q + 1\<bar> \<ge> 1000000)"
  proof (cases "p + 1 \<in> P")
    case True
    then show ?thesis using "1.IH" [OF dict_get_Some [OF row] _ True wf all P] keys by simp
  next
    case False
    then have "map (raised P person (p + 1)) (pa_sources db) = pa_sources db" by (intro map_idI) (rule affs.shift_free)
    then show ?thesis using False keys by simp
  qed
  then show ?case
  proof
    assume first: "?next = Inr (db\<lparr>pa_sources := map (raised P person (p + 1)) (pa_sources db)\<rparr>)"
    let ?db = "db\<lparr>pa_sources := map (raised P person (p + 1)) (pa_sources db)\<rparr>"
    have "update_source (aff_key row) (\<lambda>r. r\<lparr>af_precedence := p + 1\<rparr>) ?db =
      (if \<bar>p + 1\<bar> \<ge> 1000000 then Inl DataError
       else Inr (db\<lparr>pa_sources := map (\<lambda>r. if aff_key r = aff_key row then r\<lparr>af_precedence := p + 1\<rparr> else raised P person (p + 1) r) (pa_sources db)\<rparr>))"
    proof (rule update_moved [OF wf in_row(1)])
      show "af_precedence (raised P person (p + 1) r) \<noteq> p + 1" if "r \<in> set (pa_sources db)" "af_person r = af_person row" for r
        using that in_row(2) P by (intro affs.makes_room) (auto simp: numbers_def)
      show "(raised P person (p + 1) r)\<lparr>af_precedence := p + 1\<rparr> = r\<lparr>af_precedence := p + 1\<rparr>" for r by (simp add: shift_row_def)
    qed (use wf in_row in \<open>simp_all add: wf_affs_def\<close>)
    then have "clear_precedence p all_precs db = (if \<bar>p + 1\<bar> \<ge> 1000000 then Inl DataError
      else Inr (db\<lparr>pa_sources := map (raised P person p) (pa_sources db)\<rparr>))"
      unfolding clear_precedence.simps [of p] dict_get_Some [OF row] res_bind_Inr first affs.shift_step [OF rows in_row p] .
    then show ?thesis using p by auto
  qed (simp add: clear_precedence.simps [of p] dict_get_Some [OF row])
qed


section \<open>Adding an affiliation\<close>

definition same_codes :: "aff_db \<Rightarrow> aff_db \<Rightarrow> bool" where
  "same_codes db db' \<longleftrightarrow> pa_ous db' = pa_ous db \<and> pa_codes db' = pa_codes db \<and> pa_statuses db' = pa_statuses db \<and> pa_systems db' = pa_systems db"

definition addable :: "int \<Rightarrow> int \<Rightarrow> int \<Rightarrow> int \<Rightarrow> aff_db \<Rightarrow> bool" where
  "addable ou aff source status db \<longleftrightarrow> ou \<in> set (pa_ous db) \<and> aff \<in> set (pa_codes db) \<and> (aff, status) \<in> set (pa_statuses db) \<and> source \<in> set (pa_systems db)"

text \<open>What adding leaves: the new row, and the others as \<open>f\<close> moves them.\<close>

definition added :: "aff_db \<Rightarrow> aff_db \<Rightarrow> aff_row \<Rightarrow> (aff_row \<Rightarrow> aff_row) \<Rightarrow> bool" where
  "added db db' new f \<longleftrightarrow> wf_affs db' \<and> same_codes db db' \<and>
     set (pa_affiliations db') = insert (af_person new, af_ou new, af_affiliation new) (set (pa_affiliations db)) \<and>
     set (pa_sources db') = insert new (f ` {r \<in> set (pa_sources db). aff_key r \<noteq> aff_key new})"

lemma raised_others [simp]:
  "af_ou (raised P person p r) = af_ou r" "af_affiliation (raised P person p r) = af_affiliation r" "af_source (raised P person p r) = af_source r"
  "af_status (raised P person p r) = af_status r" "af_deleted (raised P person p r) = af_deleted r"
  by (simp_all add: shift_row_def)

lemma log_simps [simp]:
  "pa_sources (pa_log_change e c db) = pa_sources db" "wf_affs (pa_log_change e c db) = wf_affs db" "same_codes db0 (pa_log_change e c db) = same_codes db0 db"
  "added db0 (pa_log_change e c db) new f = added db0 db new f" "pa_affiliations (pa_log_change e c db) = pa_affiliations db"
  "pa_statuses (pa_log_change e c db) = pa_statuses db" "pa_systems (pa_log_change e c db) = pa_systems db"
  "pa_ous (pa_log_change e c db) = pa_ous db" "pa_codes (pa_log_change e c db) = pa_codes db"
  by (simp_all add: pa_log_change_def wf_affs_def same_codes_def added_def)

lemma addable_same: "same_codes db db' \<Longrightarrow> addable ou aff source st db' \<longleftrightarrow> addable ou aff source st db"
  by (simp add: addable_def same_codes_def)

lemma insert_affiliation_ok:
  assumes "wf_affs db" "addable ou aff source status db"
  shows "\<exists>db1. insert_affiliation self ou aff db = Inr db1 \<and> wf_affs db1 \<and> same_codes db db1 \<and> pa_sources db1 = pa_sources db \<and>
    set (pa_affiliations db1) = insert (self, ou, aff) (set (pa_affiliations db))"
  using assms unfolding insert_affiliation_def
  by (auto simp: addable_def wf_affs_def same_codes_def pa_log_change_def insert_absorb)

lemma clear_exact:
  assumes "wf_affs db" "P = precedences self db" "all_prs = fold (\<lambda>r. dict_set (af_precedence r) r) (sort_key af_precedence (filter (\<lambda>r. af_person r = self) (pa_sources db))) []"
  shows "(if p \<in> set (keys all_prs) then clear_precedence p all_prs db else Inr db) = Inr (db\<lparr>pa_sources := map (raised P self p) (pa_sources db)\<rparr>) \<or>
    (if p \<in> set (keys all_prs) then clear_precedence p all_prs db else Inr db) = Inl DataError \<and> (\<exists>q \<in> P. \<bar>q + 1\<bar> \<ge> 1000000)"
proof -
  have by_num: "by_number af_person af_precedence self (pa_sources db) all_prs"
    unfolding assms(3) by (rule affs.dict_by_number) (use assms(1) in \<open>auto simp: wf_affs_def\<close>)
  then have keys: "set (keys all_prs) = P" using by_number_keys assms(2) by blast
  show ?thesis
  proof (cases "p \<in> P")
    case True
    then show ?thesis using clear_precedence_exact [OF assms(1) by_num assms(2) True] unfolding keys by simp
  next
    case False
    then have "map (raised P self p) (pa_sources db) = pa_sources db" by (intro map_idI) (rule affs.shift_free)
    then show ?thesis using False unfolding keys by simp
  qed
qed

lemma wf_added:
  assumes "wf_affs db" "P = precedences self db" "af_person new = self" "af_precedence new = p"
    "set (pa_sources db') = insert new (raised P self p ` {r \<in> set (pa_sources db). aff_key r \<noteq> aff_key new})"
    "distinct (map aff_key (pa_sources db'))" "addable (af_ou new) (af_affiliation new) (af_source new) (af_status new) db"
    "same_codes db db'" "set (pa_affiliations db') = insert (self, af_ou new, af_affiliation new) (set (pa_affiliations db))"
  shows "added db db' new (raised P self p)"
proof -
  have "unique_rows aff_key af_person af_precedence (pa_sources db')"
    by (rule affs.unique_shifted [OF _ assms(2-6)]) (use assms(1) in \<open>simp add: wf_affs_def\<close>)
  then have "wf_affs db'" using assms(1,3,5,7-9) by (auto simp: wf_affs_def addable_def same_codes_def)
  then show ?thesis using assms(3,5,8,9) by (simp add: added_def)
qed


definition overflow :: "int set \<Rightarrow> int \<Rightarrow> bool" where
  "overflow P q \<longleftrightarrow> \<bar>q\<bar> \<ge> 1000000 \<or> (\<exists>x \<in> P. \<bar>x + 1\<bar> \<ge> 1000000)"

abbreviation own_rows :: "int \<Rightarrow> aff_db \<Rightarrow> aff_row list" where
  "own_rows self db \<equiv> sort_key af_precedence (filter (\<lambda>r. af_person r = self) (pa_sources db))"

lemma add_new:
  assumes "wf_affs db" "addable ou aff source status db" "(self, ou, aff, source) \<notin> aff_key ` set (pa_sources db)" "P = precedences self db"
    "calculate_affiliation_precedence limit names conf aff source status (map af_precedence (own_rows self db)) (Value precedence) None = Some (Inr q)"
    "new = \<lparr>af_person = self, af_ou = ou, af_affiliation = aff, af_source = source, af_status = status, af_created = now, af_last = now,
       af_deleted = None, af_precedence = q\<rparr>"
  shows "\<exists>r. add_affiliation limit now names conf self ou aff source status precedence db = Some r \<and>
    (r = Inl DataError \<and> overflow P q \<or> (\<exists>db'. r = Inr (Some ''add'', db') \<and> added db db' new (raised P self q)))"
proof -
  obtain db1 where db1: "insert_affiliation self ou aff db = Inr db1" "wf_affs db1" "same_codes db db1" "pa_sources db1 = pa_sources db"
    "set (pa_affiliations db1) = insert (self, ou, aff) (set (pa_affiliations db))" using insert_affiliation_ok [OF assms(1,2)] by blast
  let ?prs = "fold (\<lambda>r. dict_set (af_precedence r) r) (own_rows self db) []"
  let ?clear = "if q \<in> set (keys ?prs) then clear_precedence q ?prs db1 else Inr db1"
  let ?db2 = "db1\<lparr>pa_sources := map (raised P self q) (pa_sources db1)\<rparr>"
  have key: "aff_key new = (self, ou, aff, source)" using assms(6) by (simp add: aff_key_def)
  have no: "\<And>r. r \<in> set (pa_sources db) \<Longrightarrow> aff_key r \<noteq> (self, ou, aff, source)" using assms(3) by (metis image_eqI)
  then have "find (\<lambda>r. aff_key r = (self, ou, aff, source)) (pa_sources db1) = None" by (simp add: find_None_iff db1(4))
  then have run: "add_affiliation limit now names conf self ou aff source status precedence db =
    Some (res_bind ?clear (\<lambda>db2. res_bind (insert_source new db2) (\<lambda>db3. Inr (Some ''add'', pa_log_change self ''person_aff_src_add'' db3))))"
    unfolding add_affiliation_def get_affiliations_all Let_def assms(6) using db1(1) assms(5) by simp
  have P: "P = precedences self db1" using assms(4) db1(4) by simp
  from clear_exact [OF db1(2) P, of ?prs q] db1(4)
  consider (ok) "?clear = Inr ?db2" | (over) "?clear = Inl DataError" "overflow P q" by (auto simp: overflow_def)
  then show ?thesis
  proof cases
    case over
    then show ?thesis using run by simp
  next
    case ok
    have others: "\<And>r. r \<in> set (pa_sources db) \<Longrightarrow> aff_key r \<noteq> aff_key new" using no key by simp
    then have new: "\<not> list_ex (\<lambda>x. aff_key x = aff_key new) (pa_sources ?db2)" using db1(4) by (auto simp: list_ex_iff)
    have "af_precedence (raised P self q r) \<noteq> q" if "r \<in> set (pa_sources db1)" "af_person r = self" for r
      using that P by (intro affs.makes_room) (auto simp: numbers_def)
    then have error: "source_row_error new ?db2 = (if \<bar>q\<bar> \<ge> 1000000 then Some DataError else None)"
      using assms(2,6) db1(3,5) by (auto simp: source_row_error_def list_ex_iff addable_def same_codes_def)
    let ?db3 = "?db2\<lparr>pa_sources := pa_sources ?db2 @ [new]\<rparr>"
    have "added db ?db3 new (raised P self q)"
    proof (rule wf_added [OF assms(1,4)])
      have "{r \<in> set (pa_sources db). aff_key r \<noteq> aff_key new} = set (pa_sources db)" using others by auto
      then show "set (pa_sources ?db3) = insert new (raised P self q ` {r \<in> set (pa_sources db). aff_key r \<noteq> aff_key new})" by (simp add: db1(4))
      show "distinct (map aff_key (pa_sources ?db3))" using assms(1,3) key by (auto simp: wf_affs_def unique_rows_def db1(4) comp_def)
      show "set (pa_affiliations ?db3) = insert (self, af_ou new, af_affiliation new) (set (pa_affiliations db))" using assms(6) db1(5) by simp
    qed (use assms(2,6) db1(3) in \<open>simp_all add: same_codes_def\<close>)
    then show ?thesis using run ok error new by (auto simp: insert_source_def overflow_def simp del: map_map)
  qed
qed

lemma add_known:
  assumes "wf_affs db" "addable ou aff source status db" "cur \<in> set (pa_sources db)" "aff_key cur = (self, ou, aff, source)" "P = precedences self db"
    "calculate_affiliation_precedence limit names conf aff source status (map af_precedence (own_rows self db)) (Value precedence)
       (Some (af_precedence cur)) = Some (Inr q)"
    "new = cur\<lparr>af_status := status, af_last := now, af_deleted := None, af_precedence := q\<rparr>"
  shows "\<exists>r. add_affiliation limit now names conf self ou aff source status precedence db = Some r \<and>
    (r = Inl DataError \<and> overflow P q \<or> (\<exists>what db'. r = Inr (what, db') \<and> added db db' new (if q = af_precedence cur then id else raised P self q)))"
proof -
  obtain db1 where db1: "insert_affiliation self ou aff db = Inr db1" "wf_affs db1" "same_codes db db1" "pa_sources db1 = pa_sources db"
    "set (pa_affiliations db1) = insert (self, ou, aff) (set (pa_affiliations db))" using insert_affiliation_ok [OF assms(1,2)] by blast
  define prs where "prs = fold (\<lambda>r. dict_set (af_precedence r) r) (own_rows self db) []"
  let ?clear = "if q \<noteq> af_precedence cur then if q \<in> set (keys prs) then clear_precedence q prs db1 else Inr db1 else Inr db1"
  define g where "g = (if q = af_precedence cur then id else raised P self q)"
  let ?f = "\<lambda>r. r\<lparr>af_status := status, af_last := now, af_deleted := None, af_precedence := q\<rparr>"
  let ?db2 = "db1\<lparr>pa_sources := map g (pa_sources db1)\<rparr>"
  have person: "af_person cur = self" "af_ou cur = ou" "af_affiliation cur = aff" "af_source cur = source" using assms(4) by (simp_all add: aff_key_def)
  have rows: "unique_rows aff_key af_person af_precedence (pa_sources db)" using assms(1) by (simp add: wf_affs_def)
  have find: "find (\<lambda>r. aff_key r = (self, ou, aff, source)) (pa_sources db1) = Some cur"
    using find_key [OF rows assms(3)] assms(4) db1(4) by simp
  have run: "add_affiliation limit now names conf self ou aff source status precedence db =
    Some (res_bind ?clear (\<lambda>db2. res_bind (update_source (aff_key cur) ?f db2) (\<lambda>db3.
      Inr (if af_deleted cur \<noteq> None then (Some ''add'', pa_log_change self ''person_aff_src_add'' db3)
           else if af_status cur \<noteq> status \<or> af_precedence cur \<noteq> q then (Some ''mod'', pa_log_change self ''person_aff_src_mod'' db3)
           else (None, db3)))))"
    unfolding add_affiliation_def get_affiliations_all Let_def assms(4) prs_def db1(1) sum.case find option.case assms(6) option.map res_bind_Inr by (rule refl)
  have P: "P = precedences self db1" using assms(5) db1(4) by simp
  have "?clear = Inr ?db2 \<or> ?clear = Inl DataError \<and> overflow P q"
  proof (cases "q = af_precedence cur")
    case False
    then show ?thesis using clear_exact [OF db1(2) P, of prs q] by (auto simp: prs_def db1(4) overflow_def g_def simp del: set_map)
  qed (simp add: g_def)
  then consider (ok) "?clear = Inr ?db2" | (over) "?clear = Inl DataError" "overflow P q" by blast
  then show ?thesis
  proof cases
    case over
    then show ?thesis using run by simp
  next
    case ok
    have g: "aff_key (g r) = aff_key r" "?f (g r) = ?f r" for r by (simp_all add: g_def shift_row_def)
    have "af_precedence (g r) \<noteq> q" if "r \<in> set (pa_sources db)" "aff_key r \<noteq> aff_key cur" "af_person r = af_person cur" for r
      using affs.prio_unique [OF rows that(1) assms(3)] affs.makes_room [of r P self q] that person(1) assms(5) by (auto simp: g_def numbers_def)
    then have upd: "update_source (aff_key cur) ?f ?db2 = (if \<bar>q\<bar> \<ge> 1000000 then Inl DataError
        else Inr (db1\<lparr>pa_sources := map (\<lambda>r. if aff_key r = aff_key cur then ?f r else g r) (pa_sources db1)\<rparr>))"
      using assms(2,3) db1(3,4) person g by (intro update_moved [OF db1(2)]) (auto simp: addable_def same_codes_def)
    let ?db3 = "db1\<lparr>pa_sources := map (\<lambda>r. if aff_key r = aff_key cur then ?f r else g r) (pa_sources db1)\<rparr>"
    have keys: "map aff_key (pa_sources ?db3) = map aff_key (pa_sources db)" by (simp add: db1(4) g)
    have new: "new = ?f cur" "aff_key new = aff_key cur" using assms(7) by simp_all
    have set3: "set (pa_sources ?db3) = insert new (g ` {r \<in> set (pa_sources db). aff_key r \<noteq> aff_key new})"
      unfolding new using affs.key_unique [OF rows _ assms(3)] assms(3) by (auto simp: db1(4) image_iff)
    have codes: "same_codes db ?db3" "set (pa_affiliations ?db3) = insert (self, af_ou new, af_affiliation new) (set (pa_affiliations db))"
      using db1(3,5) person new(1) by (simp_all add: same_codes_def)
    have "added db ?db3 new g"
    proof (cases "q = af_precedence cur")
      case True
      then have "map (\<lambda>r. (af_person r, af_precedence r)) (pa_sources ?db3) = map (\<lambda>r. (af_person r, af_precedence r)) (pa_sources db)"
        using affs.key_unique [OF rows _ assms(3)] by (auto simp: g_def db1(4))
      then have "unique_rows aff_key af_person af_precedence (pa_sources ?db3)" using rows keys by (simp add: unique_rows_def del: map_map)
      then have "wf_affs ?db3" using assms(1,2) codes set3 person new(1) True
        by (auto simp: wf_affs_def g_def addable_def same_codes_def simp del: set_map)
      then show ?thesis using codes set3 person new(1) by (simp add: added_def del: set_map)
    next
      case False
      then show ?thesis using wf_added [OF assms(1,5), of new q ?db3] codes set3 keys rows assms(2) person new(1)
        by (simp add: g_def unique_rows_def del: set_map map_map)
    qed
    then show ?thesis using run ok upd by (auto simp: g_def overflow_def)
  qed
qed


section \<open>What a synchronisation leaves\<close>

text \<open>
  The configuration has a number, or a range, for every affiliation and status of the source; numbers and starts of ranges are at
  most \<open>B\<close>, and a step, if given, leads upwards by at most \<open>S\<close>.
\<close>

definition ranges_only :: "int \<Rightarrow> int \<Rightarrow> aff_names \<Rightarrow> (string \<times> prec_rule) list \<Rightarrow> int \<Rightarrow> bool" where
  "ranges_only B S names conf source \<longleftrightarrow> (\<forall>aff status.
     case get_affiliation_precedence_rule names conf source (nm_affiliation names aff) (Some (nm_status names status)) of
       Value (Number n) \<Rightarrow> \<bar>n\<bar> \<le> B
     | Value (Range ns) \<Rightarrow> (length ns = 2 \<or> length ns = 3 \<and> 0 < ns ! 2 \<and> ns ! 2 \<le> S) \<and> \<bar>ns ! 0\<bar> \<le> B
     | _ \<Rightarrow> False)"

definition source_view :: "int \<Rightarrow> int \<Rightarrow> int \<Rightarrow> aff_db \<Rightarrow> (int \<times> int \<times> int) set" where
  "source_view now self source db =
     (\<lambda>r. (af_ou r, af_affiliation r, af_status r)) ` {r \<in> set (pa_sources db). af_person r = self \<and> af_source r = source \<and> is_active now r}"

definition other_rows :: "int \<Rightarrow> int \<Rightarrow> aff_db \<Rightarrow> aff_row set" where
  "other_rows self source db =
     (\<lambda>r. r\<lparr>af_precedence := 0\<rparr>) ` {r \<in> set (pa_sources db). \<not> (af_person r = self \<and> af_source r = source)}"

lemma fold_max_mem: "fold max xs m \<in> insert m (set (xs :: int list))"
proof (induction xs arbitrary: m)
  case (Cons x xs)
  then show ?case using Cons [of "max x m"] by (auto simp: max_def split: if_splits)
qed simp

text \<open>A spot found in a range is the start of the range, taken or not, or one step beyond a precedence that is taken.\<close>

lemma new_spot_near:
  assumes "new_spot mn mx step precs = Some x"
  shows "x = mn \<or> x \<in> set precs \<or> x - step \<in> set precs"
proof -
  let ?start = "fold max (filter (\<lambda>x. mn \<le> x \<and> x < mx) precs) mn"
  have "?start = mn \<or> ?start \<in> set precs" using fold_max_mem [of "filter (\<lambda>x. mn \<le> x \<and> x < mx) precs" mn] by auto
  moreover have "x = ?start \<or> x - step \<in> set precs"
    by (rule while_option_rule [where P = "\<lambda>x. x = ?start \<or> x - step \<in> set precs", OF _ assms [unfolded new_spot_def]]) auto
  ultimately show ?thesis by auto
qed

lemma calculate_returns:
  assumes "ranges_only B S names conf source" "limit \<ge> 2" "5 \<le> S" "B \<le> C" "\<forall>p \<in> set precs. \<bar>p\<bar> \<le> C" "\<forall>p. old = Some p \<longrightarrow> p \<in> set precs"
  shows "\<exists>q. calculate_affiliation_precedence limit names conf aff source status precs (Value NoPrec) old = Some (Inr q) \<and> \<bar>q\<bar> \<le> C + S"
proof -
  obtain n where limit: "limit = Suc (Suc n)" using assms(2) by (metis Suc_diff_le add_2_eq_Suc diff_Suc_Suc diff_zero le_add_diff_inverse)
  let ?r = "get_affiliation_precedence_rule names conf source (nm_affiliation names aff) (Some (nm_status names status))"
  have rule: "case ?r of Value (Number n) \<Rightarrow> \<bar>n\<bar> \<le> B
     | Value (Range ns) \<Rightarrow> (length ns = 2 \<or> length ns = 3 \<and> 0 < ns ! 2 \<and> ns ! 2 \<le> S) \<and> \<bar>ns ! 0\<bar> \<le> B | _ \<Rightarrow> False"
    using assms(1) unfolding ranges_only_def by blast
  have kept: "\<bar>the old\<bar> \<le> C + S" if "old \<noteq> None" using that assms(3,5,6) by force
  from rule consider (number) k where "?r = Value (Number k)" "\<bar>k\<bar> \<le> B"
    | (range) ns where "?r = Value (Range ns)" "length ns = 2 \<or> length ns = 3 \<and> 0 < ns ! 2 \<and> ns ! 2 \<le> S" "\<bar>ns ! 0\<bar> \<le> B"
    by (auto split: prec_rule.splits prec.splits)
  then have "\<exists>q. calculate_affiliation_precedence (Suc n) names conf aff source status precs ?r old = Some (Inr q) \<and> \<bar>q\<bar> \<le> C + S"
  proof cases
    case (number k)
    then show ?thesis using assms(3,4) by simp
  next
    case (range ns)
    let ?step = "if length ns > 2 then ns ! 2 else 5"
    have step: "0 < ?step" "?step \<le> S" using range(2) assms(3) by auto
    obtain x where x: "new_spot (ns ! 0) (ns ! 1) ?step precs = Some x" using new_spot_free [OF step(1)] by blast
    have "\<bar>y\<bar> \<le> C" if "y = ns ! 0 \<or> y \<in> set precs" for y using that range(3) assms(4,5) by auto
    then have "\<bar>x\<bar> \<le> C \<or> \<bar>x - ?step\<bar> \<le> C" using new_spot_near [OF x] by blast
    then have "\<bar>x\<bar> \<le> C + S" using step assms(3) by linarith
    moreover have "length ns = 2 \<or> length ns = 3" using range(2) by blast
    ultimately show ?thesis using range(1,3) x kept assms(3,4) by (auto simp: Let_def)
  qed
  then show ?thesis using kept by (cases "old \<noteq> None \<and> old \<noteq> Some 0") (auto simp: limit Let_def simp del: calculate_affiliation_precedence.simps(2) intro: exI
        simp: calculate_affiliation_precedence.simps(2) [of "Suc n"])
qed

lemma raised_view [simp]:
  "is_active now (raised P person p r) = is_active now r" "(raised P person p r)\<lparr>af_precedence := q\<rparr> = r\<lparr>af_precedence := q\<rparr>"
  by (simp_all add: is_active_def) (simp add: shift_row_def)

lemma added_view:
  assumes "added db db' new f" "af_person new = self" "af_source new = source" "af_deleted new = None" "f = id \<or> f = raised P p q"
  shows "source_view now self source db' =
      {t \<in> source_view now self source db. (fst t, fst (snd t)) \<noteq> (af_ou new, af_affiliation new)} \<union> {(af_ou new, af_affiliation new, af_status new)}"
    "other_rows self source db' = other_rows self source db"
proof -
  have f: "aff_key (f r) = aff_key r" "af_person (f r) = af_person r" "af_ou (f r) = af_ou r" "af_affiliation (f r) = af_affiliation r"
    "af_source (f r) = af_source r" "af_status (f r) = af_status r" "is_active now (f r) = is_active now r" "(f r)\<lparr>af_precedence := 0\<rparr> = r\<lparr>af_precedence := 0\<rparr>" for r
    using assms(5) by auto
  have rows: "set (pa_sources db') = insert new (f ` {r \<in> set (pa_sources db). aff_key r \<noteq> aff_key new})" using assms(1) by (simp add: added_def)
  have new: "is_active now new" using assms(4) by (simp add: is_active_def)
  have key: "aff_key r \<noteq> aff_key new \<longleftrightarrow> (af_ou r, af_affiliation r) \<noteq> (af_ou new, af_affiliation new)" if "af_person r = self" "af_source r = source" for r
    using that assms(2,3) by (auto simp: aff_key_def)
  have "{r \<in> set (pa_sources db'). af_person r = self \<and> af_source r = source \<and> is_active now r} =
    insert new (f ` {r \<in> set (pa_sources db). (af_person r = self \<and> af_source r = source \<and> is_active now r) \<and> (af_ou r, af_affiliation r) \<noteq> (af_ou new, af_affiliation new)})"
    unfolding rows using assms(2,3) new key by (auto simp: f image_iff)
  then show "source_view now self source db' =
      {t \<in> source_view now self source db. (fst t, fst (snd t)) \<noteq> (af_ou new, af_affiliation new)} \<union> {(af_ou new, af_affiliation new, af_status new)}"
    unfolding source_view_def by (auto simp: image_image f image_iff)
  have "{r \<in> set (pa_sources db'). \<not> (af_person r = self \<and> af_source r = source)} = f ` {r \<in> set (pa_sources db). \<not> (af_person r = self \<and> af_source r = source)}"
    unfolding rows using assms(2,3) by (auto simp: f aff_key_def)
  then show "other_rows self source db' = other_rows self source db" unfolding other_rows_def by (simp add: image_image f)
qed

text \<open>Adding moves precedences up by at most one.\<close>

lemma added_precedences:
  assumes "added db db' new f" "f = id \<or> f = raised P p q" "\<forall>x \<in> precedences self db. \<bar>x\<bar> \<le> C" "\<bar>af_precedence new\<bar> \<le> C + S" "1 \<le> S"
  shows "\<forall>x \<in> precedences self db'. \<bar>x\<bar> \<le> C + S"
proof
  fix x
  assume "x \<in> precedences self db'"
  then obtain r where r: "r \<in> set (pa_sources db')" "af_person r = self" "x = af_precedence r" by (auto simp: numbers_def)
  then consider "r = new" | y where "y \<in> set (pa_sources db)" "r = f y" using assms(1) by (auto simp: added_def)
  then show "\<bar>x\<bar> \<le> C + S"
  proof cases
    case (2 y)
    then have "af_person y = self" "af_precedence r = af_precedence y \<or> af_precedence r = af_precedence y + 1"
      using assms(2) r(2) by (auto simp: shift_row_def split: if_splits)
    moreover from this have "\<bar>af_precedence y\<bar> \<le> C" using assms(3) 2(1) by (auto simp: numbers_def)
    ultimately show ?thesis using r(3) assms(5) by auto
  qed (use assms(4) r(3) in simp)
qed

definition view_added where
  "view_added now self source ou aff status db db' \<longleftrightarrow> wf_affs db' \<and> same_codes db db' \<and> other_rows self source db' = other_rows self source db \<and>
     source_view now self source db' = {t \<in> source_view now self source db. (fst t, fst (snd t)) \<noteq> (ou, aff)} \<union> {(ou, aff, status)}"

lemma view_addedI:
  assumes "added db db' new f" "aff_key new = (self, ou, aff, source)" "af_status new = status" "af_deleted new = None" "f = id \<or> f = raised P p q"
  shows "view_added now self source ou aff status db db'"
proof -
  have "af_person new = self" "af_source new = source" "af_ou new = ou" "af_affiliation new = aff" using assms(2) by (simp_all add: aff_key_def)
  then show ?thesis using added_view(1) [OF assms(1) _ _ assms(4,5), where now = now and self = self and source = source]
      added_view(2) [OF assms(1) _ _ assms(4,5), where self = self and source = source] assms(1,3) by (simp add: added_def view_added_def)
qed

lemma add_view:
  assumes "wf_affs db" "addable ou aff source status db" "ranges_only B S names conf source" "limit \<ge> 2" "5 \<le> S" "B \<le> C"
    "\<forall>x \<in> precedences self db. \<bar>x\<bar> \<le> C" "C + S < 1000000"
  shows "\<exists>what db'. add_affiliation limit now names conf self ou aff source status NoPrec db = Some (Inr (what, db')) \<and>
    view_added now self source ou aff status db db' \<and> (\<forall>x \<in> precedences self db'. \<bar>x\<bar> \<le> C + S)"
proof -
  let ?precs = "map af_precedence (own_rows self db)"
  let ?calc = "calculate_affiliation_precedence limit names conf aff source status ?precs (Value NoPrec)"
  define P where "P = precedences self db"
  have precs: "\<forall>p \<in> set ?precs. \<bar>p\<bar> \<le> C" using assms(7) by (auto simp: numbers_def)
  have small: "\<not> overflow P q" if "\<bar>q\<bar> \<le> C + S" for q using that assms(5,7,8) by (force simp: overflow_def P_def)
  show ?thesis
  proof (cases "(self, ou, aff, source) \<in> aff_key ` set (pa_sources db)")
    case True
    then obtain cur where cur: "cur \<in> set (pa_sources db)" "aff_key cur = (self, ou, aff, source)" by auto
    then have old: "\<forall>p. Some (af_precedence cur) = Some p \<longrightarrow> p \<in> set ?precs" by (auto simp: aff_key_def)
    obtain q where q: "?calc (Some (af_precedence cur)) = Some (Inr q)" "\<bar>q\<bar> \<le> C + S"
      using calculate_returns [OF assms(3-6) precs old] by blast
    let ?new = "cur\<lparr>af_status := status, af_last := now, af_deleted := None, af_precedence := q\<rparr>"
    let ?f = "if q = af_precedence cur then id else raised P self q"
    obtain what db' where db': "add_affiliation limit now names conf self ou aff source status NoPrec db = Some (Inr (what, db'))" "added db db' ?new ?f"
      using add_known [OF assms(1,2) cur P_def q(1) refl, of now] small [OF q(2)] by blast
    have f: "?f = id \<or> ?f = raised P self q" by simp
    have "view_added now self source ou aff status db db'" by (rule view_addedI [OF db'(2) _ _ _ f]) (use cur(2) in simp_all)
    moreover have "\<forall>x \<in> precedences self db'. \<bar>x\<bar> \<le> C + S" by (rule added_precedences [OF db'(2) f assms(7)]) (use q(2) assms(5) in simp_all)
    ultimately show ?thesis using db'(1) by blast
  next
    case False
    obtain q where q: "?calc None = Some (Inr q)" "\<bar>q\<bar> \<le> C + S" using calculate_returns [OF assms(3-6) precs, of None] by auto
    let ?new = "\<lparr>af_person = self, af_ou = ou, af_affiliation = aff, af_source = source, af_status = status, af_created = now, af_last = now,
       af_deleted = None, af_precedence = q\<rparr>"
    obtain db' where db': "add_affiliation limit now names conf self ou aff source status NoPrec db = Some (Inr (Some ''add'', db'))" "added db db' ?new (raised P self q)"
      using add_new [OF assms(1,2) False P_def q(1) refl, of now] small [OF q(2)] by blast
    have "view_added now self source ou aff status db db'" by (rule view_addedI [OF db'(2) _ _ _ disjI2 [OF refl]]) (simp_all add: aff_key_def)
    moreover have "\<forall>x \<in> precedences self db'. \<bar>x\<bar> \<le> C + S" by (rule added_precedences [OF db'(2) disjI2 [OF refl] assms(7)]) (use q(2) assms(5) in simp_all)
    ultimately show ?thesis using db'(1) by blast
  qed
qed

lemma add_all_view:
  assumes "ranges_only B S names conf source" "limit \<ge> 2" "5 \<le> S" "N = source_view now self source db \<union> set affs" "inj_on (\<lambda>t. (fst t, fst (snd t))) N"
    "wf_affs db" "\<And>ou aff st. (ou, aff, st) \<in> set affs \<Longrightarrow> addable ou aff source st db" "B \<le> C" "\<forall>x \<in> precedences self db. \<bar>x\<bar> \<le> C"
    "C + S * int (length affs) < 1000000"
  shows "\<exists>db'. add_all limit now names conf self source affs db = Some (Inr db') \<and> wf_affs db' \<and> same_codes db db' \<and>
    other_rows self source db' = other_rows self source db \<and> source_view now self source db' = N"
  using assms(4-10)
proof (induction affs arbitrary: db C)
  case (Cons t affs)
  obtain ou aff st where t: "t = (ou, aff, st)" by (cases t)
  have "S * int (length (t # affs)) = S + S * int (length affs)" by (simp add: algebra_simps)
  moreover have "0 \<le> S * int (length affs)" using assms(3) by simp
  ultimately have room: "C + S < 1000000" "(C + S) + S * int (length affs) < 1000000" using Cons.prems(7) by simp_all
  have "addable ou aff source st db" using Cons.prems(4) t by simp
  from add_view [OF Cons.prems(3) this assms(1-3) Cons.prems(5,6) room(1), of now] obtain what db1 where
    run: "add_affiliation limit now names conf self ou aff source st NoPrec db = Some (Inr (what, db1))" and
    db1: "view_added now self source ou aff st db db1" "\<forall>x \<in> precedences self db1. \<bar>x\<bar> \<le> C + S" by blast
  note view1 = db1(1) [unfolded view_added_def]
  have "x = (ou, aff, st)" if "x \<in> source_view now self source db" "(fst x, fst (snd x)) = (ou, aff)" for x
    by (rule inj_onD [OF Cons.prems(2)]) (use that Cons.prems(1) t in auto)
  then have view: "N = source_view now self source db1 \<union> set affs" using view1 unfolding Cons.prems(1) t by auto
  have known: "\<And>ou aff st. (ou, aff, st) \<in> set affs \<Longrightarrow> addable ou aff source st db1" using Cons.prems(4) addable_same [of db db1] view1 by simp
  have "wf_affs db1" "B \<le> C + S" using view1 Cons.prems(5) assms(3) by simp_all
  from Cons.IH [OF view Cons.prems(2) this(1) known this(2) db1(2) room(2)] show ?case
    using run t view1 by (auto simp: same_codes_def)
qed (simp add: same_codes_def)

text \<open>Deleting keeps precedences, so the table stays consistent; what was deleted is no longer in view.\<close>

lemma delete_view:
  assumes "wf_affs db" "(ou, aff, st) \<in> source_view now self source db"
  shows "\<exists>db'. delete_affiliation now self ou aff source db = Inr db' \<and> wf_affs db' \<and> precedences person db' = precedences person db \<and> same_codes db db' \<and> other_rows self source db' = other_rows self source db \<and>
    source_view now self source db' = source_view now self source db - {(ou, aff, st)}"
proof -
  let ?key = "(self, ou, aff, source)"
  let ?f = "\<lambda>r. if aff_key r = ?key then r\<lparr>af_deleted := Some now\<rparr> else r"
  let ?db = "pa_log_change self ''person_aff_src_del'' (db\<lparr>pa_sources := map ?f (pa_sources db)\<rparr>)"
  have rows: "unique_rows aff_key af_person af_precedence (pa_sources db)" using assms(1) by (simp add: wf_affs_def)
  obtain cur where cur: "cur \<in> set (pa_sources db)" "aff_key cur = ?key" "af_status cur = st"
    using assms(2) by (auto simp: source_view_def aff_key_def)
  have single: "filter (\<lambda>r. aff_key r = ?key) (pa_sources db) = [cur]"
    using filter_key_single [OF _ cur(1), of aff_key] rows cur(2) by (simp add: unique_rows_def)
  then have run: "delete_affiliation now self ou aff source db = Inr ?db" by (simp add: delete_affiliation_def query_1_def Let_def)
  have "map aff_key (map ?f (pa_sources db)) = map aff_key (pa_sources db)"
    "map (\<lambda>r. (af_person r, af_precedence r)) (map ?f (pa_sources db)) = map (\<lambda>r. (af_person r, af_precedence r)) (pa_sources db)" by simp_all
  then have "unique_rows aff_key af_person af_precedence (map ?f (pa_sources db))" using rows by (simp add: unique_rows_def del: map_map)
  then have wf: "wf_affs ?db" using assms(1) by (auto simp: wf_affs_def)
  have key: "aff_key r = ?key \<longleftrightarrow> af_ou r = ou \<and> af_affiliation r = aff" if "af_person r = self" "af_source r = source" for r
    using that by (simp add: aff_key_def)
  have "r = cur" if "r \<in> set (pa_sources db)" "aff_key r = ?key" for r using affs.key_unique [OF rows that(1) cur(1)] that(2) cur(2) by simp
  then have status: "af_status r = st" if "r \<in> set (pa_sources db)" "aff_key r = ?key" for r using that cur(3) by blast
  have "{r \<in> set (pa_sources ?db). af_person r = self \<and> af_source r = source \<and> is_active now r} =
    {r \<in> set (pa_sources db). (af_person r = self \<and> af_source r = source \<and> is_active now r) \<and> aff_key r \<noteq> ?key}"
    by (auto simp: is_active_def)
  then have view: "source_view now self source ?db = source_view now self source db - {(ou, aff, st)}"
    unfolding source_view_def using key status by (auto simp: image_iff)
  have "{r \<in> set (pa_sources ?db). \<not> (af_person r = self \<and> af_source r = source)} = {r \<in> set (pa_sources db). \<not> (af_person r = self \<and> af_source r = source)}"
    by (auto simp: aff_key_def)
  then have "other_rows self source ?db = other_rows self source db" by (simp add: other_rows_def)
  moreover have "af_person (?f r) = af_person r" "af_precedence (?f r) = af_precedence r" for r by simp_all
  then have "precedences person ?db = precedences person db" by (simp add: numbers_code filter_map comp_def)
  ultimately show ?thesis using run wf view by (simp add: same_codes_def)
qed


lemma delete_all_view:
  assumes "distinct affs" "set affs \<subseteq> source_view now self source db" "wf_affs db"
  shows "\<exists>db'. delete_all now self source affs db = Inr db' \<and> wf_affs db' \<and> precedences person db' = precedences person db \<and> same_codes db db' \<and> other_rows self source db' = other_rows self source db \<and>
    source_view now self source db' = source_view now self source db - set affs"
  using assms
proof (induction affs arbitrary: db)
  case (Cons t affs)
  obtain ou aff st where t: "t = (ou, aff, st)" by (cases t)
  obtain db1 where db1: "delete_affiliation now self ou aff source db = Inr db1" "wf_affs db1" "precedences person db1 = precedences person db" "same_codes db db1" "other_rows self source db1 = other_rows self source db"
    "source_view now self source db1 = source_view now self source db - {t}"
    using delete_view [OF Cons.prems(3), of ou aff st now self source person] Cons.prems(2) t by auto
  have "set affs \<subseteq> source_view now self source db1" using Cons.prems(1,2) db1(6) by auto
  from Cons.IH [OF _ this db1(2)] Cons.prems(1) obtain db2 where "delete_all now self source affs db1 = Inr db2" "wf_affs db2" "precedences person db2 = precedences person db1" "same_codes db1 db2"
    "other_rows self source db2 = other_rows self source db1" "source_view now self source db2 = source_view now self source db1 - set affs" by auto
  then show ?case using db1 t by (auto simp: same_codes_def)
qed (simp add: same_codes_def)

lemma read_affiliations_distinct: "read_affiliations get_affiliation db tuples = Inr new \<Longrightarrow> distinct new"
  by (induction tuples arbitrary: new rule: read_affiliations.induct)
    (auto simp: res_bind_eq_Inr distinct_insert split: option.splits if_splits)

text \<open>
  C18: a synchronisation of affiliations raises what reading the delivered values raises. Otherwise, if each affiliation is
  delivered with one status and with codes the database knows, the configuration has a number or a range for all of them, and precedences stay
  below the six digits of their column even when each addition takes a step beyond the largest, it returns: the person then has from
  the source exactly the delivered affiliations, and the rows of other persons and other sources only change their precedence.
\<close>

theorem affiliation_sync_exact:
  assumes "wf_affs db" "ranges_only B S names conf source" "limit \<ge> 2" "\<And>xs. set (order xs) = set xs" "\<And>xs. distinct xs \<Longrightarrow> distinct (order xs)"
    "\<forall>p \<in> precedences self db. \<bar>p\<bar> \<le> B" "5 \<le> S"
    "\<forall>new. read_affiliations get_affiliation db tuples = Inr new \<longrightarrow> B + S * int (length new) < 1000000 \<and>
       inj_on (\<lambda>t. (fst t, fst (snd t))) (set new) \<and> (\<forall>(ou, aff, st) \<in> set new. addable ou aff source st db)"
  shows "case read_affiliations get_affiliation db tuples of
      Inl e \<Rightarrow> affiliation_sync limit now names conf get_affiliation order source self tuples db = Some (Inl e)
    | Inr new \<Rightarrow> (\<exists>changes db'. affiliation_sync limit now names conf get_affiliation order source self tuples db = Some (Inr (changes, db')) \<and>
        wf_affs db' \<and> source_view now self source db' = set new \<and> other_rows self source db' = other_rows self source db)"
proof (cases "read_affiliations get_affiliation db tuples")
  case (Inl e)
  then show ?thesis by (simp add: affiliation_sync_def)
next
  case (Inr new)
  let ?V = "source_view now self source db"
  define rows where "rows = sort_key af_precedence (filter (\<lambda>r. (af_person r = self \<and> af_source r = source) \<and> is_active now r) (pa_sources db))"
  define cur where "cur = remdups (map (\<lambda>r. (af_ou r, af_affiliation r, af_status r)) rows)"
  define gone where "gone = order (filter (\<lambda>a. a \<notin> set new) cur)"
  have cur: "distinct cur" "set cur = ?V" by (auto simp: cur_def rows_def source_view_def)
  have rows: "list_affiliations now (Some (One self)) (Some (One source)) None None None False db = Inr rows"
    by (simp add: list_affiliations_def in_codes_def Let_def rows_def conj_ac)
  have new: "inj_on (\<lambda>t. (fst t, fst (snd t))) (set new)" "\<And>ou aff st. (ou, aff, st) \<in> set new \<Longrightarrow> addable ou aff source st db"
    "B + S * int (length new) < 1000000" using assms(8) Inr by auto
  have "length (order new) = card (set (order new))" using assms(5) read_affiliations_distinct [OF Inr] by (simp add: distinct_card)
  also have "\<dots> = length new" using assms(4) read_affiliations_distinct [OF Inr] by (simp add: distinct_card)
  finally have room: "B + S * int (length (order new)) < 1000000" using new(3) by simp
  have "distinct gone" "set gone = ?V - set new" using cur assms(4,5) by (auto simp: gone_def)
  then obtain db1 where db1: "delete_all now self source gone db = Inr db1" "wf_affs db1" "precedences self db1 = precedences self db"
    "same_codes db db1" "other_rows self source db1 = other_rows self source db" "source_view now self source db1 = ?V \<inter> set new"
    using delete_all_view [OF _ _ assms(1), of gone now self source self] by (auto simp: Diff_Diff_Int)
  have run: "affiliation_sync limit now names conf get_affiliation order source self tuples db =
    map_option (\<lambda>r. res_bind r (\<lambda>db2. Inr ((set new - set cur, set new \<inter> set cur, set cur - set new), db2)))
      (add_all limit now names conf self source (order new) db1)"
    unfolding affiliation_sync_def Inr rows res_bind_Inr cur_def [symmetric] sum.case prod.case Let_def gone_def [symmetric] db1(1) by (rule refl)
  have all: "set new = source_view now self source db1 \<union> set (order new)" using db1(6) assms(4) by auto
  have known: "\<And>ou aff st. (ou, aff, st) \<in> set (order new) \<Longrightarrow> addable ou aff source st db1" using new(2) addable_same [OF db1(4)] assms(4) by simp
  from add_all_view [OF assms(2,3,7) all new(1) db1(2) known order_refl _ room, unfolded db1(3), OF _ assms(6)] obtain db' where
    "add_all limit now names conf self source (order new) db1 = Some (Inr db')" "wf_affs db'" "other_rows self source db' = other_rows self source db1"
    "source_view now self source db' = set new" by blast
  then show ?thesis using run Inr db1(5) by auto
qed

text \<open>
  C19: adding an affiliation with a precedence gives it the status and that precedence; those of the person in its way move up by one, as
  far as they follow each other without a gap, and no two change their order.
\<close>

theorem add_affiliation_exact:
  assumes "wf_affs db" "addable ou aff source status db" "P = precedences self db" "\<bar>p\<bar> < 1000000" "\<forall>q \<in> P. \<bar>q + 1\<bar> < 1000000" "limit \<ge> 1"
  shows "\<exists>what db' new f. add_affiliation limit now names conf self ou aff source status (Number p) db = Some (Inr (what, db')) \<and> added db db' new f \<and>
    aff_key new = (self, ou, aff, source) \<and> af_status new = status \<and> af_deleted new = None \<and> af_precedence new = p \<and> (f = id \<or> f = raised P self p) \<and>
    (\<forall>r \<in> set (pa_sources db). \<forall>x \<in> set (pa_sources db). af_person r = self \<and> af_person x = self \<and> af_precedence r < af_precedence x \<longrightarrow>
      af_precedence (f r) < af_precedence (f x))"
proof -
  obtain n where limit: "limit = Suc n" using assms(6) by (cases limit) auto
  have calc: "calculate_affiliation_precedence limit names conf aff source status precs (Value (Number p)) old = Some (Inr p)" for precs old
    by (simp add: limit)
  have small: "\<not> overflow P p" using assms(4,5) by (auto simp: overflow_def)
  have order: "af_precedence (f r) < af_precedence (f x)"
    if "f = id \<or> f = raised P self p" "r \<in> set (pa_sources db)" "x \<in> set (pa_sources db)" "af_person r = self" "af_person x = self" "af_precedence r < af_precedence x" for f r x
    using that affs.shift_order [of r P x self p] assms(3) by (auto simp: numbers_def)
  show ?thesis
  proof (cases "(self, ou, aff, source) \<in> aff_key ` set (pa_sources db)")
    case True
    then obtain cur where cur: "cur \<in> set (pa_sources db)" "aff_key cur = (self, ou, aff, source)" by auto
    let ?f = "if p = af_precedence cur then id else raised P self p"
    let ?new = "cur\<lparr>af_status := status, af_last := now, af_deleted := None, af_precedence := p\<rparr>"
    have f: "?f = id \<or> ?f = raised P self p" by simp
    obtain what db' where "add_affiliation limit now names conf self ou aff source status (Number p) db = Some (Inr (what, db'))" "added db db' ?new ?f"
      using add_known [OF assms(1,2) cur assms(3) calc refl, of now] small by blast
    then show ?thesis using f order [OF f] cur(2)
      by (intro exI [where x = what] exI [where x = db'] exI [where x = ?new] exI [where x = ?f]) (simp del: if_split_eq1)
  next
    case False
    let ?new = "\<lparr>af_person = self, af_ou = ou, af_affiliation = aff, af_source = source, af_status = status, af_created = now, af_last = now,
       af_deleted = None, af_precedence = p\<rparr>"
    obtain db' where "add_affiliation limit now names conf self ou aff source status (Number p) db = Some (Inr (Some ''add'', db'))" "added db db' ?new (raised P self p)"
      using add_new [OF assms(1,2) False assms(3) calc refl, of now] small by blast
    then show ?thesis using order [of "raised P self p"]
      by (intro exI [where x = "Some ''add''"] exI [where x = db'] exI [where x = ?new] exI [where x = "raised P self p"]) (simp add: aff_key_def)
  qed
qed

text \<open>A person with an affiliation from each of two sources, whose precedences follow each other.\<close>

definition example_affs :: aff_db where
  "example_affs = \<lparr>pa_ous = [10, 11], pa_codes = [1], pa_statuses = [(1, 5), (1, 6)], pa_systems = [3, 4], pa_affiliations = [(100, 10, 1)], pa_types = [],
     pa_sources = [\<lparr>af_person = 100, af_ou = 10, af_affiliation = 1, af_source = 3, af_status = 5, af_created = 0, af_last = 0, af_deleted = None, af_precedence = 200\<rparr>,
       \<lparr>af_person = 100, af_ou = 10, af_affiliation = 1, af_source = 4, af_status = 5, af_created = 0, af_last = 0, af_deleted = None, af_precedence = 201\<rparr>],
     pa_log = []\<rparr>"

definition example_names :: aff_names where
  "example_names = \<lparr>nm_source = (\<lambda>_. ''SAP''), nm_affiliation = (\<lambda>_. ''ANSATT''), nm_status = (\<lambda>_. ''vit'')\<rparr>"

lemma example_affs_wf: "wf_affs example_affs"
  by (simp add: wf_affs_def example_affs_def unique_rows_def aff_key_def)

lemma example_ranges: "ranges_only 201 5 example_names [(''*'', Value (Range [200, 300]))] source"
  by (simp add: ranges_only_def get_affiliation_precedence_rule_def example_names_def)

text \<open>The source delivers another unit, with another status.\<close>

theorem affiliation_sync_exact_witness:
  "\<exists>changes db'. affiliation_sync 2 9 example_names [(''*'', Value (Range [200, 300]))] (\<lambda>v. Inr (1, Some v)) id 3 100 [(6, 11)] example_affs =
     Some (Inr (changes, db')) \<and> wf_affs db' \<and> source_view 9 100 3 db' = {(11, 1, 6)} \<and> other_rows 100 3 db' = other_rows 100 3 example_affs"
proof -
  have new: "read_affiliations (\<lambda>v. Inr (1, Some v)) example_affs [(6, 11)] = Inr [(11, 1, 6)]" by (simp add: example_affs_def)
  have "addable 11 1 3 6 example_affs" by (simp add: addable_def example_affs_def)
  moreover have "\<forall>p \<in> precedences 100 example_affs. \<bar>p\<bar> \<le> 201" by (auto simp: numbers_def example_affs_def)
  ultimately show ?thesis
    using affiliation_sync_exact [OF example_affs_wf example_ranges [of 3], of 2 id 100 "\<lambda>v. Inr (1, Some v)" "[(6, 11)]" 9]
    by (simp add: new del: read_affiliations.simps)
qed

theorem add_affiliation_exact_witness:
  "\<exists>what db' new f. add_affiliation 1 9 example_names [] 100 11 1 3 6 (Number 200) example_affs = Some (Inr (what, db')) \<and> added example_affs db' new f \<and>
     aff_key new = (100, 11, 1, 3) \<and> af_status new = 6 \<and> af_precedence new = 200 \<and> (f = id \<or> f = raised {200, 201} 100 200)"
proof -
  have "precedences 100 example_affs = set (map af_precedence (filter (\<lambda>r. af_person r = 100) (pa_sources example_affs)))" by (simp add: numbers_def)
  then have P: "{200, 201} = precedences 100 example_affs" by (simp add: example_affs_def)
  have "addable 11 1 3 6 example_affs" by (simp add: addable_def example_affs_def)
  from add_affiliation_exact [OF example_affs_wf this P, of 200 1 9 example_names "[]"] show ?thesis by auto
qed

end
