(* ===== verification/Settings.thy ===== *)
theory Settings
  imports Complex_Main Py_Strings "HOL-Library.List_Lexorder" "HOL-Library.Char_ord"
begin

text \<open>
  Settings and configurations: \<^verbatim>\<open>settings.py\<close>, \<^verbatim>\<open>configuration.py\<close> and \<^verbatim>\<open>errors.py\<close> of \<^verbatim>\<open>src/Cerebrum/config\<close>. A class of
  configurations is the list of its settings by name, inherited ones included; an object is the dictionary of its attributes,
  in which a setting that has not been used is missing. A setting carries the arguments of its constructor, the default last; a
  regular expression is what it matches, and finite floating point numbers are rationals. What the file system answers is an argument.

  Sets as values, configuration objects outside namespaces and lists, objects of subclasses in a namespace, and keys that are the name
  of a method do not occur. A dictionary is listed in the order in which Python goes through it.
\<close>

section \<open>Values\<close>

datatype val =
    NotSet
  | NoneVal
  | BoolVal bool
  | IntVal int
  | FloatVal rat
  | StrVal string
  | ListVal "val list"
  | TupleVal "val list"
  | DictVal "(string \<times> val) list"
  | ConfVal string "(string \<times> val) list"

text \<open>An exception; that of a configuration has the exceptions of its settings by their path.\<close>

datatype conf_exc = Exc py_error | ConfigurationError "(string \<times> py_error) list"

fun set_error :: "string \<Rightarrow> conf_exc \<Rightarrow> (string \<times> py_error) list \<Rightarrow> (string \<times> py_error) list" where
  "set_error key (ConfigurationError subs) errors = fold (\<lambda>(sub, e). dict_set (key @ ''.'' @ sub) e) subs errors"
| "set_error key (Exc e) errors = dict_set key e errors"

fun num_val :: "val \<Rightarrow> rat option" where
  "num_val (BoolVal b) = Some (if b then 1 else 0)"
| "num_val (IntVal i) = Some (of_int i)"
| "num_val (FloatVal r) = Some r"
| "num_val _ = None"

fun hashable :: "val \<Rightarrow> bool" where
  "hashable (ListVal _) = False"
| "hashable (DictVal _) = False"
| "hashable (TupleVal vs) = list_all hashable vs"
| "hashable _ = True"

text \<open>Two hashable values are equal when these forms are.\<close>

fun hash_form :: "val \<Rightarrow> val" where
  "hash_form (BoolVal b) = FloatVal (if b then 1 else 0)"
| "hash_form (IntVal i) = FloatVal (of_int i)"
| "hash_form (TupleVal vs) = TupleVal (map hash_form vs)"
| "hash_form v = v"

fun as_list :: "val \<Rightarrow> val" where
  "as_list (TupleVal vs) = ListVal vs"
| "as_list v = v"

text \<open>What a loop over a value goes through.\<close>

fun iterate :: "val \<Rightarrow> py_error + val list" where
  "iterate (ListVal vs) = Inr vs"
| "iterate (TupleVal vs) = Inr vs"
| "iterate (StrVal s) = Inr (map (\<lambda>c. StrVal [c]) s)"
| "iterate (DictVal d) = Inr (map (\<lambda>p. StrVal (fst p)) d)"
| "iterate _ = Inl TypeError"

section \<open>Settings\<close>

record string_rule =
  sr_regex :: "(string \<Rightarrow> bool) option"
  sr_minlen :: "int option"
  sr_maxlen :: "int option"

record permissions =
  pm_read :: "bool option"
  pm_write :: "bool option"
  pm_execute :: "bool option"

datatype setting =
    Setting val
  | Numeric "rat option" "rat option" val
  | Integer "rat option" "rat option" val
  | String string_rule val
  | FilePath string_rule permissions val
  | Choice "val list" val
  | Boolean val
  | Iterable setting "int option" "int option" val
  | Namespace string "(string \<times> setting) list"

record path_env =
  os_isfile :: "string \<Rightarrow> bool"
  os_read :: "string \<Rightarrow> bool"
  os_write :: "string \<Rightarrow> bool"
  os_execute :: "string \<Rightarrow> bool"

fun setting_default :: "setting \<Rightarrow> val" where
  "setting_default (Setting d) = d"
| "setting_default (Numeric _ _ d) = d"
| "setting_default (Integer _ _ d) = d"
| "setting_default (String _ d) = d"
| "setting_default (FilePath _ _ d) = d"
| "setting_default (Choice _ d) = d"
| "setting_default (Boolean d) = d"
| "setting_default (Iterable _ _ _ d) = d"
| "setting_default (Namespace name _) = ConfVal name []"

fun valid_type :: "setting \<Rightarrow> val \<Rightarrow> bool" where
  "valid_type (Setting _) v = True"
| "valid_type (Choice _ _) v = True"
| "valid_type (Numeric _ _ _) v = (num_val v \<noteq> None)"
| "valid_type (Integer _ _ _) v = (case v of BoolVal _ \<Rightarrow> True | IntVal _ \<Rightarrow> True | _ \<Rightarrow> False)"
| "valid_type (String _ _) v = (case v of StrVal _ \<Rightarrow> True | _ \<Rightarrow> False)"
| "valid_type (FilePath _ _ _) v = (case v of StrVal _ \<Rightarrow> True | NotSet \<Rightarrow> True | _ \<Rightarrow> False)"
| "valid_type (Boolean _) v = (case v of BoolVal _ \<Rightarrow> True | _ \<Rightarrow> False)"
| "valid_type (Iterable _ _ _ _) v = (case v of ListVal _ \<Rightarrow> True | TupleVal _ \<Rightarrow> True | _ \<Rightarrow> False)"
| "valid_type (Namespace _ _) v = (case v of ConfVal _ _ \<Rightarrow> True | _ \<Rightarrow> False)"

text \<open>The result is whether the value needs no further validation.\<close>

definition validate_type :: "setting \<Rightarrow> val \<Rightarrow> conf_exc + bool" where
  "validate_type s v =
     (if setting_default s = NoneVal \<and> v = NoneVal then Inr True
      else if valid_type s v then Inr False
      else Inl (Exc TypeError))"

definition check_bounds :: "rat option \<Rightarrow> rat option \<Rightarrow> val \<Rightarrow> conf_exc + bool" where
  "check_bounds minval maxval v =
     (case num_val v of
        None \<Rightarrow> Inl (Exc TypeError)
      | Some x \<Rightarrow>
          if (case minval of None \<Rightarrow> False | Some m \<Rightarrow> m > x) then Inl (Exc ValueError)
          else if (case maxval of None \<Rightarrow> False | Some m \<Rightarrow> m < x) then Inl (Exc ValueError)
          else Inr False)"

definition check_string :: "string_rule \<Rightarrow> val \<Rightarrow> conf_exc + bool" where
  "check_string r v =
     (let given = (\<lambda>len. len \<noteq> None \<and> len \<noteq> Some 0)
      in case v of
           StrVal t \<Rightarrow>
             if given (sr_minlen r) \<and> the (sr_minlen r) > int (length t) then Inl (Exc ValueError)
             else if given (sr_maxlen r) \<and> the (sr_maxlen r) < int (length t) then Inl (Exc ValueError)
             else if (case sr_regex r of None \<Rightarrow> False | Some matches \<Rightarrow> \<not> matches t) then Inl (Exc ValueError)
             else Inr False
         | _ \<Rightarrow> if given (sr_minlen r) \<or> given (sr_maxlen r) \<or> sr_regex r \<noteq> None then Inl (Exc TypeError) else Inr False)"

definition check_path :: "path_env \<Rightarrow> permissions \<Rightarrow> val \<Rightarrow> conf_exc + bool" where
  "check_path env p v =
     (let differs = (\<lambda>wanted actual. wanted \<noteq> None \<and> actual \<noteq> the wanted)
      in case v of
           StrVal t \<Rightarrow>
             if \<not> os_isfile env t then Inl (Exc ValueError)
             else if differs (pm_read p) (os_read env t) then Inl (Exc ValueError)
             else if differs (pm_write p) (os_write env t) then Inl (Exc ValueError)
             else if differs (pm_execute p) (os_execute env t) then Inl (Exc ValueError)
             else Inr False
         | _ \<Rightarrow> Inr False)"

definition check_choice :: "val list \<Rightarrow> val \<Rightarrow> conf_exc + bool" where
  "check_choice choices v =
     (if \<not> hashable v then Inl (Exc TypeError)
      else if hash_form v \<notin> hash_form ` set choices then Inl (Exc ValueError)
      else Inr False)"

definition check_length :: "int option \<Rightarrow> int option \<Rightarrow> val list \<Rightarrow> conf_exc + bool" where
  "check_length min_items max_items vs =
     (if (case min_items of None \<Rightarrow> False | Some m \<Rightarrow> m > int (length vs)) then Inl (Exc ValueError)
      else if (case max_items of None \<Rightarrow> False | Some m \<Rightarrow> m < int (length vs)) then Inl (Exc ValueError)
      else Inr False)"

definition get_value :: "setting \<Rightarrow> val \<Rightarrow> val" where
  "get_value s value =
     (let v = (if value \<noteq> NotSet then value else setting_default s)
      in case s of
           Namespace _ _ \<Rightarrow> value
         | Iterable _ _ _ _ \<Rightarrow> as_list v
         | _ \<Rightarrow> v)"

section \<open>Configurations\<close>

text \<open>
  The descriptor makes an instance of a setting when its attribute is first used: it has no value, except that
  of a namespace, which is a new object.
\<close>

definition init_value :: "setting \<Rightarrow> val" where
  "init_value s = (case s of Namespace name _ \<Rightarrow> ConfVal name [] | _ \<Rightarrow> NotSet)"

definition get_instance :: "setting \<Rightarrow> string \<Rightarrow> (string \<times> val) list \<Rightarrow> val" where
  "get_instance s attr obj = (case map_of obj attr of None \<Rightarrow> init_value s | Some v \<Rightarrow> v)"

definition get_attr :: "setting \<Rightarrow> string \<Rightarrow> (string \<times> val) list \<Rightarrow> val" where
  "get_attr s attr obj = get_value s (get_instance s attr obj)"

definition split_path :: "string \<Rightarrow> string \<times> string option" where
  "split_path item =
     (takeWhile (\<lambda>c. c \<noteq> CHR ''.'') item,
      if CHR ''.'' \<in> set item then Some (tl (dropWhile (\<lambda>c. c \<noteq> CHR ''.'') item)) else None)"

lemma split_path_shorter: "snd (split_path item) = Some rest \<Longrightarrow> length rest < length item"
proof -
  assume "snd (split_path item) = Some rest"
  then have "CHR ''.'' \<in> set item" "rest = tl (dropWhile (\<lambda>c. c \<noteq> CHR ''.'') item)" by (auto simp: split_path_def split: if_splits)
  then show ?thesis using length_dropWhile_le [of "\<lambda>c. c \<noteq> CHR ''.''" item] by (cases item) auto
qed

text \<open>The setting an item names in an object, its value, and what follows the first dot.\<close>

definition config_item :: "(string \<times> setting) list \<Rightarrow> string \<Rightarrow> (string \<times> val) list \<Rightarrow> conf_exc + setting \<times> val \<times> string" where
  "config_item specs item obj =
     (let (attr, rest) = split_path item; rest = (case rest of None \<Rightarrow> '''' | Some r \<Rightarrow> r)
      in case map_of specs attr of
           None \<Rightarrow> Inl (Exc KeyError)
         | Some s \<Rightarrow>
             (case (s, get_attr s attr obj) of
                (Namespace _ _, ConfVal n vs) \<Rightarrow> Inr (s, ConfVal n vs, rest)
              | (_, v) \<Rightarrow> if rest \<noteq> '''' then Inl (Exc KeyError) else Inr (s, v, rest)))"

lemma config_item_shorter: "config_item specs item obj = Inr (s, v, rest) \<Longrightarrow> rest \<noteq> [] \<Longrightarrow> length rest < length item"
  using split_path_shorter [of item rest]
  by (cases "split_path item") (auto simp: config_item_def Let_def split: option.splits setting.splits val.splits if_splits)

function get_item :: "(string \<times> setting) list \<Rightarrow> string \<Rightarrow> (string \<times> val) list \<Rightarrow> conf_exc + val" where
  "get_item specs item obj =
     res_bind (config_item specs item obj) (\<lambda>(s, v, rest).
       if rest \<noteq> '''' then
         (case (s, v) of
            (Namespace _ nested, ConfVal _ vs) \<Rightarrow> get_item nested rest vs
          | _ \<Rightarrow> Inl (Exc KeyError))
       else Inr v)"
  by pat_completeness auto

termination
  by (relation "measure (\<lambda>(_, item, _). length item)") (auto intro: config_item_shorter)

declare get_item.simps [simp del]

text \<open>
  Setting an item goes to the nested object as well; \<open>setv\<close> is the method \<^verbatim>\<open>set_value\<close> of settings. An item that ends with a dot names a
  setting when it is read, but is itself the name of the attribute that is written.
\<close>

function set_item ::
    "(setting \<Rightarrow> val \<Rightarrow> conf_exc + val) \<Rightarrow> (string \<times> setting) list \<Rightarrow> string \<Rightarrow> val \<Rightarrow> (string \<times> val) list \<Rightarrow> conf_exc + (string \<times> val) list" where
  "set_item setv specs item newval obj =
     res_bind (config_item specs item obj) (\<lambda>(s, v, rest).
       if rest \<noteq> '''' then
         (case (s, v) of
            (Namespace _ nested, ConfVal n vs) \<Rightarrow>
              res_bind (set_item setv nested rest newval vs) (\<lambda>vs'. Inr (dict_set (fst (split_path item)) (ConfVal n vs') obj))
          | _ \<Rightarrow> Inl (Exc KeyError))
       else if CHR ''.'' \<in> set item then Inr (dict_set item newval obj)
       else res_bind (setv s newval) (\<lambda>w. Inr (dict_set item w obj)))"
  by pat_completeness auto

termination
  by (relation "measure (\<lambda>(_, _, item, _). length item)") (auto intro: config_item_shorter)

declare set_item.simps [simp del]

function del_item :: "(string \<times> setting) list \<Rightarrow> string \<Rightarrow> (string \<times> val) list \<Rightarrow> conf_exc + (string \<times> val) list" where
  "del_item specs item obj =
     res_bind (config_item specs item obj) (\<lambda>(s, v, rest).
       if rest \<noteq> '''' then
         (case (s, v) of
            (Namespace _ nested, ConfVal n vs) \<Rightarrow>
              res_bind (del_item nested rest vs) (\<lambda>vs'. Inr (dict_set (fst (split_path item)) (ConfVal n vs') obj))
          | _ \<Rightarrow> Inl (Exc KeyError))
       else if CHR ''.'' \<in> set item then (if item \<in> set (keys obj) then Inr (dict_del item obj) else Inl (Exc AttributeError))
       else Inr (dict_set item (init_value s) obj))"
  by pat_completeness auto

termination
  by (relation "measure (\<lambda>(_, item, _). length item)") (auto intro: config_item_shorter)

declare del_item.simps [simp del]

text \<open>The setting of a class: the attributes of nested classes are those of new objects.\<close>

function get_setting :: "(string \<times> setting) list \<Rightarrow> string \<Rightarrow> conf_exc + setting" where
  "get_setting specs item =
     (case map_of specs (fst (split_path item)) of
        None \<Rightarrow> Inl (Exc AttributeError)
      | Some s \<Rightarrow>
          (case snd (split_path item) of
             Some (c # rest) \<Rightarrow>
               (case s of
                  Namespace _ nested \<Rightarrow> get_setting nested (c # rest)
                | _ \<Rightarrow> Inl (Exc AttributeError))
           | _ \<Rightarrow> Inr s))"
  by pat_completeness auto

termination
  by (relation "measure (\<lambda>(_, item). length item)") (auto dest: split_path_shorter)

declare get_setting.simps [simp del]

lemma dict_sizes [termination_simp]: "(k, v) \<in> set d \<Longrightarrow> size v < size (DictVal d)"
  by (induction d) auto

fun flatten_val :: "string \<Rightarrow> val \<Rightarrow> (string \<times> val) list" where
  "flatten_val newkey (DictVal d) =
     concat (map (\<lambda>(k, v). flatten_val (if newkey = '''' then k else newkey @ ''.'' @ k) v) (sort_key fst d))"
| "flatten_val newkey v = [(newkey, v)]"

definition flatten_dict :: "(string \<times> val) list \<Rightarrow> (string \<times> val) list" where
  "flatten_dict d = flatten_val '''' (DictVal d)"

text \<open>
  Loading goes through the flattened dictionary. What is known is the errors, the names that have been seen, and the
  object; \<open>unser\<close> and \<open>setv\<close> are the methods \<^verbatim>\<open>unserialize\<close> and \<^verbatim>\<open>set_value\<close> of settings.
\<close>

definition load_step ::
    "(setting \<Rightarrow> val \<Rightarrow> conf_exc + val) \<Rightarrow> (setting \<Rightarrow> val \<Rightarrow> conf_exc + val) \<Rightarrow> (string \<times> setting) list \<Rightarrow> string \<times> val \<Rightarrow>
     (string \<times> py_error) list \<times> string set \<times> (string \<times> val) list \<Rightarrow> (string \<times> py_error) list \<times> string set \<times> (string \<times> val) list" where
  "load_step unser setv specs item state =
     (let (name, value) = item; (errors, loaded, obj) = state
      in if name \<in> loaded then (set_error name (Exc ValueError) errors, loaded, obj)
         else if \<not> is_ok (config_item specs name obj) then (set_error name (Exc (OtherError ''Exception'')) errors, insert name loaded, obj)
         else case res_bind (get_setting specs name) (\<lambda>s. res_bind (unser s value) (\<lambda>v. set_item setv specs name v obj)) of
                Inl e \<Rightarrow> (set_error name e errors, insert name loaded, obj)
              | Inr obj' \<Rightarrow> (errors, insert name loaded, obj'))"

definition load_dict_with ::
    "(setting \<Rightarrow> val \<Rightarrow> conf_exc + val) \<Rightarrow> (setting \<Rightarrow> val \<Rightarrow> conf_exc + val) \<Rightarrow> (string \<times> setting) list \<Rightarrow> (string \<times> val) list \<Rightarrow>
     (string \<times> val) list \<Rightarrow> conf_exc option \<times> (string \<times> val) list" where
  "load_dict_with unser setv specs d obj =
     (let (errors, _, obj') = fold (load_step unser setv specs) (flatten_dict d) ([], {}, obj)
      in (if errors = [] then None else Some (ConfigurationError errors), obj'))"

definition validate_config_with :: "(setting \<Rightarrow> val \<Rightarrow> conf_exc + bool) \<Rightarrow> (string \<times> setting) list \<Rightarrow> (string \<times> val) list \<Rightarrow> (string \<times> py_error) list" where
  "validate_config_with validate specs obj =
     fold (\<lambda>(name, s) errors. case validate s (get_attr s name obj) of Inl e \<Rightarrow> set_error name e errors | Inr _ \<Rightarrow> errors) specs []"

text \<open>A new object with initial values, or the exception of its constructor.\<close>

definition new_config :: "string \<Rightarrow> conf_exc option \<times> (string \<times> val) list \<Rightarrow> conf_exc + val" where
  "new_config name r = (case r of (None, obj) \<Rightarrow> Inr (ConfVal name obj) | (Some e, _) \<Rightarrow> Inl e)"

text \<open>
  A namespace loads whatever it is given. A sequence is indexed with its own elements, smallest first, which raises
  sooner or later unless it is empty.
\<close>

fun index_error :: "val list \<Rightarrow> val list \<Rightarrow> py_error" where
  "index_error vs [] = TypeError"
| "index_error vs (k # ks) =
     (let index = (\<lambda>i. if - int (length vs) \<le> i \<and> i < int (length vs) then
              (case vs ! nat (i mod int (length vs)) of DictVal _ \<Rightarrow> index_error vs ks | _ \<Rightarrow> TypeError)
            else IndexError)
      in case k of IntVal i \<Rightarrow> index i | BoolVal b \<Rightarrow> index (if b then 1 else 0) | _ \<Rightarrow> TypeError)"

definition sequence_items :: "val list \<Rightarrow> conf_exc + (string \<times> val) list" where
  "sequence_items vs =
     (if vs = [] then Inr []
      else if NoneVal \<in> set vs then Inl (Exc TypeError)
      else Inl (Exc (index_error vs (sort_key (\<lambda>v. the (num_val v)) (filter (\<lambda>v. num_val v \<noteq> None) vs)))))"

fun namespace_items :: "val \<Rightarrow> conf_exc + (string \<times> val) list" where
  "namespace_items (DictVal d) = Inr d"
| "namespace_items (StrVal t) = (if t = [] then Inr [] else Inl (Exc TypeError))"
| "namespace_items (ListVal vs) = sequence_items vs"
| "namespace_items (TupleVal vs) = sequence_items vs"
| "namespace_items _ = Inl (Exc TypeError)"

fun map_res :: "('a \<Rightarrow> 'e + 'b) \<Rightarrow> 'a list \<Rightarrow> 'e + 'b list" where
  "map_res f [] = Inr []"
| "map_res f (x # xs) = res_bind (f x) (\<lambda>y. res_bind (map_res f xs) (\<lambda>ys. Inr (y # ys)))"

lemma map_res_cong [fundef_cong]: "xs = ys \<Longrightarrow> (\<And>x. x \<in> set ys \<Longrightarrow> f x = g x) \<Longrightarrow> map_res f xs = map_res g ys"
  by (induction ys arbitrary: xs) auto

definition lift_exc :: "py_error + 'a \<Rightarrow> conf_exc + 'a" where
  "lift_exc r = (case r of Inl e \<Rightarrow> Inl (Exc e) | Inr x \<Rightarrow> Inr x)"

text \<open>Whatever an operation on a class does with a setting, it does with one of its own.\<close>

definition size_specs :: "(string \<times> setting) list \<Rightarrow> nat" where
  "size_specs specs = size_list (size_prod (\<lambda>_. 0) size) specs"

lemma size_specs_mem: "(a, s) \<in> set specs \<Longrightarrow> size s < size_specs specs"
  by (induction specs) (auto simp: size_specs_def)

lemma size_namespace: "size (Namespace n specs) = Suc (size_specs specs)"
  by (simp add: size_specs_def)

lemma config_item_mem: "config_item specs item obj = Inr (s, v, rest) \<Longrightarrow> map_of specs (fst (split_path item)) = Some s"
  by (auto simp: config_item_def Let_def split: option.splits setting.splits val.splits if_splits prod.splits)

lemma spec_smaller: "map_of specs a = Some s \<Longrightarrow> size s < size_specs specs"
  by (blast intro: size_specs_mem map_of_SomeD)

lemma get_setting_smaller: "get_setting specs item = Inr s \<Longrightarrow> size s < size_specs specs"
proof (induction specs item rule: get_setting.induct)
  case (1 specs item)
  from 1(2) obtain s' where s': "map_of specs (fst (split_path item)) = Some s'" by (auto simp: get_setting.simps [of specs item] split: option.splits)
  have "s = s' \<or> (\<exists>n nested c rest. snd (split_path item) = Some (c # rest) \<and> s' = Namespace n nested \<and> get_setting nested (c # rest) = Inr s)"
    using 1(2) s' unfolding get_setting.simps [of specs item] by (auto split: option.splits list.splits setting.splits)
  then show ?case using spec_smaller [OF s'] 1(1) [OF s' _ refl] by (fastforce simp: size_namespace simp del: setting.size)
qed

lemma set_item_cong [fundef_cong]:
  assumes "specs = specs'" "item = item'" "v = v'" "obj = obj'" "\<And>s. size s < size_specs specs' \<Longrightarrow> setv s v' = setv' s v'"
  shows "set_item setv specs item v obj = set_item setv' specs' item' v' obj'"
  unfolding assms(1-4) using assms(5)
proof (induction setv specs' item' v' obj' rule: set_item.induct)
  case (1 setv specs item newval obj)
  show ?case
  proof (cases "config_item specs item obj")
    case (Inr r)
    then obtain s v rest where r: "config_item specs item obj = Inr (s, v, rest)" by (cases r) auto
    have s: "size s < size_specs specs" by (rule spec_smaller [OF config_item_mem [OF r]])
    have "set_item setv nested rest newval vs = set_item setv' nested rest newval vs" if "rest \<noteq> []" "s = Namespace n nested" "v = ConfVal m vs" for n m nested vs
      using 1(1) [OF r refl refl that(1) refl that(2,3)] 1(2) s that(2) by (auto simp: size_namespace simp del: setting.size)
    then show ?thesis using r 1(2) [OF s] unfolding set_item.simps [of setv specs] set_item.simps [of setv' specs] by (auto split: setting.splits val.splits)
  qed (simp add: set_item.simps)
qed

lemma load_step_cong:
  assumes "\<And>s v. size s < size_specs specs \<Longrightarrow> unser s v = unser' s v" "\<And>s v. size s < size_specs specs \<Longrightarrow> setv s v = setv' s v"
  shows "load_step unser setv specs item state = load_step unser' setv' specs item state"
proof -
  have "res_bind (get_setting specs name) (\<lambda>s. res_bind (unser s x) (\<lambda>v. set_item setv specs name v obj)) =
      res_bind (get_setting specs name) (\<lambda>s. res_bind (unser' s x) (\<lambda>v. set_item setv' specs name v obj))" for name x obj
    by (intro res_bind_cong refl set_item_cong) (simp_all add: assms get_setting_smaller)
  then show ?thesis by (cases item; cases state) (simp add: load_step_def)
qed

lemma load_dict_with_cong [fundef_cong]:
  assumes "specs = specs'" "d = d'" "obj = obj'" "\<And>s v. size s < size_specs specs' \<Longrightarrow> unser s v = unser' s v"
    "\<And>s v. size s < size_specs specs' \<Longrightarrow> setv s v = setv' s v"
  shows "load_dict_with unser setv specs d obj = load_dict_with unser' setv' specs' d' obj'"
proof -
  have "load_step unser setv specs = load_step unser' setv' specs'" unfolding assms(1) by (intro ext load_step_cong assms(4,5))
  then show ?thesis by (simp add: load_dict_with_def assms(1-3))
qed

lemma validate_config_with_cong [fundef_cong]:
  assumes "specs = specs'" "obj = obj'" "\<And>s v. size s < size_specs specs' \<Longrightarrow> validate s v = validate' s v"
  shows "validate_config_with validate specs obj = validate_config_with validate' specs' obj'"
  unfolding validate_config_with_def assms(1,2)
  by (rule fold_cong) (auto simp: assms(3) size_specs_mem)

function validate_setting :: "path_env \<Rightarrow> setting \<Rightarrow> val \<Rightarrow> conf_exc + bool"
  and set_value :: "path_env \<Rightarrow> setting \<Rightarrow> val \<Rightarrow> conf_exc + val"
  and unserialize :: "path_env \<Rightarrow> setting \<Rightarrow> val \<Rightarrow> conf_exc + val" where
  "validate_setting env s v =
     (case s of
        Namespace name specs \<Rightarrow>
          res_bind (case v of
              DictVal d \<Rightarrow> new_config name (load_dict_with (unserialize env) (set_value env) specs d [])
            | _ \<Rightarrow> Inr v) (\<lambda>value.
            case value of
              ConfVal cls obj \<Rightarrow>
                if cls \<noteq> name then Inl (Exc TypeError)
                else (case validate_config_with (validate_setting env) specs obj of
                        [] \<Rightarrow> Inr False
                      | e # es \<Rightarrow> Inl (ConfigurationError (e # es)))
            | _ \<Rightarrow> Inl (Exc TypeError))
      | _ \<Rightarrow>
          res_bind (validate_type s v) (\<lambda>ready.
            if ready then Inr True
            else case s of
                Numeric minval maxval _ \<Rightarrow> check_bounds minval maxval v
              | Integer minval maxval _ \<Rightarrow> check_bounds minval maxval v
              | String r _ \<Rightarrow> check_string r v
              | FilePath r p _ \<Rightarrow> res_bind (check_string r v) (\<lambda>_. check_path env p v)
              | Choice choices _ \<Rightarrow> check_choice choices v
              | Iterable template min_items max_items _ \<Rightarrow>
                  res_bind (lift_exc (iterate v)) (\<lambda>vs.
                  res_bind (check_length min_items max_items vs) (\<lambda>_.
                  res_bind (map_res (validate_setting env template) vs) (\<lambda>_. Inr False)))
              | _ \<Rightarrow> Inr False))"
| "set_value env s v =
     (case s of
        Namespace name specs \<Rightarrow>
          res_bind (case v of
              DictVal d \<Rightarrow> new_config name (load_dict_with (unserialize env) (set_value env) specs d [])
            | _ \<Rightarrow> Inr v) (\<lambda>value.
          res_bind (validate_setting env s value) (\<lambda>_. Inr value))
      | Iterable template _ _ _ \<Rightarrow>
          res_bind (case as_list v of
              ListVal vs \<Rightarrow> res_bind (map_res (\<lambda>item. res_bind (set_value env template item) (\<lambda>w. Inr (get_value template w))) vs) (\<lambda>ws. Inr (ListVal ws))
            | _ \<Rightarrow> Inr v) (\<lambda>value.
          res_bind (validate_setting env s value) (\<lambda>_. Inr value))
      | _ \<Rightarrow> res_bind (validate_setting env s v) (\<lambda>_. Inr v))"
| "unserialize env s v =
     (case s of
        Iterable template _ _ _ \<Rightarrow>
          res_bind (lift_exc (iterate v)) (\<lambda>vs. res_bind (map_res (unserialize env template) vs) (\<lambda>ws. Inr (ListVal ws)))
      | Namespace name specs \<Rightarrow>
          res_bind (namespace_items v) (\<lambda>d. new_config name (load_dict_with (unserialize env) (set_value env) specs d []))
      | _ \<Rightarrow> Inr v)"
  by pat_completeness auto

termination
  by (relation "measure (\<lambda>x. case x of Inl (_, s, _) \<Rightarrow> 2 * size s | Inr (Inl (_, s, _)) \<Rightarrow> 2 * size s + 1 | Inr (Inr (_, s, _)) \<Rightarrow> 2 * size s)")
    (auto simp: size_namespace simp del: setting.size(18))

declare validate_setting.simps [simp del] set_value.simps [simp del] unserialize.simps [simp del]

definition validate_config :: "path_env \<Rightarrow> (string \<times> setting) list \<Rightarrow> (string \<times> val) list \<Rightarrow> (string \<times> py_error) list" where
  "validate_config env = validate_config_with (validate_setting env)"

definition load_dict ::
    "path_env \<Rightarrow> (string \<times> setting) list \<Rightarrow> (string \<times> val) list \<Rightarrow> (string \<times> val) list \<Rightarrow> conf_exc option \<times> (string \<times> val) list" where
  "load_dict env = load_dict_with (unserialize env) (set_value env)"

function serialize :: "setting \<Rightarrow> val \<Rightarrow> conf_exc + val" where
  "serialize s v =
     (case s of
        Iterable template _ _ _ \<Rightarrow>
          res_bind (lift_exc (iterate v)) (\<lambda>vs. res_bind (map_res (serialize template) vs) (\<lambda>ws. Inr (ListVal ws)))
      | Namespace _ specs \<Rightarrow>
          (case v of
             ConfVal _ obj \<Rightarrow>
               res_bind (map_res (\<lambda>(name, t). res_bind (serialize t (get_attr t name obj)) (\<lambda>w. Inr (name, w))) specs) (\<lambda>d. Inr (DictVal d))
           | _ \<Rightarrow> Inl (Exc AttributeError))
      | _ \<Rightarrow> Inr v)"
  by pat_completeness auto

termination
  by (relation "measure (\<lambda>(s, _). size s)") (auto simp: size_namespace dest: size_specs_mem simp del: setting.size(18))

declare serialize.simps [simp del]

definition dump_dict :: "(string \<times> setting) list \<Rightarrow> (string \<times> val) list \<Rightarrow> conf_exc + (string \<times> val) list" where
  "dump_dict specs obj = map_res (\<lambda>(name, s). res_bind (serialize s (get_attr s name obj)) (\<lambda>w. Inr (name, w))) specs"

definition dump_flat :: "(string \<times> setting) list \<Rightarrow> (string \<times> val) list \<Rightarrow> conf_exc + (string \<times> val) list" where
  "dump_flat specs obj = res_bind (dump_dict specs obj) (\<lambda>d. Inr (flatten_dict d))"

fun list_ns_settings :: "(string \<times> setting) list \<Rightarrow> string list" where
  "list_ns_settings [] = []"
| "list_ns_settings ((attr, Namespace _ nested) # specs) = map (\<lambda>nsattr. attr @ ''.'' @ nsattr) (list_ns_settings nested) @ list_ns_settings specs"
| "list_ns_settings ((attr, _) # specs) = attr # list_ns_settings specs"

text \<open>What a reader sees of a value: the values or defaults of all settings of its objects.\<close>

function view_val :: "setting \<Rightarrow> val \<Rightarrow> val" where
  "view_val s v =
     (case (s, v) of
        (Iterable template _ _ _, ListVal vs) \<Rightarrow> ListVal (map (view_val template) vs)
      | (Namespace _ specs, ConfVal cls obj) \<Rightarrow> ConfVal cls (map (\<lambda>(name, t). (name, view_val t (get_attr t name obj))) specs)
      | _ \<Rightarrow> v)"
  by pat_completeness auto

termination
  by (relation "measure (\<lambda>(s, _). size s)") (auto simp: size_namespace dest: size_specs_mem simp del: setting.size(18))

declare view_val.simps [simp del]

definition view_config :: "(string \<times> setting) list \<Rightarrow> (string \<times> val) list \<Rightarrow> (string \<times> val) list" where
  "view_config specs obj = map (\<lambda>(name, s). (name, view_val s (get_attr s name obj))) specs"

section \<open>Reading files\<close>

text \<open>
  Loading into the object an item names: what the object becomes is seen by everyone who holds it, so the configurations around
  it change as well. An item that is no object is passed over.
\<close>

function load_item ::
    "path_env \<Rightarrow> (string \<times> setting) list \<Rightarrow> string \<Rightarrow> (string \<times> val) list \<Rightarrow> (string \<times> val) list \<Rightarrow> conf_exc option \<times> (string \<times> val) list" where
  "load_item env specs item d obj =
     (case config_item specs item obj of
        Inl e \<Rightarrow> (Some e, obj)
      | Inr (s, v, rest) \<Rightarrow>
          (case (s, v) of
             (Namespace _ nested, ConfVal n vs) \<Rightarrow>
               (let (r, vs') = (if rest \<noteq> '''' then load_item env nested rest d vs else load_dict env nested d vs)
                in (r, dict_set (fst (split_path item)) (ConfVal n vs') obj))
           | _ \<Rightarrow> (None, obj)))"
  by pat_completeness auto

termination
  by (relation "measure (\<lambda>(_, _, item, _). length item)") (auto intro: config_item_shorter)

declare load_item.simps [simp del]

definition file_sort_key :: "string option \<Rightarrow> string \<times> 'd \<Rightarrow> nat" where
  "file_sort_key root_ns f = (if Some (fst f) = root_ns then 0 else length (fst f))"

text \<open>A file is its name without the extension, and what the parser makes of it; a directory is the list of its files.\<close>

definition read_file ::
    "path_env \<Rightarrow> (string \<times> setting) list \<Rightarrow> string option \<Rightarrow> string \<times> (string \<times> val) list \<Rightarrow> (string \<times> val) list \<Rightarrow> conf_exc option \<times> (string \<times> val) list" where
  "read_file env specs root_ns f obj =
     (if Some (fst f) = root_ns then load_dict env specs (snd f) obj
      else if is_ok (config_item specs (fst f) obj) then load_item env specs (fst f) (snd f) obj
      else (None, obj))"

fun read_files ::
    "path_env \<Rightarrow> (string \<times> setting) list \<Rightarrow> string option \<Rightarrow> (string \<times> (string \<times> val) list) list \<Rightarrow> (string \<times> val) list \<Rightarrow> conf_exc option \<times> (string \<times> val) list" where
  "read_files env specs root_ns [] obj = (None, obj)"
| "read_files env specs root_ns (f # fs) obj =
     (case read_file env specs root_ns f obj of
        (Some e, obj') \<Rightarrow> (Some e, obj')
      | (None, obj') \<Rightarrow> read_files env specs root_ns fs obj')"

definition read_config_dirs ::
    "path_env \<Rightarrow> (string \<times> setting) list \<Rightarrow> string option \<Rightarrow> (string \<times> (string \<times> val) list) list list \<Rightarrow> (string \<times> val) list \<Rightarrow> conf_exc option \<times> (string \<times> val) list" where
  "read_config_dirs env specs root_ns dirs obj = read_files env specs root_ns (concat (map (sort_key (file_sort_key root_ns)) dirs)) obj"

end
