(* ===== verification/Configs.thy ===== *)
theory Configs
  imports Settings "HOL-Library.Multiset"
begin

text \<open>
  What holds of configurations: the values that are stored are always valid, so that validation finds only settings
  without an acceptable value of their own; dumping and loading is a round trip; and where loading surprises.
\<close>

section \<open>Paths\<close>

definition is_namespace :: "setting \<Rightarrow> bool" where
  "is_namespace s = (case s of Namespace _ _ \<Rightarrow> True | _ \<Rightarrow> False)"

lemma is_namespace_simp [simp]: "is_namespace (Namespace n specs)"
  by (simp add: is_namespace_def)

lemma is_namespace_cases: "is_namespace s \<Longrightarrow> (\<And>n specs. s = Namespace n specs \<Longrightarrow> P) \<Longrightarrow> P"
  by (cases s) (auto simp: is_namespace_def)

text \<open>A name of an attribute is not empty and has no dot.\<close>

definition attr_name :: "string \<Rightarrow> bool" where
  "attr_name a \<longleftrightarrow> a \<noteq> '''' \<and> CHR ''.'' \<notin> set a"

lemma split_attr [simp]: "attr_name a \<Longrightarrow> split_path a = (a, None)"
  by (simp add: attr_name_def split_path_def takeWhile_eq_all_conv) metis

lemma split_dot: "CHR ''.'' \<notin> set a \<Longrightarrow> split_path (a @ CHR ''.'' # k) = (a, Some k)"
  by (simp add: split_path_def takeWhile_append dropWhile_append)

lemma split_attr_dot [simp]: "attr_name a \<Longrightarrow> split_path (a @ CHR ''.'' # k) = (a, Some k)"
  by (simp add: attr_name_def split_dot)

lemma get_instance_set [simp]: "get_instance s b (dict_set a v obj) = (if b = a then v else get_instance s b obj)"
  by (simp add: get_instance_def)

lemma get_instance_empty [simp]: "get_instance s a [] = init_value s"
  by (simp add: get_instance_def)

lemma init_value_simps [simp]: "init_value (Namespace n specs) = ConfVal n []" "\<not> is_namespace s \<Longrightarrow> init_value s = NotSet"
  by (cases s; simp add: init_value_def is_namespace_def)+

lemma get_value_simps [simp]:
  "get_value (Namespace n specs) v = v" "get_value (Iterable t mn mx d) v = as_list (if v \<noteq> NotSet then v else d)"
  by (simp_all add: get_value_def)

lemma get_value_plain: "\<not> is_namespace s \<Longrightarrow> (\<forall>t mn mx d. s \<noteq> Iterable t mn mx d) \<Longrightarrow> get_value s v = (if v \<noteq> NotSet then v else setting_default s)"
  by (cases s) (auto simp: get_value_def is_namespace_def)

lemma get_attr_namespace [simp]: "get_attr (Namespace n specs) a obj = get_instance (Namespace n specs) a obj"
  by (simp add: get_attr_def)

section \<open>Validation of classes\<close>

text \<open>
  A class as Python can make it: the names are attribute names and different, and the default of a setting, unless it has none or is
  a path, has passed validation.
\<close>

function wf_setting :: "path_env \<Rightarrow> setting \<Rightarrow> bool" where
  "wf_setting env s =
     (case s of
        Namespace _ specs \<Rightarrow> distinct (keys specs) \<and> list_all (\<lambda>(a, t). attr_name a \<and> wf_setting env t) specs
      | Iterable t _ _ d \<Rightarrow> wf_setting env t \<and> (d = NotSet \<or> is_ok (validate_setting env s d))
      | FilePath _ _ _ \<Rightarrow> True
      | _ \<Rightarrow> setting_default s = NotSet \<or> is_ok (validate_setting env s (setting_default s)))"
  by pat_completeness auto

termination
  by (relation "measure (\<lambda>(_, s). size s)") (auto simp: size_namespace dest: size_specs_mem simp del: setting.size(18))

declare wf_setting.simps [simp del]

definition wf_class :: "path_env \<Rightarrow> (string \<times> setting) list \<Rightarrow> bool" where
  "wf_class env specs = wf_setting env (Namespace '''' specs)"

lemma wf_class_iff: "wf_class env specs \<longleftrightarrow> distinct (keys specs) \<and> (\<forall>(a, s) \<in> set specs. attr_name a \<and> wf_setting env s)"
  by (simp add: wf_class_def wf_setting.simps list_all_iff)

lemma wf_namespace [simp]: "wf_setting env (Namespace n specs) = wf_class env specs"
  by (simp add: wf_class_iff wf_setting.simps list_all_iff)

lemma wf_class_at: "wf_class env specs \<Longrightarrow> map_of specs a = Some s \<Longrightarrow> attr_name a \<and> wf_setting env s"
  using map_of_SomeD by (fastforce simp: wf_class_iff)

lemma wf_class_map_of: "wf_class env specs \<Longrightarrow> (a, s) \<in> set specs \<Longrightarrow> map_of specs a = Some s"
  by (simp add: wf_class_iff)

section \<open>Items\<close>

lemma config_item_attr:
  assumes "attr_name a" "map_of specs a = Some s"
  shows "config_item specs a obj = Inr (s, get_attr s a obj, '''')"
  using assms by (cases s; cases "get_attr s a obj") (simp_all add: config_item_def)

lemma config_item_nested:
  assumes "attr_name a" "map_of specs a = Some (Namespace n nested)" "get_instance (Namespace n nested) a obj = ConfVal m vs"
  shows "config_item specs (a @ CHR ''.'' # k) obj = Inr (Namespace n nested, ConfVal m vs, k)"
  using assms by (simp add: config_item_def)

lemma get_setting_attr: "attr_name a \<Longrightarrow> map_of specs a = Some s \<Longrightarrow> get_setting specs a = Inr s"
  by (simp add: get_setting.simps)

lemma get_setting_nested:
  "attr_name a \<Longrightarrow> map_of specs a = Some (Namespace n nested) \<Longrightarrow> k \<noteq> '''' \<Longrightarrow> get_setting specs (a @ CHR ''.'' # k) = get_setting nested k"
  by (cases k) (simp_all add: get_setting.simps [of specs])

lemma get_item_attr: "attr_name a \<Longrightarrow> map_of specs a = Some s \<Longrightarrow> get_item specs a obj = Inr (get_attr s a obj)"
  by (simp add: get_item.simps [of specs] config_item_attr)

lemma get_item_nested:
  assumes "attr_name a" "map_of specs a = Some (Namespace n nested)" "get_instance (Namespace n nested) a obj = ConfVal m vs" "k \<noteq> ''''"
  shows "get_item specs (a @ CHR ''.'' # k) obj = get_item nested k vs"
  by (simp add: get_item.simps [of specs] config_item_nested [OF assms(1-3)] assms(4))

lemma set_item_attr:
  "attr_name a \<Longrightarrow> map_of specs a = Some s \<Longrightarrow> set_item setv specs a v obj = res_bind (setv s v) (\<lambda>w. Inr (dict_set a w obj))"
  by (simp add: set_item.simps [of setv specs] config_item_attr attr_name_def)

lemma set_item_nested:
  assumes "attr_name a" "map_of specs a = Some (Namespace n nested)" "get_instance (Namespace n nested) a obj = ConfVal m vs" "k \<noteq> ''''"
  shows "set_item setv specs (a @ CHR ''.'' # k) v obj = res_bind (set_item setv nested k v vs) (\<lambda>vs'. Inr (dict_set a (ConfVal m vs') obj))"
  by (simp add: set_item.simps [of setv specs] config_item_nested [OF assms(1-3)] assms(1,4))

text \<open>What an item is: the name of an attribute, a path into a namespace, or one that ends with a dot.\<close>

lemma config_item_cases:
  assumes "config_item specs item obj = Inr (s, v, rest)"
  obtains (attr) "CHR ''.'' \<notin> set item" "fst (split_path item) = item" "rest = ''''" "map_of specs item = Some s"
  | (dot) "CHR ''.'' \<in> set item" "rest = ''''"
  | (nested) a n nested m vs where "item = a @ CHR ''.'' # rest" "fst (split_path item) = a" "rest \<noteq> ''''" "map_of specs a = Some s" "s = Namespace n nested"
      "v = ConfVal m vs" "get_instance s a obj = ConfVal m vs" "get_setting specs item = get_setting nested rest"
proof (cases "CHR ''.'' \<in> set item")
  case False
  then have "takeWhile (\<lambda>c. c \<noteq> CHR ''.'') item = item" by (simp add: takeWhile_eq_all_conv) metis
  then have split: "split_path item = (item, None)" using False by (simp add: split_path_def)
  have a: "map_of specs item = Some s" using config_item_mem [OF assms] split by simp
  have "rest = []" using assms a unfolding config_item_def split by (simp split: setting.splits val.splits)
  then show ?thesis using attr [OF False] a split by simp
next
  case True
  then obtain a k where item: "item = a @ CHR ''.'' # k" "CHR ''.'' \<notin> set a" by (auto dest: split_list_first)
  then have split: "split_path item = (a, Some k)" by (simp add: split_dot)
  have a: "map_of specs a = Some s" using config_item_mem [OF assms] split by simp
  have rest: "rest = k" using assms a unfolding config_item_def split by (simp split: setting.splits val.splits if_splits)
  show ?thesis
  proof (cases "k = []")
    case False
    have "is_namespace s \<and> (\<exists>m vs. v = ConfVal m vs \<and> get_attr s a obj = v)"
      using assms a False unfolding config_item_def split by (auto simp: is_namespace_def split: setting.splits val.splits dest: sym)
    then obtain n specs' m vs where s: "s = Namespace n specs'" "v = ConfVal m vs" "get_instance s a obj = v" by (auto elim: is_namespace_cases)
    have "get_setting specs item = get_setting specs' k" using a s(1) False by (cases k) (simp_all add: get_setting.simps [of specs] split)
    then show ?thesis using nested [of a n specs' m vs] item rest False a s split by simp
  qed (use dot True rest in simp)
qed

section \<open>Stored values are valid\<close>

inductive sound :: "path_env \<Rightarrow> setting \<Rightarrow> val \<Rightarrow> bool" for env where
  sound_unset: "\<not> is_namespace s \<Longrightarrow> sound env s NotSet"
| sound_valid: "\<not> is_namespace s \<Longrightarrow> is_ok (validate_setting env s v) \<Longrightarrow> sound env s v"
| sound_nested: "(\<And>a s. map_of specs a = Some s \<Longrightarrow> sound env s (get_instance s a obj)) \<Longrightarrow> sound env (Namespace n specs) (ConfVal n obj)"

inductive_simps sound_namespace_iff: "sound env (Namespace n specs) v"

definition sound_obj :: "path_env \<Rightarrow> (string \<times> setting) list \<Rightarrow> (string \<times> val) list \<Rightarrow> bool" where
  "sound_obj env specs obj \<longleftrightarrow> (\<forall>a s. map_of specs a = Some s \<longrightarrow> sound env s (get_instance s a obj))"

lemma sound_ConfVal: "sound env (Namespace n specs) v \<longleftrightarrow> (\<exists>obj. v = ConfVal n obj \<and> sound_obj env specs obj)"
  by (auto simp: sound_namespace_iff sound_obj_def)

lemma sound_init: "sound env s (init_value s)"
proof (induction "size s" arbitrary: s rule: less_induct)
  case less
  show ?case
  proof (cases "is_namespace s")
    case True
    then obtain n specs where s: "s = Namespace n specs" by (rule is_namespace_cases)
    have "sound env t (init_value t)" if "map_of specs a = Some t" for a t
      using less [of t] spec_smaller [OF that] s by (simp add: size_namespace del: setting.size)
    then show ?thesis by (simp add: s sound_ConfVal sound_obj_def)
  qed (simp add: sound_unset)
qed

lemma sound_obj_empty: "sound_obj env specs []"
  by (simp add: sound_obj_def sound_init)

lemma sound_obj_set: "sound_obj env specs obj \<Longrightarrow> map_of specs a = Some s \<Longrightarrow> sound env s v \<Longrightarrow> sound_obj env specs (dict_set a v obj)"
  by (simp add: sound_obj_def)

lemma sound_obj_other: "sound_obj env specs obj \<Longrightarrow> map_of specs a = None \<Longrightarrow> sound_obj env specs (dict_set a v obj)"
  by (simp add: sound_obj_def)

lemma wf_no_dots: "wf_class env specs \<Longrightarrow> CHR ''.'' \<in> set item \<Longrightarrow> map_of specs item = None"
  using wf_class_at [of env specs item] by (cases "map_of specs item") (auto simp: attr_name_def)

lemma set_item_sound:
  assumes "set_item setv specs item v obj = Inr obj'" "sound_obj env specs obj" "wf_class env specs"
    "\<And>s w. get_setting specs item = Inr s \<Longrightarrow> setv s v = Inr w \<Longrightarrow> sound env s w"
  shows "sound_obj env specs obj'"
  using assms
proof (induction setv specs item v obj arbitrary: obj' rule: set_item.induct)
  case (1 setv specs item newval obj)
  obtain s x rest where r: "config_item specs item obj = Inr (s, x, rest)"
    using 1(2) unfolding set_item.simps [of setv specs] by (cases "config_item specs item obj") auto
  show ?case using r
  proof (cases rule: config_item_cases)
    case attr
    then obtain w where w: "setv s newval = Inr w" "obj' = dict_set item w obj"
      using 1(2) r unfolding set_item.simps [of setv specs] by (auto simp: res_simps)
    have "attr_name item" using wf_class_at [OF 1(4) attr(4)] by simp
    then have "sound env s w" using 1(5) [OF get_setting_attr w(1)] attr(4) by simp
    then show ?thesis using sound_obj_set [OF 1(3) attr(4)] w(2) by simp
  next
    case dot
    then have "obj' = dict_set item newval obj" using 1(2) r unfolding set_item.simps [of setv specs] by simp
    then show ?thesis using sound_obj_other [OF 1(3) wf_no_dots [OF 1(4) dot(1)]] by simp
  next
    case (nested a n specs' m vs)
    then obtain vs' where vs': "set_item setv specs' rest newval vs = Inr vs'" "obj' = dict_set a (ConfVal m vs') obj"
      using 1(2) r unfolding set_item.simps [of setv specs] by (auto simp: res_simps)
    have "sound env s (ConfVal m vs)" using 1(3) nested(4,7) unfolding sound_obj_def by force
    then have m: "m = n" "sound_obj env specs' vs" by (auto simp: nested(5) sound_ConfVal)
    have "wf_class env specs'" using wf_class_at [OF 1(4) nested(4)] nested(5) by simp
    then have "sound_obj env specs' vs'"
      using 1(1) [OF r refl refl nested(3) refl nested(5,6) vs'(1) m(2)] 1(5) nested(8) by simp
    then show ?thesis using sound_obj_set [OF 1(3) nested(4)] vs'(2) nested(5) m(1) by (simp add: sound_ConfVal)
  qed
qed

lemma del_item_sound:
  assumes "del_item specs item obj = Inr obj'" "sound_obj env specs obj" "wf_class env specs"
  shows "sound_obj env specs obj'"
  using assms
proof (induction specs item obj arbitrary: obj' rule: del_item.induct)
  case (1 specs item obj)
  obtain s x rest where r: "config_item specs item obj = Inr (s, x, rest)"
    using 1(2) unfolding del_item.simps [of specs] by (cases "config_item specs item obj") auto
  show ?case using r
  proof (cases rule: config_item_cases)
    case attr
    then have "obj' = dict_set item (init_value s) obj" using 1(2) r unfolding del_item.simps [of specs] by simp
    then show ?thesis using sound_obj_set [OF 1(3) attr(4) sound_init] by simp
  next
    case dot
    then have "obj' = dict_del item obj" using 1(2) r unfolding del_item.simps [of specs] by (simp split: if_splits)
    moreover have "get_instance t a (dict_del item obj) = get_instance t a obj" if "map_of specs a = Some t" for t a
      using wf_no_dots [OF 1(4) dot(1)] that by (cases "a = item") (auto simp: get_instance_def)
    ultimately show ?thesis using 1(3) unfolding sound_obj_def by simp
  next
    case (nested a n specs' m vs)
    then obtain vs' where vs': "del_item specs' rest vs = Inr vs'" "obj' = dict_set a (ConfVal m vs') obj"
      using 1(2) r unfolding del_item.simps [of specs] by (auto simp: res_simps)
    have "sound env s (ConfVal m vs)" using 1(3) nested(4,7) unfolding sound_obj_def by force
    then have m: "m = n" "sound_obj env specs' vs" by (auto simp: nested(5) sound_ConfVal)
    have "wf_class env specs'" using wf_class_at [OF 1(4) nested(4)] nested(5) by simp
    then have "sound_obj env specs' vs'" using 1(1) [OF r refl refl nested(3) refl nested(5,6) vs'(1) m(2)] by simp
    then show ?thesis using sound_obj_set [OF 1(3) nested(4)] vs'(2) nested(5) m(1) by (simp add: sound_ConfVal)
  qed
qed

lemma set_value_ok: "set_value env s v = Inr w \<Longrightarrow> is_ok (validate_setting env s w)"
  unfolding set_value.simps [of env s] by (cases s) (auto simp: res_simps is_ok_iff)

lemma get_setting_wf: "get_setting specs item = Inr s \<Longrightarrow> wf_class env specs \<Longrightarrow> wf_setting env s"
proof (induction specs item rule: get_setting.induct)
  case (1 specs item)
  from 1(2) obtain t where t: "map_of specs (fst (split_path item)) = Some t" by (auto simp: get_setting.simps [of specs item] split: option.splits)
  have wf: "wf_setting env t" using wf_class_at [OF 1(3) t] by simp
  have "s = t \<or> (\<exists>n nested c rest. snd (split_path item) = Some (c # rest) \<and> t = Namespace n nested \<and> get_setting nested (c # rest) = Inr s)"
    using 1(2) t unfolding get_setting.simps [of specs item] by (auto split: option.splits list.splits setting.splits)
  then show ?case using wf 1(1) [OF t _ refl] by auto
qed

text \<open>What a setting does with what it is given, as long as objects that are put into a namespace are sound.\<close>

definition keeps_sound :: "path_env \<Rightarrow> setting \<Rightarrow> bool" where
  "keeps_sound env s \<longleftrightarrow>
     (\<forall>v w. set_value env s v = Inr w \<longrightarrow> (\<forall>c obj. v = ConfVal c obj \<longrightarrow> is_namespace s \<longrightarrow> sound env s v) \<longrightarrow> sound env s w) \<and>
     (\<forall>v u. is_namespace s \<longrightarrow> unserialize env s v = Inr u \<longrightarrow> sound env s u)"

lemma load_step_sound:
  assumes "\<And>s. get_setting specs name = Inr s \<Longrightarrow> keeps_sound env s" "wf_class env specs" "sound_obj env specs obj"
    "load_step (unserialize env) (set_value env) specs (name, x) (errors, loaded, obj) = (errors', loaded', obj')"
  shows "sound_obj env specs obj'"
proof -
  consider "obj' = obj" | s v where "get_setting specs name = Inr s" "unserialize env s x = Inr v" "set_item (set_value env) specs name v obj = Inr obj'"
    using assms(4) by (fastforce simp: load_step_def res_simps split: if_splits sum.splits)
  then show ?thesis
  proof cases
    case 2
    have "sound env t w" if "get_setting specs name = Inr t" "set_value env t v = Inr w" for t w
      using assms(1) [OF 2(1)] that 2(1,2) by (auto simp: keeps_sound_def)
    from set_item_sound [OF 2(3) assms(3,2) this] show ?thesis .
  qed (use assms(3) in simp)
qed

lemma load_fold_sound:
  assumes "\<And>s item. get_setting specs item = Inr s \<Longrightarrow> keeps_sound env s" "wf_class env specs"
  shows "sound_obj env specs obj \<Longrightarrow>
    fold (load_step (unserialize env) (set_value env) specs) items (errors, loaded, obj) = (errors', loaded', obj') \<Longrightarrow> sound_obj env specs obj'"
proof (induction items arbitrary: errors loaded obj)
  case (Cons item items)
  obtain name x where item: "item = (name, x)" by (cases item)
  obtain errors1 loaded1 obj1 where one: "load_step (unserialize env) (set_value env) specs item (errors, loaded, obj) = (errors1, loaded1, obj1)"
    by (metis prod_cases3)
  have "sound_obj env specs obj1" by (rule load_step_sound [OF assms(1,2) Cons.prems(1) one [unfolded item]])
  then show ?case using Cons.IH one Cons.prems(2) by simp
qed simp

lemma load_dict_sound:
  assumes "\<And>s item. get_setting specs item = Inr s \<Longrightarrow> keeps_sound env s" "wf_class env specs" "sound_obj env specs obj"
    "load_dict_with (unserialize env) (set_value env) specs d obj = (r, obj')"
  shows "sound_obj env specs obj'"
  using load_fold_sound [OF assms(1-3)] assms(4) by (auto simp: load_dict_with_def split: prod.splits)

lemma setting_keeps_sound: "wf_setting env s \<Longrightarrow> keeps_sound env s"
proof (induction "size s" arbitrary: s rule: less_induct)
  case less
  show ?case
  proof (cases "is_namespace s")
    case False
    then show ?thesis using set_value_ok sound_valid by (auto simp: keeps_sound_def)
  next
    case True
    then obtain n specs where s: "s = Namespace n specs" by (rule is_namespace_cases)
    have wf: "wf_class env specs" using less.prems s by simp
    have deeper: "keeps_sound env t" if "get_setting specs item = Inr t" for t item
      using less.hyps [of t] get_setting_smaller [OF that] get_setting_wf [OF that wf] s by (simp add: size_namespace del: setting.size)
    have built: "sound env s u" if "new_config n (load_dict_with (unserialize env) (set_value env) specs d []) = Inr u" for d u
      using that load_dict_sound [OF deeper wf sound_obj_empty] by (auto simp: new_config_def s sound_ConfVal split: prod.splits option.splits)
    have "sound env s w" if w: "set_value env s v = Inr w" "\<forall>c obj. v = ConfVal c obj \<longrightarrow> sound env s v" for v w
    proof (cases "\<exists>d. v = DictVal d")
      case True
      then obtain d where "v = DictVal d" by blast
      then have "new_config n (load_dict_with (unserialize env) (set_value env) specs d []) = Inr w"
        using w(1) by (simp add: s set_value.simps [of env "Namespace n specs"] res_simps)
      then show ?thesis by (rule built)
    next
      case False
      then have "w = v" using w(1) by (cases v) (auto simp: s set_value.simps [of env "Namespace n specs"] res_simps)
      moreover have "\<exists>c obj. v = ConfVal c obj"
        using set_value_ok [OF w(1)] False calculation by (cases v) (auto simp: s validate_setting.simps [of env "Namespace n specs"])
      ultimately show ?thesis using w(2) by auto
    qed
    moreover have "sound env s u" if "unserialize env s v = Inr u" for v u
      using that built by (auto simp: s unserialize.simps [of env "Namespace n specs"] res_simps)
    ultimately show ?thesis using True by (auto simp: keeps_sound_def)
  qed
qed

section \<open>The errors of a validation\<close>

definition prefixed :: "string \<Rightarrow> (string \<times> 'a) list \<Rightarrow> (string \<times> 'a) list" where
  "prefixed a items = map (\<lambda>(k, x). (a @ CHR ''.'' # k, x)) items"

lemma keys_prefixed [simp]: "keys (prefixed a items) = map (\<lambda>k. a @ CHR ''.'' # k) (keys items)"
  by (simp add: prefixed_def case_prod_beta)

lemma distinct_prefixed [simp]: "distinct (map (\<lambda>k. a @ CHR ''.'' # k) ks) = distinct ks"
  by (simp add: distinct_map inj_on_def)

definition errors_of :: "string \<Rightarrow> conf_exc + bool \<Rightarrow> (string \<times> py_error) list" where
  "errors_of a r = (case r of Inl (Exc e) \<Rightarrow> [(a, e)] | Inl (ConfigurationError es) \<Rightarrow> prefixed a es | Inr _ \<Rightarrow> [])"

lemma errors_of_simps [simp]: "errors_of a (Inl (Exc e)) = [(a, e)]" "errors_of a (Inl (ConfigurationError es)) = prefixed a es" "errors_of a (Inr x) = []"
  by (simp_all add: errors_of_def)

lemma errors_of_prefix: "attr_name a \<Longrightarrow> p \<in> set (errors_of a r) \<Longrightarrow> fst (split_path (fst p)) = a"
proof (cases r)
  case (Inl x)
  then show "attr_name a \<Longrightarrow> p \<in> set (errors_of a r) \<Longrightarrow> ?thesis" by (cases x) (auto simp: prefixed_def)
qed simp

lemma fold_dict_set_new:
  "distinct (keys items) \<Longrightarrow> set (keys items) \<inter> set (keys d) = {} \<Longrightarrow> fold (\<lambda>(k, x). dict_set k x) items d = d @ items"
proof (induction items arbitrary: d)
  case (Cons p items)
  then show ?case by (cases p) (simp add: dict_set_new)
qed simp

lemma set_error_new:
  assumes "\<And>es. e = ConfigurationError es \<Longrightarrow> distinct (keys es)" "set (keys (errors_of a (Inl e))) \<inter> set (keys errors) = {}"
  shows "set_error a e errors = errors @ errors_of a (Inl e)"
proof (cases e)
  case (Exc x)
  then show ?thesis using assms(2) by (simp add: dict_set_new)
next
  case (ConfigurationError es)
  have "fold (\<lambda>(sub, e). dict_set (a @ ''.'' @ sub) e) es errors = fold (\<lambda>(k, x). dict_set k x) (prefixed a es) errors"
    by (induction es arbitrary: errors) (auto simp: prefixed_def)
  moreover have "distinct (keys (prefixed a es))" "set (keys (prefixed a es)) \<inter> set (keys errors) = {}"
    using ConfigurationError assms by (simp_all del: map_map)
  ultimately have "fold (\<lambda>(sub, e). dict_set (a @ ''.'' @ sub) e) es errors = errors @ prefixed a es" using fold_dict_set_new by metis
  then show ?thesis using ConfigurationError by simp
qed

lemma set_error_distinct: "distinct (keys errors) \<Longrightarrow> distinct (keys (set_error a e errors))"
proof (cases e)
  case (ConfigurationError es)
  have "distinct (keys errors) \<Longrightarrow> distinct (keys (fold (\<lambda>(sub, e). dict_set (a @ ''.'' @ sub) e) es errors))" for errors
    by (induction es arbitrary: errors) auto
  then show "distinct (keys errors) \<Longrightarrow> ?thesis" using ConfigurationError by simp
qed simp

lemma validate_config_distinct: "distinct (keys (validate_config_with validate specs obj))"
proof -
  have "distinct (keys errors) \<Longrightarrow> distinct (keys (fold (\<lambda>(name, s) errors.
      case validate s (get_attr s name obj) of Inl e \<Rightarrow> set_error name e errors | Inr _ \<Rightarrow> errors) specs errors))" for errors
    by (induction specs arbitrary: errors) (auto simp: set_error_distinct split: sum.splits)
  then show ?thesis by (simp add: validate_config_with_def)
qed

lemma load_dict_distinct: "load_dict_with unser setv specs d obj = (Some (ConfigurationError es), obj') \<Longrightarrow> distinct (keys es) \<and> es \<noteq> []"
proof -
  have step: "distinct (keys (fst st)) \<Longrightarrow> distinct (keys (fst (load_step unser setv specs item st)))" for item st
    by (cases st) (auto simp: load_step_def set_error_distinct simp del: set_error.simps split: prod.splits sum.splits)
  have "distinct (keys (fst st)) \<Longrightarrow> distinct (keys (fst (fold (load_step unser setv specs) items st)))" for items st
    by (induction items arbitrary: st) (simp_all add: step)
  from this [of "([], {}, obj)" "flatten_dict d"] show "load_dict_with unser setv specs d obj = (Some (ConfigurationError es), obj') \<Longrightarrow> ?thesis"
    by (auto simp: load_dict_with_def split: prod.splits if_splits)
qed

lemma validate_type_exc: "validate_type s v = Inl x \<Longrightarrow> x = Exc TypeError"
  by (simp add: validate_type_def split: if_splits)

lemma check_exc:
  "check_bounds mn mx v = Inl x \<Longrightarrow> \<exists>e. x = Exc e" "check_string r v = Inl x \<Longrightarrow> \<exists>e. x = Exc e" "check_path env p v = Inl x \<Longrightarrow> \<exists>e. x = Exc e"
  "check_choice cs v = Inl x \<Longrightarrow> \<exists>e. x = Exc e" "check_length mn' mx' vs = Inl x \<Longrightarrow> \<exists>e. x = Exc e"
  by (auto simp: check_bounds_def check_string_def check_path_def check_choice_def check_length_def Let_def split: if_splits option.splits val.splits)

lemma plain_exc:
  assumes "\<not> is_namespace s" "\<forall>t mn mx d. s \<noteq> Iterable t mn mx d" "validate_setting env s v = Inl x"
  shows "\<exists>e. x = Exc e"
  using assms unfolding validate_setting.simps [of env s] by (cases s) (auto simp: res_simps split: if_splits dest: validate_type_exc check_exc)

lemma map_res_Inl: "map_res f xs = Inl e \<Longrightarrow> \<exists>x \<in> set xs. f x = Inl e"
  by (induction xs) (auto simp: res_simps)

lemma validate_conf:
  "validate_setting env (Namespace n specs) (ConfVal c obj) =
     (if c \<noteq> n then Inl (Exc TypeError) else if validate_config env specs obj = [] then Inr False else Inl (ConfigurationError (validate_config env specs obj)))"
  by (simp add: validate_setting.simps [of env "Namespace n specs"] validate_config_def split: list.splits)

lemma validate_no_conf:
  assumes "\<forall>c obj. v \<noteq> ConfVal c obj" "validate_setting env (Namespace n specs) v = Inl e"
  shows "e = Exc TypeError \<or> (\<exists>d. v = DictVal d \<and> res_bind (new_config n (load_dict env specs d [])) (validate_setting env (Namespace n specs)) = Inl e)"
proof (cases "\<exists>d. v = DictVal d")
  case True
  then obtain d where d: "v = DictVal d" by blast
  then show ?thesis
  proof (cases "new_config n (load_dict env specs d [])")
    case (Inr w)
    then obtain c obj where "w = ConfVal c obj" by (auto simp: new_config_def split: prod.splits option.splits)
    then show ?thesis using assms(2) Inr d
      by (simp add: validate_conf validate_setting.simps [of env "Namespace n specs" "DictVal d"] validate_config_def load_dict_def split: list.splits if_splits)
  qed (use assms(2) d in \<open>simp add: validate_setting.simps [of env "Namespace n specs" "DictVal d"] load_dict_def\<close>)
next
  case False
  then show ?thesis using assms by (cases v) (simp_all add: validate_setting.simps [of env "Namespace n specs"])
qed

lemma new_config_error: "new_config n (load_dict env specs d obj) = Inl (ConfigurationError es) \<Longrightarrow> distinct (keys es) \<and> es \<noteq> []"
  unfolding load_dict_def using load_dict_distinct by (auto simp: new_config_def split: prod.splits option.splits)

lemma namespace_errors_distinct:
  assumes "validate_setting env (Namespace n specs) v = Inl (ConfigurationError es)"
  shows "distinct (keys es) \<and> es \<noteq> []"
proof -
  have conf: "distinct (keys es) \<and> es \<noteq> []" if "validate_setting env (Namespace n specs) (ConfVal c obj) = Inl (ConfigurationError es)" for c obj
    using that validate_config_distinct [of "validate_setting env" specs obj] by (auto simp: validate_conf validate_config_def split: if_splits)
  show ?thesis
  proof (cases "\<exists>c obj. v = ConfVal c obj")
    case False
    then obtain d where d: "res_bind (new_config n (load_dict env specs d [])) (validate_setting env (Namespace n specs)) = Inl (ConfigurationError es)"
      using validate_no_conf [OF _ assms] by auto
    show ?thesis
    proof (cases "new_config n (load_dict env specs d [])")
      case (Inr w)
      then obtain c obj where "w = ConfVal c obj" by (auto simp: new_config_def split: prod.splits option.splits)
      then show ?thesis using conf d Inr by simp
    qed (use d new_config_error in auto)
  qed (use conf assms in auto)
qed

lemma conf_errors_distinct: "validate_setting env s v = Inl (ConfigurationError es) \<Longrightarrow> distinct (keys es) \<and> es \<noteq> []"
proof (induction "size s" arbitrary: s v rule: less_induct)
  case less
  consider (namespace) n specs where "s = Namespace n specs" | (iter) t mn mx d where "s = Iterable t mn mx d"
    using plain_exc [OF _ _ less.prems] by (metis conf_exc.distinct(1) is_namespace_cases)
  then show ?case
  proof cases
    case namespace
    then show ?thesis using namespace_errors_distinct less.prems by simp
  next
    case iter
    have "\<exists>x. validate_setting env t x = Inl (ConfigurationError es)"
      using less.prems unfolding iter validate_setting.simps [of env "Iterable t mn mx d"]
      by (auto simp: res_simps lift_exc_def split: if_splits sum.splits dest!: validate_type_exc check_exc map_res_Inl)
    then show ?thesis using less.hyps [of t] iter by auto
  qed
qed

lemma validate_config_concat:
  assumes "wf_class env specs"
  shows "validate_config env specs obj = concat (map (\<lambda>(a, s). errors_of a (validate_setting env s (get_attr s a obj))) specs)"
proof -
  let ?err = "\<lambda>(a, s). errors_of a (validate_setting env s (get_attr s a obj))"
  have "fold (\<lambda>(name, s) errors. case validate_setting env s (get_attr s name obj) of Inl e \<Rightarrow> set_error name e errors | Inr _ \<Rightarrow> errors) rest errors =
      errors @ concat (map ?err rest)"
    if "distinct (keys rest)" "\<forall>a \<in> set (keys rest). attr_name a" "\<forall>k \<in> set (keys errors). fst (split_path k) \<notin> set (keys rest)" for rest errors
    using that
  proof (induction rest arbitrary: errors)
    case (Cons p rest)
    obtain a s where p: "p = (a, s)" by (cases p)
    have here: "fst (split_path k) = a" if "k \<in> set (keys (?err p))" for k
      using errors_of_prefix [of a _ "validate_setting env s (get_attr s a obj)"] that Cons.prems(2) p by auto
    have one: "(case validate_setting env s (get_attr s a obj) of Inl e \<Rightarrow> set_error a e errors | Inr _ \<Rightarrow> errors) = errors @ ?err p"
    proof (cases "validate_setting env s (get_attr s a obj)")
      case (Inl e)
      have "set (keys (errors_of a (Inl e))) \<inter> set (keys errors) = {}" using here Cons.prems(3) p Inl by fastforce
      then have "set_error a e errors = errors @ errors_of a (Inl e)" by (intro set_error_new) (use conf_errors_distinct Inl in auto)
      then show ?thesis using Inl p by simp
    qed (simp add: p)
    have "a \<notin> set (keys rest)" using Cons.prems(1) p by simp
    then have "fst (split_path k) \<notin> set (keys rest)" if "k \<in> set (keys (errors @ ?err p))" for k
      using that here [of k] Cons.prems(3) p by (cases "k \<in> set (keys errors)") (auto simp del: set_map)
    then have "\<forall>k \<in> set (keys (errors @ ?err p)). fst (split_path k) \<notin> set (keys rest)" by blast
    then show ?case using Cons.IH [of "errors @ ?err p"] Cons.prems(1,2) one p by simp
  qed simp
  from this [of specs "[]"] show ?thesis
    using assms by (fastforce simp: validate_config_def validate_config_with_def wf_class_iff)
qed

lemma list_ns_iff:
  "path \<in> set (list_ns_settings specs) \<longleftrightarrow>
     (\<exists>(a, s) \<in> set specs. (\<not> is_namespace s \<and> path = a) \<or> (\<exists>n nested k. s = Namespace n nested \<and> k \<in> set (list_ns_settings nested) \<and> path = a @ CHR ''.'' # k))"
proof (induction specs)
  case (Cons p specs)
  obtain a s where p: "p = (a, s)" by (cases p)
  have "path \<in> set (list_ns_settings (p # specs)) \<longleftrightarrow> path \<in> set (list_ns_settings specs) \<or>
      (\<not> is_namespace s \<and> path = a) \<or> (\<exists>n nested k. s = Namespace n nested \<and> k \<in> set (list_ns_settings nested) \<and> path = a @ CHR ''.'' # k)"
    unfolding p by (cases s) (auto simp: is_namespace_def)
  then show ?case using Cons.IH p by auto
qed simp

lemma list_ns_nonempty: "wf_class env specs \<Longrightarrow> path \<in> set (list_ns_settings specs) \<Longrightarrow> path \<noteq> ''''"
  by (auto simp: list_ns_iff [of path specs] wf_class_iff attr_name_def)

lemma as_list_valid: "is_ok (validate_setting env (Iterable t mn mx d) v) \<Longrightarrow> is_ok (validate_setting env (Iterable t mn mx d) (as_list v))"
  by (cases v) (simp_all add: validate_setting.simps [of env "Iterable t mn mx d"] validate_type_def)

text \<open>A setting of a sound object that fails has its default, which is not acceptable.\<close>

lemma sound_failure:
  assumes "wf_setting env s" "\<not> is_namespace s" "sound env s (get_instance s a obj)"
  shows "validate_setting env s (get_attr s a obj) = Inl x \<longleftrightarrow>
    get_attr s a obj = setting_default s \<and> validate_setting env s (setting_default s) = Inl x"
proof -
  have set: "is_ok (validate_setting env s (get_attr s a obj))" if "is_ok (validate_setting env s v)" "v = get_instance s a obj" "v \<noteq> NotSet" for v
    using that assms(2) by (cases s) (auto simp: get_attr_def get_value_plain is_namespace_def as_list_valid)
  have "sound env s (get_instance s a obj) \<longleftrightarrow> get_instance s a obj = NotSet \<or> is_ok (validate_setting env s (get_instance s a obj))"
    using assms(2) by (auto intro: sound_unset sound_valid elim: sound.cases)
  then have "get_instance s a obj = NotSet \<or> is_ok (validate_setting env s (get_attr s a obj))" using set assms(3) by blast
  moreover have "get_attr s a obj = setting_default s \<or> is_ok (validate_setting env s (get_attr s a obj))" if "get_instance s a obj = NotSet"
    using that assms(1,2) unfolding wf_setting.simps [of env s] by (cases s) (auto simp: get_attr_def get_value_plain is_namespace_def as_list_valid)
  ultimately show ?thesis by (auto simp: is_ok_iff)
qed

lemma iterable_exc: "validate_setting env (Iterable t mn mx NotSet) NotSet = Inl (Exc TypeError)"
  by (simp add: validate_setting.simps [of env "Iterable t mn mx NotSet"] validate_type_def)

lemma default_exc:
  assumes "wf_setting env s" "\<not> is_namespace s" "validate_setting env s (setting_default s) = Inl x"
  shows "\<exists>e. x = Exc e"
proof (cases "\<exists>t mn mx d. s = Iterable t mn mx d")
  case True
  then show ?thesis using assms(1,3) iterable_exc by (auto simp: wf_setting.simps [of env s])
qed (use plain_exc [OF assms(2) _ assms(3)] in blast)

lemma validate_errors:
  "wf_class env specs \<Longrightarrow> sound_obj env specs obj \<Longrightarrow>
   (path, e) \<in> set (validate_config env specs obj) \<longleftrightarrow>
     path \<in> set (list_ns_settings specs) \<and> (\<exists>s. get_setting specs path = Inr s \<and> get_item specs path obj = Inr (setting_default s) \<and>
       validate_setting env s (setting_default s) = Inl (Exc e))"
proof (induction "size_specs specs" arbitrary: specs obj path rule: less_induct)
  case less
  define fails where "fails specs obj path \<longleftrightarrow> (\<exists>s. get_setting specs path = Inr s \<and> get_item specs path obj = Inr (setting_default s) \<and>
       validate_setting env s (setting_default s) = Inl (Exc e))" for specs obj path
  have one: "(path, e) \<in> set (errors_of a (validate_setting env s (get_attr s a obj))) \<longleftrightarrow>
      ((\<not> is_namespace s \<and> path = a) \<or> (\<exists>n nested k. s = Namespace n nested \<and> k \<in> set (list_ns_settings nested) \<and> path = a @ CHR ''.'' # k)) \<and> fails specs obj path"
    if as: "(a, s) \<in> set specs" for a s
  proof -
    have a: "map_of specs a = Some s" by (rule wf_class_map_of [OF less.prems(1) as])
    have wf: "attr_name a" "wf_setting env s" using wf_class_at [OF less.prems(1) a] by simp_all
    have sound: "sound env s (get_instance s a obj)" using less.prems(2) a by (simp add: sound_obj_def)
    show ?thesis
    proof (cases "is_namespace s")
      case False
      have "fails specs obj a \<longleftrightarrow> get_attr s a obj = setting_default s \<and> validate_setting env s (setting_default s) = Inl (Exc e)"
        by (simp add: fails_def get_setting_attr [OF wf(1) a] get_item_attr [OF wf(1) a])
      then have "fails specs obj a \<longleftrightarrow> validate_setting env s (get_attr s a obj) = Inl (Exc e)" using sound_failure [OF wf(2) False sound] by simp
      moreover have "validate_setting env s (get_attr s a obj) = Inl x \<Longrightarrow> \<exists>e. x = Exc e" for x
        using sound_failure [OF wf(2) False sound] default_exc [OF wf(2) False] by blast
      ultimately show ?thesis using False by (cases "validate_setting env s (get_attr s a obj)") auto
    next
      case True
      then obtain n nested where s: "s = Namespace n nested" by (rule is_namespace_cases)
      then obtain obj' where obj': "get_instance s a obj = ConfVal n obj'" "sound_obj env nested obj'" using sound by (auto simp: sound_ConfVal)
      have smaller: "size_specs nested < size_specs specs" "wf_class env nested" using size_specs_mem [OF as] wf(2) by (simp_all add: s size_namespace del: setting.size)
      have "(path, e) \<in> set (errors_of a (validate_setting env s (get_attr s a obj))) \<longleftrightarrow> (\<exists>k. path = a @ CHR ''.'' # k \<and> (k, e) \<in> set (validate_config env nested obj'))"
        using obj'(1) by (auto simp: s validate_conf prefixed_def)
      moreover have "fails specs obj (a @ CHR ''.'' # k) = fails nested obj' k" if "k \<in> set (list_ns_settings nested)" for k
        using get_setting_nested [OF wf(1) a [unfolded s]] get_item_nested [OF wf(1) a [unfolded s] obj'(1) [unfolded s]] list_ns_nonempty [OF smaller(2) that]
        by (simp add: fails_def)
      moreover have "(k, e) \<in> set (validate_config env nested obj') \<longleftrightarrow> k \<in> set (list_ns_settings nested) \<and> fails nested obj' k" for k
        using less.hyps [OF smaller obj'(2)] by (simp add: fails_def)
      ultimately show ?thesis using True s by auto
    qed
  qed
  have "(path, e) \<in> set (validate_config env specs obj) \<longleftrightarrow> (\<exists>(a, s) \<in> set specs. (path, e) \<in> set (errors_of a (validate_setting env s (get_attr s a obj))))"
    by (auto simp: validate_config_concat [OF less.prems(1)])
  also have "\<dots> \<longleftrightarrow> path \<in> set (list_ns_settings specs) \<and> fails specs obj path"
    unfolding list_ns_iff [of path specs] using one by fastforce
  finally show ?case by (simp add: fails_def)
qed

section \<open>Reachable configurations\<close>

lemma load_sound: "wf_class env specs \<Longrightarrow> sound_obj env specs obj \<Longrightarrow> sound_obj env specs (snd (load_dict env specs d obj))"
proof -
  assume wf: "wf_class env specs" and obj: "sound_obj env specs obj"
  have keeps: "keeps_sound env s" if "get_setting specs item = Inr s" for s item by (rule setting_keeps_sound [OF get_setting_wf [OF that wf]])
  show ?thesis using load_dict_sound [OF keeps wf obj] by (cases "load_dict env specs d obj") (simp add: load_dict_def)
qed

lemma load_item_sound: "sound_obj env specs obj \<Longrightarrow> wf_class env specs \<Longrightarrow> sound_obj env specs (snd (load_item env specs item d obj))"
proof (induction env specs item d obj rule: load_item.induct)
  case (1 env specs item d obj)
  show ?case
  proof (cases "\<exists>n nested m vs rest. config_item specs item obj = Inr (Namespace n nested, ConfVal m vs, rest)")
    case True
    then obtain n nested m vs rest where r: "config_item specs item obj = Inr (Namespace n nested, ConfVal m vs, rest)" by blast
    let ?a = "fst (split_path item)"
    have a: "map_of specs ?a = Some (Namespace n nested)" by (rule config_item_mem [OF r])
    have "get_instance (Namespace n nested) ?a obj = ConfVal m vs"
      using r a by (auto simp: config_item_def Let_def split: prod.splits val.splits if_splits)
    then have vs: "m = n" "sound_obj env nested vs" using 1(2) a unfolding sound_obj_def by (fastforce simp: sound_ConfVal sound_obj_def)+
    have wf: "wf_class env nested" using wf_class_at [OF 1(3) a] by simp
    define r' where "r' = (if rest \<noteq> '''' then load_item env nested rest d vs else load_dict env nested d vs)"
    have "sound_obj env nested (snd r')" unfolding r'_def
      using 1(1) [OF r refl refl refl refl refl _ vs(2) wf] load_sound [OF wf vs(2)] by simp
    moreover have "snd (load_item env specs item d obj) = dict_set ?a (ConfVal n (snd r')) obj"
      using r vs(1) by (cases r') (simp add: load_item.simps [of env specs] r'_def [symmetric] del: if_split_eq1)
    ultimately show ?thesis using sound_obj_set [OF 1(2) a] by (simp add: sound_ConfVal)
  next
    case False
    then have "snd (load_item env specs item d obj) = obj"
      by (cases "config_item specs item obj") (auto simp: load_item.simps [of env specs] split: setting.splits val.splits)
    then show ?thesis using 1(2) by simp
  qed
qed

lemma read_files_sound: "sound_obj env specs obj \<Longrightarrow> wf_class env specs \<Longrightarrow> sound_obj env specs (snd (read_files env specs root_ns fs obj))"
proof (induction fs arbitrary: obj)
  case (Cons f fs)
  have "sound_obj env specs (snd (read_file env specs root_ns f obj))"
    using Cons.prems load_sound load_item_sound by (simp add: read_file_def)
  then show ?case using Cons.IH Cons.prems(2) by (cases "read_file env specs root_ns f obj") (auto split: option.splits)
qed simp

text \<open>
  What can be done with an object: an item is set or deleted, or a dictionary or the files of directories are loaded, which may raise. An
  object that is put into a namespace has been made the same way.
\<close>

inductive conf_step :: "path_env \<Rightarrow> (string \<times> setting) list \<Rightarrow> (string \<times> val) list \<Rightarrow> (string \<times> val) list \<Rightarrow> bool" for env specs where
  step_set: "set_item (set_value env) specs item v obj = Inr obj' \<Longrightarrow>
    (\<And>c o' s. v = ConfVal c o' \<Longrightarrow> get_setting specs item = Inr s \<Longrightarrow> is_namespace s \<Longrightarrow> sound env s v) \<Longrightarrow> conf_step env specs obj obj'"
| step_del: "del_item specs item obj = Inr obj' \<Longrightarrow> conf_step env specs obj obj'"
| step_load: "load_dict env specs d obj = (r, obj') \<Longrightarrow> conf_step env specs obj obj'"
| step_read: "read_config_dirs env specs root_ns dirs obj = (r, obj') \<Longrightarrow> conf_step env specs obj obj'"

interpretation configs: invariant_system "\<lambda>obj. obj = []" "conf_step env specs" "\<lambda>obj. wf_class env specs \<longrightarrow> sound_obj env specs obj" for env specs
proof unfold_locales
  fix obj obj' assume inv: "wf_class env specs \<longrightarrow> sound_obj env specs obj" and step: "conf_step env specs obj obj'"
  show "wf_class env specs \<longrightarrow> sound_obj env specs obj'"
  proof
    assume wf: "wf_class env specs"
    then have obj: "sound_obj env specs obj" using inv by simp
    have keeps: "keeps_sound env s" if "get_setting specs item = Inr s" for s item by (rule setting_keeps_sound [OF get_setting_wf [OF that wf]])
    show "sound_obj env specs obj'" using step
    proof cases
      case (step_set item v)
      have "sound env s w" if "get_setting specs item = Inr s" "set_value env s v = Inr w" for s w
        using keeps [OF that(1)] that step_set(2) by (auto simp: keeps_sound_def)
      from set_item_sound [OF step_set(1) obj wf this] show ?thesis .
    next
      case step_del
      then show ?thesis by (rule del_item_sound [OF _ obj wf])
    next
      case (step_load d r)
      then show ?thesis using load_sound [OF wf obj, of d] by simp
    next
      case (step_read root_ns dirs r)
      then show ?thesis using read_files_sound [OF obj wf] by (metis read_config_dirs_def snd_conv)
    qed
  qed
qed (simp add: sound_obj_empty)

text \<open>
  C21: whatever has been set, deleted and loaded, with or without errors, the validation of a configuration reports exactly the
  settings that still have their default while they do not accept it, each under its path, with the exception their own validation raises.
\<close>

theorem validate_reports_missing:
  assumes "wf_class env specs" "reachable (\<lambda>obj. obj = []) (conf_step env specs) obj"
  shows "(path, e) \<in> set (validate_config env specs obj) \<longleftrightarrow>
     path \<in> set (list_ns_settings specs) \<and> (\<exists>s. get_setting specs path = Inr s \<and> get_item specs path obj = Inr (setting_default s) \<and>
       validate_setting env s (setting_default s) = Inl (Exc e))"
  using validate_errors [OF assms(1)] configs.reachable_inv [OF assms(2)] assms(1) by blast

section \<open>Dumping and loading\<close>

text \<open>
  What a dump can bring back: every setting has a value, of plain settings it is not a dictionary, which
  would be taken for a namespace, and lists hold objects where their template is a namespace.
\<close>

function storable :: "bool \<Rightarrow> setting \<Rightarrow> val \<Rightarrow> bool" where
  "storable item s v =
     (case (s, v) of
        (Namespace n specs, ConfVal c obj) \<Rightarrow> list_all (\<lambda>(a, t). storable False t (get_attr t a obj)) specs
      | (Namespace n specs, _) \<Rightarrow> False
      | (Iterable t _ _ _, ListVal vs) \<Rightarrow> list_all (storable True t) vs
      | (Iterable t _ _ _, _) \<Rightarrow> False
      | _ \<Rightarrow> v \<noteq> NotSet \<and> (item \<or> (case v of DictVal _ \<Rightarrow> False | _ \<Rightarrow> True)))"
  by pat_completeness auto

termination
  by (relation "measure (\<lambda>(_, s, _). size s)") (auto simp: size_namespace dest: size_specs_mem simp del: setting.size(18))

declare storable.simps [simp del]

definition storable_obj :: "(string \<times> setting) list \<Rightarrow> (string \<times> val) list \<Rightarrow> bool" where
  "storable_obj specs obj \<longleftrightarrow> (\<forall>(a, s) \<in> set specs. storable False s (get_attr s a obj))"

lemma storable_namespace: "storable item (Namespace n specs) v \<longleftrightarrow> (\<exists>c obj. v = ConfVal c obj \<and> storable_obj specs obj)"
  by (cases v) (simp_all add: storable.simps [of item "Namespace n specs"] storable_obj_def list_all_iff)

lemma storable_iterable: "storable item (Iterable t mn mx d) v \<longleftrightarrow> (\<exists>vs. v = ListVal vs \<and> (\<forall>x \<in> set vs. storable True t x))"
  by (cases v) (simp_all add: storable.simps [of item "Iterable t mn mx d"] list_all_iff)

text \<open>A list of items that are loaded one after the other without an error.\<close>

fun loads :: "path_env \<Rightarrow> (string \<times> setting) list \<Rightarrow> (string \<times> val) list \<Rightarrow> (string \<times> val) list \<Rightarrow> (string \<times> val) list \<Rightarrow> bool" where
  "loads env specs [] obj obj' \<longleftrightarrow> obj' = obj"
| "loads env specs ((name, x) # items) obj obj' \<longleftrightarrow> is_ok (config_item specs name obj) \<and>
     (\<exists>s v obj1. get_setting specs name = Inr s \<and> unserialize env s x = Inr v \<and> set_item (set_value env) specs name v obj = Inr obj1 \<and> loads env specs items obj1 obj')"

lemma loads_append: "loads env specs items obj obj1 \<Longrightarrow> loads env specs items' obj1 obj' \<Longrightarrow> loads env specs (items @ items') obj obj'"
proof (induction items arbitrary: obj)
  case (Cons p items)
  then show ?case by (cases p) (simp, blast)
qed simp

lemma loads_fold:
  assumes "loads env specs items obj obj'" "distinct (keys items)" "set (keys items) \<inter> loaded = {}"
  shows "\<exists>loaded'. fold (load_step (unserialize env) (set_value env) specs) items (errors, loaded, obj) = (errors, loaded', obj')"
  using assms
proof (induction items arbitrary: obj loaded)
  case (Cons p items)
  obtain name x where p: "p = (name, x)" by (cases p)
  then obtain s v obj1 where r: "is_ok (config_item specs name obj)" "get_setting specs name = Inr s" "unserialize env s x = Inr v"
    "set_item (set_value env) specs name v obj = Inr obj1" "loads env specs items obj1 obj'" using Cons.prems(1) by auto
  have "load_step (unserialize env) (set_value env) specs p (errors, loaded, obj) = (errors, insert name loaded, obj1)"
    using r Cons.prems(3) p by (simp add: load_step_def)
  then show ?case using Cons.IH [OF r(5), of "insert name loaded"] Cons.prems(2,3) p by simp
qed simp

lemma loads_load:
  assumes "loads env specs (flatten_dict d) obj obj'" "distinct (keys (flatten_dict d))"
  shows "load_dict env specs d obj = (None, obj')"
  using loads_fold [OF assms, of "{}" "[]"] by (auto simp: load_dict_def load_dict_with_def)

text \<open>Loading under the name of a namespace is loading into its object.\<close>

lemma loads_nested:
  assumes "attr_name a" "map_of specs a = Some (Namespace n nested)" "loads env nested items vs vs'" "'''' \<notin> set (keys items)"
    "get_instance (Namespace n nested) a obj = ConfVal m vs"
  shows "\<exists>obj'. loads env specs (prefixed a items) obj obj' \<and> get_instance (Namespace n nested) a obj' = ConfVal m vs' \<and>
    (\<forall>b. b \<noteq> a \<longrightarrow> map_of obj' b = map_of obj b)"
  using assms(3-5)
proof (induction items arbitrary: obj vs)
  case Nil
  then show ?case by (auto simp: prefixed_def)
next
  case (Cons p items)
  obtain k x where p: "p = (k, x)" by (cases p)
  then obtain s v vs1 where r: "get_setting nested k = Inr s" "unserialize env s x = Inr v"
    "set_item (set_value env) nested k v vs = Inr vs1" "loads env nested items vs1 vs'" using Cons.prems(1) by auto
  have k: "k \<noteq> ''''" using Cons.prems(2) p by auto
  let ?obj = "dict_set a (ConfVal m vs1) obj"
  have set: "set_item (set_value env) specs (a @ CHR ''.'' # k) v obj = Inr ?obj"
    using set_item_nested [OF assms(1,2) Cons.prems(3) k] r(3) by simp
  obtain obj' where obj': "loads env specs (prefixed a items) ?obj obj'" "get_instance (Namespace n nested) a obj' = ConfVal m vs'"
    "\<forall>b. b \<noteq> a \<longrightarrow> map_of obj' b = map_of ?obj b" using Cons.IH [OF r(4), of ?obj] Cons.prems(2) by auto
  have "loads env specs (prefixed a (p # items)) obj obj'"
    using set r(1,2) obj'(1) get_setting_nested [OF assms(1,2) k] config_item_nested [OF assms(1,2) Cons.prems(3)] by (simp add: p prefixed_def)
  then show ?case using obj'(2,3) by auto
qed

lemma prefixed_concat: "prefixed p (concat (map f xs)) = concat (map (\<lambda>x. prefixed p (f x)) xs)"
  by (simp add: prefixed_def map_concat comp_def)

lemma flatten_val_prefix: "k \<noteq> '''' \<Longrightarrow> flatten_val (p @ CHR ''.'' # k) v = prefixed p (flatten_val k v)"
proof (induction k v rule: flatten_val.induct)
  case (1 k d)
  have "flatten_val (p @ CHR ''.'' # k @ CHR ''.'' # fst x) (snd x) = prefixed p (flatten_val (k @ CHR ''.'' # fst x) (snd x))" if "x \<in> set (sort_key fst d)" for x
    using 1(1) [of x "fst x" "snd x"] 1(2) that by simp
  then have "map (\<lambda>x. flatten_val (p @ CHR ''.'' # k @ CHR ''.'' # fst x) (snd x)) (sort_key fst d) =
      map (\<lambda>x. prefixed p (flatten_val (k @ CHR ''.'' # fst x) (snd x))) (sort_key fst d)" by (rule map_cong [OF refl])
  then show ?case using 1(2) by (simp add: prefixed_concat case_prod_unfold del: set_sort map_eq_conv)
qed (simp_all add: prefixed_def)

lemma flatten_dict_concat: "flatten_dict d = concat (map (\<lambda>x. flatten_val (fst x) (snd x)) (sort_key fst d))"
  by (simp add: flatten_dict_def case_prod_unfold)

lemma flatten_nested:
  assumes "a \<noteq> ''''" "'''' \<notin> set (keys d)"
  shows "flatten_val a (DictVal d) = prefixed a (flatten_dict d)"
proof -
  have "flatten_val (a @ CHR ''.'' # fst x) (snd x) = prefixed a (flatten_val (fst x) (snd x))" if "x \<in> set (sort_key fst d)" for x
    using that assms(2) by (intro flatten_val_prefix) (auto simp: image_iff)
  then have "map (\<lambda>x. flatten_val (a @ CHR ''.'' # fst x) (snd x)) (sort_key fst d) = map (\<lambda>x. prefixed a (flatten_val (fst x) (snd x))) (sort_key fst d)"
    by (rule map_cong [OF refl])
  then show ?thesis using assms(1) by (simp add: flatten_dict_concat prefixed_concat case_prod_unfold del: map_eq_conv)
qed

lemma flatten_plain: "(\<forall>d. v \<noteq> DictVal d) \<Longrightarrow> flatten_val a v = [(a, v)]"
  by (cases v) auto

text \<open>A setting, and a class, whose values survive.\<close>

definition roundtrips :: "path_env \<Rightarrow> setting \<Rightarrow> bool" where
  "roundtrips env s \<longleftrightarrow> (\<forall>item v. is_ok (validate_setting env s v) \<longrightarrow> storable item s v \<longrightarrow>
     (\<exists>w u x. serialize s v = Inr w \<and> unserialize env s w = Inr u \<and> set_value env s u = Inr x \<and> view_val s (get_value s x) = view_val s v \<and>
        is_ok (validate_setting env s (get_value s x)) \<and> (is_namespace s \<or> item \<or> (\<forall>d. w \<noteq> DictVal d))))"

definition same_view :: "path_env \<Rightarrow> (string \<times> setting) list \<Rightarrow> (string \<times> val) list \<Rightarrow> (string \<times> val) list \<Rightarrow> bool" where
  "same_view env specs obj obj' \<longleftrightarrow>
     (\<forall>(a, s) \<in> set specs. view_val s (get_attr s a obj') = view_val s (get_attr s a obj) \<and> is_ok (validate_setting env s (get_attr s a obj')))"

definition class_roundtrips :: "path_env \<Rightarrow> (string \<times> setting) list \<Rightarrow> bool" where
  "class_roundtrips env specs \<longleftrightarrow> (\<forall>obj. validate_config env specs obj = [] \<longrightarrow> storable_obj specs obj \<longrightarrow>
     (\<exists>d obj'. dump_dict specs obj = Inr d \<and> keys d = keys specs \<and> loads env specs (flatten_dict d) [] obj' \<and> distinct (keys (flatten_dict d)) \<and>
        '''' \<notin> set (keys (flatten_dict d)) \<and> same_view env specs obj obj'))"

lemma validate_config_Nil: "wf_class env specs \<Longrightarrow> validate_config env specs obj = [] \<longleftrightarrow> (\<forall>(a, s) \<in> set specs. is_ok (validate_setting env s (get_attr s a obj)))"
proof -
  have "errors_of a (validate_setting env s v) = [] \<longleftrightarrow> is_ok (validate_setting env s v)" for a s v
  proof (cases "validate_setting env s v")
    case (Inl x)
    moreover have "es \<noteq> []" if "validate_setting env s v = Inl (ConfigurationError es)" for es
      using conf_errors_distinct [OF that] by simp
    ultimately show ?thesis by (cases x) (auto simp: prefixed_def)
  qed simp
  then show "wf_class env specs \<Longrightarrow> ?thesis" by (auto simp: validate_config_concat)
qed

lemma plain_roundtrips:
  assumes "\<not> is_namespace s" "\<forall>t mn mx d. s \<noteq> Iterable t mn mx d"
  shows "roundtrips env s"
  unfolding roundtrips_def
proof (intro allI impI)
  fix item v assume ok: "is_ok (validate_setting env s v)" and "storable item s v"
  then have v: "v \<noteq> NotSet" "item \<or> (\<forall>d. v \<noteq> DictVal d)"
    using assms unfolding storable.simps [of item s] by (auto simp: is_namespace_def split: setting.splits val.splits)
  have "serialize s v = Inr v" "unserialize env s v = Inr v" "set_value env s v = Inr v"
    using assms ok unfolding serialize.simps [of s] unserialize.simps [of env s] set_value.simps [of env s]
    by (auto simp: is_namespace_def is_ok_iff split: setting.splits)
  then show "\<exists>w u x. serialize s v = Inr w \<and> unserialize env s w = Inr u \<and> set_value env s u = Inr x \<and> view_val s (get_value s x) = view_val s v \<and>
        is_ok (validate_setting env s (get_value s x)) \<and> (is_namespace s \<or> item \<or> (\<forall>d. w \<noteq> DictVal d))"
    using v ok get_value_plain [OF assms, of v] by simp
qed

lemma map_res_choose: "(\<And>x. x \<in> set xs \<Longrightarrow> f x = Inr (g x)) \<Longrightarrow> map_res f xs = Inr (map g xs)"
  by (induction xs) auto

lemma iterable_valid:
  "is_ok (validate_setting env (Iterable t mn mx d) (ListVal vs)) \<longleftrightarrow> is_ok (check_length mn mx vs) \<and> (\<forall>x \<in> set vs. is_ok (validate_setting env t x))"
proof -
  have "is_ok (map_res f xs) \<longleftrightarrow> (\<forall>x \<in> set xs. is_ok (f x))" for f :: "val \<Rightarrow> conf_exc + bool" and xs
    by (induction xs) (auto simp: is_ok_def split: sum.splits)
  from this [of "validate_setting env t" vs] show ?thesis
    by (cases "check_length mn mx vs"; cases "map_res (validate_setting env t) vs")
      (simp_all add: validate_setting.simps [of env "Iterable t mn mx d"] validate_type_def lift_exc_def)
qed

lemma check_length_map: "length xs = length ys \<Longrightarrow> check_length mn mx xs = check_length mn mx ys"
  by (cases mn; cases mx) (simp_all add: check_length_def)

lemma iterable_roundtrips:
  assumes "roundtrips env t"
  shows "roundtrips env (Iterable t mn mx d)"
  unfolding roundtrips_def
proof (intro allI impI)
  fix item v assume ok: "is_ok (validate_setting env (Iterable t mn mx d) v)" and "storable item (Iterable t mn mx d) v"
  then obtain vs where vs: "v = ListVal vs" "\<forall>x \<in> set vs. storable True t x" by (auto simp: storable_iterable)
  have valid: "is_ok (check_length mn mx vs)" "\<forall>x \<in> set vs. is_ok (validate_setting env t x)" using ok vs(1) by (simp_all add: iterable_valid)
  have "\<forall>x \<in> set vs. \<exists>r. serialize t x = Inr (fst r) \<and> unserialize env t (fst r) = Inr (fst (snd r)) \<and> set_value env t (fst (snd r)) = Inr (snd (snd r)) \<and>
      view_val t (get_value t (snd (snd r))) = view_val t x \<and> is_ok (validate_setting env t (get_value t (snd (snd r))))"
    using assms valid(2) vs(2) unfolding roundtrips_def by fastforce
  then obtain r where r: "\<And>x. x \<in> set vs \<Longrightarrow> serialize t x = Inr (fst (r x)) \<and> unserialize env t (fst (r x)) = Inr (fst (snd (r x))) \<and>
      set_value env t (fst (snd (r x))) = Inr (snd (snd (r x))) \<and> view_val t (get_value t (snd (snd (r x)))) = view_val t x \<and>
      is_ok (validate_setting env t (get_value t (snd (snd (r x)))))" by metis
  let ?w = "map (\<lambda>x. fst (r x)) vs" and ?u = "map (\<lambda>x. fst (snd (r x))) vs" and ?x = "map (\<lambda>x. get_value t (snd (snd (r x)))) vs"
  have "serialize (Iterable t mn mx d) v = Inr (ListVal ?w)"
    using map_res_choose [of vs "serialize t" "\<lambda>x. fst (r x)"] r by (simp add: serialize.simps [of "Iterable t mn mx d"] vs(1) lift_exc_def)
  moreover have "map_res (unserialize env t) ?w = Inr ?u" using r by (induction vs) auto
  then have "unserialize env (Iterable t mn mx d) (ListVal ?w) = Inr (ListVal ?u)" by (simp add: unserialize.simps [of env "Iterable t mn mx d"] lift_exc_def)
  moreover have new: "is_ok (validate_setting env (Iterable t mn mx d) (ListVal ?x))"
    using r valid(1) check_length_map [of ?x vs] by (simp add: iterable_valid)
  have "map_res (\<lambda>item. res_bind (set_value env t item) (\<lambda>w. Inr (get_value t w))) ?u = Inr ?x" using r by (induction vs) auto
  then have "set_value env (Iterable t mn mx d) (ListVal ?u) = Inr (ListVal ?x)"
    using new by (auto simp: set_value.simps [of env "Iterable t mn mx d"] is_ok_iff)
  moreover have "view_val (Iterable t mn mx d) (ListVal ?x) = view_val (Iterable t mn mx d) v"
    using r by (simp add: view_val.simps [of "Iterable t mn mx d"] vs(1))
  ultimately show "\<exists>w u x. serialize (Iterable t mn mx d) v = Inr w \<and> unserialize env (Iterable t mn mx d) w = Inr u \<and>
      set_value env (Iterable t mn mx d) u = Inr x \<and> view_val (Iterable t mn mx d) (get_value (Iterable t mn mx d) x) = view_val (Iterable t mn mx d) v \<and>
      is_ok (validate_setting env (Iterable t mn mx d) (get_value (Iterable t mn mx d) x)) \<and> (is_namespace (Iterable t mn mx d) \<or> item \<or> (\<forall>d. w \<noteq> DictVal d))"
    using new by (intro exI [where x = "ListVal ?w"] exI [where x = "ListVal ?u"] exI [where x = "ListVal ?x"]) simp
qed

lemma serialize_namespace: "serialize (Namespace n specs) (ConfVal c obj) = res_bind (dump_dict specs obj) (\<lambda>d. Inr (DictVal d))"
  by (simp add: serialize.simps [of "Namespace n specs"] dump_dict_def)

lemma namespace_roundtrips:
  assumes "class_roundtrips env specs" "wf_class env specs"
  shows "roundtrips env (Namespace n specs)"
  unfolding roundtrips_def
proof (intro allI impI)
  fix item v assume ok: "is_ok (validate_setting env (Namespace n specs) v)" and "storable item (Namespace n specs) v"
  then obtain obj where v: "v = ConfVal n obj" "storable_obj specs obj" "validate_config env specs obj = []"
    by (auto simp: storable_namespace validate_conf split: if_splits)
  then obtain d obj' where d: "dump_dict specs obj = Inr d" "loads env specs (flatten_dict d) [] obj'" "distinct (keys (flatten_dict d))"
    "same_view env specs obj obj'" using assms(1) by (auto simp: class_roundtrips_def)
  have valid: "validate_config env specs obj' = []" using d(4) validate_config_Nil [OF assms(2)] by (auto simp: same_view_def)
  have "unserialize env (Namespace n specs) (DictVal d) = Inr (ConfVal n obj')"
    using loads_load [OF d(2,3)] by (simp add: unserialize.simps [of env "Namespace n specs"] load_dict_def new_config_def)
  moreover have "set_value env (Namespace n specs) (ConfVal n obj') = Inr (ConfVal n obj')"
    using valid by (simp add: set_value.simps [of env "Namespace n specs"] validate_conf)
  moreover have "view_val (Namespace n specs) (ConfVal n obj') = view_val (Namespace n specs) v"
    using d(4) by (auto simp: view_val.simps [of "Namespace n specs"] v(1) same_view_def)
  ultimately show "\<exists>w u x. serialize (Namespace n specs) v = Inr w \<and> unserialize env (Namespace n specs) w = Inr u \<and> set_value env (Namespace n specs) u = Inr x \<and>
      view_val (Namespace n specs) (get_value (Namespace n specs) x) = view_val (Namespace n specs) v \<and>
      is_ok (validate_setting env (Namespace n specs) (get_value (Namespace n specs) x)) \<and> (is_namespace (Namespace n specs) \<or> item \<or> (\<forall>d. w \<noteq> DictVal d))"
    using valid d(1) v(1) by (simp add: serialize_namespace validate_conf)
qed

text \<open>One attribute after the other: each brings back its own value and leaves the others alone.\<close>

definition restores :: "path_env \<Rightarrow> (string \<times> setting) list \<Rightarrow> (string \<times> val) list \<Rightarrow> string \<Rightarrow> setting \<Rightarrow> val \<Rightarrow> bool" where
  "restores env specs obj a s w \<longleftrightarrow>
     distinct (keys (flatten_val a w)) \<and> '''' \<notin> set (keys (flatten_val a w)) \<and> (\<forall>k \<in> set (keys (flatten_val a w)). fst (split_path k) = a) \<and>
     (\<forall>ob. get_instance s a ob = init_value s \<longrightarrow> (\<exists>ob'. loads env specs (flatten_val a w) ob ob' \<and> (\<forall>b. b \<noteq> a \<longrightarrow> map_of ob' b = map_of ob b) \<and>
        view_val s (get_attr s a ob') = view_val s (get_attr s a obj) \<and> is_ok (validate_setting env s (get_attr s a ob'))))"

lemma plain_restores:
  assumes "attr_name a" "map_of specs a = Some s" "\<not> is_namespace s" "roundtrips env s" "is_ok (validate_setting env s (get_attr s a obj))"
    "storable False s (get_attr s a obj)"
  shows "\<exists>w. serialize s (get_attr s a obj) = Inr w \<and> restores env specs obj a s w"
proof -
  obtain w u x where r: "serialize s (get_attr s a obj) = Inr w" "unserialize env s w = Inr u" "set_value env s u = Inr x"
    "view_val s (get_value s x) = view_val s (get_attr s a obj)" "is_ok (validate_setting env s (get_value s x))" "\<forall>d. w \<noteq> DictVal d"
    using assms(3-6) unfolding roundtrips_def by blast
  have flat: "flatten_val a w = [(a, w)]" by (rule flatten_plain [OF r(6)])
  have "loads env specs [(a, w)] ob (dict_set a x ob)" for ob
    using r(2,3) by (simp add: config_item_attr [OF assms(1,2)] get_setting_attr [OF assms(1,2)] set_item_attr [OF assms(1,2)])
  moreover have "get_attr s a (dict_set a x ob) = get_value s x" for ob by (simp add: get_attr_def)
  ultimately have "restores env specs obj a s w" unfolding restores_def flat using r(4,5) assms(1)
    by (auto simp: attr_name_def intro!: exI [where x = "dict_set a x _"])
  then show ?thesis using r(1) by blast
qed

lemma namespace_restores:
  assumes "attr_name a" "map_of specs a = Some (Namespace n nested)" "wf_class env nested" "class_roundtrips env nested"
    "is_ok (validate_setting env (Namespace n nested) (get_attr (Namespace n nested) a obj))" "storable False (Namespace n nested) (get_attr (Namespace n nested) a obj)"
  shows "\<exists>w. serialize (Namespace n nested) (get_attr (Namespace n nested) a obj) = Inr w \<and> restores env specs obj a (Namespace n nested) w"
proof -
  let ?s = "Namespace n nested"
  obtain c vs where vs: "get_attr ?s a obj = ConfVal c vs" "storable_obj nested vs" using assms(6) by (auto simp: storable_namespace)
  then have valid: "c = n" "validate_config env nested vs = []" using assms(5) by (auto simp: validate_conf split: if_splits)
  then obtain d vs' where d: "dump_dict nested vs = Inr d" "keys d = keys nested" "loads env nested (flatten_dict d) [] vs'" "distinct (keys (flatten_dict d))"
    "'''' \<notin> set (keys (flatten_dict d))" "same_view env nested vs vs'" using assms(4) vs(2) by (auto simp: class_roundtrips_def)
  have "'''' \<notin> set (keys d)" using d(2) assms(3) by (auto simp: wf_class_iff attr_name_def)
  then have flat: "flatten_val a (DictVal d) = prefixed a (flatten_dict d)" using flatten_nested assms(1) by (simp add: attr_name_def)
  have view: "view_val ?s (ConfVal n vs') = view_val ?s (get_attr ?s a obj)"
    using d(6) unfolding vs(1) valid(1) view_val.simps [of ?s] by (auto simp: same_view_def)
  have ok: "is_ok (validate_setting env ?s (ConfVal n vs'))"
    using d(6) validate_config_Nil [OF assms(3), of vs'] by (auto simp: validate_conf same_view_def)
  have "\<exists>ob'. loads env specs (prefixed a (flatten_dict d)) ob ob' \<and> (\<forall>b. b \<noteq> a \<longrightarrow> map_of ob' b = map_of ob b) \<and>
      view_val ?s (get_attr ?s a ob') = view_val ?s (get_attr ?s a obj) \<and> is_ok (validate_setting env ?s (get_attr ?s a ob'))"
    if new: "get_instance ?s a ob = init_value ?s" for ob
  proof -
    obtain ob' where ob': "loads env specs (prefixed a (flatten_dict d)) ob ob'" "get_instance ?s a ob' = ConfVal n vs'" "\<forall>b. b \<noteq> a \<longrightarrow> map_of ob' b = map_of ob b"
      using loads_nested [OF assms(1,2) d(3,5), of ob n] new by auto
    then have "get_attr ?s a ob' = ConfVal n vs'" by simp
    then show ?thesis using ob'(1,3) view ok by metis
  qed
  then have "restores env specs obj a ?s (DictVal d)" unfolding restores_def flat using d(4) assms(1) by (auto simp del: map_map)
  then show ?thesis using d(1) unfolding vs(1) serialize_namespace by simp
qed

lemma restore_all:
  assumes "\<And>a w. (a, w) \<in> set d \<Longrightarrow> \<exists>s. map_of specs a = Some s \<and> restores env specs obj a s w" "distinct (keys d)"
    "\<And>a s. a \<in> set (keys d) \<Longrightarrow> map_of specs a = Some s \<Longrightarrow> get_instance s a ob = init_value s"
  shows "\<exists>ob'. loads env specs (concat (map (\<lambda>x. flatten_val (fst x) (snd x)) d)) ob ob' \<and> (\<forall>b. b \<notin> set (keys d) \<longrightarrow> map_of ob' b = map_of ob b) \<and>
    (\<forall>a s. a \<in> set (keys d) \<longrightarrow> map_of specs a = Some s \<longrightarrow>
       view_val s (get_attr s a ob') = view_val s (get_attr s a obj) \<and> is_ok (validate_setting env s (get_attr s a ob')))"
  using assms
proof (induction d arbitrary: ob)
  case (Cons p d)
  obtain a w where p: "p = (a, w)" by (cases p)
  obtain s where s: "map_of specs a = Some s" "restores env specs obj a s w" using Cons.prems(1) [of a w] p by auto
  have "get_instance s a ob = init_value s" using Cons.prems(3) [OF _ s(1)] p by simp
  then obtain ob1 where ob1: "loads env specs (flatten_val a w) ob ob1" "\<forall>b. b \<noteq> a \<longrightarrow> map_of ob1 b = map_of ob b"
    "view_val s (get_attr s a ob1) = view_val s (get_attr s a obj)" "is_ok (validate_setting env s (get_attr s a ob1))"
    using s(2) unfolding restores_def by blast
  have new: "a \<notin> set (keys d)" "distinct (keys d)" using Cons.prems(2) p by simp_all
  have "get_instance t b ob1 = init_value t" if "b \<in> set (keys d)" "map_of specs b = Some t" for b t
  proof -
    have "b \<noteq> a" using that(1) new(1) by auto
    then have "get_instance t b ob1 = get_instance t b ob" using ob1(2) by (simp add: get_instance_def)
    then show ?thesis using Cons.prems(3) [OF _ that(2)] that(1) p by simp
  qed
  moreover have "\<exists>s. map_of specs b = Some s \<and> restores env specs obj b s x" if "(b, x) \<in> set d" for b x
    by (rule Cons.prems(1)) (use that in simp)
  ultimately obtain ob' where ob': "loads env specs (concat (map (\<lambda>x. flatten_val (fst x) (snd x)) d)) ob1 ob'"
    "\<forall>b. b \<notin> set (keys d) \<longrightarrow> map_of ob' b = map_of ob1 b"
    "\<forall>a s. a \<in> set (keys d) \<longrightarrow> map_of specs a = Some s \<longrightarrow>
       view_val s (get_attr s a ob') = view_val s (get_attr s a obj) \<and> is_ok (validate_setting env s (get_attr s a ob'))"
    using Cons.IH [OF _ new(2), of ob1] by blast
  have "get_attr s a ob' = get_attr s a ob1" using ob'(2) new(1) by (simp add: get_attr_def get_instance_def)
  then have "view_val t (get_attr t b ob') = view_val t (get_attr t b obj) \<and> is_ok (validate_setting env t (get_attr t b ob'))"
    if "b \<in> set (keys (p # d))" "map_of specs b = Some t" for b t using that ob'(3) ob1(3,4) s(1) p by (cases "b = a") auto
  then show ?case using loads_append [OF ob1(1) ob'(1)] ob'(2) ob1(2) p by (intro exI [where x = ob']) auto
qed auto

lemma flatten_distinct:
  assumes "\<And>x. x \<in> set d \<Longrightarrow> distinct (keys (flatten_val (fst x) (snd x))) \<and> (\<forall>k \<in> set (keys (flatten_val (fst x) (snd x))). fst (split_path k) = fst x)"
    "distinct (keys d)"
  shows "distinct (keys (concat (map (\<lambda>x. flatten_val (fst x) (snd x)) d)))"
  using assms
proof (induction d)
  case (Cons p d)
  have "fst (split_path k) \<in> set (keys d)" if "k \<in> set (keys (concat (map (\<lambda>x. flatten_val (fst x) (snd x)) d)))" for k
  proof -
    obtain x where "x \<in> set d" "k \<in> set (keys (flatten_val (fst x) (snd x)))" using \<open>k \<in> _\<close> by auto
    then show ?thesis using Cons.prems(1) [of x] by auto
  qed
  moreover have "fst (split_path k) \<notin> set (keys d)" if "k \<in> set (keys (flatten_val (fst p) (snd p)))" for k
    using Cons.prems(1) [of p] Cons.prems(2) that by (simp del: set_map)
  ultimately have "set (keys (flatten_val (fst p) (snd p))) \<inter> set (keys (concat (map (\<lambda>x. flatten_val (fst x) (snd x)) d))) = {}" by blast
  then show ?case using Cons.IH Cons.prems by (simp add: map_concat)
qed simp

lemma class_restores:
  assumes "wf_class env specs" "\<And>a s. (a, s) \<in> set specs \<Longrightarrow> \<exists>w. serialize s (get_attr s a obj) = Inr w \<and> restores env specs obj a s w"
  shows "\<exists>d obj'. dump_dict specs obj = Inr d \<and> keys d = keys specs \<and> loads env specs (flatten_dict d) [] obj' \<and> distinct (keys (flatten_dict d)) \<and>
        '''' \<notin> set (keys (flatten_dict d)) \<and> same_view env specs obj obj'"
proof -
  have "\<forall>p \<in> set specs. \<exists>w. serialize (snd p) (get_attr (snd p) (fst p) obj) = Inr w \<and> restores env specs obj (fst p) (snd p) w" using assms(2) by auto
  then obtain W where W: "\<And>p. p \<in> set specs \<Longrightarrow> serialize (snd p) (get_attr (snd p) (fst p) obj) = Inr (W p) \<and> restores env specs obj (fst p) (snd p) (W p)" by metis
  let ?d = "map (\<lambda>p. (fst p, W p)) specs"
  let ?L = "sort_key fst ?d"
  have dump: "dump_dict specs obj = Inr ?d" unfolding dump_dict_def by (rule map_res_choose) (use W in \<open>auto simp: case_prod_beta\<close>)
  have keys: "keys ?d = keys specs" by simp
  have "mset (keys ?L) = mset (keys ?d)" unfolding mset_map mset_sort by (rule refl)
  then have distinct: "distinct (keys ?L)" using assms(1) keys mset_eq_imp_distinct_iff by (metis wf_class_iff)
  have at: "\<exists>s. map_of specs a = Some s \<and> restores env specs obj a s w" if "(a, w) \<in> set ?L" for a w
    using that W wf_class_map_of [OF assms(1)] by (auto simp: image_iff)
  obtain obj' where obj': "loads env specs (flatten_dict ?d) [] obj'"
    "\<forall>a s. a \<in> set (keys ?L) \<longrightarrow> map_of specs a = Some s \<longrightarrow>
       view_val s (get_attr s a obj') = view_val s (get_attr s a obj) \<and> is_ok (validate_setting env s (get_attr s a obj'))"
    using restore_all [OF at distinct, of "[]"] unfolding flatten_dict_concat by auto
  have each: "distinct (keys (flatten_val (fst x) (snd x))) \<and> '''' \<notin> set (keys (flatten_val (fst x) (snd x))) \<and>
      (\<forall>k \<in> set (keys (flatten_val (fst x) (snd x))). fst (split_path k) = fst x)" if "x \<in> set ?L" for x
    using at [of "fst x" "snd x"] that by (auto simp: restores_def)
  have "distinct (keys (flatten_dict ?d))" unfolding flatten_dict_concat by (rule flatten_distinct [OF _ distinct]) (use each in blast)
  moreover have "set (keys (flatten_dict ?d)) = (\<Union>x \<in> set ?L. set (keys (flatten_val (fst x) (snd x))))" unfolding flatten_dict_concat by auto
  then have "'''' \<notin> set (keys (flatten_dict ?d))" using each by blast
  moreover have "same_view env specs obj obj'" unfolding same_view_def
    using obj'(2) wf_class_map_of [OF assms(1)] by (auto simp: image_iff)
  ultimately show ?thesis using dump keys obj'(1) by blast
qed

lemma class_roundtrips_step:
  assumes "wf_class env specs" "\<And>s. size s < size_specs specs \<Longrightarrow> wf_setting env s \<Longrightarrow> roundtrips env s"
    "\<And>nested. size_specs nested < size_specs specs \<Longrightarrow> wf_class env nested \<Longrightarrow> class_roundtrips env nested"
  shows "class_roundtrips env specs"
  unfolding class_roundtrips_def
proof (intro allI impI)
  fix obj assume valid: "validate_config env specs obj = []" and storable: "storable_obj specs obj"
  have "\<exists>w. serialize s (get_attr s a obj) = Inr w \<and> restores env specs obj a s w" if as: "(a, s) \<in> set specs" for a s
  proof -
    have a: "map_of specs a = Some s" by (rule wf_class_map_of [OF assms(1) as])
    then have wf: "attr_name a" "wf_setting env s" using wf_class_at [OF assms(1)] by auto
    have ok: "is_ok (validate_setting env s (get_attr s a obj))" "storable False s (get_attr s a obj)"
      using valid storable as validate_config_Nil [OF assms(1)] by (auto simp: storable_obj_def)
    show ?thesis
    proof (cases "is_namespace s")
      case True
      then obtain n nested where s: "s = Namespace n nested" by (rule is_namespace_cases)
      have "size_specs nested < size_specs specs" using size_specs_mem [OF as] by (simp add: s size_namespace del: setting.size)
      then have "class_roundtrips env nested" using assms(3) wf(2) s by simp
      then show ?thesis using namespace_restores [OF wf(1) a [unfolded s]] wf(2) ok by (simp add: s)
    next
      case False
      have "roundtrips env s" by (rule assms(2) [OF size_specs_mem [OF as] wf(2)])
      then show ?thesis by (rule plain_restores [OF wf(1) a False _ ok])
    qed
  qed
  from class_restores [OF assms(1) this] show "\<exists>d obj'. dump_dict specs obj = Inr d \<and> keys d = keys specs \<and> loads env specs (flatten_dict d) [] obj' \<and>
    distinct (keys (flatten_dict d)) \<and> '''' \<notin> set (keys (flatten_dict d)) \<and> same_view env specs obj obj'" .
qed

lemma setting_roundtrips_step:
  assumes "wf_setting env s" "\<And>t. size t < size s \<Longrightarrow> wf_setting env t \<Longrightarrow> roundtrips env t"
    "\<And>specs. size_specs specs < size s \<Longrightarrow> wf_class env specs \<Longrightarrow> class_roundtrips env specs"
  shows "roundtrips env s"
proof -
  consider n specs where "s = Namespace n specs" | t mn mx d where "s = Iterable t mn mx d" | "\<not> is_namespace s" "\<forall>t mn mx d. s \<noteq> Iterable t mn mx d"
    by (metis is_namespace_cases)
  then show ?thesis
  proof cases
    case (1 n specs)
    then have "wf_class env specs" "class_roundtrips env specs" using assms(1,3) by (simp_all add: size_namespace del: setting.size)
    then show ?thesis using namespace_roundtrips 1 by simp
  next
    case (2 t mn mx d)
    have "wf_setting env t" using assms(1) unfolding 2 wf_setting.simps [of env "Iterable t mn mx d"] by simp
    then show ?thesis using iterable_roundtrips assms(2) 2 by simp
  qed (rule plain_roundtrips)
qed

lemma class_roundtrips: "wf_class env specs \<Longrightarrow> class_roundtrips env specs"
proof -
  have "(\<forall>s. size s < k \<longrightarrow> wf_setting env s \<longrightarrow> roundtrips env s) \<and> (\<forall>specs. size_specs specs < k \<longrightarrow> wf_class env specs \<longrightarrow> class_roundtrips env specs)" for k
  proof (induction k)
    case (Suc k)
    have "roundtrips env s" if "size s < Suc k" "wf_setting env s" for s
      by (rule setting_roundtrips_step [OF that(2)]) (use Suc that(1) in auto)
    moreover have "class_roundtrips env specs" if "size_specs specs < Suc k" "wf_class env specs" for specs
      by (rule class_roundtrips_step [OF that(2)]) (use Suc that(1) in auto)
    ultimately show ?case by blast
  qed simp
  from this [of "Suc (size_specs specs)"] show "wf_class env specs \<Longrightarrow> ?thesis" by blast
qed

text \<open>
  C20: a configuration that validates and whose values a dump can bring back is dumped without an exception; loading the dump into a new
  object of the class raises nothing, and the new object validates and shows a reader the same values, in namespaces and lists as well.
\<close>

theorem config_roundtrip:
  assumes "wf_class env specs" "validate_config env specs obj = []" "storable_obj specs obj"
  shows "\<exists>d obj'. dump_dict specs obj = Inr d \<and> load_dict env specs d [] = (None, obj') \<and> view_config specs obj' = view_config specs obj \<and>
    validate_config env specs obj' = []"
proof -
  obtain d obj' where d: "dump_dict specs obj = Inr d" "loads env specs (flatten_dict d) [] obj'" "distinct (keys (flatten_dict d))" "same_view env specs obj obj'"
    using class_roundtrips [OF assms(1)] assms(2,3) by (auto simp: class_roundtrips_def)
  have "view_config specs obj' = view_config specs obj" using d(4) by (auto simp: view_config_def same_view_def)
  moreover have "validate_config env specs obj' = []" using d(4) by (auto simp: validate_config_Nil [OF assms(1)] same_view_def)
  ultimately show ?thesis using d(1) loads_load [OF d(2,3)] by simp
qed

section \<open>Examples\<close>

text \<open>A class with a namespace in a namespace, a bounded number, and an optional list of short strings.\<close>

definition example_rule :: string_rule where
  "example_rule = \<lparr>sr_regex = None, sr_minlen = None, sr_maxlen = Some 5\<rparr>"

definition example_schema :: "(string \<times> setting) list" where
  "example_schema =
     [(''a'', Namespace ''Outer'' [(''b'', Namespace ''Inner'' [(''c'', Integer (Some 0) None NotSet)])]),
      (''n'', Integer None (Some 10) NotSet),
      (''names'', Iterable (String example_rule NotSet) None None NoneVal)]"

definition no_files :: path_env where
  "no_files = \<lparr>os_isfile = (\<lambda>_. False), os_read = (\<lambda>_. False), os_write = (\<lambda>_. False), os_execute = (\<lambda>_. False)\<rparr>"

definition example_config :: "(string \<times> val) list" where
  "example_config = [(''a'', ConfVal ''Outer'' [(''b'', ConfVal ''Inner'' [(''c'', IntVal 5)])]), (''names'', ListVal [StrVal ''foo'', StrVal ''bar''])]"

lemma example_config_loaded:
  "load_dict no_files example_schema [(''names'', ListVal [StrVal ''foo'', StrVal ''bar'']), (''a'', DictVal [(''b'', DictVal [(''c'', IntVal 5)])])] [] = (None, example_config)"
  by code_simp

lemma example_schema_wf: "wf_class no_files example_schema"
  by code_simp

text \<open>The number has not been set.\<close>

theorem validate_reports_missing_witness:
  "(''n'', TypeError) \<in> set (validate_config no_files example_schema example_config) \<and> (''a.b.c'', TypeError) \<notin> set (validate_config no_files example_schema example_config)"
proof -
  have "conf_step no_files example_schema [] example_config" by (rule step_load [OF example_config_loaded])
  then have reach: "reachable (\<lambda>obj. obj = []) (conf_step no_files example_schema) example_config" by (blast intro: reachable.intros)
  have attrs: "attr_name ''a''" "attr_name ''b''" "attr_name ''c''" "attr_name ''n''" by (simp_all add: attr_name_def)
  have n: "get_setting example_schema ''n'' = Inr (Integer None (Some 10) NotSet)" by (rule get_setting_attr [OF attrs(4)]) (simp add: example_schema_def)
  have c: "get_setting [(''c'', Integer (Some 0) None NotSet)] ''c'' = Inr (Integer (Some 0) None NotSet)" by (rule get_setting_attr [OF attrs(3)]) simp
  have "get_setting [(''b'', Namespace ''Inner'' [(''c'', Integer (Some 0) None NotSet)])] (''b'' @ CHR ''.'' # ''c'') = Inr (Integer (Some 0) None NotSet)"
    using c by (subst get_setting_nested [OF attrs(2), of _ "''Inner''" "[(''c'', Integer (Some 0) None NotSet)]"]) simp_all
  then have "get_setting example_schema (''a'' @ CHR ''.'' # ''b.c'') = Inr (Integer (Some 0) None NotSet)"
    by (subst get_setting_nested [OF attrs(1), of _ "''Outer''" "[(''b'', Namespace ''Inner'' [(''c'', Integer (Some 0) None NotSet)])]"]) (simp_all add: example_schema_def)
  then have settings: "get_setting example_schema ''n'' = Inr (Integer None (Some 10) NotSet)" "get_setting example_schema ''a.b.c'' = Inr (Integer (Some 0) None NotSet)"
    using n by simp_all
  have items: "get_item example_schema ''n'' example_config = Inr NotSet" by code_simp
  have nested: "get_item example_schema ''a.b.c'' example_config = Inr (IntVal 5)" by code_simp
  have name: "''n'' \<in> set (list_ns_settings example_schema)" by code_simp
  have invalid: "validate_setting no_files (Integer None (Some 10) NotSet) NotSet = Inl (Exc TypeError)" by code_simp
  show ?thesis unfolding validate_reports_missing [OF example_schema_wf reach] by (simp add: settings items nested name invalid)
qed

theorem config_roundtrip_witness:
  "\<exists>d obj'. dump_dict example_schema (dict_set ''n'' (IntVal 7) example_config) = Inr d \<and> load_dict no_files example_schema d [] = (None, obj') \<and>
     view_config example_schema obj' = view_config example_schema (dict_set ''n'' (IntVal 7) example_config) \<and> validate_config no_files example_schema obj' = []"
proof (rule config_roundtrip [OF example_schema_wf])
  show "validate_config no_files example_schema (dict_set ''n'' (IntVal 7) example_config) = []" by code_simp
  show "storable_obj example_schema (dict_set ''n'' (IntVal 7) example_config)" by code_simp
qed

text \<open>
  Five examples of what to expect when loading and dumping. A key with a dot at its end is accepted, but its value does not reach the setting; a nested value that is repeated under its
  path, as the documentation has it, is refused as a duplicate and the other one stays; a valid configuration with an optional
  list that is not given cannot be dumped; a dump of a dictionary as value cannot be loaded; and a file named after an unknown setting of a
  namespace is not passed over but stops the reading.
\<close>

theorem config_surprises:
  "(\<exists>obj. load_dict no_files example_schema [(''n.'', IntVal 3)] [] = (None, obj) \<and> get_item example_schema ''n'' obj = Inr NotSet) \<and>
   (\<exists>obj. load_dict no_files example_schema [(''a.b.c'', IntVal 1), (''a'', DictVal [(''b'', DictVal [(''c'', IntVal 2)])])] [] =
      (Some (ConfigurationError [(''a.b.c'', ValueError)]), obj) \<and> get_item example_schema ''a.b.c'' obj = Inr (IntVal 2)) \<and>
   (\<exists>obj. load_dict no_files example_schema [(''n'', IntVal 3), (''a.b.c'', IntVal 1)] [] = (None, obj) \<and> validate_config no_files example_schema obj = [] \<and>
      dump_dict example_schema obj = Inl (Exc TypeError)) \<and>
   (\<exists>d. dump_dict [(''d'', Setting NotSet)] [(''d'', DictVal [(''x'', IntVal 1)])] = Inr d \<and>
      load_dict no_files [(''d'', Setting NotSet)] d [] = (Some (ConfigurationError [(''d.x'', OtherError ''Exception'')]), [])) \<and>
   fst (read_config_dirs no_files example_schema None [[(''unknown'', [])], [(''a.unknown'', [])]] []) = Some (Exc KeyError)"
proof (intro conjI)
  show "\<exists>obj. load_dict no_files example_schema [(''n.'', IntVal 3)] [] = (None, obj) \<and> get_item example_schema ''n'' obj = Inr NotSet"
    by (rule exI [where x = "[(''n.'', IntVal 3)]"]) code_simp
  show "\<exists>obj. load_dict no_files example_schema [(''a.b.c'', IntVal 1), (''a'', DictVal [(''b'', DictVal [(''c'', IntVal 2)])])] [] =
      (Some (ConfigurationError [(''a.b.c'', ValueError)]), obj) \<and> get_item example_schema ''a.b.c'' obj = Inr (IntVal 2)"
    by (rule exI [where x = "[(''a'', ConfVal ''Outer'' [(''b'', ConfVal ''Inner'' [(''c'', IntVal 2)])])]"]) code_simp
  show "\<exists>obj. load_dict no_files example_schema [(''n'', IntVal 3), (''a.b.c'', IntVal 1)] [] = (None, obj) \<and> validate_config no_files example_schema obj = [] \<and>
      dump_dict example_schema obj = Inl (Exc TypeError)"
    by (rule exI [where x = "[(''a'', ConfVal ''Outer'' [(''b'', ConfVal ''Inner'' [(''c'', IntVal 1)])]), (''n'', IntVal 3)]"]) code_simp
  show "\<exists>d. dump_dict [(''d'', Setting NotSet)] [(''d'', DictVal [(''x'', IntVal 1)])] = Inr d \<and>
      load_dict no_files [(''d'', Setting NotSet)] d [] = (Some (ConfigurationError [(''d.x'', OtherError ''Exception'')]), [])"
    by (rule exI [where x = "[(''d'', DictVal [(''x'', IntVal 1)])]"]) code_simp
  show "fst (read_config_dirs no_files example_schema None [[(''unknown'', [])], [(''a.unknown'', [])]] []) = Some (Exc KeyError)" by code_simp
qed

end
