(* ===== verification/String_Match.thy ===== *)
theory String_Match
  imports Py_Strings "HOL-Library.Sublist"
begin

text \<open>
  How different two names are: \<^verbatim>\<open>src/Cerebrum/utils/stringmatch.py\<close>. The distance fills a matrix, row by row, in which a space in
  front of both strings makes room for the empty prefix; an index below zero counts from the end, as in Python. It is shown to be
  the least number of deletions, insertions, substitutions and exchanges of neighbours, as long as there are no spaces, and the difference of two
  names to be zero exactly if the words of the shorter one occur in the other in their order.
\<close>

section \<open>The distance\<close>

definition at :: "'a list \<Rightarrow> int \<Rightarrow> 'a" where
  "at xs i = xs ! nat (if i < 0 then i + int (length xs) else i)"

definition possible_choices :: "string \<Rightarrow> string \<Rightarrow> nat list list \<Rightarrow> nat \<Rightarrow> nat \<Rightarrow> nat list" where
  "possible_choices first second m i j =
     [m ! (i - 1) ! j + 1, m ! i ! (j - 1) + 1,
      if first ! j = second ! i then m ! (i - 1) ! (j - 1)
      else if first ! j = second ! (i - 1) \<and> first ! (j - 1) = second ! i then at (at m (int i - 2)) (int j - 2) + 1
      else m ! (i - 1) ! (j - 1) + 1]"

definition fill_cell :: "string \<Rightarrow> string \<Rightarrow> nat \<Rightarrow> nat \<Rightarrow> nat list list \<Rightarrow> nat list list" where
  "fill_cell first second i j m = m[i := (m ! i)[j := Min (set (possible_choices first second m i j))]]"

definition fill_row :: "string \<Rightarrow> string \<Rightarrow> nat \<Rightarrow> nat list list \<Rightarrow> nat list list" where
  "fill_row first second i m = fold (fill_cell first second i) [1..<length (m ! 0)] m"

definition initial_matrix :: "nat \<Rightarrow> nat \<Rightarrow> nat list list" where
  "initial_matrix rows columns =
     (let m = replicate rows (replicate columns 0);
          m = fold (\<lambda>i m. m[i := (m ! i)[0 := i]]) [0..<rows] m
      in fold (\<lambda>j m. m[0 := (m ! 0)[j := j]]) [0..<columns] m)"

definition restricted_damarau_levenshtein :: "string \<Rightarrow> string \<Rightarrow> nat" where
  "restricted_damarau_levenshtein first second =
     (let first = CHR '' '' # first; second = CHR '' '' # second;
          m = initial_matrix (length second) (length first);
          m = fold (fill_row first second) [1..<length m] m
      in at (at m (- 1)) (- 1))"

section \<open>The difference of names\<close>

function words :: "string \<Rightarrow> string list" where
  "words [] = []"
| "words (c # s) = (if is_space c then words s else takeWhile (\<lambda>c. \<not> is_space c) (c # s) # words (dropWhile (\<lambda>c. \<not> is_space c) s))"
  by pat_completeness auto

termination
  by (relation "measure length") (auto simp: length_dropWhile_le less_Suc_eq_le)

definition best_match :: "string \<Rightarrow> string list \<Rightarrow> nat \<times> nat" where
  "best_match n1 names2 =
     fold (\<lambda>(i, n2) best. let diff = restricted_damarau_levenshtein n1 n2 in if diff < snd best then (i, diff) else best) (zip [1..<Suc (length names2)] names2) (0, 5)"

fun diff_loop :: "int \<Rightarrow> nat \<Rightarrow> string list \<Rightarrow> string list \<Rightarrow> nat" where
  "diff_loop threshold total_difference [] names2 = total_difference"
| "diff_loop threshold total_difference (n1 # names1) names2 =
     (let best = best_match n1 names2; total_difference = total_difference + snd best; names2 = drop (fst best) names2
      in if int total_difference > threshold then total_difference else diff_loop threshold total_difference names1 names2)"

definition name_diff :: "string \<Rightarrow> string \<Rightarrow> int \<Rightarrow> nat" where
  "name_diff full_name1 full_name2 threshold =
     (let names1 = words full_name1; names2 = words full_name2
      in if length names1 > length names2 then diff_loop threshold 0 names2 names1 else diff_loop threshold 0 names1 names2)"

section \<open>Edits\<close>

inductive edits :: "'a list \<Rightarrow> 'a list \<Rightarrow> nat \<Rightarrow> bool" where
  nothing: "edits [] [] 0"
| same: "edits xs ys n \<Longrightarrow> edits (x # xs) (x # ys) n"
| delete: "edits xs ys n \<Longrightarrow> edits (x # xs) ys (Suc n)"
| insertion: "edits xs ys n \<Longrightarrow> edits xs (y # ys) (Suc n)"
| substitute: "edits xs ys n \<Longrightarrow> edits (x # xs) (y # ys) (Suc n)"
| transpose: "edits xs ys n \<Longrightarrow> edits (x # y # xs) (y # x # ys) (Suc n)"

text \<open>The distance by recursion, as the matrix has it, from the front.\<close>

fun osa :: "'a list \<Rightarrow> 'a list \<Rightarrow> nat" where
  "osa [] ys = length ys"
| "osa xs [] = length xs"
| "osa (x # xs) (y # ys) =
     min (osa (x # xs) ys + 1) (min (osa xs (y # ys) + 1)
       (if x = y then osa xs ys
        else if xs \<noteq> [] \<and> ys \<noteq> [] \<and> x = hd ys \<and> hd xs = y then osa (tl xs) (tl ys) + 1
        else osa xs ys + 1))"

lemma osa_Nil [simp]: "osa xs [] = length xs"
  by (cases xs) simp_all

declare osa.simps(3) [simp del]

lemma osa_delete: "osa (x # xs) ys \<le> osa xs ys + 1"
  by (cases ys) (simp_all add: osa.simps(3))

lemma osa_insert: "osa xs (y # ys) \<le> osa xs ys + 1"
  by (cases xs) (simp_all add: osa.simps(3))

lemma osa_same: "osa (x # xs) (x # ys) \<le> osa xs ys"
  by (simp add: osa.simps(3))

lemma osa_substitute:
  assumes "\<And>us vs. xs = y # us \<Longrightarrow> ys = x # vs \<Longrightarrow> x = y"
  shows "osa (x # xs) (y # ys) \<le> osa xs ys + 1"
proof -
  have "xs \<noteq> [] \<and> ys \<noteq> [] \<and> x = hd ys \<and> hd xs = y \<longrightarrow> x = y" using assms [of "tl xs" "tl ys"] by (metis list.collapse)
  then show ?thesis unfolding osa.simps(3) by (cases "x = y"; cases "xs \<noteq> [] \<and> ys \<noteq> [] \<and> x = hd ys \<and> hd xs = y") auto
qed

lemma osa_transpose: "osa (x # y # xs) (y # x # ys) \<le> osa xs ys + 1"
proof (cases "x = y")
  case True
  have "osa (y # y # xs) (y # y # ys) \<le> osa xs ys" using osa_same [of y "y # xs" "y # ys"] osa_same [of y xs ys] by (rule order_trans)
  then show ?thesis using True by simp
next
  case False
  then show ?thesis unfolding osa.simps(3) [of x "y # xs"] by simp
qed

lemma osa_cases:
  obtains "osa (x # xs) (y # ys) = osa (x # xs) ys + 1" | "osa (x # xs) (y # ys) = osa xs (y # ys) + 1"
  | "x = y" "osa (x # xs) (y # ys) = osa xs ys" | "osa (x # xs) (y # ys) = osa xs ys + 1"
  | us vs where "xs = y # us" "ys = x # vs" "osa (x # xs) (y # ys) = osa us vs + 1"
proof -
  have "osa (x # xs) (y # ys) = osa (x # xs) ys + 1 \<or> osa (x # xs) (y # ys) = osa xs (y # ys) + 1 \<or> (x = y \<and> osa (x # xs) (y # ys) = osa xs ys) \<or>
      osa (x # xs) (y # ys) = osa xs ys + 1 \<or> (xs \<noteq> [] \<and> ys \<noteq> [] \<and> x = hd ys \<and> hd xs = y \<and> osa (x # xs) (y # ys) = osa (tl xs) (tl ys) + 1)"
    unfolding osa.simps(3) min_def by (simp split: if_splits)
  then show ?thesis using that by (metis list.collapse)
qed

lemma osa_edits: "edits xs ys (osa xs ys)"
proof (induction "length xs + length ys" arbitrary: xs ys rule: less_induct)
  case less
  have nil: "edits [] zs (length zs)" "edits zs [] (length zs)" for zs :: "'a list" by (induction zs) (auto intro: edits.intros)
  show ?case
  proof (cases xs)
    case (Cons x us)
    show ?thesis
    proof (cases ys)
      case ys: (Cons y vs)
      show ?thesis unfolding Cons ys
      proof (rule osa_cases [where x = x and xs = us and y = y and ys = vs], goal_cases)
        case 1
        then show "edits (x # us) (y # vs) (osa (x # us) (y # vs))" using less [of "x # us" vs] Cons ys by (simp add: insertion)
      next
        case 2
        then show "edits (x # us) (y # vs) (osa (x # us) (y # vs))" using less [of us "y # vs"] Cons ys by (simp add: delete)
      next
        case 3
        then show "edits (x # us) (y # vs) (osa (x # us) (y # vs))" using less [of us vs] Cons ys by (simp add: same)
      next
        case 4
        then show "edits (x # us) (y # vs) (osa (x # us) (y # vs))" using less [of us vs] Cons ys by (simp add: substitute)
      next
        case (5 us' vs')
        then show "edits (x # us) (y # vs) (osa (x # us) (y # vs))" using less [of us' vs'] Cons ys by (simp add: transpose)
      qed
    qed (use nil in simp)
  qed (use nil in simp)
qed

text \<open>Neighbours differ by at most one, and the distance grows along a diagonal; so the exchange never costs more than the substitution it replaces.\<close>

lemma osa_neighbours:
  "(\<forall>x. osa xs ys \<le> osa (x # xs) ys + 1) \<and> (\<forall>y. osa xs ys \<le> osa xs (y # ys) + 1) \<and>
   (\<forall>x y. osa (x # xs) (y # ys) \<le> osa xs ys + 1) \<and> (\<forall>x y. osa xs ys \<le> osa (x # xs) (y # ys))"
proof (induction "length xs + length ys" arbitrary: xs ys rule: less_induct)
  case less
  have smaller: "osa us vs \<le> osa (x # us) vs + 1" "osa us vs \<le> osa us (y # vs) + 1" "osa (x # us) (y # vs) \<le> osa us vs + 1" "osa us vs \<le> osa (x # us) (y # vs)"
    if "length us + length vs < length xs + length ys" for us vs :: "'a list" and x y using less [OF that] by blast+
  have sub: "osa (x # xs) (y # ys) \<le> osa xs ys + 1" for x y
  proof (cases "\<exists>us vs. xs = y # us \<and> ys = x # vs \<and> x \<noteq> y")
    case True
    then obtain us vs where eq: "xs = y # us" "ys = x # vs" by blast
    then show ?thesis using osa_transpose [of x y us vs] smaller(4) [of us vs y x] by simp
  next
    case False
    then show ?thesis by (intro osa_substitute) blast
  qed
  have del: "osa xs ys \<le> osa (x # xs) ys + 1" for x
  proof (cases ys)
    case (Cons y vs)
    have one: "osa xs (y # vs) \<le> osa xs vs + 1" by (rule osa_insert)
    show ?thesis unfolding Cons
    proof (rule osa_cases [where x = x and xs = xs and y = y and ys = vs], goal_cases)
      case 1
      then show "osa xs (y # vs) \<le> osa (x # xs) (y # vs) + 1" using one smaller(1) [of xs vs x] Cons by simp
    next
      case (5 us ws)
      then show "osa xs (y # vs) \<le> osa (x # xs) (y # vs) + 1" using osa_same [of y us "x # ws"] osa_insert [of us x ws] by simp
    qed (use one in simp_all)
  qed simp
  have ins: "osa xs ys \<le> osa xs (y # ys) + 1" for y
  proof (cases xs)
    case (Cons x us)
    have one: "osa (x # us) ys \<le> osa us ys + 1" by (rule osa_delete)
    show ?thesis unfolding Cons
    proof (rule osa_cases [where x = x and xs = us and y = y and ys = ys], goal_cases)
      case 2
      then show "osa (x # us) ys \<le> osa (x # us) (y # ys) + 1" using one smaller(2) [of us ys y] Cons by simp
    next
      case (5 ws vs)
      then show "osa (x # us) ys \<le> osa (x # us) (y # ys) + 1" using osa_same [of x "y # ws" vs] osa_delete [of y ws vs] by simp
    qed (use one in simp_all)
  qed simp
  have "osa xs ys \<le> osa (x # xs) (y # ys)" for x y
  proof (rule osa_cases [where x = x and xs = xs and y = y and ys = ys], goal_cases)
    case (5 us vs)
    then show ?thesis using smaller(3) [of us vs y x] by simp
  qed (use del [of x] ins [of y] in simp_all)
  then show ?case using sub del ins by blast
qed

lemma osa_least: "edits xs ys n \<Longrightarrow> osa xs ys \<le> n"
proof (induction rule: edits.induct)
  case (delete xs ys n x)
  then show ?case using osa_delete [of x xs ys] by simp
next
  case (insertion xs ys n y)
  then show ?case using osa_insert [of xs y ys] by simp
next
  case (substitute xs ys n x y)
  have "osa (x # xs) (y # ys) \<le> osa xs ys + 1" using osa_neighbours [of xs ys] by blast
  then show ?case using substitute by simp
next
  case (transpose xs ys n x y)
  then show ?case using osa_transpose [of x y xs ys] by simp
next
  case (same xs ys n x)
  then show ?case using osa_same [of x xs ys] by simp
qed simp

lemma edits_append: "edits xs ys n \<Longrightarrow> edits us vs m \<Longrightarrow> edits (xs @ us) (ys @ vs) (n + m)"
  by (induction rule: edits.induct) (simp_all add: edits.intros)

lemma edits_rev: "edits xs ys n \<Longrightarrow> edits (rev xs) (rev ys) n"
proof (induction rule: edits.induct)
  case (same xs ys n x)
  have "edits [x] [x] 0" by (rule edits.same [OF edits.nothing])
  then show ?case using edits_append [OF same.IH, of "[x]" "[x]" 0] by simp
next
  case (delete xs ys n x)
  then show ?case using edits_append [OF delete.IH edits.delete [OF edits.nothing]] by simp
next
  case (insertion xs ys n y)
  then show ?case using edits_append [OF insertion.IH edits.insertion [OF edits.nothing]] by simp
next
  case (substitute xs ys n x y)
  then show ?case using edits_append [OF substitute.IH edits.substitute [OF edits.nothing]] by simp
next
  case (transpose xs ys n x y)
  then show ?case using edits_append [OF transpose.IH edits.transpose [OF edits.nothing]] by simp
qed (simp add: edits.nothing)

lemma edits_zero: "edits xs ys 0 \<longleftrightarrow> xs = ys"
proof
  show "edits xs ys 0 \<Longrightarrow> xs = ys" by (induction xs ys "0 :: nat" rule: edits.induct) simp_all
  have "edits xs xs 0" by (induction xs) (auto intro: edits.intros)
  then show "xs = ys \<Longrightarrow> edits xs ys 0" by simp
qed

section \<open>The matrix\<close>

text \<open>What holds after the rounds of a loop over numbers.\<close>

lemma fold_upt_inv:
  assumes "a \<le> b" "P a m" "\<And>i m. a \<le> i \<Longrightarrow> i < b \<Longrightarrow> P i m \<Longrightarrow> P (Suc i) (f i m)"
  shows "P b (fold f [a..<b] m)"
  using assms
proof (induction b rule: nat_induct_at_least)
  case (Suc b)
  then show ?case by (simp add: upt_Suc)
qed simp

text \<open>The entry for prefixes of the two strings.\<close>

definition entry :: "'a list \<Rightarrow> 'a list \<Rightarrow> nat \<Rightarrow> nat \<Rightarrow> nat" where
  "entry first second i j = osa (rev (take j first)) (rev (take i second))"

lemma entry_borders: "j \<le> length first \<Longrightarrow> entry first second 0 j = j" "i \<le> length second \<Longrightarrow> entry first second i 0 = i"
  by (simp_all add: entry_def)

lemma rev_take_Suc: "j < length xs \<Longrightarrow> rev (take (Suc j) xs) = xs ! j # rev (take j xs)"
  by (simp add: take_Suc_conv_app_nth)

lemma entry_step:
  assumes "i < length second" "j < length first"
  shows "entry first second (Suc i) (Suc j) = min (entry first second i (Suc j) + 1) (min (entry first second (Suc i) j + 1)
    (if first ! j = second ! i then entry first second i j
     else if 0 < j \<and> 0 < i \<and> first ! j = second ! (i - 1) \<and> first ! (j - 1) = second ! i then entry first second (i - 1) (j - 1) + 1
     else entry first second i j + 1))"
proof -
  have prev: "rev (take k xs) \<noteq> [] \<longleftrightarrow> 0 < k" "0 < k \<Longrightarrow> hd (rev (take k xs)) = xs ! (k - 1)" "tl (rev (take k xs)) = rev (take (k - 1) xs)"
    if "k < length xs" for k and xs :: "'a list"
    using that by (cases k; simp add: rev_take_Suc)+
  show ?thesis unfolding entry_def rev_take_Suc [OF assms(1)] rev_take_Suc [OF assms(2)] osa.simps(3)
    using prev [OF assms(1)] prev [OF assms(2)] by (simp add: conj_ac cong: conj_cong)
qed

definition cells_filled :: "string \<Rightarrow> string \<Rightarrow> nat \<Rightarrow> nat \<Rightarrow> nat list list \<Rightarrow> bool" where
  "cells_filled first second i j m \<longleftrightarrow> length m = Suc (length second) \<and> (\<forall>k \<le> length second. length (m ! k) = Suc (length first) \<and> m ! k ! 0 = k) \<and>
     (\<forall>k < i. \<forall>l \<le> length first. m ! k ! l = entry first second k l) \<and> (i \<le> length second \<longrightarrow> (\<forall>l < j. m ! i ! l = entry first second i l))"

lemma Min_three: "Min {a, b, c} = min a (min b (c :: nat))"
  by simp

lemma cell_entry:
  assumes "CHR '' '' \<notin> set first" "CHR '' '' \<notin> set second" "cells_filled first second i j m" "1 \<le> i" "i \<le> length second" "1 \<le> j" "j \<le> length first"
  shows "Min (set (possible_choices (CHR '' '' # first) (CHR '' '' # second) m i j)) = entry first second i j"
proof -
  obtain i' j' where eq: "i = Suc i'" "j = Suc j'" using assms(4,6) by (metis Suc_le_D One_nat_def)
  have known: "m ! i' ! j = entry first second i' j" "m ! i ! j' = entry first second i j'" "m ! i' ! j' = entry first second i' j'"
    using assms(3,5,7) by (simp_all add: cells_filled_def eq)
  have space: "first ! j' \<noteq> CHR '' ''" "second ! i' \<noteq> CHR '' ''" using assms(1,2,5,7) eq by (metis Suc_le_eq nth_mem)+
  have swap: "first ! j' = (CHR '' '' # second) ! i' \<and> (CHR '' '' # first) ! j' = second ! i' \<longleftrightarrow>
      0 < j' \<and> 0 < i' \<and> first ! j' = second ! (i' - 1) \<and> first ! (j' - 1) = second ! i'"
    using space by (cases i'; cases j') auto
  have old: "at (at m (int i - 2)) (int j - 2) = entry first second (i' - 1) (j' - 1)" if "0 < i'" "0 < j'"
  proof -
    have "nat (int i - 2) = i' - 1" "nat (int j - 2) = j' - 1" "\<not> int i - 2 < 0" "\<not> int j - 2 < 0" using that eq by auto
    then show ?thesis using assms(3,7) eq by (simp add: at_def cells_filled_def)
  qed
  have choices: "set (possible_choices (CHR '' '' # first) (CHR '' '' # second) m i j) = {entry first second i' j + 1, entry first second i j' + 1,
      if first ! j' = second ! i' then entry first second i' j'
      else if 0 < j' \<and> 0 < i' \<and> first ! j' = second ! (i' - 1) \<and> first ! (j' - 1) = second ! i' then entry first second (i' - 1) (j' - 1) + 1
      else entry first second i' j' + 1}"
    using known swap old by (simp add: possible_choices_def eq)
  have "i' < length second" "j' < length first" using assms(5,7) eq by simp_all
  then show ?thesis unfolding choices Min_three using entry_step [of i' second j' first] by (simp only: eq)
qed

lemma fill_cell_filled:
  assumes "CHR '' '' \<notin> set first" "CHR '' '' \<notin> set second" "cells_filled first second i j m" "1 \<le> i" "i \<le> length second" "1 \<le> j" "j \<le> length first"
  shows "cells_filled first second i (Suc j) (fill_cell (CHR '' '' # first) (CHR '' '' # second) i j m)"
proof -
  let ?n = "fill_cell (CHR '' '' # first) (CHR '' '' # second) i j m"
  have n: "?n = m[i := (m ! i)[j := entry first second i j]]" unfolding fill_cell_def cell_entry [OF assms] by simp
  have row: "?n ! i = (m ! i)[j := entry first second i j]" and others: "\<And>k. k \<noteq> i \<Longrightarrow> ?n ! k = m ! k"
    using assms(3,5) by (simp_all add: n cells_filled_def)
  have shape: "length (m ! k) = Suc (length first)" "m ! k ! 0 = k" if "k \<le> length second" for k using assms(3) that by (simp_all add: cells_filled_def)
  have "length (?n ! k) = Suc (length first) \<and> ?n ! k ! 0 = k" if "k \<le> length second" for k
    using shape [OF that] assms(6) row others by (cases "k = i") simp_all
  moreover have "?n ! k ! l = entry first second k l" if "k < i" "l \<le> length first" for k l
    using that others [of k] assms(3) by (simp add: cells_filled_def)
  moreover have "?n ! i ! l = entry first second i l" if "l < Suc j" for l
    using that shape [OF assms(5)] assms(3,5,7) by (cases "l = j") (simp_all add: row cells_filled_def)
  moreover have "length ?n = Suc (length second)" using assms(3) by (simp add: n cells_filled_def)
  ultimately show ?thesis unfolding cells_filled_def by blast
qed

lemma fill_row_filled:
  assumes "CHR '' '' \<notin> set first" "CHR '' '' \<notin> set second" "cells_filled first second i 1 m" "1 \<le> i" "i \<le> length second"
  shows "cells_filled first second (Suc i) 1 (fill_row (CHR '' '' # first) (CHR '' '' # second) i m)"
proof -
  have "length (m ! 0) = Suc (length first)" using assms(3) by (simp add: cells_filled_def)
  then have "cells_filled first second i (Suc (length first)) (fill_row (CHR '' '' # first) (CHR '' '' # second) i m)"
    unfolding fill_row_def
    using fold_upt_inv [of 1 "Suc (length first)" "\<lambda>j. cells_filled first second i j" m "fill_cell (CHR '' '' # first) (CHR '' '' # second) i"]
      fill_cell_filled [OF assms(1,2) _ assms(4,5)] assms(3) by simp
  then show ?thesis using assms(5) entry_borders(2) [of "Suc i" second first] by (simp add: cells_filled_def less_Suc_eq_le) (metis le_neq_implies_less)
qed

lemma initial_filled: "cells_filled first second 1 1 (initial_matrix (Suc (length second)) (Suc (length first)))"
proof -
  let ?shape = "\<lambda>m. length m = Suc (length second) \<and> (\<forall>k \<le> length second. length (m ! k) = Suc (length first))"
  let ?m = "fold (\<lambda>i m. m[i := (m ! i)[0 := i]]) [0..<Suc (length second)] (replicate (Suc (length second)) (replicate (Suc (length first)) (0 :: nat)))"
  have columns: "?shape ?m \<and> (\<forall>k < Suc (length second). ?m ! k ! 0 = k)"
    by (rule fold_upt_inv [where P = "\<lambda>i m. ?shape m \<and> (\<forall>k < i. m ! k ! 0 = k)"]) (auto simp: nth_list_update less_Suc_eq_le simp del: replicate_Suc)
  have "?shape (initial_matrix (Suc (length second)) (Suc (length first))) \<and>
      (\<forall>k < Suc (length second). initial_matrix (Suc (length second)) (Suc (length first)) ! k ! 0 = k) \<and>
      (\<forall>l < Suc (length first). initial_matrix (Suc (length second)) (Suc (length first)) ! 0 ! l = l)"
    unfolding initial_matrix_def Let_def
    by (rule fold_upt_inv [where P = "\<lambda>j m. ?shape m \<and> (\<forall>k < Suc (length second). m ! k ! 0 = k) \<and> (\<forall>l < j. m ! 0 ! l = l)"])
      (use columns in \<open>auto simp: nth_list_update less_Suc_eq simp del: replicate_Suc upt_Suc\<close>)
  then show ?thesis by (auto simp: cells_filled_def entry_borders less_Suc_eq_le)
qed

lemma distance_osa:
  assumes "CHR '' '' \<notin> set first" "CHR '' '' \<notin> set second"
  shows "restricted_damarau_levenshtein first second = osa (rev first) (rev second)"
proof -
  let ?m = "fold (fill_row (CHR '' '' # first) (CHR '' '' # second)) [1..<Suc (length second)] (initial_matrix (Suc (length second)) (Suc (length first)))"
  have "cells_filled first second (Suc (length second)) 1 ?m"
    by (rule fold_upt_inv [where P = "\<lambda>i. cells_filled first second i 1"]) (use initial_filled fill_row_filled [OF assms] in \<open>auto simp: less_Suc_eq_le\<close>)
  moreover have "length (initial_matrix (Suc (length second)) (Suc (length first))) = Suc (length second)" using initial_filled by (simp add: cells_filled_def)
  ultimately show ?thesis by (simp add: restricted_damarau_levenshtein_def at_def cells_filled_def entry_def del: upt_Suc)
qed

section \<open>The words of names\<close>

lemma words_no_space: "w \<in> set (words s) \<Longrightarrow> CHR '' '' \<notin> set w"
proof (induction s rule: words.induct)
  case (2 c s)
  have "CHR '' '' \<notin> set (takeWhile (\<lambda>c. \<not> is_space c) (c # s))" by (auto dest: set_takeWhileD simp: is_space_def split: if_splits)
  then show ?case using 2 by (auto split: if_splits)
qed simp

lemma distance_zero:
  assumes "CHR '' '' \<notin> set first" "CHR '' '' \<notin> set second"
  shows "restricted_damarau_levenshtein first second = 0 \<longleftrightarrow> first = second"
proof -
  have "edits first second (osa (rev first) (rev second))" using edits_rev [OF osa_edits [of "rev first" "rev second"]] by simp
  moreover have "edits first second 0 \<Longrightarrow> osa (rev first) (rev second) \<le> 0" using osa_least [OF edits_rev [of first second 0]] by simp
  ultimately show ?thesis using distance_osa [OF assms] edits_zero [of first second] by auto
qed

text \<open>A word that occurs is matched where it first does; the matching of a word that does not costs something.\<close>

lemma best_match_fold:
  fixes n1 :: string
  defines "step \<equiv> \<lambda>(i, n2) best. let diff = restricted_damarau_levenshtein n1 n2 in if diff < snd best then (i :: nat, diff) else best"
  assumes "CHR '' '' \<notin> set n1" "\<forall>n2 \<in> set ns. CHR '' '' \<notin> set n2"
  shows "snd best = 0 \<Longrightarrow> fold step (zip [k..<k + length ns] ns) best = best"
    "0 < snd best \<Longrightarrow> n1 \<in> set ns \<Longrightarrow> fold step (zip [k..<k + length ns] ns) best = (k + length (takeWhile (\<lambda>n. n \<noteq> n1) ns), 0)"
    "0 < snd best \<Longrightarrow> n1 \<notin> set ns \<Longrightarrow> 0 < snd (fold step (zip [k..<k + length ns] ns) best)"
proof -
  show zero: "fold step (zip [k..<k + length ns] ns) best = best" if "snd best = 0" for k and ns :: "string list" and best
    using that
  proof (induction ns arbitrary: k)
    case (Cons n ns)
    then show ?case using Cons.IH [of "Suc k"] by (simp add: upt_conv_Cons step_def Let_def del: upt_Suc)
  qed simp
  show "fold step (zip [k..<k + length ns] ns) best = (k + length (takeWhile (\<lambda>n. n \<noteq> n1) ns), 0)" if "0 < snd best" "n1 \<in> set ns"
    using that assms(3)
  proof (induction ns arbitrary: k best)
    case (Cons n ns)
    have zip: "zip [k..<k + length (n # ns)] (n # ns) = (k, n) # zip [Suc k..<Suc k + length ns] ns" by (simp add: upt_conv_Cons del: upt_Suc)
    have d: "restricted_damarau_levenshtein n1 n = 0 \<longleftrightarrow> n1 = n" using distance_zero [OF assms(2)] Cons.prems(3) by simp
    show ?case
    proof (cases "n1 = n")
      case True
      then have "step (k, n) best = (k, 0)" using d Cons.prems(1) by (simp add: step_def)
      then show ?thesis using zero [of "(k, 0)" "Suc k" ns] True unfolding zip by simp
    next
      case False
      then have "0 < snd (step (k, n) best)" using d Cons.prems(1) by (simp add: step_def Let_def)
      then show ?thesis using Cons.IH [of "step (k, n) best" "Suc k"] Cons.prems False unfolding zip by simp
    qed
  qed simp
  show "0 < snd (fold step (zip [k..<k + length ns] ns) best)" if "0 < snd best" "n1 \<notin> set ns"
    using that assms(3)
  proof (induction ns arbitrary: k best)
    case (Cons n ns)
    have zip: "zip [k..<k + length (n # ns)] (n # ns) = (k, n) # zip [Suc k..<Suc k + length ns] ns" by (simp add: upt_conv_Cons del: upt_Suc)
    have "restricted_damarau_levenshtein n1 n \<noteq> 0" using distance_zero [OF assms(2)] Cons.prems(2,3) by simp
    then have "0 < snd (step (k, n) best)" using Cons.prems(1) by (simp add: step_def Let_def)
    then show ?case using Cons.IH [of "step (k, n) best" "Suc k"] Cons.prems unfolding zip by simp
  qed simp
qed

lemma best_match_exact:
  assumes "CHR '' '' \<notin> set n1" "\<forall>n2 \<in> set names2. CHR '' '' \<notin> set n2"
  shows "n1 \<in> set names2 \<Longrightarrow> best_match n1 names2 = (Suc (length (takeWhile (\<lambda>n. n \<noteq> n1) names2)), 0)"
    "n1 \<notin> set names2 \<Longrightarrow> 0 < snd (best_match n1 names2)"
  using best_match_fold(2,3) [OF assms, of "(0, 5)" 1] unfolding best_match_def by (simp_all del: upt_Suc)

text \<open>Taking the first occurrence each time finds a subsequence if there is one.\<close>

lemma subseq_greedy: "subseq (x # xs) ys \<longleftrightarrow> x \<in> set ys \<and> subseq xs (drop (Suc (length (takeWhile (\<lambda>y. y \<noteq> x) ys))) ys)"
  by (induction ys) auto

lemma diff_loop_total: "total_difference \<le> diff_loop threshold total_difference names1 names2"
proof (induction names1 arbitrary: total_difference names2)
  case (Cons n1 names1)
  show ?case using Cons.IH [of "total_difference + snd (best_match n1 names2)" "drop (fst (best_match n1 names2)) names2"] by (simp add: Let_def)
qed simp

lemma diff_loop_zero:
  assumes "0 \<le> threshold" "\<forall>n \<in> set names1. CHR '' '' \<notin> set n" "\<forall>n \<in> set names2. CHR '' '' \<notin> set n"
  shows "diff_loop threshold 0 names1 names2 = 0 \<longleftrightarrow> subseq names1 names2"
  using assms(2,3)
proof (induction names1 arbitrary: names2)
  case (Cons n1 names1)
  show ?case
  proof (cases "n1 \<in> set names2")
    case True
    have "best_match n1 names2 = (Suc (length (takeWhile (\<lambda>n. n \<noteq> n1) names2)), 0)" using best_match_exact(1) True Cons.prems by simp
    moreover have "\<forall>n \<in> set (drop k names2). CHR '' '' \<notin> set n" for k using Cons.prems(2) in_set_dropD by metis
    ultimately show ?thesis using Cons.IH Cons.prems(1) True assms(1) by (simp add: subseq_greedy Let_def)
  next
    case False
    have "0 < snd (best_match n1 names2)" using best_match_exact(2) False Cons.prems by simp
    then have "diff_loop threshold 0 (n1 # names1) names2 \<noteq> 0"
      using diff_loop_total [of "snd (best_match n1 names2)" threshold names1 "drop (fst (best_match n1 names2)) names2"] by (simp add: Let_def)
    then show ?thesis using False by (simp add: subseq_greedy)
  qed
qed simp

section \<open>What the two functions compute\<close>

text \<open>
  C23: the distance of two strings without spaces is the least number of deletions, insertions, substitutions and exchanges
  of neighbours, none of which is edited again, that make the second of the first.
\<close>

theorem distance_is_least:
  assumes "CHR '' '' \<notin> set first" "CHR '' '' \<notin> set second"
  shows "edits first second (restricted_damarau_levenshtein first second) \<and> (\<forall>n. edits first second n \<longrightarrow> restricted_damarau_levenshtein first second \<le> n)"
  unfolding distance_osa [OF assms] using edits_rev [OF osa_edits [of "rev first" "rev second"]] osa_least [OF edits_rev] by fastforce

text \<open>The distance between a word and the same word with its last two letters exchanged is 1.\<close>

theorem distance_is_least_witness:
  "edits ''oal'' ''ola'' (restricted_damarau_levenshtein ''oal'' ''ola'') \<and> restricted_damarau_levenshtein ''oal'' ''ola'' \<le> 1"
proof -
  have "edits ''oal'' ''ola'' 1" using edits.same [OF edits.transpose [OF edits.nothing]] by simp
  then show ?thesis using distance_is_least [of "''oal''" "''ola''"] by simp
qed

text \<open>
  C24: with a threshold that is not negative, two names differ by 0 exactly if the words of the one with fewer words, or of the
  first name if they have as many, are found in the other in the same order.
\<close>

theorem name_diff_zero:
  assumes "0 \<le> threshold"
  shows "name_diff full_name1 full_name2 threshold = 0 \<longleftrightarrow>
    (if length (words full_name2) < length (words full_name1) then subseq (words full_name2) (words full_name1)
     else subseq (words full_name1) (words full_name2))"
  using diff_loop_zero [OF assms] words_no_space by (simp add: name_diff_def)

text \<open>The example of the source: \<^verbatim>\<open>foo bar\<close> and \<^verbatim>\<open>foo test bar\<close>.\<close>

theorem name_diff_zero_witness: "name_diff ''foo bar'' ''foo test bar'' 2 = 0 \<and> name_diff ''bar foo'' ''foo test bar'' 2 \<noteq> 0"
proof -
  have "words ''foo bar'' = [''foo'', ''bar'']" "words ''bar foo'' = [''bar'', ''foo'']" "words ''foo test bar'' = [''foo'', ''test'', ''bar'']" by code_simp+
  then show ?thesis using name_diff_zero [of 2 "''foo bar''" "''foo test bar''"] name_diff_zero [of 2 "''bar foo''" "''foo test bar''"] by simp
qed

text \<open>
  A space is taken for the room in front of the strings. An exchange with it reads the last row and the last column of the
  matrix, where there is still a zero: the distance of two strings, of which one has two letters and a space more, is 1.
\<close>

lemma distance_of_spaces:
  "restricted_damarau_levenshtein ''xya bc'' ''abc'' = 1 \<and> \<not> edits ''xya bc'' ''abc'' 1 \<and> \<not> edits ''xya bc'' ''abc'' 2"
proof -
  have "restricted_damarau_levenshtein ''xya bc'' ''abc'' = 1" "osa ''xya bc'' ''abc'' = 3" by code_simp+
  then show ?thesis using osa_least [of "''xya bc''" "''abc''" 1] osa_least [of "''xya bc''" "''abc''" 2] by auto
qed

end
