(* ===== verification/Spec2Isabelle.thy ===== *)
theory Spec2Isabelle
  imports Job_Ipc Task_Processor Fodselsnr Tree_Model Org_Unit Quarantine Subnet Pw_Checker
    Cere_Groups Policy_Cmds Event_Merge Cache Entity_Sync Usernames Accounts Account_Homes Pw_Dictionary Affiliations Configs String_Match
begin

text \<open>
  Cerebrum is a user administration system: a database of persons, accounts, groups and organisational
  units, imports that fill it, exports and synchronisations that empty it into other systems, and a
  scheduler that runs them. This development models the parts of it that compute.

  \<^bold>\<open>The parts and how they interact.\<close> The job runner (\<^verbatim>\<open>src/Cerebrum/modules/job_runner\<close>) reads a
  configuration of jobs, decides when each is due (\<^verbatim>\<open>times.py\<close>), checks the dependencies of the
  configuration and knows how to start and reap a job (\<^verbatim>\<open>job_actions.py\<close>), keeps the queue of ready jobs
  (\<^verbatim>\<open>queue.py\<close>), loops over it (\<^verbatim>\<open>__init__.py\<close>), takes commands over a socket (\<^verbatim>\<open>socket_ipc.py\<close>) and
  reports its health (\<^verbatim>\<open>health.py\<close>). Some of the jobs process the task queue (\<^verbatim>\<open>src/Cerebrum/modules/tasks\<close>):
  imports push tasks into a table, a processor pops the ones that are due, runs a handler in a transaction and
  pushes a failed task back with a growing delay. The imports of organisational units
  (\<^verbatim>\<open>src/Cerebrum/modules/ou_import\<close>) turn what a source system delivers into units and build the tree they
  form; those of persons check national identity numbers (\<^verbatim>\<open>src/Cerebrum/modules/no/fodselsnr.py\<close>). Exports
  ask the quarantine handler (\<^verbatim>\<open>src/Cerebrum/QuarantineHandler.py\<close>) which entities to leave out or lock. The
  DNS module (\<^verbatim>\<open>src/Cerebrum/modules/dns\<close>) administers subnets and hands out their free addresses, and the hosts it
  knows are given policies (\<^verbatim>\<open>src/Cerebrum/modules/hostpolicy\<close>): roles, which contain other roles and atoms. New passwords go
  through the checks a site has configured (\<^verbatim>\<open>src/Cerebrum/modules/pwcheck\<close>). Groups (\<^verbatim>\<open>src/Cerebrum/Group.py\<close>) have
  members, which may be groups again; searching them and searching the policies use the same closures, over clauses
  that \<^verbatim>\<open>src/Cerebrum/Utils.py\<close> builds from their arguments. What a source system says about a person reaches the tables of
  \<^verbatim>\<open>src/Cerebrum/Entity.py\<close> through the classes of \<^verbatim>\<open>src/Cerebrum/modules/import_utils/syncs.py\<close>. Every change is logged, and
  the events of a transaction are merged before they are published (\<^verbatim>\<open>src/Cerebrum/modules/event_publisher/event.py\<close>).
  An account (\<^verbatim>\<open>src/Cerebrum/Account.py\<close>) gets a user name made of the names of its owner
  (\<^verbatim>\<open>src/Cerebrum/utils/username.py\<close>), types that say which affiliation of the owner it serves, and a home for every spread.
  Those affiliations (\<^verbatim>\<open>src/Cerebrum/Person.py\<close>) have a precedence, given or found by rules of the configuration.
  All modules describe their configuration by classes of settings (\<^verbatim>\<open>src/Cerebrum/config\<close>), loaded from files.
  Several modules keep results in the caches of \<^verbatim>\<open>src/Cerebrum/Cache.py\<close>.

  \<^bold>\<open>The theories.\<close>
  \<^item> \<open>Cere_Prelude\<close>: exceptions as values (\<open>res\<close>, \<open>res_bind\<close>), dictionaries, lists, and the locale
    \<open>invariant_system\<close>, the principle every invariant of a step relation is proved by.
  \<^item> \<open>Py_Strings\<close>: the string operations of Python the sources use.
  \<^item> \<open>Times\<close>: \<^verbatim>\<open>times.py\<close>; the loop of \<^verbatim>\<open>Time.next_time\<close> with its ten rounds and its three stages. A
    specification with minutes and hours gets the earliest matching moment; one without hours may leave its
    weekday.
  \<^item> \<open>Job_Actions\<close>: \<^verbatim>\<open>job_actions.py\<close>; lock files, children and the checks of a configuration. The marking
    depth-first search decides acyclicity of the pre-graph, which is what the documentation of \<^verbatim>\<open>get_jobs\<close> promises as long as post-jobs close
    no cycle of their own; a lock held by a live process excludes others.
  \<^item> \<open>Job_Queue\<close>: \<^verbatim>\<open>queue.py\<close>; filling the queue, ordering by dependencies, the question whether a job must
    wait. The queue is filled with exactly what may be queued, pre-jobs come first, the recursive search for
    prerequisites decides its declarative reading, and without post-jobs the scheduler never stands still; two
    examples show what post-jobs break.
  \<^item> \<open>Job_Runner\<close>: \<^verbatim>\<open>__init__.py\<close>; the loop as functions over the record \<open>runner\<close> and an arbitrary operating
    system, and the step relation \<open>runner_step\<close> of its passes, whose interpretation \<open>scheduler\<close> of
    \<open>invariant_system\<close> gives mutual exclusion, as far as the setup of the jobs declares it, and the bound on parallel jobs.
  \<^item> \<open>Job_Ipc\<close>: \<^verbatim>\<open>socket_ipc.py\<close> and \<^verbatim>\<open>health.py\<close>; framing over arbitrary chunks, what each command may change,
    and the agreement of the report with the scheduler's verdict.
  \<^item> \<open>Task_Queue\<close>: \<^verbatim>\<open>task_models.py\<close> and \<^verbatim>\<open>task_queue.py\<close>. The table is a list of rows; the locale \<open>keyed_store\<close>
    says what a store with a primary key promises, and its interpretation on the table shows that push and pop
    refine update and deletion of a map.
  \<^item> \<open>Task_Processor\<close>: \<^verbatim>\<open>backoff.py\<close>, \<^verbatim>\<open>queue_handler.py\<close>, \<^verbatim>\<open>queue_processor.py\<close> and the transaction of
    \<^verbatim>\<open>database/ctx.py\<close>, over the laws of \<open>keyed_store\<close>: a failed task is never lost.
  \<^item> \<open>Fodselsnr\<close>: \<^verbatim>\<open>fodselsnr.py\<close>; which numbers are accepted (those of the form DDMMYY00X00 apart, whose check digits the code does not
    pass over), and that the two control digits detect every
    single wrong digit and every exchange of neighbours.
  \<^item> \<open>Tree_Model\<close>: \<^verbatim>\<open>tree_model.py\<close>; nodes with parent and child pointers in a store, and the forest they stay.
  \<^item> \<open>Org_Unit\<close>: \<^verbatim>\<open>ou_model.py\<close>; location codes and the dictionary form of units, as round trips.
  \<^item> \<open>Quarantine\<close>: \<^verbatim>\<open>QuarantineHandler.py\<close>; the rule that applies to each quarantine, the state the class
    shares among its objects, and the agreement of the bulk search with the single one.
  \<^item> \<open>Ip_Calc\<close>: \<^verbatim>\<open>IPUtils.py\<close> and the numbers of \<^verbatim>\<open>IPv6Utils.py\<close>; \<open>Subnet\<close>: \<^verbatim>\<open>Subnet.py\<close> and the search for
    free addresses of \<^verbatim>\<open>dns/Utils.py\<close>, with \<open>dns_step\<close> for the operations on the tables and the invariant
    that subnets are disjoint.
  \<^item> \<open>Pw_Checks\<close>: the checks of \<^verbatim>\<open>simple.py\<close>, \<^verbatim>\<open>phrase.py\<close> and \<^verbatim>\<open>history_checks.py\<close>, over Unicode strings;
    \<open>Pw_Checker\<close>: the loop of \<^verbatim>\<open>checker.py\<close>, whose two kinds of answer agree as long as no style names a check
    twice; \<open>Pw_Dictionary\<close>: \<^verbatim>\<open>dictionary.py\<close>, whose binary search over the blocks of a file is shown equal to a linear one, and
    whose word search is exact on the first dictionary.
  \<^item> \<open>Sql_Args\<close>: what \<^verbatim>\<open>argument_to_sql\<close> selects; \<open>Closure\<close>: the two loops that collect what a relation reaches, as
    \<open>while_option\<close>, and the locale \<open>finite_search\<close> of the searches they are given, in which both are shown to return and to
    be exact.
  \<^item> \<open>Cere_Groups\<close>: \<^verbatim>\<open>Group.py\<close>, \<^verbatim>\<open>GroupRoles.py\<close> and \<^verbatim>\<open>memberships.py\<close>. The indirect searches are exact, loops among the
    groups or not; the recursive SQL query agrees with them while its depth limit suffices; \<open>group_step\<close> has the operations on
    the tables, and their consistency as invariant; a group that owns accounts, or that other rows refer to, cannot be deleted.
  \<^item> \<open>Host_Policy\<close>: \<^verbatim>\<open>PolicyComponent.py\<close>; \<open>Policy_Cmds\<close>: the commands of \<^verbatim>\<open>bofhd_hostpolicy_cmds.py\<close> with the step
    relation \<open>policy_step\<close>. Consistent tables and memberships without loops are invariants, as long as roles are given by name;
    the listings and the check of \<^verbatim>\<open>host policy_add\<close> then return and are exact.
  \<^item> \<open>Event_Merge\<close>: \<^verbatim>\<open>event.py\<close>; merging ends, treats subjects apart, and lets a deletion or a creation absorb the rest; what it
    fails to merge and what it loses.
  \<^item> \<open>Cache\<close>: \<^verbatim>\<open>Cache.py\<close>; the chains of the mixins in any order, with the registry in step with the dictionary as invariant, a
    refinement of the list of most recently used entries, and the correctness of memoization.
  \<^item> \<open>Entity_Sync\<close>: contact information, addresses and external ids of \<^verbatim>\<open>Entity.py\<close> and the synchronisations of \<^verbatim>\<open>syncs.py\<close>. The
    locales \<open>key_value_sync\<close> and \<open>total_sync\<close> say what a subclass promises, and are interpreted on the three subclasses: a
    synchronisation leaves exactly what was delivered and is idempotent.
  \<^item> \<open>Usernames\<close>: \<^verbatim>\<open>username.py\<close>, the chain \<^verbatim>\<open>for_posix\<close> of \<^verbatim>\<open>transliterate.py\<close> and the validation of \<^verbatim>\<open>Account.py\<close>; which
    exception is raised when, that suggestions are valid and fit, and three examples in which they go wrong.
  \<^item> \<open>Priority_Rows\<close>: the locale \<open>priority_rows\<close> of tables whose rows have an owner and a number no other row of the owner has,
    with what moving up a run of neighbours does to them. \<open>Accounts\<close> and \<open>Affiliations\<close> interpret it.
  \<^item> \<open>Accounts\<close>: \<^verbatim>\<open>AccountType\<close> of \<^verbatim>\<open>Account.py\<close>; a type gets the priority asked for and pushes only the run in its way, by a
    recursion that terminates as the priorities above are finite; the search for primary accounts is exact.
  \<^item> \<open>Account_Homes\<close>: \<^verbatim>\<open>AccountHome\<close> of \<^verbatim>\<open>Account.py\<close>; setting and clearing homes refine a map, directories are collected exactly
    when unused, and \<open>home_step\<close> keeps every home resolvable.
  \<^item> \<open>Affiliations\<close>: the affiliations of \<^verbatim>\<open>Person.py\<close> with the rules of precedence, and \<^verbatim>\<open>AffiliationSync\<close> of \<^verbatim>\<open>syncs.py\<close>; adding
    one moves up only the run in its way, and after a synchronisation the person has exactly what the source delivered.
  \<^item> \<open>Settings\<close>: \<^verbatim>\<open>settings.py\<close>, \<^verbatim>\<open>configuration.py\<close>, \<^verbatim>\<open>errors.py\<close> and \<^verbatim>\<open>loader.py\<close> of \<^verbatim>\<open>src/Cerebrum/config\<close>. Validating, setting and
    unserialising call each other through nested classes; they are one recursion over the size of a setting, for which the loops over
    a class have congruence rules. \<open>Configs\<close>: stored values are valid, an invariant of \<open>conf_step\<close>; what validation reports; dumping and loading
    as a round trip; and examples of where loading surprises.
  \<^item> \<open>String_Match\<close>: \<^verbatim>\<open>src/Cerebrum/utils/stringmatch.py\<close>. The distance that fills a matrix is shown to be the least number of edits, by way of
    the same recursion over lists, and the difference of two names to be zero exactly if one has the words of the other in their order.

  \<^bold>\<open>Conventions.\<close> A class is a record and its methods are functions from the record to a new one, inside
  \<open>res\<close> where they may raise. An exception that leaves a transaction or the loop carries no state, because the
  code rolls back or stops there. Clocks, the operating system, database sequences, floating point logarithms,
  JSON texts and the order in which Python 2 iterates over a dictionary are arguments; the theorems hold for
  all of them, or name what they need as a hypothesis. Log calls and texts that are only displayed are left
  out. A database is a record of the tables a component uses, each a list of rows; a statement that the schema's
  constraints would refuse is an exception. The widths of text columns are checked in \<open>Entity_Sync\<close> and for new groups; elsewhere texts are taken to fit. Strings are lists of 8-bit characters, except passwords, which are lists of code points; times are whole seconds, and integers are unbounded as in Python.

  \<^bold>\<open>Bounds.\<close> Two methods recurse without a bound of their own, \<^verbatim>\<open>has_queued_prerequisite\<close> and \<^verbatim>\<open>Node.path\<close>.
  Their fuel is the recursion limit of the interpreter, and running out of it is the exception Python raises.
  So do the listings of the policy commands and the search for a rule of precedence, for which two calls suffice. The theorems say which limit suffices: one above the number of jobs or of policies,
  or two above the number of nodes. The closures are \<open>while_option\<close>, and are shown to return for every finite table. \<^verbatim>\<open>next_time\<close> has the
  source's own ten rounds, which the theorem shows to be enough. Everything else
  terminates by a measure. The main loop is modelled pass by pass, since it is meant to run for ever.

  \<^bold>\<open>Not modelled.\<close> The rest of the row-object mapping of entities, accounts, persons and e-mail (\<^verbatim>\<open>Entity.py\<close>,
  \<^verbatim>\<open>Account.py\<close>, \<^verbatim>\<open>Person.py\<close>, \<^verbatim>\<open>modules/Email.py\<close>), whose methods are single SQL statements; the other
  bofhd commands and their authorisation, which rest on that mapping; the synchronisation with Active Directory
  and other services that are not part of the repository; LDIF and other exports, event publishing and the
  command line scripts, which are input and output; and the text forms of IPv6 addresses.

  \<^bold>\<open>Plan.\<close> Next are the text
  forms of IPv6 addresses, the synchronisation of names, and the remaining helpers of \<^verbatim>\<open>utils\<close>.
\<close>

end
